(* ===== verification/Prelude.thy ===== *)
theory Prelude
  imports Main "HOL-Library.Word" "HOL-Library.Sublist"
begin

text \<open>
  Shared material of the development: the collections of rewrite rules that the component
  theories fill (\<open>prop_bits\<close> for property-bit arithmetic, \<open>fst_ops\<close> for the VectorFst
  operations), and generic facts on words, lists, options and relations that several
  components use.
\<close>

unbundle bit_operations_syntax

named_theorems prop_bits \<open>bit-level facts on the property words of properties.h\<close>
named_theorems fst_ops \<open>definitions of the VectorFst operations\<close>

section \<open>Words\<close>

lemma bit_power_word64: "k < 64 \<Longrightarrow> bit (2 ^ k :: 64 word) n \<longleftrightarrow> n = k"
  by (auto simp: bit_exp_iff possible_bit_def)

lemma bit_if: "bit (if b then x else y) n \<longleftrightarrow> b \<and> bit x n \<or> \<not> b \<and> bit y n"
  by simp

lemma bit_If: "bit (if b then x else y) n = (if b then bit x n else bit y n)"
  by simp

lemma word_and_nonzero_iff: "(a AND b :: 64 word) \<noteq> 0 \<longleftrightarrow> (\<exists>n. bit a n \<and> bit b n)"
proof -
  have "bit a n \<Longrightarrow> n < 64" for n using bit_imp_le_length [of a n] by simp
  then show ?thesis by (auto simp: bit_eq_iff bit_and_iff)
qed

lemma bit_NOT_word64: "n < 64 \<Longrightarrow> bit (NOT a :: 64 word) n \<longleftrightarrow> \<not> bit a n"
  by (simp add: bit_not_iff possible_bit_def)

declare bit_if [prop_bits] bit_and_iff [prop_bits] bit_or_iff [prop_bits] bit_NOT_word64 [prop_bits]

section \<open>Lists\<close>

lemma sorted_snoc: "sorted (xs @ [x]) \<longleftrightarrow> sorted xs \<and> (xs = [] \<or> last xs \<le> x)"
proof (cases xs rule: rev_cases)
  case Nil
  then show ?thesis by simp
next
  case (snoc ys y)
  then show ?thesis by (fastforce simp: sorted_append)
qed

lemma last_map_or_nil: "(map f xs = [] \<or> P (last (map f xs))) \<longleftrightarrow> (xs = [] \<or> P (f (last xs)))"
  by (cases xs) (simp_all add: last_map)

lemma sorted_butlast': "sorted (map f xs) \<Longrightarrow> sorted (map f (take n xs))"
  by (metis sorted_wrt_take take_map)

lemma subseq_subset: "subseq xs ys \<Longrightarrow> set xs \<subseteq> set ys"
  by (metis subseq_conv_nths set_nths_subset)

lemma subseq_distinct: "subseq xs ys \<Longrightarrow> distinct ys \<Longrightarrow> distinct xs"
  by (metis distinct_nthsI subseq_conv_nths)

lemma subseq_sorted: "subseq xs ys \<Longrightarrow> sorted ys \<Longrightarrow> sorted xs"
  by (metis sorted_nths subseq_conv_nths)

section \<open>Relations\<close>

lemma trancl_sub: "(a, b) \<in> r\<^sup>+ \<Longrightarrow> r \<subseteq> s \<Longrightarrow> (a, b) \<in> s\<^sup>+"
  by (rule trancl_mono)

lemma rtrancl_sub: "(a, b) \<in> r\<^sup>* \<Longrightarrow> r \<subseteq> s \<Longrightarrow> (a, b) \<in> s\<^sup>*"
  using rtrancl_mono by blast

lemma trancl_increasing:
  fixes r :: "(nat \<times> nat) set"
  assumes "\<And>a b. (a, b) \<in> r \<Longrightarrow> a < b" "(a, b) \<in> r\<^sup>+"
  shows "a < b"
  using assms(2) by induction (use assms(1) in \<open>auto intro: less_trans\<close>)

lemma trancl_map:
  assumes "(a, b) \<in> r\<^sup>+" "\<And>x y. (x, y) \<in> r \<Longrightarrow> (g x, g y) \<in> s"
  shows "(g a, g b) \<in> s\<^sup>+"
  using assms(1) by induction (auto intro: assms(2) trancl_into_trancl)

lemma rtrancl_map:
  assumes "(a, b) \<in> r\<^sup>*" "\<And>x y. (x, y) \<in> r \<Longrightarrow> (g x, g y) \<in> s"
  shows "(g a, g b) \<in> s\<^sup>*"
  using assms(1) by induction (auto intro: assms(2) rtrancl_into_rtrancl)


text \<open>
  A relation in which every edge either raises a rank or belongs to \<open>d\<close> and keeps it: a path that
  does not raise the rank is a path of \<open>d\<close>.
\<close>

lemma trancl_ranked:
  fixes \<rho> :: "'a \<Rightarrow> nat"
  assumes "\<And>a b. (a, b) \<in> r \<Longrightarrow> \<rho> a < \<rho> b \<or> (a, b) \<in> d \<and> \<rho> a = \<rho> b" "(a, b) \<in> r\<^sup>+"
  shows "\<rho> a < \<rho> b \<or> (a, b) \<in> d\<^sup>+ \<and> \<rho> a = \<rho> b"
  using assms(2)
proof induction
  case (step b c)
  then show ?case using assms(1) [of b c] by (auto intro: trancl_into_trancl)
qed (use assms(1) in auto)

lemma trancl_disjoint_Un:
  assumes "A \<subseteq> P \<times> P" "B \<subseteq> Q \<times> Q" "P \<inter> Q = {}" "(a, b) \<in> (A \<union> B)\<^sup>+"
  shows "(a, b) \<in> A\<^sup>+ \<or> (a, b) \<in> B\<^sup>+"
  using assms(4)
proof induction
  case (step b c)
  have "A\<^sup>+ \<subseteq> P \<times> P" "B\<^sup>+ \<subseteq> Q \<times> Q" using assms by (simp_all add: trancl_subset_Sigma)
  then have "(a, b) \<in> A\<^sup>+ \<Longrightarrow> (b, c) \<in> A" "(a, b) \<in> B\<^sup>+ \<Longrightarrow> (b, c) \<in> B" using step assms by blast+
  then show ?case using step.IH by (auto intro: trancl_into_trancl)
qed auto

end
