(* ===== verification/Weight.thy ===== *)
theory Weight
  imports Prelude
begin

text \<open>
  The weight interface of src/openfst/lib/weight.h and the arc of src/openfst/lib/arc.h.
  A weight class is a record of its operations (\<open>weight_ops\<close>); the algorithms of the library
  are templates over such a class and take the record as an argument. What the comment at the
  top of weight.h requires of a weight class is stated as locales: \<open>weight_monoid\<close> (the Times
  part, which is all that path weights need), \<open>left_semiring\<close>, \<open>right_semiring\<close>,
  \<open>weight_semiring\<close>, and \<open>reversible_weight\<close> for the Reverse map. Every locale takes the
  set \<open>M\<close> of weights on which the laws hold; the weight classes of the library reserve some
  values (\<open>NoWeight()\<close>) for errors, and the laws are claimed of the others only.
\<close>

section \<open>Weights\<close>

datatype DivideType = DIVIDE_LEFT | DIVIDE_RIGHT | DIVIDE_ANY

record 'w weight_ops =
  Zero :: 'w
  One :: 'w
  NoWeight :: 'w
  Plus :: "'w \<Rightarrow> 'w \<Rightarrow> 'w"
  Times :: "'w \<Rightarrow> 'w \<Rightarrow> 'w"
  Weq :: "'w \<Rightarrow> 'w \<Rightarrow> bool"  \<comment> \<open>\<open>operator==\<close>\<close>
  Member :: "'w \<Rightarrow> bool"

text \<open>The test \<open>w != Weight::Zero() && w != Weight::One()\<close>.\<close>

definition nontrivial :: "('w, 'z) weight_ops_scheme \<Rightarrow> 'w \<Rightarrow> bool" where
  "nontrivial W w \<longleftrightarrow> \<not> Weq W w (Zero W) \<and> \<not> Weq W w (One W)"

definition NaturalLess :: "('w, 'z) weight_ops_scheme \<Rightarrow> 'w \<Rightarrow> 'w \<Rightarrow> bool" where
  "NaturalLess W w1 w2 \<longleftrightarrow> \<not> Weq W w1 w2 \<and> Weq W (Plus W w1 w2) w1"

text \<open>The loop of \<open>Power\<close>: \<open>result\<close> is multiplied by \<open>weight\<close> \<open>n\<close> times.\<close>

primrec Power_loop :: "('w, 'z) weight_ops_scheme \<Rightarrow> 'w \<Rightarrow> nat \<Rightarrow> 'w \<Rightarrow> 'w" where
  "Power_loop W weight 0 result = result"
| "Power_loop W weight (Suc n) result = Power_loop W weight n (Times W result weight)"

definition Power :: "('w, 'z) weight_ops_scheme \<Rightarrow> 'w \<Rightarrow> nat \<Rightarrow> 'w" where
  "Power W weight n = Power_loop W weight n (One W)"

text \<open>The default \<open>Adder\<close>: a running sum.\<close>

record 'w adder = adder_sum :: 'w

definition Adder_init :: "('w, 'z) weight_ops_scheme \<Rightarrow> 'w adder" where
  "Adder_init W = \<lparr>adder_sum = Zero W\<rparr>"

definition Adder_Add :: "('w, 'z) weight_ops_scheme \<Rightarrow> 'w adder \<Rightarrow> 'w \<Rightarrow> 'w adder \<times> 'w" where
  "Adder_Add W a w = (let s = Plus W (adder_sum a) w in (a\<lparr>adder_sum := s\<rparr>, s))"

definition Adder_Sum :: "'w adder \<Rightarrow> 'w" where
  "Adder_Sum a = adder_sum a"

definition Adder_Reset :: "'w adder \<Rightarrow> 'w \<Rightarrow> 'w adder" where
  "Adder_Reset a w = a\<lparr>adder_sum := w\<rparr>"

section \<open>Arcs\<close>

text \<open>
  \<open>ArcTpl\<close>. Labels are C++ \<open>int\<close>s, with 0 for epsilon. The type of the next state is a
  parameter: arcs stored in an FST have a state number, arcs handed to a mapper may have
  \<open>kNoStateId\<close>, which is \<open>None\<close> of \<open>nat option\<close>.
\<close>

record ('w, 's) garc =
  ilabel :: int
  olabel :: int
  weight :: 'w
  nextstate :: 's

type_synonym 'w arc = "('w, nat) garc"

definition Arc :: "int \<Rightarrow> int \<Rightarrow> 'w \<Rightarrow> 's \<Rightarrow> ('w, 's) garc" where
  "Arc il ol w s = \<lparr>ilabel = il, olabel = ol, weight = w, nextstate = s\<rparr>"

lemma Arc_sel [simp]:
  "ilabel (Arc il ol w s) = il" "olabel (Arc il ol w s) = ol"
  "weight (Arc il ol w s) = w" "nextstate (Arc il ol w s) = s"
  by (simp_all add: Arc_def)

section \<open>The laws of weight.h\<close>

locale weight_monoid =
  fixes W :: "('w, 'z) weight_ops_scheme" and M :: "'w \<Rightarrow> bool"
  assumes M_Member: "M a \<Longrightarrow> Member W a"
    and M_One: "M (One W)"
    and M_Times: "M a \<Longrightarrow> M b \<Longrightarrow> M (Times W a b)"
    and Times_assoc: "M a \<Longrightarrow> M b \<Longrightarrow> M c \<Longrightarrow> Times W (Times W a b) c = Times W a (Times W b c)"
    and One_Times: "M a \<Longrightarrow> Times W (One W) a = a"
    and Times_One: "M a \<Longrightarrow> Times W a (One W) = a"
    and Weq_eq: "M a \<Longrightarrow> M b \<Longrightarrow> Weq W a b \<longleftrightarrow> a = b"
    and M_Zero: "M (Zero W)"
    and Zero_neq_One: "Zero W \<noteq> One W"
begin

lemma Weq_Zero_Zero: "Weq W (Zero W) (Zero W)"
  using Weq_eq [OF M_Zero M_Zero] by simp

lemma not_Weq_One_Zero: "\<not> Weq W (One W) (Zero W)"
  using Weq_eq [OF M_One M_Zero] Zero_neq_One by simp

lemma not_nontrivial_One: "\<not> nontrivial W (One W)"
  using Weq_eq [OF M_One M_One] by (simp add: nontrivial_def)

lemma not_nontrivial_Zero: "\<not> nontrivial W (Zero W)"
  using Weq_Zero_Zero by (simp add: nontrivial_def)

lemma Power_loop_M: "M w \<Longrightarrow> M r \<Longrightarrow> M (Power_loop W w n r)"
  by (induction n arbitrary: r) (auto intro: M_Times)

lemma Power_loop_shift:
  "M w \<Longrightarrow> M r \<Longrightarrow> Power_loop W w n r = Times W r (Power_loop W w n (One W))"
proof (induction n arbitrary: r)
  case 0
  then show ?case by (simp add: Times_One)
next
  case (Suc n)
  have "Power_loop W w (Suc n) (One W) = Power_loop W w n w"
    using Suc.prems by (simp add: One_Times)
  also have "\<dots> = Times W w (Power_loop W w n (One W))"
    using Suc by blast
  finally have one: "Power_loop W w (Suc n) (One W) = Times W w (Power_loop W w n (One W))" .
  have "Power_loop W w (Suc n) r = Times W (Times W r w) (Power_loop W w n (One W))"
    using Suc by (simp add: M_Times)
  also have "\<dots> = Times W r (Times W w (Power_loop W w n (One W)))"
    using Suc.prems by (simp add: Times_assoc Power_loop_M M_One)
  finally show ?case using one by simp
qed

lemma Power_add: "M w \<Longrightarrow> Power W w (m + n) = Times W (Power W w m) (Power W w n)"
proof -
  assume w: "M w"
  have "Power_loop W w (m + n) r = Power_loop W w n (Power_loop W w m r)" for r
    by (induction m arbitrary: r) auto
  then show ?thesis
    using Power_loop_shift [OF w Power_loop_M [OF w M_One]] by (simp add: Power_def)
qed

end

locale weight_plus = weight_monoid W M
  for W :: "('w, 'z) weight_ops_scheme" and M :: "'w \<Rightarrow> bool" +
  assumes M_Plus: "M a \<Longrightarrow> M b \<Longrightarrow> M (Plus W a b)"
    and Plus_assoc: "M a \<Longrightarrow> M b \<Longrightarrow> M c \<Longrightarrow> Plus W (Plus W a b) c = Plus W a (Plus W b c)"
    and Plus_comm: "M a \<Longrightarrow> M b \<Longrightarrow> Plus W a b = Plus W b a"
    and Zero_Plus: "M a \<Longrightarrow> Plus W (Zero W) a = a"
    and Zero_Times: "M a \<Longrightarrow> Times W (Zero W) a = Zero W"
    and Times_Zero: "M a \<Longrightarrow> Times W a (Zero W) = Zero W"
begin

lemma Plus_Zero: "M a \<Longrightarrow> Plus W a (Zero W) = a"
  using Plus_comm [OF _ M_Zero] Zero_Plus by simp

text \<open>The running sum of an \<open>Adder\<close> is the sum of what was added, in any order.\<close>

definition sum_list_W :: "'w list \<Rightarrow> 'w" where
  "sum_list_W ws = foldr (Plus W) ws (Zero W)"

lemma M_sum_list_W: "(\<And>w. w \<in> set ws \<Longrightarrow> M w) \<Longrightarrow> M (sum_list_W ws)"
  by (induction ws) (auto simp: sum_list_W_def M_Zero M_Plus)

lemma fold_Adder_Add:
  "M (adder_sum a) \<Longrightarrow> (\<And>w. w \<in> set ws \<Longrightarrow> M w) \<Longrightarrow>
    Adder_Sum (fold (\<lambda>w a. fst (Adder_Add W a w)) ws a) = Plus W (adder_sum a) (sum_list_W ws)"
proof (induction ws arbitrary: a)
  case Nil
  then show ?case by (simp add: Adder_Sum_def sum_list_W_def Plus_Zero)
next
  case (Cons w ws)
  have "M (sum_list_W ws)" using Cons.prems by (simp add: M_sum_list_W)
  then show ?case
    using Cons by (simp add: Adder_Add_def Let_def M_Plus Plus_assoc sum_list_W_def)
qed

end

locale left_semiring = weight_plus +
  assumes Times_Plus_left: "M a \<Longrightarrow> M b \<Longrightarrow> M c \<Longrightarrow>
    Times W c (Plus W a b) = Plus W (Times W c a) (Times W c b)"

locale right_semiring = weight_plus +
  assumes Times_Plus_right: "M a \<Longrightarrow> M b \<Longrightarrow> M c \<Longrightarrow>
    Times W (Plus W a b) c = Plus W (Times W a c) (Times W b c)"

locale weight_semiring = left_semiring + right_semiring

text \<open>
  The natural order of an idempotent weight: \<open>a <= b\<close> iff \<open>Plus(a, b) = a\<close>. weight.h states
  that it is a partial order, monotonic for Plus, and total iff the weight has the path property.
\<close>

locale idempotent_weight = weight_plus +
  assumes Plus_idem: "M a \<Longrightarrow> Plus W a a = a"
begin

lemma NaturalLess_iff:
  "M a \<Longrightarrow> M b \<Longrightarrow> NaturalLess W a b \<longleftrightarrow> a \<noteq> b \<and> Plus W a b = a"
  by (simp add: NaturalLess_def Weq_eq M_Plus)

lemma NaturalLess_irrefl: "M a \<Longrightarrow> \<not> NaturalLess W a a"
  by (simp add: NaturalLess_iff)

lemma NaturalLess_trans:
  assumes M: "M a" "M b" "M c" and ab: "NaturalLess W a b" and bc: "NaturalLess W b c"
  shows "NaturalLess W a c"
proof -
  have 1: "Plus W a b = a" "a \<noteq> b" and 2: "Plus W b c = b" "b \<noteq> c"
    using ab bc M by (simp_all add: NaturalLess_iff)
  have "Plus W a c = Plus W (Plus W a b) c" using 1 by simp
  also have "\<dots> = Plus W a (Plus W b c)" using M by (rule Plus_assoc)
  finally have ac: "Plus W a c = a" using 1 2 by simp
  moreover have "a \<noteq> c"
  proof
    assume "a = c"
    then have "Plus W b a = b" using 2 by simp
    then show False using 1 M by (simp add: Plus_comm)
  qed
  ultimately show ?thesis using M by (simp add: NaturalLess_iff)
qed

lemma NaturalLess_Plus_mono:
  assumes M: "M a" "M b" "M c" and ab: "Plus W a b = a"
  shows "Plus W (Plus W a c) (Plus W b c) = Plus W a c"
proof -
  have "Plus W (Plus W a c) (Plus W b c) = Plus W a (Plus W (Plus W c b) c)"
    using M by (simp add: Plus_assoc M_Plus)
  also have "\<dots> = Plus W a (Plus W b (Plus W c c))"
    using M by (simp add: Plus_comm [of c b] Plus_assoc M_Plus)
  also have "\<dots> = Plus W (Plus W a b) c"
    using M by (simp add: Plus_idem Plus_assoc)
  finally show ?thesis using ab by simp
qed

end

locale path_property_weight = idempotent_weight +
  assumes Plus_path: "M a \<Longrightarrow> M b \<Longrightarrow> Plus W a b = a \<or> Plus W a b = b"
begin

lemma NaturalLess_total: "M a \<Longrightarrow> M b \<Longrightarrow> a \<noteq> b \<Longrightarrow> NaturalLess W a b \<or> NaturalLess W b a"
  using Plus_path [of a b] Plus_comm [of a b] by (auto simp: NaturalLess_iff)

end

text \<open>
  The Reverse map from a weight class \<open>W\<close> to its \<open>ReverseWeight\<close> class \<open>V\<close>.
\<close>

locale reversible_weight = fw: weight_monoid W M + rw: weight_monoid V N
  for W :: "('w, 'z) weight_ops_scheme" and M :: "'w \<Rightarrow> bool"
    and V :: "('v, 'y) weight_ops_scheme" and N :: "'v \<Rightarrow> bool" +
  fixes Reverse :: "'w \<Rightarrow> 'v"
  assumes N_Reverse: "M a \<Longrightarrow> N (Reverse a)"
    and Reverse_One: "Reverse (One W) = One V"
    and Reverse_Zero: "Reverse (Zero W) = Zero V"
    and Reverse_inj: "M a \<Longrightarrow> M b \<Longrightarrow> Reverse a = Reverse b \<Longrightarrow> a = b"
    and Reverse_Times: "M a \<Longrightarrow> M b \<Longrightarrow>
      Reverse (Times W a b) = Times V (Reverse b) (Reverse a)"

end
