(* ===== verification/FstProperties.thy ===== *)
theory FstProperties
  imports Weight
begin

text \<open>
  The FST property bits: the constants and the inlined functions of
  src/openfst/lib/properties.h and the property functions of src/openfst/lib/properties.cc.
  A property word is a \<open>uint64_t\<close>, here a \<open>64 word\<close>. Bits 0 to 2 are binary properties. Bits
  16 to 47 are sixteen trinary properties, each a pair of a positive bit and, next to it, a
  negative bit. \<open>has p k\<close> is the truth value of the expression \<open>p & k\<close> of the source.
\<close>

unbundle bit_operations_syntax

type_synonym props = "64 word"

definition has :: "props \<Rightarrow> props \<Rightarrow> bool" where
  "has p k \<longleftrightarrow> p AND k \<noteq> 0"

section \<open>Property bits\<close>

definition kExpanded :: props where "kExpanded = 0x1"
definition kMutable :: props where "kMutable = 0x2"
definition kError :: props where "kError = 0x4"
definition kAcceptor :: props where "kAcceptor = 0x10000"
definition kNotAcceptor :: props where "kNotAcceptor = 0x20000"
definition kIDeterministic :: props where "kIDeterministic = 0x40000"
definition kNonIDeterministic :: props where "kNonIDeterministic = 0x80000"
definition kODeterministic :: props where "kODeterministic = 0x100000"
definition kNonODeterministic :: props where "kNonODeterministic = 0x200000"
definition kEpsilons :: props where "kEpsilons = 0x400000"
definition kNoEpsilons :: props where "kNoEpsilons = 0x800000"
definition kIEpsilons :: props where "kIEpsilons = 0x1000000"
definition kNoIEpsilons :: props where "kNoIEpsilons = 0x2000000"
definition kOEpsilons :: props where "kOEpsilons = 0x4000000"
definition kNoOEpsilons :: props where "kNoOEpsilons = 0x8000000"
definition kILabelSorted :: props where "kILabelSorted = 0x10000000"
definition kNotILabelSorted :: props where "kNotILabelSorted = 0x20000000"
definition kOLabelSorted :: props where "kOLabelSorted = 0x40000000"
definition kNotOLabelSorted :: props where "kNotOLabelSorted = 0x80000000"
definition kWeighted :: props where "kWeighted = 0x100000000"
definition kUnweighted :: props where "kUnweighted = 0x200000000"
definition kCyclic :: props where "kCyclic = 0x400000000"
definition kAcyclic :: props where "kAcyclic = 0x800000000"
definition kInitialCyclic :: props where "kInitialCyclic = 0x1000000000"
definition kInitialAcyclic :: props where "kInitialAcyclic = 0x2000000000"
definition kTopSorted :: props where "kTopSorted = 0x4000000000"
definition kNotTopSorted :: props where "kNotTopSorted = 0x8000000000"
definition kAccessible :: props where "kAccessible = 0x10000000000"
definition kNotAccessible :: props where "kNotAccessible = 0x20000000000"
definition kCoAccessible :: props where "kCoAccessible = 0x40000000000"
definition kNotCoAccessible :: props where "kNotCoAccessible = 0x80000000000"
definition kString :: props where "kString = 0x100000000000"
definition kNotString :: props where "kNotString = 0x200000000000"
definition kWeightedCycles :: props where "kWeightedCycles = 0x400000000000"
definition kUnweightedCycles :: props where "kUnweightedCycles = 0x800000000000"
definition kBinaryProperties :: props where "kBinaryProperties = 0x7"
definition kTrinaryProperties :: props where "kTrinaryProperties = 0xffffffff0000"

section \<open>Composite properties\<close>

definition kNullProperties :: props where
  "kNullProperties =
     kAcceptor OR kIDeterministic OR kODeterministic OR kNoEpsilons OR kNoIEpsilons OR
     kNoOEpsilons OR kILabelSorted OR kOLabelSorted OR kUnweighted OR kAcyclic OR
     kInitialAcyclic OR kTopSorted OR kAccessible OR kCoAccessible OR kString OR
     kUnweightedCycles"

definition kCompiledStringProperties :: props where
  "kCompiledStringProperties =
     kAcceptor OR kString OR kUnweighted OR kIDeterministic OR kODeterministic OR
     kILabelSorted OR kOLabelSorted OR kAcyclic OR kInitialAcyclic OR kUnweightedCycles OR
     kTopSorted OR kAccessible OR kCoAccessible"

definition kCopyProperties :: props where
  "kCopyProperties =
     kError OR kAcceptor OR kNotAcceptor OR kIDeterministic OR kNonIDeterministic OR
     kODeterministic OR kNonODeterministic OR kEpsilons OR kNoEpsilons OR kIEpsilons OR
     kNoIEpsilons OR kOEpsilons OR kNoOEpsilons OR kILabelSorted OR kNotILabelSorted OR
     kOLabelSorted OR kNotOLabelSorted OR kWeighted OR kUnweighted OR kCyclic OR kAcyclic OR
     kInitialCyclic OR kInitialAcyclic OR kTopSorted OR kNotTopSorted OR kAccessible OR
     kNotAccessible OR kCoAccessible OR kNotCoAccessible OR kString OR kNotString OR
     kWeightedCycles OR kUnweightedCycles"

definition kIntrinsicProperties :: props where
  "kIntrinsicProperties =
     kExpanded OR kMutable OR kAcceptor OR kNotAcceptor OR kIDeterministic OR
     kNonIDeterministic OR kODeterministic OR kNonODeterministic OR kEpsilons OR
     kNoEpsilons OR kIEpsilons OR kNoIEpsilons OR kOEpsilons OR kNoOEpsilons OR
     kILabelSorted OR kNotILabelSorted OR kOLabelSorted OR kNotOLabelSorted OR kWeighted OR
     kUnweighted OR kCyclic OR kAcyclic OR kInitialCyclic OR kInitialAcyclic OR kTopSorted OR
     kNotTopSorted OR kAccessible OR kNotAccessible OR kCoAccessible OR kNotCoAccessible OR
     kString OR kNotString OR kWeightedCycles OR kUnweightedCycles"

definition kExtrinsicProperties :: props where
  "kExtrinsicProperties =
     kError"

definition kSetStartProperties :: props where
  "kSetStartProperties =
     kExpanded OR kMutable OR kError OR kAcceptor OR kNotAcceptor OR kIDeterministic OR
     kNonIDeterministic OR kODeterministic OR kNonODeterministic OR kEpsilons OR
     kNoEpsilons OR kIEpsilons OR kNoIEpsilons OR kOEpsilons OR kNoOEpsilons OR
     kILabelSorted OR kNotILabelSorted OR kOLabelSorted OR kNotOLabelSorted OR kWeighted OR
     kUnweighted OR kCyclic OR kAcyclic OR kTopSorted OR kNotTopSorted OR kCoAccessible OR
     kNotCoAccessible OR kWeightedCycles OR kUnweightedCycles"

definition kSetFinalProperties :: props where
  "kSetFinalProperties =
     kExpanded OR kMutable OR kError OR kAcceptor OR kNotAcceptor OR kIDeterministic OR
     kNonIDeterministic OR kODeterministic OR kNonODeterministic OR kEpsilons OR
     kNoEpsilons OR kIEpsilons OR kNoIEpsilons OR kOEpsilons OR kNoOEpsilons OR
     kILabelSorted OR kNotILabelSorted OR kOLabelSorted OR kNotOLabelSorted OR kCyclic OR
     kAcyclic OR kInitialCyclic OR kInitialAcyclic OR kTopSorted OR kNotTopSorted OR
     kAccessible OR kNotAccessible OR kWeightedCycles OR kUnweightedCycles"

definition kAddStateProperties :: props where
  "kAddStateProperties =
     kExpanded OR kMutable OR kError OR kAcceptor OR kNotAcceptor OR kIDeterministic OR
     kNonIDeterministic OR kODeterministic OR kNonODeterministic OR kEpsilons OR
     kNoEpsilons OR kIEpsilons OR kNoIEpsilons OR kOEpsilons OR kNoOEpsilons OR
     kILabelSorted OR kNotILabelSorted OR kOLabelSorted OR kNotOLabelSorted OR kWeighted OR
     kUnweighted OR kCyclic OR kAcyclic OR kInitialCyclic OR kInitialAcyclic OR kTopSorted OR
     kNotTopSorted OR kNotAccessible OR kNotCoAccessible OR kNotString OR kWeightedCycles OR
     kUnweightedCycles"

definition kAddArcProperties :: props where
  "kAddArcProperties =
     kExpanded OR kMutable OR kError OR kNotAcceptor OR kNonIDeterministic OR
     kNonODeterministic OR kEpsilons OR kIEpsilons OR kOEpsilons OR kNotILabelSorted OR
     kNotOLabelSorted OR kWeighted OR kCyclic OR kInitialCyclic OR kNotTopSorted OR
     kAccessible OR kCoAccessible OR kWeightedCycles"

definition kSetArcProperties :: props where
  "kSetArcProperties =
     kExpanded OR kMutable OR kError"

definition kDeleteStatesProperties :: props where
  "kDeleteStatesProperties =
     kExpanded OR kMutable OR kError OR kAcceptor OR kIDeterministic OR kODeterministic OR
     kNoEpsilons OR kNoIEpsilons OR kNoOEpsilons OR kILabelSorted OR kOLabelSorted OR
     kUnweighted OR kAcyclic OR kInitialAcyclic OR kTopSorted OR kUnweightedCycles"

definition kDeleteArcsProperties :: props where
  "kDeleteArcsProperties =
     kExpanded OR kMutable OR kError OR kAcceptor OR kIDeterministic OR kODeterministic OR
     kNoEpsilons OR kNoIEpsilons OR kNoOEpsilons OR kILabelSorted OR kOLabelSorted OR
     kUnweighted OR kAcyclic OR kInitialAcyclic OR kTopSorted OR kNotAccessible OR
     kNotCoAccessible OR kUnweightedCycles"

definition kStateSortProperties :: props where
  "kStateSortProperties =
     kExpanded OR kMutable OR kError OR kAcceptor OR kNotAcceptor OR kIDeterministic OR
     kNonIDeterministic OR kODeterministic OR kNonODeterministic OR kEpsilons OR
     kNoEpsilons OR kIEpsilons OR kNoIEpsilons OR kOEpsilons OR kNoOEpsilons OR
     kILabelSorted OR kNotILabelSorted OR kOLabelSorted OR kNotOLabelSorted OR kWeighted OR
     kUnweighted OR kCyclic OR kAcyclic OR kInitialCyclic OR kInitialAcyclic OR kAccessible OR
     kNotAccessible OR kCoAccessible OR kNotCoAccessible OR kWeightedCycles OR
     kUnweightedCycles"

definition kArcSortProperties :: props where
  "kArcSortProperties =
     kExpanded OR kMutable OR kError OR kAcceptor OR kNotAcceptor OR kIDeterministic OR
     kNonIDeterministic OR kODeterministic OR kNonODeterministic OR kEpsilons OR
     kNoEpsilons OR kIEpsilons OR kNoIEpsilons OR kOEpsilons OR kNoOEpsilons OR kWeighted OR
     kUnweighted OR kCyclic OR kAcyclic OR kInitialCyclic OR kInitialAcyclic OR kTopSorted OR
     kNotTopSorted OR kAccessible OR kNotAccessible OR kCoAccessible OR kNotCoAccessible OR
     kString OR kNotString OR kWeightedCycles OR kUnweightedCycles"

definition kILabelInvariantProperties :: props where
  "kILabelInvariantProperties =
     kExpanded OR kMutable OR kError OR kODeterministic OR kNonODeterministic OR kOEpsilons OR
     kNoOEpsilons OR kOLabelSorted OR kNotOLabelSorted OR kWeighted OR kUnweighted OR
     kCyclic OR kAcyclic OR kInitialCyclic OR kInitialAcyclic OR kTopSorted OR
     kNotTopSorted OR kAccessible OR kNotAccessible OR kCoAccessible OR kNotCoAccessible OR
     kString OR kNotString OR kWeightedCycles OR kUnweightedCycles"

definition kOLabelInvariantProperties :: props where
  "kOLabelInvariantProperties =
     kExpanded OR kMutable OR kError OR kIDeterministic OR kNonIDeterministic OR kIEpsilons OR
     kNoIEpsilons OR kILabelSorted OR kNotILabelSorted OR kWeighted OR kUnweighted OR
     kCyclic OR kAcyclic OR kInitialCyclic OR kInitialAcyclic OR kTopSorted OR
     kNotTopSorted OR kAccessible OR kNotAccessible OR kCoAccessible OR kNotCoAccessible OR
     kString OR kNotString OR kWeightedCycles OR kUnweightedCycles"

definition kWeightInvariantProperties :: props where
  "kWeightInvariantProperties =
     kExpanded OR kMutable OR kError OR kAcceptor OR kNotAcceptor OR kIDeterministic OR
     kNonIDeterministic OR kODeterministic OR kNonODeterministic OR kEpsilons OR
     kNoEpsilons OR kIEpsilons OR kNoIEpsilons OR kOEpsilons OR kNoOEpsilons OR
     kILabelSorted OR kNotILabelSorted OR kOLabelSorted OR kNotOLabelSorted OR kCyclic OR
     kAcyclic OR kInitialCyclic OR kInitialAcyclic OR kTopSorted OR kNotTopSorted OR
     kAccessible OR kNotAccessible OR kCoAccessible OR kNotCoAccessible OR kString OR
     kNotString"

definition kAddSuperFinalProperties :: props where
  "kAddSuperFinalProperties =
     kExpanded OR kMutable OR kError OR kAcceptor OR kNotAcceptor OR kNonIDeterministic OR
     kNonODeterministic OR kEpsilons OR kIEpsilons OR kOEpsilons OR kNotILabelSorted OR
     kNotOLabelSorted OR kWeighted OR kUnweighted OR kCyclic OR kAcyclic OR kInitialCyclic OR
     kInitialAcyclic OR kNotTopSorted OR kNotAccessible OR kCoAccessible OR
     kNotCoAccessible OR kNotString OR kWeightedCycles OR kUnweightedCycles"

definition kRmSuperFinalProperties :: props where
  "kRmSuperFinalProperties =
     kExpanded OR kMutable OR kError OR kAcceptor OR kNotAcceptor OR kIDeterministic OR
     kODeterministic OR kNoEpsilons OR kNoIEpsilons OR kNoOEpsilons OR kILabelSorted OR
     kOLabelSorted OR kWeighted OR kUnweighted OR kCyclic OR kAcyclic OR kInitialCyclic OR
     kInitialAcyclic OR kTopSorted OR kAccessible OR kCoAccessible OR kNotCoAccessible OR
     kString OR kWeightedCycles OR kUnweightedCycles"

definition kPosTrinaryProperties :: props where
  "kPosTrinaryProperties =
     kTrinaryProperties AND 0x5555555555555555"

definition kNegTrinaryProperties :: props where
  "kNegTrinaryProperties =
     kTrinaryProperties AND 0xaaaaaaaaaaaaaaaa"

definition kFstProperties :: props where
  "kFstProperties =
     kBinaryProperties OR kTrinaryProperties"

section \<open>Property functions of properties.h\<close>

definition SetStartProperties :: "props \<Rightarrow> props" where
  "SetStartProperties inprops =
     (let outprops = inprops AND kSetStartProperties
      in if has inprops kAcyclic then outprops OR kInitialAcyclic else outprops)"

definition AddStateProperties :: "props \<Rightarrow> props" where
  "AddStateProperties inprops = inprops AND kAddStateProperties"

definition DeleteStatesProperties :: "props \<Rightarrow> props" where
  "DeleteStatesProperties inprops = inprops AND kDeleteStatesProperties"

definition DeleteAllStatesProperties :: "props \<Rightarrow> props \<Rightarrow> props" where
  "DeleteAllStatesProperties inprops staticprops =
     (let outprops = inprops AND kError in outprops OR kNullProperties OR staticprops)"

definition DeleteArcsProperties :: "props \<Rightarrow> props" where
  "DeleteArcsProperties inprops = inprops AND kDeleteArcsProperties"

definition SetFinalProperties ::
  "('w, 'z) weight_ops_scheme \<Rightarrow> props \<Rightarrow> 'w \<Rightarrow> 'w \<Rightarrow> props" where
  "SetFinalProperties W inprops old_weight new_weight =
     (let outprops = inprops;
          outprops = (if \<not> Weq W old_weight (Zero W) \<and> \<not> Weq W old_weight (One W)
                      then outprops AND NOT kWeighted else outprops);
          outprops = (if \<not> Weq W new_weight (Zero W) \<and> \<not> Weq W new_weight (One W)
                      then (outprops OR kWeighted) AND NOT kUnweighted else outprops)
      in outprops AND (kSetFinalProperties OR kWeighted OR kUnweighted))"

text \<open>\<open>prev_arc\<close> is the arc added to state \<open>s\<close> before \<open>arc\<close>; the null pointer is \<open>None\<close>.\<close>

definition AddArcProperties ::
  "('w, 'z) weight_ops_scheme \<Rightarrow> props \<Rightarrow> nat \<Rightarrow> 'w arc \<Rightarrow> 'w arc option \<Rightarrow> props" where
  "AddArcProperties W inprops s arc prev_arc =
     (let outprops = inprops;
          outprops = (if ilabel arc \<noteq> olabel arc then (outprops OR kNotAcceptor) AND NOT kAcceptor
                      else outprops);
          outprops =
            (if ilabel arc = 0
             then (let out = (outprops OR kIEpsilons) AND NOT kNoIEpsilons
                   in if olabel arc = 0 then (out OR kEpsilons) AND NOT kNoEpsilons else out)
             else outprops);
          outprops = (if olabel arc = 0 then (outprops OR kOEpsilons) AND NOT kNoOEpsilons
                      else outprops);
          outprops =
            (case prev_arc of
               None \<Rightarrow> outprops
             | Some prev \<Rightarrow>
                 (let out = (if ilabel prev > ilabel arc
                             then (outprops OR kNotILabelSorted) AND NOT kILabelSorted
                             else outprops)
                  in if olabel prev > olabel arc
                     then (out OR kNotOLabelSorted) AND NOT kOLabelSorted else out));
          outprops = (if \<not> Weq W (weight arc) (Zero W) \<and> \<not> Weq W (weight arc) (One W)
                      then (outprops OR kWeighted) AND NOT kUnweighted else outprops);
          outprops = (if nextstate arc \<le> s then (outprops OR kNotTopSorted) AND NOT kTopSorted
                      else outprops);
          outprops = outprops AND (kAddArcProperties OR kAcceptor OR kNoEpsilons OR kNoIEpsilons OR
                       kNoOEpsilons OR kILabelSorted OR kOLabelSorted OR kUnweighted OR kTopSorted)
      in if has outprops kTopSorted then outprops OR kAcyclic OR kInitialAcyclic else outprops)"

definition KnownProperties :: "props \<Rightarrow> props" where
  "KnownProperties props =
     kBinaryProperties OR (props AND kTrinaryProperties) OR
     push_bit 1 (props AND kPosTrinaryProperties) OR
     drop_bit 1 (props AND kNegTrinaryProperties)"

definition CompatProperties :: "props \<Rightarrow> props \<Rightarrow> bool" where
  "CompatProperties props1 props2 =
     (let known_props1 = KnownProperties props1;
          known_props2 = KnownProperties props2;
          known_props = known_props1 AND known_props2;
          incompat_props = (props1 AND known_props) XOR (props2 AND known_props)
      in \<not> incompat_props \<noteq> 0)"

section \<open>Property functions of properties.cc\<close>

definition ClosureProperties :: "props \<Rightarrow> bool \<Rightarrow> bool \<Rightarrow> props" where
  "ClosureProperties inprops star delayed =
     (let outprops = (kError OR kAcceptor OR kUnweighted OR kAccessible) AND inprops;
          outprops = (if has inprops kUnweighted then outprops OR kUnweightedCycles else outprops);
          outprops =
            (if \<not> delayed
             then outprops OR ((kExpanded OR kMutable OR kCoAccessible OR kNotTopSorted OR
                                kNotString) AND inprops)
             else outprops)
      in if \<not> delayed \<or> has inprops kAccessible
         then (let out = outprops OR
                     ((kNotAcceptor OR kNonIDeterministic OR kNonODeterministic OR
                       kNotILabelSorted OR kNotOLabelSorted OR kWeighted OR kWeightedCycles OR
                       kNotAccessible OR kNotCoAccessible) AND inprops)
               in if has inprops kWeighted \<and> has inprops kAccessible \<and> has inprops kCoAccessible
                  then out OR kWeightedCycles else out)
         else outprops)"

definition ComplementProperties :: "props \<Rightarrow> props" where
  "ComplementProperties inprops =
     (let outprops = kAcceptor OR kUnweighted OR kUnweightedCycles OR kNoEpsilons OR
                     kNoIEpsilons OR kNoOEpsilons OR kIDeterministic OR kODeterministic OR
                     kAccessible;
          outprops = outprops OR
                     ((kError OR kILabelSorted OR kOLabelSorted OR kInitialCyclic) AND inprops)
      in if has inprops kAccessible
         then outprops OR kNotILabelSorted OR kNotOLabelSorted OR kCyclic else outprops)"

definition ComposeProperties :: "props \<Rightarrow> props \<Rightarrow> props" where
  "ComposeProperties inprops1 inprops2 =
     (let outprops = kError AND (inprops1 OR inprops2)
      in if has inprops1 kAcceptor \<and> has inprops2 kAcceptor
         then (let out = outprops OR kAcceptor OR kAccessible;
                   out = out OR ((kNoEpsilons OR kNoIEpsilons OR kNoOEpsilons OR kAcyclic OR
                                  kInitialAcyclic) AND inprops1 AND inprops2)
               in if has (kNoIEpsilons AND inprops1) inprops2
                  then out OR ((kIDeterministic OR kODeterministic) AND inprops1 AND inprops2)
                  else out)
         else (let out = outprops OR kAccessible;
                   out = out OR ((kAcceptor OR kNoIEpsilons OR kAcyclic OR kInitialAcyclic) AND
                                 inprops1 AND inprops2)
               in if has (kNoIEpsilons AND inprops1) inprops2
                  then out OR (kIDeterministic AND inprops1 AND inprops2)
                  else out))"

definition ConcatProperties :: "props \<Rightarrow> props \<Rightarrow> bool \<Rightarrow> props" where
  "ConcatProperties inprops1 inprops2 delayed =
     (let outprops = (kAcceptor OR kUnweighted OR kUnweightedCycles OR kAcyclic) AND
                     inprops1 AND inprops2;
          outprops = outprops OR (kError AND (inprops1 OR inprops2));
          empty1 = delayed;
          empty2 = delayed;
          outprops =
            (if \<not> delayed
             then outprops OR ((kExpanded OR kMutable OR kNotTopSorted OR kNotString) AND inprops1) OR
                  ((kNotTopSorted OR kNotString) AND inprops2)
             else outprops);
          outprops =
            (if \<not> empty1 then outprops OR ((kInitialAcyclic OR kInitialCyclic) AND inprops1)
             else outprops);
          outprops =
            (if \<not> delayed \<or> has inprops1 kAccessible
             then outprops OR
               ((kNotAcceptor OR kNonIDeterministic OR kNonODeterministic OR kEpsilons OR
                 kIEpsilons OR kOEpsilons OR kNotILabelSorted OR kNotOLabelSorted OR kWeighted OR
                 kWeightedCycles OR kCyclic OR kNotAccessible OR kNotCoAccessible) AND inprops1)
             else outprops)
      in if inprops1 AND (kAccessible OR kCoAccessible) = kAccessible OR kCoAccessible \<and> \<not> empty1
         then (let out = outprops OR (kAccessible AND inprops2);
                   out = (if \<not> empty2 then out OR (kCoAccessible AND inprops2) else out)
               in if \<not> delayed \<or> has inprops2 kAccessible
                  then out OR
                    ((kNotAcceptor OR kNonIDeterministic OR kNonODeterministic OR kEpsilons OR
                      kIEpsilons OR kOEpsilons OR kNotILabelSorted OR kNotOLabelSorted OR
                      kWeighted OR kWeightedCycles OR kCyclic OR kNotAccessible OR
                      kNotCoAccessible) AND inprops2)
                  else out)
         else outprops)"

definition DeterminizeProperties :: "props \<Rightarrow> bool \<Rightarrow> bool \<Rightarrow> props" where
  "DeterminizeProperties inprops has_subsequential_label distinct_psubsequential_labels =
     (let outprops = kAccessible;
          outprops =
            (if has kAcceptor inprops \<or>
                has kNoIEpsilons inprops \<and> distinct_psubsequential_labels \<or>
                has_subsequential_label \<and> distinct_psubsequential_labels
             then outprops OR kIDeterministic else outprops);
          outprops = outprops OR ((kError OR kAcceptor OR kAcyclic OR kInitialAcyclic OR
                                   kCoAccessible OR kString) AND inprops);
          outprops =
            (if has inprops kNoIEpsilons \<and> distinct_psubsequential_labels
             then outprops OR (kNoEpsilons AND inprops) else outprops);
          outprops =
            (if has inprops kAccessible
             then outprops OR ((kIEpsilons OR kOEpsilons OR kCyclic) AND inprops) else outprops);
          outprops =
            (if has inprops kAcceptor
             then outprops OR ((kNoIEpsilons OR kNoOEpsilons) AND inprops) else outprops)
      in if has inprops kNoIEpsilons \<and> has_subsequential_label
         then outprops OR kNoIEpsilons else outprops)"

definition FactorWeightProperties :: "props \<Rightarrow> props" where
  "FactorWeightProperties inprops =
     (let outprops = (kExpanded OR kMutable OR kError OR kAcceptor OR kAcyclic OR kAccessible OR
                      kCoAccessible) AND inprops
      in if has inprops kAccessible
         then outprops OR
           ((kNotAcceptor OR kNonIDeterministic OR kNonODeterministic OR kEpsilons OR kIEpsilons OR
             kOEpsilons OR kCyclic OR kNotILabelSorted OR kNotOLabelSorted) AND inprops)
         else outprops)"

definition InvertProperties :: "props \<Rightarrow> props" where
  "InvertProperties inprops =
     (let outprops = (kExpanded OR kMutable OR kError OR kAcceptor OR kNotAcceptor OR kEpsilons OR
                      kNoEpsilons OR kWeighted OR kUnweighted OR kWeightedCycles OR
                      kUnweightedCycles OR kCyclic OR kAcyclic OR kInitialCyclic OR
                      kInitialAcyclic OR kTopSorted OR kNotTopSorted OR kAccessible OR
                      kNotAccessible OR kCoAccessible OR kNotCoAccessible OR kString OR
                      kNotString) AND inprops;
          outprops = (if has kIDeterministic inprops then outprops OR kODeterministic else outprops);
          outprops = (if has kNonIDeterministic inprops then outprops OR kNonODeterministic
                      else outprops);
          outprops = (if has kODeterministic inprops then outprops OR kIDeterministic else outprops);
          outprops = (if has kNonODeterministic inprops then outprops OR kNonIDeterministic
                      else outprops);
          outprops = (if has kIEpsilons inprops then outprops OR kOEpsilons else outprops);
          outprops = (if has kNoIEpsilons inprops then outprops OR kNoOEpsilons else outprops);
          outprops = (if has kOEpsilons inprops then outprops OR kIEpsilons else outprops);
          outprops = (if has kNoOEpsilons inprops then outprops OR kNoIEpsilons else outprops);
          outprops = (if has kILabelSorted inprops then outprops OR kOLabelSorted else outprops);
          outprops = (if has kNotILabelSorted inprops then outprops OR kNotOLabelSorted
                      else outprops);
          outprops = (if has kOLabelSorted inprops then outprops OR kILabelSorted else outprops)
      in if has kNotOLabelSorted inprops then outprops OR kNotILabelSorted else outprops)"

definition ProjectProperties :: "props \<Rightarrow> bool \<Rightarrow> props" where
  "ProjectProperties inprops project_input =
     (let outprops = kAcceptor;
          outprops = outprops OR
            ((kExpanded OR kMutable OR kError OR kWeighted OR kUnweighted OR kWeightedCycles OR
              kUnweightedCycles OR kCyclic OR kAcyclic OR kInitialCyclic OR kInitialAcyclic OR
              kTopSorted OR kNotTopSorted OR kAccessible OR kNotAccessible OR kCoAccessible OR
              kNotCoAccessible OR kString OR kNotString) AND inprops)
      in if project_input
         then (let out = outprops OR
                     ((kIDeterministic OR kNonIDeterministic OR kIEpsilons OR kNoIEpsilons OR
                       kILabelSorted OR kNotILabelSorted) AND inprops);
                   out = (if has kIDeterministic inprops then out OR kODeterministic else out);
                   out = (if has kNonIDeterministic inprops then out OR kNonODeterministic else out);
                   out = (if has kIEpsilons inprops then out OR kOEpsilons OR kEpsilons else out);
                   out = (if has kNoIEpsilons inprops then out OR kNoOEpsilons OR kNoEpsilons
                          else out);
                   out = (if has kILabelSorted inprops then out OR kOLabelSorted else out)
               in if has kNotILabelSorted inprops then out OR kNotOLabelSorted else out)
         else (let out = outprops OR
                     ((kODeterministic OR kNonODeterministic OR kOEpsilons OR kNoOEpsilons OR
                       kOLabelSorted OR kNotOLabelSorted) AND inprops);
                   out = (if has kODeterministic inprops then out OR kIDeterministic else out);
                   out = (if has kNonODeterministic inprops then out OR kNonIDeterministic else out);
                   out = (if has kOEpsilons inprops then out OR kIEpsilons OR kEpsilons else out);
                   out = (if has kNoOEpsilons inprops then out OR kNoIEpsilons OR kNoEpsilons
                          else out);
                   out = (if has kOLabelSorted inprops then out OR kILabelSorted else out)
               in if has kNotOLabelSorted inprops then out OR kNotILabelSorted else out))"

definition RandGenProperties :: "props \<Rightarrow> bool \<Rightarrow> props" where
  "RandGenProperties inprops weighted =
     (let outprops = kAcyclic OR kInitialAcyclic OR kAccessible OR kUnweightedCycles;
          outprops = outprops OR (inprops AND kError)
      in if weighted
         then outprops OR kTopSorted OR
              ((kAcceptor OR kNoEpsilons OR kNoIEpsilons OR kNoOEpsilons OR kIDeterministic OR
                kODeterministic OR kILabelSorted OR kOLabelSorted) AND inprops)
         else outprops OR kUnweighted OR
              ((kAcceptor OR kILabelSorted OR kOLabelSorted) AND inprops))"

definition RelabelProperties :: "props \<Rightarrow> props" where
  "RelabelProperties inprops =
     (let outprops = kExpanded OR kMutable OR kError OR kWeighted OR kUnweighted OR
                     kWeightedCycles OR kUnweightedCycles OR kCyclic OR kAcyclic OR
                     kInitialCyclic OR kInitialAcyclic OR kTopSorted OR kNotTopSorted OR
                     kAccessible OR kNotAccessible OR kCoAccessible OR kNotCoAccessible OR
                     kString OR kNotString
      in outprops AND inprops)"

definition ReverseProperties :: "props \<Rightarrow> bool \<Rightarrow> props" where
  "ReverseProperties inprops has_superinitial =
     (let outprops = (kExpanded OR kMutable OR kError OR kAcceptor OR kNotAcceptor OR kEpsilons OR
                      kIEpsilons OR kOEpsilons OR kUnweighted OR kCyclic OR kAcyclic OR
                      kWeightedCycles OR kUnweightedCycles) AND inprops
      in if has_superinitial then outprops OR (kWeighted AND inprops) else outprops)"

definition ReweightProperties :: "props \<Rightarrow> bool \<Rightarrow> props" where
  "ReweightProperties inprops added_start_epsilon =
     (let outprops = inprops AND kWeightInvariantProperties;
          outprops = outprops AND NOT kCoAccessible
      in if added_start_epsilon
         then (let out = outprops AND
                         NOT (kNoEpsilons OR kNoIEpsilons OR kNoOEpsilons OR kInitialCyclic)
               in out OR kEpsilons OR kIEpsilons OR kOEpsilons OR kInitialAcyclic)
         else outprops)"

definition RmEpsilonProperties :: "props \<Rightarrow> bool \<Rightarrow> props" where
  "RmEpsilonProperties inprops delayed =
     (let outprops = kNoEpsilons;
          outprops = outprops OR ((kError OR kAcceptor OR kAcyclic OR kInitialAcyclic) AND inprops);
          outprops = (if has inprops kAcceptor then outprops OR kNoIEpsilons OR kNoOEpsilons
                      else outprops);
          outprops = (if \<not> delayed then outprops OR kExpanded OR kMutable OR (kTopSorted AND inprops)
                      else outprops)
      in if \<not> delayed \<or> has inprops kAccessible then outprops OR (kNotAcceptor AND inprops)
         else outprops)"

definition ShortestPathProperties :: "props \<Rightarrow> bool \<Rightarrow> props" where
  "ShortestPathProperties props tree =
     (let outprops = props OR kAcyclic OR kInitialAcyclic OR kAccessible OR kUnweightedCycles
      in if \<not> tree then outprops OR kCoAccessible else outprops)"

definition SynchronizeProperties :: "props \<Rightarrow> props" where
  "SynchronizeProperties inprops =
     (let outprops = (kError OR kAcceptor OR kAcyclic OR kAccessible OR kCoAccessible OR
                      kUnweighted OR kUnweightedCycles) AND inprops
      in if has inprops kAccessible
         then outprops OR ((kCyclic OR kNotCoAccessible OR kWeighted OR kWeightedCycles) AND inprops)
         else outprops)"

definition UnionProperties :: "props \<Rightarrow> props \<Rightarrow> bool \<Rightarrow> props" where
  "UnionProperties inprops1 inprops2 delayed =
     (let outprops = (kAcceptor OR kUnweighted OR kUnweightedCycles OR kAcyclic OR kAccessible) AND
                     inprops1 AND inprops2;
          outprops = outprops OR (kError AND (inprops1 OR inprops2));
          outprops = outprops OR kInitialAcyclic;
          empty1 = delayed;
          empty2 = delayed;
          outprops =
            (if \<not> delayed
             then outprops OR ((kExpanded OR kMutable OR kNotTopSorted) AND inprops1) OR
                  (kNotTopSorted AND inprops2)
             else outprops);
          outprops =
            (if \<not> empty1 \<and> \<not> empty2
             then outprops OR (kEpsilons OR kIEpsilons OR kOEpsilons) OR
                  (kCoAccessible AND inprops1 AND inprops2)
             else outprops);
          outprops =
            (if \<not> delayed \<or> has inprops1 kAccessible
             then outprops OR
               ((kNotAcceptor OR kNonIDeterministic OR kNonODeterministic OR kEpsilons OR
                 kIEpsilons OR kOEpsilons OR kNotILabelSorted OR kNotOLabelSorted OR kWeighted OR
                 kWeightedCycles OR kCyclic OR kNotAccessible) AND inprops1)
             else outprops)
      in if \<not> delayed \<or> has inprops2 kAccessible
         then outprops OR
           ((kNotAcceptor OR kNonIDeterministic OR kNonODeterministic OR kEpsilons OR kIEpsilons OR
             kOEpsilons OR kNotILabelSorted OR kNotOLabelSorted OR kWeighted OR kWeightedCycles OR
             kCyclic OR kNotAccessible OR kNotCoAccessible) AND inprops2)
         else outprops)"

text \<open>
  \<open>ReplaceProperties\<close>: \<open>inprops\<close> is the span of the components' properties. Its three passes
  over the span are folds; \<open>inprops[root]\<close> is only read when the span is not empty, and the
  caller passes a root index of the span.
\<close>

definition ReplaceProperties ::
  "props list \<Rightarrow> nat \<Rightarrow> bool \<Rightarrow> bool \<Rightarrow> bool \<Rightarrow> bool \<Rightarrow> bool \<Rightarrow> bool \<Rightarrow> bool \<Rightarrow> bool \<Rightarrow> bool \<Rightarrow> props" where
  "ReplaceProperties inprops root epsilon_on_call epsilon_on_return out_epsilon_on_call
     out_epsilon_on_return replace_transducer no_empty_fsts all_ilabel_sorted all_olabel_sorted
     all_negative_or_dense =
     (if inprops = [] then kNullProperties
      else
       (let outprops = fold (\<lambda>inprop out. out OR (kError AND inprop)) inprops 0;
            access_props = (if no_empty_fsts then kAccessible OR kCoAccessible else 0);
            access_props = fold (\<lambda>inprop acc. acc AND (inprop AND (kAccessible OR kCoAccessible)))
                             inprops access_props;
            outprops =
              (if access_props = kAccessible OR kCoAccessible
               then (let out = outprops OR access_props;
                         out = (if has (inprops ! root) kInitialCyclic then out OR kInitialCyclic
                                else out);
                         props = fold (\<lambda>inprop props.
                           (let props = (if replace_transducer
                                         then props OR (kNotAcceptor AND inprop) else props)
                            in props OR
                               ((kNonIDeterministic OR kNonODeterministic OR kEpsilons OR
                                 kIEpsilons OR kOEpsilons OR kWeighted OR kWeightedCycles OR
                                 kCyclic OR kNotTopSorted OR kNotString) AND inprop))) inprops 0;
                         string = list_all (\<lambda>inprop. has inprop kString) inprops;
                         out = out OR props
                     in if string then out OR kString else out)
               else outprops);
            acceptor = (\<not> replace_transducer \<and> list_all (\<lambda>p. has p kAcceptor) inprops);
            ideterministic =
              (\<not> epsilon_on_call \<and> epsilon_on_return \<and>
               list_all (\<lambda>p. has p kIDeterministic) inprops \<and>
               (\<forall>i < length inprops. i \<noteq> root \<longrightarrow> has (inprops ! i) kNoIEpsilons));
            no_iepsilons = (\<not> epsilon_on_call \<and> \<not> epsilon_on_return \<and>
               list_all (\<lambda>p. has p kNoIEpsilons) inprops);
            acyclic = list_all (\<lambda>p. has p kAcyclic) inprops;
            unweighted = list_all (\<lambda>p. has p kUnweighted) inprops;
            outprops = (if acceptor then outprops OR kAcceptor else outprops);
            outprops = (if ideterministic then outprops OR kIDeterministic else outprops);
            outprops = (if no_iepsilons then outprops OR kNoIEpsilons else outprops);
            outprops = (if acyclic then outprops OR kAcyclic else outprops);
            outprops = (if unweighted then outprops OR kUnweighted else outprops);
            outprops = (if has (inprops ! root) kInitialAcyclic then outprops OR kInitialAcyclic
                        else outprops);
            outprops =
              (if all_ilabel_sorted \<and> epsilon_on_return \<and>
                  (\<not> epsilon_on_call \<or> all_negative_or_dense)
               then outprops OR kILabelSorted else outprops)
        in if all_olabel_sorted \<and> out_epsilon_on_return \<and>
              (\<not> out_epsilon_on_call \<or> all_negative_or_dense)
           then outprops OR kOLabelSorted else outprops))"


section \<open>Bit positions\<close>

lemma has_iff [prop_bits]: "has p k \<longleftrightarrow> (\<exists>n. bit p n \<and> bit k n)"
  by (simp add: has_def word_and_nonzero_iff)

lemma bit_kExpanded [prop_bits]: "bit kExpanded n \<longleftrightarrow> n = 0"
  using bit_power_word64 [of 0 n] by (simp add: kExpanded_def)

lemma bit_kMutable [prop_bits]: "bit kMutable n \<longleftrightarrow> n = 1"
  using bit_power_word64 [of 1 n] by (simp add: kMutable_def)

lemma bit_kError [prop_bits]: "bit kError n \<longleftrightarrow> n = 2"
  using bit_power_word64 [of 2 n] by (simp add: kError_def)

lemma bit_kAcceptor [prop_bits]: "bit kAcceptor n \<longleftrightarrow> n = 16"
  using bit_power_word64 [of 16 n] by (simp add: kAcceptor_def)

lemma bit_kNotAcceptor [prop_bits]: "bit kNotAcceptor n \<longleftrightarrow> n = 17"
  using bit_power_word64 [of 17 n] by (simp add: kNotAcceptor_def)

lemma bit_kIDeterministic [prop_bits]: "bit kIDeterministic n \<longleftrightarrow> n = 18"
  using bit_power_word64 [of 18 n] by (simp add: kIDeterministic_def)

lemma bit_kNonIDeterministic [prop_bits]: "bit kNonIDeterministic n \<longleftrightarrow> n = 19"
  using bit_power_word64 [of 19 n] by (simp add: kNonIDeterministic_def)

lemma bit_kODeterministic [prop_bits]: "bit kODeterministic n \<longleftrightarrow> n = 20"
  using bit_power_word64 [of 20 n] by (simp add: kODeterministic_def)

lemma bit_kNonODeterministic [prop_bits]: "bit kNonODeterministic n \<longleftrightarrow> n = 21"
  using bit_power_word64 [of 21 n] by (simp add: kNonODeterministic_def)

lemma bit_kEpsilons [prop_bits]: "bit kEpsilons n \<longleftrightarrow> n = 22"
  using bit_power_word64 [of 22 n] by (simp add: kEpsilons_def)

lemma bit_kNoEpsilons [prop_bits]: "bit kNoEpsilons n \<longleftrightarrow> n = 23"
  using bit_power_word64 [of 23 n] by (simp add: kNoEpsilons_def)

lemma bit_kIEpsilons [prop_bits]: "bit kIEpsilons n \<longleftrightarrow> n = 24"
  using bit_power_word64 [of 24 n] by (simp add: kIEpsilons_def)

lemma bit_kNoIEpsilons [prop_bits]: "bit kNoIEpsilons n \<longleftrightarrow> n = 25"
  using bit_power_word64 [of 25 n] by (simp add: kNoIEpsilons_def)

lemma bit_kOEpsilons [prop_bits]: "bit kOEpsilons n \<longleftrightarrow> n = 26"
  using bit_power_word64 [of 26 n] by (simp add: kOEpsilons_def)

lemma bit_kNoOEpsilons [prop_bits]: "bit kNoOEpsilons n \<longleftrightarrow> n = 27"
  using bit_power_word64 [of 27 n] by (simp add: kNoOEpsilons_def)

lemma bit_kILabelSorted [prop_bits]: "bit kILabelSorted n \<longleftrightarrow> n = 28"
  using bit_power_word64 [of 28 n] by (simp add: kILabelSorted_def)

lemma bit_kNotILabelSorted [prop_bits]: "bit kNotILabelSorted n \<longleftrightarrow> n = 29"
  using bit_power_word64 [of 29 n] by (simp add: kNotILabelSorted_def)

lemma bit_kOLabelSorted [prop_bits]: "bit kOLabelSorted n \<longleftrightarrow> n = 30"
  using bit_power_word64 [of 30 n] by (simp add: kOLabelSorted_def)

lemma bit_kNotOLabelSorted [prop_bits]: "bit kNotOLabelSorted n \<longleftrightarrow> n = 31"
  using bit_power_word64 [of 31 n] by (simp add: kNotOLabelSorted_def)

lemma bit_kWeighted [prop_bits]: "bit kWeighted n \<longleftrightarrow> n = 32"
  using bit_power_word64 [of 32 n] by (simp add: kWeighted_def)

lemma bit_kUnweighted [prop_bits]: "bit kUnweighted n \<longleftrightarrow> n = 33"
  using bit_power_word64 [of 33 n] by (simp add: kUnweighted_def)

lemma bit_kCyclic [prop_bits]: "bit kCyclic n \<longleftrightarrow> n = 34"
  using bit_power_word64 [of 34 n] by (simp add: kCyclic_def)

lemma bit_kAcyclic [prop_bits]: "bit kAcyclic n \<longleftrightarrow> n = 35"
  using bit_power_word64 [of 35 n] by (simp add: kAcyclic_def)

lemma bit_kInitialCyclic [prop_bits]: "bit kInitialCyclic n \<longleftrightarrow> n = 36"
  using bit_power_word64 [of 36 n] by (simp add: kInitialCyclic_def)

lemma bit_kInitialAcyclic [prop_bits]: "bit kInitialAcyclic n \<longleftrightarrow> n = 37"
  using bit_power_word64 [of 37 n] by (simp add: kInitialAcyclic_def)

lemma bit_kTopSorted [prop_bits]: "bit kTopSorted n \<longleftrightarrow> n = 38"
  using bit_power_word64 [of 38 n] by (simp add: kTopSorted_def)

lemma bit_kNotTopSorted [prop_bits]: "bit kNotTopSorted n \<longleftrightarrow> n = 39"
  using bit_power_word64 [of 39 n] by (simp add: kNotTopSorted_def)

lemma bit_kAccessible [prop_bits]: "bit kAccessible n \<longleftrightarrow> n = 40"
  using bit_power_word64 [of 40 n] by (simp add: kAccessible_def)

lemma bit_kNotAccessible [prop_bits]: "bit kNotAccessible n \<longleftrightarrow> n = 41"
  using bit_power_word64 [of 41 n] by (simp add: kNotAccessible_def)

lemma bit_kCoAccessible [prop_bits]: "bit kCoAccessible n \<longleftrightarrow> n = 42"
  using bit_power_word64 [of 42 n] by (simp add: kCoAccessible_def)

lemma bit_kNotCoAccessible [prop_bits]: "bit kNotCoAccessible n \<longleftrightarrow> n = 43"
  using bit_power_word64 [of 43 n] by (simp add: kNotCoAccessible_def)

lemma bit_kString [prop_bits]: "bit kString n \<longleftrightarrow> n = 44"
  using bit_power_word64 [of 44 n] by (simp add: kString_def)

lemma bit_kNotString [prop_bits]: "bit kNotString n \<longleftrightarrow> n = 45"
  using bit_power_word64 [of 45 n] by (simp add: kNotString_def)

lemma bit_kWeightedCycles [prop_bits]: "bit kWeightedCycles n \<longleftrightarrow> n = 46"
  using bit_power_word64 [of 46 n] by (simp add: kWeightedCycles_def)

lemma bit_kUnweightedCycles [prop_bits]: "bit kUnweightedCycles n \<longleftrightarrow> n = 47"
  using bit_power_word64 [of 47 n] by (simp add: kUnweightedCycles_def)

declare
  kNullProperties_def [prop_bits]
  kCompiledStringProperties_def [prop_bits]
  kCopyProperties_def [prop_bits]
  kIntrinsicProperties_def [prop_bits]
  kExtrinsicProperties_def [prop_bits]
  kSetStartProperties_def [prop_bits]
  kSetFinalProperties_def [prop_bits]
  kAddStateProperties_def [prop_bits]
  kAddArcProperties_def [prop_bits]
  kSetArcProperties_def [prop_bits]
  kDeleteStatesProperties_def [prop_bits]
  kDeleteArcsProperties_def [prop_bits]
  kStateSortProperties_def [prop_bits]
  kArcSortProperties_def [prop_bits]
  kILabelInvariantProperties_def [prop_bits]
  kOLabelInvariantProperties_def [prop_bits]
  kWeightInvariantProperties_def [prop_bits]
  kAddSuperFinalProperties_def [prop_bits]
  kRmSuperFinalProperties_def [prop_bits]

end
