(* ===== verification/SymbolTable.thy ===== *)
theory SymbolTable
  imports Prelude
begin

text \<open>
  Symbol tables: \<open>DenseSymbolMap\<close>, \<open>SymbolTableImpl\<close> with \<open>AddTable\<close>, and \<open>CompatSymbols\<close> of
  src/openfst/lib/symbol-table.h and symbol-table.cc, and the \<open>CheckSummer\<close> of
  src/openfst/compat/checksummer.h.

  Keys and indexes are \<open>int64_t\<close>, here \<open>int\<close>; sizes and bucket positions are \<open>size_t\<close>, here
  \<open>nat\<close>. The hash function is absl's and is a parameter \<open>h\<close>. Nothing is assumed of it. The
  probing loops of \<open>DenseSymbolMap\<close> end only if there is an empty bucket, so they are partial
  functions: \<open>None\<close> is a loop that does not end. The \<open>absl::btree_map\<close> \<open>key_map\<close> is an
  association list with increasing keys, the order in which the source iterates over it.
  Copy-on-write sharing of the implementation object and the mutex are not modelled.
\<close>

section \<open>DenseSymbolMap\<close>

definition kNoSymbol :: int where "kNoSymbol = -1"

definition kEmptyBucket :: int where "kEmptyBucket = -1"

record dense_symbol_map =
  dsm_symbols :: "string list"
  dsm_buckets :: "int list"
  dsm_hash_mask :: nat

definition DenseSymbolMap :: dense_symbol_map where
  "DenseSymbolMap =
     \<lparr>dsm_symbols = [], dsm_buckets = replicate 16 kEmptyBucket, dsm_hash_mask = 16 - 1\<rparr>"

definition Size :: "dense_symbol_map \<Rightarrow> nat" where
  "Size m = length (dsm_symbols m)"

definition GetSymbol :: "dense_symbol_map \<Rightarrow> nat \<Rightarrow> string" where
  "GetSymbol m idx = dsm_symbols m ! idx"

definition GetHash :: "(string \<Rightarrow> nat) \<Rightarrow> dense_symbol_map \<Rightarrow> string \<Rightarrow> nat" where
  "GetHash h m key = h key AND dsm_hash_mask m"

text \<open>
  The probing loop of \<open>InsertOrFind\<close> and \<open>Find\<close>: from bucket \<open>idx\<close> to the first bucket that is
  empty or holds \<open>key\<close>.
\<close>

partial_function (option) probe :: "dense_symbol_map \<Rightarrow> string \<Rightarrow> nat \<Rightarrow> nat option" where
  "probe m key idx =
     (if dsm_buckets m ! idx \<noteq> kEmptyBucket
      then (if dsm_symbols m ! nat (dsm_buckets m ! idx) = key then Some idx
            else probe m key ((idx + 1) AND dsm_hash_mask m))
      else Some idx)"

text \<open>The inner loop of \<open>Rehash\<close>: the first empty bucket from \<open>idx\<close> on.\<close>

partial_function (option) probe_empty :: "int list \<Rightarrow> nat \<Rightarrow> nat \<Rightarrow> nat option" where
  "probe_empty buckets hmask idx =
     (if buckets ! idx \<noteq> kEmptyBucket then probe_empty buckets hmask ((idx + 1) AND hmask)
      else Some idx)"

text \<open>The outer loop of \<open>Rehash\<close>, over the symbols from number \<open>i\<close> on.\<close>

fun rehash_loop :: "(string \<Rightarrow> nat) \<Rightarrow> nat \<Rightarrow> string list \<Rightarrow> nat \<Rightarrow> int list \<Rightarrow> int list option" where
  "rehash_loop h hmask [] i buckets = Some buckets"
| "rehash_loop h hmask (str # strs) i buckets =
     (case probe_empty buckets hmask (h str AND hmask) of
        None \<Rightarrow> None
      | Some idx \<Rightarrow> rehash_loop h hmask strs (Suc i) (buckets[idx := int i]))"

definition Rehash :: "(string \<Rightarrow> nat) \<Rightarrow> dense_symbol_map \<Rightarrow> nat \<Rightarrow> dense_symbol_map option" where
  "Rehash h m num_buckets =
     (case rehash_loop h (num_buckets - 1) (dsm_symbols m) 0 (replicate num_buckets kEmptyBucket) of
        None \<Rightarrow> None
      | Some bs \<Rightarrow> Some (m\<lparr>dsm_buckets := bs, dsm_hash_mask := num_buckets - 1\<rparr>))"

text \<open>
  \<open>InsertOrFind\<close>. The test \<open>Size() >= 0.75 * buckets_.size()\<close> is made in \<open>float\<close> arithmetic,
  which is exact for sizes below \<open>2 ^ 24\<close>, and is written over the naturals. The result is the new map, the index of
  the symbol and whether it was inserted.
\<close>

definition InsertOrFind ::
  "(string \<Rightarrow> nat) \<Rightarrow> dense_symbol_map \<Rightarrow> string \<Rightarrow> (dense_symbol_map \<times> int \<times> bool) option" where
  "InsertOrFind h m key =
     (case (if 4 * Size m \<ge> 3 * length (dsm_buckets m) then Rehash h m (length (dsm_buckets m) * 2)
            else Some m) of
        None \<Rightarrow> None
      | Some m \<Rightarrow>
          (case probe m key (GetHash h m key) of
             None \<Rightarrow> None
           | Some idx \<Rightarrow>
               if dsm_buckets m ! idx \<noteq> kEmptyBucket then Some (m, dsm_buckets m ! idx, False)
               else (let nxt = int (Size m)
                     in Some (m\<lparr>dsm_buckets := (dsm_buckets m)[idx := nxt],
                                dsm_symbols := dsm_symbols m @ [key]\<rparr>, nxt, True))))"

definition FindIdx :: "(string \<Rightarrow> nat) \<Rightarrow> dense_symbol_map \<Rightarrow> string \<Rightarrow> int option" where
  "FindIdx h m key = map_option (\<lambda>idx. dsm_buckets m ! idx) (probe m key (h key AND dsm_hash_mask m))"

definition RemoveIdx :: "(string \<Rightarrow> nat) \<Rightarrow> dense_symbol_map \<Rightarrow> nat \<Rightarrow> dense_symbol_map option" where
  "RemoveIdx h m idx =
     (let m = m\<lparr>dsm_symbols := take idx (dsm_symbols m) @ drop (Suc idx) (dsm_symbols m)\<rparr>
      in Rehash h m (length (dsm_buckets m)))"

section \<open>CheckSummer\<close>

definition kCheckSumLength :: nat where "kCheckSumLength = 32"

record check_summer =
  cs_count :: nat
  cs_sum :: string

definition CheckSummer :: check_summer where
  "CheckSummer = \<lparr>cs_count = 0, cs_sum = replicate kCheckSumLength (char_of (0 :: nat))\<rparr>"

definition xor_char :: "char \<Rightarrow> char \<Rightarrow> char" where
  "xor_char a b = char_of ((of_char a :: nat) XOR of_char b)"

fun Update :: "check_summer \<Rightarrow> string \<Rightarrow> check_summer" where
  "Update c [] = c"
| "Update c (d # data) =
     (let i = cs_count c mod kCheckSumLength
      in Update \<lparr>cs_count = cs_count c + 1, cs_sum = (cs_sum c)[i := xor_char (cs_sum c ! i) d]\<rparr> data)"

definition Digest :: "check_summer \<Rightarrow> string" where
  "Digest c = cs_sum c"

text \<open>The decimal representation that \<open>absl::StrCat\<close> gives an \<open>int64_t\<close>.\<close>

fun nat_to_string :: "nat \<Rightarrow> string" where
  "nat_to_string n =
     (if n < 10 then [char_of (48 + n)] else nat_to_string (n div 10) @ [char_of (48 + n mod 10)])"

declare nat_to_string.simps [simp del]

definition int_to_string :: "int \<Rightarrow> string" where
  "int_to_string k = (if k < 0 then CHR ''-'' # nat_to_string (nat (- k)) else nat_to_string (nat k))"

section \<open>SymbolTableImpl\<close>

record symbol_table =
  st_name :: string
  available_key :: int
  dense_key_limit :: int
  symmap :: dense_symbol_map  \<comment> \<open>the member \<open>dsm_symbols\<close>\<close>
  idx_key :: "int list"
  key_map :: "(int \<times> int) list"
  check_sum_finalized :: bool
  check_sum_string :: string
  labeled_check_sum_string :: string

definition SymbolTableImpl :: "string \<Rightarrow> symbol_table" where
  "SymbolTableImpl name =
     \<lparr>st_name = name, available_key = 0, dense_key_limit = 0, symmap = DenseSymbolMap,
      idx_key = [], key_map = [], check_sum_finalized = False,
      check_sum_string = [], labeled_check_sum_string = []\<rparr>"

text \<open>\<open>key_map[key] = idx\<close> and \<open>key_map.erase\<close> on the ordered association list.\<close>

fun km_set :: "int \<Rightarrow> int \<Rightarrow> (int \<times> int) list \<Rightarrow> (int \<times> int) list" where
  "km_set k v [] = [(k, v)]"
| "km_set k v ((k', v') # kvs) =
     (if k < k' then (k, v) # (k', v') # kvs
      else if k = k' then (k, v) # kvs
      else (k', v') # km_set k v kvs)"

definition km_erase :: "int \<Rightarrow> (int \<times> int) list \<Rightarrow> (int \<times> int) list" where
  "km_erase k kvs = filter (\<lambda>kv. fst kv \<noteq> k) kvs"

definition MaybeRecomputeCheckSum :: "symbol_table \<Rightarrow> symbol_table" where
  "MaybeRecomputeCheckSum t =
     (if check_sum_finalized t then t
      else
       (let check_sum = fold (\<lambda>i c. Update (Update c (GetSymbol (symmap t) i)) [char_of (0 :: nat)])
                          [0 ..< Size (symmap t)] CheckSummer;
            labeled = fold (\<lambda>i c. Update c (GetSymbol (symmap t) i @ [char_of (9 :: nat)] @
                                            int_to_string (int i)))
                          [0 ..< nat (dense_key_limit t)] CheckSummer;
            labeled = fold (\<lambda>(key, idx) c.
                          if key < dense_key_limit t then c
                          else Update c (GetSymbol (symmap t) (nat idx) @ [char_of (9 :: nat)] @
                                         int_to_string key)) (key_map t) labeled
        in t\<lparr>check_sum_string := Digest check_sum,
             labeled_check_sum_string := Digest labeled,
             check_sum_finalized := True\<rparr>))"

definition CheckSum :: "symbol_table \<Rightarrow> symbol_table \<times> string" where
  "CheckSum t = (let t = MaybeRecomputeCheckSum t in (t, check_sum_string t))"

definition LabeledCheckSum :: "symbol_table \<Rightarrow> symbol_table \<times> string" where
  "LabeledCheckSum t = (let t = MaybeRecomputeCheckSum t in (t, labeled_check_sum_string t))"

text \<open>\<open>Find(int64_t key)\<close>: the symbol of a key, the empty string if there is none.\<close>

definition FindSymbol :: "symbol_table \<Rightarrow> int \<Rightarrow> string" where
  "FindSymbol t key =
     (let in_range = (\<lambda>idx. if idx < 0 \<or> idx \<ge> int (Size (symmap t)) then []
                            else GetSymbol (symmap t) (nat idx))
      in if key < 0 \<or> key \<ge> dense_key_limit t
         then (case map_of (key_map t) key of None \<Rightarrow> [] | Some idx \<Rightarrow> in_range idx)
         else in_range key)"

text \<open>\<open>Find(absl::string_view symbol)\<close>: the key of a symbol, \<open>kNoSymbol\<close> if there is none.\<close>

definition FindKey :: "(string \<Rightarrow> nat) \<Rightarrow> symbol_table \<Rightarrow> string \<Rightarrow> int option" where
  "FindKey h t str =
     (case FindIdx h (symmap t) str of
        None \<Rightarrow> None
      | Some idx \<Rightarrow>
          Some (if idx = kNoSymbol \<or> idx < dense_key_limit t then idx
                else idx_key t ! nat (idx - dense_key_limit t)))"

definition GetNthKey :: "symbol_table \<Rightarrow> int \<Rightarrow> int" where
  "GetNthKey t pos =
     (if pos < 0 \<or> pos \<ge> int (Size (symmap t)) then kNoSymbol
      else if pos < dense_key_limit t then pos
      else idx_key t ! nat (pos - dense_key_limit t))"

definition AddSymbol :: "(string \<Rightarrow> nat) \<Rightarrow> symbol_table \<Rightarrow> string \<Rightarrow> int \<Rightarrow> (symbol_table \<times> int) option" where
  "AddSymbol h t str key =
     (if key = kNoSymbol then Some (t, key)
      else
       (case InsertOrFind h (symmap t) str of
          None \<Rightarrow> None
        | Some (m, insert_key, inserted) \<Rightarrow>
           (let t = t\<lparr>symmap := m\<rparr> in
            if \<not> inserted
            then (let key_already = GetNthKey t insert_key
                  in if key_already = key then Some (t, key) else Some (t, key_already))
            else
             (let t = (if key + 1 = int (Size (symmap t)) \<and> key = dense_key_limit t
                       then t\<lparr>dense_key_limit := dense_key_limit t + 1\<rparr>
                       else t\<lparr>idx_key := idx_key t @ [key],
                              key_map := km_set key (int (Size (symmap t)) - 1) (key_map t)\<rparr>);
                  t = (if key \<ge> available_key t then t\<lparr>available_key := key + 1\<rparr> else t)
              in Some (t\<lparr>check_sum_finalized := False\<rparr>, key)))))"

definition AddSymbolNew :: "(string \<Rightarrow> nat) \<Rightarrow> symbol_table \<Rightarrow> string \<Rightarrow> (symbol_table \<times> int) option" where
  "AddSymbolNew h t str = AddSymbol h t str (available_key t)"

text \<open>
  \<open>AddTable\<close>: the iterator of the other table runs over its positions, and each item gives the
  symbol of the key at that position.
\<close>

fun add_items :: "(string \<Rightarrow> nat) \<Rightarrow> symbol_table \<Rightarrow> int list \<Rightarrow> symbol_table \<Rightarrow> symbol_table option" where
  "add_items h table [] t = Some t"
| "add_items h table (pos # ps) t =
     (case AddSymbolNew h t (FindSymbol table (GetNthKey table pos)) of
        None \<Rightarrow> None
      | Some (t, _) \<Rightarrow> add_items h table ps t)"

definition AddTable :: "(string \<Rightarrow> nat) \<Rightarrow> symbol_table \<Rightarrow> symbol_table \<Rightarrow> symbol_table option" where
  "AddTable h t table = add_items h table (map int [0 ..< Size (symmap table)]) t"

definition SetName :: "string \<Rightarrow> symbol_table \<Rightarrow> symbol_table" where
  "SetName new_name t = t\<lparr>st_name := new_name\<rparr>"

text \<open>
  \<open>RemoveSymbol\<close>, with the loops on the vector \<open>idx_key_\<close> as functions of their own:
  \<open>resize_zero\<close> is \<open>resize\<close>, which pads with 0; \<open>move_idx_keys\<close> runs from the end of the vector
  and moves its values up; \<open>fill_idx_keys\<close> writes the keys that were dense; \<open>shift_idx_keys\<close>
  closes the gap at a position and \<open>pop_back\<close>s.
\<close>

definition resize_zero :: "nat \<Rightarrow> int list \<Rightarrow> int list" where
  "resize_zero n xs = take n xs @ replicate (n - length xs) 0"

definition move_idx_keys :: "nat \<Rightarrow> nat \<Rightarrow> nat \<Rightarrow> int list \<Rightarrow> int list" where
  "move_idx_keys nsyms limit new_limit xs =
     fold (\<lambda>i xs. xs[i - new_limit - 1 := xs ! (i - limit)]) (rev [limit ..< Suc nsyms]) xs"

definition fill_idx_keys :: "nat \<Rightarrow> nat \<Rightarrow> int list \<Rightarrow> int list" where
  "fill_idx_keys limit new_limit xs =
     fold (\<lambda>i xs. xs[i - new_limit := int i + 1]) [new_limit ..< limit - 1] xs"

definition shift_idx_keys :: "nat \<Rightarrow> int list \<Rightarrow> int list" where
  "shift_idx_keys i xs =
     butlast (fold (\<lambda>i xs. xs[i := xs ! (i + 1)]) [i ..< length xs - 1] xs)"

definition RemoveSymbol :: "(string \<Rightarrow> nat) \<Rightarrow> symbol_table \<Rightarrow> int \<Rightarrow> symbol_table option" where
  "RemoveSymbol h t key =
     (let sparse = (key < 0 \<or> key \<ge> dense_key_limit t);
          found = (if sparse then map_of (key_map t) key else Some key)
      in case found of
           None \<Rightarrow> Some t
         | Some idx \<Rightarrow>
            (let t = (if sparse then t\<lparr>key_map := km_erase key (key_map t)\<rparr> else t) in
             if idx < 0 \<or> idx \<ge> int (Size (symmap t)) then Some t
             else
              (case RemoveIdx h (symmap t) (nat idx) of
                 None \<Rightarrow> None
               | Some m \<Rightarrow>
                  (let t = t\<lparr>symmap := m\<rparr>;
                       t = t\<lparr>key_map := map (\<lambda>(k, i). (k, if i > idx then i - 1 else i)) (key_map t)\<rparr>;
                       t = (if key \<ge> 0 \<and> key < dense_key_limit t
                            then
                             (let new_limit = key;
                                  limit = dense_key_limit t;
                                  t = t\<lparr>key_map := fold (\<lambda>i. km_set i (i - 1)) [key + 1 .. limit - 1]
                                                     (key_map t)\<rparr>;
                                  xs = resize_zero (Size (symmap t) - nat new_limit) (idx_key t);
                                  xs = move_idx_keys (Size (symmap t)) (nat limit) (nat new_limit) xs;
                                  xs = fill_idx_keys (nat limit) (nat new_limit) xs
                              in t\<lparr>idx_key := xs, dense_key_limit := new_limit\<rparr>)
                            else t\<lparr>idx_key := shift_idx_keys (nat (idx - dense_key_limit t)) (idx_key t)\<rparr>)
                   in Some (if key = available_key t - 1 then t\<lparr>available_key := key\<rparr> else t)))))"

text \<open>\<open>CompatSymbols\<close>; \<open>flag\<close> is \<open>FLAGS_fst_compat_symbols\<close>, and a null pointer is \<open>None\<close>.\<close>

definition CompatSymbols :: "bool \<Rightarrow> symbol_table option \<Rightarrow> symbol_table option \<Rightarrow> bool" where
  "CompatSymbols flag syms1 syms2 =
     (if \<not> flag then True
      else case (syms1, syms2) of
             (Some s1, Some s2) \<Rightarrow> snd (LabeledCheckSum s1) = snd (LabeledCheckSum s2)
           | _ \<Rightarrow> True)"

end
