(* ===== verification/VectorFst.thy ===== *)
theory VectorFst
  imports FstProperties SymbolTable
begin

text \<open>
  The mutable FST container: \<open>VectorState\<close>, \<open>VectorFstBaseImpl\<close>, \<open>VectorFstImpl\<close> and the
  \<open>MutableArcIterator\<close> of src/openfst/lib/vector-fst.h, and the property word of \<open>FstImplBase\<close>
  in src/openfst/lib/fst.h.

  A state number is a \<open>nat\<close>; the start state is a \<open>nat option\<close>, with \<open>None\<close> for \<open>kNoStateId\<close>.
  The epsilon counters are \<open>size_t\<close>, here \<open>64 word\<close>, and wrap. Indexing \<open>states_[s]\<close> out of
  range is undefined behaviour in the source; theorems about such an operation assume
  \<open>s < NumStates f\<close>. Allocation and reference counts are not modelled.
\<close>

unbundle bit_operations_syntax

section \<open>VectorState\<close>

record 'w vstate =
  final_weight :: 'w
  niepsilons :: "64 word"
  noepsilons :: "64 word"
  arcs :: "'w arc list"

definition VectorState :: "('w, 'z) weight_ops_scheme \<Rightarrow> 'w vstate" where
  "VectorState W = \<lparr>final_weight = Zero W, niepsilons = 0, noepsilons = 0, arcs = []\<rparr>"

definition StateReset :: "('w, 'z) weight_ops_scheme \<Rightarrow> 'w vstate \<Rightarrow> 'w vstate" where
  "StateReset W st = st\<lparr>final_weight := Zero W, niepsilons := 0, noepsilons := 0, arcs := []\<rparr>"

definition IncrementNumEpsilons :: "'w arc \<Rightarrow> 'w vstate \<Rightarrow> 'w vstate" where
  "IncrementNumEpsilons arc st =
     (let st = (if ilabel arc = 0 then st\<lparr>niepsilons := niepsilons st + 1\<rparr> else st)
      in if olabel arc = 0 then st\<lparr>noepsilons := noepsilons st + 1\<rparr> else st)"

definition StateAddArc :: "'w arc \<Rightarrow> 'w vstate \<Rightarrow> 'w vstate" where
  "StateAddArc arc st = (let st = IncrementNumEpsilons arc st in st\<lparr>arcs := arcs st @ [arc]\<rparr>)"

definition StateEmplaceArc :: "'w arc \<Rightarrow> 'w vstate \<Rightarrow> 'w vstate" where
  "StateEmplaceArc arc st =
     (let st = st\<lparr>arcs := arcs st @ [arc]\<rparr> in IncrementNumEpsilons (last (arcs st)) st)"

definition StateSetArc :: "'w arc \<Rightarrow> nat \<Rightarrow> 'w vstate \<Rightarrow> 'w vstate" where
  "StateSetArc arc n st =
     (let st = (if ilabel (arcs st ! n) = 0 then st\<lparr>niepsilons := niepsilons st - 1\<rparr> else st);
          st = (if olabel (arcs st ! n) = 0 then st\<lparr>noepsilons := noepsilons st - 1\<rparr> else st);
          st = IncrementNumEpsilons arc st
      in st\<lparr>arcs := (arcs st)[n := arc]\<rparr>)"

definition StateDeleteAllArcs :: "'w vstate \<Rightarrow> 'w vstate" where
  "StateDeleteAllArcs st = st\<lparr>niepsilons := 0, noepsilons := 0, arcs := []\<rparr>"

text \<open>One round of the loop of \<open>DeleteArcs(size_t n)\<close>.\<close>

definition StatePopArc :: "'w vstate \<Rightarrow> 'w vstate" where
  "StatePopArc st =
     (let st = (if ilabel (last (arcs st)) = 0 then st\<lparr>niepsilons := niepsilons st - 1\<rparr> else st);
          st = (if olabel (last (arcs st)) = 0 then st\<lparr>noepsilons := noepsilons st - 1\<rparr> else st)
      in st\<lparr>arcs := butlast (arcs st)\<rparr>)"

definition StateDeleteArcs :: "nat \<Rightarrow> 'w vstate \<Rightarrow> 'w vstate" where
  "StateDeleteArcs n st =
     (if n \<ge> length (arcs st) then StateDeleteAllArcs st else (StatePopArc ^^ n) st)"

section \<open>VectorFstBaseImpl\<close>

record 'w vfst =
  start :: "nat option"
  states :: "'w vstate list"
  properties :: props
  isymbols :: "symbol_table option"
  osymbols :: "symbol_table option"

definition NumStates :: "'w vfst \<Rightarrow> nat" where
  "NumStates f = length (states f)"

definition Final :: "'w vfst \<Rightarrow> nat \<Rightarrow> 'w" where
  "Final f s = final_weight (states f ! s)"

definition Arcs :: "'w vfst \<Rightarrow> nat \<Rightarrow> 'w arc list" where
  "Arcs f s = arcs (states f ! s)"

definition NumArcs :: "'w vfst \<Rightarrow> nat \<Rightarrow> nat" where
  "NumArcs f s = length (arcs (states f ! s))"

definition NumInputEpsilons :: "'w vfst \<Rightarrow> nat \<Rightarrow> 64 word" where
  "NumInputEpsilons f s = niepsilons (states f ! s)"

definition NumOutputEpsilons :: "'w vfst \<Rightarrow> nat \<Rightarrow> 64 word" where
  "NumOutputEpsilons f s = noepsilons (states f ! s)"

definition BaseSetStart :: "nat option \<Rightarrow> 'w vfst \<Rightarrow> 'w vfst" where
  "BaseSetStart s f = f\<lparr>start := s\<rparr>"

definition BaseSetFinal :: "nat \<Rightarrow> 'w \<Rightarrow> 'w vfst \<Rightarrow> 'w vfst" where
  "BaseSetFinal s w f = f\<lparr>states := (states f)[s := (states f ! s)\<lparr>final_weight := w\<rparr>]\<rparr>"

definition BaseAddState :: "('w, 'z) weight_ops_scheme \<Rightarrow> 'w vfst \<Rightarrow> 'w vfst" where
  "BaseAddState W f = f\<lparr>states := states f @ [VectorState W]\<rparr>"

definition BaseAddStates :: "('w, 'z) weight_ops_scheme \<Rightarrow> nat \<Rightarrow> 'w vfst \<Rightarrow> 'w vfst" where
  "BaseAddStates W n f = f\<lparr>states := states f @ replicate n (VectorState W)\<rparr>"

definition BaseAddArc :: "nat \<Rightarrow> 'w arc \<Rightarrow> 'w vfst \<Rightarrow> 'w vfst" where
  "BaseAddArc s arc f = f\<lparr>states := (states f)[s := StateAddArc arc (states f ! s)]\<rparr>"

text \<open>
  \<open>DeleteStates(dstates)\<close>. The first loop numbers the states that stay and moves them down in
  place; \<open>renumber_step\<close> is its body, on the vectors \<open>newid\<close> and \<open>states_\<close> and the counter
  \<open>nstates\<close>. The second loop renumbers and compacts the arcs of each state that stays;
  \<open>compact_step\<close> is the body of its inner loop, on the arcs and the counters \<open>narcs\<close>, \<open>nieps\<close>
  and \<open>noeps\<close>.
\<close>

definition mark_deleted :: "nat \<Rightarrow> nat list \<Rightarrow> nat option list" where
  "mark_deleted n dstates = fold (\<lambda>d newid. newid[d := None]) dstates (replicate n (Some 0))"

definition renumber_step ::
  "nat \<Rightarrow> nat option list \<times> 'w vstate list \<times> nat \<Rightarrow> nat option list \<times> 'w vstate list \<times> nat" where
  "renumber_step s = (\<lambda>(newid, sts, nstates).
     if newid ! s \<noteq> None
     then (newid[s := Some nstates],
           (if s \<noteq> nstates then sts[nstates := sts ! s] else sts), nstates + 1)
     else (newid, sts, nstates))"

definition compact_step ::
  "nat option list \<Rightarrow> nat \<Rightarrow> 'w arc list \<times> nat \<times> 64 word \<times> 64 word \<Rightarrow>
     'w arc list \<times> nat \<times> 64 word \<times> 64 word" where
  "compact_step newid i = (\<lambda>(as, narcs, nieps, noeps).
     case newid ! nextstate (as ! i) of
       Some t \<Rightarrow>
         (let as = as[i := (as ! i)\<lparr>nextstate := t\<rparr>];
              as = (if i \<noteq> narcs then as[narcs := as ! i] else as)
          in (as, narcs + 1, nieps, noeps))
     | None \<Rightarrow>
         (as, narcs,
          (if ilabel (as ! i) = 0 then nieps - 1 else nieps),
          (if olabel (as ! i) = 0 then noeps - 1 else noeps)))"

definition compact_state :: "nat option list \<Rightarrow> 'w vstate \<Rightarrow> 'w vstate" where
  "compact_state newid st =
     (let (as, narcs, nieps, noeps) =
            fold (compact_step newid) [0 ..< length (arcs st)]
              (arcs st, 0, niepsilons st, noepsilons st);
          st = st\<lparr>arcs := as\<rparr>;
          st = StateDeleteArcs (length (arcs st) - narcs) st
      in st\<lparr>niepsilons := nieps, noepsilons := noeps\<rparr>)"

definition BaseDeleteStates :: "nat list \<Rightarrow> 'w vfst \<Rightarrow> 'w vfst" where
  "BaseDeleteStates dstates f =
     (if dstates = [] then f
      else
       (let n = length (states f);
            (newid, sts, nstates) =
              fold renumber_step [0 ..< n] (mark_deleted n dstates, states f, 0);
            f = f\<lparr>states := map (compact_state newid) (take nstates sts)\<rparr>
        in case start f of
             None \<Rightarrow> f
           | Some s \<Rightarrow> BaseSetStart (newid ! s) f))"

definition BaseDeleteAllStates :: "'w vfst \<Rightarrow> 'w vfst" where
  "BaseDeleteAllStates f = f\<lparr>states := [], start := None\<rparr>"

definition BaseDeleteArcs :: "nat \<Rightarrow> nat \<Rightarrow> 'w vfst \<Rightarrow> 'w vfst" where
  "BaseDeleteArcs s n f = f\<lparr>states := (states f)[s := StateDeleteArcs n (states f ! s)]\<rparr>"

definition BaseDeleteAllArcs :: "nat \<Rightarrow> 'w vfst \<Rightarrow> 'w vfst" where
  "BaseDeleteAllArcs s f = f\<lparr>states := (states f)[s := StateDeleteAllArcs (states f ! s)]\<rparr>"

section \<open>The property word of FstImplBase\<close>

definition Properties :: "'w vfst \<Rightarrow> props \<Rightarrow> props" where
  "Properties f pmask = properties f AND pmask"

definition SetProperties :: "props \<Rightarrow> 'w vfst \<Rightarrow> 'w vfst" where
  "SetProperties props f = f\<lparr>properties := (properties f AND kError) OR props\<rparr>"

definition SetPropertiesMask :: "props \<Rightarrow> props \<Rightarrow> 'w vfst \<Rightarrow> 'w vfst" where
  "SetPropertiesMask props pmask f =
     f\<lparr>properties := (properties f AND (NOT pmask OR kError)) OR (props AND pmask)\<rparr>"

definition UpdateProperties :: "props \<Rightarrow> props \<Rightarrow> 'w vfst \<Rightarrow> 'w vfst" where
  "UpdateProperties props pmask f =
     (let old_props = properties f AND pmask;
          old_mask = KnownProperties old_props;
          discovered_mask = pmask AND NOT old_mask;
          discovered_props = props AND discovered_mask
      in if discovered_props \<noteq> 0 then f\<lparr>properties := properties f OR discovered_props\<rparr> else f)"

definition SetInputSymbols :: "symbol_table option \<Rightarrow> 'w vfst \<Rightarrow> 'w vfst" where
  "SetInputSymbols isyms f = f\<lparr>isymbols := isyms\<rparr>"

definition SetOutputSymbols :: "symbol_table option \<Rightarrow> 'w vfst \<Rightarrow> 'w vfst" where
  "SetOutputSymbols osyms f = f\<lparr>osymbols := osyms\<rparr>"

section \<open>VectorFstImpl\<close>

definition kStaticProperties :: props where
  "kStaticProperties = kExpanded OR kMutable"

definition VectorFstImpl :: "'w vfst" where
  "VectorFstImpl =
     SetProperties (kNullProperties OR kStaticProperties)
       \<lparr>start = None, states = [], properties = 0, isymbols = None, osymbols = None\<rparr>"

definition SetStart :: "nat option \<Rightarrow> 'w vfst \<Rightarrow> 'w vfst" where
  "SetStart s f =
     (let f = BaseSetStart s f in SetProperties (SetStartProperties (properties f)) f)"

definition SetFinal :: "('w, 'z) weight_ops_scheme \<Rightarrow> nat \<Rightarrow> 'w \<Rightarrow> 'w vfst \<Rightarrow> 'w vfst" where
  "SetFinal W s w f =
     (let old_weight = Final f s;
          props = SetFinalProperties W (properties f) old_weight w;
          f = BaseSetFinal s w f
      in SetProperties props f)"

text \<open>\<open>AddState\<close> returns the number of the new state, which is \<open>NumStates\<close> before the call.\<close>

definition AddState :: "('w, 'z) weight_ops_scheme \<Rightarrow> 'w vfst \<Rightarrow> 'w vfst" where
  "AddState W f =
     (let f = BaseAddState W f in SetProperties (AddStateProperties (properties f)) f)"

definition AddStates :: "('w, 'z) weight_ops_scheme \<Rightarrow> nat \<Rightarrow> 'w vfst \<Rightarrow> 'w vfst" where
  "AddStates W n f =
     (let f = BaseAddStates W n f in SetProperties (AddStateProperties (properties f)) f)"

definition UpdatePropertiesAfterAddArc ::
  "('w, 'z) weight_ops_scheme \<Rightarrow> nat \<Rightarrow> 'w vfst \<Rightarrow> 'w vfst" where
  "UpdatePropertiesAfterAddArc W s f =
     (let vstate = states f ! s;
          num_arcs = length (arcs vstate)
      in if num_arcs \<noteq> 0
         then (let arc = arcs vstate ! (num_arcs - 1);
                   parc = (if num_arcs < 2 then None else Some (arcs vstate ! (num_arcs - 2)))
               in SetProperties (AddArcProperties W (properties f) s arc parc) f)
         else f)"

definition AddArc :: "('w, 'z) weight_ops_scheme \<Rightarrow> nat \<Rightarrow> 'w arc \<Rightarrow> 'w vfst \<Rightarrow> 'w vfst" where
  "AddArc W s arc f = UpdatePropertiesAfterAddArc W s (BaseAddArc s arc f)"

text \<open>
  \<open>DeleteStates(dstates)\<close> as a client reaches it, through \<open>ImplToMutableFst\<close>, which returns at
  once when the list is empty.
\<close>

definition ImplDeleteStates :: "nat list \<Rightarrow> 'w vfst \<Rightarrow> 'w vfst" where
  "ImplDeleteStates dstates f =
     (let f = BaseDeleteStates dstates f
      in SetProperties (DeleteStatesProperties (properties f)) f)"

definition DeleteStates :: "nat list \<Rightarrow> 'w vfst \<Rightarrow> 'w vfst" where
  "DeleteStates dstates f = (if dstates = [] then f else ImplDeleteStates dstates f)"

definition ImplDeleteAllStates :: "'w vfst \<Rightarrow> 'w vfst" where
  "ImplDeleteAllStates f =
     (let f = BaseDeleteAllStates f
      in SetProperties (DeleteAllStatesProperties (properties f) kStaticProperties) f)"

text \<open>
  \<open>DeleteStates()\<close> of \<open>ImplToMutableFst\<close>: an implementation object that is shared with another
  FST (\<open>unique\<close> is false) is replaced by a new one with the same symbol tables.
\<close>

definition DeleteAllStates :: "bool \<Rightarrow> 'w vfst \<Rightarrow> 'w vfst" where
  "DeleteAllStates unique f =
     (if \<not> unique
      then SetOutputSymbols (osymbols f) (SetInputSymbols (isymbols f) VectorFstImpl)
      else ImplDeleteAllStates f)"

definition DeleteArcs :: "nat \<Rightarrow> nat \<Rightarrow> 'w vfst \<Rightarrow> 'w vfst" where
  "DeleteArcs s n f =
     (let f = BaseDeleteArcs s n f in SetProperties (DeleteArcsProperties (properties f)) f)"

definition DeleteAllArcs :: "nat \<Rightarrow> 'w vfst \<Rightarrow> 'w vfst" where
  "DeleteAllArcs s f =
     (let f = BaseDeleteAllArcs s f in SetProperties (DeleteArcsProperties (properties f)) f)"

text \<open>The converting constructor \<open>VectorFstImpl(const Fst<Arc>&)\<close>.\<close>

definition copy_state :: "('w, 'z) weight_ops_scheme \<Rightarrow> 'w vfst \<Rightarrow> nat \<Rightarrow> 'w vfst \<Rightarrow> 'w vfst" where
  "copy_state W g s f =
     (let f = BaseAddState W f;
          f = BaseSetFinal s (Final g s) f
      in fold (BaseAddArc s) (Arcs g s) f)"

definition CopyFst :: "('w, 'z) weight_ops_scheme \<Rightarrow> 'w vfst \<Rightarrow> 'w vfst" where
  "CopyFst W g =
     (let f = \<lparr>start = None, states = [], properties = 0, isymbols = None, osymbols = None\<rparr>;
          f = SetInputSymbols (isymbols g) f;
          f = SetOutputSymbols (osymbols g) f;
          f = BaseSetStart (start g) f;
          f = fold (copy_state W g) [0 ..< NumStates g] f
      in SetProperties (Properties g kCopyProperties OR kStaticProperties) f)"

section \<open>MutableArcIterator\<close>

text \<open>\<open>SetValue\<close> of an iterator over the arcs of state \<open>s\<close> at position \<open>i\<close>.\<close>

definition SetValueProperties ::
  "('w, 'z) weight_ops_scheme \<Rightarrow> props \<Rightarrow> 'w arc \<Rightarrow> 'w arc \<Rightarrow> props" where
  "SetValueProperties W props oarc arc =
     (let p = props;
          p = (if ilabel oarc \<noteq> olabel oarc then p AND NOT kNotAcceptor else p);
          p = (if ilabel oarc = 0
               then (let p = p AND NOT kIEpsilons
                     in if olabel oarc = 0 then p AND NOT kEpsilons else p)
               else p);
          p = (if olabel oarc = 0 then p AND NOT kOEpsilons else p);
          p = (if \<not> Weq W (weight oarc) (Zero W) \<and> \<not> Weq W (weight oarc) (One W)
               then p AND NOT kWeighted else p);
          p = (if ilabel arc \<noteq> olabel arc then (p OR kNotAcceptor) AND NOT kAcceptor else p);
          p = (if ilabel arc = 0
               then (let p = (p OR kIEpsilons) AND NOT kNoIEpsilons
                     in if olabel arc = 0 then (p OR kEpsilons) AND NOT kNoEpsilons else p)
               else p);
          p = (if olabel arc = 0 then (p OR kOEpsilons) AND NOT kNoOEpsilons else p);
          p = (if \<not> Weq W (weight arc) (Zero W) \<and> \<not> Weq W (weight arc) (One W)
               then (p OR kWeighted) AND NOT kUnweighted else p)
      in p AND (kSetArcProperties OR kAcceptor OR kNotAcceptor OR kEpsilons OR kNoEpsilons OR
                kIEpsilons OR kNoIEpsilons OR kOEpsilons OR kNoOEpsilons OR kWeighted OR
                kUnweighted))"

definition SetValue ::
  "('w, 'z) weight_ops_scheme \<Rightarrow> nat \<Rightarrow> nat \<Rightarrow> 'w arc \<Rightarrow> 'w vfst \<Rightarrow> 'w vfst" where
  "SetValue W s i arc f =
     (let oarc = arcs (states f ! s) ! i;
          props = SetValueProperties W (properties f) oarc arc
      in f\<lparr>states := (states f)[s := StateSetArc arc i (states f ! s)], properties := props\<rparr>)"

end
