(* ===== verification/FstSemantics.thy ===== *)
theory FstSemantics
  imports VectorFst
begin

text \<open>
  What the property bits and the FST operations are about: the transitions and edges of an FST,
  the meaning of each trinary property (the conditions that \<open>ComputeProperties\<close> of
  src/openfst/lib/test-properties.h tests, with the graph properties stated over the edge
  relation), well-formedness, and the transduction an FST performs. These definitions are the
  specification that the theorems on the operations refer to.
\<close>

section \<open>Transitions and edges\<close>

definition trans :: "'w vfst \<Rightarrow> (nat \<times> 'w arc) set" where
  "trans f = {(s, a). s < NumStates f \<and> a \<in> set (Arcs f s)}"

definition edges :: "'w vfst \<Rightarrow> (nat \<times> nat) set" where
  "edges f = (\<lambda>(s, a). (s, nextstate a)) ` trans f"

section \<open>The trinary properties\<close>

datatype trinary =
    Acceptor | IDeterministic | ODeterministic | Epsilons | IEpsilons | OEpsilons
  | ILabelSorted | OLabelSorted | Weighted | Cyclic | InitialCyclic | TopSorted
  | Accessible | CoAccessible | IsString | WeightedCycles

text \<open>The position of the positive bit; the negative bit is next to it.\<close>

primrec pos_bit :: "trinary \<Rightarrow> nat" where
  "pos_bit Acceptor = 16"
| "pos_bit IDeterministic = 18"
| "pos_bit ODeterministic = 20"
| "pos_bit Epsilons = 22"
| "pos_bit IEpsilons = 24"
| "pos_bit OEpsilons = 26"
| "pos_bit ILabelSorted = 28"
| "pos_bit OLabelSorted = 30"
| "pos_bit Weighted = 32"
| "pos_bit Cyclic = 34"
| "pos_bit InitialCyclic = 36"
| "pos_bit TopSorted = 38"
| "pos_bit Accessible = 40"
| "pos_bit CoAccessible = 42"
| "pos_bit IsString = 44"
| "pos_bit WeightedCycles = 46"

definition accessible :: "'w vfst \<Rightarrow> bool" where
  "accessible f \<longleftrightarrow> (\<forall>s < NumStates f. \<exists>i. start f = Some i \<and> (i, s) \<in> (edges f)\<^sup>*)"

definition final_state :: "('w, 'z) weight_ops_scheme \<Rightarrow> 'w vfst \<Rightarrow> nat \<Rightarrow> bool" where
  "final_state W f s \<longleftrightarrow> s < NumStates f \<and> \<not> Weq W (Final f s) (Zero W)"

definition coaccessible :: "('w, 'z) weight_ops_scheme \<Rightarrow> 'w vfst \<Rightarrow> bool" where
  "coaccessible W f \<longleftrightarrow> (\<forall>s < NumStates f. \<exists>t. (s, t) \<in> (edges f)\<^sup>* \<and> final_state W f t)"

definition is_string :: "('w, 'z) weight_ops_scheme \<Rightarrow> 'w vfst \<Rightarrow> bool" where
  "is_string W f \<longleftrightarrow>
     (start f = None \<or> start f = Some 0) \<and>
     (\<forall>s < NumStates f.
        (\<forall>a \<in> set (Arcs f s). nextstate a = s + 1) \<and>
        (final_state W f s \<longrightarrow> s + 1 = NumStates f) \<and>
        (\<not> final_state W f s \<longrightarrow> length (Arcs f s) = 1))"

definition weighted :: "('w, 'z) weight_ops_scheme \<Rightarrow> 'w vfst \<Rightarrow> bool" where
  "weighted W f \<longleftrightarrow>
     (\<exists>(s, a) \<in> trans f. nontrivial W (weight a)) \<or> (\<exists>s < NumStates f. nontrivial W (Final f s))"

definition weighted_cycles :: "('w, 'z) weight_ops_scheme \<Rightarrow> 'w vfst \<Rightarrow> bool" where
  "weighted_cycles W f \<longleftrightarrow>
     (\<exists>(s, a) \<in> trans f. nontrivial W (weight a) \<and> (nextstate a, s) \<in> (edges f)\<^sup>*)"

primrec holds :: "('w, 'z) weight_ops_scheme \<Rightarrow> 'w vfst \<Rightarrow> trinary \<Rightarrow> bool" where
  "holds W f Acceptor = (\<forall>(s, a) \<in> trans f. ilabel a = olabel a)"
| "holds W f IDeterministic = (\<forall>s < NumStates f. distinct (map ilabel (Arcs f s)))"
| "holds W f ODeterministic = (\<forall>s < NumStates f. distinct (map olabel (Arcs f s)))"
| "holds W f Epsilons = (\<exists>(s, a) \<in> trans f. ilabel a = 0 \<and> olabel a = 0)"
| "holds W f IEpsilons = (\<exists>(s, a) \<in> trans f. ilabel a = 0)"
| "holds W f OEpsilons = (\<exists>(s, a) \<in> trans f. olabel a = 0)"
| "holds W f ILabelSorted = (\<forall>s < NumStates f. sorted (map ilabel (Arcs f s)))"
| "holds W f OLabelSorted = (\<forall>s < NumStates f. sorted (map olabel (Arcs f s)))"
| "holds W f Weighted = weighted W f"
| "holds W f Cyclic = (\<exists>s. (s, s) \<in> (edges f)\<^sup>+)"
| "holds W f InitialCyclic = (\<exists>s. start f = Some s \<and> (s, s) \<in> (edges f)\<^sup>+)"
| "holds W f TopSorted = (\<forall>(s, a) \<in> trans f. s < nextstate a)"
| "holds W f Accessible = accessible f"
| "holds W f CoAccessible = coaccessible W f"
| "holds W f IsString = is_string W f"
| "holds W f WeightedCycles = weighted_cycles W f"

text \<open>
  A property word is sound for an FST if every bit that is set says something true: this is what
  the library relies on when it reads stored properties instead of computing them.
\<close>

definition props_sound :: "('w, 'z) weight_ops_scheme \<Rightarrow> 'w vfst \<Rightarrow> props \<Rightarrow> bool" where
  "props_sound W f p \<longleftrightarrow>
     (\<forall>t. (bit p (pos_bit t) \<longrightarrow> holds W f t) \<and> (bit p (Suc (pos_bit t)) \<longrightarrow> \<not> holds W f t))"

section \<open>Well-formed FSTs\<close>

definition eps_counts_ok :: "'w vstate \<Rightarrow> bool" where
  "eps_counts_ok st \<longleftrightarrow>
     niepsilons st = of_nat (length (filter (\<lambda>a. ilabel a = 0) (arcs st))) \<and>
     noepsilons st = of_nat (length (filter (\<lambda>a. olabel a = 0) (arcs st)))"

definition wf_fst :: "'w vfst \<Rightarrow> bool" where
  "wf_fst f \<longleftrightarrow>
     (\<forall>s. start f = Some s \<longrightarrow> s < NumStates f) \<and>
     (\<forall>(s, a) \<in> trans f. nextstate a < NumStates f) \<and>
     (\<forall>st \<in> set (states f). eps_counts_ok st)"

section \<open>Transduction\<close>

text \<open>
  \<open>path f s as t\<close>: \<open>as\<close> are the arcs of a path from state \<open>s\<close> to state \<open>t\<close>. Labels are read off
  without epsilons, and weights are multiplied along the path. \<open>transduces W f x y w\<close>: some path
  from the start state to a final state has input \<open>x\<close>, output \<open>y\<close> and, with the final weight,
  weight \<open>w\<close>. This is the relation that the comments of the library call "transduces string x to
  y with weight w".
\<close>

primrec path :: "'w vfst \<Rightarrow> nat \<Rightarrow> 'w arc list \<Rightarrow> nat \<Rightarrow> bool" where
  "path f s [] t = (s = t)"
| "path f s (a # as) t = ((s, a) \<in> trans f \<and> path f (nextstate a) as t)"

definition istring :: "'w arc list \<Rightarrow> int list" where
  "istring as = filter (\<lambda>l. l \<noteq> 0) (map ilabel as)"

definition ostring :: "'w arc list \<Rightarrow> int list" where
  "ostring as = filter (\<lambda>l. l \<noteq> 0) (map olabel as)"

primrec path_weight :: "('w, 'z) weight_ops_scheme \<Rightarrow> 'w arc list \<Rightarrow> 'w" where
  "path_weight W [] = One W"
| "path_weight W (a # as) = Times W (weight a) (path_weight W as)"

definition transduces_from ::
  "('w, 'z) weight_ops_scheme \<Rightarrow> 'w vfst \<Rightarrow> nat \<Rightarrow> int list \<Rightarrow> int list \<Rightarrow> 'w \<Rightarrow> bool" where
  "transduces_from W f s x y w \<longleftrightarrow>
     (\<exists>as t. path f s as t \<and> final_state W f t \<and> x = istring as \<and> y = ostring as \<and>
             w = Times W (path_weight W as) (Final f t))"

definition transduces ::
  "('w, 'z) weight_ops_scheme \<Rightarrow> 'w vfst \<Rightarrow> int list \<Rightarrow> int list \<Rightarrow> 'w \<Rightarrow> bool" where
  "transduces W f x y w \<longleftrightarrow> (\<exists>i. start f = Some i \<and> transduces_from W f i x y w)"

definition weights_in :: "('w \<Rightarrow> bool) \<Rightarrow> 'w vfst \<Rightarrow> bool" where
  "weights_in M f \<longleftrightarrow>
     (\<forall>st \<in> set (states f). M (final_weight st) \<and> (\<forall>a \<in> set (arcs st). M (weight a)))"

section \<open>Facts on transitions, paths and strings\<close>

lemma trans_iff: "(s, a) \<in> trans f \<longleftrightarrow> s < NumStates f \<and> a \<in> set (Arcs f s)"
  by (simp add: trans_def)

lemma edges_iff: "(s, t) \<in> edges f \<longleftrightarrow> (\<exists>a. (s, a) \<in> trans f \<and> nextstate a = t)"
  by (force simp: edges_def)

lemma edgesI: "(s, a) \<in> trans f \<Longrightarrow> (s, nextstate a) \<in> edges f"
  by (auto simp: edges_iff)

lemma wf_start: "wf_fst f \<Longrightarrow> start f = Some s \<Longrightarrow> s < NumStates f"
  by (simp add: wf_fst_def)

lemma wf_target: "wf_fst f \<Longrightarrow> s < NumStates f \<Longrightarrow> a \<in> set (Arcs f s) \<Longrightarrow> nextstate a < NumStates f"
  by (auto simp: wf_fst_def trans_iff)

lemma wf_trans: "wf_fst f \<Longrightarrow> (s, a) \<in> trans f \<Longrightarrow> nextstate a < NumStates f"
  by (auto simp: wf_fst_def)

lemma wf_eps: "wf_fst f \<Longrightarrow> s < NumStates f \<Longrightarrow> eps_counts_ok (states f ! s)"
  by (simp add: wf_fst_def NumStates_def)

lemma wf_fstI:
  assumes "\<And>s. start f = Some s \<Longrightarrow> s < NumStates f"
    and "\<And>s a. s < NumStates f \<Longrightarrow> a \<in> set (Arcs f s) \<Longrightarrow> nextstate a < NumStates f"
    and "\<And>s. s < NumStates f \<Longrightarrow> eps_counts_ok (states f ! s)"
  shows "wf_fst f"
  using assms unfolding wf_fst_def
  by (auto simp: trans_iff) (metis NumStates_def in_set_conv_nth)

lemma istring_simps [simp]:
  "istring [] = []"
  "istring (a # as) = (if ilabel a = 0 then istring as else ilabel a # istring as)"
  "istring (as @ bs) = istring as @ istring bs"
  by (simp_all add: istring_def)

lemma ostring_simps [simp]:
  "ostring [] = []"
  "ostring (a # as) = (if olabel a = 0 then ostring as else olabel a # ostring as)"
  "ostring (as @ bs) = ostring as @ ostring bs"
  by (simp_all add: ostring_def)

lemma path_append: "path f s (as @ bs) t \<longleftrightarrow> (\<exists>u. path f s as u \<and> path f u bs t)"
  by (induction as arbitrary: s) auto

lemma path_edges: "path f s as t \<Longrightarrow> (s, t) \<in> (edges f)\<^sup>*"
  by (induction as arbitrary: s) (auto intro: converse_rtrancl_into_rtrancl edgesI)

lemma edges_path: "(s, t) \<in> (edges f)\<^sup>* \<Longrightarrow> \<exists>as. path f s as t"
proof (induction rule: converse_rtrancl_induct)
  case base
  then show ?case by (auto intro: exI [of _ "[]"])
next
  case (step s u)
  then obtain a as where "(s, a) \<in> trans f" "nextstate a = u" "path f u as t"
    by (auto simp: edges_iff)
  then show ?case by (auto intro: exI [of _ "a # as"])
qed

lemma props_soundI:
  assumes "\<And>t. bit p (pos_bit t) \<Longrightarrow> holds W f t"
    and "\<And>t. bit p (Suc (pos_bit t)) \<Longrightarrow> \<not> holds W f t"
  shows "props_sound W f p"
  using assms by (auto simp: props_sound_def)

lemma props_sound_mono:
  "props_sound W f p \<Longrightarrow> (\<And>n. 16 \<le> n \<Longrightarrow> n < 48 \<Longrightarrow> bit q n \<Longrightarrow> bit p n) \<Longrightarrow> props_sound W f q"
proof (rule props_soundI)
  fix t
  assume p: "props_sound W f p" and qp: "\<And>n. 16 \<le> n \<Longrightarrow> n < 48 \<Longrightarrow> bit q n \<Longrightarrow> bit p n"
  { assume "bit q (pos_bit t)"
    then have "bit p (pos_bit t)" by (intro qp) (cases t; simp)+
    then show "holds W f t" using p by (simp add: props_sound_def) }
  { assume "bit q (Suc (pos_bit t))"
    then have "bit p (Suc (pos_bit t))" by (intro qp) (cases t; simp)+
    then show "\<not> holds W f t" using p by (simp add: props_sound_def) }
qed

lemma props_sound_Or:
  "props_sound W f p \<Longrightarrow> props_sound W f q \<Longrightarrow> props_sound W f (p OR q)"
  by (auto simp: props_sound_def bit_or_iff)

lemma props_soundD:
  assumes "props_sound W f p"
  shows "bit p (pos_bit t) \<Longrightarrow> holds W f t" "bit p (Suc (pos_bit t)) \<Longrightarrow> \<not> holds W f t"
  using assms by (auto simp: props_sound_def)

text \<open>The value of every property depends on the states and the start state only.\<close>

lemma holds_cong:
  assumes "start f = start g" "states f = states g"
  shows "holds W f t \<longleftrightarrow> holds W g t"
proof -
  have n: "NumStates f = NumStates g" "\<And>s. Arcs f s = Arcs g s" "\<And>s. Final f s = Final g s"
    using assms by (simp_all add: NumStates_def Arcs_def Final_def)
  have tr: "trans f = trans g" by (simp add: trans_def n)
  have ed: "edges f = edges g" by (simp add: edges_def tr)
  show ?thesis
    by (cases t) (simp_all add: n tr ed assms accessible_def coaccessible_def final_state_def
        is_string_def weighted_def weighted_cycles_def)
qed

lemma props_sound_cong:
  "start f = start g \<Longrightarrow> states f = states g \<Longrightarrow> props_sound W f p \<longleftrightarrow> props_sound W g p"
  using holds_cong [of f g W] by (auto simp: props_sound_def)

lemma props_sound_SetProperties:
  "props_sound W f q \<Longrightarrow> props_sound W (SetProperties q f) (properties (SetProperties q f))"
proof -
  assume "props_sound W f q"
  then have "props_sound W f (properties f AND kError OR q)"
    by (rule props_sound_mono) (auto simp: bit_or_iff bit_and_iff bit_kError)
  then show ?thesis
    by (subst props_sound_cong [of _ f]) (simp_all add: SetProperties_def)
qed

end
