(* ===== verification/VectorFstProps.thy ===== *)
theory VectorFstProps
  imports FstSemantics
begin

text \<open>
  Correctness of the VectorFst operations: each mutation changes exactly the part of the machine
  it names, keeps the epsilon counters equal to the number of epsilon arcs, and keeps the stored
  property word sound.
\<close>

section \<open>What each operation changes\<close>

lemma SetProperties_sel [simp]:
  "start (SetProperties p f) = start f" "states (SetProperties p f) = states f"
  "isymbols (SetProperties p f) = isymbols f" "osymbols (SetProperties p f) = osymbols f"
  by (simp_all add: SetProperties_def)

lemma SetPropertiesMask_sel [simp]:
  "start (SetPropertiesMask p m f) = start f" "states (SetPropertiesMask p m f) = states f"
  "isymbols (SetPropertiesMask p m f) = isymbols f" "osymbols (SetPropertiesMask p m f) = osymbols f"
  by (simp_all add: SetPropertiesMask_def)

lemmas fst_obs = NumStates_def Arcs_def Final_def

lemma holds_SetProperties [simp]: "holds W (SetProperties p f) t = holds W f t"
  by (rule holds_cong) simp_all

lemma props_sound_SetProperties_iff [simp]:
  "props_sound W (SetProperties p f) q = props_sound W f q"
  by (rule props_sound_cong) simp_all

lemma props_sound_SetPropertiesMask_iff [simp]:
  "props_sound W (SetPropertiesMask p m f) q = props_sound W f q"
  by (rule props_sound_cong) simp_all

section \<open>SetStart\<close>

lemma BaseSetStart_obs [simp]:
  "trans (BaseSetStart s f) = trans f" "edges (BaseSetStart s f) = edges f"
  "NumStates (BaseSetStart s f) = NumStates f" "Arcs (BaseSetStart s f) = Arcs f"
  "Final (BaseSetStart s f) = Final f" "start (BaseSetStart s f) = s"
  "properties (BaseSetStart s f) = properties f"
  by (simp_all add: BaseSetStart_def trans_def edges_def fst_obs fun_eq_iff)

lemma holds_BaseSetStart:
  "t \<notin> {InitialCyclic, Accessible, IsString} \<Longrightarrow> holds W (BaseSetStart s f) t = holds W f t"
  by (cases t) (simp_all add: coaccessible_def final_state_def weighted_def weighted_cycles_def)

lemma SetStartProperties_sound:
  assumes "props_sound W f p"
  shows "props_sound W (BaseSetStart s f) (SetStartProperties p)"
proof (rule props_soundI)
  fix t
  note P = props_soundD [OF assms]
  note [simp] = SetStartProperties_def prop_bits Let_def
  show "bit (SetStartProperties p) (pos_bit t) \<Longrightarrow> holds W (BaseSetStart s f) t"
    using P(1) [of t] holds_BaseSetStart [of t W s f] by (cases t) auto
  show "bit (SetStartProperties p) (Suc (pos_bit t)) \<Longrightarrow> \<not> holds W (BaseSetStart s f) t"
    using P(2) [of t] P(2) [of Cyclic] holds_BaseSetStart [of t W s f] by (cases t) auto
qed

theorem SetStart_sound:
  "props_sound W f (properties f) \<Longrightarrow> props_sound W (SetStart s f) (properties (SetStart s f))"
  unfolding SetStart_def Let_def
  by (intro props_sound_SetProperties) (simp add: SetStartProperties_sound)


section \<open>SetFinal\<close>

lemma BaseSetFinal_obs [simp]:
  "trans (BaseSetFinal s w f) = trans f" "edges (BaseSetFinal s w f) = edges f"
  "NumStates (BaseSetFinal s w f) = NumStates f" "Arcs (BaseSetFinal s w f) = Arcs f"
  "start (BaseSetFinal s w f) = start f" "properties (BaseSetFinal s w f) = properties f"
proof -
  show n: "NumStates (BaseSetFinal s w f) = NumStates f"
    by (simp add: BaseSetFinal_def NumStates_def)
  show a: "Arcs (BaseSetFinal s w f) = Arcs f"
    by (cases "s < length (states f)")
      (auto simp: BaseSetFinal_def Arcs_def fun_eq_iff nth_list_update list_update_beyond)
  show t: "trans (BaseSetFinal s w f) = trans f" by (simp add: trans_def n a)
  show "edges (BaseSetFinal s w f) = edges f" by (simp add: edges_def t)
qed (simp_all add: BaseSetFinal_def)

lemma Final_BaseSetFinal:
  "s < NumStates f \<Longrightarrow> Final (BaseSetFinal s w f) u = (if u = s then w else Final f u)"
  by (simp add: BaseSetFinal_def Final_def NumStates_def nth_list_update)

lemma holds_BaseSetFinal:
  "t \<notin> {Weighted, CoAccessible, IsString} \<Longrightarrow> holds W (BaseSetFinal s w f) t = holds W f t"
  by (cases t) (simp_all add: accessible_def weighted_cycles_def)

lemma weighted_BaseSetFinal:
  "s < NumStates f \<Longrightarrow> weighted W (BaseSetFinal s w f) \<longleftrightarrow>
     (\<exists>(u, a) \<in> trans f. nontrivial W (weight a)) \<or>
     (\<exists>u < NumStates f. u \<noteq> s \<and> nontrivial W (Final f u)) \<or> nontrivial W w"
  by (auto simp: weighted_def Final_BaseSetFinal)

lemma SetFinalProperties_sound:
  assumes "props_sound W f p" and s: "s < NumStates f"
  shows "props_sound W (BaseSetFinal s w f) (SetFinalProperties W p (Final f s) w)"
proof (rule props_soundI)
  fix t
  note P = props_soundD [OF assms(1)]
  have nt: "(\<not> Weq W v (Zero W) \<and> \<not> Weq W v (One W)) = nontrivial W v" for v
    by (simp add: nontrivial_def)
  note [simp] = SetFinalProperties_def nt prop_bits Let_def
  note W = weighted_BaseSetFinal [OF s, of W w] weighted_def [of W f]
  show "bit (SetFinalProperties W p (Final f s) w) (pos_bit t) \<Longrightarrow> holds W (BaseSetFinal s w f) t"
    using P(1) [of t] holds_BaseSetFinal [of t W s w f] W by (cases t) auto
  show "bit (SetFinalProperties W p (Final f s) w) (Suc (pos_bit t)) \<Longrightarrow>
      \<not> holds W (BaseSetFinal s w f) t"
    using P(2) [of t] holds_BaseSetFinal [of t W s w f] W by (cases t) auto
qed

theorem SetFinal_sound:
  "props_sound W f (properties f) \<Longrightarrow> s < NumStates f \<Longrightarrow>
    props_sound W (SetFinal W s w f) (properties (SetFinal W s w f))"
  unfolding SetFinal_def Let_def
  by (intro props_sound_SetProperties) (simp add: SetFinalProperties_sound)

section \<open>AddState and AddStates\<close>

lemma BaseAddState_eq: "BaseAddState W f = BaseAddStates W 1 f"
  by (simp add: BaseAddState_def BaseAddStates_def)

lemma AddState_eq: "AddState W f = AddStates W 1 f"
  by (simp add: AddState_def AddStates_def BaseAddState_eq)

lemma BaseAddStates_obs [simp]:
  "NumStates (BaseAddStates W n f) = NumStates f + n"
  "start (BaseAddStates W n f) = start f" "properties (BaseAddStates W n f) = properties f"
  by (simp_all add: BaseAddStates_def NumStates_def)

lemma Arcs_BaseAddStates:
  "s < NumStates f + n \<Longrightarrow>
    Arcs (BaseAddStates W n f) s = (if s < NumStates f then Arcs f s else [])"
  by (simp add: BaseAddStates_def Arcs_def NumStates_def nth_append VectorState_def)

lemma Final_BaseAddStates:
  "s < NumStates f + n \<Longrightarrow>
    Final (BaseAddStates W n f) s = (if s < NumStates f then Final f s else Zero W)"
  by (simp add: BaseAddStates_def Final_def NumStates_def nth_append VectorState_def)

lemma trans_BaseAddStates [simp]: "trans (BaseAddStates W n f) = trans f"
  by (auto simp: trans_def Arcs_BaseAddStates split: if_splits)

lemma edges_BaseAddStates [simp]: "edges (BaseAddStates W n f) = edges f"
  by (simp add: edges_def)

lemma all_BaseAddStates:
  "Q [] \<Longrightarrow> (\<forall>s < NumStates f + n. Q (Arcs (BaseAddStates W n f) s)) \<longleftrightarrow>
    (\<forall>s < NumStates f. Q (Arcs f s))"
  by (auto simp: Arcs_BaseAddStates)

lemma final_state_BaseAddStates:
  "Weq W (Zero W) (Zero W) \<Longrightarrow> final_state W (BaseAddStates W n f) s \<longleftrightarrow> final_state W f s"
  by (cases "s < NumStates f") (auto simp: final_state_def Final_BaseAddStates)

lemma weighted_BaseAddStates:
  "Weq W (Zero W) (Zero W) \<Longrightarrow> weighted W (BaseAddStates W n f) \<longleftrightarrow> weighted W f"
  unfolding weighted_def nontrivial_def
  by (auto simp: Final_BaseAddStates split: if_splits) (metis Final_BaseAddStates trans_less_add1)

lemma holds_BaseAddStates:
  "Weq W (Zero W) (Zero W) \<Longrightarrow> t \<notin> {Accessible, CoAccessible, IsString} \<Longrightarrow>
    holds W (BaseAddStates W n f) t = holds W f t"
  by (cases t) (simp_all add: weighted_BaseAddStates weighted_cycles_def
      all_BaseAddStates [of "\<lambda>as. distinct (map ilabel as)"]
      all_BaseAddStates [of "\<lambda>as. distinct (map olabel as)"]
      all_BaseAddStates [of "\<lambda>as. sorted (map ilabel as)"]
      all_BaseAddStates [of "\<lambda>as. sorted (map olabel as)"])

lemma not_string_BaseAddStates:
  assumes "Weq W (Zero W) (Zero W)" "\<not> is_string W f"
  shows "\<not> is_string W (BaseAddStates W n f)"
proof (cases n)
  case 0
  then show ?thesis using assms by (simp add: BaseAddStates_def)
next
  case (Suc m)
  then have "Arcs (BaseAddStates W n f) (NumStates f) = []"
    and "\<not> final_state W (BaseAddStates W n f) (NumStates f)"
    using assms(1) by (simp_all add: Arcs_BaseAddStates Final_BaseAddStates final_state_def)
  then show ?thesis using Suc unfolding is_string_def by (auto dest!: spec [of _ "NumStates f"])
qed

lemma AddStateProperties_sound:
  assumes "props_sound W f p" and Z: "Weq W (Zero W) (Zero W)"
  shows "props_sound W (BaseAddStates W n f) (AddStateProperties p)"
proof (rule props_soundI)
  fix t
  note P = props_soundD [OF assms(1)]
  note [simp] = AddStateProperties_def prop_bits
  note H = holds_BaseAddStates [OF Z, of t n f]
  show "bit (AddStateProperties p) (pos_bit t) \<Longrightarrow> holds W (BaseAddStates W n f) t"
    using P(1) [of t] H by (cases t) auto
  have acc: "\<not> accessible f \<Longrightarrow> \<not> accessible (BaseAddStates W n f)"
    by (auto simp: accessible_def intro: trans_less_add1)
  have coacc: "\<not> coaccessible W f \<Longrightarrow> \<not> coaccessible W (BaseAddStates W n f)"
    using final_state_BaseAddStates [OF Z, of n f]
    by (simp add: coaccessible_def) (meson trans_less_add1)
  show "bit (AddStateProperties p) (Suc (pos_bit t)) \<Longrightarrow> \<not> holds W (BaseAddStates W n f) t"
    using P(2) [of t] H acc coacc not_string_BaseAddStates [OF Z, of f n] by (cases t) auto
qed

theorem AddStates_sound:
  "props_sound W f (properties f) \<Longrightarrow> Weq W (Zero W) (Zero W) \<Longrightarrow>
    props_sound W (AddStates W n f) (properties (AddStates W n f))"
  unfolding AddStates_def Let_def
  by (intro props_sound_SetProperties) (simp add: AddStateProperties_sound)

section \<open>AddArc\<close>

lemma BaseAddArc_obs [simp]:
  "NumStates (BaseAddArc s a f) = NumStates f" "start (BaseAddArc s a f) = start f"
  "properties (BaseAddArc s a f) = properties f"
  by (simp_all add: BaseAddArc_def NumStates_def)

lemma StateAddArc_sel [simp]:
  "arcs (StateAddArc a st) = arcs st @ [a]" "final_weight (StateAddArc a st) = final_weight st"
  by (simp_all add: StateAddArc_def IncrementNumEpsilons_def Let_def)

lemma Arcs_BaseAddArc:
  "s < NumStates f \<Longrightarrow> Arcs (BaseAddArc s a f) u = (if u = s then Arcs f s @ [a] else Arcs f u)"
  by (simp add: BaseAddArc_def Arcs_def NumStates_def nth_list_update)

lemma Final_BaseAddArc [simp]: "Final (BaseAddArc s a f) = Final f"
  by (cases "s < length (states f)")
    (auto simp: BaseAddArc_def Final_def fun_eq_iff nth_list_update list_update_beyond)

lemma trans_BaseAddArc:
  "s < NumStates f \<Longrightarrow> trans (BaseAddArc s a f) = insert (s, a) (trans f)"
  by (auto simp: trans_def Arcs_BaseAddArc split: if_splits)

lemma edges_BaseAddArc:
  "s < NumStates f \<Longrightarrow> edges (BaseAddArc s a f) = insert (s, nextstate a) (edges f)"
  by (simp add: edges_def trans_BaseAddArc)

lemma topsorted_acyclic:
  "holds W f TopSorted \<Longrightarrow> (s, s) \<notin> (edges f)\<^sup>+"
  using trancl_increasing [of "edges f" s s] by (fastforce simp: edges_iff)

lemma all_BaseAddArc:
  "s < NumStates f \<Longrightarrow> (\<forall>u < NumStates f. Q (Arcs (BaseAddArc s a f) u)) \<longleftrightarrow>
    (\<forall>u < NumStates f. u \<noteq> s \<longrightarrow> Q (Arcs f u)) \<and> Q (Arcs f s @ [a])"
  by (auto simp: Arcs_BaseAddArc)

text \<open>Properties that an additional arc cannot make false.\<close>

lemma AddArc_mono:
  assumes s: "s < NumStates f"
  shows "accessible f \<Longrightarrow> accessible (BaseAddArc s a f)"
    and "coaccessible W f \<Longrightarrow> coaccessible W (BaseAddArc s a f)"
    and "holds W f Cyclic \<Longrightarrow> holds W (BaseAddArc s a f) Cyclic"
    and "holds W f InitialCyclic \<Longrightarrow> holds W (BaseAddArc s a f) InitialCyclic"
    and "weighted_cycles W f \<Longrightarrow> weighted_cycles W (BaseAddArc s a f)"
proof -
  have E: "edges f \<subseteq> edges (BaseAddArc s a f)" using s by (auto simp: edges_BaseAddArc)
  note R = rtrancl_sub [OF _ E] trancl_sub [OF _ E]
  show "accessible f \<Longrightarrow> accessible (BaseAddArc s a f)"
    using R by (fastforce simp: accessible_def)
  show "coaccessible W f \<Longrightarrow> coaccessible W (BaseAddArc s a f)"
    using R by (fastforce simp: coaccessible_def final_state_def)
  show "holds W f Cyclic \<Longrightarrow> holds W (BaseAddArc s a f) Cyclic"
    and "holds W f InitialCyclic \<Longrightarrow> holds W (BaseAddArc s a f) InitialCyclic"
    using R(2) by (auto intro: R(2))
  show "weighted_cycles W f \<Longrightarrow> weighted_cycles W (BaseAddArc s a f)"
    using R s by (fastforce simp: weighted_cycles_def trans_BaseAddArc)
qed


text \<open>The exact effect of an additional arc on the local properties.\<close>

lemma AddArc_local:
  assumes s: "s < NumStates f"
  shows "holds W (BaseAddArc s a f) Acceptor \<longleftrightarrow> holds W f Acceptor \<and> ilabel a = olabel a"
    and "holds W (BaseAddArc s a f) Epsilons \<longleftrightarrow> holds W f Epsilons \<or> ilabel a = 0 \<and> olabel a = 0"
    and "holds W (BaseAddArc s a f) IEpsilons \<longleftrightarrow> holds W f IEpsilons \<or> ilabel a = 0"
    and "holds W (BaseAddArc s a f) OEpsilons \<longleftrightarrow> holds W f OEpsilons \<or> olabel a = 0"
    and "holds W (BaseAddArc s a f) Weighted \<longleftrightarrow> holds W f Weighted \<or> nontrivial W (weight a)"
    and "holds W (BaseAddArc s a f) TopSorted \<longleftrightarrow> holds W f TopSorted \<and> s < nextstate a"
  using s by (auto simp: trans_BaseAddArc weighted_def)

lemma AddArc_sorted:
  assumes s: "s < NumStates f"
  shows "(\<forall>u < NumStates f. sorted (map l (Arcs (BaseAddArc s a f) u))) \<longleftrightarrow>
      (\<forall>u < NumStates f. sorted (map l (Arcs f u))) \<and>
      (Arcs f s = [] \<or> l (last (Arcs f s)) \<le> (l a :: int))"
  unfolding all_BaseAddArc [OF s, of "\<lambda>as. sorted (map l as)"]
  using s by (cases "Arcs f s = []") (auto simp: sorted_snoc last_map)

lemma AddArc_distinct:
  assumes s: "s < NumStates f" and "\<forall>u < NumStates f. distinct (map l (Arcs (BaseAddArc s a f) u))"
  shows "\<forall>u < NumStates f. distinct (map l (Arcs f u))"
  using assms(2) unfolding all_BaseAddArc [OF s, of "\<lambda>as. distinct (map l as)"] by auto

definition last_arc :: "'w arc list \<Rightarrow> 'w arc option" where
  "last_arc as = (if as = [] then None else Some (last as))"

lemma AddArc_label_sorted:
  assumes s: "s < NumStates f"
  shows "holds W (BaseAddArc s a f) ILabelSorted \<longleftrightarrow> holds W f ILabelSorted \<and>
      (\<forall>b. last_arc (Arcs f s) = Some b \<longrightarrow> ilabel b \<le> ilabel a)"
    and "holds W (BaseAddArc s a f) OLabelSorted \<longleftrightarrow> holds W f OLabelSorted \<and>
      (\<forall>b. last_arc (Arcs f s) = Some b \<longrightarrow> olabel b \<le> olabel a)"
  using AddArc_sorted [OF s, of ilabel a] AddArc_sorted [OF s, of olabel a]
  by (auto simp: last_arc_def)

lemma AddArc_acyclic:
  "holds W g TopSorted \<Longrightarrow> \<not> holds W g Cyclic" "holds W g TopSorted \<Longrightarrow> \<not> holds W g InitialCyclic"
  using topsorted_acyclic [of W g] by auto

lemma AddArc_deterministic:
  assumes s: "s < NumStates f"
  shows "holds W (BaseAddArc s a f) IDeterministic \<Longrightarrow> holds W f IDeterministic"
    and "holds W (BaseAddArc s a f) ODeterministic \<Longrightarrow> holds W f ODeterministic"
  using AddArc_distinct [OF s, of ilabel a] AddArc_distinct [OF s, of olabel a] by simp_all

lemma AddArc_mono_holds:
  "s < NumStates f \<Longrightarrow> t \<in> {Accessible, CoAccessible, Cyclic, InitialCyclic, WeightedCycles} \<Longrightarrow>
    holds W f t \<Longrightarrow> holds W (BaseAddArc s a f) t"
  using AddArc_mono(1) [of s f a] AddArc_mono(2-5) [of s f W a] by auto

lemma AddArcProperties_sound:
  assumes "props_sound W f p" and s: "s < NumStates f"
  shows "props_sound W (BaseAddArc s a f) (AddArcProperties W p s a (last_arc (Arcs f s)))"
    (is "props_sound W ?g ?q")
proof (rule props_soundI)
  fix t
  note P = props_soundD [OF assms(1)]
  have nt: "(\<not> Weq W v (Zero W) \<and> \<not> Weq W v (One W)) = nontrivial W v" for v
    by (simp add: nontrivial_def)
  note [simp del] = holds.simps
  note [simp] = prop_bits Let_def nt AddArc_local [OF s] AddArc_label_sorted [OF s]
  show "bit ?q (pos_bit t) \<Longrightarrow> holds W ?g t"
    using P(1) [of t] AddArc_mono_holds [OF s, of t W a]
    unfolding AddArcProperties_def
    by (cases t; cases "last_arc (Arcs f s)") (auto simp: bit_If simp del: bit_if cong: if_cong split: if_split_asm)
  show "bit ?q (Suc (pos_bit t)) \<Longrightarrow> \<not> holds W ?g t"
    using P(2) [of t] P(1) [of TopSorted] AddArc_acyclic [of W ?g] AddArc_deterministic [OF s, of W a]
    unfolding AddArcProperties_def
    by (cases t; cases "last_arc (Arcs f s)") (auto simp: bit_If simp del: bit_if cong: if_cong split: if_split_asm)
qed

lemma UpdatePropertiesAfterAddArc_eq:
  assumes "s < NumStates f"
  shows "AddArc W s a f =
    SetProperties (AddArcProperties W (properties f) s a (last_arc (Arcs f s))) (BaseAddArc s a f)"
proof -
  have "arcs (states (BaseAddArc s a f) ! s) = Arcs f s @ [a]"
    using Arcs_BaseAddArc [OF assms, of a s] by (simp add: Arcs_def)
  then show ?thesis
    by (cases "Arcs f s" rule: rev_cases)
      (simp_all add: AddArc_def UpdatePropertiesAfterAddArc_def Let_def last_arc_def nth_append)
qed

theorem AddArc_sound:
  "props_sound W f (properties f) \<Longrightarrow> s < NumStates f \<Longrightarrow>
    props_sound W (AddArc W s a f) (properties (AddArc W s a f))"
  by (simp add: UpdatePropertiesAfterAddArc_eq props_sound_SetProperties AddArcProperties_sound
      del: props_sound_SetProperties_iff)


section \<open>Removing arcs and states\<close>

text \<open>
  \<open>sub_fst \<phi> g f\<close>: \<open>g\<close> is a part of \<open>f\<close>, where \<open>\<phi>\<close> gives for each state of \<open>g\<close> its state of \<open>f\<close>.
  Removing arcs and removing states both lead to such parts, and the properties that the
  \<open>kDelete...Properties\<close> masks keep are those a part inherits.
\<close>

definition retarget :: "(nat \<Rightarrow> nat) \<Rightarrow> 'w arc \<Rightarrow> 'w arc" where
  "retarget \<phi> a = a\<lparr>nextstate := \<phi> (nextstate a)\<rparr>"

lemma retarget_sel [simp]:
  "ilabel (retarget \<phi> a) = ilabel a" "olabel (retarget \<phi> a) = olabel a"
  "weight (retarget \<phi> a) = weight a" "nextstate (retarget \<phi> a) = \<phi> (nextstate a)"
  by (simp_all add: retarget_def)

lemma retarget_id [simp]: "retarget (\<lambda>s. s) = (\<lambda>a. a)"
  by (simp add: retarget_def fun_eq_iff)

definition sub_arcs :: "(nat \<Rightarrow> nat) \<Rightarrow> 'w vfst \<Rightarrow> 'w vfst \<Rightarrow> bool" where
  "sub_arcs \<phi> g f \<longleftrightarrow>
     (\<forall>s < NumStates g. \<phi> s < NumStates f \<and>
        subseq (map (retarget \<phi>) (Arcs g s)) (Arcs f (\<phi> s))) \<and>
     (\<forall>(s, t) \<in> edges g. \<phi> s < \<phi> t \<longrightarrow> s < t)"

definition sub_fst :: "(nat \<Rightarrow> nat) \<Rightarrow> 'w vfst \<Rightarrow> 'w vfst \<Rightarrow> bool" where
  "sub_fst \<phi> g f \<longleftrightarrow>
     sub_arcs \<phi> g f \<and> (\<forall>s < NumStates g. Final g s = Final f (\<phi> s)) \<and>
     (\<forall>s. start g = Some s \<longrightarrow> start f = Some (\<phi> s))"

lemma sub_arcs_trans:
  assumes "sub_arcs \<phi> g f" "(s, a) \<in> trans g"
  shows "(\<phi> s, retarget \<phi> a) \<in> trans f"
proof -
  have "subseq (map (retarget \<phi>) (Arcs g s)) (Arcs f (\<phi> s))" "\<phi> s < NumStates f"
    using assms by (auto simp: sub_arcs_def trans_iff)
  then show ?thesis using assms(2) subseq_subset by (fastforce simp: trans_iff)
qed

lemma sub_arcs_edges: "sub_arcs \<phi> g f \<Longrightarrow> (s, t) \<in> edges g \<Longrightarrow> (\<phi> s, \<phi> t) \<in> edges f"
  using sub_arcs_trans edgesI by (fastforce simp: edges_iff)

lemma sub_arcs_trancl: "sub_arcs \<phi> g f \<Longrightarrow> (s, t) \<in> (edges g)\<^sup>+ \<Longrightarrow> (\<phi> s, \<phi> t) \<in> (edges f)\<^sup>+"
  by (rule trancl_map [where r = "edges g"]) (auto intro: sub_arcs_edges)

lemma sub_arcs_rtrancl: "sub_arcs \<phi> g f \<Longrightarrow> (s, t) \<in> (edges g)\<^sup>* \<Longrightarrow> (\<phi> s, \<phi> t) \<in> (edges f)\<^sup>*"
  by (rule rtrancl_map [where r = "edges g"]) (auto intro: sub_arcs_edges)

lemma sub_arcs_labels:
  assumes "sub_arcs \<phi> g f" "s < NumStates g" "\<And>a. l (retarget \<phi> a) = l a"
  shows "subseq (map l (Arcs g s)) (map l (Arcs f (\<phi> s)))"
proof -
  have "subseq (map l (map (retarget \<phi>) (Arcs g s))) (map l (Arcs f (\<phi> s)))"
    using assms by (intro subseq_map) (simp add: sub_arcs_def)
  then show ?thesis using assms(3) by (simp add: o_def)
qed

lemma sub_arcs_positive:
  assumes sub: "sub_arcs \<phi> g f"
    and t: "t \<in> {Acceptor, IDeterministic, ODeterministic, ILabelSorted, OLabelSorted, TopSorted}"
  shows "holds W f t \<Longrightarrow> holds W g t"
proof -
  have n: "\<phi> s < NumStates f" if "s < NumStates g" for s
    using sub that by (simp add: sub_arcs_def)
  have up: "s < nextstate a" if "(s, a) \<in> trans g" "\<phi> s < \<phi> (nextstate a)" for s a
    using sub that edgesI [of s a g] by (fastforce simp: sub_arcs_def)
  note tr = sub_arcs_trans [OF sub]
  have D: "\<forall>s < NumStates f. distinct (map l (Arcs f s)) \<Longrightarrow>
      \<forall>s < NumStates g. distinct (map l (Arcs g s))"
    and S: "\<forall>s < NumStates f. sorted (map l (Arcs f s)) \<Longrightarrow>
      \<forall>s < NumStates g. sorted (map l (Arcs g s))"
    if "\<And>a. l (retarget \<phi> a) = l a" for l :: "'a arc \<Rightarrow> int"
    using sub_arcs_labels [OF sub, of _ l] that n subseq_distinct subseq_sorted by blast+
  have A: "holds W f Acceptor \<Longrightarrow> holds W g Acceptor" by (auto dest!: tr)
  have T: "holds W f TopSorted \<Longrightarrow> holds W g TopSorted"
    using tr up by (auto simp: Ball_def) (metis retarget_sel(4))
  show "holds W f t \<Longrightarrow> holds W g t"
    using t D [of ilabel] D [of olabel] S [of ilabel] S [of olabel] A T
    by (auto simp del: holds.simps(1,12))
qed

lemma sub_arcs_ex:
  assumes "sub_arcs \<phi> g f" "\<exists>(s, a) \<in> trans g. Q s a"
    and "\<And>s a. Q s a \<Longrightarrow> R (\<phi> s) (retarget \<phi> a)"
  shows "\<exists>(s, a) \<in> trans f. R s a"
proof -
  obtain s a where "(s, a) \<in> trans g" "Q s a" using assms(2) by auto
  then have "(\<phi> s, retarget \<phi> a) \<in> trans f" "R (\<phi> s) (retarget \<phi> a)"
    using sub_arcs_trans [OF assms(1)] assms(3) by auto
  then show ?thesis by blast
qed

lemma sub_arcs_negative:
  assumes sub: "sub_arcs \<phi> g f"
    and t: "t \<in> {Epsilons, IEpsilons, OEpsilons, Cyclic, WeightedCycles}"
  shows "holds W g t \<Longrightarrow> holds W f t"
proof -
  note ex = sub_arcs_ex [OF sub]
  have C: "holds W g Cyclic \<Longrightarrow> holds W f Cyclic"
    using sub_arcs_trancl [OF sub] by auto
  have WC: "weighted_cycles W g \<Longrightarrow> weighted_cycles W f"
    unfolding weighted_cycles_def
    by (rule ex) (auto intro: sub_arcs_rtrancl [OF sub])
  show "holds W g t \<Longrightarrow> holds W f t"
    using t C WC
      ex [of "\<lambda>_ a. ilabel a = 0 \<and> olabel a = 0" "\<lambda>_ a. ilabel a = 0 \<and> olabel a = 0"]
      ex [of "\<lambda>_ a. ilabel a = 0" "\<lambda>_ a. ilabel a = 0"]
      ex [of "\<lambda>_ a. olabel a = 0" "\<lambda>_ a. olabel a = 0"]
    by (elim insertE; simp only: holds.simps retarget_sel simp_thms empty_iff)
qed

lemma sub_fst_positive:
  "sub_fst \<phi> g f \<Longrightarrow>
    t \<in> {Acceptor, IDeterministic, ODeterministic, ILabelSorted, OLabelSorted, TopSorted} \<Longrightarrow>
    holds W f t \<Longrightarrow> holds W g t"
  unfolding sub_fst_def by (blast intro: sub_arcs_positive)

lemma sub_fst_negative:
  assumes sub: "sub_fst \<phi> g f"
    and t: "t \<in> {Epsilons, IEpsilons, OEpsilons, Weighted, Cyclic, InitialCyclic, WeightedCycles}"
  shows "holds W g t \<Longrightarrow> holds W f t"
proof -
  have sa: "sub_arcs \<phi> g f" using sub by (simp add: sub_fst_def)
  have I: "holds W g InitialCyclic \<Longrightarrow> holds W f InitialCyclic"
    using sub_arcs_trancl [OF sa] sub by (auto simp: sub_fst_def)
  have n: "Final g s = Final f (\<phi> s) \<and> \<phi> s < NumStates f" if "s < NumStates g" for s
    using sub sa that by (simp add: sub_fst_def sub_arcs_def)
  have Wt: "holds W g Weighted \<Longrightarrow> holds W f Weighted"
    using n sub_arcs_ex [OF sa, of "\<lambda>_ a. nontrivial W (weight a)" "\<lambda>_ a. nontrivial W (weight a)"]
    by (simp add: weighted_def) metis
  show "holds W g t \<Longrightarrow> holds W f t"
    using t I Wt sub_arcs_negative [OF sa, of t] by (auto simp del: holds.simps)
qed

lemma DeleteStatesProperties_sound:
  assumes "sub_fst \<phi> g f" "props_sound W f p"
  shows "props_sound W g (DeleteStatesProperties p)"
proof (rule props_soundI)
  fix t
  note [simp] = DeleteStatesProperties_def prop_bits
  note [simp del] = holds.simps
  note P = props_soundD [OF assms(2)]
  show "bit (DeleteStatesProperties p) (pos_bit t) \<Longrightarrow> holds W g t"
    using P(1) [of t] sub_fst_positive [OF assms(1), of t] by (cases t) auto
  show "bit (DeleteStatesProperties p) (Suc (pos_bit t)) \<Longrightarrow> \<not> holds W g t"
    using P(2) [of t] sub_fst_negative [OF assms(1), of t] by (cases t) auto
qed

lemma DeleteArcsProperties_sound:
  assumes sub: "sub_fst (\<lambda>s. s) g f" and p: "props_sound W f p"
    and same: "NumStates g = NumStates f" "start g = start f" 
  shows "props_sound W g (DeleteArcsProperties p)"
proof (rule props_soundI)
  fix t
  note [simp] = DeleteArcsProperties_def prop_bits
  note [simp del] = holds.simps
  note P = props_soundD [OF p]
  have R: "(s, t) \<in> (edges g)\<^sup>* \<Longrightarrow> (s, t) \<in> (edges f)\<^sup>*" for s t
    using sub sub_arcs_rtrancl [of "\<lambda>s. s" g f] by (simp add: sub_fst_def)
  have fin: "final_state W g s \<Longrightarrow> final_state W f s" for s
    using sub same by (auto simp: sub_fst_def final_state_def)
  have A: "holds W g Accessible \<Longrightarrow> holds W f Accessible"
    using R same by (fastforce simp: accessible_def holds.simps)
  have C: "holds W g CoAccessible \<Longrightarrow> holds W f CoAccessible"
    using R same fin by (fastforce simp: coaccessible_def holds.simps)
  show "bit (DeleteArcsProperties p) (pos_bit t) \<Longrightarrow> holds W g t"
    using P(1) [of t] sub_fst_positive [OF sub, of t] by (cases t) auto
  show "bit (DeleteArcsProperties p) (Suc (pos_bit t)) \<Longrightarrow> \<not> holds W g t"
    using P(2) [of t] sub_fst_negative [OF sub, of t] A C by (cases t) auto
qed

end
