(* ===== verification/VectorFstDelete.thy ===== *)
theory VectorFstDelete
  imports VectorFstProps
begin

text \<open>
  The deleting operations of VectorFst, the epsilon counters, the arc iterator's \<open>SetValue\<close>, the
  copying constructor, and the invariant \<open>fst_ok\<close> that all operations keep.
\<close>

section \<open>Epsilon counters\<close>

lemma eps_counts_VectorState: "eps_counts_ok (VectorState W)"
  by (simp add: eps_counts_ok_def VectorState_def)

lemma eps_counts_StateAddArc: "eps_counts_ok st \<Longrightarrow> eps_counts_ok (StateAddArc a st)"
  by (simp add: eps_counts_ok_def StateAddArc_def IncrementNumEpsilons_def Let_def)

lemma eps_counts_StateDeleteAllArcs: "eps_counts_ok (StateDeleteAllArcs st)"
  by (simp add: eps_counts_ok_def StateDeleteAllArcs_def)

lemma arcs_StatePopArc [simp]:
  "arcs (StatePopArc st) = butlast (arcs st)" "final_weight (StatePopArc st) = final_weight st"
  by (simp_all add: StatePopArc_def Let_def)

lemma eps_counts_StatePopArc:
  assumes "eps_counts_ok st" "arcs st \<noteq> []"
  shows "eps_counts_ok (StatePopArc st)"
proof -
  obtain as a where "arcs st = as @ [a]" using assms(2) by (cases "arcs st" rule: rev_cases) auto
  then show ?thesis using assms(1) by (simp add: eps_counts_ok_def StatePopArc_def Let_def)
qed

lemma StatePopArc_funpow:
  "n \<le> length (arcs st) \<Longrightarrow>
    arcs ((StatePopArc ^^ n) st) = take (length (arcs st) - n) (arcs st) \<and>
    final_weight ((StatePopArc ^^ n) st) = final_weight st \<and>
    (eps_counts_ok st \<longrightarrow> eps_counts_ok ((StatePopArc ^^ n) st))"
proof (induction n)
  case (Suc n)
  then have IH: "arcs ((StatePopArc ^^ n) st) = take (length (arcs st) - n) (arcs st)" by simp
  then have "arcs ((StatePopArc ^^ n) st) \<noteq> []" using Suc.prems by auto
  then show ?case using Suc IH by (simp add: butlast_take eps_counts_StatePopArc)
qed simp

lemma StateDeleteArcs_spec:
  "arcs (StateDeleteArcs n st) = take (length (arcs st) - n) (arcs st)"
  "final_weight (StateDeleteArcs n st) = final_weight st"
  "eps_counts_ok st \<Longrightarrow> eps_counts_ok (StateDeleteArcs n st)"
  using StatePopArc_funpow [of n st] eps_counts_StateDeleteAllArcs [of st]
  by (auto simp: StateDeleteArcs_def StateDeleteAllArcs_def)

text \<open>\<open>SetArc\<close> subtracts the old arc and adds the new one, in wrapping arithmetic.\<close>

lemma length_filter_update:
  "n < length xs \<Longrightarrow>
    (of_nat (length (filter Q (xs[n := x]))) :: 'a::len word) =
    of_nat (length (filter Q xs)) - (if Q (xs ! n) then 1 else 0) + (if Q x then 1 else 0)"
proof -
  assume n: "n < length xs"
  have 1: "length (filter Q xs) = length (filter Q (take n xs)) + (if Q (xs ! n) then 1 else 0) +
      length (filter Q (drop (Suc n) xs))"
    by (subst id_take_nth_drop [OF n]) (simp only: filter_append length_append, simp)
  have 2: "length (filter Q (xs[n := x])) = length (filter Q (take n xs)) + (if Q x then 1 else 0) +
      length (filter Q (drop (Suc n) xs))"
    by (subst upd_conv_take_nth_drop [OF n]) (simp only: filter_append length_append, simp)
  show ?thesis unfolding 1 2 by simp
qed

lemma eps_counts_StateSetArc:
  "eps_counts_ok st \<Longrightarrow> n < length (arcs st) \<Longrightarrow> eps_counts_ok (StateSetArc a n st)"
  by (simp add: eps_counts_ok_def StateSetArc_def IncrementNumEpsilons_def Let_def
      length_filter_update)


section \<open>DeleteArcs\<close>

lemma BaseDeleteArcs_obs [simp]:
  "NumStates (BaseDeleteArcs s n f) = NumStates f" "start (BaseDeleteArcs s n f) = start f"
  "properties (BaseDeleteArcs s n f) = properties f"
  by (simp_all add: BaseDeleteArcs_def NumStates_def)

lemma Arcs_BaseDeleteArcs:
  "s < NumStates f \<Longrightarrow> Arcs (BaseDeleteArcs s n f) u =
    (if u = s then take (NumArcs f s - n) (Arcs f s) else Arcs f u)"
  by (simp add: BaseDeleteArcs_def Arcs_def NumArcs_def NumStates_def nth_list_update
      StateDeleteArcs_spec)

lemma Final_BaseDeleteArcs: "s < NumStates f \<Longrightarrow> Final (BaseDeleteArcs s n f) u = Final f u"
  by (simp add: BaseDeleteArcs_def Final_def NumStates_def nth_list_update StateDeleteArcs_spec)

lemma StateDeleteAllArcs_eq: "StateDeleteAllArcs st = StateDeleteArcs (length (arcs st)) st"
  by (simp add: StateDeleteArcs_def)

lemma DeleteAllArcs_eq: "DeleteAllArcs s f = DeleteArcs s (NumArcs f s) f"
  by (simp add: DeleteAllArcs_def DeleteArcs_def BaseDeleteAllArcs_def BaseDeleteArcs_def NumArcs_def
      StateDeleteAllArcs_eq)

lemma sub_fst_BaseDeleteArcs:
  assumes "s < NumStates f"
  shows "sub_fst (\<lambda>s. s) (BaseDeleteArcs s n f) f"
proof -
  have "subseq (Arcs (BaseDeleteArcs s n f) u) (Arcs f u)" for u
    using assms take_is_prefix by (auto simp: Arcs_BaseDeleteArcs)
  then show ?thesis using assms by (simp add: sub_fst_def sub_arcs_def Final_BaseDeleteArcs)
qed

theorem DeleteArcs_sound:
  "props_sound W f (properties f) \<Longrightarrow> s < NumStates f \<Longrightarrow>
    props_sound W (DeleteArcs s n f) (properties (DeleteArcs s n f))"
  unfolding DeleteArcs_def Let_def
  by (intro props_sound_SetProperties)
    (simp add: DeleteArcsProperties_sound [OF sub_fst_BaseDeleteArcs])

section \<open>DeleteStates\<close>

text \<open>What the two loops compute: the states that stay, and the new number of each.\<close>

definition kept :: "nat list \<Rightarrow> nat \<Rightarrow> nat list" where
  "kept dstates n = filter (\<lambda>s. s \<notin> set dstates) [0 ..< n]"

definition rank :: "nat list \<Rightarrow> nat \<Rightarrow> nat" where
  "rank dstates s = length (kept dstates s)"

lemma kept_Suc: "kept ds (Suc i) = kept ds i @ (if i \<in> set ds then [] else [i])"
  by (simp add: kept_def)

lemma rank_Suc: "rank ds (Suc i) = rank ds i + (if i \<in> set ds then 0 else 1)"
  by (simp add: rank_def kept_Suc)

lemma rank_le: "rank ds i \<le> i"
  by (induction i) (auto simp: rank_Suc rank_def kept_def)

lemma kept_mono: "i \<le> n \<Longrightarrow> \<exists>ys. kept ds n = kept ds i @ ys"
  by (induction n rule: dec_induct) (auto simp: kept_Suc)

lemma nth_kept_rank: "s < n \<Longrightarrow> s \<notin> set ds \<Longrightarrow> kept ds n ! rank ds s = s"
proof -
  assume "s < n" "s \<notin> set ds"
  then obtain ys where "kept ds n = kept ds (Suc s) @ ys" using kept_mono [of "Suc s" n ds] by auto
  then show ?thesis using \<open>s \<notin> set ds\<close> by (simp add: kept_Suc rank_def nth_append)
qed

lemma rank_less: "s < n \<Longrightarrow> s \<notin> set ds \<Longrightarrow> rank ds s < rank ds n"
proof -
  assume "s < n" "s \<notin> set ds"
  then obtain ys where "kept ds n = kept ds (Suc s) @ ys" using kept_mono [of "Suc s" n ds] by auto
  then show ?thesis using \<open>s \<notin> set ds\<close> by (simp add: rank_def kept_Suc)
qed

lemma set_kept [simp]: "set (kept ds n) = {s. s < n \<and> s \<notin> set ds}"
  by (auto simp: kept_def)

lemma rank_nth_kept: "k < rank ds n \<Longrightarrow> rank ds (kept ds n ! k) = k"
proof -
  assume k: "k < rank ds n"
  let ?s = "kept ds n ! k"
  have s: "?s < n" "?s \<notin> set ds" using nth_mem [of k "kept ds n"] k by (auto simp: rank_def)
  have "kept ds n ! rank ds ?s = kept ds n ! k" using nth_kept_rank s by blast
  moreover have "distinct (kept ds n)" by (simp add: kept_def)
  ultimately show ?thesis
    using k rank_less [OF s] by (simp add: nth_eq_iff_index_eq rank_def)
qed

lemma nth_mark_deleted:
  "length (mark_deleted n ds) = n"
  "s < n \<Longrightarrow> mark_deleted n ds ! s = (if s \<in> set ds then None else Some 0)"
proof -
  have "length (fold (\<lambda>d newid. newid[d := None]) ds ids) = length ids \<and>
    (s < length ids \<longrightarrow> fold (\<lambda>d newid. newid[d := None]) ds ids ! s =
      (if s \<in> set ds then None else ids ! s))" for ids :: "nat option list" and s
    by (induction ds arbitrary: ids) (auto simp: nth_list_update)
  from this [of "replicate n (Some 0)"]
  show "length (mark_deleted n ds) = n"
    "s < n \<Longrightarrow> mark_deleted n ds ! s = (if s \<in> set ds then None else Some 0)"
    by (simp_all add: mark_deleted_def)
qed

text \<open>The invariant of the first loop after \<open>i\<close> rounds.\<close>

definition renumbered ::
  "nat list \<Rightarrow> 'w vstate list \<Rightarrow> nat \<Rightarrow> nat option list \<times> 'w vstate list \<times> nat \<Rightarrow> bool" where
  "renumbered ds sts0 i = (\<lambda>(newid, sts, nst).
     nst = rank ds i \<and> length newid = length sts0 \<and> length sts = length sts0 \<and>
     take nst sts = map ((!) sts0) (kept ds i) \<and> drop i sts = drop i sts0 \<and>
     (\<forall>s < length sts0. newid ! s =
        (if s \<in> set ds then None else Some (if s < i then rank ds s else 0))))"

lemma renumbered_step:
  assumes "renumbered ds sts0 i x" "i < length sts0"
  shows "renumbered ds sts0 (Suc i) (renumber_step i x)"
proof -
  obtain newid sts nst where x: "x = (newid, sts, nst)" by (cases x)
  note R = assms(1) [unfolded x renumbered_def, simplified]
  have le: "nst \<le> i" using R rank_le by simp
  have nth: "sts ! i = sts0 ! i" using R assms(2) by (metis Cons_nth_drop_Suc nth_via_drop)
  have dr: "drop (Suc i) sts = drop (Suc i) sts0" using R by (metis drop_drop plus_1_eq_Suc)
  show ?thesis
  proof (cases "i \<in> set ds")
    case True
    then have "newid ! i = None" using R assms(2) by simp
    then show ?thesis using R True dr
      by (auto simp: x renumber_step_def renumbered_def kept_Suc rank_Suc less_Suc_eq)
  next
    case False
    then have ni: "newid ! i \<noteq> None" using R assms(2) by simp
    let ?sts = "if i \<noteq> nst then sts[nst := sts ! i] else sts"
    have len: "nst < length sts" using le R assms(2) by simp
    then have "take (Suc nst) ?sts = take nst sts @ [sts0 ! i]"
      using nth by (auto simp: take_Suc_conv_app_nth)
    moreover have "drop (Suc i) ?sts = drop (Suc i) sts0" using dr le by auto
    moreover have "newid[i := Some nst] ! s =
        (if s \<in> set ds then None else Some (if s < Suc i then rank ds s else 0))"
      if "s < length sts0" for s
      using that R False assms(2) by (auto simp: nth_list_update less_Suc_eq)
    moreover have "renumber_step i x = (newid[i := Some nst], ?sts, Suc nst)"
      using ni by (simp add: x renumber_step_def)
    moreover have "nst = rank ds i" "take nst sts = map ((!) sts0) (kept ds i)" using R by blast+
    ultimately show ?thesis using R False
      by (simp add: renumbered_def kept_Suc rank_Suc)
  qed
qed

lemma renumber_loop:
  "i \<le> length sts0 \<Longrightarrow> renumbered ds sts0 i
    (fold renumber_step [0 ..< i] (mark_deleted (length sts0) ds, sts0, 0))"
proof (induction i)
  case 0
  then show ?case by (simp add: renumbered_def rank_def kept_def nth_mark_deleted)
next
  case (Suc i)
  then show ?case by (simp add: renumbered_step)
qed

text \<open>The inner loop of the second pass, after \<open>i\<close> rounds.\<close>

definition renumber_arcs :: "nat option list \<Rightarrow> 'w arc list \<Rightarrow> 'w arc list" where
  "renumber_arcs newid as =
     map (retarget (\<lambda>t. the (newid ! t))) (filter (\<lambda>a. newid ! nextstate a \<noteq> None) as)"

definition compacted ::
  "nat option list \<Rightarrow> 'w vstate \<Rightarrow> nat \<Rightarrow> 'w arc list \<times> nat \<times> 64 word \<times> 64 word \<Rightarrow> bool" where
  "compacted newid st i = (\<lambda>(as, narcs, nieps, noeps).
     length as = length (arcs st) \<and> narcs \<le> i \<and>
     take narcs as = renumber_arcs newid (take i (arcs st)) \<and>
     narcs = length (renumber_arcs newid (take i (arcs st))) \<and>
     drop i as = drop i (arcs st) \<and>
     (eps_counts_ok st \<longrightarrow>
       nieps = of_nat (length (filter (\<lambda>a. ilabel a = 0)
                 (renumber_arcs newid (take i (arcs st)) @ drop i (arcs st)))) \<and>
       noeps = of_nat (length (filter (\<lambda>a. olabel a = 0)
                 (renumber_arcs newid (take i (arcs st)) @ drop i (arcs st))))))"

lemma renumber_arcs_simps [simp]:
  "renumber_arcs newid [] = []"
  "renumber_arcs newid (as @ bs) = renumber_arcs newid as @ renumber_arcs newid bs"
  "renumber_arcs newid [a] = (case newid ! nextstate a of None \<Rightarrow> [] | Some t \<Rightarrow> [a\<lparr>nextstate := t\<rparr>])"
  by (auto simp: renumber_arcs_def retarget_def split: option.split)

lemma compacted_step:
  assumes "compacted newid st i x" "i < length (arcs st)"
  shows "compacted newid st (Suc i) (compact_step newid i x)"
proof -
  obtain as n ni no where x: "x = (as, n, ni, no)" by (cases x)
  note C = assms(1) [unfolded x compacted_def, simplified]
  let ?a = "arcs st ! i"
  have nth: "as ! i = ?a" using C assms(2) by (metis Cons_nth_drop_Suc nth_via_drop)
  have tk: "take (Suc i) (arcs st) = take i (arcs st) @ [?a]"
    using assms(2) by (rule take_Suc_conv_app_nth)
  have dr: "drop i (arcs st) = ?a # drop (Suc i) (arcs st)"
    using assms(2) by (rule Cons_nth_drop_Suc [symmetric])
  have dr': "drop (Suc i) as = drop (Suc i) (arcs st)" using C by (metis drop_drop plus_1_eq_Suc)
  show ?thesis
  proof (cases "newid ! nextstate ?a")
    case None
    then show ?thesis using C dr' tk dr
      by (auto simp: x compact_step_def compacted_def nth)
  next
    case (Some t)
    let ?as = "as[i := ?a\<lparr>nextstate := t\<rparr>]"
    define bs where "bs = (if i \<noteq> n then ?as[n := ?as ! i] else ?as)"
    have len: "n < length as" using C assms(2) by simp
    have "take (Suc n) bs = take n as @ [?a\<lparr>nextstate := t\<rparr>]"
      using len C assms(2) by (auto simp: bs_def take_Suc_conv_app_nth)
    moreover have "drop (Suc i) bs = drop (Suc i) (arcs st)" using dr' C by (auto simp: bs_def)
    moreover have "compact_step newid i x = (bs, Suc n, ni, no)"
      using Some by (simp add: x compact_step_def nth Let_def bs_def)
    moreover have "length bs = length (arcs st)" using C by (simp add: bs_def)
    moreover have "take n as = renumber_arcs newid (take i (arcs st))"
      "n = length (renumber_arcs newid (take i (arcs st)))" using C by auto
    ultimately show ?thesis using C tk dr Some
      by (simp add: compacted_def)
  qed
qed

lemma compact_loop:
  "i \<le> length (arcs st) \<Longrightarrow> compacted newid st i
    (fold (compact_step newid) [0 ..< i] (arcs st, 0, niepsilons st, noepsilons st))"
proof (induction i)
  case 0
  then show ?case by (simp add: compacted_def eps_counts_ok_def)
next
  case (Suc i)
  then show ?case by (simp add: compacted_step)
qed

lemma compact_state_spec:
  "arcs (compact_state newid st) = renumber_arcs newid (arcs st)"
  "final_weight (compact_state newid st) = final_weight st"
  "eps_counts_ok st \<Longrightarrow> eps_counts_ok (compact_state newid st)"
proof -
  obtain as n ni no where
    l: "fold (compact_step newid) [0 ..< length (arcs st)] (arcs st, 0, niepsilons st, noepsilons st)
      = (as, n, ni, no)" (is "?l = _") by (cases ?l)
  note C = compact_loop [of "length (arcs st)" st newid, unfolded l, simplified compacted_def, simplified]
  show "arcs (compact_state newid st) = renumber_arcs newid (arcs st)"
    "final_weight (compact_state newid st) = final_weight st"
    using C by (auto simp: compact_state_def l StateDeleteArcs_spec)
  moreover have "niepsilons (compact_state newid st) = ni" "noepsilons (compact_state newid st) = no"
    by (simp_all add: compact_state_def l)
  ultimately show "eps_counts_ok st \<Longrightarrow> eps_counts_ok (compact_state newid st)"
    using C by (auto simp: eps_counts_ok_def)
qed


text \<open>
  \<open>DeleteStates\<close>: state \<open>k\<close> of the result is the \<open>k\<close>-th state that stays, with the arcs that do
  not lead to a deleted state, in their order, and renumbered targets.
\<close>

lemma BaseDeleteStates_spec:
  assumes wf: "wf_fst f" and ds: "ds \<noteq> []"
  defines "g \<equiv> BaseDeleteStates ds f"
  shows "states g = map (\<lambda>s. compact_state
      (map (\<lambda>s. if s \<in> set ds then None else Some (rank ds s)) [0 ..< NumStates f]) (states f ! s))
      (kept ds (NumStates f))"
    and "start g = (case start f of None \<Rightarrow> None
      | Some s \<Rightarrow> if s \<in> set ds then None else Some (rank ds s))"
    and "properties g = properties f"
proof -
  let ?n = "length (states f)"
  obtain newid sts nst where
    l: "fold renumber_step [0 ..< ?n] (mark_deleted ?n ds, states f, 0) = (newid, sts, nst)"
    (is "?l = _") by (cases ?l)
  note R = renumber_loop [of ?n "states f" ds, unfolded l renumbered_def, simplified]
  have newid: "newid = map (\<lambda>s. if s \<in> set ds then None else Some (rank ds s)) [0 ..< NumStates f]"
    using R by (intro nth_equalityI) (auto simp: NumStates_def)
  have s: "s < ?n" if "start f = Some s" for s
    using wf that by (simp add: wf_fst_def NumStates_def)
  show "states g = map (\<lambda>s. compact_state
      (map (\<lambda>s. if s \<in> set ds then None else Some (rank ds s)) [0 ..< NumStates f]) (states f ! s))
      (kept ds (NumStates f))"
    using R ds unfolding g_def BaseDeleteStates_def
    by (auto simp: l Let_def newid NumStates_def BaseSetStart_def split: option.split)
  show "start g = (case start f of None \<Rightarrow> None
      | Some s \<Rightarrow> if s \<in> set ds then None else Some (rank ds s))"
    using R ds s unfolding g_def BaseDeleteStates_def
    by (auto simp: l Let_def BaseSetStart_def split: option.split)
  show "properties g = properties f"
    using ds unfolding g_def BaseDeleteStates_def
    by (auto simp: l Let_def BaseSetStart_def split: option.split)
qed

lemma DeleteStates_obs:
  assumes wf: "wf_fst f" and ds: "ds \<noteq> []"
  defines "g \<equiv> BaseDeleteStates ds f" and "keep \<equiv> kept ds (NumStates f)"
  shows "NumStates g = length keep"
    and "\<And>k. k < length keep \<Longrightarrow> Final g k = Final f (keep ! k)"
    and "\<And>k. k < length keep \<Longrightarrow> Arcs g k = map (retarget (rank ds))
      (filter (\<lambda>a. nextstate a \<notin> set ds) (Arcs f (keep ! k)))"
proof -
  note S = BaseDeleteStates_spec(1) [OF wf ds, folded g_def keep_def]
  show "NumStates g = length keep" by (simp add: NumStates_def S)
  show "\<And>k. k < length keep \<Longrightarrow> Final g k = Final f (keep ! k)"
    by (simp add: Final_def S compact_state_spec)
  fix k assume k: "k < length keep"
  then have "keep ! k < NumStates f" using nth_mem [OF k] by (simp add: keep_def)
  then have t: "nextstate a < NumStates f" if "a \<in> set (Arcs f (keep ! k))" for a
    using wf that by (auto simp: wf_fst_def trans_iff)
  show "Arcs g k = map (retarget (rank ds))
      (filter (\<lambda>a. nextstate a \<notin> set ds) (Arcs f (keep ! k)))"
    using k t by (auto simp: Arcs_def S compact_state_spec renumber_arcs_def retarget_def
        intro!: map_cong filter_cong)
qed

lemma sub_fst_DeleteStates:
  assumes wf: "wf_fst f" and ds: "ds \<noteq> []"
  shows "sub_fst (\<lambda>k. kept ds (NumStates f) ! k) (BaseDeleteStates ds f) f"
    (is "sub_fst ?\<phi> ?g f")
proof -
  note O = DeleteStates_obs [OF wf ds]
  have k: "?\<phi> k < NumStates f \<and> ?\<phi> k \<notin> set ds" if "k < NumStates ?g" for k
    using nth_mem [of k "kept ds (NumStates f)"] that by (simp add: O)
  have ret: "retarget ?\<phi> (retarget (rank ds) a) = a"
    if "nextstate a < NumStates f" "nextstate a \<notin> set ds" for a :: "'a arc"
    using that by (simp add: retarget_def nth_kept_rank)
  have t: "nextstate a < NumStates f" if "k < NumStates ?g" "a \<in> set (Arcs f (?\<phi> k))" for k a
    using wf_target [OF wf _ that(2)] k [OF that(1)] by simp
  have sub: "map (retarget ?\<phi>) (Arcs ?g k) = filter (\<lambda>a. nextstate a \<notin> set ds) (Arcs f (?\<phi> k))"
    if "k < NumStates ?g" for k
  proof -
    have "map (retarget ?\<phi>) (Arcs ?g k) =
        map (\<lambda>a. retarget ?\<phi> (retarget (rank ds) a)) (filter (\<lambda>a. nextstate a \<notin> set ds) (Arcs f (?\<phi> k)))"
      using that by (simp add: O o_def)
    also have "\<dots> = filter (\<lambda>a. nextstate a \<notin> set ds) (Arcs f (?\<phi> k))"
      using t [OF that] ret by (intro map_idI) simp
    finally show ?thesis .
  qed
  have st: "start f = Some (?\<phi> s)" if "start ?g = Some s" for s
    using that wf nth_kept_rank [of _ "NumStates f" ds]
    by (auto simp: BaseDeleteStates_spec(2) [OF wf ds] wf_fst_def split: option.splits if_splits)
  have mono: "k < m" if "(k, m) \<in> edges ?g" "?\<phi> k < ?\<phi> m" for k m
  proof (rule ccontr)
    assume "\<not> k < m"
    moreover have "sorted (kept ds (NumStates f))" by (simp add: kept_def sorted_filter [of id, simplified])
    moreover have "k < length (kept ds (NumStates f))"
      using that(1) by (auto simp: edges_iff trans_iff O)
    ultimately have "?\<phi> m \<le> ?\<phi> k" by (simp add: sorted_nth_mono)
    then show False using that(2) by simp
  qed
  show ?thesis unfolding sub_fst_def sub_arcs_def using k sub st mono by (auto simp: O)
qed

theorem DeleteStates_sound:
  assumes "wf_fst f" "props_sound W f (properties f)"
  shows "props_sound W (DeleteStates ds f) (properties (DeleteStates ds f))"
proof (cases "ds = []")
  case False
  then show ?thesis
    unfolding DeleteStates_def ImplDeleteStates_def Let_def
    using assms by (simp del: props_sound_SetProperties_iff add: props_sound_SetProperties
        BaseDeleteStates_spec(3) DeleteStatesProperties_sound [OF sub_fst_DeleteStates])
qed (use assms in \<open>simp add: DeleteStates_def\<close>)


section \<open>Well-formedness is kept\<close>

lemma wf_SetProperties [simp]: "wf_fst (SetProperties p f) = wf_fst f"
  by (simp add: wf_fst_def trans_def fst_obs)

lemma wf_SetPropertiesMask [simp]: "wf_fst (SetPropertiesMask p m f) = wf_fst f"
  by (simp add: wf_fst_def trans_def fst_obs)

lemma wf_BaseSetStart:
  "wf_fst f \<Longrightarrow> (\<And>i. s = Some i \<Longrightarrow> i < NumStates f) \<Longrightarrow> wf_fst (BaseSetStart s f)"
  by (simp add: wf_fst_def) (simp add: BaseSetStart_def)

lemma wf_update_state:
  assumes "wf_fst f" "s < NumStates f" "start g = start f" "states g = (states f)[s := st]"
    and "eps_counts_ok st" "\<And>a. a \<in> set (arcs st) \<Longrightarrow> nextstate a < NumStates f"
  shows "wf_fst g"
proof (rule wf_fstI)
  have n: "NumStates g = NumStates f" using assms by (simp add: NumStates_def)
  show "start g = Some u \<Longrightarrow> u < NumStates g" for u
    using assms wf_start n by metis
  fix u assume u: "u < NumStates g"
  show "eps_counts_ok (states g ! u)"
    using u n assms wf_eps [of f u] by (simp add: nth_list_update NumStates_def)
  show "a \<in> set (Arcs g u) \<Longrightarrow> nextstate a < NumStates g" for a
    using u n assms wf_target [of f u a] by (auto simp: Arcs_def nth_list_update NumStates_def split: if_splits)
qed

lemma wf_arcs: "wf_fst f \<Longrightarrow> s < NumStates f \<Longrightarrow> a \<in> set (arcs (states f ! s)) \<Longrightarrow> nextstate a < NumStates f"
  using wf_target [of f s a] by (simp add: Arcs_def)

lemma eps_counts_final: "eps_counts_ok (st\<lparr>final_weight := w\<rparr>) = eps_counts_ok st"
  by (simp add: eps_counts_ok_def)

lemma wf_BaseSetFinal: "wf_fst f \<Longrightarrow> s < NumStates f \<Longrightarrow> wf_fst (BaseSetFinal s w f)"
  by (rule wf_update_state [of f s _ "(states f ! s)\<lparr>final_weight := w\<rparr>"])
    (auto simp: BaseSetFinal_def eps_counts_final intro: wf_arcs wf_eps)

lemma wf_BaseAddArc:
  "wf_fst f \<Longrightarrow> s < NumStates f \<Longrightarrow> nextstate a < NumStates f \<Longrightarrow> wf_fst (BaseAddArc s a f)"
  by (rule wf_update_state [of f s _ "StateAddArc a (states f ! s)"])
    (auto simp: BaseAddArc_def intro!: eps_counts_StateAddArc intro: wf_arcs wf_eps)

lemma wf_BaseDeleteArcs: "wf_fst f \<Longrightarrow> s < NumStates f \<Longrightarrow> wf_fst (BaseDeleteArcs s n f)"
  by (rule wf_update_state [of f s _ "StateDeleteArcs n (states f ! s)"])
    (auto simp: BaseDeleteArcs_def StateDeleteArcs_spec(1,2) intro!: StateDeleteArcs_spec(3)
      intro: wf_arcs wf_eps dest: in_set_takeD)

lemma wf_BaseAddStates: "wf_fst f \<Longrightarrow> wf_fst (BaseAddStates W n f)"
proof (rule wf_fstI)
  assume wf: "wf_fst f"
  show "start (BaseAddStates W n f) = Some s \<Longrightarrow> s < NumStates (BaseAddStates W n f)" for s
    using wf_start [OF wf, of s] by simp
  fix s assume s: "s < NumStates (BaseAddStates W n f)"
  show "eps_counts_ok (states (BaseAddStates W n f) ! s)"
    using s wf_eps [OF wf, of s] eps_counts_VectorState [of W]
    by (auto simp: BaseAddStates_def nth_append NumStates_def)
  show "a \<in> set (Arcs (BaseAddStates W n f) s) \<Longrightarrow> nextstate a < NumStates (BaseAddStates W n f)" for a
    using s wf_target [OF wf, of s a] by (auto simp: Arcs_BaseAddStates split: if_splits)
qed

lemma wf_BaseDeleteStates:
  assumes wf: "wf_fst f" and ds: "ds \<noteq> []"
  shows "wf_fst (BaseDeleteStates ds f)"
proof (rule wf_fstI)
  let ?g = "BaseDeleteStates ds f"
  note O = DeleteStates_obs [OF wf ds]
  have len: "length (kept ds (NumStates f)) = rank ds (NumStates f)" by (simp add: rank_def)
  show "start ?g = Some s \<Longrightarrow> s < NumStates ?g" for s
    using wf by (auto simp: BaseDeleteStates_spec(2) [OF wf ds] O len wf_fst_def
        split: option.splits if_splits intro: rank_less)
  fix k assume k: "k < NumStates ?g"
  have kf: "kept ds (NumStates f) ! k < NumStates f"
    using nth_mem [of k "kept ds (NumStates f)"] k by (simp add: O)
  show "eps_counts_ok (states ?g ! k)"
    using k wf_eps [OF wf kf] by (simp add: BaseDeleteStates_spec(1) [OF wf ds] O compact_state_spec)
  show "a \<in> set (Arcs ?g k) \<Longrightarrow> nextstate a < NumStates ?g" for a
    using k wf_target [OF wf kf] by (auto simp: O len intro!: rank_less)
qed


section \<open>DeleteStates() and new FSTs\<close>

lemma empty_sound:
  assumes "states f = []" "start f = None"
  shows "props_sound W f (q AND kError OR kNullProperties OR kStaticProperties)"
proof (rule props_soundI)
  fix t
  note [simp] = prop_bits kStaticProperties_def
  have n: "NumStates f = 0" "trans f = {}" "edges f = {}"
    using assms by (simp_all add: NumStates_def trans_def edges_def)
  show "bit (q AND kError OR kNullProperties OR kStaticProperties) (pos_bit t) \<Longrightarrow> holds W f t"
    using assms by (cases t) (simp_all add: n accessible_def coaccessible_def is_string_def)
  show "bit (q AND kError OR kNullProperties OR kStaticProperties) (Suc (pos_bit t)) \<Longrightarrow> \<not> holds W f t"
    using assms by (cases t) (simp_all add: n weighted_def weighted_cycles_def)
qed

lemma VectorFstImpl_eq:
  "states VectorFstImpl = []" "start VectorFstImpl = None"
  "properties VectorFstImpl = 0 AND kError OR kNullProperties OR kStaticProperties"
  by (simp_all add: VectorFstImpl_def SetProperties_def)

lemma wf_empty: "states f = [] \<Longrightarrow> start f = None \<Longrightarrow> wf_fst f"
  by (simp add: wf_fst_def trans_def NumStates_def)

lemma DeleteAllStates_empty:
  "states (DeleteAllStates unique f) = []" "start (DeleteAllStates unique f) = None"
  "isymbols (DeleteAllStates unique f) = isymbols f"
  "osymbols (DeleteAllStates unique f) = osymbols f"
  "properties (DeleteAllStates unique f) =
     (if unique then properties f AND kError else 0) OR kNullProperties OR kStaticProperties"
  by (simp_all add: DeleteAllStates_def ImplDeleteAllStates_def BaseDeleteAllStates_def VectorFstImpl_def
      SetInputSymbols_def SetOutputSymbols_def SetProperties_def DeleteAllStatesProperties_def Let_def
      or.assoc [symmetric])

lemma DeleteAllStates_sound:
  "props_sound W (DeleteAllStates unique f) (properties (DeleteAllStates unique f))"
  using empty_sound [of "DeleteAllStates unique f" W "if unique then properties f else 0"]
  by (cases unique) (simp_all add: DeleteAllStates_empty)

section \<open>SetValue\<close>

lemma SetValue_eq:
  "start (SetValue W s i a f) = start f" "NumStates (SetValue W s i a f) = NumStates f"
  "s < NumStates f \<Longrightarrow> Arcs (SetValue W s i a f) u = (if u = s then (Arcs f s)[i := a] else Arcs f u)"
  "s < NumStates f \<Longrightarrow> Final (SetValue W s i a f) u = Final f u"
  "properties (SetValue W s i a f) = SetValueProperties W (properties f) (Arcs f s ! i) a"
  by (simp_all add: SetValue_def NumStates_def Arcs_def Final_def Let_def nth_list_update StateSetArc_def
      IncrementNumEpsilons_def)

lemma set_update_cases:
  assumes "i < length xs"
  shows "set (xs[i := x]) \<subseteq> insert x (set xs)" "x \<in> set (xs[i := x])"
    "y \<in> set xs \<Longrightarrow> y = xs ! i \<or> y \<in> set (xs[i := x])"
proof -
  show "set (xs[i := x]) \<subseteq> insert x (set xs)" by (rule set_update_subset_insert)
  show "x \<in> set (xs[i := x])" using assms by (rule set_update_memI)
  assume "y \<in> set xs"
  then obtain j where "j < length xs" "xs ! j = y" by (auto simp: in_set_conv_nth)
  then show "y = xs ! i \<or> y \<in> set (xs[i := x])"
    by (cases "j = i") (auto simp: in_set_conv_nth intro: exI [of _ j])
qed

lemma trans_SetValue:
  assumes "s < NumStates f" "i < length (Arcs f s)"
  shows "trans (SetValue W s i a f) \<subseteq> insert (s, a) (trans f)" "(s, a) \<in> trans (SetValue W s i a f)"
    "(u, b) \<in> trans f \<Longrightarrow> u = s \<and> b = Arcs f s ! i \<or> (u, b) \<in> trans (SetValue W s i a f)"
  using set_update_cases(1,2) [OF assms(2), of a] set_update_cases(3) [OF assms(2), of b a] assms
  by (auto simp: trans_def SetValue_eq split: if_splits)

text \<open>
  Properties of the form "some arc satisfies \<open>Q\<close>": the positive bit is kept if the old arc does
  not satisfy \<open>Q\<close> and set if the new one does; the negative bit is kept unless the new one does.
\<close>

definition some_arc :: "('w arc \<Rightarrow> bool) \<Rightarrow> 'w vfst \<Rightarrow> bool" where
  "some_arc Q f \<longleftrightarrow> (\<exists>(s, a) \<in> trans f. Q a)"

lemma holds_some_arc:
  "holds W f Acceptor \<longleftrightarrow> \<not> some_arc (\<lambda>a. ilabel a \<noteq> olabel a) f"
  "holds W f Epsilons \<longleftrightarrow> some_arc (\<lambda>a. ilabel a = 0 \<and> olabel a = 0) f"
  "holds W f IEpsilons \<longleftrightarrow> some_arc (\<lambda>a. ilabel a = 0) f"
  "holds W f OEpsilons \<longleftrightarrow> some_arc (\<lambda>a. olabel a = 0) f"
  "holds W f Weighted \<longleftrightarrow> some_arc (\<lambda>a. nontrivial W (weight a)) f \<or>
     (\<exists>s < NumStates f. nontrivial W (Final f s))"
  by (auto simp: some_arc_def weighted_def)

lemma SetValue_some_arc:
  assumes "s < NumStates f" "i < length (Arcs f s)"
  shows "some_arc Q f \<Longrightarrow> \<not> Q (Arcs f s ! i) \<or> Q a \<Longrightarrow> some_arc Q (SetValue W s i a f)"
    and "Q a \<Longrightarrow> some_arc Q (SetValue W s i a f)"
    and "some_arc Q (SetValue W s i a f) \<Longrightarrow> Q a \<or> some_arc Q f"
  unfolding some_arc_def using trans_SetValue [OF assms] by (blast, blast, blast)

lemma SetValueProperties_sound:
  assumes "props_sound W f p" and s: "s < NumStates f" and i: "i < length (Arcs f s)"
  shows "props_sound W (SetValue W s i a f) (SetValueProperties W p (Arcs f s ! i) a)"
    (is "props_sound W ?g ?q")
proof (rule props_soundI)
  fix t
  note P = props_soundD [OF assms(1)]
  have nt: "(\<not> Weq W v (Zero W) \<and> \<not> Weq W v (One W)) = nontrivial W v" for v
    by (simp add: nontrivial_def)
  have wt: "holds W ?g Weighted \<longleftrightarrow> some_arc (\<lambda>b. nontrivial W (weight b)) ?g \<or>
      (\<exists>u < NumStates f. nontrivial W (Final f u))"
    using s by (simp add: holds_some_arc SetValue_eq del: holds.simps)
  note [simp del] = holds.simps bit_if
  note [simp] = prop_bits Let_def nt bit_If wt holds_some_arc(1-4) holds_some_arc(5) [of W f]
  note [simp del] = bit_if
  note [cong] = if_cong
  note E = SetValue_some_arc [OF s i, where W = W and a = a]
  show "bit ?q (pos_bit t) \<Longrightarrow> holds W ?g t"
    using P(1) [of t] unfolding SetValueProperties_def
    by (cases t) (auto split: if_split_asm intro: E(1,2) dest!: E(3))
  show "bit ?q (Suc (pos_bit t)) \<Longrightarrow> \<not> holds W ?g t"
    using P(2) [of t] unfolding SetValueProperties_def
    by (cases t) (auto split: if_split_asm intro: E(1,2) dest!: E(3))
qed

lemma SetValue_sound:
  "props_sound W f (properties f) \<Longrightarrow> s < NumStates f \<Longrightarrow> i < length (Arcs f s) \<Longrightarrow>
    props_sound W (SetValue W s i a f) (properties (SetValue W s i a f))"
  by (simp add: SetValue_eq SetValueProperties_sound)

lemma arcs_StateSetArc: "arcs (StateSetArc a i st) = (arcs st)[i := a]"
  by (simp add: StateSetArc_def IncrementNumEpsilons_def Let_def)

lemma wf_SetValue:
  "wf_fst f \<Longrightarrow> s < NumStates f \<Longrightarrow> i < length (Arcs f s) \<Longrightarrow> nextstate a < NumStates f \<Longrightarrow>
    wf_fst (SetValue W s i a f)"
  by (rule wf_update_state [of f s _ "StateSetArc a i (states f ! s)"])
    (auto simp: SetValue_def Let_def Arcs_def arcs_StateSetArc
      dest!: set_update_subset_insert [THEN subsetD] intro: wf_arcs wf_eps eps_counts_StateSetArc)

section \<open>The copying constructor\<close>

lemma fold_BaseAddArc_states:
  "s < NumStates f \<Longrightarrow> fold (BaseAddArc s) as f =
    f\<lparr>states := (states f)[s := fold StateAddArc as (states f ! s)]\<rparr>"
  by (induction as arbitrary: f) (simp_all add: BaseAddArc_def NumStates_def)

lemma fold_StateAddArc:
  "arcs (fold StateAddArc as st) = arcs st @ as"
  "final_weight (fold StateAddArc as st) = final_weight st"
  "eps_counts_ok st \<Longrightarrow> eps_counts_ok (fold StateAddArc as st)"
  by (induction as arbitrary: st) (simp_all add: eps_counts_StateAddArc)

lemma vstate_eqI:
  "final_weight st = final_weight (st' :: 'w vstate) \<Longrightarrow> arcs st = arcs st' \<Longrightarrow>
    eps_counts_ok st \<Longrightarrow> eps_counts_ok st' \<Longrightarrow> st = st'"
  by (simp add: eps_counts_ok_def)

lemma copy_state_eq:
  assumes "length (states f) = s" "eps_counts_ok (states g ! s)"
  shows "copy_state W g s f = f\<lparr>states := states f @ [states g ! s]\<rparr>"
proof -
  let ?st = "(VectorState W)\<lparr>final_weight := Final g s\<rparr>"
  have "BaseSetFinal s (Final g s) (BaseAddState W f) = f\<lparr>states := states f @ [?st]\<rparr>"
    using assms by (simp add: BaseSetFinal_def BaseAddState_def nth_append list_update_append)
  moreover have "fold StateAddArc (Arcs g s) ?st = states g ! s"
    using assms(2) eps_counts_VectorState [of W]
    by (intro vstate_eqI)
      (simp_all add: fold_StateAddArc Final_def Arcs_def eps_counts_final, simp add: VectorState_def)
  ultimately show ?thesis
    using assms(1) unfolding copy_state_def Let_def
    by (simp add: fold_BaseAddArc_states NumStates_def nth_append list_update_append)
qed

lemma copy_states_eq:
  "n \<le> NumStates g \<Longrightarrow> wf_fst g \<Longrightarrow> states f = [] \<Longrightarrow>
    fold (copy_state W g) [0 ..< n] f = f\<lparr>states := take n (states g)\<rparr>"
proof (induction n)
  case (Suc n)
  then show ?case
    using wf_eps [of g n] by (simp add: copy_state_eq take_Suc_conv_app_nth NumStates_def)
qed simp

lemma CopyFst_eq:
  "wf_fst g \<Longrightarrow> CopyFst W g =
    g\<lparr>properties := properties g AND kCopyProperties OR kStaticProperties\<rparr>"
  by (simp add: CopyFst_def Let_def copy_states_eq SetInputSymbols_def SetOutputSymbols_def
      BaseSetStart_def SetProperties_def Properties_def NumStates_def)


section \<open>The invariant of VectorFst\<close>

text \<open>
  \<open>fst_ok\<close>: the machine is well formed, every stored property bit is true, and the static
  properties of the class (expanded, mutable) are set.
\<close>

definition fst_ok :: "('w, 'z) weight_ops_scheme \<Rightarrow> 'w vfst \<Rightarrow> bool" where
  "fst_ok W f \<longleftrightarrow> wf_fst f \<and> props_sound W f (properties f) \<and>
     bit (properties f) 0 \<and> bit (properties f) 1"

text \<open>
  One call of a mutating member function on a VectorFst, with the conditions under which the
  source defines the call: states and positions in range, and arcs to existing states. The call
  \<open>SetProperties(props, mask)\<close> is not a step: it stores what its caller asserts, true or not.
\<close>

inductive mutation :: "('w, 'z) weight_ops_scheme \<Rightarrow> 'w vfst \<Rightarrow> 'w vfst \<Rightarrow> bool" for W where
  m_SetStart: "(\<And>i. s = Some i \<Longrightarrow> i < NumStates f) \<Longrightarrow> mutation W f (SetStart s f)"
| m_SetFinal: "s < NumStates f \<Longrightarrow> mutation W f (SetFinal W s w f)"
| m_AddState: "mutation W f (AddState W f)"
| m_AddStates: "mutation W f (AddStates W n f)"
| m_AddArc: "s < NumStates f \<Longrightarrow> nextstate a < NumStates f \<Longrightarrow> mutation W f (AddArc W s a f)"
| m_SetValue: "s < NumStates f \<Longrightarrow> i < length (Arcs f s) \<Longrightarrow> nextstate a < NumStates f \<Longrightarrow>
    mutation W f (SetValue W s i a f)"
| m_DeleteArcs: "s < NumStates f \<Longrightarrow> mutation W f (DeleteArcs s n f)"
| m_DeleteAllArcs: "s < NumStates f \<Longrightarrow> mutation W f (DeleteAllArcs s f)"
| m_DeleteStates: "mutation W f (DeleteStates ds f)"
| m_DeleteAllStates: "mutation W f (DeleteAllStates unique f)"
| m_SetInputSymbols: "mutation W f (SetInputSymbols isyms f)"
| m_SetOutputSymbols: "mutation W f (SetOutputSymbols osyms f)"
| m_Copy: "mutation W f (CopyFst W f)"

inductive_cases mutationE: "mutation W f g"

lemma static_bits [simp]:
  "n \<in> {0, 1} \<Longrightarrow> bit (properties (SetProperties p f)) n = bit p n"
  by (auto simp: SetProperties_def prop_bits)

lemma static_bits_masks [simp]:
  "bit (SetStartProperties p) n = bit p n" "bit (SetFinalProperties W p w v) n = bit p n"
  "bit (AddStateProperties p) n = bit p n" "bit (DeleteArcsProperties p) n = bit p n"
  "bit (DeleteStatesProperties p) n = bit p n" "bit (AddArcProperties W p s a b) n = bit p n"
  "bit (SetValueProperties W p a c) n = bit p n"
  if "n \<in> {0, 1, 2}" for n
proof -
  note [simp] = prop_bits Let_def bit_If
  note [simp del] = bit_if
  note [cong] = if_cong
  from that show "bit (SetStartProperties p) n = bit p n" by (auto simp: SetStartProperties_def)
  from that show "bit (SetFinalProperties W p w v) n = bit p n"
    by (elim insertE) (simp_all add: SetFinalProperties_def)
  from that show "bit (AddStateProperties p) n = bit p n" by (auto simp: AddStateProperties_def)
  from that show "bit (DeleteArcsProperties p) n = bit p n" by (auto simp: DeleteArcsProperties_def)
  from that show "bit (DeleteStatesProperties p) n = bit p n" by (auto simp: DeleteStatesProperties_def)
  from that show "bit (AddArcProperties W p s a b) n = bit p n"
    by (elim insertE; cases b) (simp_all add: AddArcProperties_def)
  from that show "bit (SetValueProperties W p a c) n = bit p n"
    by (elim insertE) (simp_all add: SetValueProperties_def)
qed

text \<open>Setting the symbol tables keeps states, start state and properties.\<close>

lemma SetSymbols_sel [simp]:
  "states (SetInputSymbols t f) = states f" "start (SetInputSymbols t f) = start f"
  "properties (SetInputSymbols t f) = properties f"
  "states (SetOutputSymbols t f) = states f" "start (SetOutputSymbols t f) = start f"
  "properties (SetOutputSymbols t f) = properties f"
  by (simp_all add: SetInputSymbols_def SetOutputSymbols_def)

lemma SetSymbols_wf [simp]:
  "wf_fst (SetInputSymbols t f) = wf_fst f" "wf_fst (SetOutputSymbols t f) = wf_fst f"
  by (simp_all add: wf_fst_def trans_def fst_obs)

lemma SetSymbols_sound [simp]:
  "props_sound W (SetInputSymbols t f) p = props_sound W f p"
  "props_sound W (SetOutputSymbols t f) p = props_sound W f p"
  by (rule props_sound_cong; simp)+

lemma mutation_wf: "mutation W f g \<Longrightarrow> wf_fst f \<Longrightarrow> wf_fst g"
proof (induction rule: mutation.induct)
  case (m_DeleteStates f ds)
  then show ?case
    by (simp add: DeleteStates_def ImplDeleteStates_def Let_def wf_BaseDeleteStates)
next
  case (m_Copy f)
  then show ?case by (simp add: CopyFst_eq) (simp add: wf_fst_def trans_def fst_obs)
qed (auto simp: SetStart_def SetFinal_def AddState_eq AddStates_def UpdatePropertiesAfterAddArc_eq
    DeleteAllArcs_eq DeleteArcs_def Let_def DeleteAllStates_empty
    intro: wf_BaseSetStart wf_BaseSetFinal wf_BaseAddStates wf_BaseAddArc wf_SetValue wf_BaseDeleteArcs
      wf_empty)

lemma mutation_sound:
  "mutation W f g \<Longrightarrow> Weq W (Zero W) (Zero W) \<Longrightarrow> wf_fst f \<Longrightarrow> props_sound W f (properties f) \<Longrightarrow>
    props_sound W g (properties g)"
proof (induction rule: mutation.induct)
  case (m_Copy f)
  then have "props_sound W f (properties f AND kCopyProperties OR kStaticProperties)"
    by (elim props_sound_mono) (auto simp: bit_or_iff bit_and_iff
        kStaticProperties_def bit_kExpanded bit_kMutable)
  then show ?case using m_Copy by (subst props_sound_cong [of _ f]) (simp_all add: CopyFst_eq)
qed (simp_all add: SetStart_sound SetFinal_sound AddStates_sound AddState_eq AddArc_sound
    SetValue_sound DeleteArcs_sound DeleteAllArcs_eq DeleteStates_sound DeleteAllStates_sound)

lemma mutation_static:
  "mutation W f g \<Longrightarrow> wf_fst f \<Longrightarrow> n \<in> {0, 1} \<Longrightarrow> bit (properties f) n \<Longrightarrow> bit (properties g) n"
proof (induction rule: mutation.induct)
  case (m_DeleteStates f ds)
  then show ?case
    by (cases "ds = []") (auto simp: DeleteStates_def ImplDeleteStates_def Let_def BaseDeleteStates_spec)
qed (auto simp: SetStart_def SetFinal_def AddState_eq AddStates_def UpdatePropertiesAfterAddArc_eq
    DeleteAllArcs_eq DeleteArcs_def Let_def DeleteAllStates_empty SetValue_eq CopyFst_eq
    kStaticProperties_def prop_bits)

lemma fst_ok_mutation: "mutation W f g \<Longrightarrow> Weq W (Zero W) (Zero W) \<Longrightarrow> fst_ok W f \<Longrightarrow> fst_ok W g"
  unfolding fst_ok_def using mutation_wf mutation_sound mutation_static [of W f g] by blast

lemma fst_ok_VectorFstImpl: "fst_ok W VectorFstImpl"
  using empty_sound [of VectorFstImpl W 0]
  by (auto simp: fst_ok_def wf_empty VectorFstImpl_eq kStaticProperties_def prop_bits)

lemma fst_ok_reachable:
  assumes "(mutation W)\<^sup>*\<^sup>* VectorFstImpl f" "Weq W (Zero W) (Zero W)"
  shows "fst_ok W f"
  using assms(1) by induction (auto intro: fst_ok_VectorFstImpl fst_ok_mutation assms(2))

end
