(* ===== verification/FstPaths.thy ===== *)
theory FstPaths
  imports VectorFstDelete
begin

text \<open>
  Paths over sets of transitions: how the paths of a machine that was put together from parts
  decompose into paths of the parts, and the weights of such paths. The theories on the rational
  operations use these lemmas.
\<close>

primrec tpath :: "(nat \<times> 'w arc) set \<Rightarrow> nat \<Rightarrow> 'w arc list \<Rightarrow> nat \<Rightarrow> bool" where
  "tpath T s [] t = (s = t)"
| "tpath T s (a # as) t = ((s, a) \<in> T \<and> tpath T (nextstate a) as t)"

lemma path_tpath: "path f s as t = tpath (trans f) s as t"
  by (induction as arbitrary: s) simp_all

lemma tpath_append: "tpath T s (as @ bs) t \<longleftrightarrow> (\<exists>u. tpath T s as u \<and> tpath T u bs t)"
  by (induction as arbitrary: s) auto

lemma tpath_mono: "tpath T s as t \<Longrightarrow> T \<subseteq> T' \<Longrightarrow> tpath T' s as t"
  by (induction as arbitrary: s) auto

definition shifted :: "nat \<Rightarrow> (nat \<times> 'w arc) set \<Rightarrow> (nat \<times> 'w arc) set" where
  "shifted n T = (\<lambda>(s, a). (s + n, retarget (\<lambda>t. t + n) a)) ` T"

lemma shifted_iff:
  "(s, b) \<in> shifted n T \<longleftrightarrow> (\<exists>r a. (r, a) \<in> T \<and> s = r + n \<and> b = retarget (\<lambda>t. t + n) a)"
  by (force simp: shifted_def)

lemma shifted_add:
  "(r + n, b) \<in> shifted n T \<longleftrightarrow> (\<exists>a. (r, a) \<in> T \<and> b = retarget (\<lambda>t. t + n) a)"
  by (auto simp: shifted_iff)

lemma tpath_shifted_I: "tpath T s as t \<Longrightarrow> tpath (shifted n T) (s + n) (map (retarget (\<lambda>t. t + n)) as) (t + n)"
  by (induction as arbitrary: s) (auto simp: shifted_iff)

lemma tpath_shifted_E:
  assumes "tpath (shifted n T) (s + n) bs u"
  shows "\<exists>as t. tpath T s as t \<and> u = t + n \<and> bs = map (retarget (\<lambda>t. t + n)) as"
  using assms
proof (induction bs arbitrary: s)
  case (Cons b bs)
  then obtain a where a: "(s, a) \<in> T" "b = retarget (\<lambda>t. t + n) a"
    and p: "tpath (shifted n T) (nextstate a + n) bs u"
    by (auto simp: shifted_iff)
  from Cons.IH [OF p] obtain as t where
    "tpath T (nextstate a) as t" "u = t + n" "bs = map (retarget (\<lambda>t. t + n)) as" by blast
  then show ?case using a by (intro exI [of _ "a # as"]) auto
qed simp

lemma strings_retarget [simp]:
  "istring (map (retarget \<phi>) as) = istring as" "ostring (map (retarget \<phi>) as) = ostring as"
  "path_weight W (map (retarget \<phi>) as) = path_weight W as"
  by (induction as) simp_all

text \<open>A path stays in a region that no arc leaves.\<close>

lemma tpath_stay:
  assumes "tpath T' s as t" "s \<in> R" "\<And>r a. (r, a) \<in> T' \<Longrightarrow> r \<in> R \<Longrightarrow> (r, a) \<in> T \<and> nextstate a \<in> R"
  shows "tpath T s as t \<and> t \<in> R"
  using assms(1,2) by (induction as arbitrary: s) (auto dest: assms(3))

text \<open>A path from one region to another crosses a bridge, if the second cannot be left.\<close>

lemma tpath_cross:
  assumes "tpath T' s as t" "s \<in> R" "t \<notin> R"
    and in_R: "\<And>r a. (r, a) \<in> T' \<Longrightarrow> r \<in> R \<Longrightarrow> (r, a) \<in> X \<or> (r, a) \<in> T \<and> nextstate a \<in> R"
    and X: "\<And>r a. (r, a) \<in> X \<Longrightarrow> nextstate a \<notin> R"
  shows "\<exists>as1 x as2 u. as = as1 @ x # as2 \<and> tpath T s as1 u \<and> u \<in> R \<and> (u, x) \<in> X \<and>
    tpath T' (nextstate x) as2 t"
  using assms(1,2)
proof (induction as arbitrary: s)
  case Nil
  then show ?case using assms(3) by simp
next
  case (Cons a as)
  then have a: "(s, a) \<in> T'" "tpath T' (nextstate a) as t" by simp_all
  from in_R [OF a(1) \<open>s \<in> R\<close>] show ?case
  proof
    assume "(s, a) \<in> X"
    then show ?thesis using a Cons.prems by (intro exI [of _ "[]"]) auto
  next
    assume T: "(s, a) \<in> T \<and> nextstate a \<in> R"
    then obtain as1 x as2 u where "as = as1 @ x # as2" "tpath T (nextstate a) as1 u" "u \<in> R"
      "(u, x) \<in> X" "tpath T' (nextstate x) as2 t"
      using Cons.IH [OF a(2)] by blast
    then show ?thesis using T by (intro exI [of _ "a # as1"]) auto
  qed
qed

section \<open>Weights of paths\<close>

definition arcs_in :: "('w \<Rightarrow> bool) \<Rightarrow> 'w arc list \<Rightarrow> bool" where
  "arcs_in M as \<longleftrightarrow> (\<forall>a \<in> set as. M (weight a))"

lemma arcs_in_simps [simp]:
  "arcs_in M []" "arcs_in M (a # as) \<longleftrightarrow> M (weight a) \<and> arcs_in M as"
  "arcs_in M (as @ bs) \<longleftrightarrow> arcs_in M as \<and> arcs_in M bs"
  by (auto simp: arcs_in_def)

lemma weights_in_trans: "weights_in M f \<Longrightarrow> (s, a) \<in> trans f \<Longrightarrow> M (weight a)"
  by (auto simp: weights_in_def trans_iff Arcs_def NumStates_def)

lemma weights_in_Final: "weights_in M f \<Longrightarrow> s < NumStates f \<Longrightarrow> M (Final f s)"
  by (simp add: weights_in_def Final_def NumStates_def)

lemma weights_in_path: "weights_in M f \<Longrightarrow> tpath (trans f) s as t \<Longrightarrow> arcs_in M as"
  by (induction as arbitrary: s) (auto dest: weights_in_trans)

text \<open>The transductions that begin with arc \<open>a\<close>.\<close>

definition transduces_via ::
  "('w, 'z) weight_ops_scheme \<Rightarrow> 'w vfst \<Rightarrow> 'w arc \<Rightarrow> int list \<Rightarrow> int list \<Rightarrow> 'w \<Rightarrow> bool" where
  "transduces_via W f a x y w \<longleftrightarrow>
     (\<exists>x' y' w'. transduces_from W f (nextstate a) x' y' w' \<and>
        x = istring [a] @ x' \<and> y = ostring [a] @ y' \<and> w = Times W (weight a) w')"

lemma transduces_via_cong:
  "(\<And>x y w. transduces_from W f (nextstate a) x y w = transduces_from W g (nextstate a) x y w) \<Longrightarrow>
    transduces_via W f a x y w = transduces_via W g a x y w"
  by (simp add: transduces_via_def)

context weight_monoid
begin

lemma M_path_weight: "arcs_in M as \<Longrightarrow> M (path_weight W as)"
  by (induction as) (auto intro: M_One M_Times)

lemma path_weight_append:
  "arcs_in M as \<Longrightarrow> arcs_in M bs \<Longrightarrow>
    path_weight W (as @ bs) = Times W (path_weight W as) (path_weight W bs)"
  by (induction as) (simp_all add: One_Times M_path_weight Times_assoc)

lemma M_transduces: "weights_in M f \<Longrightarrow> transduces W f x y w \<Longrightarrow> M w"
  unfolding transduces_def transduces_from_def path_tpath
  by (auto intro!: M_Times M_path_weight intro: weights_in_path weights_in_Final simp: final_state_def)


text \<open>The transductions from a state: stop there, or take an arc.\<close>

lemma transduces_from_unfold:
  assumes "weights_in M f"
  shows "transduces_from W f s x y w \<longleftrightarrow>
    final_state W f s \<and> x = [] \<and> y = [] \<and> w = Final f s \<or>
    (\<exists>a. (s, a) \<in> trans f \<and> transduces_via W f a x y w)"
    (is "?L \<longleftrightarrow> ?stop \<or> ?step")
proof
  have Fin: "Times W (Times W (weight a) (path_weight W as)) (Final f t) =
      Times W (weight a) (Times W (path_weight W as) (Final f t))"
    if "(r, a) \<in> trans f" "tpath (trans f) u as t" "final_state W f t" for r a u as t
    using that weights_in_trans [OF assms that(1)] weights_in_path [OF assms that(2)]
      weights_in_Final [OF assms, of t]
    by (simp add: Times_assoc M_path_weight final_state_def)
  show "?stop \<or> ?step" if L: ?L
  proof -
    obtain as t where *: "tpath (trans f) s as t" "final_state W f t" "x = istring as" "y = ostring as"
      "w = Times W (path_weight W as) (Final f t)"
      using L by (auto simp: transduces_from_def path_tpath)
    show ?thesis
    proof (cases as)
      case Nil
      then show ?thesis using * weights_in_Final [OF assms, of t]
        by (simp add: One_Times final_state_def)
    next
      case (Cons a bs)
      then have "(s, a) \<in> trans f" "tpath (trans f) (nextstate a) bs t" using * by simp_all
      moreover from this have "transduces_from W f (nextstate a) (istring bs) (ostring bs)
          (Times W (path_weight W bs) (Final f t))"
        using * by (auto simp: transduces_from_def path_tpath)
      ultimately have ?step using * Cons Fin [of s a "nextstate a" bs t]
        unfolding transduces_via_def
        by (intro exI [of _ a] conjI exI [of _ "istring bs"] exI [of _ "ostring bs"] exI) auto
      then show ?thesis ..
    qed
  qed
  show ?L if "?stop \<or> ?step"
    using that
  proof
    assume ?stop
    then show ?L using weights_in_Final [OF assms, of s]
      unfolding transduces_from_def
      by (intro exI [of _ "[]"] exI [of _ s]) (simp add: One_Times final_state_def)
  next
    assume ?step
    then obtain a as t where *: "(s, a) \<in> trans f" "tpath (trans f) (nextstate a) as t" "final_state W f t"
      "x = istring [a] @ istring as" "y = ostring [a] @ ostring as"
      "w = Times W (weight a) (Times W (path_weight W as) (Final f t))"
      by (auto simp: transduces_via_def transduces_from_def path_tpath)
    then show ?L unfolding transduces_from_def path_tpath
      using Fin by (intro exI [of _ "a # as"] exI [of _ t]) auto
  qed
qed

lemma M_transduces_from: "weights_in M f \<Longrightarrow> transduces_from W f s x y w \<Longrightarrow> M w"
  unfolding transduces_from_def path_tpath
  by (auto intro!: M_Times M_path_weight intro: weights_in_path weights_in_Final simp: final_state_def)

lemma transduces_from_stop:
  "weights_in M f \<Longrightarrow> final_state W f s \<Longrightarrow> transduces_from W f s [] [] (Final f s)"
  by (simp add: transduces_from_unfold)

lemma transduces_from_step:
  "weights_in M f \<Longrightarrow> (s, a) \<in> trans f \<Longrightarrow> transduces_from W f (nextstate a) x y w \<Longrightarrow>
    transduces_from W f s (istring [a] @ x) (ostring [a] @ y) (Times W (weight a) w)"
  by (subst transduces_from_unfold) (auto simp: transduces_via_def)

lemma transduces_from_induct [consumes 2, case_names stop step]:
  assumes M: "weights_in M f" and t: "transduces_from W f s x y w"
    and stop: "\<And>s. final_state W f s \<Longrightarrow> P s [] [] (Final f s)"
    and step: "\<And>s a x y w. (s, a) \<in> trans f \<Longrightarrow> transduces_from W f (nextstate a) x y w \<Longrightarrow>
      P (nextstate a) x y w \<Longrightarrow> P s (istring [a] @ x) (ostring [a] @ y) (Times W (weight a) w)"
  shows "P s x y w"
proof -
  obtain as t where *: "tpath (trans f) s as t" "final_state W f t" "x = istring as" "y = ostring as"
    "w = Times W (path_weight W as) (Final f t)"
    using t by (auto simp: transduces_from_def path_tpath)
  have "P s (istring as) (ostring as) (Times W (path_weight W as) (Final f t))"
    using *(1)
  proof (induction as arbitrary: s)
    case Nil
    then show ?case using stop [OF *(2)] weights_in_Final [OF M, of t] *(2)
      by (simp add: One_Times final_state_def)
  next
    case (Cons a as)
    then have a: "(s, a) \<in> trans f" "tpath (trans f) (nextstate a) as t" by simp_all
    have tr: "transduces_from W f (nextstate a) (istring as) (ostring as) (Times W (path_weight W as) (Final f t))"
      using a(2) *(2) by (auto simp: transduces_from_def path_tpath)
    have "Times W (path_weight W (a # as)) (Final f t) = Times W (weight a) (Times W (path_weight W as) (Final f t))"
      using weights_in_trans [OF M a(1)] weights_in_path [OF M a(2)] weights_in_Final [OF M, of t] *(2)
      by (simp add: Times_assoc M_path_weight final_state_def)
    then show ?case using step [OF a(1) tr Cons.IH [OF a(2)]] by auto
  qed
  then show ?thesis using * by simp
qed

text \<open>An epsilon arc of weight One passes the transductions of its target on.\<close>

lemma transduces_via_eps:
  "weights_in M f \<Longrightarrow> transduces_via W f (Arc 0 0 (One W) t) x y w \<longleftrightarrow> transduces_from W f t x y w"
  using M_transduces_from One_Times by (fastforce simp: transduces_via_def)

end

text \<open>
  A region of \<open>g\<close> that looks like a region of \<open>f\<close> (renamed by \<open>\<phi>\<close>) and that no arc leaves has the
  transductions of \<open>f\<close>.
\<close>

lemma transduces_from_embed:
  assumes s: "s \<in> R"
    and arcs: "\<And>r b. r \<in> R \<Longrightarrow> (\<phi> r, b) \<in> trans g \<longleftrightarrow> (\<exists>a. (r, a) \<in> trans f \<and> b = retarget \<phi> a)"
    and stay: "\<And>r a. r \<in> R \<Longrightarrow> (r, a) \<in> trans f \<Longrightarrow> nextstate a \<in> R"
    and fin: "\<And>r. r \<in> R \<Longrightarrow> final_state W g (\<phi> r) \<longleftrightarrow> final_state W f r"
      "\<And>r. r \<in> R \<Longrightarrow> final_state W f r \<Longrightarrow> Final g (\<phi> r) = Final f r"
  shows "transduces_from W g (\<phi> s) x y w \<longleftrightarrow> transduces_from W f s x y w"
proof -
  have I: "tpath (trans g) (\<phi> s) (map (retarget \<phi>) as) (\<phi> t) \<and> t \<in> R"
    if "tpath (trans f) s as t" "s \<in> R" for s as t
    using that by (induction as arbitrary: s) (auto simp: arcs stay)
  have E: "\<exists>as t. tpath (trans f) s as t \<and> u = \<phi> t \<and> t \<in> R \<and> bs = map (retarget \<phi>) as"
    if "tpath (trans g) (\<phi> s) bs u" "s \<in> R" for s bs u
    using that
  proof (induction bs arbitrary: s)
    case (Cons b bs)
    then obtain a where a: "(s, a) \<in> trans f" "b = retarget \<phi> a" by (auto simp: arcs)
    then obtain as t where "tpath (trans f) (nextstate a) as t" "u = \<phi> t" "t \<in> R" "bs = map (retarget \<phi>) as"
      using Cons.IH [of "nextstate a"] Cons.prems stay by auto
    then show ?case using a by (intro exI [of _ "a # as"]) auto
  qed auto
  show ?thesis
  proof
    assume "transduces_from W g (\<phi> s) x y w"
    then obtain bs u where b: "tpath (trans g) (\<phi> s) bs u" "final_state W g u" "x = istring bs" "y = ostring bs"
      "w = Times W (path_weight W bs) (Final g u)" by (auto simp: transduces_from_def path_tpath)
    from E [OF b(1) s] obtain as t where "tpath (trans f) s as t" "u = \<phi> t" "t \<in> R" "bs = map (retarget \<phi>) as"
      by blast
    then show "transduces_from W f s x y w"
      using b fin unfolding transduces_from_def path_tpath by (intro exI [of _ as] exI [of _ t]) auto
  next
    assume "transduces_from W f s x y w"
    then obtain as t where a: "tpath (trans f) s as t" "final_state W f t" "x = istring as" "y = ostring as"
      "w = Times W (path_weight W as) (Final f t)" by (auto simp: transduces_from_def path_tpath)
    then show "transduces_from W g (\<phi> s) x y w"
      using I [OF a(1) s] fin unfolding transduces_from_def path_tpath
      by (intro exI [of _ "map (retarget \<phi>) as"] exI [of _ "\<phi> t"]) auto
  qed
qed

end
