(* ===== verification/Rational.thy ===== *)
theory Rational
  imports FstPaths
begin

text \<open>
  The rational operations on mutable FSTs: \<open>Union\<close> of src/openfst/lib/union.h, both forms of
  \<open>Concat\<close> of src/openfst/lib/concat.h and \<open>Closure\<close> of src/openfst/lib/closure.h, with their
  list forms. \<open>flag\<close> is \<open>FLAGS_fst_compat_symbols\<close>. Capacity reservation has no effect on the
  result and is left out.
\<close>

unbundle bit_operations_syntax

section \<open>Operations\<close>

text \<open>
  The loop body that \<open>Union\<close> and the first \<open>Concat\<close> share: state \<open>s\<close> of \<open>g\<close> is appended to \<open>f\<close>,
  with the targets of its arcs shifted by \<open>off\<close>.
\<close>

definition shift_arc :: "nat \<Rightarrow> 'w arc \<Rightarrow> 'w arc" where
  "shift_arc off arc = arc\<lparr>nextstate := nextstate arc + off\<rparr>"

definition append_state ::
  "('w, 'z) weight_ops_scheme \<Rightarrow> nat \<Rightarrow> 'w vfst \<Rightarrow> nat \<Rightarrow> 'w vfst \<Rightarrow> 'w vfst" where
  "append_state W off g s2 f =
     (let s1 = NumStates f;
          f = AddState W f;
          f = SetFinal W s1 (Final g s2) f
      in fold (\<lambda>arc. AddArc W s1 (shift_arc off arc)) (Arcs g s2) f)"

definition Union ::
  "bool \<Rightarrow> ('w, 'z) weight_ops_scheme \<Rightarrow> 'w vfst \<Rightarrow> 'w vfst \<Rightarrow> 'w vfst" where
  "Union flag W fst1 fst2 =
     (if \<not> CompatSymbols flag (isymbols fst1) (isymbols fst2) \<or>
         \<not> CompatSymbols flag (osymbols fst1) (osymbols fst2)
      then SetPropertiesMask kError kError fst1
      else
       (let numstates1 = NumStates fst1;
            initial_acyclic1 = (Properties fst1 kInitialAcyclic = kInitialAcyclic);
            props1 = Properties fst1 kFstProperties;
            props2 = Properties fst2 kFstProperties
        in case start fst2 of
             None \<Rightarrow> (if has props2 kError then SetPropertiesMask kError kError fst1 else fst1)
           | Some start2 \<Rightarrow>
              (let f = fold (append_state W numstates1 fst2) [0 ..< NumStates fst2] fst1
               in case start f of
                    None \<Rightarrow>
                      (let f = SetStart (Some (start2 + numstates1)) f
                       in if numstates1 = 0
                          then SetPropertiesMask (props2 OR (props1 AND kError)) kCopyProperties f
                          else if has props2 kError then SetPropertiesMask kError kError f else f)
                  | Some start1 \<Rightarrow>
                      (let f = (if initial_acyclic1
                                then AddArc W start1 (Arc 0 0 (One W) (start2 + numstates1)) f
                                else
                                 (let nstart1 = NumStates f;
                                      f = AddState W f;
                                      f = SetStart (Some nstart1) f;
                                      f = AddArc W nstart1 (Arc 0 0 (One W) start1) f
                                  in AddArc W nstart1 (Arc 0 0 (One W) (start2 + numstates1)) f))
                       in SetPropertiesMask (UnionProperties props1 props2 False)
                            kFstProperties f))))"

definition UnionList ::
  "bool \<Rightarrow> ('w, 'z) weight_ops_scheme \<Rightarrow> 'w vfst \<Rightarrow> 'w vfst list \<Rightarrow> 'w vfst" where
  "UnionList flag W fst1 fsts2 = fold (\<lambda>fst2 f. Union flag W f fst2) fsts2 fst1"

text \<open>The second loop of the first \<open>Concat\<close>: a final state of \<open>fst1\<close> gets an arc to \<open>fst2\<close>.\<close>

definition concat_final ::
  "('w, 'z) weight_ops_scheme \<Rightarrow> nat option \<Rightarrow> nat \<Rightarrow> nat \<Rightarrow> 'w vfst \<Rightarrow> 'w vfst" where
  "concat_final W start2 numstates1 s1 f =
     (let w = Final f s1
      in if \<not> Weq W w (Zero W)
         then (let f = SetFinal W s1 (Zero W) f
               in case start2 of
                    None \<Rightarrow> f
                  | Some start2 \<Rightarrow> AddArc W s1 (Arc 0 0 w (start2 + numstates1)) f)
         else f)"

definition Concat ::
  "bool \<Rightarrow> ('w, 'z) weight_ops_scheme \<Rightarrow> 'w vfst \<Rightarrow> 'w vfst \<Rightarrow> 'w vfst" where
  "Concat flag W fst1 fst2 =
     (if \<not> CompatSymbols flag (isymbols fst1) (isymbols fst2) \<or>
         \<not> CompatSymbols flag (osymbols fst1) (osymbols fst2)
      then SetPropertiesMask kError kError fst1
      else
       (let props1 = Properties fst1 kFstProperties;
            props2 = Properties fst2 kFstProperties
        in case start fst1 of
             None \<Rightarrow> (if has props2 kError then SetPropertiesMask kError kError fst1 else fst1)
           | Some start1 \<Rightarrow>
              (let numstates1 = NumStates fst1;
                   f = fold (append_state W numstates1 fst2) [0 ..< NumStates fst2] fst1;
                   start2 = start fst2;
                   f = fold (concat_final W start2 numstates1) [0 ..< numstates1] f
               in if start2 \<noteq> None
                  then SetPropertiesMask (ConcatProperties props1 props2 False) kFstProperties f
                  else if has props2 kError then SetPropertiesMask kError kError f else f)))"

text \<open>The loop body of the second \<open>Concat\<close>, which appends the states of \<open>fst1\<close> to \<open>fst2\<close>.\<close>

definition prepend_state ::
  "('w, 'z) weight_ops_scheme \<Rightarrow> nat \<Rightarrow> nat \<Rightarrow> 'w vfst \<Rightarrow> nat \<Rightarrow> 'w vfst \<Rightarrow> 'w vfst" where
  "prepend_state W numstates2 start2 fst1 s1 f =
     (let s2 = NumStates f;
          f = AddState W f;
          w = Final fst1 s1;
          f = (if \<not> Weq W w (Zero W) then AddArc W s2 (Arc 0 0 w start2) f else f)
      in fold (\<lambda>arc. AddArc W s2 (shift_arc numstates2 arc)) (Arcs fst1 s1) f)"

definition ConcatLeft ::
  "bool \<Rightarrow> ('w, 'z) weight_ops_scheme \<Rightarrow> 'w vfst \<Rightarrow> 'w vfst \<Rightarrow> 'w vfst" where
  "ConcatLeft flag W fst1 fst2 =
     (if \<not> CompatSymbols flag (isymbols fst1) (isymbols fst2) \<or>
         \<not> CompatSymbols flag (osymbols fst1) (osymbols fst2)
      then SetPropertiesMask kError kError fst2
      else
       (let props1 = Properties fst1 kFstProperties;
            props2 = Properties fst2 kFstProperties
        in case start fst2 of
             None \<Rightarrow> (if has props1 kError then SetPropertiesMask kError kError fst2 else fst2)
           | Some start2 \<Rightarrow>
              (let numstates2 = NumStates fst2;
                   f = fold (prepend_state W numstates2 start2 fst1) [0 ..< NumStates fst1] fst2
               in case start fst1 of
                    Some start1 \<Rightarrow>
                      (let f = SetStart (Some (start1 + numstates2)) f
                       in SetPropertiesMask (ConcatProperties props1 props2 False) kFstProperties f)
                  | None \<Rightarrow>
                      if has props1 kError then SetPropertiesMask kError kError f
                      else (let s = NumStates f; f = AddState W f in SetStart (Some s) f))))"

definition ConcatLeftList ::
  "bool \<Rightarrow> ('w, 'z) weight_ops_scheme \<Rightarrow> 'w vfst list \<Rightarrow> 'w vfst \<Rightarrow> 'w vfst" where
  "ConcatLeftList flag W fsts1 fst2 = fold (ConcatLeft flag W) fsts1 fst2"

datatype ClosureType = CLOSURE_STAR | CLOSURE_PLUS

definition closure_final :: "('w, 'z) weight_ops_scheme \<Rightarrow> nat \<Rightarrow> nat \<Rightarrow> 'w vfst \<Rightarrow> 'w vfst" where
  "closure_final W s0 s f =
     (let w = Final f s in if \<not> Weq W w (Zero W) then AddArc W s (Arc 0 0 w s0) f else f)"

definition Closure ::
  "('w, 'z) weight_ops_scheme \<Rightarrow> ClosureType \<Rightarrow> 'w vfst \<Rightarrow> 'w vfst" where
  "Closure W closure_type f =
     (let props = Properties f kFstProperties;
          start0 = start f;
          f = (case start0 of
                 None \<Rightarrow> f
               | Some s0 \<Rightarrow> fold (closure_final W s0) [0 ..< NumStates f] f);
          f = (if closure_type = CLOSURE_STAR
               then (let nstart = NumStates f;
                         f = AddState W f;
                         f = SetStart (Some nstart) f;
                         f = SetFinal W nstart (One W) f
                     in case start0 of
                          None \<Rightarrow> f
                        | Some s0 \<Rightarrow> AddArc W nstart (Arc 0 0 (One W) s0) f)
               else f)
      in SetPropertiesMask (ClosureProperties props (closure_type = CLOSURE_STAR) False)
           kFstProperties f)"

section \<open>The states that the loops build\<close>

lemma states_ops [simp]:
  "states (AddState W f) = states f @ [VectorState W]"
  "states (SetFinal W s w f) = (states f)[s := (states f ! s)\<lparr>final_weight := w\<rparr>]"
  "states (AddArc W s a f) = (states f)[s := StateAddArc a (states f ! s)]"
  "states (SetStart i f) = states f"
  by (simp_all add: AddState_def BaseAddState_def SetFinal_def BaseSetFinal_def AddArc_def
      UpdatePropertiesAfterAddArc_def BaseAddArc_def SetStart_def BaseSetStart_def Let_def)

lemma start_ops [simp]:
  "start (AddState W f) = start f" "start (SetFinal W s w f) = start f"
  "start (AddArc W s a f) = start f" "start (SetStart i f) = i"
  by (simp_all add: AddState_def BaseAddState_def SetFinal_def BaseSetFinal_def AddArc_def
      UpdatePropertiesAfterAddArc_def BaseAddArc_def SetStart_def BaseSetStart_def Let_def)

definition shift_state :: "nat \<Rightarrow> 'w vstate \<Rightarrow> 'w vstate" where
  "shift_state n st = st\<lparr>arcs := map (shift_arc n) (arcs st)\<rparr>"

lemma shift_arc_retarget: "shift_arc n = retarget (\<lambda>t. t + n)"
  by (simp add: shift_arc_def retarget_def fun_eq_iff)

lemma shift_state_sel [simp]:
  "final_weight (shift_state n st) = final_weight st"
  "arcs (shift_state n st) = map (shift_arc n) (arcs st)"
  by (simp_all add: shift_state_def)

lemma eps_counts_shift: "eps_counts_ok (shift_state n st) = eps_counts_ok st"
  by (simp add: eps_counts_ok_def shift_state_def filter_map o_def shift_arc_def)

lemma states_fold_AddArc:
  "s < length (states f) \<Longrightarrow> states (fold (\<lambda>a. AddArc W s (h a)) as f) =
    (states f)[s := fold StateAddArc (map h as) (states f ! s)]"
  by (induction as arbitrary: f) simp_all

lemma start_fold_AddArc [simp]: "start (fold (\<lambda>a. AddArc W s (h a)) as f) = start f"
  by (induction as arbitrary: f) simp_all

lemma states_append_state:
  assumes "eps_counts_ok (states g ! s)"
  shows "states (append_state W n g s f) = states f @ [shift_state n (states g ! s)]"
    and "start (append_state W n g s f) = start f"
proof -
  have "fold StateAddArc (map (shift_arc n) (Arcs g s)) ((VectorState W)\<lparr>final_weight := Final g s\<rparr>) =
      shift_state n (states g ! s)"
    using assms eps_counts_VectorState [of W]
    by (intro vstate_eqI) (simp_all add: fold_StateAddArc eps_counts_final eps_counts_shift Final_def
        Arcs_def, simp add: VectorState_def)
  then show "states (append_state W n g s f) = states f @ [shift_state n (states g ! s)]"
    by (simp add: append_state_def Let_def states_fold_AddArc NumStates_def nth_append list_update_append)
  show "start (append_state W n g s f) = start f"
    by (simp add: append_state_def Let_def)
qed

lemma states_append_loop:
  "wf_fst g \<Longrightarrow> m \<le> NumStates g \<Longrightarrow>
    states (fold (append_state W n g) [0 ..< m] f) = states f @ map (shift_state n) (take m (states g)) \<and>
    start (fold (append_state W n g) [0 ..< m] f) = start f"
proof (induction m)
  case (Suc m)
  then show ?case
    using wf_eps [of g m] by (simp add: states_append_state take_Suc_conv_app_nth NumStates_def)
qed simp


section \<open>A machine with an appended machine\<close>

text \<open>
  \<open>appended f1 f2\<close> is the machine after the first loop of \<open>Union\<close> and \<open>Concat\<close>: the states of
  \<open>f1\<close>, then those of \<open>f2\<close> with shifted targets.
\<close>

definition appended :: "'w vfst \<Rightarrow> 'w vfst \<Rightarrow> 'w vstate list" where
  "appended f1 f2 = states f1 @ map (shift_state (NumStates f1)) (states f2)"

lemma length_appended [simp]: "length (appended f1 f2) = NumStates f1 + NumStates f2"
  by (simp add: appended_def NumStates_def)

lemma nth_appended:
  "s < NumStates f1 + NumStates f2 \<Longrightarrow> appended f1 f2 ! s =
    (if s < NumStates f1 then states f1 ! s else shift_state (NumStates f1) (states f2 ! (s - NumStates f1)))"
  by (auto simp: appended_def nth_append NumStates_def)

lemma append_loop:
  assumes "wf_fst f2"
  shows "states (fold (append_state W (NumStates f1) f2) [0 ..< NumStates f2] f1) = appended f1 f2"
    and "start (fold (append_state W (NumStates f1) f2) [0 ..< NumStates f2] f1) = start f1"
  using states_append_loop [OF assms, of "NumStates f2" W "NumStates f1" f1]
  by (simp_all add: appended_def NumStates_def)

lemma trans_appended:
  assumes "states g = appended f1 f2"
  shows "trans g = trans f1 \<union> shifted (NumStates f1) (trans f2)"
proof (rule set_eqI, clarify)
  fix s :: nat and a
  have "(s, a) \<in> shifted (NumStates f1) (trans f2) \<longleftrightarrow> NumStates f1 \<le> s \<and> s - NumStates f1 < NumStates f2 \<and>
      a \<in> shift_arc (NumStates f1) ` set (Arcs f2 (s - NumStates f1))"
    by (auto simp: shifted_iff trans_iff shift_arc_retarget le_iff_add image_iff) blast
  then show "(s, a) \<in> trans g \<longleftrightarrow> (s, a) \<in> trans f1 \<union> shifted (NumStates f1) (trans f2)"
    using assms by (cases "s < NumStates f1")
      (auto simp: trans_iff NumStates_def [of g] Arcs_def [of g] nth_appended Arcs_def)
qed

lemma Final_appended:
  assumes "states g = appended f1 f2" "s < NumStates f1 + NumStates f2"
  shows "Final g s = (if s < NumStates f1 then Final f1 s else Final f2 (s - NumStates f1))"
  using assms by (simp add: Final_def nth_appended)

text \<open>The transitions of an added epsilon arc.\<close>

lemma trans_AddArc:
  "s < NumStates f \<Longrightarrow> trans (AddArc W s a f) = insert (s, a) (trans f)"
  using trans_BaseAddArc [of s f a] by (simp add: trans_def fst_obs BaseAddArc_def)

lemma obs_AddArc [simp]:
  "NumStates (AddArc W s a f) = NumStates f" "Final (AddArc W s a f) = Final f"
proof -
  show "NumStates (AddArc W s a f) = NumStates f" by (simp add: NumStates_def)
  show "Final (AddArc W s a f) = Final f"
    using Final_BaseAddArc [of s a f] by (simp add: Final_def BaseAddArc_def fun_eq_iff)
qed

lemma obs_AddState [simp]:
  "NumStates (AddState W f) = Suc (NumStates f)" "trans (AddState W f) = trans f"
  "s < NumStates f \<Longrightarrow> Final (AddState W f) s = Final f s" "Final (AddState W f) (NumStates f) = Zero W"
  using trans_BaseAddStates [of W 1 f]
  by (simp_all add: NumStates_def Final_def nth_append VectorState_def trans_def Arcs_def BaseAddStates_def)

lemma obs_SetStart [simp]:
  "NumStates (SetStart i f) = NumStates f" "trans (SetStart i f) = trans f" "Final (SetStart i f) = Final f"
  by (simp_all add: NumStates_def Final_def trans_def Arcs_def fun_eq_iff)

lemma obs_SetPropertiesMask [simp]:
  "NumStates (SetPropertiesMask p m f) = NumStates f" "trans (SetPropertiesMask p m f) = trans f"
  "Final (SetPropertiesMask p m f) = Final f"
  by (simp_all add: NumStates_def Final_def trans_def Arcs_def fun_eq_iff)

lemma transduces_cong:
  "start f = start g \<Longrightarrow> trans f = trans g \<Longrightarrow> NumStates f = NumStates g \<Longrightarrow>
    (\<And>s. s < NumStates f \<Longrightarrow> Final f s = Final g s) \<Longrightarrow> transduces W f x y w = transduces W g x y w"
  unfolding transduces_def transduces_from_def path_tpath final_state_def by (auto; metis)


section \<open>Weights of the results\<close>

lemma weights_in_update:
  "weights_in M f \<Longrightarrow> M (final_weight st) \<Longrightarrow> arcs_in M (arcs st) \<Longrightarrow> states g = (states f)[s := st] \<Longrightarrow>
    weights_in M g"
  by (auto simp: weights_in_def arcs_in_def dest!: set_update_subset_insert [THEN subsetD])

lemma weights_in_state: "weights_in M f \<Longrightarrow> s < NumStates f \<Longrightarrow>
    M (final_weight (states f ! s)) \<and> arcs_in M (arcs (states f ! s))"
  by (auto simp: weights_in_def arcs_in_def NumStates_def)

lemma weights_in_AddArc:
  "weights_in M f \<Longrightarrow> s < NumStates f \<Longrightarrow> M (weight a) \<Longrightarrow> weights_in M (AddArc W s a f)"
  using weights_in_state [of M f s]
  by (auto intro!: weights_in_update [of M f "StateAddArc a (states f ! s)" _ s])

lemma weights_in_SetFinal:
  "weights_in M f \<Longrightarrow> s < NumStates f \<Longrightarrow> M w \<Longrightarrow> weights_in M (SetFinal W s w f)"
  using weights_in_state [of M f s]
  by (auto intro!: weights_in_update [of M f "(states f ! s)\<lparr>final_weight := w\<rparr>" _ s])

lemma weights_in_AddState: "weights_in M f \<Longrightarrow> M (Zero W) \<Longrightarrow> weights_in M (AddState W f)"
  by (auto simp: weights_in_def VectorState_def)

lemma weights_in_same_states: "states f = states g \<Longrightarrow> weights_in M f = weights_in M g"
  by (simp add: weights_in_def)

lemma weights_in_appended:
  "weights_in M f1 \<Longrightarrow> weights_in M f2 \<Longrightarrow> states g = appended f1 f2 \<Longrightarrow> weights_in M g"
  by (auto simp: weights_in_def appended_def shift_arc_def)

section \<open>Union\<close>

lemma final_state_eqI:
  "s < NumStates f \<Longrightarrow> r < NumStates g \<Longrightarrow> Final f s = Final g r \<Longrightarrow> final_state W f s = final_state W g r"
  by (simp add: final_state_def)

text \<open>The part of \<open>g\<close> that comes from \<open>f2\<close>, when other arcs were added to lower or new states only.\<close>

lemma right_part:
  assumes wf2: "wf_fst f2" and s: "s < NumStates f2"
    and tr: "trans g = T \<union> shifted n (trans f2)" and T: "\<And>r a. (r, a) \<in> T \<Longrightarrow> r < n \<or> n + NumStates f2 \<le> r"
    and ns: "n + NumStates f2 \<le> NumStates g"
    and fin: "\<And>r. r < NumStates f2 \<Longrightarrow> Final g (r + n) = Final f2 r"
  shows "transduces_from W g (s + n) x y w \<longleftrightarrow> transduces_from W f2 s x y w"
proof (rule transduces_from_embed [where R = "{r. r < NumStates f2}" and \<phi> = "\<lambda>t. t + n"])
  show "s \<in> {r. r < NumStates f2}" using s by simp
  fix r assume r: "r \<in> {r. r < NumStates f2}"
  show "(r + n, b) \<in> trans g \<longleftrightarrow> (\<exists>a. (r, a) \<in> trans f2 \<and> b = retarget (\<lambda>t. t + n) a)" for b
    using r T [of "r + n" b] by (auto simp: tr shifted_iff)
  show "(r, a) \<in> trans f2 \<Longrightarrow> nextstate a \<in> {r. r < NumStates f2}" for a
    using wf_trans [OF wf2] by auto
  show "final_state W g (r + n) \<longleftrightarrow> final_state W f2 r"
    using r ns fin by (intro final_state_eqI) auto
  show "Final g (r + n) = Final f2 r" using r fin by simp
qed

text \<open>The part that comes from \<open>f1\<close>, on a region \<open>R\<close> where no arc was added.\<close>

lemma left_part:
  assumes R: "s \<in> R" "\<And>r. r \<in> R \<Longrightarrow> r < NumStates f1" "\<And>r a. r \<in> R \<Longrightarrow> (r, a) \<in> trans f1 \<Longrightarrow> nextstate a \<in> R"
    and tr: "trans g = trans f1 \<union> T" and T: "\<And>r a. (r, a) \<in> T \<Longrightarrow> r \<notin> R"
    and ns: "NumStates f1 \<le> NumStates g" and fin: "\<And>r. r < NumStates f1 \<Longrightarrow> Final g r = Final f1 r"
  shows "transduces_from W g s x y w \<longleftrightarrow> transduces_from W f1 s x y w"
proof (rule transduces_from_embed [where R = R and \<phi> = "\<lambda>t. t"])
  fix r assume r: "r \<in> R"
  show "(r, b) \<in> trans g \<longleftrightarrow> (\<exists>a. (r, a) \<in> trans f1 \<and> b = retarget (\<lambda>t. t) a)" for b
    using r T by (auto simp: tr)
  show "(r, a) \<in> trans f1 \<Longrightarrow> nextstate a \<in> R" for a using R r by blast
  show "final_state W g r \<longleftrightarrow> final_state W f1 r"
    using R(2) [OF r] ns fin by (intro final_state_eqI) auto
  show "Final g r = Final f1 r" using r R fin by simp
qed (use R in simp)


definition symbols_match :: "bool \<Rightarrow> 'w vfst \<Rightarrow> 'w vfst \<Rightarrow> bool" where
  "symbols_match flag f1 f2 \<longleftrightarrow>
     CompatSymbols flag (isymbols f1) (isymbols f2) \<and> CompatSymbols flag (osymbols f1) (osymbols f2)"

lemma SetPropertiesMask_transduces [simp]:
  "transduces W (SetPropertiesMask p m f) x y w = transduces W f x y w"
  by (rule transduces_cong) simp_all

lemma SetPropertiesMask_transduces_from [simp]:
  "transduces_from W (SetPropertiesMask p m f) i x y w = transduces_from W f i x y w"
  by (simp add: transduces_from_def path_tpath final_state_def)

lemma sound_initial_acyclic:
  "props_sound W f (properties f) \<Longrightarrow> Properties f kInitialAcyclic = kInitialAcyclic \<Longrightarrow>
    start f = Some s \<Longrightarrow> (s, s) \<notin> (edges f)\<^sup>+"
proof -
  assume p: "props_sound W f (properties f)" and "Properties f kInitialAcyclic = kInitialAcyclic"
    and s: "start f = Some s"
  then have "bit (Properties f kInitialAcyclic) 37" by (simp add: bit_kInitialAcyclic)
  then have "bit (properties f) (Suc (pos_bit InitialCyclic))" by (simp add: Properties_def bit_and_iff)
  from props_soundD(2) [OF p this] s show ?thesis by simp
qed

lemma wf_shifted: "wf_fst f \<Longrightarrow> (r, a) \<in> shifted n (trans f) \<Longrightarrow> n \<le> r \<and> r < n + NumStates f"
  by (auto simp: shifted_iff trans_iff)

lemma wf_trancl_less: "wf_fst f \<Longrightarrow> (s, r) \<in> (edges f)\<^sup>+ \<Longrightarrow> r < NumStates f"
  by (metis edges_iff tranclE wf_trans)

text \<open>What the two ways to join the start states lead to.\<close>

lemma Arcs_appended:
  assumes "states g = appended f1 f2"
  shows "r < NumStates f1 \<Longrightarrow> Arcs g r = Arcs f1 r"
    and "r < NumStates f2 \<Longrightarrow> Arcs g (r + NumStates f1) = map (retarget (\<lambda>t. t + NumStates f1)) (Arcs f2 r)"
  using assms by (simp_all add: Arcs_def nth_appended shift_arc_retarget)

lemma Arcs_AddArc:
  "s < NumStates f \<Longrightarrow> Arcs (AddArc W s a f) r = (if r = s then Arcs f s @ [a] else Arcs f r)"
  by (simp add: Arcs_def NumStates_def nth_list_update)

lemma Arcs_AddState [simp]:
  "r < NumStates f \<Longrightarrow> Arcs (AddState W f) r = Arcs f r" "Arcs (AddState W f) (NumStates f) = []"
  by (simp_all add: Arcs_def NumStates_def nth_append VectorState_def)

lemma Arcs_SetStart [simp]: "Arcs (SetStart i f) = Arcs f"
  by (simp add: Arcs_def fun_eq_iff)

lemma Arcs_SetPropertiesMask [simp]: "Arcs (SetPropertiesMask p m f) = Arcs f"
  by (simp add: Arcs_def fun_eq_iff)

definition joined_at :: "('w, 'z) weight_ops_scheme \<Rightarrow> 'w vfst \<Rightarrow> 'w vfst \<Rightarrow> nat \<Rightarrow> nat \<Rightarrow> 'w vfst" where
  "joined_at W f1 f2 s1 s2 = AddArc W s1 (Arc 0 0 (One W) (s2 + NumStates f1))
     (fold (append_state W (NumStates f1) f2) [0 ..< NumStates f2] f1)"

definition joined_new :: "('w, 'z) weight_ops_scheme \<Rightarrow> 'w vfst \<Rightarrow> 'w vfst \<Rightarrow> nat \<Rightarrow> nat \<Rightarrow> 'w vfst" where
  "joined_new W f1 f2 s1 s2 =
     (let h = fold (append_state W (NumStates f1) f2) [0 ..< NumStates f2] f1; n = NumStates h
      in AddArc W n (Arc 0 0 (One W) (s2 + NumStates f1))
           (AddArc W n (Arc 0 0 (One W) s1) (SetStart (Some n) (AddState W h))))"

lemma Union_eq:
  assumes "wf_fst f2" "symbols_match flag f1 f2" "start f1 = Some s1" "start f2 = Some s2"
  shows "Union flag W f1 f2 =
    SetPropertiesMask (UnionProperties (Properties f1 kFstProperties) (Properties f2 kFstProperties) False)
      kFstProperties
      (if Properties f1 kInitialAcyclic = kInitialAcyclic then joined_at W f1 f2 s1 s2
       else joined_new W f1 f2 s1 s2)"
  using assms append_loop [OF assms(1), of W f1]
  by (auto simp: Union_def symbols_match_def Let_def joined_at_def joined_new_def)

lemma append_loop_obs:
  fixes W :: "('w, 'z) weight_ops_scheme" and f1 f2 :: "'w vfst"
  assumes "wf_fst f2"
  defines "h \<equiv> fold (append_state W (NumStates f1) f2) [0 ..< NumStates f2] f1"
  shows "NumStates h = NumStates f1 + NumStates f2"
    and "trans h = trans f1 \<union> shifted (NumStates f1) (trans f2)"
    and "r < NumStates f1 \<Longrightarrow> Final h r = Final f1 r"
    and "r < NumStates f2 \<Longrightarrow> Final h (r + NumStates f1) = Final f2 r"
    and "r < NumStates f1 \<Longrightarrow> Arcs h r = Arcs f1 r"
    and "r < NumStates f2 \<Longrightarrow> Arcs h (r + NumStates f1) = map (retarget (\<lambda>t. t + NumStates f1)) (Arcs f2 r)"
    and "start h = start f1"
  using append_loop [OF assms(1), of W f1, folded h_def] trans_appended [of h f1 f2] Final_appended [of h f1 f2]
    Arcs_appended [of h f1 f2] NumStates_def [of h]
  by simp_all

lemma joined_at_obs:
  fixes W :: "('w, 'z) weight_ops_scheme" and f1 f2 :: "'w vfst" and s1 s2 :: nat
  assumes wf: "wf_fst f2" and s: "s1 < NumStates f1" "start f1 = Some s1"
  defines "g \<equiv> joined_at W f1 f2 s1 s2" and "n \<equiv> NumStates f1"
  shows "NumStates g = n + NumStates f2" and "start g = Some s1"
    and "trans g = trans f1 \<union> insert (s1, Arc 0 0 (One W) (s2 + n)) (shifted n (trans f2))"
    and "r < n \<Longrightarrow> Final g r = Final f1 r" and "r < NumStates f2 \<Longrightarrow> Final g (r + n) = Final f2 r"
    and "r < n \<Longrightarrow> Arcs g r = Arcs f1 r @ (if r = s1 then [Arc 0 0 (One W) (s2 + n)] else [])"
    and "r < NumStates f2 \<Longrightarrow> Arcs g (r + n) = map (retarget (\<lambda>t. t + n)) (Arcs f2 r)"
  using s unfolding g_def joined_at_def n_def
  by (simp_all add: append_loop_obs [OF wf] trans_AddArc Arcs_AddArc Un_insert_right)

lemma joined_new_obs:
  fixes W :: "('w, 'z) weight_ops_scheme" and f1 f2 :: "'w vfst" and s1 s2 :: nat
  assumes wf: "wf_fst f2" and s: "s1 < NumStates f1" "start f1 = Some s1"
  defines "g \<equiv> joined_new W f1 f2 s1 s2" and "n \<equiv> NumStates f1" and "m \<equiv> NumStates f1 + NumStates f2"
  shows "NumStates g = Suc m" and "start g = Some m"
    and "trans g = trans f1 \<union> shifted n (trans f2) \<union>
      {(m, Arc 0 0 (One W) s1), (m, Arc 0 0 (One W) (s2 + n))}"
    and "r < n \<Longrightarrow> Final g r = Final f1 r" and "r < NumStates f2 \<Longrightarrow> Final g (r + n) = Final f2 r"
    and "Final g m = Zero W"
    and "r < n \<Longrightarrow> Arcs g r = Arcs f1 r"
    and "r < NumStates f2 \<Longrightarrow> Arcs g (r + n) = map (retarget (\<lambda>t. t + n)) (Arcs f2 r)"
    and "Arcs g m = [Arc 0 0 (One W) s1, Arc 0 0 (One W) (s2 + n)]"
proof -
  define h where "h = fold (append_state W (NumStates f1) f2) [0 ..< NumStates f2] f1"
  have O: "NumStates h = m" "trans h = trans f1 \<union> shifted n (trans f2)"
    "r < n \<Longrightarrow> Final h r = Final f1 r" "r < NumStates f2 \<Longrightarrow> Final h (r + n) = Final f2 r"
    "r < n \<Longrightarrow> Arcs h r = Arcs f1 r"
    "r < NumStates f2 \<Longrightarrow> Arcs h (r + n) = map (retarget (\<lambda>t. t + n)) (Arcs f2 r)" for r
    by (simp_all add: h_def append_loop_obs [OF wf] n_def m_def)
  have g: "g = AddArc W m (Arc 0 0 (One W) (s2 + n))
      (AddArc W m (Arc 0 0 (One W) s1) (SetStart (Some m) (AddState W h)))"
    by (simp add: g_def joined_new_def Let_def O(1) n_def flip: h_def)
  have m: "r < n \<Longrightarrow> r < m" "r < NumStates f2 \<Longrightarrow> r + n < m" for r by (simp_all add: n_def m_def)
  have F: "Final (AddState W h) m = Zero W" "r < m \<Longrightarrow> Final (AddState W h) r = Final h r"
    "Arcs (AddState W h) m = []" "r < m \<Longrightarrow> Arcs (AddState W h) r = Arcs h r" for r
    using obs_AddState(3) [of _ h W] obs_AddState(4) [of W h] Arcs_AddState(1) [of _ h W] Arcs_AddState(2) [of W h] by (simp_all add: O(1))
  show "NumStates g = Suc m" "start g = Some m" by (simp_all add: g O(1))
  show "trans g = trans f1 \<union> shifted n (trans f2) \<union> {(m, Arc 0 0 (One W) s1), (m, Arc 0 0 (One W) (s2 + n))}"
    by (auto simp: g trans_AddArc O(1,2))
  show "r < n \<Longrightarrow> Final g r = Final f1 r" "r < NumStates f2 \<Longrightarrow> Final g (r + n) = Final f2 r" "Final g m = Zero W"
    by (simp_all add: g O F m)
  show "r < n \<Longrightarrow> Arcs g r = Arcs f1 r"
    "r < NumStates f2 \<Longrightarrow> Arcs g (r + n) = map (retarget (\<lambda>t. t + n)) (Arcs f2 r)"
    "Arcs g m = [Arc 0 0 (One W) s1, Arc 0 0 (One W) (s2 + n)]"
    using m [of r] by (auto simp: g Arcs_AddArc O F)
qed

context weight_monoid
begin

text \<open>Union at a start state that has no cycle.\<close>

lemma union_at_start:
  assumes wf: "wf_fst f1" "wf_fst f2" and acyc: "(s1, s1) \<notin> (edges f1)\<^sup>+"
    and s: "s1 < NumStates f1" "s2 < NumStates f2"
    and g: "trans g = trans f1 \<union> (insert (s1, Arc 0 0 (One W) (s2 + NumStates f1))
                         (shifted (NumStates f1) (trans f2)))"
      "NumStates g = NumStates f1 + NumStates f2"
      "\<And>r. r < NumStates f1 \<Longrightarrow> Final g r = Final f1 r"
      "\<And>r. r < NumStates f2 \<Longrightarrow> Final g (r + NumStates f1) = Final f2 r"
    and M: "weights_in M g" "weights_in M f1"
  shows "transduces_from W g s1 x y w \<longleftrightarrow> transduces_from W f1 s1 x y w \<or> transduces_from W f2 s2 x y w"
proof -
  let ?n = "NumStates f1" and ?e = "Arc 0 0 (One W) (s2 + NumStates f1)"
  have right: "transduces_from W g (s2 + ?n) x y w \<longleftrightarrow> transduces_from W f2 s2 x y w" for x y w
    using wf(2) s g by (intro right_part [where T = "insert (s1, ?e) (trans f1)"]) (auto simp: trans_iff)
  have left: "transduces_from W g (nextstate a) x y w \<longleftrightarrow> transduces_from W f1 (nextstate a) x y w"
    if a: "(s1, a) \<in> trans f1" for a x y w
  proof (rule left_part [where R = "{r. (s1, r) \<in> (edges f1)\<^sup>+}"])
    show "nextstate a \<in> {r. (s1, r) \<in> (edges f1)\<^sup>+}" using a edgesI by auto
    show "r < ?n" if "r \<in> {r. (s1, r) \<in> (edges f1)\<^sup>+}" for r
      using that wf_trancl_less [OF wf(1)] by simp
    show "nextstate b \<in> {r. (s1, r) \<in> (edges f1)\<^sup>+}"
      if "r \<in> {r. (s1, r) \<in> (edges f1)\<^sup>+}" "(r, b) \<in> trans f1" for r b
      using that edgesI by (auto intro: trancl_into_trancl)
    show "r \<notin> {r. (s1, r) \<in> (edges f1)\<^sup>+}"
      if T: "(r, b) \<in> insert (s1, ?e) (shifted ?n (trans f2))" for r b
    proof
      assume r: "r \<in> {r. (s1, r) \<in> (edges f1)\<^sup>+}"
      then have "r < ?n" using wf_trancl_less [OF wf(1)] by simp
      then have "r = s1" using T wf_shifted [OF wf(2), of r b ?n] by auto
      then show False using r acyc by simp
    qed
  qed (use g in auto)
  have fin: "final_state W g s1 = final_state W f1 s1" "Final g s1 = Final f1 s1"
    using s g by (auto simp: final_state_def)
  have "(s1, a) \<in> trans g \<longleftrightarrow> (s1, a) \<in> trans f1 \<or> a = ?e" for a
    using s wf_shifted [OF wf(2), of s1 a ?n] by (auto simp: g)
  moreover have "transduces_via W g a x y w = transduces_via W f1 a x y w" if "(s1, a) \<in> trans f1" for a
    using left [OF that] by (rule transduces_via_cong)
  ultimately have "transduces_from W g s1 x y w \<longleftrightarrow>
      transduces_from W f1 s1 x y w \<or> transduces_via W g ?e x y w"
    unfolding transduces_from_unfold [OF M(1), of s1] transduces_from_unfold [OF M(2), of s1] fin by blast
  then show ?thesis using transduces_via_eps [OF M(1)] right by simp
qed

text \<open>Union with a new start state.\<close>

lemma union_new_start:
  assumes wf: "wf_fst f1" "wf_fst f2" and s: "s1 < NumStates f1" "s2 < NumStates f2"
    and g: "trans g = trans f1 \<union> shifted (NumStates f1) (trans f2) \<union>
        {(n, Arc 0 0 (One W) s1), (n, Arc 0 0 (One W) (s2 + NumStates f1))}"
      "n = NumStates f1 + NumStates f2" "NumStates g = Suc n"
      "\<And>r. r < NumStates f1 \<Longrightarrow> Final g r = Final f1 r"
      "\<And>r. r < NumStates f2 \<Longrightarrow> Final g (r + NumStates f1) = Final f2 r" "Final g n = Zero W"
    and M: "weights_in M g"
  shows "transduces_from W g n x y w \<longleftrightarrow> transduces_from W f1 s1 x y w \<or> transduces_from W f2 s2 x y w"
proof -
  let ?n = "NumStates f1"
  let ?e1 = "Arc 0 0 (One W) s1" and ?e2 = "Arc 0 0 (One W) (s2 + NumStates f1)"
  have right: "transduces_from W g (s2 + ?n) x y w \<longleftrightarrow> transduces_from W f2 s2 x y w"
    using wf(2) s g by (intro right_part [where T = "{(n, ?e1), (n, ?e2)} \<union> trans f1"]) (auto simp: trans_iff)
  have left: "transduces_from W g s1 x y w \<longleftrightarrow> transduces_from W f1 s1 x y w"
    using s g wf_shifted [OF wf(2), of _ _ ?n] wf_trans [OF wf(1)]
    by (intro left_part [where R = "{r. r < ?n}" and T = "shifted ?n (trans f2) \<union> {(n, ?e1), (n, ?e2)}"]) force+
  have "(n, a) \<in> trans g \<longleftrightarrow> a = ?e1 \<or> a = ?e2" for a
    using wf_shifted [OF wf(2), of n a ?n] by (auto simp: g(1) trans_iff) (auto simp: g(2))
  moreover have "\<not> final_state W g n" using g(6) by (simp add: final_state_def Weq_Zero_Zero)
  ultimately have "transduces_from W g n x y w \<longleftrightarrow> transduces_via W g ?e1 x y w \<or> transduces_via W g ?e2 x y w"
    unfolding transduces_from_unfold [OF M, of n] by auto
  then show ?thesis using transduces_via_eps [OF M] left right by simp
qed

lemma weights_in_joined:
  assumes "wf_fst f2" "weights_in M f1" "weights_in M f2" "s1 < NumStates f1"
  shows "weights_in M (joined_at W f1 f2 s1 s2)" and "weights_in M (joined_new W f1 f2 s1 s2)"
proof -
  let ?h = "fold (append_state W (NumStates f1) f2) [0 ..< NumStates f2] f1"
  have Mh: "weights_in M ?h"
    using weights_in_appended [OF assms(2,3) append_loop(1) [OF assms(1)]] .
  then show "weights_in M (joined_at W f1 f2 s1 s2)"
    using assms(4) unfolding joined_at_def
    by (intro weights_in_AddArc) (auto simp: M_One append_loop_obs [OF assms(1)])
  have "weights_in M (SetStart (Some (NumStates ?h)) (AddState W ?h))"
    using weights_in_AddState [OF Mh M_Zero] by (simp add: weights_in_def)
  then show "weights_in M (joined_new W f1 f2 s1 s2)"
    unfolding joined_new_def Let_def by (intro weights_in_AddArc) (auto simp: M_One)
qed

lemma union_transduces:
  assumes wf: "wf_fst f1" "wf_fst f2" and M: "weights_in M f1" "weights_in M f2"
    and p: "props_sound W f1 (properties f1)" and sym: "symbols_match flag f1 f2"
  shows "transduces W (Union flag W f1 f2) x y w \<longleftrightarrow> transduces W f1 x y w \<or> transduces W f2 x y w"
proof (cases "start f2"; cases "start f1")
  fix s2 assume s: "start f2 = Some s2" "start f1 = None"
  let ?n = "NumStates f1"
  let ?h = "fold (append_state W ?n f2) [0 ..< NumStates f2] f1"
  note h = append_loop_obs [OF wf(2)]
  have "transduces_from W ?h (s2 + ?n) x y w \<longleftrightarrow> transduces_from W f2 s2 x y w"
    using wf wf_start [OF wf(2) s(1)] by (intro right_part [where T = "trans f1"]) (auto simp: h trans_iff)
  moreover have "transduces W (SetStart (Some (s2 + ?n)) ?h) x y w = transduces_from W ?h (s2 + ?n) x y w"
    by (auto simp: transduces_def transduces_from_def path_tpath final_state_def)
  ultimately show ?thesis
    using sym s by (auto simp: h(7) Union_def symbols_match_def Let_def transduces_def [of W f1] transduces_def [of W f2])
next
  fix s1 s2 assume s: "start f2 = Some s2" "start f1 = Some s1"
  have n: "s1 < NumStates f1" "s2 < NumStates f2" using wf_start wf s by auto
  note Mg = weights_in_joined [OF wf(2) M n(1), of s2]
  show ?thesis
  proof (cases "Properties f1 kInitialAcyclic = kInitialAcyclic")
    case True
    then show ?thesis
      using s sym union_at_start [OF wf sound_initial_acyclic [OF p True s(2)] n
          joined_at_obs(3,1,4,5) [OF wf(2) n(1) s(2)] Mg(1) M(1)]
      by (simp add: Union_eq wf transduces_def joined_at_obs [OF wf(2) n(1) s(2)])
  next
    case False
    then show ?thesis
      using s sym union_new_start [OF wf n joined_new_obs(3) [OF wf(2) n(1) s(2)] refl
          joined_new_obs(1,4-6) [OF wf(2) n(1) s(2)] Mg(2)]
      by (simp add: Union_eq wf transduces_def joined_new_obs [OF wf(2) n(1) s(2)])
  qed
qed (use sym in \<open>simp_all add: Union_def symbols_match_def Let_def transduces_def [of W f2]\<close>)

end

section \<open>Concatenation\<close>

context weight_monoid
begin

text \<open>
  A machine \<open>g\<close> that contains \<open>f1\<close> (renamed by \<open>\<phi>\<close>), in which each final state of \<open>f1\<close> is no longer
  final and has an epsilon arc, with the final weight, to a state \<open>q\<close> instead.
\<close>

lemma concat_bridge:
  assumes M: "weights_in M f1" "weights_in M g"
    and arcs: "\<And>r b. r < NumStates f1 \<Longrightarrow> (\<phi> r, b) \<in> trans g \<longleftrightarrow>
      (\<exists>a. (r, a) \<in> trans f1 \<and> b = retarget \<phi> a) \<or> final_state W f1 r \<and> b = Arc 0 0 (Final f1 r) q"
    and nofin: "\<And>r. r < NumStates f1 \<Longrightarrow> \<not> final_state W g (\<phi> r)"
    and wf: "wf_fst f1" and s: "s < NumStates f1"
  shows "transduces_from W g (\<phi> s) x y w \<longleftrightarrow>
    (\<exists>x1 y1 w1 x2 y2 w2. transduces_from W f1 s x1 y1 w1 \<and> transduces_from W g q x2 y2 w2 \<and>
      x = x1 @ x2 \<and> y = y1 @ y2 \<and> w = Times W w1 w2)"
proof
  define u where "u = \<phi> s"
  assume "transduces_from W g (\<phi> s) x y w"
  then have "transduces_from W g u x y w" by (simp add: u_def)
  with M(2) have "\<forall>r < NumStates f1. u = \<phi> r \<longrightarrow>
      (\<exists>x1 y1 w1 x2 y2 w2. transduces_from W f1 r x1 y1 w1 \<and> transduces_from W g q x2 y2 w2 \<and>
        x = x1 @ x2 \<and> y = y1 @ y2 \<and> w = Times W w1 w2)" 
  proof (induction rule: transduces_from_induct)
    case (stop u)
    then show ?case using nofin by auto
  next
    case (step u b x y w)
    show ?case
    proof (intro allI impI)
      fix s assume s: "s < NumStates f1" "u = \<phi> s"
      then consider a where "(s, a) \<in> trans f1" "b = retarget \<phi> a"
        | "final_state W f1 s" "b = Arc 0 0 (Final f1 s) q"
        using step(1) arcs by auto
      then show "\<exists>x1 y1 w1 x2 y2 w2. transduces_from W f1 s x1 y1 w1 \<and> transduces_from W g q x2 y2 w2 \<and>
          istring [b] @ x = x1 @ x2 \<and> ostring [b] @ y = y1 @ y2 \<and> Times W (weight b) w = Times W w1 w2"
      proof cases
        case a: 1
        then obtain x1 y1 w1 x2 y2 w2 where *: "transduces_from W f1 (nextstate a) x1 y1 w1"
          "transduces_from W g q x2 y2 w2" "x = x1 @ x2" "y = y1 @ y2" "w = Times W w1 w2"
          using step(3) wf_trans [OF wf a(1)] by auto
        have "M (weight a)" "M w1" "M w2"
          using weights_in_trans [OF M(1) a(1)] M_transduces_from [OF M(1) *(1)] M_transduces_from [OF M(2) *(2)]
          by auto
        then show ?thesis using transduces_from_step [OF M(1) a(1) *(1)] * a(2)
          by (intro exI [of _ "istring [a] @ x1"] exI [of _ "ostring [a] @ y1"] exI [of _ "Times W (weight a) w1"]
              exI [of _ x2] exI [of _ y2] exI [of _ w2]) (simp add: Times_assoc)
      next
        case 2: 2
        then show ?thesis using transduces_from_stop [OF M(1) 2(1)] \<open>transduces_from W g (nextstate b) x y w\<close>
          by (intro exI [of _ "[]"] exI [of _ "Final f1 s"] exI [of _ x] exI [of _ y] exI [of _ w]) simp
      qed
    qed
  qed
  then show "\<exists>x1 y1 w1 x2 y2 w2. transduces_from W f1 s x1 y1 w1 \<and> transduces_from W g q x2 y2 w2 \<and>
      x = x1 @ x2 \<and> y = y1 @ y2 \<and> w = Times W w1 w2" using s u_def by blast
next
  assume "\<exists>x1 y1 w1 x2 y2 w2. transduces_from W f1 s x1 y1 w1 \<and> transduces_from W g q x2 y2 w2 \<and>
      x = x1 @ x2 \<and> y = y1 @ y2 \<and> w = Times W w1 w2"
  then obtain x1 y1 w1 x2 y2 w2 where *: "transduces_from W f1 s x1 y1 w1" "transduces_from W g q x2 y2 w2"
      "x = x1 @ x2" "y = y1 @ y2" "w = Times W w1 w2" by blast
  from M(1) *(1) have "transduces_from W g (\<phi> s) (x1 @ x2) (y1 @ y2) (Times W w1 w2)"
  proof (induction rule: transduces_from_induct)
    case (stop r)
    then have "(\<phi> r, Arc 0 0 (Final f1 r) q) \<in> trans g" using arcs by (auto simp: final_state_def)
    from transduces_from_step [OF M(2) this] *(2) show ?case by simp
  next
    case (step r a x1 y1 w1)
    then have "(\<phi> r, retarget \<phi> a) \<in> trans g" using arcs by (auto simp: trans_iff)
    from transduces_from_step [OF M(2) this, of "x1 @ x2" "y1 @ y2" "Times W w1 w2"] step(3)
    have "transduces_from W g (\<phi> r) (istring [a] @ x1 @ x2) (ostring [a] @ y1 @ y2) (Times W (weight a) (Times W w1 w2))"
      by (simp split: if_splits)
    moreover have "M (weight a)" "M w1" "M w2"
      using weights_in_trans [OF M(1) step(1)] M_transduces_from [OF M(1) step(2)] M_transduces_from [OF M(2) *(2)]
      by auto
    ultimately show ?case by (simp add: Times_assoc)
  qed
  then show "transduces_from W g (\<phi> s) x y w" using * by simp
qed

end

text \<open>Loops that update each state on its own.\<close>

lemma fold_update_states:
  assumes "\<And>f s. s < length (states f) \<Longrightarrow> states (step s f) = (states f)[s := u (states f ! s)]"
    and "m \<le> length (states f)"
  shows "states (fold step [0 ..< m] f) = map u (take m (states f)) @ drop m (states f)"
  using assms(2)
proof (induction m)
  case (Suc m)
  then have "states (fold step [0 ..< Suc m] f) =
      (map u (take m (states f)) @ drop m (states f))[m := u (states f ! m)]"
    by (simp add: assms(1) nth_append)
  also have "\<dots> = map u (take (Suc m) (states f)) @ drop (Suc m) (states f)"
    using Suc.prems
    by (simp add: take_Suc_conv_app_nth list_update_append Cons_nth_drop_Suc [symmetric, of m])
  finally show ?case .
qed simp

definition concat_state :: "('w, 'z) weight_ops_scheme \<Rightarrow> nat option \<Rightarrow> 'w vstate \<Rightarrow> 'w vstate" where
  "concat_state W q st =
     (if Weq W (final_weight st) (Zero W) then st
      else case q of
             None \<Rightarrow> st\<lparr>final_weight := Zero W\<rparr>
           | Some q \<Rightarrow> StateAddArc (Arc 0 0 (final_weight st) q) (st\<lparr>final_weight := Zero W\<rparr>))"

lemma states_concat_final:
  "s < length (states f) \<Longrightarrow> states (concat_final W q n s f) =
    (states f)[s := concat_state W (map_option (\<lambda>q. q + n) q) (states f ! s)]"
  by (auto simp: concat_final_def concat_state_def Let_def Final_def split: option.split)

lemma start_concat_final [simp]: "start (concat_final W q n s f) = start f"
  by (auto simp: concat_final_def Let_def split: option.split)

lemma start_fold_concat_final [simp]: "start (fold (concat_final W q n) xs f) = start f"
  by (induction xs arbitrary: f) simp_all

definition concatenated :: "('w, 'z) weight_ops_scheme \<Rightarrow> 'w vfst \<Rightarrow> 'w vfst \<Rightarrow> 'w vfst" where
  "concatenated W f1 f2 = fold (concat_final W (start f2) (NumStates f1)) [0 ..< NumStates f1]
     (fold (append_state W (NumStates f1) f2) [0 ..< NumStates f2] f1)"

lemma Concat_eq:
  assumes "symbols_match flag f1 f2"
  shows "start f1 = None \<Longrightarrow> states (Concat flag W f1 f2) = states f1 \<and> start (Concat flag W f1 f2) = None"
    and "start f1 = Some s1 \<Longrightarrow> start f2 = Some s2 \<Longrightarrow> Concat flag W f1 f2 =
      SetPropertiesMask (ConcatProperties (Properties f1 kFstProperties) (Properties f2 kFstProperties) False)
        kFstProperties (concatenated W f1 f2)"
    and "start f1 = Some s1 \<Longrightarrow> start f2 = None \<Longrightarrow> Concat flag W f1 f2 =
      (if has (Properties f2 kFstProperties) kError then SetPropertiesMask kError kError (concatenated W f1 f2)
       else concatenated W f1 f2)"
  using assms by (simp_all add: Concat_def symbols_match_def Let_def concatenated_def)

lemma states_concatenated:
  assumes "wf_fst f2"
  shows "states (concatenated W f1 f2) =
      map (concat_state W (map_option (\<lambda>q. q + NumStates f1) (start f2))) (states f1) @
      map (shift_state (NumStates f1)) (states f2)"
    and "start (concatenated W f1 f2) = start f1"
proof -
  let ?h = "fold (append_state W (NumStates f1) f2) [0 ..< NumStates f2] f1"
  note h = append_loop [OF assms, of W f1]
  have "states (fold (concat_final W (start f2) (NumStates f1)) [0 ..< NumStates f1] ?h) =
      map (concat_state W (map_option (\<lambda>q. q + NumStates f1) (start f2))) (take (NumStates f1) (states ?h)) @
      drop (NumStates f1) (states ?h)"
    by (rule fold_update_states) (simp_all add: states_concat_final h)
  then show "states (concatenated W f1 f2) =
      map (concat_state W (map_option (\<lambda>q. q + NumStates f1) (start f2))) (states f1) @
      map (shift_state (NumStates f1)) (states f2)"
    unfolding concatenated_def h by (simp add: appended_def NumStates_def)
  show "start (concatenated W f1 f2) = start f1" by (simp add: concatenated_def h)
qed

lemma concatenated_obs:
  fixes W :: "('w, 'z) weight_ops_scheme" and f1 f2 :: "'w vfst"
  assumes wf: "wf_fst f2" and Z: "Weq W (Zero W) (Zero W)"
  defines "g \<equiv> concatenated W f1 f2" and "n \<equiv> NumStates f1"
  shows "NumStates g = n + NumStates f2"
    and "\<And>r. r < n \<Longrightarrow> Arcs g r = Arcs f1 r @
      (if final_state W f1 r then (case start f2 of None \<Rightarrow> [] | Some s2 \<Rightarrow> [Arc 0 0 (Final f1 r) (s2 + n)]) else [])"
    and "\<And>r. r < NumStates f2 \<Longrightarrow> Arcs g (r + n) = map (retarget (\<lambda>t. t + n)) (Arcs f2 r)"
    and "\<And>r. r < n \<Longrightarrow> Weq W (Final g r) (Zero W)"
    and "\<And>r. r < NumStates f2 \<Longrightarrow> Final g (r + n) = Final f2 r"
  using states_concatenated(1) [OF wf, of W f1] Z
  by (simp_all add: NumStates_def n_def g_def Arcs_def Final_def final_state_def nth_append
      shift_arc_retarget concat_state_def split: option.split)

lemma trans_concatenated:
  fixes W :: "('w, 'z) weight_ops_scheme" and f1 f2 :: "'w vfst"
  assumes wf: "wf_fst f2" and Z: "Weq W (Zero W) (Zero W)" and s2: "start f2 = Some s2"
  defines "g \<equiv> concatenated W f1 f2" and "n \<equiv> NumStates f1"
  shows "trans g = trans f1 \<union> shifted n (trans f2) \<union>
    {(r, b). final_state W f1 r \<and> b = Arc 0 0 (Final f1 r) (s2 + n)}"
proof (rule set_eqI, clarify)
  fix s :: nat and a
  note O = concatenated_obs [OF wf Z, where ?f1.0 = f1, folded g_def n_def]
  show "(s, a) \<in> trans g \<longleftrightarrow> (s, a) \<in> trans f1 \<union> shifted n (trans f2) \<union>
    {(r, b). final_state W f1 r \<and> b = Arc 0 0 (Final f1 r) (s2 + n)}"
  proof (cases "s < n")
    case True
    have "a \<in> set (Arcs g s) \<longleftrightarrow> a \<in> set (Arcs f1 s) \<or> final_state W f1 s \<and> a = Arc 0 0 (Final f1 s) (s2 + n)"
      using O(2) [OF True] s2 by (cases "final_state W f1 s") auto
    moreover have "(s, a) \<notin> shifted n (trans f2)" using True by (auto simp: shifted_iff)
    moreover have "s < NumStates g" "s < NumStates f1" using True by (simp_all add: O(1) n_def)
    ultimately show ?thesis by (simp add: trans_iff)
  next
    case False
    then obtain r where "s = r + n" by (metis add.commute le_Suc_ex not_less)
    then show ?thesis using O(3) [of r]
      by (auto simp: trans_iff O(1) shifted_add n_def final_state_def)
  qed
qed

lemma weights_in_concatenated:
  assumes "weights_in M f1" "weights_in M f2" "wf_fst f2" "M (Zero W)"
  shows "weights_in M (concatenated W f1 f2)"
  using assms by (auto simp: weights_in_def states_concatenated concat_state_def shift_arc_def
      split: option.splits if_splits)

context weight_monoid
begin

lemma concat_transduces:
  assumes wf: "wf_fst f1" "wf_fst f2" and M: "weights_in M f1" "weights_in M f2"
    and sym: "symbols_match flag f1 f2"
  shows "transduces W (Concat flag W f1 f2) x y w \<longleftrightarrow>
    (\<exists>x1 y1 w1 x2 y2 w2. transduces W f1 x1 y1 w1 \<and> transduces W f2 x2 y2 w2 \<and>
      x = x1 @ x2 \<and> y = y1 @ y2 \<and> w = Times W w1 w2)"
proof (cases "start f1"; cases "start f2")
  let ?g = "concatenated W f1 f2" and ?n = "NumStates f1"
  note O = concatenated_obs [OF wf(2) Weq_Zero_Zero, where ?f1.0 = f1]
  have nofin: "\<not> final_state W ?g r" if "r < ?n" for r using O(4) that by (simp add: final_state_def)
  fix s1 assume s1: "start f1 = Some s1"
  then have n1: "s1 < ?n" using wf_start wf by auto
  { fix s2 assume s2: "start f2 = Some s2"
    then have n2: "s2 < NumStates f2" using wf_start wf by auto
    note T = trans_concatenated [OF wf(2) Weq_Zero_Zero s2, of f1]
    have "transduces_from W ?g (s2 + ?n) x y w \<longleftrightarrow> transduces_from W f2 s2 x y w" for x y w
      using n2 wf by (intro right_part [where T = "trans f1 \<union>
            {(r, b). final_state W f1 r \<and> b = Arc 0 0 (Final f1 r) (s2 + ?n)}"])
        (auto simp: T O trans_iff final_state_def)
    moreover have "transduces_from W ?g s1 x y w \<longleftrightarrow>
      (\<exists>x1 y1 w1 x2 y2 w2. transduces_from W f1 s1 x1 y1 w1 \<and> transduces_from W ?g (s2 + ?n) x2 y2 w2 \<and>
        x = x1 @ x2 \<and> y = y1 @ y2 \<and> w = Times W w1 w2)"
      using wf n1 nofin weights_in_concatenated [OF M wf(2) M_Zero]
      by (intro concat_bridge [where \<phi> = "\<lambda>s. s", OF M(1)]) (auto simp: T shifted_iff)
    ultimately show ?thesis
      using s1 s2 sym by (simp add: Concat_eq transduces_def states_concatenated(2) [OF wf(2)]) }
  { assume s2: "start f2 = None"
    have "(r, a) \<in> trans ?g \<Longrightarrow> r < ?n \<Longrightarrow> (r, a) \<in> trans f1" for r a
      using O(2) [of r] by (cases "final_state W f1 r") (simp_all add: trans_iff s2)
    then have "tpath (trans ?g) s1 as t \<Longrightarrow> t < ?n" for as t
      using tpath_stay [of "trans ?g" s1 as t "{r. r < ?n}" "trans f1"] n1 wf_trans [OF wf(1)] by auto
    then have "\<not> transduces_from W ?g s1 x y w"
      using nofin by (auto simp: transduces_from_def path_tpath)
    then show ?thesis using s1 s2 sym
      by (auto simp: Concat_eq(3) transduces_def states_concatenated(2) [OF wf(2)]) }
qed (use sym in \<open>auto simp: Concat_eq(1) transduces_def\<close>)

end

end
