(* ===== verification/RationalLeft.thy ===== *)
theory RationalLeft
  imports Rational
begin

text \<open>
  Correctness of the second form of \<open>Concat\<close>, which prepends to a mutable FST, and of \<open>Closure\<close>.
\<close>

section \<open>Concat into the second argument\<close>

definition prep_state ::
  "('w, 'z) weight_ops_scheme \<Rightarrow> nat \<Rightarrow> nat \<Rightarrow> 'w vstate \<Rightarrow> 'w vstate" where
  "prep_state W n s2 st = fold StateAddArc
     ((if Weq W (final_weight st) (Zero W) then [] else [Arc 0 0 (final_weight st) s2]) @
      map (shift_arc n) (arcs st)) (VectorState W)"

lemma prep_state_sel [simp]:
  "final_weight (prep_state W n s2 st) = Zero W"
  "arcs (prep_state W n s2 st) =
     (if Weq W (final_weight st) (Zero W) then [] else [Arc 0 0 (final_weight st) s2]) @
     map (shift_arc n) (arcs st)"
  "eps_counts_ok (prep_state W n s2 st)"
  using fold_StateAddArc(3) [OF eps_counts_VectorState [of W]]
  by (simp_all add: prep_state_def fold_StateAddArc del: fold_append) (simp_all add: VectorState_def)

lemma states_prepend_state:
  "states (prepend_state W n s2 f1 s f) = states f @ [prep_state W n s2 (states f1 ! s)]"
  "start (prepend_state W n s2 f1 s f) = start f"
  by (simp_all add: prepend_state_def Let_def states_fold_AddArc NumStates_def nth_append list_update_append
      prep_state_def Final_def Arcs_def)

lemma states_prepend_loop:
  "m \<le> NumStates f1 \<Longrightarrow>
    states (fold (prepend_state W n s2 f1) [0 ..< m] f) = states f @ map (prep_state W n s2) (take m (states f1)) \<and>
    start (fold (prepend_state W n s2 f1) [0 ..< m] f) = start f"
  by (induction m) (simp_all add: states_prepend_state take_Suc_conv_app_nth NumStates_def)

definition prepended :: "('w, 'z) weight_ops_scheme \<Rightarrow> nat \<Rightarrow> 'w vfst \<Rightarrow> 'w vfst \<Rightarrow> 'w vfst" where
  "prepended W s2 f1 f2 = fold (prepend_state W (NumStates f2) s2 f1) [0 ..< NumStates f1] f2"

lemma ConcatLeft_eq:
  assumes "symbols_match flag f1 f2"
  shows "start f2 = None \<Longrightarrow> states (ConcatLeft flag W f1 f2) = states f2 \<and> start (ConcatLeft flag W f1 f2) = None"
    and "start f1 = Some s1 \<Longrightarrow> start f2 = Some s2 \<Longrightarrow> ConcatLeft flag W f1 f2 =
      SetPropertiesMask (ConcatProperties (Properties f1 kFstProperties) (Properties f2 kFstProperties) False)
        kFstProperties (SetStart (Some (s1 + NumStates f2)) (prepended W s2 f1 f2))"
    and "start f1 = None \<Longrightarrow> start f2 = Some s2 \<Longrightarrow> ConcatLeft flag W f1 f2 =
      (if has (Properties f1 kFstProperties) kError then SetPropertiesMask kError kError (prepended W s2 f1 f2)
       else SetStart (Some (NumStates (prepended W s2 f1 f2))) (AddState W (prepended W s2 f1 f2)))"
  using assms by (simp_all add: ConcatLeft_def symbols_match_def Let_def prepended_def)

lemma states_prepended:
  "states (prepended W s2 f1 f2) = states f2 @ map (prep_state W (NumStates f2) s2) (states f1)"
  "start (prepended W s2 f1 f2) = start f2"
  using states_prepend_loop [of "NumStates f1" f1 W "NumStates f2" s2 f2]
  by (simp_all add: prepended_def NumStates_def)

lemma prepended_obs:
  fixes W :: "('w, 'z) weight_ops_scheme" and f1 f2 :: "'w vfst" and s2 :: nat
  defines "g \<equiv> prepended W s2 f1 f2" and "n \<equiv> NumStates f2"
  shows "NumStates g = n + NumStates f1"
    and "\<And>r. r < n \<Longrightarrow> Arcs g r = Arcs f2 r" and "\<And>r. r < n \<Longrightarrow> Final g r = Final f2 r"
    and "\<And>r. r < NumStates f1 \<Longrightarrow> Arcs g (r + n) =
      (if final_state W f1 r then [Arc 0 0 (Final f1 r) s2] else []) @ map (retarget (\<lambda>t. t + n)) (Arcs f1 r)"
    and "\<And>r. r < NumStates f1 \<Longrightarrow> Final g (r + n) = Zero W"
  using states_prepended(1) [of W s2 f1 f2]
  by (simp_all add: NumStates_def n_def g_def Arcs_def Final_def final_state_def nth_append shift_arc_retarget)

lemma trans_prepended:
  fixes W :: "('w, 'z) weight_ops_scheme" and f1 f2 :: "'w vfst" and s2 :: nat
  defines "g \<equiv> prepended W s2 f1 f2" and "n \<equiv> NumStates f2"
  shows "trans g = trans f2 \<union> shifted n (trans f1) \<union>
    {(u, b). \<exists>r. u = r + n \<and> final_state W f1 r \<and> b = Arc 0 0 (Final f1 r) s2}"
proof (rule set_eqI, clarify)
  fix s :: nat and a
  note O = prepended_obs [where W = W and ?f1.0 = f1 and ?f2.0 = f2 and ?s2.0 = s2, folded g_def n_def]
  show "(s, a) \<in> trans g \<longleftrightarrow> (s, a) \<in> trans f2 \<union> shifted n (trans f1) \<union>
    {(u, b). \<exists>r. u = r + n \<and> final_state W f1 r \<and> b = Arc 0 0 (Final f1 r) s2}"
  proof (cases "s < n")
    case True
    then show ?thesis by (auto simp: trans_iff O shifted_iff n_def)
  next
    case False
    then obtain r where s: "s = r + n" by (metis add.commute le_Suc_ex not_less)
    have "a \<in> set (Arcs g s) \<longleftrightarrow> a \<in> retarget (\<lambda>t. t + n) ` set (Arcs f1 r) \<or>
        final_state W f1 r \<and> a = Arc 0 0 (Final f1 r) s2" if "r < NumStates f1"
      using O(4) [OF that] s by (cases "final_state W f1 r") auto
    then show ?thesis
      by (auto simp: s trans_iff O(1) shifted_add n_def final_state_def)
  qed
qed

lemma weights_in_prepended:
  assumes "weights_in M f1" "weights_in M f2" "M (Zero W)"
  shows "weights_in M (prepended W s2 f1 f2)"
  using assms by (auto simp: weights_in_def states_prepended shift_arc_def split: if_splits)

context weight_monoid
begin

lemma concat_left_transduces:
  assumes wf: "wf_fst f1" "wf_fst f2" and M: "weights_in M f1" "weights_in M f2"
    and sym: "symbols_match flag f1 f2" and err: "\<not> has (Properties f1 kFstProperties) kError"
  shows "transduces W (ConcatLeft flag W f1 f2) x y w \<longleftrightarrow>
    (\<exists>x1 y1 w1 x2 y2 w2. transduces W f1 x1 y1 w1 \<and> transduces W f2 x2 y2 w2 \<and>
      x = x1 @ x2 \<and> y = y1 @ y2 \<and> w = Times W w1 w2)"
proof (cases "start f1"; cases "start f2")
  let ?n = "NumStates f2"
  fix s2 assume s2: "start f2 = Some s2"
  let ?g = "prepended W s2 f1 f2"
  note O = prepended_obs [where W = W and ?f1.0 = f1 and ?f2.0 = f2 and ?s2.0 = s2]
  note T = trans_prepended [where W = W and ?f1.0 = f1 and ?f2.0 = f2 and ?s2.0 = s2]
  from s2 have n2: "s2 < ?n" using wf_start wf by auto
  { fix s1 assume s1: "start f1 = Some s1"
    then have n1: "s1 < NumStates f1" using wf_start wf by auto
    have "transduces_from W ?g s2 x y w \<longleftrightarrow> transduces_from W f2 s2 x y w" for x y w
      using n2 wf_trans [OF wf(2)]
      by (intro left_part [where R = "{r. r < ?n}" and T = "shifted ?n (trans f1) \<union>
            {(u, b). \<exists>r. u = r + ?n \<and> final_state W f1 r \<and> b = Arc 0 0 (Final f1 r) s2}"])
        (auto simp: T O shifted_iff)
    moreover have "transduces_from W ?g (s1 + ?n) x y w \<longleftrightarrow>
      (\<exists>x1 y1 w1 x2 y2 w2. transduces_from W f1 s1 x1 y1 w1 \<and> transduces_from W ?g s2 x2 y2 w2 \<and>
        x = x1 @ x2 \<and> y = y1 @ y2 \<and> w = Times W w1 w2)"
      using wf n1 weights_in_prepended [OF M M_Zero] Weq_Zero_Zero
      by (intro concat_bridge [where \<phi> = "\<lambda>s. s + ?n", OF M(1)])
        (auto simp: T shifted_add trans_iff [of _ _ f2] final_state_def [of _ ?g] O(5))
    moreover have "transduces_from W (SetStart i ?g) s x y w = transduces_from W ?g s x y w" for i s
      by (simp add: transduces_from_def path_tpath final_state_def)
    ultimately show ?thesis using s1 s2 sym by (simp add: ConcatLeft_eq transduces_def) }
  { assume s1: "start f1 = None"
    let ?k = "SetStart (Some (NumStates ?g)) (AddState W ?g)"
    have "tpath (trans ?k) (NumStates ?g) as t \<Longrightarrow> t = NumStates ?g" for as t
      by (cases as) (auto simp: trans_iff)
    moreover have "\<not> final_state W ?k (NumStates ?g)" by (simp add: final_state_def Weq_Zero_Zero)
    ultimately have "\<not> transduces_from W ?k (NumStates ?g) x y w"
      unfolding transduces_from_def path_tpath by blast
    then show ?thesis using s1 s2 sym err by (simp add: ConcatLeft_eq transduces_def) }
qed (use sym in \<open>auto simp: ConcatLeft_eq(1) transduces_def\<close>)

end

section \<open>Closure\<close>

text \<open>\<open>iterated W f\<close>: one or more transductions of \<open>f\<close>, one after the other.\<close>

inductive iterated ::
  "('w, 'z) weight_ops_scheme \<Rightarrow> 'w vfst \<Rightarrow> int list \<Rightarrow> int list \<Rightarrow> 'w \<Rightarrow> bool" for W f where
  once: "transduces W f x y w \<Longrightarrow> iterated W f x y w"
| more: "transduces W f x y w \<Longrightarrow> iterated W f x' y' w' \<Longrightarrow>
    iterated W f (x @ x') (y @ y') (Times W w w')"

definition closure_state :: "('w, 'z) weight_ops_scheme \<Rightarrow> nat \<Rightarrow> 'w vstate \<Rightarrow> 'w vstate" where
  "closure_state W s0 st =
     (if Weq W (final_weight st) (Zero W) then st else StateAddArc (Arc 0 0 (final_weight st) s0) st)"

definition looped :: "('w, 'z) weight_ops_scheme \<Rightarrow> 'w vfst \<Rightarrow> 'w vfst" where
  "looped W f = (case start f of None \<Rightarrow> f | Some s0 \<Rightarrow> fold (closure_final W s0) [0 ..< NumStates f] f)"

definition starred :: "('w, 'z) weight_ops_scheme \<Rightarrow> 'w vfst \<Rightarrow> 'w vfst" where
  "starred W f =
     (let h = looped W f; n = NumStates h;
          k = SetFinal W n (One W) (SetStart (Some n) (AddState W h))
      in case start f of None \<Rightarrow> k | Some s0 \<Rightarrow> AddArc W n (Arc 0 0 (One W) s0) k)"

lemma Closure_eq:
  "Closure W t f = SetPropertiesMask
     (ClosureProperties (Properties f kFstProperties) (t = CLOSURE_STAR) False) kFstProperties
     (if t = CLOSURE_STAR then starred W f else looped W f)"
  by (simp add: Closure_def looped_def starred_def Let_def)

lemma states_closure_final:
  "s < length (states f) \<Longrightarrow> states (closure_final W s0 s f) = (states f)[s := closure_state W s0 (states f ! s)]"
  by (auto simp: closure_final_def closure_state_def Let_def Final_def)

lemma start_fold_closure_final: "start (fold (closure_final W s0) xs f) = start f"
  by (induction xs arbitrary: f) (simp_all add: closure_final_def Let_def)

lemma states_looped:
  "states (looped W f) = (case start f of None \<Rightarrow> states f | Some s0 \<Rightarrow> map (closure_state W s0) (states f))"
  "start (looped W f) = start f"
  using fold_update_states [of "closure_final W s0" "closure_state W s0" "NumStates f" f for s0,
      OF states_closure_final]
  by (auto simp: looped_def NumStates_def start_fold_closure_final split: option.split)

lemma looped_obs:
  fixes W :: "('w, 'z) weight_ops_scheme" and f :: "'w vfst"
  defines "g \<equiv> looped W f"
  shows "NumStates g = NumStates f" and "\<And>r. r < NumStates f \<Longrightarrow> Final g r = Final f r"
    and "\<And>r. r < NumStates f \<Longrightarrow> Arcs g r = Arcs f r @
      (case start f of None \<Rightarrow> [] | Some s0 \<Rightarrow> if final_state W f r then [Arc 0 0 (Final f r) s0] else [])"
  using states_looped(1) [of W f]
  by (simp_all add: NumStates_def g_def Arcs_def Final_def final_state_def closure_state_def split: option.split)

lemma trans_looped:
  "trans (looped W f) = trans f \<union> {(r, b). \<exists>s0. start f = Some s0 \<and> final_state W f r \<and> b = Arc 0 0 (Final f r) s0}"
proof (rule set_eqI, clarify)
  fix s :: nat and a
  note O = looped_obs [where W = W and f = f]
  have "a \<in> set (Arcs (looped W f) s) \<longleftrightarrow> a \<in> set (Arcs f s) \<or>
      (\<exists>s0. start f = Some s0 \<and> final_state W f s \<and> a = Arc 0 0 (Final f s) s0)" if "s < NumStates f"
    using O(3) [OF that] by (cases "start f"; cases "final_state W f s") auto
  then show "(s, a) \<in> trans (looped W f) \<longleftrightarrow> (s, a) \<in> trans f \<union>
      {(r, b). \<exists>s0. start f = Some s0 \<and> final_state W f r \<and> b = Arc 0 0 (Final f r) s0}"
    by (auto simp: trans_iff O(1) final_state_def)
qed

lemma weights_in_looped: "weights_in M f \<Longrightarrow> weights_in M (looped W f)"
  by (auto simp: weights_in_def states_looped closure_state_def split: option.splits if_splits)

context weight_monoid
begin

lemma M_iterated: "weights_in M f \<Longrightarrow> iterated W f x y w \<Longrightarrow> M w"
  by (rotate_tac, induction rule: iterated.induct) (auto intro: M_transduces M_Times)

lemma looped_transduces_from:
  assumes M: "weights_in M f" and s0: "start f = Some s0"
    and t: "transduces_from W (looped W f) s x y w"
  shows "transduces_from W f s x y w \<or>
    (\<exists>x1 y1 w1 x2 y2 w2. transduces_from W f s x1 y1 w1 \<and> iterated W f x2 y2 w2 \<and>
      x = x1 @ x2 \<and> y = y1 @ y2 \<and> w = Times W w1 w2)"
  using weights_in_looped [OF M, of W] t
proof (induction rule: transduces_from_induct)
  case (stop s)
  then have "final_state W f s" "Final (looped W f) s = Final f s"
    by (auto simp: final_state_def looped_obs)
  then show ?case using transduces_from_stop [OF M] by auto
next
  case (step s a x y w)
  then consider "(s, a) \<in> trans f" | "final_state W f s" "a = Arc 0 0 (Final f s) s0"
    by (auto simp: trans_looped s0)
  then show ?case
  proof cases
    case a: 1
    from step(3) show ?thesis
    proof
      assume "transduces_from W f (nextstate a) x y w"
      then show ?thesis using transduces_from_step [OF M a] by blast
    next
      assume "\<exists>x1 y1 w1 x2 y2 w2. transduces_from W f (nextstate a) x1 y1 w1 \<and> iterated W f x2 y2 w2 \<and>
        x = x1 @ x2 \<and> y = y1 @ y2 \<and> w = Times W w1 w2"
      then obtain x1 y1 w1 x2 y2 w2 where *: "transduces_from W f (nextstate a) x1 y1 w1" "iterated W f x2 y2 w2"
        "x = x1 @ x2" "y = y1 @ y2" "w = Times W w1 w2" by blast
      have "M (weight a)" "M w1" "M w2"
        using weights_in_trans [OF M a] M_transduces_from [OF M *(1)] M_iterated [OF M *(2)] by auto
      then show ?thesis using transduces_from_step [OF M a *(1)] *
        by (intro disjI2 exI [of _ "istring [a] @ x1"] exI [of _ "ostring [a] @ y1"]
            exI [of _ "Times W (weight a) w1"] exI [of _ x2] exI [of _ y2] exI [of _ w2]) (simp add: Times_assoc)
    qed
  next
    case 2
    then have "iterated W f x y w" using step(3) s0
      by (auto simp: transduces_def intro: iterated.intros)
    then show ?thesis using 2 transduces_from_stop [OF M 2(1)]
      by (intro disjI2 exI [of _ "[]"] exI [of _ "Final f s"] exI [of _ x] exI [of _ y] exI [of _ w]) simp
  qed
qed

lemma transduces_from_looped:
  assumes M: "weights_in M f" and t: "transduces_from W f s x y w"
  shows "transduces_from W (looped W f) s x y w"
  using M t
proof (induction rule: transduces_from_induct)
  case (stop s)
  then have "final_state W (looped W f) s" "Final (looped W f) s = Final f s"
    by (auto simp: final_state_def looped_obs)
  then show ?case using transduces_from_stop [OF weights_in_looped [OF M, of W]] by metis
next
  case (step s a x y w)
  then show ?case
    by (intro transduces_from_step [OF weights_in_looped [OF M]]) (simp_all add: trans_looped)
qed

lemma transduces_from_looped_again:
  assumes M: "weights_in M f" and s0: "start f = Some s0"
    and t: "transduces_from W f s x y w" and t': "transduces_from W (looped W f) s0 x' y' w'"
  shows "transduces_from W (looped W f) s (x @ x') (y @ y') (Times W w w')"
  using M t
proof (induction rule: transduces_from_induct)
  case (stop s)
  then have "(s, Arc 0 0 (Final f s) s0) \<in> trans (looped W f)" by (simp add: trans_looped s0)
  from transduces_from_step [OF weights_in_looped [OF M] this] t' show ?case by simp
next
  case (step s a x y w)
  have "transduces_from W (looped W f) s (istring [a] @ x @ x') (ostring [a] @ y @ y')
      (Times W (weight a) (Times W w w'))"
    using step by (intro transduces_from_step [OF weights_in_looped [OF M]]) (simp_all add: trans_looped)
  moreover have "M (weight a)" "M w" "M w'"
    using weights_in_trans [OF M step(1)] M_transduces_from [OF M step(2)]
      M_transduces_from [OF weights_in_looped [OF M] t'] by auto
  ultimately show ?case by (simp add: Times_assoc)
qed

lemma looped_iff_iterated:
  assumes M: "weights_in M f" and s0: "start f = Some s0"
  shows "transduces_from W (looped W f) s0 x y w \<longleftrightarrow> iterated W f x y w"
proof
  assume "transduces_from W (looped W f) s0 x y w"
  from looped_transduces_from [OF M s0 this] show "iterated W f x y w"
    using s0 by (auto simp: transduces_def intro: iterated.intros)
next
  assume "iterated W f x y w"
  then show "transduces_from W (looped W f) s0 x y w"
    by induction (use s0 in \<open>auto simp: transduces_def intro: transduces_from_looped [OF M]
      transduces_from_looped_again [OF M s0]\<close>)
qed

end

lemma looped_wf_trans:
  "wf_fst f \<Longrightarrow> (s, a) \<in> trans (looped W f) \<Longrightarrow> nextstate a < NumStates f"
  by (auto simp: trans_looped dest: wf_trans wf_start)

lemma starred_obs:
  fixes W :: "('w, 'z) weight_ops_scheme" and f :: "'w vfst"
  defines "g \<equiv> starred W f" and "n \<equiv> NumStates f"
  shows "NumStates g = Suc n" and "start g = Some n" and "Final g n = One W"
    and "\<And>r. r < n \<Longrightarrow> Final g r = Final f r" and "\<And>r. r < n \<Longrightarrow> Arcs g r = Arcs (looped W f) r"
    and "Arcs g n = (case start f of None \<Rightarrow> [] | Some s0 \<Rightarrow> [Arc 0 0 (One W) s0])"
    and "trans g = trans (looped W f) \<union> {(u, b). \<exists>s0. u = n \<and> start f = Some s0 \<and> b = Arc 0 0 (One W) s0}"
proof -
  define h where "h = looped W f"
  have h: "NumStates h = n" by (simp add: h_def n_def looped_obs)
  have Fh: "r < n \<Longrightarrow> Final h r = Final f r" for r by (simp add: h_def n_def looped_obs)
  let ?k = "SetFinal W n (One W) (SetStart (Some n) (AddState W h))"
  have k: "NumStates ?k = Suc n" "start ?k = Some n" "Final ?k n = One W" "Arcs ?k n = []"
      "r < n \<Longrightarrow> Final ?k r = Final h r" "r < n \<Longrightarrow> Arcs ?k r = Arcs h r" for r
    using h by (simp_all add: NumStates_def Final_def Arcs_def nth_append VectorState_def)
  have tk: "trans ?k = trans h"
  proof (rule set_eqI, clarify)
    fix s a
    show "(s, a) \<in> trans ?k \<longleftrightarrow> (s, a) \<in> trans h"
      by (cases "s < n"; cases "s = n") (simp_all add: trans_iff k h)
  qed
  have g: "g = (case start f of None \<Rightarrow> ?k | Some s0 \<Rightarrow> AddArc W n (Arc 0 0 (One W) s0) ?k)"
    unfolding g_def starred_def Let_def h_def [symmetric] h ..
  show "NumStates g = Suc n" "start g = Some n" "Final g n = One W" "\<And>r. r < n \<Longrightarrow> Final g r = Final f r"
    "\<And>r. r < n \<Longrightarrow> Arcs g r = Arcs (looped W f) r"
    "Arcs g n = (case start f of None \<Rightarrow> [] | Some s0 \<Rightarrow> [Arc 0 0 (One W) s0])"
    "trans g = trans (looped W f) \<union> {(u, b). \<exists>s0. u = n \<and> start f = Some s0 \<and> b = Arc 0 0 (One W) s0}"
    unfolding h_def [symmetric] using k Fh by (auto simp: g Arcs_AddArc trans_AddArc tk split: option.split)
qed

context weight_monoid
begin

lemma weights_in_starred:
  assumes "weights_in M f"
  shows "weights_in M (starred W f)"
proof -
  let ?h = "looped W f" and ?n = "NumStates (looped W f)"
  have "weights_in M (SetStart (Some ?n) (AddState W ?h))"
    using weights_in_AddState [OF weights_in_looped [OF assms] M_Zero] by (simp add: weights_in_def)
  then have "weights_in M (SetFinal W ?n (One W) (SetStart (Some ?n) (AddState W ?h)))"
    by (intro weights_in_SetFinal) (auto simp: M_One)
  then show ?thesis
    by (auto simp: starred_def Let_def NumStates_def M_One intro!: weights_in_AddArc split: option.split)
qed

lemma closure_transduces:
  assumes wf: "wf_fst f" and M: "weights_in M f"
  shows "transduces W (Closure W t f) x y w \<longleftrightarrow>
    iterated W f x y w \<or> t = CLOSURE_STAR \<and> x = [] \<and> y = [] \<and> w = One W"
proof -
  have none: "start f = None \<Longrightarrow> \<not> iterated W f x y w" for x y w
    by (auto elim: iterated.cases simp: transduces_def)
  have plus: "transduces W (looped W f) x y w \<longleftrightarrow> iterated W f x y w"
    using none looped_iff_iterated [OF M] by (cases "start f") (simp_all add: transduces_def states_looped(2))
  let ?g = "starred W f" and ?n = "NumStates f"
  note O = starred_obs [where W = W and f = f]
  have star: "transduces W ?g x y w \<longleftrightarrow> iterated W f x y w \<or> x = [] \<and> y = [] \<and> w = One W"
  proof -
    have fin: "final_state W ?g ?n" using not_Weq_One_Zero by (simp add: final_state_def O)
    have arcs: "(?n, a) \<in> trans ?g \<longleftrightarrow> (\<exists>s0. start f = Some s0 \<and> a = Arc 0 0 (One W) s0)" for a
      by (auto simp: O(7)) (simp add: trans_iff looped_obs)
    have "transduces_from W ?g s0 x y w \<longleftrightarrow> transduces_from W (looped W f) s0 x y w" if s0: "start f = Some s0" for s0
      using wf_start [OF wf s0] looped_wf_trans [OF wf]
      by (intro left_part [where R = "{r. r < ?n}" and
            T = "{(u, b). \<exists>s0. u = ?n \<and> start f = Some s0 \<and> b = Arc 0 0 (One W) s0}"])
        (auto simp: O looped_obs)
    then have "transduces_via W ?g (Arc 0 0 (One W) s0) x y w \<longleftrightarrow> iterated W f x y w" if "start f = Some s0" for s0
      using that looped_iff_iterated [OF M that] by (simp add: transduces_via_eps weights_in_starred [OF M])
    then show ?thesis
      unfolding transduces_def O(2) using none fin arcs
      by (cases "start f") (auto simp: transduces_from_unfold [OF weights_in_starred [OF M], of ?n] O(3))
  qed
  show ?thesis using plus star by (cases t) (simp_all add: Closure_eq)
qed

end

end
