(* ===== verification/RationalProps.thy ===== *)
theory RationalProps
  imports RationalLeft
begin

text \<open>
  The property words that \<open>UnionProperties\<close>, \<open>ConcatProperties\<close> and \<open>ClosureProperties\<close> compute
  from the words of the arguments are sound for the machines that the rational operations build,
  and these machines are well formed.
\<close>

unbundle bit_operations_syntax

section \<open>Setting all properties\<close>

lemma bit_kFstProperties: "bit kFstProperties (pos_bit t)" "bit kFstProperties (Suc (pos_bit t))"
  by (cases t; simp add: kFstProperties_def kBinaryProperties_def kTrinaryProperties_def bit_or_iff)+

lemma props_sound_Properties:
  "props_sound W f (properties f) \<Longrightarrow> props_sound W f (Properties f m)"
  by (auto simp: props_sound_def Properties_def bit_and_iff)

lemma props_sound_SetMask:
  assumes "props_sound W f q" and m: "\<And>t. bit m (pos_bit t)" "\<And>t. bit m (Suc (pos_bit t))"
  shows "props_sound W f (properties (SetPropertiesMask q m g))"
proof (rule props_soundI)
  fix t
  have k: "\<not> bit kError (pos_bit t)" "\<not> bit kError (Suc (pos_bit t))" by (cases t; simp add: bit_kError)+
  show "bit (properties (SetPropertiesMask q m g)) (pos_bit t) \<Longrightarrow> holds W f t"
    using props_soundD(1) [OF assms(1), of t] m(1) [of t] k
    by (auto simp: SetPropertiesMask_def bit_or_iff bit_and_iff bit_not_iff)
  show "bit (properties (SetPropertiesMask q m g)) (Suc (pos_bit t)) \<Longrightarrow> \<not> holds W f t"
    using props_soundD(2) [OF assms(1), of t] m(2) [of t] k
    by (auto simp: SetPropertiesMask_def bit_or_iff bit_and_iff bit_not_iff)
qed

lemma props_sound_SetPropertiesMask:
  "props_sound W f q \<Longrightarrow>
    props_sound W (SetPropertiesMask q kFstProperties f) (properties (SetPropertiesMask q kFstProperties f))"
  using props_sound_SetMask [OF _ bit_kFstProperties] by simp

lemma bit_kCopyProperties: "bit kCopyProperties (pos_bit t)" "bit kCopyProperties (Suc (pos_bit t))"
  by (cases t; simp add: prop_bits)+

lemma props_sound_SetError:
  assumes "props_sound W f (properties f)"
  shows "props_sound W (SetPropertiesMask kError kError f) (properties (SetPropertiesMask kError kError f))"
proof -
  have "props_sound W f (properties (SetPropertiesMask kError kError f))"
    using assms by (rule props_sound_mono) (auto simp: SetPropertiesMask_def bit_or_iff bit_and_iff bit_kError)
  then show ?thesis by simp
qed

section \<open>Machines of two parts\<close>

text \<open>
  \<open>g\<close> consists of \<open>f1\<close>, of \<open>f2\<close> with shifted state numbers, and of bridging arcs \<open>X\<close>, each of
  which leads to a state of higher rank; the ranks are constant on the two parts.
\<close>

definition two_parts :: "(nat \<Rightarrow> nat) \<Rightarrow> (nat \<times> 'w arc) set \<Rightarrow> 'w vfst \<Rightarrow> 'w vfst \<Rightarrow> 'w vfst \<Rightarrow> bool" where
  "two_parts \<rho> X f1 f2 g \<longleftrightarrow> wf_fst f1 \<and> wf_fst f2 \<and>
     trans g = trans f1 \<union> shifted (NumStates f1) (trans f2) \<union> X \<and>
     (\<forall>(r, a) \<in> X. \<rho> r < \<rho> (nextstate a)) \<and>
     (\<forall>r < NumStates f1. \<forall>s < NumStates f1. \<rho> r = \<rho> s) \<and>
     (\<forall>r < NumStates f2. \<forall>s < NumStates f2. \<rho> (r + NumStates f1) = \<rho> (s + NumStates f1))"

lemma two_parts_rank:
  assumes "two_parts \<rho> X f1 f2 g"
  shows "(r, a) \<in> trans f1 \<Longrightarrow> \<rho> r = \<rho> (nextstate a)"
    and "(r, a) \<in> trans f2 \<Longrightarrow> \<rho> (r + NumStates f1) = \<rho> (nextstate a + NumStates f1)"
  using assms wf_trans [of f1 r a] wf_trans [of f2 r a] unfolding two_parts_def trans_iff by blast+

definition shift_edges :: "nat \<Rightarrow> (nat \<times> nat) set \<Rightarrow> (nat \<times> nat) set" where
  "shift_edges n E = (\<lambda>(a, b). (a + n, b + n)) ` E"

lemma shift_edges_trancl:
  "(a, b) \<in> (shift_edges n E)\<^sup>+ \<Longrightarrow> \<exists>a' b'. a = a' + n \<and> b = b' + n \<and> (a', b') \<in> E\<^sup>+"
  by (induction rule: trancl_induct) (auto simp: shift_edges_def intro: trancl_into_trancl)

lemma wf_edges: "wf_fst f \<Longrightarrow> (a, b) \<in> edges f \<Longrightarrow> a < NumStates f \<and> b < NumStates f"
  by (auto simp: edges_iff trans_iff dest: wf_target)

lemma edges_shifted: "(\<lambda>(s, a). (s, nextstate a)) ` shifted n (trans f) = shift_edges n (edges f)"
  by (force simp: shifted_def shift_edges_def edges_def image_iff)

lemma two_parts_edges:
  assumes "two_parts \<rho> X f1 f2 g"
  shows "edges g = edges f1 \<union> shift_edges (NumStates f1) (edges f2) \<union> (\<lambda>(s, a). (s, nextstate a)) ` X"
  using assms edges_shifted [of "NumStates f1" f2] by (simp add: two_parts_def edges_def image_Un)

lemma two_parts_trancl:
  assumes tp: "two_parts \<rho> X f1 f2 g" and ab: "(a, b) \<in> (edges g)\<^sup>+"
  shows "\<rho> a < \<rho> b \<or> \<rho> a = \<rho> b \<and> ((a, b) \<in> (edges f1)\<^sup>+ \<or>
    (\<exists>a' b'. a = a' + NumStates f1 \<and> b = b' + NumStates f1 \<and> (a', b') \<in> (edges f2)\<^sup>+))"
proof -
  let ?n = "NumStates f1" and ?E2 = "shift_edges (NumStates f1) (edges f2)"
  have wf: "wf_fst f1" "wf_fst f2" using tp by (auto simp: two_parts_def)
  have in1: "edges f1 \<subseteq> {r. r < ?n} \<times> {r. r < ?n}" using wf_edges [OF wf(1)] by auto
  have in2: "?E2 \<subseteq> {r. ?n \<le> r} \<times> {r. ?n \<le> r}" by (auto simp: shift_edges_def)
  have "\<rho> a < \<rho> b \<or> (a, b) \<in> (edges f1 \<union> ?E2)\<^sup>+ \<and> \<rho> a = \<rho> b"
  proof (rule trancl_ranked [OF _ ab])
    fix a b assume "(a, b) \<in> edges g"
    then consider "(a, b) \<in> edges f1" | "(a, b) \<in> ?E2" | x where "(a, x) \<in> X" "b = nextstate x"
      unfolding two_parts_edges [OF tp] by auto
    then show "\<rho> a < \<rho> b \<or> (a, b) \<in> edges f1 \<union> ?E2 \<and> \<rho> a = \<rho> b"
    proof cases
      case 1
      then show ?thesis using tp wf_edges [OF wf(1)] unfolding two_parts_def by blast
    next
      case 2
      then obtain c d where "(c, d) \<in> edges f2" "a = c + ?n" "b = d + ?n" by (auto simp: shift_edges_def)
      then show ?thesis using 2 tp wf_edges [OF wf(2), of c d] unfolding two_parts_def by blast
    next
      case 3
      then show ?thesis using tp unfolding two_parts_def by blast
    qed
  qed
  moreover have "{r. r < ?n} \<inter> {r. ?n \<le> r} = {}" by auto
  ultimately show ?thesis
    using trancl_disjoint_Un [OF in1 in2, of a b] shift_edges_trancl [of a b ?n "edges f2"] by blast
qed

lemma two_parts_left:
  assumes "two_parts \<rho> X f1 f2 g" "(a, b) \<in> (edges g)\<^sup>*" "a < NumStates f1" "\<rho> b \<le> \<rho> a"
  shows "(a, b) \<in> (edges f1)\<^sup>*"
  using assms two_parts_trancl [OF assms(1), of a b] by (auto simp: rtrancl_eq_or_trancl)

lemma two_parts_right:
  assumes "two_parts \<rho> X f1 f2 g" "(a + NumStates f1, b) \<in> (edges g)\<^sup>*" "\<rho> b \<le> \<rho> (a + NumStates f1)"
  shows "\<exists>b'. b = b' + NumStates f1 \<and> (a, b') \<in> (edges f2)\<^sup>*"
  using assms two_parts_trancl [OF assms(1), of "a + NumStates f1" b] wf_edges [of f1]
  by (auto simp: rtrancl_eq_or_trancl two_parts_def dest: tranclD)

lemma two_parts_Cyclic:
  "two_parts \<rho> X f1 f2 g \<Longrightarrow> holds W g Cyclic \<Longrightarrow> holds W f1 Cyclic \<or> holds W f2 Cyclic"
  using two_parts_trancl [of \<rho> X f1 f2 g] by fastforce

lemma two_parts_weighted_cycles:
  assumes tp: "two_parts \<rho> X f1 f2 g" and wc: "weighted_cycles W g"
  shows "weighted_cycles W f1 \<or> weighted_cycles W f2"
proof -
  obtain s a where a: "(s, a) \<in> trans g" "nontrivial W (weight a)" "(nextstate a, s) \<in> (edges g)\<^sup>*"
    using wc by (auto simp: weighted_cycles_def)
  have cyc: "(s, s) \<in> (edges g)\<^sup>+" "\<rho> (nextstate a) \<le> \<rho> s"
  proof -
    show "(s, s) \<in> (edges g)\<^sup>+" using a(3) edgesI [OF a(1)] by (rule rtrancl_into_trancl2 [rotated])
    show "\<rho> (nextstate a) \<le> \<rho> s"
      using a(3) two_parts_trancl [OF tp, of "nextstate a" s] by (auto simp: rtrancl_eq_or_trancl)
  qed
  have T: "trans g = trans f1 \<union> shifted (NumStates f1) (trans f2) \<union> X"
    and X: "\<And>r b. (r, b) \<in> X \<Longrightarrow> \<rho> r < \<rho> (nextstate b)" and wf: "wf_fst f1" "wf_fst f2"
    using tp by (auto simp: two_parts_def)
  have "(s, a) \<in> trans f1 \<or> (s, a) \<in> shifted (NumStates f1) (trans f2)"
    using a(1) cyc(2) X [of s a] unfolding T by fastforce
  then consider "(s, a) \<in> trans f1" | r b where "(r, b) \<in> trans f2" "s = r + NumStates f1"
      "a = retarget (\<lambda>t. t + NumStates f1) b"
    unfolding shifted_iff by blast
  then show ?thesis
  proof cases
    case 1
    have "\<rho> s \<le> \<rho> (nextstate a)" using two_parts_rank(1) [OF tp 1] by simp
    then have "(nextstate a, s) \<in> (edges f1)\<^sup>*"
      using two_parts_left [OF tp a(3)] wf_trans [OF wf(1) 1] by simp
    then show ?thesis using 1 a(2) by (auto simp: weighted_cycles_def)
  next
    case 2
    have "\<rho> s \<le> \<rho> (nextstate a)"
      using two_parts_rank(2) [OF tp 2(1)] 2 by simp
    then have "(nextstate b, r) \<in> (edges f2)\<^sup>*"
      using two_parts_right [OF tp, of "nextstate b" s] a(3) 2 by auto
    then show ?thesis using 2 a(2) by (auto simp: weighted_cycles_def)
  qed
qed


text \<open>The properties that the parts share with the whole.\<close>

definition parts_ok :: "('w, 'z) weight_ops_scheme \<Rightarrow> 'w vfst \<Rightarrow> 'w vfst \<Rightarrow> 'w vfst \<Rightarrow> bool" where
  "parts_ok W f1 f2 g \<longleftrightarrow>
     (\<forall>t \<in> {Acceptor, IDeterministic, ODeterministic, ILabelSorted, OLabelSorted, TopSorted}.
        holds W g t \<longrightarrow> holds W f1 t \<and> holds W f2 t) \<and>
     (\<forall>t \<in> {Epsilons, IEpsilons, OEpsilons, Cyclic, WeightedCycles, Weighted}.
        holds W f1 t \<or> holds W f2 t \<longrightarrow> holds W g t) \<and>
     (holds W f1 Acceptor \<and> holds W f2 Acceptor \<longrightarrow> holds W g Acceptor) \<and>
     (\<forall>t \<in> {Weighted, WeightedCycles, Cyclic}. holds W g t \<longrightarrow> holds W f1 t \<or> holds W f2 t)"

lemma parts_okD:
  assumes "parts_ok W f1 f2 g"
  shows "t \<in> {Acceptor, IDeterministic, ODeterministic, ILabelSorted, OLabelSorted, TopSorted} \<Longrightarrow>
      holds W g t \<Longrightarrow> holds W f1 t \<and> holds W f2 t"
    and "t \<in> {Epsilons, IEpsilons, OEpsilons, Cyclic, WeightedCycles, Weighted} \<Longrightarrow>
      holds W f1 t \<or> holds W f2 t \<Longrightarrow> holds W g t"
    and "t = Acceptor \<Longrightarrow> holds W f1 t \<Longrightarrow> holds W f2 t \<Longrightarrow> holds W g t"
    and "t \<in> {Weighted, WeightedCycles, Cyclic} \<Longrightarrow> holds W g t \<Longrightarrow> holds W f1 t \<or> holds W f2 t"
  using assms unfolding parts_ok_def by blast+

lemma UnionProperties_sound:
  assumes p: "props_sound W f1 p1" "props_sound W f2 p2" and parts: "parts_ok W f1 f2 g"
    and eps: "holds W g Epsilons" "holds W g IEpsilons" "holds W g OEpsilons"
    and ini: "\<not> holds W g InitialCyclic"
    and acc: "holds W g Accessible \<longleftrightarrow> holds W f1 Accessible \<and> holds W f2 Accessible"
    and coacc: "holds W f1 CoAccessible \<Longrightarrow> holds W f2 CoAccessible \<Longrightarrow> holds W g CoAccessible"
      "holds W g CoAccessible \<Longrightarrow> holds W f2 CoAccessible"
  shows "props_sound W g (UnionProperties p1 p2 False)"
proof (rule props_soundI)
  fix t
  note P1 = props_soundD [OF p(1)] and P2 = props_soundD [OF p(2)]
  note [simp del] = holds.simps
  note [simp] = prop_bits Let_def UnionProperties_def
  show "bit (UnionProperties p1 p2 False) (pos_bit t) \<Longrightarrow> holds W g t"
    using P1(1) [of t] P2(1) [of t] parts_okD [OF parts, of t] eps acc coacc(1) by (cases t) auto
  show "bit (UnionProperties p1 p2 False) (Suc (pos_bit t)) \<Longrightarrow> \<not> holds W g t"
    using P1(2) [of t] P2(2) [of t] parts_okD [OF parts, of t] ini acc coacc(2) by (cases t) auto
qed


lemma parts_okI:
  assumes tp: "two_parts \<rho> X f1 f2 g" and sub: "sub_arcs (\<lambda>s. s) f1 g" "sub_arcs (\<lambda>s. s + NumStates f1) f2 g"
    and X: "\<And>r a. (r, a) \<in> X \<Longrightarrow> ilabel a = olabel a"
    and wt: "holds W g Weighted \<longleftrightarrow> holds W f1 Weighted \<or> holds W f2 Weighted"
  shows "parts_ok W f1 f2 g"
proof -
  have A: "holds W f1 Acceptor \<Longrightarrow> holds W f2 Acceptor \<Longrightarrow> holds W g Acceptor"
    using tp X by (fastforce simp: two_parts_def shifted_iff)
  have WC: "holds W g WeightedCycles \<Longrightarrow> holds W f1 WeightedCycles \<or> holds W f2 WeightedCycles"
    using two_parts_weighted_cycles [OF tp] by simp
  note pos = sub_arcs_positive [OF sub(1), of _ W] sub_arcs_positive [OF sub(2), of _ W]
  note neg = sub_arcs_negative [OF sub(1), of _ W] sub_arcs_negative [OF sub(2), of _ W]
  show ?thesis unfolding parts_ok_def
  proof (intro conjI ballI impI)
    show "holds W f1 t" "holds W f2 t"
      if "t \<in> {Acceptor, IDeterministic, ODeterministic, ILabelSorted, OLabelSorted, TopSorted}" "holds W g t" for t
      using pos that by blast+
    show "holds W g t" if "t \<in> {Epsilons, IEpsilons, OEpsilons, Cyclic, WeightedCycles, Weighted}"
      "holds W f1 t \<or> holds W f2 t" for t
      using neg [of t] wt that by blast
    show "holds W f1 t \<or> holds W f2 t" if "t \<in> {Weighted, WeightedCycles, Cyclic}" "holds W g t" for t
      using wt WC two_parts_Cyclic [OF tp, of W] that by blast
  qed (use A in blast)
qed

text \<open>A path to a state of higher rank takes a bridge, after which the rank stays.\<close>

lemma two_parts_cross:
  assumes tp: "two_parts \<rho> X f1 f2 g" and "(a, b) \<in> (edges g)\<^sup>*" "\<rho> a < \<rho> b"
  shows "\<exists>r x. (r, x) \<in> X \<and> (a, r) \<in> (edges g)\<^sup>* \<and> (nextstate x, b) \<in> (edges g)\<^sup>* \<and> \<rho> (nextstate x) = \<rho> b"
  using assms(2,3)
proof (induction rule: rtrancl_induct)
  case (step b c)
  have "(b, c) \<in> edges f1 \<or> (b, c) \<in> shift_edges (NumStates f1) (edges f2) \<or> (\<exists>x. (b, x) \<in> X \<and> c = nextstate x)"
    using step(2) unfolding two_parts_edges [OF tp] by auto
  then consider "\<rho> b = \<rho> c" | x where "(b, x) \<in> X" "c = nextstate x"
    using two_parts_rank [OF tp] by (auto simp: edges_iff shift_edges_def)
  then show ?case
  proof cases
    case 1
    then show ?thesis using step by (metis rtrancl.rtrancl_into_rtrancl)
  next
    case 2
    then show ?thesis using step(1) by blast
  qed
qed simp

section \<open>Union\<close>

lemma sub_arcs_left:
  "NumStates f1 \<le> NumStates g \<Longrightarrow> (\<And>r. r < NumStates f1 \<Longrightarrow> subseq (Arcs f1 r) (Arcs g r)) \<Longrightarrow>
    sub_arcs (\<lambda>s. s) f1 g"
  by (auto simp: sub_arcs_def)

lemma sub_arcs_right:
  "n + NumStates f2 \<le> NumStates g \<Longrightarrow>
    (\<And>r. r < NumStates f2 \<Longrightarrow> subseq (map (retarget (\<lambda>t. t + n)) (Arcs f2 r)) (Arcs g (r + n))) \<Longrightarrow>
    sub_arcs (\<lambda>s. s + n) f2 g"
  by (auto simp: sub_arcs_def)

lemma less_add_cases: "s < n + (m::nat) \<longleftrightarrow> s < n \<or> (\<exists>r. r < m \<and> s = r + n)"
  by (metis add.commute add_less_cancel_left le_Suc_ex not_less trans_less_add1)

text \<open>The weights of a machine whose new arcs have weight One and whose new states are not final.\<close>

lemma weighted_parts:
  assumes T: "trans g = trans f1 \<union> shifted n (trans f2) \<union> X"
    and X: "\<And>r a. (r, a) \<in> X \<Longrightarrow> \<not> nontrivial W (weight a)"
    and n: "n = NumStates f1" "n + NumStates f2 \<le> NumStates g"
    and F: "\<And>r. r < n \<Longrightarrow> Final g r = Final f1 r" "\<And>r. r < NumStates f2 \<Longrightarrow> Final g (r + n) = Final f2 r"
      "\<And>r. n + NumStates f2 \<le> r \<Longrightarrow> r < NumStates g \<Longrightarrow> \<not> nontrivial W (Final g r)"
  shows "holds W g Weighted \<longleftrightarrow> holds W f1 Weighted \<or> holds W f2 Weighted"
proof -
  have "(\<exists>(s, a) \<in> trans g. nontrivial W (weight a)) \<longleftrightarrow>
      (\<exists>(s, a) \<in> trans f1. nontrivial W (weight a)) \<or> (\<exists>(s, a) \<in> trans f2. nontrivial W (weight a))"
  proof -
    have "(\<exists>(s, a) \<in> shifted n (trans f2). nontrivial W (weight a)) \<longleftrightarrow>
        (\<exists>(s, a) \<in> trans f2. nontrivial W (weight a))" by (simp add: shifted_def case_prod_unfold)
    moreover have "\<not> (\<exists>(s, a) \<in> X. nontrivial W (weight a))" using X by auto
    ultimately show ?thesis unfolding T bex_Un by blast
  qed
  moreover have "(\<exists>s < NumStates g. nontrivial W (Final g s)) \<longleftrightarrow>
      (\<exists>s < NumStates f1. nontrivial W (Final f1 s)) \<or> (\<exists>s < NumStates f2. nontrivial W (Final f2 s))"
    (is "?L \<longleftrightarrow> ?R1 \<or> ?R2")
  proof
    assume ?L
    then obtain s where s: "s < NumStates g" "nontrivial W (Final g s)" by blast
    then have "s < n + NumStates f2" using F(3) not_less by blast
    then show "?R1 \<or> ?R2" using s F n(1) unfolding less_add_cases by auto
  next
    assume "?R1 \<or> ?R2"
    then show ?L using F n by (metis add.commute add_less_cancel_left order_less_le_trans trans_less_add1)
  qed
  ultimately show ?thesis by (simp add: weighted_def) blast
qed

end
