(* ===== verification/RationalSound.thy ===== *)
theory RationalSound
  imports RationalProps
begin

text \<open>
  \<open>Union\<close>, both forms of \<open>Concat\<close> and \<open>Closure\<close> keep the invariant of VectorFst: the machine
  they build is well formed and the properties they store are sound for it.
\<close>

unbundle bit_operations_syntax

section \<open>Union\<close>

lemma joined_at_two_parts:
  assumes wf: "wf_fst f1" "wf_fst f2" and s: "start f1 = Some s1" "s2 < NumStates f2"
  shows "two_parts (\<lambda>r. if r < NumStates f1 then 0 else 1) {(s1, Arc 0 0 (One W) (s2 + NumStates f1))} f1 f2
    (joined_at W f1 f2 s1 s2)"
  using wf s wf_start [OF wf(1) s(1)]
  by (auto simp: two_parts_def joined_at_obs [OF wf(2) wf_start [OF wf(1) s(1)] s(1)])

lemma joined_new_two_parts:
  assumes wf: "wf_fst f1" "wf_fst f2" and s: "start f1 = Some s1" "s2 < NumStates f2"
  defines "m \<equiv> NumStates f1 + NumStates f2"
  shows "two_parts (\<lambda>r. if r = m then 0 else 1)
    {(m, Arc 0 0 (One W) s1), (m, Arc 0 0 (One W) (s2 + NumStates f1))} f1 f2 (joined_new W f1 f2 s1 s2)"
  using wf s wf_start [OF wf(1) s(1)]
  by (auto simp: two_parts_def m_def joined_new_obs [OF wf(2) wf_start [OF wf(1) s(1)] s(1)])

lemma subseq_append_left [simp]: "subseq xs (xs @ ys)"
  by (simp add: subseq_rev_drop_many)

context weight_monoid
begin

lemma joined_at_parts_ok:
  assumes wf: "wf_fst f1" "wf_fst f2" and s: "start f1 = Some s1" "s2 < NumStates f2"
  shows "parts_ok W f1 f2 (joined_at W f1 f2 s1 s2)"
proof (rule parts_okI [OF joined_at_two_parts [OF wf s]])
  note n1 = wf_start [OF wf(1) s(1)]
  note O = joined_at_obs [OF wf(2) n1 s(1), where W = W and ?s2.0 = s2]
  show "sub_arcs (\<lambda>s. s) f1 (joined_at W f1 f2 s1 s2)"
    by (rule sub_arcs_left) (simp_all add: O)
  show "sub_arcs (\<lambda>s. s + NumStates f1) f2 (joined_at W f1 f2 s1 s2)"
    by (rule sub_arcs_right) (simp_all add: O)
  show "holds W (joined_at W f1 f2 s1 s2) Weighted \<longleftrightarrow> holds W f1 Weighted \<or> holds W f2 Weighted"
    by (rule weighted_parts [where n = "NumStates f1" and X = "{(s1, Arc 0 0 (One W) (s2 + NumStates f1))}"])
      (auto simp: O not_nontrivial_One)
qed auto

lemma joined_new_parts_ok:
  assumes wf: "wf_fst f1" "wf_fst f2" and s: "start f1 = Some s1" "s2 < NumStates f2"
  shows "parts_ok W f1 f2 (joined_new W f1 f2 s1 s2)"
proof (rule parts_okI [OF joined_new_two_parts [OF wf s]])
  note n1 = wf_start [OF wf(1) s(1)]
  note O = joined_new_obs [OF wf(2) n1 s(1), where W = W and ?s2.0 = s2]
  show "sub_arcs (\<lambda>s. s) f1 (joined_new W f1 f2 s1 s2)"
    by (rule sub_arcs_left) (simp_all add: O)
  show "sub_arcs (\<lambda>s. s + NumStates f1) f2 (joined_new W f1 f2 s1 s2)"
    by (rule sub_arcs_right) (simp_all add: O)
  have "Final (joined_new W f1 f2 s1 s2) r = Zero W"
    if "NumStates f1 + NumStates f2 \<le> r" "r < NumStates (joined_new W f1 f2 s1 s2)" for r
    using that O(1,6) le_antisym [of r] by (simp add: less_Suc_eq_le)
  then show "holds W (joined_new W f1 f2 s1 s2) Weighted \<longleftrightarrow> holds W f1 Weighted \<or> holds W f2 Weighted"
    using not_nontrivial_Zero not_nontrivial_One O(1)
    by (intro weighted_parts [where n = "NumStates f1" and X = "{(NumStates f1 + NumStates f2, Arc 0 0 (One W) s1),
          (NumStates f1 + NumStates f2, Arc 0 0 (One W) (s2 + NumStates f1))}"]) (auto simp: O(3-5))
qed auto

end

text \<open>Accessibility of the parts.\<close>

lemma parts_accessible:
  assumes sub: "sub_arcs (\<lambda>s. s) f1 g" "sub_arcs (\<lambda>s. s + NumStates f1) f2 g"
    and s: "start f1 = Some s1" "start f2 = Some s2" "start g = Some i"
    and reach: "(i, s1) \<in> (edges g)\<^sup>*" "(i, s2 + NumStates f1) \<in> (edges g)\<^sup>*"
    and n: "\<And>r. r < NumStates g \<Longrightarrow> r < NumStates f1 + NumStates f2 \<or> r = i"
    and acc: "accessible f1" "accessible f2"
  shows "accessible g"
proof -
  have "(i, r) \<in> (edges g)\<^sup>*" if "r < NumStates f1" for r
    using that acc(1) s(1) sub_arcs_rtrancl [OF sub(1), of s1 r] reach(1)
    by (auto simp: accessible_def intro: rtrancl_trans)
  moreover have "(i, r + NumStates f1) \<in> (edges g)\<^sup>*" if "r < NumStates f2" for r
    using that acc(2) s(2) sub_arcs_rtrancl [OF sub(2), of s2 r] reach(2)
    by (auto simp: accessible_def intro: rtrancl_trans)
  ultimately show ?thesis
    using n s(3) unfolding accessible_def less_add_cases by blast
qed

lemma two_parts_start_left:
  assumes tp: "two_parts \<rho> X f1 f2 g" and r: "(a, r) \<in> (edges g)\<^sup>*" "a < NumStates f1" "\<rho> r \<le> \<rho> a"
    and "r' < NumStates f2" "r = r' + NumStates f1"
  shows False
proof -
  have "wf_fst f1" using tp by (simp add: two_parts_def)
  moreover have "r = a \<or> (a, r) \<in> (edges f1)\<^sup>+"
    using two_parts_left [OF tp r] by (auto simp: rtrancl_eq_or_trancl)
  ultimately show False using wf_trancl_less r(2) assms(6) by fastforce
qed

lemma joined_at_accessible:
  assumes wf: "wf_fst f1" "wf_fst f2" and s: "start f1 = Some s1" "start f2 = Some s2"
  shows "accessible (joined_at W f1 f2 s1 s2) \<longleftrightarrow> accessible f1 \<and> accessible f2" (is "accessible ?g \<longleftrightarrow> _")
proof -
  note n1 = wf_start [OF wf(1) s(1)] and n2 = wf_start [OF wf(2) s(2)]
  note O = joined_at_obs [OF wf(2) n1 s(1), where W = W and ?s2.0 = s2]
  note tp = joined_at_two_parts [OF wf s(1) n2, of W]
  have sub: "sub_arcs (\<lambda>s. s) f1 ?g" "sub_arcs (\<lambda>s. s + NumStates f1) f2 ?g"
    by (rule sub_arcs_left sub_arcs_right; simp add: O)+
  have "(s1, s2 + NumStates f1) \<in> edges ?g" by (force simp: edges_iff O)
  then have "accessible f1 \<Longrightarrow> accessible f2 \<Longrightarrow> accessible ?g"
    by (intro parts_accessible [OF sub s]) (auto simp: O)
  moreover have "(s1, r) \<in> (edges f1)\<^sup>*" if "accessible ?g" "r < NumStates f1" for r
    using that n1 by (intro two_parts_left [OF tp]) (auto simp: accessible_def O)
  moreover have "(s2, r) \<in> (edges f2)\<^sup>*" if "accessible ?g" "r < NumStates f2" for r
  proof -
    have "(s1, r + NumStates f1) \<in> (edges ?g)\<^sup>*" using that by (auto simp: accessible_def O)
    from two_parts_cross [OF tp this] have "(s2 + NumStates f1, r + NumStates f1) \<in> (edges ?g)\<^sup>*"
      using n1 by auto
    from two_parts_right [OF tp this] show ?thesis by simp
  qed
  ultimately show ?thesis using s by (auto simp: accessible_def)
qed

lemma joined_new_accessible:
  assumes wf: "wf_fst f1" "wf_fst f2" and s: "start f1 = Some s1" "start f2 = Some s2"
  shows "accessible (joined_new W f1 f2 s1 s2) \<longleftrightarrow> accessible f1 \<and> accessible f2" (is "accessible ?g \<longleftrightarrow> _")
proof -
  note n1 = wf_start [OF wf(1) s(1)] and n2 = wf_start [OF wf(2) s(2)]
  note O = joined_new_obs [OF wf(2) n1 s(1), where W = W and ?s2.0 = s2]
  note tp = joined_new_two_parts [OF wf s(1) n2, of W]
  let ?m = "NumStates f1 + NumStates f2"
  have sub: "sub_arcs (\<lambda>s. s) f1 ?g" "sub_arcs (\<lambda>s. s + NumStates f1) f2 ?g"
    by (rule sub_arcs_left sub_arcs_right; simp add: O)+
  have "(?m, s2 + NumStates f1) \<in> edges ?g" "(?m, s1) \<in> edges ?g" by (force simp: edges_iff O)+
  then have "accessible f1 \<Longrightarrow> accessible f2 \<Longrightarrow> accessible ?g"
    by (intro parts_accessible [OF sub s]) (auto simp: O)
  moreover have cross: "(s1, r) \<in> (edges ?g)\<^sup>* \<or> (s2 + NumStates f1, r) \<in> (edges ?g)\<^sup>*"
    if "accessible ?g" "r < ?m" for r
    using that two_parts_cross [OF tp, of ?m r] by (auto simp: accessible_def O)
  have "(s1, r) \<in> (edges f1)\<^sup>*" if "accessible ?g" "r < NumStates f1" for r
    using cross [of r] that n1 n2 two_parts_left [OF tp, of s1 r] two_parts_right [OF tp, of s2 r] by auto
  moreover have "(s2, r) \<in> (edges f2)\<^sup>*" if "accessible ?g" "r < NumStates f2" for r
    using cross [of "r + NumStates f1"] that n1 n2 two_parts_right [OF tp, of s2 "r + NumStates f1"]
      two_parts_start_left [OF tp, of s1 "r + NumStates f1" r] by auto
  ultimately show ?thesis using s by (auto simp: accessible_def)
qed


lemma parts_coaccessible:
  assumes sub: "sub_arcs (\<lambda>s. s) f1 g" "sub_arcs (\<lambda>s. s + NumStates f1) f2 g"
    and fin: "\<And>r. final_state W f1 r \<Longrightarrow> final_state W g r"
      "\<And>r. final_state W f2 r \<Longrightarrow> final_state W g (r + NumStates f1)"
    and n: "\<And>r. r < NumStates g \<Longrightarrow> r < NumStates f1 + NumStates f2 \<or> (\<exists>s < NumStates f1. (r, s) \<in> (edges g)\<^sup>*)"
    and co: "coaccessible W f1" "coaccessible W f2"
  shows "coaccessible W g"
proof -
  have 1: "\<exists>t. (r, t) \<in> (edges g)\<^sup>* \<and> final_state W g t" if "r < NumStates f1" for r
    using that co(1) sub_arcs_rtrancl [OF sub(1)] fin(1) unfolding coaccessible_def by blast
  have 2: "\<exists>t. (r + NumStates f1, t) \<in> (edges g)\<^sup>* \<and> final_state W g t" if "r < NumStates f2" for r
    using that co(2) sub_arcs_rtrancl [OF sub(2)] fin(2) unfolding coaccessible_def by blast
  show ?thesis unfolding coaccessible_def
    using n 1 2 unfolding less_add_cases by (metis rtrancl_trans)
qed

lemma two_parts_coaccessible_right:
  assumes tp: "two_parts \<rho> X f1 f2 g" and top: "\<And>r s. r < NumStates f2 \<Longrightarrow> \<rho> s \<le> \<rho> (r + NumStates f1)"
    and n: "NumStates f1 + NumStates f2 \<le> NumStates g"
    and fin: "\<And>r. final_state W g (r + NumStates f1) \<Longrightarrow> r < NumStates f2 \<Longrightarrow> final_state W f2 r"
    and co: "coaccessible W g"
  shows "coaccessible W f2"
  unfolding coaccessible_def
proof (intro allI impI)
  fix r assume r: "r < NumStates f2"
  then obtain t where t: "(r + NumStates f1, t) \<in> (edges g)\<^sup>*" "final_state W g t"
    using co n unfolding coaccessible_def by (metis add.commute add_less_cancel_left order_less_le_trans)
  from two_parts_right [OF tp t(1)] top [OF r] obtain t' where t': "t = t' + NumStates f1" "(r, t') \<in> (edges f2)\<^sup>*"
    by blast
  have "t' < NumStates f2"
    using t'(2) r tp wf_trancl_less [of f2 r t'] by (auto simp: rtrancl_eq_or_trancl two_parts_def)
  then show "\<exists>t. (r, t) \<in> (edges f2)\<^sup>* \<and> final_state W f2 t" using t t' fin by blast
qed

context weight_monoid
begin

lemma joined_at_sound:
  assumes wf: "wf_fst f1" "wf_fst f2" and s: "start f1 = Some s1" "start f2 = Some s2"
    and p: "props_sound W f1 p1" "props_sound W f2 p2" and acyc: "(s1, s1) \<notin> (edges f1)\<^sup>+"
  shows "props_sound W (joined_at W f1 f2 s1 s2) (UnionProperties p1 p2 False)" (is "props_sound W ?g _")
proof (rule UnionProperties_sound [OF p joined_at_parts_ok])
  note n1 = wf_start [OF wf(1) s(1)] and n2 = wf_start [OF wf(2) s(2)]
  note O = joined_at_obs [OF wf(2) n1 s(1), where W = W and ?s2.0 = s2]
  note tp = joined_at_two_parts [OF wf s(1) n2, of W]
  show "wf_fst f1" "wf_fst f2" "start f1 = Some s1" "s2 < NumStates f2" by fact+
  show "holds W ?g Epsilons" "holds W ?g IEpsilons" "holds W ?g OEpsilons" by (simp_all add: O)
  show "\<not> holds W ?g InitialCyclic"
    using acyc two_parts_trancl [OF tp, of s1 s1] n1 by (auto simp: O)
  show "holds W ?g Accessible \<longleftrightarrow> holds W f1 Accessible \<and> holds W f2 Accessible"
    using joined_at_accessible [OF wf s] by simp
  have sub: "sub_arcs (\<lambda>s. s) f1 ?g" "sub_arcs (\<lambda>s. s + NumStates f1) f2 ?g"
    by (rule sub_arcs_left sub_arcs_right; simp add: O)+
  show "holds W f1 CoAccessible \<Longrightarrow> holds W f2 CoAccessible \<Longrightarrow> holds W ?g CoAccessible"
    unfolding holds.simps by (rule parts_coaccessible [OF sub]) (auto simp: final_state_def O)
  show "holds W ?g CoAccessible \<Longrightarrow> holds W f2 CoAccessible"
    unfolding holds.simps by (rule two_parts_coaccessible_right [OF tp]) (auto simp: final_state_def O)
qed

lemma joined_new_sound:
  assumes wf: "wf_fst f1" "wf_fst f2" and s: "start f1 = Some s1" "start f2 = Some s2"
    and p: "props_sound W f1 p1" "props_sound W f2 p2"
  shows "props_sound W (joined_new W f1 f2 s1 s2) (UnionProperties p1 p2 False)" (is "props_sound W ?g _")
proof (rule UnionProperties_sound [OF p joined_new_parts_ok])
  note n1 = wf_start [OF wf(1) s(1)] and n2 = wf_start [OF wf(2) s(2)]
  note O = joined_new_obs [OF wf(2) n1 s(1), where W = W and ?s2.0 = s2]
  note tp = joined_new_two_parts [OF wf s(1) n2, of W]
  let ?m = "NumStates f1 + NumStates f2"
  show "wf_fst f1" "wf_fst f2" "start f1 = Some s1" "s2 < NumStates f2" by fact+
  show "holds W ?g Epsilons" "holds W ?g IEpsilons" "holds W ?g OEpsilons" by (simp_all add: O)
  have "(?m, ?m) \<notin> (edges f1)\<^sup>+" "(NumStates f2, NumStates f2) \<notin> (edges f2)\<^sup>+"
    using wf_trancl_less [OF wf(1)] wf_trancl_less [OF wf(2)] by force+
  then show "\<not> holds W ?g InitialCyclic"
    using two_parts_trancl [OF tp, of ?m ?m] by (auto simp: O(2))
  show "holds W ?g Accessible \<longleftrightarrow> holds W f1 Accessible \<and> holds W f2 Accessible"
    using joined_new_accessible [OF wf s] by simp
  have sub: "sub_arcs (\<lambda>s. s) f1 ?g" "sub_arcs (\<lambda>s. s + NumStates f1) f2 ?g"
    by (rule sub_arcs_left sub_arcs_right; simp add: O)+
  have e: "(?m, s1) \<in> edges ?g" by (force simp: edges_iff O)
  show "holds W f1 CoAccessible \<Longrightarrow> holds W f2 CoAccessible \<Longrightarrow> holds W ?g CoAccessible"
    unfolding holds.simps using n1 e
    by (intro parts_coaccessible [OF sub]) (auto simp: final_state_def O less_Suc_eq)
  show "holds W ?g CoAccessible \<Longrightarrow> holds W f2 CoAccessible"
    unfolding holds.simps by (rule two_parts_coaccessible_right [OF tp]) (auto simp: final_state_def O)
qed

end


section \<open>The invariant\<close>

lemma AddState_sound:
  "props_sound W f (properties f) \<Longrightarrow> Weq W (Zero W) (Zero W) \<Longrightarrow>
    props_sound W (AddState W f) (properties (AddState W f))"
  by (simp add: AddState_eq AddStates_sound)

lemma fold_AddArc_sound:
  "props_sound W f (properties f) \<Longrightarrow> s < NumStates f \<Longrightarrow>
    props_sound W (fold (\<lambda>a. AddArc W s (h a)) as f) (properties (fold (\<lambda>a. AddArc W s (h a)) as f))"
  by (induction as arbitrary: f) (simp_all add: AddArc_sound)

lemma append_state_sound:
  "props_sound W f (properties f) \<Longrightarrow> Weq W (Zero W) (Zero W) \<Longrightarrow>
    props_sound W (append_state W n g s f) (properties (append_state W n g s f))"
  unfolding append_state_def Let_def
  by (intro fold_AddArc_sound SetFinal_sound AddState_sound) (simp_all add: NumStates_def)

lemma append_loop_sound:
  "props_sound W f (properties f) \<Longrightarrow> Weq W (Zero W) (Zero W) \<Longrightarrow>
    props_sound W (fold (append_state W n g) xs f) (properties (fold (append_state W n g) xs f))"
  by (induction xs arbitrary: f) (simp_all add: append_state_sound)

lemma static_ops:
  assumes "n \<in> {0, 1}"
  shows "bit (properties (AddState W f)) n = bit (properties f) n"
    "bit (properties (SetFinal W s w f)) n = bit (properties f) n"
    "s < NumStates f \<Longrightarrow> bit (properties (AddArc W s a f)) n = bit (properties f) n"
    "bit (properties (SetStart i f)) n = bit (properties f) n"
    "bit (properties (SetPropertiesMask kError kError f)) n = bit (properties f) n"
    "bit (properties (SetPropertiesMask q kFstProperties f)) n = bit q n"
  using assms by (auto simp: AddState_def SetFinal_def SetStart_def UpdatePropertiesAfterAddArc_eq Let_def
      BaseAddState_eq SetPropertiesMask_def bit_or_iff bit_and_iff bit_not_iff bit_kError kFstProperties_def
      kBinaryProperties_def kTrinaryProperties_def)

lemma static_fold_AddArc:
  "n \<in> {0, 1} \<Longrightarrow> s < NumStates f \<Longrightarrow>
    bit (properties (fold (\<lambda>a. AddArc W s (h a)) as f)) n = bit (properties f) n"
  by (induction as arbitrary: f) (simp_all add: static_ops del: insert_iff)

lemma static_append_loop:
  assumes "n \<in> {0, 1}"
  shows "bit (properties (fold (append_state W m g) xs f)) n = bit (properties f) n"
proof (induction xs arbitrary: f)
  case (Cons x xs)
  have "bit (properties (append_state W m g x f)) n = bit (properties f) n"
    using assms unfolding append_state_def Let_def
    by (simp add: static_fold_AddArc static_ops NumStates_def del: insert_iff)
  then show ?case using Cons by simp
qed simp

lemma bit_kCopy_static: "\<not> bit kCopyProperties 0" "\<not> bit kCopyProperties (Suc 0)"
  by (simp_all add: prop_bits)

lemma shift_state_0: "shift_state 0 = (\<lambda>st. st)"
proof (rule ext)
  fix st :: "'w vstate"
  have "map (shift_arc 0) (arcs st) = arcs st" by (rule map_idI) (simp add: shift_arc_def)
  then show "shift_state 0 st = st" by (simp add: shift_state_def)
qed

lemma wf_append_loop:
  assumes wf: "wf_fst f1" "wf_fst f2"
  shows "wf_fst (fold (append_state W (NumStates f1) f2) [0 ..< NumStates f2] f1)" (is "wf_fst ?h")
proof (rule wf_fstI)
  note O = append_loop_obs [OF wf(2), where W = W and ?f1.0 = f1]
  show "start ?h = Some s \<Longrightarrow> s < NumStates ?h" for s using wf_start [OF wf(1), of s] by (simp add: O)
  fix s assume s: "s < NumStates ?h"
  then consider "s < NumStates f1" | r where "r < NumStates f2" "s = r + NumStates f1"
    by (auto simp: O less_add_cases)
  then show "a \<in> set (Arcs ?h s) \<Longrightarrow> nextstate a < NumStates ?h" for a
    using wf_target [OF wf(1), of s] wf_target [OF wf(2)] by cases (auto simp: O intro: trans_less_add1)
  show "eps_counts_ok (states ?h ! s)"
    using s wf_eps [OF wf(1), of s] wf_eps [OF wf(2), of "s - NumStates f1"]
    by (auto simp: append_loop [OF wf(2)] nth_appended O eps_counts_shift)
qed

lemma wf_ops:
  "wf_fst f \<Longrightarrow> wf_fst (AddState W f)"
  "wf_fst f \<Longrightarrow> s < NumStates f \<Longrightarrow> wf_fst (SetFinal W s w f)"
  "wf_fst f \<Longrightarrow> s < NumStates f \<Longrightarrow> nextstate a < NumStates f \<Longrightarrow> wf_fst (AddArc W s a f)"
  "wf_fst f \<Longrightarrow> (\<And>i. s' = Some i \<Longrightarrow> i < NumStates f) \<Longrightarrow> wf_fst (SetStart s' f)"
  by (auto intro: mutation_wf mutation.intros)

context weight_monoid
begin

lemma union_joined_ok:
  assumes ok: "fst_ok W f1" "fst_ok W f2" and sym: "symbols_match flag f1 f2"
    and s: "start f1 = Some s1" "start f2 = Some s2"
  shows "fst_ok W (Union flag W f1 f2)"
proof -
  have wf: "wf_fst f1" "wf_fst f2" and p: "props_sound W f1 (properties f1)" "props_sound W f2 (properties f2)"
    using ok by (auto simp: fst_ok_def)
  note n1 = wf_start [OF wf(1) s(1)] and n2 = wf_start [OF wf(2) s(2)]
  let ?h = "fold (append_state W (NumStates f1) f2) [0 ..< NumStates f2] f1"
  let ?g = "if Properties f1 kInitialAcyclic = kInitialAcyclic then joined_at W f1 f2 s1 s2 else joined_new W f1 f2 s1 s2"
  let ?q = "UnionProperties (Properties f1 kFstProperties) (Properties f2 kFstProperties) False"
  note wh = wf_append_loop [OF wf, of W] and O = append_loop_obs [OF wf(2), where W = W and ?f1.0 = f1]
  have "wf_fst ?g" using n1 n2 wh
    by (auto simp: joined_at_def joined_new_def Let_def O intro!: wf_ops)
  moreover have "props_sound W ?g ?q"
    using joined_at_sound [OF wf s p [THEN props_sound_Properties]]
      joined_new_sound [OF wf s p [THEN props_sound_Properties]] sound_initial_acyclic [OF p(1) _ s(1)] by auto
  moreover have "bit ?q 0" "bit ?q 1"
    using ok by (simp_all add: fst_ok_def UnionProperties_def Let_def prop_bits Properties_def kFstProperties_def
        kBinaryProperties_def kTrinaryProperties_def)
  ultimately show ?thesis
    unfolding Union_eq [OF wf(2) sym s] fst_ok_def
    by (simp add: props_sound_SetPropertiesMask static_ops del: props_sound_SetPropertiesMask_iff)
qed

lemma union_empty_ok:
  assumes ok: "fst_ok W f1" "fst_ok W f2" and sym: "symbols_match flag f1 f2"
    and s: "start f1 = None" "start f2 = Some s2"
  shows "fst_ok W (Union flag W f1 f2)"
proof -
  have wf: "wf_fst f1" "wf_fst f2" and p: "props_sound W f1 (properties f1)" "props_sound W f2 (properties f2)"
    using ok by (auto simp: fst_ok_def)
  let ?n = "NumStates f1"
  let ?h = "fold (append_state W ?n f2) [0 ..< NumStates f2] f1"
  let ?g = "SetStart (Some (s2 + ?n)) ?h"
  let ?q = "Properties f2 kFstProperties OR Properties f1 kFstProperties AND kError"
  note wh = wf_append_loop [OF wf, of W] and O = append_loop_obs [OF wf(2), where W = W and ?f1.0 = f1]
  note n2 = wf_start [OF wf(2) s(2)]
  have U: "Union flag W f1 f2 =
      (if ?n = 0 then SetPropertiesMask ?q kCopyProperties ?g
       else if has (Properties f2 kFstProperties) kError then SetPropertiesMask kError kError ?g else ?g)"
    using sym s by (simp add: Union_def symbols_match_def Let_def O(7))
  have wg: "wf_fst ?g" using wh n2 by (intro wf_ops) (auto simp: O)
  have pg: "props_sound W ?g (properties ?g)"
    by (intro SetStart_sound append_loop_sound p Weq_Zero_Zero)
  have sg: "bit (properties ?g) n" if "n \<in> {0, 1}" for n
    using that ok(1) by (auto simp: static_ops static_append_loop fst_ok_def)
  have copy: "props_sound W ?g (properties (SetPropertiesMask ?q kCopyProperties ?g))" if "?n = 0"
  proof -
    have "map (shift_state 0) (states f2) = states f2" by (simp add: shift_state_0)
    then have st: "states ?g = states f2" "start ?g = start f2"
      using that s append_loop(1) [OF wf(2), of W f1] by (simp_all add: appended_def NumStates_def)
    have "props_sound W f2 ?q"
      using props_sound_Properties [OF p(2), of kFstProperties]
      by (rule props_sound_mono) (auto simp: bit_or_iff bit_and_iff bit_kError)
    then have "props_sound W f2 (properties (SetPropertiesMask ?q kCopyProperties ?g))"
      by (rule props_sound_SetMask [OF _ bit_kCopyProperties])
    then show ?thesis using props_sound_cong [OF st(2,1)] by blast
  qed
  have "bit (properties (SetPropertiesMask ?q kCopyProperties ?g)) n" if "n \<in> {0, 1}" for n
    using that sg [of n] by (auto simp: SetPropertiesMask_def bit_or_iff bit_and_iff bit_not_iff bit_kCopy_static)
  then have c: "?n = 0 \<Longrightarrow> fst_ok W (SetPropertiesMask ?q kCopyProperties ?g)"
    using wg copy by (simp add: fst_ok_def)
  have g: "fst_ok W ?g" using wg pg sg by (simp add: fst_ok_def)
  then have "fst_ok W (SetPropertiesMask kError kError ?g)"
    using props_sound_SetError [OF pg] by (simp add: fst_ok_def static_ops)
  then show ?thesis unfolding U using g c by presburger
qed

theorem union_ok:
  assumes ok: "fst_ok W f1" "fst_ok W f2"
  shows "fst_ok W (Union flag W f1 f2)"
proof -
  have err: "fst_ok W (SetPropertiesMask kError kError f1)"
    using ok(1) props_sound_SetError [of W f1] by (auto simp: fst_ok_def static_ops)
  show ?thesis
  proof (cases "symbols_match flag f1 f2")
    case sym: True
    have "Union flag W f1 f2 = (if has (Properties f2 kFstProperties) kError
        then SetPropertiesMask kError kError f1 else f1)" if "start f2 = None"
      using sym that by (simp add: Union_def symbols_match_def Let_def)
    then show ?thesis
      using union_joined_ok [OF ok sym] union_empty_ok [OF ok sym] ok(1) err
      by (cases "start f2"; cases "start f1") simp_all
  next
    case False
    then show ?thesis using err by (auto simp: Union_def symbols_match_def)
  qed
qed

end

end
