(* ===== verification/ConcatSound.thy ===== *)
theory ConcatSound
  imports RationalSound
begin

text \<open>
  \<open>ConcatProperties\<close> and \<open>ClosureProperties\<close> are sound for the machines that \<open>Concat\<close>, its second
  form, and \<open>Closure\<close> build; these operations keep the invariant of VectorFst.
\<close>

unbundle bit_operations_syntax

section \<open>Concatenation\<close>

lemma parts_ok_swap: "parts_ok W f1 f2 g = parts_ok W f2 f1 g"
  unfolding parts_ok_def by blast

lemma accessible_and_coaccessible_bits:
  "p AND (kAccessible OR kCoAccessible) = kAccessible OR kCoAccessible \<longleftrightarrow> bit p 40 \<and> bit p 42"
proof
  assume e: "p AND (kAccessible OR kCoAccessible) = kAccessible OR kCoAccessible"
  have "bit (p AND (kAccessible OR kCoAccessible)) 40" "bit (p AND (kAccessible OR kCoAccessible)) 42"
    unfolding e by (simp_all add: prop_bits)
  then show "bit p 40 \<and> bit p 42" by (simp add: prop_bits)
next
  assume "bit p 40 \<and> bit p 42"
  then show "p AND (kAccessible OR kCoAccessible) = kAccessible OR kCoAccessible"
    by (intro bit_word_eqI) (auto simp: prop_bits)
qed

lemma ConcatProperties_sound:
  assumes p: "props_sound W f1 p1" "props_sound W f2 p2" and parts: "parts_ok W f1 f2 g"
    and ini: "holds W g InitialCyclic \<longleftrightarrow> holds W f1 InitialCyclic"
    and str: "holds W g IsString \<Longrightarrow> holds W f1 IsString \<and> holds W f2 IsString"
    and acc: "holds W g Accessible \<Longrightarrow> holds W f1 Accessible \<and> holds W f2 Accessible"
      "holds W f1 Accessible \<Longrightarrow> holds W f1 CoAccessible \<Longrightarrow> holds W f2 Accessible \<Longrightarrow> holds W g Accessible"
    and coacc: "holds W g CoAccessible \<longleftrightarrow> holds W f1 CoAccessible \<and> holds W f2 CoAccessible"
  shows "props_sound W g (ConcatProperties p1 p2 False)"
proof (rule props_soundI)
  fix t
  note P1 = props_soundD [OF p(1)] and P2 = props_soundD [OF p(2)]
  note [simp del] = holds.simps
  note [simp] = prop_bits Let_def ConcatProperties_def accessible_and_coaccessible_bits
  show "bit (ConcatProperties p1 p2 False) (pos_bit t) \<Longrightarrow> holds W g t"
    using P1(1) [of t] P2(1) [of t] P1(1) [of Accessible] P1(1) [of CoAccessible]
      parts_okD [OF parts, of t] acc(2) coacc ini by (cases t) auto
  show "bit (ConcatProperties p1 p2 False) (Suc (pos_bit t)) \<Longrightarrow> \<not> holds W g t"
    using P1(2) [of t] P2(2) [of t] parts_okD [OF parts, of t] ini str acc(1) coacc by (cases t) auto
qed

text \<open>
  The reachability of a concatenation, whatever the numbering of its states: \<open>\<phi>1\<close> and \<open>\<phi>2\<close> number
  the states of the two parts.
\<close>

definition concat_like ::
  "(nat \<Rightarrow> nat) \<Rightarrow> (nat \<Rightarrow> nat) \<Rightarrow> ('w, 'z) weight_ops_scheme \<Rightarrow> 'w vfst \<Rightarrow> 'w vfst \<Rightarrow> nat \<Rightarrow> 'w vfst \<Rightarrow> bool" where
  "concat_like \<phi>1 \<phi>2 W f1 f2 s2 g \<longleftrightarrow>
     (\<forall>s. s < NumStates g \<longleftrightarrow> (\<exists>r < NumStates f1. s = \<phi>1 r) \<or> (\<exists>r < NumStates f2. s = \<phi>2 r)) \<and>
     (\<forall>a < NumStates f1. \<forall>b < NumStates f1. (\<phi>1 a, \<phi>1 b) \<in> (edges g)\<^sup>* \<longleftrightarrow> (a, b) \<in> (edges f1)\<^sup>*) \<and>
     (\<forall>a < NumStates f2. \<forall>b. (\<phi>2 a, b) \<in> (edges g)\<^sup>* \<longleftrightarrow> (\<exists>c. b = \<phi>2 c \<and> (a, c) \<in> (edges f2)\<^sup>*)) \<and>
     (\<forall>a < NumStates f1. \<forall>b < NumStates f2. (\<phi>1 a, \<phi>2 b) \<in> (edges g)\<^sup>* \<longleftrightarrow>
        (\<exists>u. final_state W f1 u \<and> (a, u) \<in> (edges f1)\<^sup>* \<and> (s2, b) \<in> (edges f2)\<^sup>*)) \<and>
     (\<forall>r < NumStates f1. \<not> final_state W g (\<phi>1 r)) \<and>
     (\<forall>r < NumStates f2. final_state W g (\<phi>2 r) \<longleftrightarrow> final_state W f2 r) \<and> inj \<phi>2"

lemma concat_likeD:
  assumes "concat_like \<phi>1 \<phi>2 W f1 f2 s2 g"
  shows "s < NumStates g \<longleftrightarrow> (\<exists>r < NumStates f1. s = \<phi>1 r) \<or> (\<exists>r < NumStates f2. s = \<phi>2 r)"
    and "a < NumStates f1 \<Longrightarrow> b < NumStates f1 \<Longrightarrow> (\<phi>1 a, \<phi>1 b) \<in> (edges g)\<^sup>* \<longleftrightarrow> (a, b) \<in> (edges f1)\<^sup>*"
    and "c < NumStates f2 \<Longrightarrow> (\<phi>2 c, t) \<in> (edges g)\<^sup>* \<longleftrightarrow> (\<exists>d. t = \<phi>2 d \<and> (c, d) \<in> (edges f2)\<^sup>*)"
    and "a < NumStates f1 \<Longrightarrow> c < NumStates f2 \<Longrightarrow> (\<phi>1 a, \<phi>2 c) \<in> (edges g)\<^sup>* \<longleftrightarrow>
        (\<exists>u. final_state W f1 u \<and> (a, u) \<in> (edges f1)\<^sup>* \<and> (s2, c) \<in> (edges f2)\<^sup>*)"
    and "a < NumStates f1 \<Longrightarrow> \<not> final_state W g (\<phi>1 a)"
    and "c < NumStates f2 \<Longrightarrow> final_state W g (\<phi>2 c) \<longleftrightarrow> final_state W f2 c"
  using assms unfolding concat_like_def by auto

lemma concat_like_accessible:
  assumes c: "concat_like \<phi>1 \<phi>2 W f1 f2 s2 g" and s: "start f1 = Some s1" "start f2 = Some s2"
    and g: "start g = Some (\<phi>1 s1)" and n: "s1 < NumStates f1"
  shows "accessible g \<Longrightarrow> accessible f1 \<and> accessible f2"
    and "accessible f1 \<Longrightarrow> coaccessible W f1 \<Longrightarrow> accessible f2 \<Longrightarrow> accessible g"
proof -
  note C = concat_likeD [OF c]
  { assume "accessible g"
    then have acc: "t < NumStates g \<Longrightarrow> (\<phi>1 s1, t) \<in> (edges g)\<^sup>*" for t using g by (auto simp: accessible_def)
    have "(s1, r) \<in> (edges f1)\<^sup>*" if "r < NumStates f1" for r
      using acc [of "\<phi>1 r"] C(1) [of "\<phi>1 r"] C(2) [OF n that] that by blast
    moreover have "(s2, r) \<in> (edges f2)\<^sup>*" if "r < NumStates f2" for r
      using acc [of "\<phi>2 r"] C(1) [of "\<phi>2 r"] C(4) [OF n that] that by blast
    ultimately show "accessible f1 \<and> accessible f2" using s by (simp add: accessible_def) }
  assume a: "accessible f1" "coaccessible W f1" "accessible f2"
  have 1: "(\<phi>1 s1, \<phi>1 r) \<in> (edges g)\<^sup>*" if "r < NumStates f1" for r
    using C(2) [OF n that] that a(1) s(1) by (simp add: accessible_def)
  obtain u where u: "final_state W f1 u" "(s1, u) \<in> (edges f1)\<^sup>*" using a(2) n unfolding coaccessible_def by blast
  have 2: "(\<phi>1 s1, \<phi>2 r) \<in> (edges g)\<^sup>*" if "r < NumStates f2" for r
    using C(4) [OF n that] that u a(3) s(2) by (auto simp: accessible_def)
  show "accessible g" unfolding accessible_def
  proof (intro allI impI)
    fix t assume "t < NumStates g"
    then have "(\<phi>1 s1, t) \<in> (edges g)\<^sup>*" using C(1) [of t] 1 2 by blast
    then show "\<exists>i. start g = Some i \<and> (i, t) \<in> (edges g)\<^sup>*" using g by simp
  qed
qed

lemma concat_like_coaccessible:
  assumes c: "concat_like \<phi>1 \<phi>2 W f1 f2 s2 g" and n: "s2 < NumStates f2" and wf: "wf_fst f2"
  shows "coaccessible W g \<longleftrightarrow> coaccessible W f1 \<and> coaccessible W f2"
proof
  note C = concat_likeD [OF c]
  have in2: "b < NumStates f2" if "a < NumStates f2" "(a, b) \<in> (edges f2)\<^sup>*" for a b
    using that wf_trancl_less [OF wf, of a b] by (auto simp: rtrancl_eq_or_trancl)
  { assume co: "coaccessible W g"
    have "\<exists>u. (r, u) \<in> (edges f1)\<^sup>* \<and> final_state W f1 u" if r: "r < NumStates f1" for r
    proof -
      have "\<phi>1 r < NumStates g" using C(1) [of "\<phi>1 r"] r by blast
      then obtain t where t: "(\<phi>1 r, t) \<in> (edges g)\<^sup>*" "final_state W g t" using co by (auto simp: coaccessible_def)
      then have "t < NumStates g" by (simp add: final_state_def)
      then obtain t' where "t' < NumStates f2" "t = \<phi>2 t'" using C(1) [of t] C(5) t(2) by blast
      then show ?thesis using t(1) C(4) [OF r, of t'] by blast
    qed
    moreover have "\<exists>u. (r, u) \<in> (edges f2)\<^sup>* \<and> final_state W f2 u" if r: "r < NumStates f2" for r
    proof -
      have "\<phi>2 r < NumStates g" using C(1) [of "\<phi>2 r"] r by blast
      then obtain t where t: "(\<phi>2 r, t) \<in> (edges g)\<^sup>*" "final_state W g t" using co by (auto simp: coaccessible_def)
      then obtain u where u: "t = \<phi>2 u" "(r, u) \<in> (edges f2)\<^sup>*" using C(3) [OF r, of t] by blast
      then show ?thesis using t(2) C(6) [OF in2 [OF r u(2)]] by blast
    qed
    ultimately show "coaccessible W f1 \<and> coaccessible W f2" by (simp add: coaccessible_def) }
  { assume co: "coaccessible W f1 \<and> coaccessible W f2"
    have 2: "\<exists>t. (\<phi>2 r, t) \<in> (edges g)\<^sup>* \<and> final_state W g t" if r: "r < NumStates f2" for r
    proof -
      obtain u where u: "(r, u) \<in> (edges f2)\<^sup>*" "final_state W f2 u" using co r by (auto simp: coaccessible_def)
      then show ?thesis using C(3) [OF r, of "\<phi>2 u"] C(6) [OF in2 [OF r u(1)]] by blast
    qed
    have 1: "\<exists>t. (\<phi>1 r, t) \<in> (edges g)\<^sup>* \<and> final_state W g t" if r: "r < NumStates f1" for r
    proof -
      have "\<exists>u. (r, u) \<in> (edges f1)\<^sup>* \<and> final_state W f1 u" using co r by (simp add: coaccessible_def)
      then have "(\<phi>1 r, \<phi>2 s2) \<in> (edges g)\<^sup>*" using C(4) [OF r n] by blast
      then show ?thesis using 2 [OF n] by (meson rtrancl_trans)
    qed
    show "coaccessible W g" unfolding coaccessible_def
    proof (intro allI impI)
      fix t assume "t < NumStates g"
      then consider r where "r < NumStates f1" "t = \<phi>1 r" | r where "r < NumStates f2" "t = \<phi>2 r"
        using C(1) [of t] by blast
      then show "\<exists>u. (t, u) \<in> (edges g)\<^sup>* \<and> final_state W g u" using 1 2 by cases simp_all
    qed }
qed

subsection \<open>Concat into the first argument\<close>

lemma concatenated_two_parts:
  assumes wf: "wf_fst f1" "wf_fst f2" and Z: "Weq W (Zero W) (Zero W)" and s2: "start f2 = Some s2"
  shows "two_parts (\<lambda>r. if r < NumStates f1 then 0 else 1)
    {(r, b). final_state W f1 r \<and> b = Arc 0 0 (Final f1 r) (s2 + NumStates f1)} f1 f2 (concatenated W f1 f2)"
  using wf trans_concatenated [OF wf(2) Z s2, of f1]
  by (auto simp: two_parts_def final_state_def)

lemma concatenated_sub_arcs:
  assumes wf: "wf_fst f2" and Z: "Weq W (Zero W) (Zero W)"
  shows "sub_arcs (\<lambda>s. s) f1 (concatenated W f1 f2)"
    and "sub_arcs (\<lambda>s. s + NumStates f1) f2 (concatenated W f1 f2)"
  by (rule sub_arcs_left sub_arcs_right; simp add: concatenated_obs [OF wf Z])+

lemma concatenated_like:
  assumes wf: "wf_fst f1" "wf_fst f2" and Z: "Weq W (Zero W) (Zero W)" and s2: "start f2 = Some s2"
  shows "concat_like (\<lambda>s. s) (\<lambda>s. s + NumStates f1) W f1 f2 s2 (concatenated W f1 f2)"
    (is "concat_like _ _ W f1 f2 s2 ?g")
proof -
  let ?n = "NumStates f1"
  note O = concatenated_obs [OF wf(2) Z, where ?f1.0 = f1]
  note tp = concatenated_two_parts [OF wf Z s2] and sub = concatenated_sub_arcs [OF wf(2) Z, of f1]
  have 1: "(a, b) \<in> (edges ?g)\<^sup>* \<longleftrightarrow> (a, b) \<in> (edges f1)\<^sup>*" if "a < ?n" "b < ?n" for a b
    using that two_parts_left [OF tp, of a b] sub_arcs_rtrancl [OF sub(1), of a b] by auto
  have 2: "(a + ?n, b) \<in> (edges ?g)\<^sup>* \<longleftrightarrow> (\<exists>c. b = c + ?n \<and> (a, c) \<in> (edges f2)\<^sup>*)" for a b
    using two_parts_right [OF tp, of a b] sub_arcs_rtrancl [OF sub(2), of a] by auto
  have 3: "(a, b + ?n) \<in> (edges ?g)\<^sup>* \<longleftrightarrow>
      (\<exists>u. final_state W f1 u \<and> (a, u) \<in> (edges f1)\<^sup>* \<and> (s2, b) \<in> (edges f2)\<^sup>*)" if a: "a < ?n" for a b
  proof
    assume "(a, b + ?n) \<in> (edges ?g)\<^sup>*"
    from two_parts_cross [OF tp this] a obtain u where u: "final_state W f1 u" "(a, u) \<in> (edges ?g)\<^sup>*"
      "(s2 + ?n, b + ?n) \<in> (edges ?g)\<^sup>*" by auto
    then show "\<exists>u. final_state W f1 u \<and> (a, u) \<in> (edges f1)\<^sup>* \<and> (s2, b) \<in> (edges f2)\<^sup>*"
      using 1 [of a u] 2 [of s2 "b + ?n"] a by (auto simp: final_state_def)
  next
    assume "\<exists>u. final_state W f1 u \<and> (a, u) \<in> (edges f1)\<^sup>* \<and> (s2, b) \<in> (edges f2)\<^sup>*"
    then obtain u where u: "final_state W f1 u" "(a, u) \<in> (edges f1)\<^sup>*" "(s2, b) \<in> (edges f2)\<^sup>*" by blast
    have "(u, s2 + ?n) \<in> edges ?g" using u(1) trans_concatenated [OF wf(2) Z s2, of f1] by (force simp: edges_iff)
    then show "(a, b + ?n) \<in> (edges ?g)\<^sup>*"
      using sub_arcs_rtrancl [OF sub(1) u(2)] sub_arcs_rtrancl [OF sub(2) u(3)]
      by (meson rtrancl.rtrancl_into_rtrancl rtrancl_trans)
  qed
  have "s < NumStates ?g \<longleftrightarrow> (\<exists>r < ?n. s = r) \<or> (\<exists>r < NumStates f2. s = r + ?n)" for s
    by (auto simp: O(1) less_add_cases)
  moreover have "\<not> final_state W ?g r" if "r < ?n" for r using O(4) that by (simp add: final_state_def)
  moreover have "final_state W ?g (r + ?n) \<longleftrightarrow> final_state W f2 r" if "r < NumStates f2" for r
    using that by (simp add: final_state_def O)
  ultimately show ?thesis unfolding concat_like_def using 1 2 3 by (auto simp: inj_def)
qed

lemma concatenated_weighted:
  assumes wf: "wf_fst f2" and Z: "Weq W (Zero W) (Zero W)" and s2: "start f2 = Some s2"
  shows "holds W (concatenated W f1 f2) Weighted \<longleftrightarrow> holds W f1 Weighted \<or> holds W f2 Weighted"
    (is "holds W ?g _ \<longleftrightarrow> _")
proof -
  let ?n = "NumStates f1"
  let ?X = "{(r, b). final_state W f1 r \<and> b = Arc 0 0 (Final f1 r) (s2 + ?n)}"
  note O = concatenated_obs [OF wf Z, where ?f1.0 = f1]
  have "(\<exists>(s, a) \<in> ?X. nontrivial W (weight a)) \<longleftrightarrow> (\<exists>s < ?n. nontrivial W (Final f1 s))"
    by (auto simp: final_state_def nontrivial_def)
  moreover have "(\<exists>(s, a) \<in> shifted ?n (trans f2). nontrivial W (weight a)) \<longleftrightarrow>
      (\<exists>(s, a) \<in> trans f2. nontrivial W (weight a))" by (simp add: shifted_def case_prod_unfold)
  moreover have "(\<exists>s < NumStates ?g. nontrivial W (Final ?g s)) \<longleftrightarrow> (\<exists>s < NumStates f2. nontrivial W (Final f2 s))"
  proof -
    have "\<not> nontrivial W (Final ?g s)" if "s < ?n" for s using O(4) [OF that] by (simp add: nontrivial_def)
    then show ?thesis unfolding O(1) less_add_cases using O(5) by metis
  qed
  ultimately show ?thesis
    unfolding holds.simps weighted_def trans_concatenated [OF wf Z s2] bex_Un by blast
qed

text \<open>A concatenation is a string only if both parts are.\<close>

lemma concatenated_is_string:
  assumes wf: "wf_fst f1" "wf_fst f2" and Z: "Weq W (Zero W) (Zero W)"
    and s: "start f1 = Some s1" "start f2 = Some s2" and str: "is_string W (concatenated W f1 f2)"
  shows "is_string W f1 \<and> is_string W f2"
proof -
  let ?n = "NumStates f1" and ?g = "concatenated W f1 f2"
  note O = concatenated_obs [OF wf(2) Z, where ?f1.0 = f1]
  note n1 = wf_start [OF wf(1) s(1)] and n2 = wf_start [OF wf(2) s(2)]
  have f: "\<not> final_state W ?g r" if "r < ?n" for r using O(4) that by (simp add: final_state_def)
  have arcs: "nextstate a = r + 1" if "r < ?n" "a \<in> set (Arcs ?g r)" for r a
    using str that by (auto simp: is_string_def O(1))
  have one: "length (Arcs ?g r) = 1" if "r < ?n" for r using str that f by (simp add: is_string_def O(1))
  have fin1: "s2 + ?n = r + 1 \<and> Arcs f1 r = []" if "final_state W f1 r" for r
  proof -
    have r: "r < ?n" using that by (simp add: final_state_def)
    have e: "Arcs ?g r = Arcs f1 r @ [Arc 0 0 (Final f1 r) (s2 + ?n)]" using O(2) [OF r] that s(2) by simp
    then show ?thesis using one [OF r] arcs [OF r, of "Arc 0 0 (Final f1 r) (s2 + ?n)"] by simp
  qed
  have nofin: "Arcs ?g r = Arcs f1 r" if "r < ?n" "\<not> final_state W f1 r" for r using O(2) [OF that(1)] that by simp
  have last: "s2 = 0 \<and> final_state W f1 (?n - 1)"
  proof -
    have "?n - 1 < ?n" using n1 by simp
    moreover have "final_state W f1 (?n - 1)"
    proof (rule ccontr)
      assume nf: "\<not> final_state W f1 (?n - 1)"
      then obtain a where "Arcs f1 (?n - 1) = [a]"
        using one [of "?n - 1"] nofin [of "?n - 1"] n1 by (cases "Arcs f1 (?n - 1)") auto
      then show False
        using arcs [of "?n - 1" a] wf_target [OF wf(1), of "?n - 1" a] nofin [OF _ nf] n1 by simp
    qed
    ultimately show ?thesis using fin1 [of "?n - 1"] by simp
  qed
  have "is_string W f1" unfolding is_string_def
  proof (intro conjI allI impI ballI)
    show "start f1 = None \<or> start f1 = Some 0"
      using str s by (simp add: is_string_def states_concatenated(2) [OF wf(2)])
    fix r assume r: "r < ?n"
    show "nextstate a = r + 1" if "a \<in> set (Arcs f1 r)" for a
      using arcs [OF r, of a] O(2) [OF r] that by (cases "final_state W f1 r") simp_all
    show "r + 1 = ?n" if "final_state W f1 r" using fin1 [OF that] last by simp
    show "length (Arcs f1 r) = 1" if "\<not> final_state W f1 r" using one [OF r] nofin [OF r that] by simp
  qed
  moreover have "is_string W f2" unfolding is_string_def
  proof (intro conjI allI impI ballI)
    show "start f2 = None \<or> start f2 = Some 0" using last s by simp
    fix r assume r: "r < NumStates f2"
    then have rg: "r + ?n < NumStates ?g" by (simp add: O(1))
    have fr: "final_state W ?g (r + ?n) = final_state W f2 r" using r by (simp add: final_state_def O)
    have S: "\<forall>a \<in> set (Arcs ?g (r + ?n)). nextstate a = r + ?n + 1"
      "final_state W ?g (r + ?n) \<longrightarrow> r + ?n + 1 = NumStates ?g"
      "\<not> final_state W ?g (r + ?n) \<longrightarrow> length (Arcs ?g (r + ?n)) = 1"
      using str rg by (simp_all add: is_string_def)
    show "nextstate a = r + 1" if "a \<in> set (Arcs f2 r)" for a
      using S(1) that unfolding O(3) [OF r] by simp
    show "r + 1 = NumStates f2" if "final_state W f2 r" using S(2) that by (simp add: fr O(1))
    show "length (Arcs f2 r) = 1" if "\<not> final_state W f2 r" using S(3) that by (simp add: fr O(3) [OF r])
  qed
  ultimately show ?thesis by blast
qed

lemma concatenated_sound:
  assumes wf: "wf_fst f1" "wf_fst f2" and Z: "Weq W (Zero W) (Zero W)"
    and s: "start f1 = Some s1" "start f2 = Some s2" and p: "props_sound W f1 p1" "props_sound W f2 p2"
  shows "props_sound W (concatenated W f1 f2) (ConcatProperties p1 p2 False)" (is "props_sound W ?g _")
proof (rule ConcatProperties_sound [OF p])
  note n1 = wf_start [OF wf(1) s(1)] and n2 = wf_start [OF wf(2) s(2)]
  note tp = concatenated_two_parts [OF wf Z s(2)] and like = concatenated_like [OF wf Z s(2)]
  note start = states_concatenated(2) [OF wf(2), of W f1]
  show "parts_ok W f1 f2 ?g"
    by (rule parts_okI [OF tp concatenated_sub_arcs [OF wf(2) Z]])
      (auto simp: concatenated_weighted [OF wf(2) Z s(2)] simp del: holds.simps)
  show "holds W ?g InitialCyclic \<longleftrightarrow> holds W f1 InitialCyclic"
    using two_parts_trancl [OF tp, of s1 s1] sub_arcs_trancl [OF concatenated_sub_arcs(1) [OF wf(2) Z], of s1 s1 f1] n1
    by (auto simp: start s)
  show "holds W ?g IsString \<Longrightarrow> holds W f1 IsString \<and> holds W f2 IsString"
    using concatenated_is_string [OF wf Z s] by simp
  show "holds W ?g Accessible \<Longrightarrow> holds W f1 Accessible \<and> holds W f2 Accessible"
    and "holds W f1 Accessible \<Longrightarrow> holds W f1 CoAccessible \<Longrightarrow> holds W f2 Accessible \<Longrightarrow> holds W ?g Accessible"
    using concat_like_accessible [OF like s _ n1] by (simp_all add: start s)
  show "holds W ?g CoAccessible \<longleftrightarrow> holds W f1 CoAccessible \<and> holds W f2 CoAccessible"
    using concat_like_coaccessible [OF like n2 wf(2)] by simp
qed


lemma wf_concatenated:
  assumes wf: "wf_fst f1" "wf_fst f2"
  shows "wf_fst (concatenated W f1 f2)" (is "wf_fst ?g")
proof (rule wf_fstI)
  let ?q = "map_option (\<lambda>q. q + NumStates f1) (start f2)"
  note S = states_concatenated [OF wf(2), of W f1]
  have n: "NumStates ?g = NumStates f1 + NumStates f2" by (simp add: NumStates_def S)
  show "start ?g = Some s \<Longrightarrow> s < NumStates ?g" for s using wf_start [OF wf(1), of s] by (simp add: S n)
  fix s assume "s < NumStates ?g"
  then consider "s < NumStates f1" "states ?g ! s = concat_state W ?q (states f1 ! s)"
    | r where "r < NumStates f2" "states ?g ! s = shift_state (NumStates f1) (states f2 ! r)"
    by (auto simp: n less_add_cases S(1)) (auto simp: NumStates_def nth_append)
  then have "eps_counts_ok (states ?g ! s) \<and> (\<forall>a. a \<in> set (Arcs ?g s) \<longrightarrow> nextstate a < NumStates ?g)"
  proof cases
    case 1
    have q: "\<And>q. start f2 = Some q \<Longrightarrow> q < NumStates f2" using wf_start [OF wf(2)] .
    have "\<And>a. a \<in> set (arcs (states f1 ! s)) \<Longrightarrow> nextstate a < NumStates f1" using wf_arcs [OF wf(1) 1(1)] .
    then show ?thesis
      using 1 wf_eps [OF wf(1) 1(1)] q
      by (auto simp: Arcs_def concat_state_def n eps_counts_final split: option.splits
          intro!: eps_counts_StateAddArc) (auto intro: trans_less_add1)
  next
    case 2
    then show ?thesis
      using wf_eps [OF wf(2) 2(1)] wf_arcs [OF wf(2) 2(1)]
      by (auto simp: Arcs_def n eps_counts_shift shift_arc_def)
  qed
  then show "eps_counts_ok (states ?g ! s)" "a \<in> set (Arcs ?g s) \<Longrightarrow> nextstate a < NumStates ?g" for a
    by blast+
qed

lemma concat_final_sound:
  "props_sound W f (properties f) \<Longrightarrow> s < NumStates f \<Longrightarrow>
    props_sound W (concat_final W q n s f) (properties (concat_final W q n s f))"
  unfolding concat_final_def Let_def
  by (auto split: option.split intro!: AddArc_sound SetFinal_sound simp: NumStates_def)

lemma NumStates_concat_final [simp]: "NumStates (concat_final W q n s f) = NumStates f"
  by (auto simp: concat_final_def Let_def NumStates_def split: option.split)

lemma static_concat_final:
  "k \<in> {0, 1} \<Longrightarrow> s < NumStates f \<Longrightarrow> bit (properties (concat_final W q n s f)) k = bit (properties f) k"
  unfolding concat_final_def Let_def
  by (auto split: option.split simp: static_ops NumStates_def simp del: insert_iff)

text \<open>What the loops keep: the soundness of the properties and the static bits.\<close>

definition sound_static :: "('w, 'z) weight_ops_scheme \<Rightarrow> nat \<Rightarrow> 'w vfst \<Rightarrow> bool" where
  "sound_static W n f \<longleftrightarrow> NumStates f = n \<and> props_sound W f (properties f) \<and>
     bit (properties f) 0 \<and> bit (properties f) 1"

lemma fold_concat_final:
  assumes "sound_static W m f" "\<And>s. s \<in> set xs \<Longrightarrow> s < m"
  shows "sound_static W m (fold (concat_final W q n) xs f)"
  using assms(2,1)
  by (rule fold_invariant [where P = "sound_static W m"])
    (auto simp: sound_static_def concat_final_sound static_concat_final)

lemma concatenated_ok:
  assumes "fst_ok W f1" "wf_fst f2" and Z: "Weq W (Zero W) (Zero W)"
  shows "fst_ok W (concatenated W f1 f2)"
proof -
  let ?h = "fold (append_state W (NumStates f1) f2) [0 ..< NumStates f2] f1"
  have wf: "wf_fst f1" and p: "props_sound W f1 (properties f1)" using assms(1) by (auto simp: fst_ok_def)
  have "props_sound W ?h (properties ?h)" by (intro append_loop_sound p Z)
  moreover have "bit (properties ?h) k" if "k \<in> {0, 1}" for k
    using that assms(1) by (auto simp: static_append_loop fst_ok_def)
  ultimately have "sound_static W (NumStates f1 + NumStates f2) ?h"
    by (simp add: sound_static_def append_loop_obs [OF assms(2)])
  then have "sound_static W (NumStates f1 + NumStates f2) (concatenated W f1 f2)"
    unfolding concatenated_def by (rule fold_concat_final) simp
  then show ?thesis
    using wf_concatenated [OF wf assms(2), of W] by (simp add: fst_ok_def sound_static_def)
qed

lemma SetError_ok: "fst_ok W f \<Longrightarrow> fst_ok W (SetPropertiesMask kError kError f)"
  using props_sound_SetError [of W f] by (auto simp: fst_ok_def static_ops)

lemma ConcatProperties_static:
  "k \<in> {0, 1} \<Longrightarrow> bit p1 k \<Longrightarrow> bit (ConcatProperties p1 p2 False) k"
  by (auto simp: ConcatProperties_def Let_def prop_bits)

lemma Properties_static: "k \<in> {0, 1} \<Longrightarrow> bit (properties f) k \<Longrightarrow> bit (Properties f kFstProperties) k"
  by (auto simp: Properties_def bit_and_iff bit_or_iff kFstProperties_def kBinaryProperties_def)

theorem concat_ok:
  assumes ok: "fst_ok W f1" "fst_ok W f2" and Z: "Weq W (Zero W) (Zero W)"
  shows "fst_ok W (Concat flag W f1 f2)"
proof -
  have wf: "wf_fst f1" "wf_fst f2" and p: "props_sound W f1 (properties f1)" "props_sound W f2 (properties f2)"
    using ok by (auto simp: fst_ok_def)
  note cok = concatenated_ok [OF ok(1) wf(2) Z]
  show ?thesis
  proof (cases "symbols_match flag f1 f2")
    case sym: True
    show ?thesis
    proof (cases "start f1"; cases "start f2")
      fix s1 s2 assume s: "start f1 = Some s1" "start f2 = Some s2"
      have "fst_ok W (SetPropertiesMask (ConcatProperties (Properties f1 kFstProperties)
          (Properties f2 kFstProperties) False) kFstProperties (concatenated W f1 f2))"
        using cok ok(1) props_sound_SetPropertiesMask
          [OF concatenated_sound [OF wf Z s p [THEN props_sound_Properties]]]
        by (simp add: fst_ok_def static_ops ConcatProperties_static Properties_static)
      then show ?thesis unfolding Concat_eq(2) [OF sym s] .
    next
      fix s1 assume s: "start f1 = Some s1" "start f2 = None"
      show ?thesis unfolding Concat_eq(3) [OF sym s] using cok SetError_ok by auto
    qed (use sym ok(1) SetError_ok in \<open>auto simp: Concat_def symbols_match_def Let_def\<close>)
  next
    case False
    then show ?thesis using SetError_ok [OF ok(1)] by (auto simp: Concat_def symbols_match_def)
  qed
qed

end
