(* ===== verification/ClosureSound.thy ===== *)
theory ClosureSound
  imports ConcatSound
begin

text \<open>
  The second form of \<open>Concat\<close> and \<open>Closure\<close> keep the invariant of VectorFst, and the list forms of
  \<open>Union\<close> and \<open>Concat\<close> do so too.
\<close>

unbundle bit_operations_syntax

section \<open>Concat into the second argument\<close>

lemma edges_SetStart [simp]: "edges (SetStart i f) = edges f"
  by (simp add: edges_def)

lemma prepended_two_parts:
  assumes wf: "wf_fst f1" "wf_fst f2" and s2: "s2 < NumStates f2"
  shows "two_parts (\<lambda>r. if r < NumStates f2 then 1 else 0)
    {(u, b). \<exists>r. u = r + NumStates f2 \<and> final_state W f1 r \<and> b = Arc 0 0 (Final f1 r) s2} f2 f1
    (SetStart i (prepended W s2 f1 f2))"
  using wf s2 trans_prepended [where W = W and ?f1.0 = f1 and ?f2.0 = f2 and ?s2.0 = s2]
  by (auto simp: two_parts_def final_state_def)

lemma prepended_sub_arcs:
  "sub_arcs (\<lambda>s. s) f2 (SetStart i (prepended W s2 f1 f2))"
  "sub_arcs (\<lambda>s. s + NumStates f2) f1 (SetStart i (prepended W s2 f1 f2))"
  by (rule sub_arcs_left sub_arcs_right; simp add: prepended_obs list_emb_Cons)+

lemma prepended_like:
  assumes wf: "wf_fst f1" "wf_fst f2" and Z: "Weq W (Zero W) (Zero W)" and s2: "s2 < NumStates f2"
  shows "concat_like (\<lambda>s. s + NumStates f2) (\<lambda>s. s) W f1 f2 s2 (SetStart i (prepended W s2 f1 f2))"
    (is "concat_like _ _ W f1 f2 s2 ?g")
proof -
  let ?n = "NumStates f2"
  note O = prepended_obs [where W = W and ?f1.0 = f1 and ?f2.0 = f2 and ?s2.0 = s2]
  note tp = prepended_two_parts [OF wf s2, where W = W and i = i] and sub = prepended_sub_arcs [where ?f2.0 = f2 and i = i and W = W and ?s2.0 = s2 and ?f1.0 = f1]
  have 1: "(a + ?n, b + ?n) \<in> (edges ?g)\<^sup>* \<longleftrightarrow> (a, b) \<in> (edges f1)\<^sup>*" for a b
    using two_parts_right [OF tp, of a "b + ?n"] sub_arcs_rtrancl [OF sub(2), of a b] by auto
  have 2: "(a, b) \<in> (edges ?g)\<^sup>* \<longleftrightarrow> (a, b) \<in> (edges f2)\<^sup>*" if "a < ?n" for a b
    using that two_parts_left [OF tp, of a b] sub_arcs_rtrancl [OF sub(1), of a b] by auto
  have 3: "(a + ?n, b) \<in> (edges ?g)\<^sup>* \<longleftrightarrow>
      (\<exists>u. final_state W f1 u \<and> (a, u) \<in> (edges f1)\<^sup>* \<and> (s2, b) \<in> (edges f2)\<^sup>*)" if b: "b < ?n" for a b
  proof
    assume "(a + ?n, b) \<in> (edges ?g)\<^sup>*"
    from two_parts_cross [OF tp this] b obtain u where u: "final_state W f1 u" "(a + ?n, u + ?n) \<in> (edges ?g)\<^sup>*"
      "(s2, b) \<in> (edges ?g)\<^sup>*" by auto
    then show "\<exists>u. final_state W f1 u \<and> (a, u) \<in> (edges f1)\<^sup>* \<and> (s2, b) \<in> (edges f2)\<^sup>*"
      using 1 [of a u] 2 [OF s2] by blast
  next
    assume "\<exists>u. final_state W f1 u \<and> (a, u) \<in> (edges f1)\<^sup>* \<and> (s2, b) \<in> (edges f2)\<^sup>*"
    then obtain u where u: "final_state W f1 u" "(a, u) \<in> (edges f1)\<^sup>*" "(s2, b) \<in> (edges f2)\<^sup>*" by blast
    have "(u + ?n, s2) \<in> edges ?g"
      using u(1) trans_prepended [where W = W and ?f1.0 = f1 and ?f2.0 = f2 and ?s2.0 = s2]
      by (force simp: edges_iff)
    then show "(a + ?n, b) \<in> (edges ?g)\<^sup>*"
      using sub_arcs_rtrancl [OF sub(2) u(2)] sub_arcs_rtrancl [OF sub(1) u(3)]
      by (meson rtrancl.rtrancl_into_rtrancl rtrancl_trans)
  qed
  have "s < NumStates ?g \<longleftrightarrow> (\<exists>r < NumStates f1. s = r + ?n) \<or> (\<exists>r < ?n. s = r)" for s
    by (auto simp: O(1) less_add_cases)
  moreover have "\<not> final_state W ?g (r + ?n)" if "r < NumStates f1" for r
    using O(5) that Z by (simp add: final_state_def)
  moreover have "final_state W ?g r \<longleftrightarrow> final_state W f2 r" if "r < ?n" for r
    using that by (simp add: final_state_def O)
  ultimately show ?thesis unfolding concat_like_def using 1 2 3 by (auto simp: inj_def)
qed

lemma prepended_weighted:
  assumes Z: "Weq W (Zero W) (Zero W)"
  shows "holds W (SetStart i (prepended W s2 f1 f2)) Weighted \<longleftrightarrow> holds W f2 Weighted \<or> holds W f1 Weighted"
    (is "holds W ?g _ \<longleftrightarrow> _")
proof -
  let ?n = "NumStates f2"
  let ?X = "{(u, b). \<exists>r. u = r + ?n \<and> final_state W f1 r \<and> b = Arc 0 0 (Final f1 r) s2}"
  note O = prepended_obs [where W = W and ?f1.0 = f1 and ?f2.0 = f2 and ?s2.0 = s2]
  have "(\<exists>(s, a) \<in> ?X. nontrivial W (weight a)) \<longleftrightarrow> (\<exists>s < NumStates f1. nontrivial W (Final f1 s))"
    by (fastforce simp: final_state_def nontrivial_def)
  moreover have "(\<exists>(s, a) \<in> shifted ?n (trans f1). nontrivial W (weight a)) \<longleftrightarrow>
      (\<exists>(s, a) \<in> trans f1. nontrivial W (weight a))" by (simp add: shifted_def case_prod_unfold)
  moreover have "(\<exists>s < NumStates ?g. nontrivial W (Final ?g s)) \<longleftrightarrow> (\<exists>s < ?n. nontrivial W (Final f2 s))"
  proof -
    have "\<not> nontrivial W (Final ?g (s + ?n))" if "s < NumStates f1" for s
      using O(5) [OF that] Z by (simp add: nontrivial_def)
    moreover have "Final ?g s = Final f2 s" if "s < ?n" for s using O(3) [OF that] by simp
    moreover have ns: "NumStates ?g = ?n + NumStates f1" by (simp add: O(1))
    ultimately show ?thesis unfolding ns less_add_cases by metis
  qed
  ultimately show ?thesis
    unfolding holds.simps weighted_def obs_SetStart(2) trans_prepended bex_Un by blast
qed

lemma prepended_sound:
  assumes wf: "wf_fst f1" "wf_fst f2" and Z: "Weq W (Zero W) (Zero W)"
    and s: "start f1 = Some s1" "start f2 = Some s2" and p: "props_sound W f1 p1" "props_sound W f2 p2"
  defines "g \<equiv> SetStart (Some (s1 + NumStates f2)) (prepended W s2 f1 f2)"
  shows "props_sound W g (ConcatProperties p1 p2 False)"
proof (rule ConcatProperties_sound [OF p])
  note n1 = wf_start [OF wf(1) s(1)] and n2 = wf_start [OF wf(2) s(2)]
  note tp = prepended_two_parts [OF wf n2, where W = W and i = "Some (s1 + NumStates f2)", folded g_def]
    and like = prepended_like [OF wf Z n2, where i = "Some (s1 + NumStates f2)", folded g_def]
    and sub = prepended_sub_arcs [where ?f2.0 = f2 and i = "Some (s1 + NumStates f2)" and W = W and ?s2.0 = s2
        and ?f1.0 = f1, folded g_def]
  have start: "start g = Some (s1 + NumStates f2)" by (simp add: g_def)
  have "parts_ok W f2 f1 g"
    using prepended_weighted [OF Z] by (intro parts_okI [OF tp sub]) (auto simp: g_def simp del: holds.simps)
  then show "parts_ok W f1 f2 g" by (simp add: parts_ok_swap)
  have "(s1 + NumStates f2, s1 + NumStates f2) \<notin> (edges f2)\<^sup>+" using wf_trancl_less [OF wf(2)] by force
  then show "holds W g InitialCyclic \<longleftrightarrow> holds W f1 InitialCyclic"
    using two_parts_trancl [OF tp, of "s1 + NumStates f2" "s1 + NumStates f2"]
      sub_arcs_trancl [OF sub(2), of s1 s1] by (auto simp: start s)
  show "holds W g IsString \<Longrightarrow> holds W f1 IsString \<and> holds W f2 IsString"
    using n2 by (simp add: is_string_def start)
  show "holds W g Accessible \<Longrightarrow> holds W f1 Accessible \<and> holds W f2 Accessible"
    and "holds W f1 Accessible \<Longrightarrow> holds W f1 CoAccessible \<Longrightarrow> holds W f2 Accessible \<Longrightarrow> holds W g Accessible"
    using concat_like_accessible [OF like s _ n1] by (simp_all add: start)
  show "holds W g CoAccessible \<longleftrightarrow> holds W f1 CoAccessible \<and> holds W f2 CoAccessible"
    using concat_like_coaccessible [OF like n2 wf(2)] by simp
qed

lemma wf_prepended:
  assumes wf: "wf_fst f1" "wf_fst f2" and s2: "s2 < NumStates f2"
  shows "wf_fst (prepended W s2 f1 f2)" (is "wf_fst ?g")
proof (rule wf_fstI)
  note O = prepended_obs [where W = W and ?f1.0 = f1 and ?f2.0 = f2 and ?s2.0 = s2]
  show "start ?g = Some s \<Longrightarrow> s < NumStates ?g" for s
    using wf_start [OF wf(2), of s] by (simp add: states_prepended O)
  fix s assume "s < NumStates ?g"
  then consider "s < NumStates f2" | r where "r < NumStates f1" "s = r + NumStates f2"
    by (auto simp: O less_add_cases)
  then have "eps_counts_ok (states ?g ! s) \<and> (\<forall>a \<in> set (Arcs ?g s). nextstate a < NumStates f2 + NumStates f1)"
  proof cases
    case 1
    then have "states ?g ! s = states f2 ! s" by (simp add: states_prepended nth_append NumStates_def)
    then show ?thesis using 1 wf_eps [OF wf(2), of s] wf_target [OF wf(2) 1]
      by (auto simp: O intro: trans_less_add1)
  next
    case 2
    have "eps_counts_ok (states ?g ! s)" using 2 by (simp add: states_prepended NumStates_def nth_append)
    moreover have "nextstate a < NumStates f2 + NumStates f1" if "a \<in> set (Arcs ?g s)" for a
      using that 2 s2 wf_target [OF wf(1) 2(1)] O(4) [OF 2(1)] by (cases "final_state W f1 r") auto
    ultimately show ?thesis by blast
  qed
  then show "eps_counts_ok (states ?g ! s)" "a \<in> set (Arcs ?g s) \<Longrightarrow> nextstate a < NumStates ?g" for a
    by (simp_all add: O)
qed


lemma prepend_state_sound:
  assumes "props_sound W f (properties f)" and Z: "Weq W (Zero W) (Zero W)"
  shows "props_sound W (prepend_state W n s2 f1 s f) (properties (prepend_state W n s2 f1 s f))"
proof -
  have "props_sound W (AddState W f) (properties (AddState W f))" using assms by (rule AddState_sound)
  then have "props_sound W (AddArc W (NumStates f) a (AddState W f)) (properties (AddArc W (NumStates f) a (AddState W f)))"
    for a by (rule AddArc_sound) simp
  then show ?thesis unfolding prepend_state_def Let_def
    using AddState_sound [OF assms] by (intro fold_AddArc_sound) auto
qed

lemma static_prepend_state:
  "k \<in> {0, 1} \<Longrightarrow> bit (properties (prepend_state W n s2 f1 s f)) k = bit (properties f) k"
  unfolding prepend_state_def Let_def
  by (simp add: static_fold_AddArc static_ops del: insert_iff)

lemma prepended_ok:
  assumes "fst_ok W f2" "wf_fst f1" and Z: "Weq W (Zero W) (Zero W)" and s2: "s2 < NumStates f2"
  shows "fst_ok W (prepended W s2 f1 f2)"
proof -
  have "props_sound W (prepended W s2 f1 f2) (properties (prepended W s2 f1 f2)) \<and>
      bit (properties (prepended W s2 f1 f2)) 0 \<and> bit (properties (prepended W s2 f1 f2)) 1"
    unfolding prepended_def
    by (rule fold_invariant [where Q = "\<lambda>_. True"])
      (use assms in \<open>auto simp: fst_ok_def prepend_state_sound static_prepend_state\<close>)
  then show ?thesis using wf_prepended [OF assms(2) _ s2] assms(1) by (simp add: fst_ok_def)
qed

lemma SetStart_ok: "fst_ok W f \<Longrightarrow> (\<And>i. s = Some i \<Longrightarrow> i < NumStates f) \<Longrightarrow> fst_ok W (SetStart s f)"
  by (auto simp: fst_ok_def SetStart_sound wf_ops static_ops)

lemma AddState_ok: "fst_ok W f \<Longrightarrow> Weq W (Zero W) (Zero W) \<Longrightarrow> fst_ok W (AddState W f)"
  by (auto simp: fst_ok_def AddState_sound wf_ops static_ops)

theorem concat_left_ok:
  assumes ok: "fst_ok W f1" "fst_ok W f2" and Z: "Weq W (Zero W) (Zero W)"
  shows "fst_ok W (ConcatLeft flag W f1 f2)"
proof (cases "symbols_match flag f1 f2")
  case sym: True
  have wf: "wf_fst f1" "wf_fst f2" and p: "props_sound W f1 (properties f1)" "props_sound W f2 (properties f2)"
    using ok by (auto simp: fst_ok_def)
  show ?thesis
  proof (cases "start f2")
    case None
    then show ?thesis using sym ok(2) SetError_ok [OF ok(2)] by (simp add: ConcatLeft_def symbols_match_def Let_def)
  next
    case s2: (Some s2)
    note pok = prepended_ok [OF ok(2) wf(1) Z wf_start [OF wf(2) s2]]
    show ?thesis
    proof (cases "start f1")
      case s1: (Some s1)
      let ?g = "SetStart (Some (s1 + NumStates f2)) (prepended W s2 f1 f2)"
      have "wf_fst ?g"
        using pok wf_start [OF wf(1) s1] by (intro wf_ops) (auto simp: fst_ok_def prepended_obs)
      then have "fst_ok W (SetPropertiesMask (ConcatProperties (Properties f1 kFstProperties)
          (Properties f2 kFstProperties) False) kFstProperties ?g)"
        using ok(1) props_sound_SetPropertiesMask
          [OF prepended_sound [OF wf Z s1 s2 p [THEN props_sound_Properties]]]
        by (simp add: fst_ok_def static_ops ConcatProperties_static Properties_static)
      then show ?thesis unfolding ConcatLeft_eq(2) [OF sym s1 s2] .
    next
      case s1: None
      have "fst_ok W (SetStart (Some (NumStates (prepended W s2 f1 f2))) (AddState W (prepended W s2 f1 f2)))"
        using pok Z by (intro SetStart_ok AddState_ok) auto
      then show ?thesis unfolding ConcatLeft_eq(3) [OF sym s1 s2] using SetError_ok [OF pok] by simp
    qed
  qed
next
  case False
  then show ?thesis using SetError_ok [OF ok(2)] by (auto simp: ConcatLeft_def symbols_match_def)
qed

section \<open>Closure\<close>

lemma edges_looped: "edges (looped W f) = edges f \<union> {(r, s0). start f = Some s0 \<and> final_state W f r}"
  by (force simp: edges_def trans_looped image_Un)

lemma looped_rtrancl:
  assumes "(a, b) \<in> (edges (looped W f))\<^sup>*"
  shows "(a, b) \<in> (edges f)\<^sup>* \<or>
    (\<exists>s0 u. start f = Some s0 \<and> final_state W f u \<and> (a, u) \<in> (edges f)\<^sup>* \<and> (s0, b) \<in> (edges f)\<^sup>*)"
  using assms
proof (induction rule: rtrancl_induct)
  case (step b c)
  from step(2) consider "(b, c) \<in> edges f" | "start f = Some c" "final_state W f b"
    by (auto simp: edges_looped)
  then show ?case
  proof cases
    case 1
    then show ?thesis using step.IH by (meson rtrancl.rtrancl_into_rtrancl)
  next
    case 2
    then show ?thesis using step.IH by blast
  qed
qed simp

lemma edges_sub_looped: "(a, b) \<in> (edges f)\<^sup>* \<Longrightarrow> (a, b) \<in> (edges (looped W f))\<^sup>*"
  by (erule rtrancl_sub) (auto simp: edges_looped)

lemma looped_from_start:
  "start f = Some s0 \<Longrightarrow> (s0, b) \<in> (edges (looped W f))\<^sup>* \<longleftrightarrow> (s0, b) \<in> (edges f)\<^sup>*"
  using looped_rtrancl [of s0 b W f] edges_sub_looped [of s0 b f W] by auto

text \<open>The edges of the star: a new state that nothing leads to, and the loops.\<close>

lemma edges_starred:
  "edges (starred W f) = edges (looped W f) \<union> {(n, s0). n = NumStates f \<and> start f = Some s0}"
  by (force simp: edges_def starred_obs image_Un)

lemma starred_rtrancl:
  assumes wf: "wf_fst f" and r: "(a, b) \<in> (edges (starred W f))\<^sup>*"
  shows "(a, b) \<in> (edges (looped W f))\<^sup>* \<or>
    a = NumStates f \<and> (\<exists>s0. start f = Some s0 \<and> (s0, b) \<in> (edges (looped W f))\<^sup>*)"
  using r
proof (induction rule: rtrancl_induct)
  case (step b c)
  from step(2) consider "(b, c) \<in> edges (looped W f)" | "b = NumStates f" "start f = Some c"
    by (auto simp: edges_starred)
  then show ?case
  proof cases
    case 1
    then show ?thesis using step.IH by (meson rtrancl.rtrancl_into_rtrancl)
  next
    case 2
    have no: "(x, NumStates f) \<notin> edges (looped W f)" for x
      using looped_wf_trans [OF wf, of x _ W] by (fastforce simp: edges_iff)
    have "y = NumStates f" if "(y, NumStates f) \<in> (edges (looped W f))\<^sup>*" for y
      using that no by (metis rtranclE)
    then have "a = NumStates f" using step.IH 2 wf_start [OF wf] by auto
    then show ?thesis using 2 by auto
  qed
qed simp


text \<open>The properties of the two closures.\<close>

definition closure_facts :: "('w, 'z) weight_ops_scheme \<Rightarrow> 'w vfst \<Rightarrow> 'w vfst \<Rightarrow> bool" where
  "closure_facts W f g \<longleftrightarrow> sub_arcs (\<lambda>s. s) f g \<and>
     (holds W f Acceptor \<longrightarrow> holds W g Acceptor) \<and>
     (holds W g Weighted \<longleftrightarrow> holds W f Weighted) \<and>
     (holds W g WeightedCycles \<longrightarrow> holds W f Weighted) \<and>
     (holds W g IsString \<longrightarrow> holds W f IsString) \<and>
     (holds W g Accessible \<longleftrightarrow> holds W f Accessible) \<and>
     (holds W g CoAccessible \<longleftrightarrow> holds W f CoAccessible) \<and>
     (holds W f Weighted \<and> holds W f Accessible \<and> holds W f CoAccessible \<longrightarrow> holds W g WeightedCycles)"

lemma ClosureProperties_sound:
  assumes p: "props_sound W f p" and c: "closure_facts W f g"
  shows "props_sound W g (ClosureProperties p star False)"
proof (rule props_soundI)
  fix t
  note P = props_soundD [OF p]
  note C = c [unfolded closure_facts_def]
  have sub: "sub_arcs (\<lambda>s. s) f g" using C by blast
  note pos = sub_arcs_positive [OF sub, of t W] and neg = sub_arcs_negative [OF sub, of t W]
  have acc: "holds W f Acceptor \<Longrightarrow> holds W g Acceptor"
    and wt: "holds W g Weighted \<longleftrightarrow> holds W f Weighted"
    and cyc: "holds W g WeightedCycles \<Longrightarrow> holds W f Weighted"
    and str: "holds W g IsString \<Longrightarrow> holds W f IsString"
    and con: "holds W g Accessible \<longleftrightarrow> holds W f Accessible" "holds W g CoAccessible \<longleftrightarrow> holds W f CoAccessible"
    and wc: "holds W f Weighted \<Longrightarrow> holds W f Accessible \<Longrightarrow> holds W f CoAccessible \<Longrightarrow> holds W g WeightedCycles"
    using C by blast+
  note [simp del] = holds.simps
  note [simp] = prop_bits Let_def ClosureProperties_def
  show "bit (ClosureProperties p star False) (pos_bit t) \<Longrightarrow> holds W g t"
    using P(1) [of t] P(1) [of Weighted] P(1) [of Accessible] P(1) [of CoAccessible] neg
    by (cases t) (auto simp: wt con intro: acc wc split: if_split_asm)
  show "bit (ClosureProperties p star False) (Suc (pos_bit t)) \<Longrightarrow> \<not> holds W g t"
    using P(2) [of t] P(2) [of Weighted] pos
    by (cases t) (auto simp: wt con dest: str cyc split: if_split_asm)
qed

lemma looped_weighted: "weighted W (looped W f) \<longleftrightarrow> weighted W f"
proof -
  have "final_state W f r \<Longrightarrow> r < NumStates f" for r by (simp add: final_state_def)
  then show ?thesis unfolding weighted_def looped_obs(1) trans_looped
    using looped_obs(2) [of _ f W] by fastforce
qed

lemma weighted_cycles_weighted: "weighted_cycles W f \<Longrightarrow> weighted W f"
  by (auto simp: weighted_cycles_def weighted_def)

lemma final_state_looped [simp]: "final_state W (looped W f) r \<longleftrightarrow> final_state W f r"
  by (auto simp: final_state_def looped_obs)

lemma looped_sub_arcs: "sub_arcs (\<lambda>s. s) f (looped W f)"
  by (rule sub_arcs_left) (simp_all add: looped_obs)

lemma looped_weighted_cycles:
  assumes wf: "wf_fst f" and h: "weighted W f" "accessible f" "coaccessible W f"
  shows "weighted_cycles W (looped W f)"
proof -
  obtain s0 where s0: "start f = Some s0"
    using h(1,2) by (auto simp: weighted_def accessible_def trans_iff)
  have return: "(r, s0) \<in> (edges (looped W f))\<^sup>*" if r: "r < NumStates f" for r
  proof -
    obtain t where "(r, t) \<in> (edges f)\<^sup>*" "final_state W f t" using h(3) r by (auto simp: coaccessible_def)
    moreover from this have "(t, s0) \<in> edges (looped W f)" using s0 by (simp add: edges_looped)
    ultimately show ?thesis using edges_sub_looped [of r t f W] by (meson rtrancl.rtrancl_into_rtrancl)
  qed
  have acc: "(s0, r) \<in> (edges (looped W f))\<^sup>*" if "r < NumStates f" for r
    using h(2) s0 that by (auto simp: accessible_def intro: edges_sub_looped)
  from h(1) consider s a where "(s, a) \<in> trans f" "nontrivial W (weight a)"
    | s where "s < NumStates f" "nontrivial W (Final f s)"
    by (auto simp: weighted_def)
  then show ?thesis
  proof cases
    case 1
    then have "(nextstate a, s) \<in> (edges (looped W f))\<^sup>*"
      using return [of "nextstate a"] acc [of s] wf_trans [OF wf 1(1)] by (auto simp: trans_iff intro: rtrancl_trans)
    then show ?thesis using 1 unfolding weighted_cycles_def trans_looped by blast
  next
    case 2
    then have "final_state W f s" by (simp add: final_state_def nontrivial_def)
    then have "(s, Arc 0 0 (Final f s) s0) \<in> trans (looped W f)" using s0 by (simp add: trans_looped)
    then show ?thesis using 2 acc [of s] unfolding weighted_cycles_def by (intro bexI [of _ "(s, Arc 0 0 (Final f s) s0)"]) simp_all
  qed
qed

lemma looped_coaccessible: "coaccessible W (looped W f) \<longleftrightarrow> coaccessible W f"
proof -
  have "(\<exists>t. (r, t) \<in> (edges (looped W f))\<^sup>* \<and> final_state W f t) \<longleftrightarrow> (\<exists>t. (r, t) \<in> (edges f)\<^sup>* \<and> final_state W f t)" for r
    using looped_rtrancl [of r _ W f] edges_sub_looped [of r _ f W] by blast
  then show ?thesis by (simp add: coaccessible_def looped_obs)
qed

lemma looped_accessible: "accessible (looped W f) \<longleftrightarrow> accessible f"
  using looped_from_start [of f _ _ W]
  by (cases "start f") (simp_all add: accessible_def looped_obs states_looped(2))

lemma looped_is_string:
  assumes "is_string W (looped W f)"
  shows "is_string W f"
proof -
  have "length (Arcs (looped W f) s) = length (Arcs f s)" if "s < NumStates f" "\<not> final_state W f s" for s
    using that looped_obs(3) [of s f W] by (simp split: option.splits)
  moreover have "set (Arcs f s) \<subseteq> set (Arcs (looped W f) s)" if "s < NumStates f" for s
    using looped_obs(3) [OF that, of W] by simp
  moreover have st: "start f = None \<or> start f = Some 0"
    and g: "\<And>s. s < NumStates f \<Longrightarrow> (\<forall>a \<in> set (Arcs (looped W f) s). nextstate a = s + 1) \<and>
        (final_state W f s \<longrightarrow> s + 1 = NumStates f) \<and>
        (\<not> final_state W f s \<longrightarrow> length (Arcs (looped W f) s) = 1)"
    using assms unfolding is_string_def looped_obs(1) states_looped(2) final_state_looped by auto
  ultimately show ?thesis
    unfolding is_string_def using st g by (intro conjI allI impI ballI) (simp, blast, simp, simp)
qed

lemma looped_facts:
  assumes wf: "wf_fst f"
  shows "closure_facts W f (looped W f)"
  unfolding closure_facts_def
proof (intro conjI)
  show "sub_arcs (\<lambda>s. s) f (looped W f)" by (rule looped_sub_arcs)
  show "holds W f Acceptor \<longrightarrow> holds W (looped W f) Acceptor"
    by (auto simp: trans_looped)
  show "holds W f Weighted \<and> holds W f Accessible \<and> holds W f CoAccessible
      \<longrightarrow> holds W (looped W f) WeightedCycles"
    using looped_weighted_cycles [OF wf, of W] by simp
  show "holds W (looped W f) IsString \<longrightarrow> holds W f IsString"
    using looped_is_string [of W f] by simp
  show "holds W (looped W f) WeightedCycles \<longrightarrow> holds W f Weighted"
    using weighted_cycles_weighted [of W "looped W f"] by (simp add: looped_weighted)
qed (simp_all add: looped_weighted looped_accessible looped_coaccessible)


lemma final_state_starred:
  "r < NumStates f \<Longrightarrow> final_state W (starred W f) r \<longleftrightarrow> final_state W f r"
  by (simp add: final_state_def starred_obs)

lemma starred_rtrancl_from:
  assumes wf: "wf_fst f" and r: "r < NumStates f"
  shows "(r, b) \<in> (edges (starred W f))\<^sup>* \<longleftrightarrow> (r, b) \<in> (edges (looped W f))\<^sup>*"
proof
  show "(r, b) \<in> (edges (starred W f))\<^sup>* \<Longrightarrow> (r, b) \<in> (edges (looped W f))\<^sup>*"
    using starred_rtrancl [OF wf, of r b W] r by auto
  show "(r, b) \<in> (edges (looped W f))\<^sup>* \<Longrightarrow> (r, b) \<in> (edges (starred W f))\<^sup>*"
    by (erule rtrancl_sub) (auto simp: edges_starred)
qed

lemma rtrancl_converse_unfold: "(a, b) \<in> r\<^sup>* \<longleftrightarrow> b = a \<or> (\<exists>c. (a, c) \<in> r \<and> (c, b) \<in> r\<^sup>*)"
  by (auto elim: converse_rtranclE intro: converse_rtrancl_into_rtrancl)

lemma starred_rtrancl_new:
  assumes wf: "wf_fst f"
  shows "(NumStates f, b) \<in> (edges (starred W f))\<^sup>* \<longleftrightarrow>
    b = NumStates f \<or> (\<exists>s0. start f = Some s0 \<and> (s0, b) \<in> (edges f)\<^sup>*)"
proof -
  have "(NumStates f, c) \<in> edges (starred W f) \<longleftrightarrow> start f = Some c" for c
    by (auto simp: edges_starred edges_iff) (simp add: trans_iff looped_obs)
  then have "(NumStates f, b) \<in> (edges (starred W f))\<^sup>* \<longleftrightarrow>
    b = NumStates f \<or> (\<exists>s0. start f = Some s0 \<and> (s0, b) \<in> (edges (starred W f))\<^sup>*)"
    by (subst rtrancl_converse_unfold) auto
  then show ?thesis
    using starred_rtrancl_from [OF wf wf_start [OF wf], of _ b W] looped_from_start [of f _ b W]
    by (cases "start f") simp_all
qed

lemma wf_looped:
  assumes wf: "wf_fst f"
  shows "wf_fst (looped W f)"
proof (rule wf_fstI)
  show "start (looped W f) = Some s \<Longrightarrow> s < NumStates (looped W f)" for s
    using wf_start [OF wf] by (simp add: states_looped looped_obs)
  show "s < NumStates (looped W f) \<Longrightarrow> a \<in> set (Arcs (looped W f) s) \<Longrightarrow> nextstate a < NumStates (looped W f)"
    for s a using looped_wf_trans [OF wf, of s a W] by (simp add: looped_obs trans_iff)
  show "s < NumStates (looped W f) \<Longrightarrow> eps_counts_ok (states (looped W f) ! s)" for s
    using wf_eps [OF wf, of s]
    by (auto simp: looped_obs states_looped closure_state_def NumStates_def eps_counts_StateAddArc
        split: option.split)
qed

lemma wf_starred:
  assumes wf: "wf_fst f"
  shows "wf_fst (starred W f)"
proof -
  let ?h = "SetFinal W (NumStates f) (One W) (SetStart (Some (NumStates f)) (AddState W (looped W f)))"
  have "wf_fst ?h"
    by (intro wf_ops(1) [OF wf_looped [OF wf]] wf_ops(2,4)) (simp_all add: NumStates_def looped_obs [unfolded NumStates_def])
  moreover have "NumStates ?h = Suc (NumStates f)" by (simp add: NumStates_def looped_obs [unfolded NumStates_def])
  ultimately show ?thesis
    using wf_start [OF wf]
    by (auto simp: starred_def Let_def looped_obs(1) intro!: wf_ops(3) less_SucI split: option.split)
qed

context weight_monoid
begin

lemma starred_weighted: "weighted W (starred W f) \<longleftrightarrow> weighted W f"
proof -
  note O = starred_obs [where W = W and f = f]
  have "(\<exists>s < Suc (NumStates f). nontrivial W (Final (starred W f) s)) \<longleftrightarrow>
      (\<exists>s < NumStates f. nontrivial W (Final (looped W f) s))"
    using not_nontrivial_One by (auto simp: less_Suc_eq O(3,4) looped_obs(2))
  moreover have "(\<exists>(s, a) \<in> trans (starred W f). nontrivial W (weight a)) \<longleftrightarrow>
      (\<exists>(s, a) \<in> trans (looped W f). nontrivial W (weight a))"
    using not_nontrivial_One by (auto simp: O(7))
  ultimately have "weighted W (starred W f) \<longleftrightarrow> weighted W (looped W f)"
    by (simp add: weighted_def O(1) looped_obs(1))
  then show ?thesis by (simp add: looped_weighted)
qed

lemma starred_facts:
  assumes wf: "wf_fst f"
  shows "closure_facts W f (starred W f)"
  unfolding closure_facts_def
proof (intro conjI)
  let ?g = "starred W f" and ?n = "NumStates f"
  note O = starred_obs [where W = W and f = f]
  show "sub_arcs (\<lambda>s. s) f ?g"
    by (rule sub_arcs_left) (simp_all add: O looped_obs)
  show "holds W f Acceptor \<longrightarrow> holds W ?g Acceptor"
    by (auto simp: trans_looped O(7))
  show "holds W ?g Weighted \<longleftrightarrow> holds W f Weighted" by (simp add: starred_weighted)
  show "holds W ?g WeightedCycles \<longrightarrow> holds W f Weighted"
    using weighted_cycles_weighted [of W ?g] by (simp add: starred_weighted)
  show "holds W ?g IsString \<longrightarrow> holds W f IsString"
    using wf_start [OF wf] by (cases "start f") (auto simp: is_string_def O(2))
  have "accessible ?g \<longleftrightarrow> (\<forall>s < ?n. \<exists>s0. start f = Some s0 \<and> (s0, s) \<in> (edges f)\<^sup>*)"
    by (auto simp: accessible_def O starred_rtrancl_new [OF wf] less_Suc_eq)
  then show "holds W ?g Accessible \<longleftrightarrow> holds W f Accessible"
    by (simp add: accessible_def)
  have fin: "final_state W ?g ?n" using not_Weq_One_Zero by (simp add: final_state_def O)
  have "(\<exists>t. (r, t) \<in> (edges ?g)\<^sup>* \<and> final_state W ?g t) \<longleftrightarrow>
      (\<exists>t. (r, t) \<in> (edges (looped W f))\<^sup>* \<and> final_state W (looped W f) t)" if r: "r < ?n" for r
  proof -
    have "t < ?n" if "(r, t) \<in> (edges (looped W f))\<^sup>*" for t
      using that r by induction (auto simp: edges_iff dest: looped_wf_trans [OF wf])
    then show ?thesis
      unfolding starred_rtrancl_from [OF wf r] by (auto simp: final_state_starred)
  qed
  then have "coaccessible W ?g \<longleftrightarrow> coaccessible W (looped W f)"
    using fin by (auto simp: coaccessible_def O(1) looped_obs(1) less_Suc_eq)
  then show "holds W ?g CoAccessible \<longleftrightarrow> holds W f CoAccessible"
    by (simp add: looped_coaccessible)
  have "weighted_cycles W (looped W f) \<Longrightarrow> weighted_cycles W ?g"
  proof -
    assume "weighted_cycles W (looped W f)"
    then obtain s a where "(s, a) \<in> trans (looped W f)" "nontrivial W (weight a)"
      "(nextstate a, s) \<in> (edges (looped W f))\<^sup>*" by (auto simp: weighted_cycles_def)
    then show ?thesis
      using starred_rtrancl_from [OF wf, of "nextstate a" s W] looped_wf_trans [OF wf, of s a W]
      by (auto simp: weighted_cycles_def O(7) intro!: bexI [of _ "(s, a)"])
  qed
  then show "holds W f Weighted \<and> holds W f Accessible \<and> holds W f CoAccessible \<longrightarrow> holds W ?g WeightedCycles"
    using looped_weighted_cycles [OF wf, of W] by simp
qed

theorem closure_ok:
  assumes ok: "fst_ok W f"
  shows "fst_ok W (Closure W t f)"
proof -
  have wf: "wf_fst f" and p: "props_sound W f (Properties f kFstProperties)"
    and st: "bit (properties f) 0" "bit (properties f) 1"
    using ok by (auto simp: fst_ok_def intro: props_sound_Properties)
  let ?g = "if t = CLOSURE_STAR then starred W f else looped W f"
  let ?q = "ClosureProperties (Properties f kFstProperties) (t = CLOSURE_STAR) False"
  have "wf_fst ?g" using wf by (simp add: wf_looped wf_starred)
  moreover have "props_sound W ?g ?q"
    using ClosureProperties_sound [OF p starred_facts [OF wf]] ClosureProperties_sound [OF p looped_facts [OF wf]]
    by simp
  moreover have "bit ?q 0" "bit ?q 1"
    using st by (simp_all add: ClosureProperties_def Let_def prop_bits Properties_static)
  ultimately show ?thesis
    unfolding Closure_eq fst_ok_def
    by (simp add: props_sound_SetPropertiesMask static_ops del: props_sound_SetPropertiesMask_iff)
qed

end

end
