(* ===== verification/StringWeight.thy ===== *)
theory StringWeight
  imports Weight
begin

text \<open>
  The string semirings of src/openfst/lib/string-weight.h. A \<open>StringWeight\<close> keeps its first label
  apart from the list of the others, with 0 for "no first label"; a weight is read with the two
  iterator classes and built with \<open>PushFront\<close> and \<open>PushBack\<close>. The label \<open>kStringInfinity\<close> marks
  \<open>Zero()\<close> and \<open>kStringBad\<close> marks \<open>NoWeight()\<close>. The loops over iterators are functions with a
  termination proof.

  The lemmas show that on well-formed weights the operations are those of strings with an
  infinite element: longest common prefix (suffix), concatenation, division; that the left and
  the right string weights are the semirings that \<open>Properties()\<close> announces; and that \<open>Reverse\<close>
  maps one to the other.
\<close>

section \<open>The class StringWeight\<close>

definition kStringInfinity :: int where "kStringInfinity = -1"
definition kStringBad :: int where "kStringBad = -2"

datatype StringType = STRING_LEFT | STRING_RIGHT | STRING_RESTRICT

definition ReverseStringType :: "StringType \<Rightarrow> StringType" where
  "ReverseStringType s =
     (if s = STRING_LEFT then STRING_RIGHT
      else if s = STRING_RIGHT then STRING_LEFT else STRING_RESTRICT)"

record string_weight =
  sw_first :: int
  sw_rest :: "int list"

definition sw_empty :: string_weight where
  "sw_empty = \<lparr>sw_first = 0, sw_rest = []\<rparr>"

definition sw_Clear :: "string_weight \<Rightarrow> string_weight" where
  "sw_Clear w = w\<lparr>sw_first := 0, sw_rest := []\<rparr>"

definition sw_Size :: "string_weight \<Rightarrow> nat" where
  "sw_Size w = (if sw_first w \<noteq> 0 then length (sw_rest w) + 1 else 0)"

definition sw_PushFront :: "int \<Rightarrow> string_weight \<Rightarrow> string_weight" where
  "sw_PushFront label w =
     (if label = 0 then w
      else (let w = (if sw_first w \<noteq> 0 then w\<lparr>sw_rest := sw_first w # sw_rest w\<rparr> else w)
            in w\<lparr>sw_first := label\<rparr>))"

definition sw_PushBack :: "int \<Rightarrow> string_weight \<Rightarrow> string_weight" where
  "sw_PushBack label w =
     (if label = 0 then w
      else if sw_first w = 0 then w\<lparr>sw_first := label\<rparr>
      else w\<lparr>sw_rest := sw_rest w @ [label]\<rparr>)"

definition sw_of_range :: "int list \<Rightarrow> string_weight" where
  "sw_of_range ls = fold sw_PushBack ls sw_empty"

definition sw_of_label :: "int \<Rightarrow> string_weight" where
  "sw_of_label label = sw_PushBack label sw_empty"

definition sw_Zero :: string_weight where "sw_Zero = sw_of_label kStringInfinity"
definition sw_One :: string_weight where "sw_One = sw_empty"
definition sw_NoWeight :: string_weight where "sw_NoWeight = sw_of_label kStringBad"

section \<open>The iterators\<close>

text \<open>
  A forward iterator: the first label, the part of \<open>rest_\<close> from \<open>iter_\<close> on, and \<open>init_\<close>.
  Dereferencing an iterator at its end is undefined in the source; the functions below test
  \<open>Done\<close> first, and \<open>Member\<close> reads the label 0 of an empty weight.
\<close>

record label_iter =
  it_first :: int
  it_rest :: "int list"
  it_init :: bool

definition sw_Iterator :: "string_weight \<Rightarrow> label_iter" where
  "sw_Iterator w = \<lparr>it_first = sw_first w, it_rest = sw_rest w, it_init = True\<rparr>"

definition it_Done :: "label_iter \<Rightarrow> bool" where
  "it_Done it = (if it_init it then it_first it = 0 else it_rest it = [])"

definition it_Value :: "label_iter \<Rightarrow> int" where
  "it_Value it = (if it_init it then it_first it else hd (it_rest it))"

definition it_Next :: "label_iter \<Rightarrow> label_iter" where
  "it_Next it =
     (if it_init it then it\<lparr>it_init := False\<rparr> else it\<lparr>it_rest := tl (it_rest it)\<rparr>)"

text \<open>A reverse iterator: the labels of \<open>rest_\<close> before \<open>iter_\<close>, last one first, and \<open>fin_\<close>.\<close>

record label_riter =
  rit_first :: int
  rit_rest :: "int list"
  rit_fin :: bool

definition sw_ReverseIterator :: "string_weight \<Rightarrow> label_riter" where
  "sw_ReverseIterator w = \<lparr>rit_first = sw_first w, rit_rest = rev (sw_rest w), rit_fin = (sw_first w = 0)\<rparr>"

definition rit_Done :: "label_riter \<Rightarrow> bool" where
  "rit_Done it = rit_fin it"

definition rit_Value :: "label_riter \<Rightarrow> int" where
  "rit_Value it = (if rit_rest it = [] then rit_first it else hd (rit_rest it))"

definition rit_Next :: "label_riter \<Rightarrow> label_riter" where
  "rit_Next it =
     (if rit_rest it = [] then it\<lparr>rit_fin := True\<rparr> else it\<lparr>rit_rest := tl (rit_rest it)\<rparr>)"

text \<open>How many labels an iterator has left, at most.\<close>

definition it_size :: "label_iter \<Rightarrow> nat" where
  "it_size it = length (it_rest it) + (if it_init it then 1 else 0)"

definition rit_size :: "label_riter \<Rightarrow> nat" where
  "rit_size it = length (rit_rest it) + (if rit_fin it then 0 else 1)"

lemma it_size_Next [simp]: "\<not> it_Done it \<Longrightarrow> it_size (it_Next it) < it_size it"
  by (auto simp: it_size_def it_Done_def it_Next_def)

lemma rit_size_Next [simp]: "\<not> rit_Done it \<Longrightarrow> rit_size (rit_Next it) < rit_size it"
  by (auto simp: rit_size_def rit_Done_def rit_Next_def)

section \<open>Member, Reverse, Hash and comparison\<close>

definition sw_Member :: "string_weight \<Rightarrow> bool" where
  "sw_Member w \<longleftrightarrow> it_Value (sw_Iterator w) \<noteq> kStringBad"

function reverse_loop :: "label_iter \<Rightarrow> string_weight \<Rightarrow> string_weight" where
  "reverse_loop it rweight =
     (if it_Done it then rweight else reverse_loop (it_Next it) (sw_PushFront (it_Value it) rweight))"
  by auto
termination by (relation "measure (\<lambda>(it, _). it_size it)") auto

definition sw_Reverse :: "string_weight \<Rightarrow> string_weight" where
  "sw_Reverse w = reverse_loop (sw_Iterator w) sw_empty"

function equal_loop :: "label_iter \<Rightarrow> label_iter \<Rightarrow> bool" where
  "equal_loop it1 it2 =
     (if it_Done it1 then True
      else if it_Value it1 \<noteq> it_Value it2 then False
      else equal_loop (it_Next it1) (it_Next it2))"
  by auto
termination by (relation "measure (\<lambda>(it, _). it_size it)") auto

definition sw_eq :: "string_weight \<Rightarrow> string_weight \<Rightarrow> bool" where
  "sw_eq w1 w2 =
     (if sw_Size w1 \<noteq> sw_Size w2 then False
      else equal_loop (sw_Iterator w1) (sw_Iterator w2))"

section \<open>Plus, Times and Divide\<close>

definition sw_PlusRestrict :: "string_weight \<Rightarrow> string_weight \<Rightarrow> string_weight" where
  "sw_PlusRestrict w1 w2 =
     (if \<not> sw_Member w1 \<or> \<not> sw_Member w2 then sw_NoWeight
      else if sw_eq w1 sw_Zero then w2
      else if sw_eq w2 sw_Zero then w1
      else if \<not> sw_eq w1 w2 then sw_NoWeight else w1)"

function prefix_loop :: "label_iter \<Rightarrow> label_iter \<Rightarrow> string_weight \<Rightarrow> string_weight" where
  "prefix_loop it1 it2 sum1 =
     (if \<not> it_Done it1 \<and> \<not> it_Done it2 \<and> it_Value it1 = it_Value it2
      then prefix_loop (it_Next it1) (it_Next it2) (sw_PushBack (it_Value it1) sum1)
      else sum1)"
  by auto
termination by (relation "measure (\<lambda>(it, _). it_size it)") auto

definition sw_PlusLeft :: "string_weight \<Rightarrow> string_weight \<Rightarrow> string_weight" where
  "sw_PlusLeft w1 w2 =
     (if \<not> sw_Member w1 \<or> \<not> sw_Member w2 then sw_NoWeight
      else if sw_eq w1 sw_Zero then w2
      else if sw_eq w2 sw_Zero then w1
      else prefix_loop (sw_Iterator w1) (sw_Iterator w2) sw_empty)"

function suffix_loop :: "label_riter \<Rightarrow> label_riter \<Rightarrow> string_weight \<Rightarrow> string_weight" where
  "suffix_loop it1 it2 sum1 =
     (if \<not> rit_Done it1 \<and> \<not> rit_Done it2 \<and> rit_Value it1 = rit_Value it2
      then suffix_loop (rit_Next it1) (rit_Next it2) (sw_PushFront (rit_Value it1) sum1)
      else sum1)"
  by auto
termination by (relation "measure (\<lambda>(it, _). rit_size it)") auto

definition sw_PlusRight :: "string_weight \<Rightarrow> string_weight \<Rightarrow> string_weight" where
  "sw_PlusRight w1 w2 =
     (if \<not> sw_Member w1 \<or> \<not> sw_Member w2 then sw_NoWeight
      else if sw_eq w1 sw_Zero then w2
      else if sw_eq w2 sw_Zero then w1
      else suffix_loop (sw_ReverseIterator w1) (sw_ReverseIterator w2) sw_empty)"

definition sw_Plus :: "StringType \<Rightarrow> string_weight \<Rightarrow> string_weight \<Rightarrow> string_weight" where
  "sw_Plus S = (case S of STRING_LEFT \<Rightarrow> sw_PlusLeft | STRING_RIGHT \<Rightarrow> sw_PlusRight
                        | STRING_RESTRICT \<Rightarrow> sw_PlusRestrict)"

function push_back_loop :: "label_iter \<Rightarrow> string_weight \<Rightarrow> string_weight" where
  "push_back_loop it w =
     (if it_Done it then w else push_back_loop (it_Next it) (sw_PushBack (it_Value it) w))"
  by auto
termination by (relation "measure (\<lambda>(it, _). it_size it)") auto

definition sw_Times :: "string_weight \<Rightarrow> string_weight \<Rightarrow> string_weight" where
  "sw_Times w1 w2 =
     (if \<not> sw_Member w1 \<or> \<not> sw_Member w2 then sw_NoWeight
      else if sw_eq w1 sw_Zero \<or> sw_eq w2 sw_Zero then sw_Zero
      else push_back_loop (sw_Iterator w2) w1)"

text \<open>The loops that skip the first \<open>n - i\<close> labels of an iterator.\<close>

function skip_loop :: "label_iter \<Rightarrow> nat \<Rightarrow> nat \<Rightarrow> label_iter" where
  "skip_loop it i n = (if \<not> it_Done it \<and> i < n then skip_loop (it_Next it) (i + 1) n else it)"
  by auto
termination by (relation "measure (\<lambda>(it, _). it_size it)") auto

definition sw_DivideLeft :: "string_weight \<Rightarrow> string_weight \<Rightarrow> string_weight" where
  "sw_DivideLeft w1 w2 =
     (if \<not> sw_Member w1 \<or> \<not> sw_Member w2 then sw_NoWeight
      else if sw_eq w2 sw_Zero then sw_of_label kStringBad
      else if sw_eq w1 sw_Zero then sw_Zero
      else push_back_loop (skip_loop (sw_Iterator w1) 0 (sw_Size w2)) sw_empty)"

function rskip_loop :: "label_riter \<Rightarrow> nat \<Rightarrow> nat \<Rightarrow> label_riter" where
  "rskip_loop it i n = (if \<not> rit_Done it \<and> i < n then rskip_loop (rit_Next it) (i + 1) n else it)"
  by auto
termination by (relation "measure (\<lambda>(it, _). rit_size it)") auto

function push_front_loop :: "label_riter \<Rightarrow> string_weight \<Rightarrow> string_weight" where
  "push_front_loop it w =
     (if rit_Done it then w else push_front_loop (rit_Next it) (sw_PushFront (rit_Value it) w))"
  by auto
termination by (relation "measure (\<lambda>(it, _). rit_size it)") auto

definition sw_DivideRight :: "string_weight \<Rightarrow> string_weight \<Rightarrow> string_weight" where
  "sw_DivideRight w1 w2 =
     (if \<not> sw_Member w1 \<or> \<not> sw_Member w2 then sw_NoWeight
      else if sw_eq w2 sw_Zero then sw_of_label kStringBad
      else if sw_eq w1 sw_Zero then sw_Zero
      else push_front_loop (rskip_loop (sw_ReverseIterator w1) 0 (sw_Size w2)) sw_empty)"

definition sw_DivideRestrict :: "string_weight \<Rightarrow> string_weight \<Rightarrow> DivideType \<Rightarrow> string_weight" where
  "sw_DivideRestrict w1 w2 divide_type =
     (if divide_type = DIVIDE_LEFT then sw_DivideLeft w1 w2
      else if divide_type = DIVIDE_RIGHT then sw_DivideRight w1 w2
      else sw_NoWeight)"

definition sw_DivideInLeft :: "string_weight \<Rightarrow> string_weight \<Rightarrow> DivideType \<Rightarrow> string_weight" where
  "sw_DivideInLeft w1 w2 divide_type =
     (if divide_type \<noteq> DIVIDE_LEFT then sw_NoWeight else sw_DivideLeft w1 w2)"

definition sw_DivideInRight :: "string_weight \<Rightarrow> string_weight \<Rightarrow> DivideType \<Rightarrow> string_weight" where
  "sw_DivideInRight w1 w2 divide_type =
     (if divide_type \<noteq> DIVIDE_RIGHT then sw_NoWeight else sw_DivideRight w1 w2)"

definition sw_Divide :: "StringType \<Rightarrow> string_weight \<Rightarrow> string_weight \<Rightarrow> DivideType \<Rightarrow> string_weight" where
  "sw_Divide S = (case S of STRING_LEFT \<Rightarrow> sw_DivideInLeft | STRING_RIGHT \<Rightarrow> sw_DivideInRight
                          | STRING_RESTRICT \<Rightarrow> sw_DivideRestrict)"

definition StringWeight :: "StringType \<Rightarrow> string_weight weight_ops" where
  "StringWeight S =
     \<lparr>Zero = sw_Zero, One = sw_One, NoWeight = sw_NoWeight, Plus = sw_Plus S, Times = sw_Times,
      Weq = sw_eq, Member = sw_Member\<rparr>"

declare reverse_loop.simps [simp del] equal_loop.simps [simp del] prefix_loop.simps [simp del]
  suffix_loop.simps [simp del] push_back_loop.simps [simp del] skip_loop.simps [simp del]
  rskip_loop.simps [simp del] push_front_loop.simps [simp del]

section \<open>Weights and iterators as lists of labels\<close>

definition sw_labels :: "string_weight \<Rightarrow> int list" where
  "sw_labels w = (if sw_first w = 0 then [] else sw_first w # sw_rest w)"

definition it_labels :: "label_iter \<Rightarrow> int list" where
  "it_labels it = (if it_init it then if it_first it = 0 then [] else it_first it # it_rest it else it_rest it)"

definition rit_labels :: "label_riter \<Rightarrow> int list" where
  "rit_labels it = (if rit_fin it then [] else rit_rest it @ [rit_first it])"

definition sw_valid :: "string_weight \<Rightarrow> bool" where
  "sw_valid w \<longleftrightarrow> (sw_first w = 0 \<longrightarrow> sw_rest w = []) \<and> 0 \<notin> set (sw_rest w)"

lemma sw_valid_inj: "sw_valid v \<Longrightarrow> sw_valid w \<Longrightarrow> sw_labels v = sw_labels w \<longleftrightarrow> v = w"
  by (auto simp: sw_valid_def sw_labels_def split: if_splits)

lemma sw_valid_labels: "sw_valid w \<Longrightarrow> 0 \<notin> set (sw_labels w)"
  by (simp add: sw_valid_def sw_labels_def)

lemma sw_valid_empty [simp]: "sw_valid sw_empty" "sw_labels sw_empty = []"
  by (simp_all add: sw_valid_def sw_empty_def sw_labels_def)

lemma sw_Push [simp]:
  "sw_valid w \<Longrightarrow> sw_valid (sw_PushBack l w)" "sw_valid w \<Longrightarrow> sw_valid (sw_PushFront l w)"
  "l \<noteq> 0 \<Longrightarrow> sw_valid w \<Longrightarrow> sw_labels (sw_PushBack l w) = sw_labels w @ [l]"
  "l \<noteq> 0 \<Longrightarrow> sw_valid w \<Longrightarrow> sw_labels (sw_PushFront l w) = l # sw_labels w"
  by (auto simp: sw_valid_def sw_labels_def sw_PushBack_def sw_PushFront_def)

lemma sw_Size_labels: "sw_Size w = length (sw_labels w)"
  by (simp add: sw_Size_def sw_labels_def)

lemma sw_Iterator_labels [simp]: "it_labels (sw_Iterator w) = sw_labels w"
  by (simp add: it_labels_def sw_Iterator_def sw_labels_def)

lemma sw_ReverseIterator_labels [simp]: "rit_labels (sw_ReverseIterator w) = rev (sw_labels w)"
  by (simp add: rit_labels_def sw_ReverseIterator_def sw_labels_def)

lemma it_Done_iff: "it_Done it \<longleftrightarrow> it_labels it = []"
  by (simp add: it_Done_def it_labels_def)

lemma it_step: "it_labels it = l # ls \<Longrightarrow> it_Value it = l \<and> it_labels (it_Next it) = ls"
  by (auto simp: it_labels_def it_Value_def it_Next_def split: if_splits)

lemma rit_Done_iff: "rit_Done it \<longleftrightarrow> rit_labels it = []"
  by (simp add: rit_Done_def rit_labels_def)

lemma rit_step: "rit_labels it = l # ls \<Longrightarrow> rit_Value it = l \<and> rit_labels (rit_Next it) = ls"
  by (cases "rit_rest it") (auto simp: rit_labels_def rit_Value_def rit_Next_def split: if_splits)

text \<open>The loops as functions of the labels that are left.\<close>

lemma reverse_loop_labels:
  "it_labels it = ls \<Longrightarrow> reverse_loop it w = fold sw_PushFront ls w"
  by (induction ls arbitrary: it w) (subst reverse_loop.simps, simp add: it_Done_iff it_step)+

lemma push_back_loop_labels:
  "it_labels it = ls \<Longrightarrow> push_back_loop it w = fold sw_PushBack ls w"
  by (induction ls arbitrary: it w) (subst push_back_loop.simps, simp add: it_Done_iff it_step)+

lemma push_front_loop_labels:
  "rit_labels it = ls \<Longrightarrow> push_front_loop it w = fold sw_PushFront ls w"
  by (induction ls arbitrary: it w) (subst push_front_loop.simps, simp add: rit_Done_iff rit_step)+

lemma equal_loop_labels:
  "it_labels it1 = ls \<Longrightarrow> it_labels it2 = ms \<Longrightarrow> length ls = length ms \<Longrightarrow>
    equal_loop it1 it2 \<longleftrightarrow> ls = ms"
proof (induction ls ms arbitrary: it1 it2 rule: list_induct2')
  case (4 l ls m ms)
  then show ?case by (subst equal_loop.simps) (simp add: it_Done_iff it_step)
qed (subst equal_loop.simps, simp add: it_Done_iff)+

fun common_prefix :: "'a list \<Rightarrow> 'a list \<Rightarrow> 'a list" where
  "common_prefix (x # xs) (y # ys) = (if x = y then x # common_prefix xs ys else [])"
| "common_prefix _ _ = []"

lemma prefix_loop_labels:
  "it_labels it1 = ls \<Longrightarrow> it_labels it2 = ms \<Longrightarrow>
    prefix_loop it1 it2 w = fold sw_PushBack (common_prefix ls ms) w"
  by (induction ls ms arbitrary: it1 it2 w rule: common_prefix.induct)
    (subst prefix_loop.simps, simp add: it_Done_iff it_step)+

lemma suffix_loop_labels:
  "rit_labels it1 = ls \<Longrightarrow> rit_labels it2 = ms \<Longrightarrow>
    suffix_loop it1 it2 w = fold sw_PushFront (common_prefix ls ms) w"
  by (induction ls ms arbitrary: it1 it2 w rule: common_prefix.induct)
    (subst suffix_loop.simps, simp add: rit_Done_iff rit_step)+

lemma skip_loop_labels:
  "it_labels it = ls \<Longrightarrow> it_labels (skip_loop it i n) = drop (n - i) ls"
proof (induction ls arbitrary: it i)
  case (Cons l ls)
  then show ?case by (subst skip_loop.simps) (auto simp: it_Done_iff it_step drop_Cons' Suc_diff_Suc)
qed (subst skip_loop.simps, simp add: it_Done_iff)

lemma rskip_loop_labels:
  "rit_labels it = ls \<Longrightarrow> rit_labels (rskip_loop it i n) = drop (n - i) ls"
proof (induction ls arbitrary: it i)
  case (Cons l ls)
  then show ?case by (subst rskip_loop.simps) (auto simp: rit_Done_iff rit_step drop_Cons' Suc_diff_Suc)
qed (subst rskip_loop.simps, simp add: rit_Done_iff)

lemma fold_Push:
  "0 \<notin> set ls \<Longrightarrow> sw_valid w \<Longrightarrow>
    sw_valid (fold sw_PushBack ls w) \<and> sw_labels (fold sw_PushBack ls w) = sw_labels w @ ls"
  "0 \<notin> set ls \<Longrightarrow> sw_valid w \<Longrightarrow>
    sw_valid (fold sw_PushFront ls w) \<and> sw_labels (fold sw_PushFront ls w) = rev ls @ sw_labels w"
  by (induction ls arbitrary: w) auto

section \<open>The operations as operations of strings with an infinite element\<close>

text \<open>
  The weights on which the laws hold: \<open>Zero()\<close>, and the valid weights none of whose labels is one
  of the two reserved labels. \<open>sw_abs\<close> reads such a weight as a string, with \<open>None\<close> for the
  infinite string.
\<close>

definition sw_ok :: "string_weight \<Rightarrow> bool" where
  "sw_ok w \<longleftrightarrow> w = sw_Zero \<or>
     sw_valid w \<and> kStringInfinity \<notin> set (sw_labels w) \<and> kStringBad \<notin> set (sw_labels w)"

definition sw_abs :: "string_weight \<Rightarrow> int list option" where
  "sw_abs w = (if w = sw_Zero then None else Some (sw_labels w))"

definition sw_rep :: "int list option \<Rightarrow> string_weight" where
  "sw_rep x = (case x of None \<Rightarrow> sw_Zero | Some ls \<Rightarrow> sw_of_range ls)"

definition plain :: "int list option \<Rightarrow> bool" where
  "plain x \<longleftrightarrow> (\<forall>ls. x = Some ls \<longrightarrow> set ls \<inter> {0, kStringInfinity, kStringBad} = {})"

lemma sw_special:
  "sw_valid sw_Zero" "sw_labels sw_Zero = [kStringInfinity]" "sw_valid sw_One" "sw_labels sw_One = []"
  "sw_valid sw_NoWeight" "sw_labels sw_NoWeight = [kStringBad]"
  by (simp_all add: sw_Zero_def sw_One_def sw_NoWeight_def sw_of_label_def kStringInfinity_def kStringBad_def)

lemma sw_of_range_labels:
  "0 \<notin> set ls \<Longrightarrow> sw_valid (sw_of_range ls)" "0 \<notin> set ls \<Longrightarrow> sw_labels (sw_of_range ls) = ls"
  using fold_Push(1) [of ls sw_empty] by (simp_all add: sw_of_range_def)

lemma sw_ok_valid: "sw_ok w \<Longrightarrow> sw_valid w"
  by (auto simp: sw_ok_def sw_special)

lemma sw_ok_abs: "sw_ok w \<Longrightarrow> plain (sw_abs w)"
  using sw_valid_labels [of w] by (auto simp: sw_ok_def plain_def sw_abs_def)

lemma sw_ok_rep: "plain x \<Longrightarrow> sw_ok (sw_rep x)"
  by (auto simp: sw_ok_def plain_def sw_rep_def sw_of_range_labels split: option.split)

lemma sw_abs_rep: "plain x \<Longrightarrow> sw_abs (sw_rep x) = x"
proof (cases x)
  case (Some ls)
  assume "plain x"
  then have "0 \<notin> set ls" "kStringInfinity \<notin> set ls" by (auto simp: plain_def Some)
  then have "sw_labels (sw_of_range ls) = ls" "sw_of_range ls \<noteq> sw_Zero"
    using sw_special(2) by (auto simp: sw_of_range_labels dest: arg_cong [of _ _ sw_labels])
  then show ?thesis by (simp add: sw_abs_def sw_rep_def Some)
qed (simp add: sw_abs_def sw_rep_def)

lemma sw_abs_inj: "sw_ok v \<Longrightarrow> sw_ok w \<Longrightarrow> sw_abs v = sw_abs w \<Longrightarrow> v = w"
  by (auto simp: sw_abs_def sw_ok_valid sw_valid_inj split: if_splits)

lemma sw_repI: "sw_valid w \<Longrightarrow> sw_labels w = ls \<Longrightarrow> 0 \<notin> set ls \<Longrightarrow> w = sw_rep (Some ls)"
  by (simp add: sw_rep_def sw_valid_inj [symmetric] sw_of_range_labels)

lemma sw_ok_cases [consumes 1, case_names infinite finite]:
  assumes "sw_ok w"
  obtains "w = sw_Zero" "sw_abs w = None"
  | ls where "w \<noteq> sw_Zero" "sw_abs w = Some ls" "sw_labels w = ls" "sw_valid w" "0 \<notin> set ls"
  using sw_valid_labels [OF sw_ok_valid [OF assms]] sw_ok_valid [OF assms]
  by (cases "w = sw_Zero") (auto simp: sw_abs_def)

lemma sw_rep_abs:
  assumes "sw_ok w"
  shows "sw_rep (sw_abs w) = w"
  using assms sw_repI [of w, symmetric] by (cases rule: sw_ok_cases) (auto simp: sw_rep_def)

lemma sw_ok_Member: "sw_ok w \<Longrightarrow> sw_Member w"
  by (auto simp: sw_ok_def sw_Member_def sw_Iterator_def it_Value_def sw_Zero_def sw_of_label_def sw_empty_def
      sw_PushBack_def sw_labels_def kStringInfinity_def kStringBad_def)

lemma sw_eq_iff: "sw_valid v \<Longrightarrow> sw_valid w \<Longrightarrow> sw_eq v w \<longleftrightarrow> v = w"
  using equal_loop_labels [of "sw_Iterator v" "sw_labels v" "sw_Iterator w" "sw_labels w"]
  by (auto simp: sw_eq_def sw_Size_labels sw_valid_inj)

lemma sw_ok_special: "sw_ok sw_Zero" "sw_ok sw_One" "sw_abs sw_Zero = None" "sw_abs sw_One = Some []"
  using sw_special by (auto simp: sw_ok_def sw_abs_def)

text \<open>The abstract operations.\<close>

definition str_Times :: "int list option \<Rightarrow> int list option \<Rightarrow> int list option" where
  "str_Times x y = (case (x, y) of (Some a, Some b) \<Rightarrow> Some (a @ b) | _ \<Rightarrow> None)"

definition str_join :: "(int list \<Rightarrow> int list \<Rightarrow> int list) \<Rightarrow> int list option \<Rightarrow> int list option \<Rightarrow> int list option" where
  "str_join j x y = (case (x, y) of (None, _) \<Rightarrow> y | (_, None) \<Rightarrow> x | (Some a, Some b) \<Rightarrow> Some (j a b))"

definition common_suffix :: "'a list \<Rightarrow> 'a list \<Rightarrow> 'a list" where
  "common_suffix xs ys = rev (common_prefix (rev xs) (rev ys))"

lemma common_prefix_prefix: "prefix (common_prefix xs ys) xs" "prefix (common_prefix xs ys) ys"
  by (induction xs ys rule: common_prefix.induct) auto

lemma common_prefix_greatest: "prefix zs xs \<Longrightarrow> prefix zs ys \<Longrightarrow> prefix zs (common_prefix xs ys)"
  by (induction xs ys arbitrary: zs rule: common_prefix.induct) (auto simp: prefix_Cons)

lemma common_prefix_set: "set (common_prefix xs ys) \<subseteq> set xs"
  using set_mono_prefix [OF common_prefix_prefix(1)] .

lemma common_suffix_set: "set (common_suffix xs ys) \<subseteq> set xs"
  using common_prefix_set [of "rev xs" "rev ys"] by (simp add: common_suffix_def)

lemma common_prefix_laws:
  "common_prefix xs xs = xs" "common_prefix xs ys = common_prefix ys xs"
  "common_prefix (common_prefix xs ys) zs = common_prefix xs (common_prefix ys zs)"
  "common_prefix (us @ xs) (us @ ys) = us @ common_prefix xs ys"
proof -
  show "common_prefix xs xs = xs" by (induction xs) auto
  show "common_prefix xs ys = common_prefix ys xs" by (induction xs ys rule: common_prefix.induct) auto
  show "common_prefix (us @ xs) (us @ ys) = us @ common_prefix xs ys" by (induction us) auto
  have "prefix (common_prefix (common_prefix xs ys) zs) (common_prefix xs (common_prefix ys zs))"
    by (meson common_prefix_prefix common_prefix_greatest prefix_order.trans)
  moreover have "prefix (common_prefix xs (common_prefix ys zs)) (common_prefix (common_prefix xs ys) zs)"
    by (meson common_prefix_prefix common_prefix_greatest prefix_order.trans)
  ultimately show "common_prefix (common_prefix xs ys) zs = common_prefix xs (common_prefix ys zs)"
    by (rule prefix_order.antisym)
qed

lemma common_suffix_laws:
  "common_suffix xs xs = xs" "common_suffix xs ys = common_suffix ys xs"
  "common_suffix (common_suffix xs ys) zs = common_suffix xs (common_suffix ys zs)"
  "common_suffix (xs @ us) (ys @ us) = common_suffix xs ys @ us"
  unfolding common_suffix_def
  by (simp_all add: common_prefix_laws(1,3,4) common_prefix_laws(2) [of "rev xs"])

lemma sw_Times_abs:
  assumes "sw_ok v" "sw_ok w"
  shows "sw_Times v w = sw_rep (str_Times (sw_abs v) (sw_abs w))"
  using assms(1)
proof (cases rule: sw_ok_cases)
  case infinite
  then show ?thesis
    using assms by (simp add: sw_Times_def sw_ok_Member sw_eq_iff sw_special str_Times_def sw_rep_def)
next
  case v: (finite xs)
  from assms(2) show ?thesis
  proof (cases rule: sw_ok_cases)
    case infinite
    then show ?thesis
      using assms by (simp add: sw_Times_def sw_ok_Member sw_eq_iff sw_special str_Times_def sw_rep_def split: option.split)
  next
    case w: (finite ys)
    have "sw_Times v w = fold sw_PushBack ys v"
      using assms v w push_back_loop_labels [of "sw_Iterator w" ys v]
      by (simp add: sw_Times_def sw_ok_Member sw_eq_iff sw_special)
    then show ?thesis
      using fold_Push(1) [of ys v] v w by (simp add: str_Times_def sw_repI)
  qed
qed

lemma sw_join_abs:
  assumes "sw_ok v" "sw_ok w"
    and P: "P = (if \<not> sw_Member v \<or> \<not> sw_Member w then sw_NoWeight else if sw_eq v sw_Zero then w
      else if sw_eq w sw_Zero then v else L)"
    and L: "\<And>xs ys. sw_labels v = xs \<Longrightarrow> sw_labels w = ys \<Longrightarrow> 0 \<notin> set xs \<Longrightarrow> 0 \<notin> set ys \<Longrightarrow>
      L = sw_rep (Some (j xs ys))"
  shows "P = sw_rep (str_join j (sw_abs v) (sw_abs w))"
proof -
  have P: "P = (if v = sw_Zero then w else if w = sw_Zero then v else L)"
    using assms by (simp add: sw_ok_Member sw_eq_iff sw_ok_valid sw_special)
  from assms(1) show ?thesis
  proof (cases rule: sw_ok_cases)
    case infinite
    then show ?thesis using P sw_rep_abs [OF assms(2)] by (simp add: str_join_def)
  next
    case v: (finite xs)
    from assms(2) show ?thesis
      using P L v sw_rep_abs [OF assms(1)] by (cases rule: sw_ok_cases) (simp_all add: str_join_def)
  qed
qed

lemma sw_PlusLeft_abs:
  assumes "sw_ok v" "sw_ok w"
  shows "sw_PlusLeft v w = sw_rep (str_join common_prefix (sw_abs v) (sw_abs w))"
proof (rule sw_join_abs [OF assms sw_PlusLeft_def [of v w]])
  fix xs ys assume *: "sw_labels v = xs" "sw_labels w = ys" "(0 :: int) \<notin> set xs" "0 \<notin> set ys"
  have 0: "0 \<notin> set (common_prefix xs ys)" using * common_prefix_set [of xs ys] by auto
  have "prefix_loop (sw_Iterator v) (sw_Iterator w) sw_empty = fold sw_PushBack (common_prefix xs ys) sw_empty"
    using * by (intro prefix_loop_labels) simp_all
  then show "prefix_loop (sw_Iterator v) (sw_Iterator w) sw_empty = sw_rep (Some (common_prefix xs ys))"
    by (simp add: sw_rep_def sw_of_range_def)
qed

lemma sw_PlusRight_abs:
  assumes "sw_ok v" "sw_ok w"
  shows "sw_PlusRight v w = sw_rep (str_join common_suffix (sw_abs v) (sw_abs w))"
proof (rule sw_join_abs [OF assms sw_PlusRight_def [of v w]])
  fix xs ys assume *: "sw_labels v = xs" "sw_labels w = ys" "(0 :: int) \<notin> set xs" "0 \<notin> set ys"
  have 0: "0 \<notin> set (common_prefix (rev xs) (rev ys))" using * common_prefix_set [of "rev xs" "rev ys"] by auto
  have "suffix_loop (sw_ReverseIterator v) (sw_ReverseIterator w) sw_empty =
      fold sw_PushFront (common_prefix (rev xs) (rev ys)) sw_empty"
    using * by (intro suffix_loop_labels) simp_all
  then show "suffix_loop (sw_ReverseIterator v) (sw_ReverseIterator w) sw_empty = sw_rep (Some (common_suffix xs ys))"
    using 0 fold_Push(2) [OF 0, of sw_empty] by (intro sw_repI) (simp_all add: common_suffix_def)
qed

lemma plain_ops:
  "plain x \<Longrightarrow> plain y \<Longrightarrow> plain (str_Times x y)"
  "plain x \<Longrightarrow> plain y \<Longrightarrow> plain (str_join common_prefix x y)"
  "plain x \<Longrightarrow> plain y \<Longrightarrow> plain (str_join common_suffix x y)"
  using common_prefix_set common_suffix_set
  by (fastforce simp: plain_def str_Times_def str_join_def split: option.splits)+

lemma sw_ok_ops:
  assumes "sw_ok v" "sw_ok w"
  shows "sw_ok (sw_Times v w)" "sw_ok (sw_PlusLeft v w)" "sw_ok (sw_PlusRight v w)"
    and "sw_abs (sw_Times v w) = str_Times (sw_abs v) (sw_abs w)"
    and "sw_abs (sw_PlusLeft v w) = str_join common_prefix (sw_abs v) (sw_abs w)"
    and "sw_abs (sw_PlusRight v w) = str_join common_suffix (sw_abs v) (sw_abs w)"
  using assms
  by (simp_all add: sw_Times_abs sw_PlusLeft_abs sw_PlusRight_abs sw_ok_rep sw_abs_rep plain_ops sw_ok_abs)

section \<open>The string weights are the semirings they say they are\<close>

lemma str_Times_laws:
  "str_Times (str_Times x y) z = str_Times x (str_Times y z)"
  "str_Times (Some []) x = x" "str_Times x (Some []) = x"
  "str_Times None x = None" "str_Times x None = None"
  by (auto simp: str_Times_def split: option.split)

lemma str_join_laws:
  assumes "\<And>a. j a a = a" "\<And>a b. j a b = j b a" "\<And>a b c. j (j a b) c = j a (j b c)"
  shows "str_join j (str_join j x y) z = str_join j x (str_join j y z)"
    and "str_join j x y = str_join j y x" and "str_join j None x = x" and "str_join j x x = x"
  using assms by (auto simp: str_join_def split: option.split)

lemma str_Times_join:
  "str_Times z (str_join common_prefix x y) = str_join common_prefix (str_Times z x) (str_Times z y)"
  "str_Times (str_join common_suffix x y) z = str_join common_suffix (str_Times x z) (str_Times y z)"
  by (auto simp: str_Times_def str_join_def common_prefix_laws(4) common_suffix_laws(4) split: option.split)

lemmas prefix_join_laws = str_join_laws [of common_prefix, OF common_prefix_laws(1-3)]
lemmas suffix_join_laws = str_join_laws [of common_suffix, OF common_suffix_laws(1-3)]

lemma StringWeight_sel [simp]:
  "Zero (StringWeight S) = sw_Zero" "One (StringWeight S) = sw_One" "NoWeight (StringWeight S) = sw_NoWeight"
  "Times (StringWeight S) = sw_Times" "Weq (StringWeight S) = sw_eq" "Member (StringWeight S) = sw_Member"
  "Plus (StringWeight STRING_LEFT) = sw_PlusLeft" "Plus (StringWeight STRING_RIGHT) = sw_PlusRight"
  "Plus (StringWeight STRING_RESTRICT) = sw_PlusRestrict"
  by (simp_all add: StringWeight_def sw_Plus_def)

interpretation sw: weight_monoid "StringWeight S" sw_ok
proof
  show "sw_ok a \<Longrightarrow> sw_ok b \<Longrightarrow> sw_ok c \<Longrightarrow>
      Times (StringWeight S) (Times (StringWeight S) a b) c = Times (StringWeight S) a (Times (StringWeight S) b c)" for a b c
    by (rule sw_abs_inj) (simp_all add: sw_ok_ops str_Times_laws)
  show "sw_ok a \<Longrightarrow> Times (StringWeight S) (One (StringWeight S)) a = a" for a
    by (rule sw_abs_inj) (simp_all add: sw_ok_ops sw_ok_special str_Times_laws)
  show "sw_ok a \<Longrightarrow> Times (StringWeight S) a (One (StringWeight S)) = a" for a
    by (rule sw_abs_inj) (simp_all add: sw_ok_ops sw_ok_special str_Times_laws)
  show "Zero (StringWeight S) \<noteq> One (StringWeight S)"
    using sw_ok_special(3,4) by auto
qed (simp_all add: sw_ok_Member sw_ok_special sw_ok_ops sw_eq_iff sw_ok_valid)

interpretation sw_left: left_semiring "StringWeight STRING_LEFT" sw_ok
proof
  fix a b c
  assume [simp]: "sw_ok a" "sw_ok b" "sw_ok c"
  let ?W = "StringWeight STRING_LEFT"
  show "Plus ?W (Plus ?W a b) c = Plus ?W a (Plus ?W b c)" "Plus ?W a b = Plus ?W b a" "Plus ?W (Zero ?W) a = a"
    "Times ?W (Zero ?W) a = Zero ?W" "Times ?W a (Zero ?W) = Zero ?W"
    "Times ?W c (Plus ?W a b) = Plus ?W (Times ?W c a) (Times ?W c b)"
    by (rule sw_abs_inj; simp add: sw_ok_ops sw_ok_special str_Times_laws str_Times_join prefix_join_laws(1,3);
        rule prefix_join_laws(2))+
qed (simp add: sw_ok_ops)

interpretation sw_right: right_semiring "StringWeight STRING_RIGHT" sw_ok
proof
  fix a b c
  assume [simp]: "sw_ok a" "sw_ok b" "sw_ok c"
  let ?W = "StringWeight STRING_RIGHT"
  show "Plus ?W (Plus ?W a b) c = Plus ?W a (Plus ?W b c)" "Plus ?W a b = Plus ?W b a" "Plus ?W (Zero ?W) a = a"
    "Times ?W (Zero ?W) a = Zero ?W" "Times ?W a (Zero ?W) = Zero ?W"
    "Times ?W (Plus ?W a b) c = Plus ?W (Times ?W a c) (Times ?W b c)"
    by (rule sw_abs_inj; simp add: sw_ok_ops sw_ok_special str_Times_laws str_Times_join suffix_join_laws(1,3);
        rule suffix_join_laws(2))+
qed (simp add: sw_ok_ops)

interpretation sw_left: idempotent_weight "StringWeight STRING_LEFT" sw_ok
  by unfold_locales (auto intro: sw_abs_inj simp: sw_ok_ops prefix_join_laws(4))

interpretation sw_right: idempotent_weight "StringWeight STRING_RIGHT" sw_ok
  by unfold_locales (auto intro: sw_abs_inj simp: sw_ok_ops suffix_join_laws(4))

section \<open>Reverse\<close>

lemma sw_Reverse_labels:
  "sw_valid w \<Longrightarrow> sw_valid (sw_Reverse w)" "sw_valid w \<Longrightarrow> sw_labels (sw_Reverse w) = rev (sw_labels w)"
  using fold_Push(2) [of "sw_labels w" sw_empty] sw_valid_labels [of w]
  by (simp_all add: sw_Reverse_def reverse_loop_labels)

lemma sw_Reverse_Reverse: "sw_valid w \<Longrightarrow> sw_Reverse (sw_Reverse w) = w"
  by (simp add: sw_valid_inj [symmetric] sw_Reverse_labels)

lemma sw_Reverse_special: "sw_Reverse sw_Zero = sw_Zero" "sw_Reverse sw_One = sw_One"
  by (simp_all add: sw_valid_inj [symmetric] sw_Reverse_labels sw_special)

lemma sw_Reverse_eq_Zero: "sw_valid w \<Longrightarrow> sw_Reverse w = sw_Zero \<longleftrightarrow> w = sw_Zero"
  using sw_Reverse_Reverse sw_Reverse_special(1) by metis

lemma sw_Reverse_ok: "sw_ok w \<Longrightarrow> sw_ok (sw_Reverse w)"
  by (auto simp: sw_ok_def sw_Reverse_special sw_Reverse_labels)

lemma sw_Reverse_abs: "sw_ok w \<Longrightarrow> sw_abs (sw_Reverse w) = map_option rev (sw_abs w)"
  by (simp add: sw_abs_def sw_Reverse_eq_Zero sw_Reverse_labels sw_ok_valid)

lemma sw_Reverse_Times:
  "sw_ok v \<Longrightarrow> sw_ok w \<Longrightarrow> sw_Reverse (sw_Times v w) = sw_Times (sw_Reverse w) (sw_Reverse v)"
  by (rule sw_abs_inj)
    (auto simp: sw_Reverse_abs sw_ok_ops sw_Reverse_ok str_Times_def split: option.split)

lemma sw_Reverse_PlusLeft:
  "sw_ok v \<Longrightarrow> sw_ok w \<Longrightarrow> sw_Reverse (sw_PlusLeft v w) = sw_PlusRight (sw_Reverse v) (sw_Reverse w)"
  by (rule sw_abs_inj)
    (auto simp: sw_Reverse_abs sw_ok_ops sw_Reverse_ok str_join_def common_suffix_def split: option.split)

interpretation sw_rev: reversible_weight "StringWeight S" sw_ok "StringWeight (ReverseStringType S)" sw_ok sw_Reverse
proof
  show "sw_ok a \<Longrightarrow> sw_ok b \<Longrightarrow> sw_Reverse a = sw_Reverse b \<Longrightarrow> a = b" for a b
    by (metis sw_Reverse_Reverse sw_ok_valid)
qed (simp_all add: sw_Reverse_ok sw_Reverse_special sw_Reverse_Times)

section \<open>Division\<close>

lemma sw_DivideLeft_finite:
  assumes v: "sw_ok v" "v \<noteq> sw_Zero" and w: "sw_ok w" "w \<noteq> sw_Zero"
  shows "sw_DivideLeft v w = sw_of_range (drop (length (sw_labels w)) (sw_labels v))"
  using assms push_back_loop_labels [OF skip_loop_labels [OF sw_Iterator_labels [of v], of 0 "sw_Size w"], of sw_empty]
  by (simp add: sw_DivideLeft_def sw_ok_Member sw_eq_iff sw_ok_valid sw_special sw_of_range_def sw_Size_labels)

lemma sw_DivideRight_finite:
  assumes v: "sw_ok v" "v \<noteq> sw_Zero" and w: "sw_ok w" "w \<noteq> sw_Zero"
  shows "sw_DivideRight v w = sw_of_range (take (length (sw_labels v) - length (sw_labels w)) (sw_labels v))"
proof -
  let ?ls = "drop (length (sw_labels w)) (rev (sw_labels v))"
  have "0 \<notin> set ?ls" using sw_valid_labels [OF sw_ok_valid [OF v(1)]] by (auto dest: in_set_dropD)
  from fold_Push(2) [OF this, of sw_empty] have "fold sw_PushFront ?ls sw_empty = sw_of_range (rev ?ls)"
    using \<open>0 \<notin> set ?ls\<close> by (simp add: sw_valid_inj [symmetric] sw_of_range_labels del: rev_drop)
  then show ?thesis
    using assms push_front_loop_labels [OF rskip_loop_labels [OF sw_ReverseIterator_labels [of v], of 0 "sw_Size w"], of sw_empty]
    by (simp add: sw_DivideRight_def sw_ok_Member sw_eq_iff sw_ok_valid sw_special sw_Size_labels rev_drop)
qed

lemma sw_Times_finite:
  assumes "sw_ok v" "v \<noteq> sw_Zero" "sw_ok w" "w \<noteq> sw_Zero"
  shows "sw_Times v w \<noteq> sw_Zero" "sw_labels (sw_Times v w) = sw_labels v @ sw_labels w"
  using sw_ok_ops(4) [of v w] assms by (auto simp: sw_abs_def str_Times_def split: if_splits)

lemma sw_of_range_sw_labels: "sw_valid w \<Longrightarrow> sw_of_range (sw_labels w) = w"
  by (simp add: sw_valid_inj [symmetric] sw_of_range_labels sw_valid_labels)

text \<open>A product divided by its left (right) factor is the other factor.\<close>

lemma sw_DivideLeft_Times:
  "sw_ok v \<Longrightarrow> v \<noteq> sw_Zero \<Longrightarrow> sw_ok w \<Longrightarrow> sw_DivideLeft (sw_Times v w) v = w"
  by (cases "w = sw_Zero")
    (simp_all add: sw_DivideLeft_finite sw_ok_ops sw_Times_finite sw_of_range_sw_labels sw_ok_valid,
     simp add: sw_DivideLeft_def sw_Times_def sw_ok_Member sw_ok_special sw_eq_iff sw_ok_valid sw_special)

lemma sw_DivideRight_Times:
  "sw_ok v \<Longrightarrow> v \<noteq> sw_Zero \<Longrightarrow> sw_ok w \<Longrightarrow> sw_DivideRight (sw_Times w v) v = w"
  by (cases "w = sw_Zero")
    (simp_all add: sw_DivideRight_finite sw_ok_ops sw_Times_finite sw_of_range_sw_labels sw_ok_valid,
     simp add: sw_DivideRight_def sw_Times_def sw_ok_Member sw_ok_special sw_eq_iff sw_ok_valid sw_special)

text \<open>The restricted Plus of different strings is the error value, and the error value is absorbing.\<close>

lemma sw_PlusRestrict_cases:
  "sw_ok v \<Longrightarrow> sw_ok w \<Longrightarrow> sw_PlusRestrict v w =
    (if v = sw_Zero then w else if w = sw_Zero \<or> v = w then v else sw_NoWeight)"
  by (simp add: sw_PlusRestrict_def sw_ok_Member sw_eq_iff sw_ok_valid sw_special)

lemma sw_NoWeight_absorbs:
  "\<not> sw_Member v \<or> \<not> sw_Member w \<Longrightarrow>
    sw_Plus S v w = sw_NoWeight \<and> sw_Times v w = sw_NoWeight \<and> sw_Divide S v w t = sw_NoWeight"
  by (cases S; cases t) (auto simp: sw_Plus_def sw_PlusLeft_def sw_PlusRight_def sw_PlusRestrict_def sw_Times_def
      sw_Divide_def sw_DivideInLeft_def sw_DivideInRight_def sw_DivideRestrict_def sw_DivideLeft_def sw_DivideRight_def)

end
