(* ===== verification/SetWeight.thy ===== *)
theory SetWeight
  imports StringWeight
begin

text \<open>
  The set semirings of src/openfst/lib/set-weight.h: sorted sets of positive labels with a
  universal set, under (intersection, union), (union, intersection), the restricted version of
  the first, and the boolean reading. The iterator class is the same as that of string weights.

  The lemmas show that on well-formed weights \<open>Union\<close>, \<open>Intersect\<close> and \<open>Difference\<close> compute the set
  operations, that the first two weights are the commutative idempotent semirings that \<open>Properties()\<close>
  announces, where the restricted one agrees with the first, and that the boolean version is a semiring
  with the path property on its two canonical values.
\<close>

section \<open>The class SetWeight\<close>

definition kSetEmpty :: int where "kSetEmpty = 0"
definition kSetUniv :: int where "kSetUniv = -1"
definition kSetBad :: int where "kSetBad = -2"

datatype SetType = SET_INTERSECT_UNION | SET_UNION_INTERSECT | SET_INTERSECT_UNION_RESTRICT | SET_BOOLEAN

record set_weight =
  st_first :: int
  st_rest :: "int list"

definition st_default :: set_weight where
  "st_default = \<lparr>st_first = kSetEmpty, st_rest = []\<rparr>"

definition st_Clear :: "set_weight \<Rightarrow> set_weight" where
  "st_Clear w = w\<lparr>st_first := kSetEmpty, st_rest := []\<rparr>"

definition st_Size :: "set_weight \<Rightarrow> nat" where
  "st_Size w = (if st_first w = kSetEmpty then 0 else length (st_rest w) + 1)"

definition st_Back :: "set_weight \<Rightarrow> int" where
  "st_Back w = (if st_rest w = [] then st_first w else last (st_rest w))"

definition st_PushBack :: "int \<Rightarrow> set_weight \<Rightarrow> set_weight" where
  "st_PushBack label w =
     (if st_first w = kSetEmpty then w\<lparr>st_first := label\<rparr>
      else
       (let w = (if label \<le> st_Back w \<or> label \<le> 0 then w\<lparr>st_rest := st_rest w @ [kSetBad]\<rparr> else w)
        in w\<lparr>st_rest := st_rest w @ [label]\<rparr>))"

definition st_of_range :: "int list \<Rightarrow> set_weight" where
  "st_of_range ls = fold st_PushBack ls st_default"

definition st_of_label :: "int \<Rightarrow> set_weight" where
  "st_of_label label = st_PushBack label st_default"

definition EmptySet :: set_weight where "EmptySet = st_of_label kSetEmpty"
definition UnivSet :: set_weight where "UnivSet = st_of_label kSetUniv"

definition st_Zero :: "SetType \<Rightarrow> set_weight" where
  "st_Zero S = (if S = SET_UNION_INTERSECT then EmptySet else UnivSet)"

definition st_One :: "SetType \<Rightarrow> set_weight" where
  "st_One S = (if S = SET_UNION_INTERSECT then UnivSet else EmptySet)"

definition st_NoWeight :: set_weight where "st_NoWeight = st_of_label kSetBad"

definition st_Iterator :: "set_weight \<Rightarrow> label_iter" where
  "st_Iterator w = \<lparr>it_first = st_first w, it_rest = st_rest w, it_init = True\<rparr>"

definition st_Member :: "set_weight \<Rightarrow> bool" where
  "st_Member w \<longleftrightarrow> it_Value (st_Iterator w) \<noteq> kSetBad"

definition st_Reverse :: "set_weight \<Rightarrow> set_weight" where
  "st_Reverse w = w"

text \<open>\<open>operator==\<close>; the loop is that of string weights.\<close>

definition st_eq_default :: "set_weight \<Rightarrow> set_weight \<Rightarrow> bool" where
  "st_eq_default w1 w2 =
     (if st_Size w1 \<noteq> st_Size w2 then False else equal_loop (st_Iterator w1) (st_Iterator w2))"

definition st_eq_boolean :: "set_weight \<Rightarrow> set_weight \<Rightarrow> bool" where
  "st_eq_boolean w1 w2 =
     (if \<not> st_Member w1 \<or> \<not> st_Member w2 then False
      else
       (let iter1 = st_Iterator w1;
            iter2 = st_Iterator w2;
            label1 = (if it_Done iter1 then kSetEmpty else it_Value iter1);
            label2 = (if it_Done iter2 then kSetEmpty else it_Value iter2)
        in if label1 = kSetUniv then label2 = kSetUniv
           else if label2 = kSetUniv then label1 = kSetUniv
           else True))"

definition st_eq :: "SetType \<Rightarrow> set_weight \<Rightarrow> set_weight \<Rightarrow> bool" where
  "st_eq S = (if S = SET_BOOLEAN then st_eq_boolean else st_eq_default)"

section \<open>Union, Intersect, Difference\<close>

function union_loop ::
  "label_iter \<Rightarrow> label_iter \<Rightarrow> set_weight \<Rightarrow> label_iter \<times> label_iter \<times> set_weight" where
  "union_loop it1 it2 result =
     (if \<not> it_Done it1 \<and> \<not> it_Done it2
      then
       (let v1 = it_Value it1; v2 = it_Value it2
        in if v1 < v2 then union_loop (it_Next it1) it2 (st_PushBack v1 result)
           else if v1 > v2 then union_loop it1 (it_Next it2) (st_PushBack v2 result)
           else union_loop (it_Next it1) (it_Next it2) (st_PushBack v1 result))
      else (it1, it2, result))"
  by auto
termination
  by (relation "measure (\<lambda>(it1, it2, _). it_size it1 + it_size it2)") (auto intro: add_less_mono)

function st_push_loop :: "label_iter \<Rightarrow> set_weight \<Rightarrow> set_weight" where
  "st_push_loop it w =
     (if it_Done it then w else st_push_loop (it_Next it) (st_PushBack (it_Value it) w))"
  by auto
termination by (relation "measure (\<lambda>(it, _). it_size it)") auto

definition st_Union :: "SetType \<Rightarrow> set_weight \<Rightarrow> set_weight \<Rightarrow> set_weight" where
  "st_Union S w1 w2 =
     (if \<not> st_Member w1 \<or> \<not> st_Member w2 then st_NoWeight
      else if st_eq S w1 EmptySet then w2
      else if st_eq S w2 EmptySet then w1
      else if st_eq S w1 UnivSet then w1
      else if st_eq S w2 UnivSet then w2
      else (let (it1, it2, result) = union_loop (st_Iterator w1) (st_Iterator w2) st_default
            in st_push_loop it2 (st_push_loop it1 result)))"

function intersect_loop :: "label_iter \<Rightarrow> label_iter \<Rightarrow> set_weight \<Rightarrow> set_weight" where
  "intersect_loop it1 it2 result =
     (if \<not> it_Done it1 \<and> \<not> it_Done it2
      then
       (let v1 = it_Value it1; v2 = it_Value it2
        in if v1 < v2 then intersect_loop (it_Next it1) it2 result
           else if v1 > v2 then intersect_loop it1 (it_Next it2) result
           else intersect_loop (it_Next it1) (it_Next it2) (st_PushBack v1 result))
      else result)"
  by auto
termination
  by (relation "measure (\<lambda>(it1, it2, _). it_size it1 + it_size it2)") (auto intro: add_less_mono)

definition st_Intersect :: "SetType \<Rightarrow> set_weight \<Rightarrow> set_weight \<Rightarrow> set_weight" where
  "st_Intersect S w1 w2 =
     (if \<not> st_Member w1 \<or> \<not> st_Member w2 then st_NoWeight
      else if st_eq S w1 EmptySet then w1
      else if st_eq S w2 EmptySet then w2
      else if st_eq S w1 UnivSet then w2
      else if st_eq S w2 UnivSet then w1
      else intersect_loop (st_Iterator w1) (st_Iterator w2) st_default)"

function difference_loop ::
  "label_iter \<Rightarrow> label_iter \<Rightarrow> set_weight \<Rightarrow> label_iter \<times> set_weight" where
  "difference_loop it1 it2 result =
     (if \<not> it_Done it1 \<and> \<not> it_Done it2
      then
       (let v1 = it_Value it1; v2 = it_Value it2
        in if v1 < v2 then difference_loop (it_Next it1) it2 (st_PushBack v1 result)
           else if v1 > v2 then difference_loop it1 (it_Next it2) result
           else difference_loop (it_Next it1) (it_Next it2) result)
      else (it1, result))"
  by auto
termination
  by (relation "measure (\<lambda>(it1, it2, _). it_size it1 + it_size it2)") (auto intro: add_less_mono)

definition st_Difference :: "SetType \<Rightarrow> set_weight \<Rightarrow> set_weight \<Rightarrow> set_weight" where
  "st_Difference S w1 w2 =
     (if \<not> st_Member w1 \<or> \<not> st_Member w2 then st_NoWeight
      else if st_eq S w1 EmptySet then w1
      else if st_eq S w2 EmptySet then w1
      else if st_eq S w2 UnivSet then EmptySet
      else (let (it1, result) = difference_loop (st_Iterator w1) (st_Iterator w2) st_default
            in st_push_loop it1 result))"

section \<open>Plus, Times and Divide\<close>

definition st_PlusRestrict :: "set_weight \<Rightarrow> set_weight \<Rightarrow> set_weight" where
  "st_PlusRestrict w1 w2 =
     (let S = SET_INTERSECT_UNION_RESTRICT in
      if \<not> st_Member w1 \<or> \<not> st_Member w2 then st_NoWeight
      else if st_eq S w1 (st_Zero S) then w2
      else if st_eq S w2 (st_Zero S) then w1
      else if \<not> st_eq S w1 w2 then st_NoWeight else w1)"

definition st_PlusBoolean :: "set_weight \<Rightarrow> set_weight \<Rightarrow> set_weight" where
  "st_PlusBoolean w1 w2 =
     (let S = SET_BOOLEAN in
      if \<not> st_Member w1 \<or> \<not> st_Member w2 then st_NoWeight
      else if st_eq S w1 (st_One S) then w1
      else if st_eq S w2 (st_One S) then w2
      else st_Zero S)"

definition st_Plus :: "SetType \<Rightarrow> set_weight \<Rightarrow> set_weight \<Rightarrow> set_weight" where
  "st_Plus S = (case S of SET_INTERSECT_UNION \<Rightarrow> st_Intersect S | SET_UNION_INTERSECT \<Rightarrow> st_Union S
                 | SET_INTERSECT_UNION_RESTRICT \<Rightarrow> st_PlusRestrict | SET_BOOLEAN \<Rightarrow> st_PlusBoolean)"

definition st_TimesBoolean :: "set_weight \<Rightarrow> set_weight \<Rightarrow> set_weight" where
  "st_TimesBoolean w1 w2 =
     (let S = SET_BOOLEAN in
      if \<not> st_Member w1 \<or> \<not> st_Member w2 then st_NoWeight
      else if st_eq S w1 (st_One S) then w2
      else w1)"

definition st_Times :: "SetType \<Rightarrow> set_weight \<Rightarrow> set_weight \<Rightarrow> set_weight" where
  "st_Times S = (case S of SET_INTERSECT_UNION \<Rightarrow> st_Union S | SET_UNION_INTERSECT \<Rightarrow> st_Intersect S
                  | SET_INTERSECT_UNION_RESTRICT \<Rightarrow> st_Union S | SET_BOOLEAN \<Rightarrow> st_TimesBoolean)"

definition st_DivideUnionIntersect :: "set_weight \<Rightarrow> set_weight \<Rightarrow> set_weight" where
  "st_DivideUnionIntersect w1 w2 =
     (if \<not> st_Member w1 \<or> \<not> st_Member w2 then st_NoWeight
      else if st_eq SET_UNION_INTERSECT w1 w2 then UnivSet
      else w1)"

definition st_DivideBoolean :: "set_weight \<Rightarrow> set_weight \<Rightarrow> set_weight" where
  "st_DivideBoolean w1 w2 =
     (let S = SET_BOOLEAN in
      if \<not> st_Member w1 \<or> \<not> st_Member w2 then st_NoWeight
      else if st_eq S w1 (st_One S) then w1
      else if st_eq S w2 (st_Zero S) then st_One S
      else st_Zero S)"

definition st_Divide :: "SetType \<Rightarrow> set_weight \<Rightarrow> set_weight \<Rightarrow> set_weight" where
  "st_Divide S = (case S of SET_INTERSECT_UNION \<Rightarrow> st_Difference S | SET_UNION_INTERSECT \<Rightarrow> st_DivideUnionIntersect
                   | SET_INTERSECT_UNION_RESTRICT \<Rightarrow> st_Difference S | SET_BOOLEAN \<Rightarrow> st_DivideBoolean)"

definition SetWeight :: "SetType \<Rightarrow> set_weight weight_ops" where
  "SetWeight S =
     \<lparr>Zero = st_Zero S, One = st_One S, NoWeight = st_NoWeight, Plus = st_Plus S, Times = st_Times S,
      Weq = st_eq S, Member = st_Member\<rparr>"

text \<open>\<open>WeightConvert\<close> between set types.\<close>

definition st_Convert :: "set_weight \<Rightarrow> set_weight" where
  "st_Convert w1 = st_push_loop (st_Iterator w1) st_default"

declare union_loop.simps [simp del] st_push_loop.simps [simp del] intersect_loop.simps [simp del]
  difference_loop.simps [simp del]

section \<open>Weights as sorted lists of labels\<close>

definition st_labels :: "set_weight \<Rightarrow> int list" where
  "st_labels w = (if st_first w = kSetEmpty then [] else st_first w # st_rest w)"

definition ascending :: "int list \<Rightarrow> bool" where
  "ascending ls \<longleftrightarrow> sorted_wrt (<) ls \<and> (\<forall>l \<in> set ls. 0 < l)"

definition st_finite :: "set_weight \<Rightarrow> bool" where
  "st_finite w \<longleftrightarrow> ascending (st_labels w) \<and> (st_first w = kSetEmpty \<longrightarrow> st_rest w = [])"

lemma ascending_simps [simp]:
  "ascending []" "ascending (l # ls) \<longleftrightarrow> 0 < l \<and> ascending ls \<and> (\<forall>m \<in> set ls. l < m)"
  by (auto simp: ascending_def)

lemma ascending_snoc: "ascending (ls @ [l]) \<longleftrightarrow> ascending ls \<and> 0 < l \<and> (\<forall>m \<in> set ls. m < l)"
  by (auto simp: ascending_def sorted_wrt_append)

lemma ascending_unique: "ascending xs \<Longrightarrow> ascending ys \<Longrightarrow> set xs = set ys \<Longrightarrow> xs = ys"
  by (auto simp: ascending_def strict_sorted_iff intro: sorted_distinct_set_unique)

lemma st_Iterator_labels [simp]: "it_labels (st_Iterator w) = st_labels w"
  by (simp add: it_labels_def st_Iterator_def st_labels_def kSetEmpty_def)

lemma st_PushBack_labels:
  assumes "st_finite w" "ascending (st_labels w @ [l])"
  shows "st_finite (st_PushBack l w) \<and> st_labels (st_PushBack l w) = st_labels w @ [l]"
proof (cases "st_first w = kSetEmpty")
  case True
  then show ?thesis using assms by (auto simp: st_finite_def st_labels_def st_PushBack_def kSetEmpty_def)
next
  case False
  have "st_Back w \<in> set (st_labels w)" using False by (simp add: st_Back_def st_labels_def)
  then have "\<not> (l \<le> st_Back w \<or> l \<le> 0)" using assms(2) by (auto simp: ascending_snoc)
  then have "st_PushBack l w = w\<lparr>st_rest := st_rest w @ [l]\<rparr>" using False by (simp add: st_PushBack_def)
  then show ?thesis using False assms by (simp add: st_finite_def st_labels_def)
qed

lemma fold_st_PushBack:
  "st_finite w \<Longrightarrow> ascending (st_labels w @ ls) \<Longrightarrow>
    st_finite (fold st_PushBack ls w) \<and> st_labels (fold st_PushBack ls w) = st_labels w @ ls"
proof (induction ls arbitrary: w)
  case (Cons l ls)
  have "ascending ((st_labels w @ [l]) @ ls)" using Cons.prems by simp
  then have "ascending (st_labels w @ [l])" by (simp add: ascending_def sorted_wrt_append)
  from st_PushBack_labels [OF Cons.prems(1) this] Cons show ?case by simp
qed simp

lemma st_default_labels [simp]: "st_finite st_default" "st_labels st_default = []"
  by (simp_all add: st_finite_def st_labels_def st_default_def)

lemma st_of_range_labels:
  "ascending ls \<Longrightarrow> st_finite (st_of_range ls) \<and> st_labels (st_of_range ls) = ls"
  using fold_st_PushBack [of st_default ls] by (simp add: st_of_range_def)

lemma st_finite_inj: "st_finite v \<Longrightarrow> st_finite w \<Longrightarrow> st_labels v = st_labels w \<longleftrightarrow> v = w"
  by (auto simp: st_finite_def st_labels_def split: if_splits)

text \<open>The loops as functions of the labels that are left.\<close>

lemma st_push_loop_labels: "it_labels it = ls \<Longrightarrow> st_push_loop it w = fold st_PushBack ls w"
  by (induction ls arbitrary: it w) (subst st_push_loop.simps, simp add: it_Done_iff it_step)+

fun merge_union :: "int list \<Rightarrow> int list \<Rightarrow> int list" where
  "merge_union (x # xs) (y # ys) =
     (if x < y then x # merge_union xs (y # ys)
      else if x > y then y # merge_union (x # xs) ys
      else x # merge_union xs ys)"
| "merge_union [] ys = ys"
| "merge_union xs [] = xs"

lemma union_loop_labels:
  "it_labels it1 = ls \<Longrightarrow> it_labels it2 = ms \<Longrightarrow>
    (case union_loop it1 it2 w of (it1, it2, r) \<Rightarrow> st_push_loop it2 (st_push_loop it1 r)) =
    fold st_PushBack (merge_union ls ms) w"
proof (induction ls ms arbitrary: it1 it2 w rule: merge_union.induct)
  case (1 x xs y ys)
  note s1 = it_step [OF 1(4)] and s2 = it_step [OF 1(5)]
  show ?case using 1 s1 s2 by (subst union_loop.simps) (simp add: it_Done_iff)
qed (subst union_loop.simps, simp add: it_Done_iff st_push_loop_labels)+

lemma set_merge_union: "set (merge_union xs ys) = set xs \<union> set ys"
  by (induction xs ys rule: merge_union.induct) auto

lemma ascending_merge_union: "ascending xs \<Longrightarrow> ascending ys \<Longrightarrow> ascending (merge_union xs ys)"
  by (induction xs ys rule: merge_union.induct) (auto simp: set_merge_union)

fun merge_intersect :: "int list \<Rightarrow> int list \<Rightarrow> int list" where
  "merge_intersect (x # xs) (y # ys) =
     (if x < y then merge_intersect xs (y # ys)
      else if x > y then merge_intersect (x # xs) ys
      else x # merge_intersect xs ys)"
| "merge_intersect [] ys = []"
| "merge_intersect xs [] = []"

lemma intersect_loop_labels:
  "it_labels it1 = ls \<Longrightarrow> it_labels it2 = ms \<Longrightarrow>
    intersect_loop it1 it2 w = fold st_PushBack (merge_intersect ls ms) w"
proof (induction ls ms arbitrary: it1 it2 w rule: merge_intersect.induct)
  case (1 x xs y ys)
  note s1 = it_step [OF 1(4)] and s2 = it_step [OF 1(5)]
  show ?case using 1 s1 s2 by (subst intersect_loop.simps) (simp add: it_Done_iff)
qed (subst intersect_loop.simps, simp add: it_Done_iff)+

lemma set_merge_intersect: "ascending xs \<Longrightarrow> ascending ys \<Longrightarrow> set (merge_intersect xs ys) = set xs \<inter> set ys"
  by (induction xs ys rule: merge_intersect.induct) (auto dest: bspec)

lemma ascending_merge_intersect: "ascending xs \<Longrightarrow> ascending ys \<Longrightarrow> ascending (merge_intersect xs ys)"
  by (induction xs ys rule: merge_intersect.induct) (auto simp: set_merge_intersect)

fun merge_difference :: "int list \<Rightarrow> int list \<Rightarrow> int list" where
  "merge_difference (x # xs) (y # ys) =
     (if x < y then x # merge_difference xs (y # ys)
      else if x > y then merge_difference (x # xs) ys
      else merge_difference xs ys)"
| "merge_difference [] ys = []"
| "merge_difference xs [] = xs"

lemma difference_loop_labels:
  "it_labels it1 = ls \<Longrightarrow> it_labels it2 = ms \<Longrightarrow>
    (case difference_loop it1 it2 w of (it1, r) \<Rightarrow> st_push_loop it1 r) =
    fold st_PushBack (merge_difference ls ms) w"
proof (induction ls ms arbitrary: it1 it2 w rule: merge_difference.induct)
  case (1 x xs y ys)
  note s1 = it_step [OF 1(4)] and s2 = it_step [OF 1(5)]
  show ?case using 1 s1 s2 by (subst difference_loop.simps) (simp add: it_Done_iff)
qed (subst difference_loop.simps, simp add: it_Done_iff st_push_loop_labels)+

lemma set_merge_difference: "ascending xs \<Longrightarrow> ascending ys \<Longrightarrow> set (merge_difference xs ys) = set xs - set ys"
  by (induction xs ys rule: merge_difference.induct) (auto dest: bspec)

lemma ascending_merge_difference: "ascending xs \<Longrightarrow> ascending ys \<Longrightarrow> ascending (merge_difference xs ys)"
  by (induction xs ys rule: merge_difference.induct) (auto simp: set_merge_difference)

section \<open>The operations as operations of sets\<close>

text \<open>
  The weights on which the laws hold: the universal set and the ascending lists of positive
  labels. \<open>st_abs\<close> reads a weight as a set of integers.
\<close>

definition st_ok :: "set_weight \<Rightarrow> bool" where
  "st_ok w \<longleftrightarrow> w = UnivSet \<or> st_finite w"

definition st_abs :: "set_weight \<Rightarrow> int set" where
  "st_abs w = (if w = UnivSet then UNIV else set (st_labels w))"

lemma UnivSet_eq: "UnivSet = \<lparr>st_first = -1, st_rest = []\<rparr>"
  by (simp add: UnivSet_def st_of_label_def st_PushBack_def st_default_def kSetEmpty_def kSetUniv_def)

lemma EmptySet_eq: "EmptySet = \<lparr>st_first = 0, st_rest = []\<rparr>"
  by (simp add: EmptySet_def st_of_label_def st_PushBack_def st_default_def kSetEmpty_def)

lemma UnivSet_not_finite: "\<not> st_finite UnivSet"
  by (simp add: UnivSet_eq st_finite_def st_labels_def kSetEmpty_def)

lemma EmptySet_finite: "st_finite EmptySet" "st_labels EmptySet = []"
  by (simp_all add: EmptySet_eq st_finite_def st_labels_def kSetEmpty_def)

lemma st_finite_iff: "st_ok w \<Longrightarrow> st_finite w \<longleftrightarrow> w \<noteq> UnivSet"
  using UnivSet_not_finite by (auto simp: st_ok_def)

lemma st_abs_inj: "st_ok v \<Longrightarrow> st_ok w \<Longrightarrow> st_abs v = st_abs w \<Longrightarrow> v = w"
proof -
  assume *: "st_ok v" "st_ok w" "st_abs v = st_abs w"
  have "set ls \<noteq> UNIV" "UNIV \<noteq> set ls" for ls :: "int list" using infinite_UNIV_int by (metis finite_set)+
  then have "v = UnivSet \<longleftrightarrow> w = UnivSet" using *(3) by (simp add: st_abs_def split: if_splits)
  moreover have "st_finite v \<Longrightarrow> st_finite w \<Longrightarrow> set (st_labels v) = set (st_labels w) \<Longrightarrow> v = w"
    by (metis ascending_unique st_finite_inj st_finite_def)
  ultimately show ?thesis using * by (auto simp: st_ok_def st_abs_def split: if_splits)
qed

lemma st_ok_special: "st_ok UnivSet" "st_ok EmptySet" "st_abs UnivSet = UNIV" "st_abs EmptySet = {}"
  using EmptySet_finite UnivSet_not_finite by (auto simp: st_ok_def st_abs_def)

lemma st_ok_Member: "st_ok w \<Longrightarrow> st_Member w"
  by (auto simp: st_ok_def st_finite_def st_Member_def st_Iterator_def it_Value_def UnivSet_eq st_labels_def
      kSetBad_def kSetEmpty_def split: if_splits)

lemma st_labels_special: "st_labels UnivSet = [-1]" "st_Size w = length (st_labels w)"
  by (simp_all add: UnivSet_eq st_labels_def st_Size_def kSetEmpty_def)

lemma st_labels_inj: "st_ok v \<Longrightarrow> st_ok w \<Longrightarrow> st_labels v = st_labels w \<Longrightarrow> v = w"
proof -
  have "st_labels w \<noteq> [-1]" if "st_finite w" for w
    using that by (auto simp: st_finite_def)
  moreover from this have "[-1] \<noteq> st_labels w" if "st_finite w" for w
    using that by metis
  ultimately have "st_finite w \<Longrightarrow> st_labels w \<noteq> [-1] \<and> [-1] \<noteq> st_labels w" for w by blast
  then show "st_ok v \<Longrightarrow> st_ok w \<Longrightarrow> st_labels v = st_labels w \<Longrightarrow> v = w"
    by (auto simp: st_ok_def st_finite_inj st_labels_special(1))
qed

lemma st_eq_iff: "S \<noteq> SET_BOOLEAN \<Longrightarrow> st_ok v \<Longrightarrow> st_ok w \<Longrightarrow> st_eq S v w \<longleftrightarrow> v = w"
  using equal_loop_labels [of "st_Iterator v" "st_labels v" "st_Iterator w" "st_labels w"] st_labels_inj [of v w]
  by (auto simp: st_eq_def st_eq_default_def st_labels_special(2))

lemma st_eq_boolean_iff: "st_ok v \<Longrightarrow> st_ok w \<Longrightarrow> st_eq SET_BOOLEAN v w \<longleftrightarrow> (v = UnivSet \<longleftrightarrow> w = UnivSet)"
proof -
  have "st_ok v \<Longrightarrow> (if it_Done (st_Iterator v) then kSetEmpty else it_Value (st_Iterator v)) = kSetUniv
      \<longleftrightarrow> v = UnivSet" for v
    by (auto simp: st_ok_def st_finite_def st_labels_def it_Done_def it_Value_def st_Iterator_def UnivSet_eq
        kSetEmpty_def kSetUniv_def split: if_splits)
  then show "st_ok v \<Longrightarrow> st_ok w \<Longrightarrow> ?thesis"
    by (simp add: st_eq_def st_eq_boolean_def st_ok_Member Let_def)
qed

text \<open>A finite weight that a loop has built from an ascending list.\<close>

lemma st_built:
  assumes "ascending ls"
  shows "st_ok (fold st_PushBack ls st_default)" "st_abs (fold st_PushBack ls st_default) = set ls"
  using fold_st_PushBack [of st_default ls] assms UnivSet_not_finite by (auto simp: st_ok_def st_abs_def)

lemma st_ok_finite: "st_ok w \<Longrightarrow> w \<noteq> UnivSet \<Longrightarrow> ascending (st_labels w) \<and> st_abs w = set (st_labels w)"
  by (auto simp: st_ok_def st_finite_def st_abs_def)

lemma st_Union_abs:
  assumes S: "S \<noteq> SET_BOOLEAN" and v: "st_ok v" and w: "st_ok w"
  shows "st_ok (st_Union S v w)" "st_abs (st_Union S v w) = st_abs v \<union> st_abs w"
proof -
  let ?r = "fold st_PushBack (merge_union (st_labels v) (st_labels w)) st_default"
  have eq: "st_Union S v w =
      (if v = EmptySet then w else if w = EmptySet then v else if v = UnivSet then v else if w = UnivSet then w else ?r)"
    using union_loop_labels [of "st_Iterator v" "st_labels v" "st_Iterator w" "st_labels w" st_default] S v w
    by (simp add: st_Union_def st_ok_Member st_eq_iff st_ok_special case_prod_unfold Let_def)
  have r: "st_ok ?r" "st_abs ?r = st_abs v \<union> st_abs w" if "v \<noteq> UnivSet" "w \<noteq> UnivSet"
    using st_built [OF ascending_merge_union, of "st_labels v" "st_labels w"] st_ok_finite [OF v] st_ok_finite [OF w] that
    by (simp_all add: set_merge_union)
  show "st_ok (st_Union S v w)" "st_abs (st_Union S v w) = st_abs v \<union> st_abs w"
    unfolding eq using v w r by (auto simp: st_ok_special)
qed

lemma st_Intersect_abs:
  assumes S: "S \<noteq> SET_BOOLEAN" and v: "st_ok v" and w: "st_ok w"
  shows "st_ok (st_Intersect S v w)" "st_abs (st_Intersect S v w) = st_abs v \<inter> st_abs w"
proof -
  let ?r = "fold st_PushBack (merge_intersect (st_labels v) (st_labels w)) st_default"
  have eq: "st_Intersect S v w =
      (if v = EmptySet then v else if w = EmptySet then w else if v = UnivSet then w else if w = UnivSet then v else ?r)"
    using intersect_loop_labels [of "st_Iterator v" "st_labels v" "st_Iterator w" "st_labels w" st_default] S v w
    by (simp add: st_Intersect_def st_ok_Member st_eq_iff st_ok_special)
  have r: "st_ok ?r" "st_abs ?r = st_abs v \<inter> st_abs w" if "v \<noteq> UnivSet" "w \<noteq> UnivSet"
    using st_built [OF ascending_merge_intersect, of "st_labels v" "st_labels w"] st_ok_finite [OF v] st_ok_finite [OF w] that
    by (simp_all add: set_merge_intersect)
  show "st_ok (st_Intersect S v w)" "st_abs (st_Intersect S v w) = st_abs v \<inter> st_abs w"
    unfolding eq using v w r by (auto simp: st_ok_special)
qed

lemma st_Difference_abs:
  assumes S: "S \<noteq> SET_BOOLEAN" and v: "st_ok v" and w: "st_ok w" and fin: "v \<noteq> UnivSet"
  shows "st_ok (st_Difference S v w)" "st_abs (st_Difference S v w) = st_abs v - st_abs w"
proof -
  let ?r = "fold st_PushBack (merge_difference (st_labels v) (st_labels w)) st_default"
  have eq: "st_Difference S v w =
      (if v = EmptySet then v else if w = EmptySet then v else if w = UnivSet then EmptySet else ?r)"
    using difference_loop_labels [of "st_Iterator v" "st_labels v" "st_Iterator w" "st_labels w" st_default] S v w
    by (simp add: st_Difference_def st_ok_Member st_eq_iff st_ok_special case_prod_unfold Let_def)
  have r: "st_ok ?r" "st_abs ?r = st_abs v - st_abs w" if "w \<noteq> UnivSet"
    using st_built [OF ascending_merge_difference, of "st_labels v" "st_labels w"] st_ok_finite [OF v fin] st_ok_finite [OF w] that
    by (simp_all add: set_merge_difference)
  show "st_ok (st_Difference S v w)" "st_abs (st_Difference S v w) = st_abs v - st_abs w"
    unfolding eq using v w r by (auto simp: st_ok_special)
qed

section \<open>The set weights are the semirings they say they are\<close>

lemma SetWeight_sel [simp]:
  "Zero (SetWeight S) = st_Zero S" "One (SetWeight S) = st_One S" "NoWeight (SetWeight S) = st_NoWeight"
  "Times (SetWeight S) = st_Times S" "Plus (SetWeight S) = st_Plus S" "Weq (SetWeight S) = st_eq S"
  "Member (SetWeight S) = st_Member"
  by (simp_all add: SetWeight_def)

lemma st_Univ_neq_Empty: "UnivSet \<noteq> EmptySet" "EmptySet \<noteq> UnivSet"
  by (simp_all add: UnivSet_eq EmptySet_eq)

lemmas st_laws = st_Zero_def st_One_def st_Plus_def st_Times_def st_ok_special st_Union_abs st_Intersect_abs
  st_eq_iff st_ok_Member st_Univ_neq_Empty

interpretation st_iu: weight_semiring "SetWeight SET_INTERSECT_UNION" st_ok
proof
  fix a b c
  assume [simp]: "st_ok a" "st_ok b" "st_ok c"
  note [simp] = st_laws and [intro] = st_abs_inj
  let ?W = "SetWeight SET_INTERSECT_UNION"
  show "Times ?W (Times ?W a b) c = Times ?W a (Times ?W b c)" by (rule st_abs_inj) auto
  show "Times ?W (One ?W) a = a" "Times ?W a (One ?W) = a" by (rule st_abs_inj; auto)+
  show "Plus ?W (Plus ?W a b) c = Plus ?W a (Plus ?W b c)" "Plus ?W a b = Plus ?W b a" "Plus ?W (Zero ?W) a = a"
    by (rule st_abs_inj; auto)+
  show "Times ?W (Zero ?W) a = Zero ?W" "Times ?W a (Zero ?W) = Zero ?W" by (rule st_abs_inj; auto)+
  show "Times ?W c (Plus ?W a b) = Plus ?W (Times ?W c a) (Times ?W c b)"
    "Times ?W (Plus ?W a b) c = Plus ?W (Times ?W a c) (Times ?W b c)" by (rule st_abs_inj; auto)+
qed (simp_all add: st_laws)

interpretation st_ui: weight_semiring "SetWeight SET_UNION_INTERSECT" st_ok
proof
  fix a b c
  assume [simp]: "st_ok a" "st_ok b" "st_ok c"
  note [simp] = st_laws
  let ?W = "SetWeight SET_UNION_INTERSECT"
  show "Times ?W (Times ?W a b) c = Times ?W a (Times ?W b c)" by (rule st_abs_inj) auto
  show "Times ?W (One ?W) a = a" "Times ?W a (One ?W) = a" by (rule st_abs_inj; auto)+
  show "Plus ?W (Plus ?W a b) c = Plus ?W a (Plus ?W b c)" "Plus ?W a b = Plus ?W b a" "Plus ?W (Zero ?W) a = a"
    by (rule st_abs_inj; auto)+
  show "Times ?W (Zero ?W) a = Zero ?W" "Times ?W a (Zero ?W) = Zero ?W" by (rule st_abs_inj; auto)+
  show "Times ?W c (Plus ?W a b) = Plus ?W (Times ?W c a) (Times ?W c b)"
    "Times ?W (Plus ?W a b) c = Plus ?W (Times ?W a c) (Times ?W b c)" by (rule st_abs_inj; auto)+
qed (simp_all add: st_laws)

interpretation st_iu: idempotent_weight "SetWeight SET_INTERSECT_UNION" st_ok
  by unfold_locales (auto intro: st_abs_inj simp: st_laws)

interpretation st_ui: idempotent_weight "SetWeight SET_UNION_INTERSECT" st_ok
  by unfold_locales (auto intro: st_abs_inj simp: st_laws)

text \<open>Union and intersection commute.\<close>

lemma st_Times_commute:
  "S \<noteq> SET_BOOLEAN \<Longrightarrow> st_ok v \<Longrightarrow> st_ok w \<Longrightarrow> st_Times S v w = st_Times S w v"
  by (cases S) (auto intro!: st_abs_inj simp: st_laws)

text \<open>Since they do, a set weight is its own ReverseWeight.\<close>

interpretation st_rev: reversible_weight "SetWeight SET_INTERSECT_UNION" st_ok "SetWeight SET_INTERSECT_UNION" st_ok st_Reverse
  by unfold_locales (simp_all add: st_Reverse_def st_Times_commute)

text \<open>The boolean weight, on the two values that its operations return for them.\<close>

definition st_bool :: "set_weight \<Rightarrow> bool" where
  "st_bool w \<longleftrightarrow> w = UnivSet \<or> w = EmptySet"

lemma st_bool_ok: "st_bool w \<Longrightarrow> st_ok w"
  by (auto simp: st_bool_def st_ok_special)

lemma st_bool_ops:
  "st_bool v \<Longrightarrow> st_bool w \<Longrightarrow> st_Plus SET_BOOLEAN v w = (if v = EmptySet then v else w)"
  "st_bool v \<Longrightarrow> st_bool w \<Longrightarrow> st_Times SET_BOOLEAN v w = (if v = EmptySet then w else v)"
  "st_bool v \<Longrightarrow> st_bool w \<Longrightarrow> st_eq SET_BOOLEAN v w \<longleftrightarrow> v = w"
  by (auto simp: st_Plus_def st_Times_def st_PlusBoolean_def st_TimesBoolean_def Let_def st_ok_Member st_bool_ok
      st_eq_boolean_iff st_One_def st_Zero_def st_ok_special st_Univ_neq_Empty; simp add: st_bool_def)+

lemma st_bool_values: "st_bool UnivSet" "st_bool EmptySet" "st_bool w \<Longrightarrow> w \<noteq> EmptySet \<Longrightarrow> w = UnivSet"
  by (auto simp: st_bool_def)

lemma st_bool_sets:
  assumes "st_bool v" "st_bool w"
  shows "st_Union SET_BOOLEAN v w = (if v = EmptySet then w else v)"
    "st_Intersect SET_BOOLEAN v w = (if v = EmptySet then v else w)"
    "st_Difference SET_BOOLEAN EmptySet w = EmptySet"
  using assms by (auto simp: st_bool_def st_Union_def st_Intersect_def st_Difference_def st_ok_Member st_eq_boolean_iff
      st_ok_special st_Univ_neq_Empty)

lemma st_bool_commute: "st_bool v \<Longrightarrow> st_bool w \<Longrightarrow> st_Times SET_BOOLEAN v w = st_Times SET_BOOLEAN w v"
  using st_bool_values by (auto simp: st_bool_ops)

interpretation st_bool: weight_semiring "SetWeight SET_BOOLEAN" st_bool
  by unfold_locales
    (use st_bool_values in \<open>auto simp: st_bool_ops st_Zero_def st_One_def st_Univ_neq_Empty st_ok_Member st_bool_ok\<close>)

interpretation st_bool: path_property_weight "SetWeight SET_BOOLEAN" st_bool
  by unfold_locales (auto simp: st_bool_ops)

text \<open>
  The restricted weight has the product of the (intersection, union) weight, and its sum where no
  sets have to be intersected; elsewhere its sum is an error.
\<close>

lemma st_restrict:
  assumes "st_ok v" "st_ok w"
  shows "st_Times SET_INTERSECT_UNION_RESTRICT v w = st_Times SET_INTERSECT_UNION v w"
    "st_Plus SET_INTERSECT_UNION_RESTRICT v w =
      (if v = UnivSet \<or> w = UnivSet \<or> v = w then st_Plus SET_INTERSECT_UNION v w else st_NoWeight)"
proof -
  show "st_Times SET_INTERSECT_UNION_RESTRICT v w = st_Times SET_INTERSECT_UNION v w"
    using assms by (intro st_abs_inj) (simp_all add: st_laws)
  have "st_Plus SET_INTERSECT_UNION v w = (if v = UnivSet then w else v)" if "v = UnivSet \<or> w = UnivSet \<or> v = w"
    using assms that by (intro st_abs_inj) (auto simp: st_laws)
  then show "st_Plus SET_INTERSECT_UNION_RESTRICT v w =
      (if v = UnivSet \<or> w = UnivSet \<or> v = w then st_Plus SET_INTERSECT_UNION v w else st_NoWeight)"
    using assms by (auto simp: st_Plus_def st_PlusRestrict_def Let_def st_laws)
qed

text \<open>Division: in the (intersection, union) weight, a weight is the product of its quotient and the divisor.\<close>

lemma st_Divide_Times:
  assumes "st_ok v" "v \<noteq> UnivSet" "st_ok w" "st_abs w \<subseteq> st_abs v"
  shows "st_Times SET_INTERSECT_UNION (st_Divide SET_INTERSECT_UNION v w) w = v"
  using assms by (intro st_abs_inj) (auto simp: st_Divide_def st_laws st_Difference_abs)

lemma st_NoWeight_absorbs:
  "\<not> st_Member v \<or> \<not> st_Member w \<Longrightarrow>
    st_Plus S v w = st_NoWeight \<and> st_Times S v w = st_NoWeight \<and> st_Divide S v w = st_NoWeight"
  by (cases S) (auto simp: st_Plus_def st_Times_def st_Divide_def st_Union_def st_Intersect_def st_Difference_def
      st_PlusRestrict_def st_PlusBoolean_def st_TimesBoolean_def st_DivideBoolean_def st_DivideUnionIntersect_def)

text \<open>
  A label that is pushed out of order leaves the mark \<open>kSetBad\<close> in \<open>rest_\<close>, where \<open>Member\<close> does
  not look.
\<close>

lemma st_unsorted_Member:
  "0 < l \<Longrightarrow> m \<le> l \<Longrightarrow> st_Member (st_of_range [l, m]) \<and> st_labels (st_of_range [l, m]) = [l, kSetBad, m]"
  by (simp add: st_of_range_def st_PushBack_def st_default_def st_Member_def st_Iterator_def it_Value_def
      st_Back_def st_labels_def kSetBad_def kSetEmpty_def)

lemma st_Convert_id:
  assumes "st_ok w"
  shows "st_Convert w = w"
proof -
  have eq: "st_Convert w = fold st_PushBack (st_labels w) st_default"
    by (simp add: st_Convert_def st_push_loop_labels)
  show ?thesis
  proof (cases "w = UnivSet")
    case True
    have "fold st_PushBack (st_labels UnivSet) st_default = UnivSet"
      by (simp add: st_labels_special(1)) (simp add: UnivSet_def st_of_label_def kSetUniv_def)
    then show ?thesis using eq True by simp
  next
    case False
    then have w: "st_finite w" using assms by (simp add: st_ok_def)
    then have "ascending (st_labels w)" by (simp add: st_finite_def)
    then show ?thesis
      using fold_st_PushBack [of st_default "st_labels w"] st_finite_inj [of "st_Convert w" w] w eq by simp
  qed
qed

end
