(* ===== verification/PairWeight.thy ===== *)
theory PairWeight
  imports SetWeight
begin

text \<open>
  The composite weights: pairs (src/openfst/lib/pair-weight.h), product weights with their adder
  (product-weight.h), lexicographic weights (lexicographic-weight.h), tuples (tuple-weight.h),
  power weights (power-weight.h) and the gallic weights that pair a string weight with another
  weight (string-weight.h). The operations of the components are arguments.

  The lemmas lift the laws: a product or power of semirings is a semiring; a lexicographic weight
  over two path weights without zero divisors has the path property; left gallic weights are left
  semirings.
\<close>

section \<open>PairWeight\<close>

record ('a, 'b) pair_weight =
  value1 :: 'a
  value2 :: 'b

definition PairWeight :: "'a \<Rightarrow> 'b \<Rightarrow> ('a, 'b) pair_weight" where
  "PairWeight w1 w2 = \<lparr>value1 = w1, value2 = w2\<rparr>"

definition pw_Zero :: "('a, 'y) weight_ops_scheme \<Rightarrow> ('b, 'z) weight_ops_scheme \<Rightarrow> ('a, 'b) pair_weight" where
  "pw_Zero W1 W2 = PairWeight (Zero W1) (Zero W2)"

definition pw_One :: "('a, 'y) weight_ops_scheme \<Rightarrow> ('b, 'z) weight_ops_scheme \<Rightarrow> ('a, 'b) pair_weight" where
  "pw_One W1 W2 = PairWeight (One W1) (One W2)"

definition pw_NoWeight :: "('a, 'y) weight_ops_scheme \<Rightarrow> ('b, 'z) weight_ops_scheme \<Rightarrow> ('a, 'b) pair_weight" where
  "pw_NoWeight W1 W2 = PairWeight (NoWeight W1) (NoWeight W2)"

definition pw_Member ::
  "('a, 'y) weight_ops_scheme \<Rightarrow> ('b, 'z) weight_ops_scheme \<Rightarrow> ('a, 'b) pair_weight \<Rightarrow> bool" where
  "pw_Member W1 W2 w \<longleftrightarrow> Member W1 (value1 w) \<and> Member W2 (value2 w)"

definition pw_Reverse :: "('a \<Rightarrow> 'c) \<Rightarrow> ('b \<Rightarrow> 'd) \<Rightarrow> ('a, 'b) pair_weight \<Rightarrow> ('c, 'd) pair_weight" where
  "pw_Reverse reverse1 reverse2 w = PairWeight (reverse1 (value1 w)) (reverse2 (value2 w))"

definition pw_eq ::
  "('a, 'y) weight_ops_scheme \<Rightarrow> ('b, 'z) weight_ops_scheme \<Rightarrow>
    ('a, 'b) pair_weight \<Rightarrow> ('a, 'b) pair_weight \<Rightarrow> bool" where
  "pw_eq W1 W2 w1 w2 \<longleftrightarrow> Weq W1 (value1 w1) (value1 w2) \<and> Weq W2 (value2 w1) (value2 w2)"

section \<open>ProductWeight\<close>

definition prod_Plus ::
  "('a, 'y) weight_ops_scheme \<Rightarrow> ('b, 'z) weight_ops_scheme \<Rightarrow>
    ('a, 'b) pair_weight \<Rightarrow> ('a, 'b) pair_weight \<Rightarrow> ('a, 'b) pair_weight" where
  "prod_Plus W1 W2 w1 w2 =
     PairWeight (Plus W1 (value1 w1) (value1 w2)) (Plus W2 (value2 w1) (value2 w2))"

definition prod_Times ::
  "('a, 'y) weight_ops_scheme \<Rightarrow> ('b, 'z) weight_ops_scheme \<Rightarrow>
    ('a, 'b) pair_weight \<Rightarrow> ('a, 'b) pair_weight \<Rightarrow> ('a, 'b) pair_weight" where
  "prod_Times W1 W2 w1 w2 =
     PairWeight (Times W1 (value1 w1) (value1 w2)) (Times W2 (value2 w1) (value2 w2))"

definition prod_Divide ::
  "('a \<Rightarrow> 'a \<Rightarrow> DivideType \<Rightarrow> 'a) \<Rightarrow> ('b \<Rightarrow> 'b \<Rightarrow> DivideType \<Rightarrow> 'b) \<Rightarrow>
    ('a, 'b) pair_weight \<Rightarrow> ('a, 'b) pair_weight \<Rightarrow> DivideType \<Rightarrow> ('a, 'b) pair_weight" where
  "prod_Divide divide1 divide2 w1 w2 typ =
     PairWeight (divide1 (value1 w1) (value1 w2) typ) (divide2 (value2 w1) (value2 w2) typ)"

definition ProductWeight ::
  "('a, 'y) weight_ops_scheme \<Rightarrow> ('b, 'z) weight_ops_scheme \<Rightarrow> ('a, 'b) pair_weight weight_ops" where
  "ProductWeight W1 W2 =
     \<lparr>Zero = pw_Zero W1 W2, One = pw_One W1 W2, NoWeight = pw_NoWeight W1 W2,
      Plus = prod_Plus W1 W2, Times = prod_Times W1 W2, Weq = pw_eq W1 W2, Member = pw_Member W1 W2\<rparr>"

text \<open>The specialised \<open>Adder\<close>: one adder per component.\<close>

record ('a, 'b) prod_adder =
  adder1 :: "'a adder"
  adder2 :: "'b adder"

definition prod_Adder_init ::
  "('a, 'y) weight_ops_scheme \<Rightarrow> ('b, 'z) weight_ops_scheme \<Rightarrow> ('a, 'b) prod_adder" where
  "prod_Adder_init W1 W2 = \<lparr>adder1 = Adder_init W1, adder2 = Adder_init W2\<rparr>"

definition prod_Adder_Sum :: "('a, 'b) prod_adder \<Rightarrow> ('a, 'b) pair_weight" where
  "prod_Adder_Sum ad = PairWeight (Adder_Sum (adder1 ad)) (Adder_Sum (adder2 ad))"

definition prod_Adder_Add ::
  "('a, 'y) weight_ops_scheme \<Rightarrow> ('b, 'z) weight_ops_scheme \<Rightarrow>
    ('a, 'b) prod_adder \<Rightarrow> ('a, 'b) pair_weight \<Rightarrow> ('a, 'b) prod_adder \<times> ('a, 'b) pair_weight" where
  "prod_Adder_Add W1 W2 ad w =
     (let ad = ad\<lparr>adder1 := fst (Adder_Add W1 (adder1 ad) (value1 w))\<rparr>;
          ad = ad\<lparr>adder2 := fst (Adder_Add W2 (adder2 ad) (value2 w))\<rparr>
      in (ad, prod_Adder_Sum ad))"

definition prod_Adder_Reset :: "('a, 'b) prod_adder \<Rightarrow> ('a, 'b) pair_weight \<Rightarrow> ('a, 'b) prod_adder" where
  "prod_Adder_Reset ad w =
     ad\<lparr>adder1 := Adder_Reset (adder1 ad) (value1 w), adder2 := Adder_Reset (adder2 ad) (value2 w)\<rparr>"

section \<open>LexicographicWeight\<close>

definition lex_Member ::
  "('a, 'y) weight_ops_scheme \<Rightarrow> ('b, 'z) weight_ops_scheme \<Rightarrow> ('a, 'b) pair_weight \<Rightarrow> bool" where
  "lex_Member W1 W2 w =
     (if \<not> Member W1 (value1 w) \<or> \<not> Member W2 (value2 w) then False
      else if Weq W1 (value1 w) (Zero W1) \<and> Weq W2 (value2 w) (Zero W2) then True
      else if \<not> Weq W1 (value1 w) (Zero W1) \<and> \<not> Weq W2 (value2 w) (Zero W2) then True
      else False)"

definition lex_Plus ::
  "('a, 'y) weight_ops_scheme \<Rightarrow> ('b, 'z) weight_ops_scheme \<Rightarrow>
    ('a, 'b) pair_weight \<Rightarrow> ('a, 'b) pair_weight \<Rightarrow> ('a, 'b) pair_weight" where
  "lex_Plus W1 W2 w v =
     (if \<not> lex_Member W1 W2 w \<or> \<not> lex_Member W1 W2 v then pw_NoWeight W1 W2
      else if NaturalLess W1 (value1 w) (value1 v) then w
      else if NaturalLess W1 (value1 v) (value1 w) then v
      else if NaturalLess W2 (value2 w) (value2 v) then w
      else if NaturalLess W2 (value2 v) (value2 w) then v
      else w)"

definition lex_Times ::
  "('a, 'y) weight_ops_scheme \<Rightarrow> ('b, 'z) weight_ops_scheme \<Rightarrow>
    ('a, 'b) pair_weight \<Rightarrow> ('a, 'b) pair_weight \<Rightarrow> ('a, 'b) pair_weight" where
  "lex_Times W1 W2 w v =
     PairWeight (Times W1 (value1 w) (value1 v)) (Times W2 (value2 w) (value2 v))"

definition lex_Divide ::
  "('a \<Rightarrow> 'a \<Rightarrow> DivideType \<Rightarrow> 'a) \<Rightarrow> ('b \<Rightarrow> 'b \<Rightarrow> DivideType \<Rightarrow> 'b) \<Rightarrow>
    ('a, 'b) pair_weight \<Rightarrow> ('a, 'b) pair_weight \<Rightarrow> DivideType \<Rightarrow> ('a, 'b) pair_weight" where
  "lex_Divide divide1 divide2 w v typ =
     PairWeight (divide1 (value1 w) (value1 v) typ) (divide2 (value2 w) (value2 v) typ)"

definition LexicographicWeight ::
  "('a, 'y) weight_ops_scheme \<Rightarrow> ('b, 'z) weight_ops_scheme \<Rightarrow> ('a, 'b) pair_weight weight_ops" where
  "LexicographicWeight W1 W2 =
     \<lparr>Zero = pw_Zero W1 W2, One = pw_One W1 W2, NoWeight = pw_NoWeight W1 W2,
      Plus = lex_Plus W1 W2, Times = lex_Times W1 W2, Weq = pw_eq W1 W2, Member = lex_Member W1 W2\<rparr>"

section \<open>GallicWeight\<close>

datatype GallicType = GALLIC_LEFT | GALLIC_RIGHT | GALLIC_RESTRICT | GALLIC_MIN | GALLIC

definition GallicStringType :: "GallicType \<Rightarrow> StringType" where
  "GallicStringType g =
     (if g = GALLIC_LEFT then STRING_LEFT else if g = GALLIC_RIGHT then STRING_RIGHT else STRING_RESTRICT)"

definition ReverseGallicType :: "GallicType \<Rightarrow> GallicType" where
  "ReverseGallicType g =
     (if g = GALLIC_LEFT then GALLIC_RIGHT
      else if g = GALLIC_RIGHT then GALLIC_LEFT
      else if g = GALLIC_RESTRICT then GALLIC_RESTRICT
      else if g = GALLIC_MIN then GALLIC_MIN else GALLIC)"

text \<open>The classes for all types but \<open>GALLIC\<close>, which is a union weight.\<close>

definition gallic_Plus ::
  "GallicType \<Rightarrow> ('b, 'z) weight_ops_scheme \<Rightarrow>
    (string_weight, 'b) pair_weight \<Rightarrow> (string_weight, 'b) pair_weight \<Rightarrow> (string_weight, 'b) pair_weight" where
  "gallic_Plus G W w v =
     PairWeight (Plus (StringWeight (GallicStringType G)) (value1 w) (value1 v)) (Plus W (value2 w) (value2 v))"

definition gallic_PlusMin ::
  "('b, 'z) weight_ops_scheme \<Rightarrow>
    (string_weight, 'b) pair_weight \<Rightarrow> (string_weight, 'b) pair_weight \<Rightarrow> (string_weight, 'b) pair_weight" where
  "gallic_PlusMin W w1 w2 = (if NaturalLess W (value2 w1) (value2 w2) then w1 else w2)"

definition gallic_Times ::
  "GallicType \<Rightarrow> ('b, 'z) weight_ops_scheme \<Rightarrow>
    (string_weight, 'b) pair_weight \<Rightarrow> (string_weight, 'b) pair_weight \<Rightarrow> (string_weight, 'b) pair_weight" where
  "gallic_Times G W w v =
     PairWeight (Times (StringWeight (GallicStringType G)) (value1 w) (value1 v)) (Times W (value2 w) (value2 v))"

definition gallic_Divide ::
  "GallicType \<Rightarrow> ('b \<Rightarrow> 'b \<Rightarrow> DivideType \<Rightarrow> 'b) \<Rightarrow> (string_weight, 'b) pair_weight \<Rightarrow>
    (string_weight, 'b) pair_weight \<Rightarrow> DivideType \<Rightarrow> (string_weight, 'b) pair_weight" where
  "gallic_Divide G divideW w v divide_type =
     PairWeight (sw_Divide (GallicStringType G) (value1 w) (value1 v) divide_type)
       (divideW (value2 w) (value2 v) divide_type)"

definition GallicWeight ::
  "GallicType \<Rightarrow> ('b, 'z) weight_ops_scheme \<Rightarrow> (string_weight, 'b) pair_weight weight_ops" where
  "GallicWeight G W =
     (let SW = StringWeight (GallicStringType G) in
      \<lparr>Zero = pw_Zero SW W, One = pw_One SW W, NoWeight = pw_NoWeight SW W,
       Plus = (if G = GALLIC_MIN then gallic_PlusMin W else gallic_Plus G W), Times = gallic_Times G W,
       Weq = pw_eq SW W, Member = pw_Member SW W\<rparr>)"

section \<open>TupleWeight and PowerWeight\<close>

text \<open>A tuple is the list of the \<open>n\<close> values of the array; indices are below \<open>n\<close>.\<close>

definition TupleWeight :: "nat \<Rightarrow> 'w \<Rightarrow> 'w list" where
  "TupleWeight n wt = replicate n wt"

definition TupleWeightAt :: "nat \<Rightarrow> nat \<Rightarrow> 'w \<Rightarrow> 'w \<Rightarrow> 'w list" where
  "TupleWeightAt n index wt default_weight = (TupleWeight n default_weight)[index := wt]"

definition tw_Member :: "('w, 'z) weight_ops_scheme \<Rightarrow> 'w list \<Rightarrow> bool" where
  "tw_Member W w = list_all (Member W) w"

definition tw_Reverse :: "('w, 'z) weight_ops_scheme \<Rightarrow> nat \<Rightarrow> ('w \<Rightarrow> 'w) \<Rightarrow> 'w list \<Rightarrow> 'w list" where
  "tw_Reverse W n reverse w = fold (\<lambda>i v. v[i := reverse (w ! i)]) [0 ..< n] (TupleWeight n (Zero W))"

fun tw_eq_loop :: "('w, 'z) weight_ops_scheme \<Rightarrow> nat list \<Rightarrow> 'w list \<Rightarrow> 'w list \<Rightarrow> bool" where
  "tw_eq_loop W [] w1 w2 = True"
| "tw_eq_loop W (i # is) w1 w2 = (if \<not> Weq W (w1 ! i) (w2 ! i) then False else tw_eq_loop W is w1 w2)"

definition tw_eq :: "('w, 'z) weight_ops_scheme \<Rightarrow> nat \<Rightarrow> 'w list \<Rightarrow> 'w list \<Rightarrow> bool" where
  "tw_eq W n w1 w2 = tw_eq_loop W [0 ..< n] w1 w2"

text \<open>The loop that fills a result tuple, common to the operations of power weights.\<close>

definition tw_fill :: "('w, 'z) weight_ops_scheme \<Rightarrow> nat \<Rightarrow> (nat \<Rightarrow> 'w) \<Rightarrow> 'w list" where
  "tw_fill W n f = fold (\<lambda>i result. result[i := f i]) [0 ..< n] (TupleWeight n (Zero W))"

definition pow_Plus :: "('w, 'z) weight_ops_scheme \<Rightarrow> nat \<Rightarrow> 'w list \<Rightarrow> 'w list \<Rightarrow> 'w list" where
  "pow_Plus W n w1 w2 = tw_fill W n (\<lambda>i. Plus W (w1 ! i) (w2 ! i))"

definition pow_Times :: "('w, 'z) weight_ops_scheme \<Rightarrow> nat \<Rightarrow> 'w list \<Rightarrow> 'w list \<Rightarrow> 'w list" where
  "pow_Times W n w1 w2 = tw_fill W n (\<lambda>i. Times W (w1 ! i) (w2 ! i))"

definition pow_Divide ::
  "('w, 'z) weight_ops_scheme \<Rightarrow> ('w \<Rightarrow> 'w \<Rightarrow> DivideType \<Rightarrow> 'w) \<Rightarrow> nat \<Rightarrow> 'w list \<Rightarrow> 'w list \<Rightarrow> DivideType \<Rightarrow> 'w list" where
  "pow_Divide W divideW n w1 w2 type = tw_fill W n (\<lambda>i. divideW (w1 ! i) (w2 ! i) type)"

definition pow_scalar_left :: "('w, 'z) weight_ops_scheme \<Rightarrow> nat \<Rightarrow> 'w \<Rightarrow> 'w list \<Rightarrow> 'w list" where
  "pow_scalar_left W n scalar wt = tw_fill W n (\<lambda>i. Times W scalar (wt ! i))"

definition pow_scalar_right :: "('w, 'z) weight_ops_scheme \<Rightarrow> nat \<Rightarrow> 'w list \<Rightarrow> 'w \<Rightarrow> 'w list" where
  "pow_scalar_right W n wt scalar = tw_fill W n (\<lambda>i. Times W (wt ! i) scalar)"

definition DotProduct :: "('w, 'z) weight_ops_scheme \<Rightarrow> nat \<Rightarrow> 'w list \<Rightarrow> 'w list \<Rightarrow> 'w" where
  "DotProduct W n w1 w2 =
     fold (\<lambda>i result. Plus W result (Times W (w1 ! i) (w2 ! i))) [0 ..< n] (Zero W)"

definition PowerWeight :: "('w, 'z) weight_ops_scheme \<Rightarrow> nat \<Rightarrow> 'w list weight_ops" where
  "PowerWeight W n =
     \<lparr>Zero = TupleWeight n (Zero W), One = TupleWeight n (One W), NoWeight = TupleWeight n (NoWeight W),
      Plus = pow_Plus W n, Times = pow_Times W n, Weq = tw_eq W n, Member = tw_Member W\<rparr>"

section \<open>Products of weights\<close>

lemma PairWeight_sel [simp]: "value1 (PairWeight a b) = a" "value2 (PairWeight a b) = b"
  by (simp_all add: PairWeight_def)

lemma pair_eq_iff: "v = w \<longleftrightarrow> value1 v = value1 w \<and> value2 v = value2 w" for v w :: "('a, 'b) pair_weight"
  by auto

lemmas prod_defs = ProductWeight_def pw_Zero_def pw_One_def pw_NoWeight_def prod_Plus_def prod_Times_def
  pw_eq_def pw_Member_def

abbreviation both :: "('a \<Rightarrow> bool) \<Rightarrow> ('b \<Rightarrow> bool) \<Rightarrow> ('a, 'b) pair_weight \<Rightarrow> bool" where
  "both M1 M2 w \<equiv> M1 (value1 w) \<and> M2 (value2 w)"

locale weight_pair = w1: weight_monoid W1 M1 + w2: weight_monoid W2 M2
  for W1 :: "('a, 'y) weight_ops_scheme" and M1 :: "'a \<Rightarrow> bool"
    and W2 :: "('b, 'z) weight_ops_scheme" and M2 :: "'b \<Rightarrow> bool"

sublocale weight_pair \<subseteq> prod: weight_monoid "ProductWeight W1 W2" "both M1 M2"
  by unfold_locales
    (auto simp: prod_defs pair_eq_iff w1.M_Member w2.M_Member w1.M_One w2.M_One w1.M_Times w2.M_Times
      w1.Times_assoc w2.Times_assoc w1.One_Times w2.One_Times w1.Times_One w2.Times_One w1.Weq_eq w2.Weq_eq
      w1.M_Zero w2.M_Zero w1.Zero_neq_One)

locale weight_plus_pair = w1: weight_plus W1 M1 + w2: weight_plus W2 M2
  for W1 :: "('a, 'y) weight_ops_scheme" and M1 :: "'a \<Rightarrow> bool"
    and W2 :: "('b, 'z) weight_ops_scheme" and M2 :: "'b \<Rightarrow> bool"

sublocale weight_plus_pair \<subseteq> weight_pair W1 M1 W2 M2 ..

sublocale weight_plus_pair \<subseteq> prod: weight_plus "ProductWeight W1 W2" "both M1 M2"
  by unfold_locales
    (auto simp: prod_defs pair_eq_iff w1.M_Plus w2.M_Plus w1.Plus_assoc w2.Plus_assoc
      w1.Zero_Plus w2.Zero_Plus w1.Zero_Times w2.Zero_Times w1.Times_Zero w2.Times_Zero intro: w1.Plus_comm w2.Plus_comm)

locale left_semiring_pair = w1: left_semiring W1 M1 + w2: left_semiring W2 M2
  for W1 :: "('a, 'y) weight_ops_scheme" and M1 :: "'a \<Rightarrow> bool"
    and W2 :: "('b, 'z) weight_ops_scheme" and M2 :: "'b \<Rightarrow> bool"

sublocale left_semiring_pair \<subseteq> weight_plus_pair W1 M1 W2 M2 ..

sublocale left_semiring_pair \<subseteq> prod: left_semiring "ProductWeight W1 W2" "both M1 M2"
  by unfold_locales (auto simp: prod_defs pair_eq_iff w1.Times_Plus_left w2.Times_Plus_left)

context left_semiring_pair
begin

lemma left_semiring_product: "left_semiring (ProductWeight W1 W2) (both M1 M2)"
  by (rule prod.left_semiring_axioms)

end

locale semiring_pair = w1: weight_semiring W1 M1 + w2: weight_semiring W2 M2
  for W1 :: "('a, 'y) weight_ops_scheme" and M1 :: "'a \<Rightarrow> bool"
    and W2 :: "('b, 'z) weight_ops_scheme" and M2 :: "'b \<Rightarrow> bool"

sublocale semiring_pair \<subseteq> left_semiring_pair W1 M1 W2 M2 ..

sublocale semiring_pair \<subseteq> prod: weight_semiring "ProductWeight W1 W2" "both M1 M2"
  by unfold_locales (auto simp: prod_defs pair_eq_iff w1.Times_Plus_right w2.Times_Plus_right)

context semiring_pair
begin

lemma product: "weight_semiring (ProductWeight W1 W2) (both M1 M2)"
  by (rule prod.weight_semiring_axioms)

end

text \<open>The adder of a product weight keeps the sums of the two components.\<close>

lemma prod_Adder_Add_sum:
  "prod_Adder_Sum (fst (prod_Adder_Add W1 W2 ad w)) = Plus (ProductWeight W1 W2) (prod_Adder_Sum ad) w"
  by (simp add: prod_Adder_Add_def prod_Adder_Sum_def Adder_Add_def Adder_Sum_def Let_def prod_defs)

text \<open>A gallic weight is the product of a string weight and another weight, but for its \<open>Plus\<close> when it is \<open>GALLIC_MIN\<close>.\<close>

lemma GallicWeight_product:
  "G \<noteq> GALLIC_MIN \<Longrightarrow> GallicWeight G W = ProductWeight (StringWeight (GallicStringType G)) W"
  by (simp add: GallicWeight_def ProductWeight_def Let_def gallic_Plus_def gallic_Times_def prod_Plus_def
      prod_Times_def fun_eq_iff)

lemma GallicWeight_left_semiring:
  assumes "left_semiring W M"
  shows "left_semiring (GallicWeight GALLIC_LEFT W) (both sw_ok M)"
proof -
  have "left_semiring_pair (StringWeight STRING_LEFT) sw_ok W M"
    using assms sw_left.left_semiring_axioms by (simp add: left_semiring_pair_def)
  then show ?thesis
    using left_semiring_pair.left_semiring_product by (fastforce simp add: GallicWeight_product GallicStringType_def)
qed

section \<open>Lexicographic weights\<close>

definition lex_ok ::
  "('a, 'y) weight_ops_scheme \<Rightarrow> ('a \<Rightarrow> bool) \<Rightarrow> ('b, 'z) weight_ops_scheme \<Rightarrow> ('b \<Rightarrow> bool) \<Rightarrow>
    ('a, 'b) pair_weight \<Rightarrow> bool" where
  "lex_ok W1 M1 W2 M2 w \<longleftrightarrow> both M1 M2 w \<and> (value1 w = Zero W1 \<longleftrightarrow> value2 w = Zero W2)"

definition lex_less ::
  "('a, 'y) weight_ops_scheme \<Rightarrow> ('b, 'z) weight_ops_scheme \<Rightarrow>
    ('a, 'b) pair_weight \<Rightarrow> ('a, 'b) pair_weight \<Rightarrow> bool" where
  "lex_less W1 W2 v w \<longleftrightarrow> NaturalLess W1 (value1 v) (value1 w) \<or>
     value1 v = value1 w \<and> NaturalLess W2 (value2 v) (value2 w)"

lemmas lex_defs = LexicographicWeight_def pw_Zero_def pw_One_def pw_NoWeight_def lex_Times_def pw_eq_def

locale lex_pair = w1: path_property_weight W1 M1 + w2: path_property_weight W2 M2
  for W1 :: "('a, 'y) weight_ops_scheme" and M1 :: "'a \<Rightarrow> bool"
    and W2 :: "('b, 'z) weight_ops_scheme" and M2 :: "'b \<Rightarrow> bool" +
  assumes no_divisors1: "M1 a \<Longrightarrow> M1 b \<Longrightarrow> Times W1 a b = Zero W1 \<Longrightarrow> a = Zero W1 \<or> b = Zero W1"
    and no_divisors2: "M2 c \<Longrightarrow> M2 d \<Longrightarrow> Times W2 c d = Zero W2 \<Longrightarrow> c = Zero W2 \<or> d = Zero W2"
begin

abbreviation ok :: "('a, 'b) pair_weight \<Rightarrow> bool" where
  "ok \<equiv> lex_ok W1 M1 W2 M2"

lemma lex_ok_Member: "ok w \<Longrightarrow> lex_Member W1 W2 w"
  by (auto simp: lex_ok_def lex_Member_def w1.M_Member w2.M_Member w1.Weq_eq w2.Weq_eq w1.M_Zero w2.M_Zero)

lemma lex_less_irrefl: "ok v \<Longrightarrow> \<not> lex_less W1 W2 v v"
  by (auto simp: lex_ok_def lex_less_def w1.NaturalLess_irrefl w2.NaturalLess_irrefl)

lemma lex_less_trans: "ok u \<Longrightarrow> ok v \<Longrightarrow> ok w \<Longrightarrow> lex_less W1 W2 u v \<Longrightarrow> lex_less W1 W2 v w \<Longrightarrow> lex_less W1 W2 u w"
  by (auto simp: lex_ok_def lex_less_def intro: w1.NaturalLess_trans w2.NaturalLess_trans)

lemma lex_less_total: "ok v \<Longrightarrow> ok w \<Longrightarrow> v \<noteq> w \<Longrightarrow> lex_less W1 W2 v w \<or> lex_less W1 W2 w v"
  using w1.NaturalLess_total [of "value1 v" "value1 w"] w2.NaturalLess_total [of "value2 v" "value2 w"]
  by (cases "value1 v = value1 w") (auto simp: lex_ok_def lex_less_def pair_eq_iff)

lemma lex_Plus_min:
  assumes v: "ok v" and w: "ok w"
  shows "lex_Plus W1 W2 v w = (if lex_less W1 W2 w v then w else v)"
proof -
  note [simp] = v [unfolded lex_ok_def] w [unfolded lex_ok_def]
  have 1: "value1 w = value1 v \<or> NaturalLess W1 (value1 v) (value1 w) \<or> NaturalLess W1 (value1 w) (value1 v)"
    using w1.NaturalLess_total [of "value1 v" "value1 w"] by auto
  have 2: "\<not> (NaturalLess W1 (value1 v) (value1 w) \<and> NaturalLess W1 (value1 w) (value1 v))"
    "\<not> (NaturalLess W2 (value2 v) (value2 w) \<and> NaturalLess W2 (value2 w) (value2 v))"
    using w1.NaturalLess_trans [of "value1 v" "value1 w" "value1 v"] w1.NaturalLess_irrefl [of "value1 v"]
      w2.NaturalLess_trans [of "value2 v" "value2 w" "value2 v"] w2.NaturalLess_irrefl [of "value2 v"] by auto
  have 3: "\<not> NaturalLess W1 (value1 v) (value1 v)" by (simp add: w1.NaturalLess_irrefl)
  show ?thesis
    unfolding lex_Plus_def lex_less_def using lex_ok_Member [OF v] lex_ok_Member [OF w] 1 2 3 by auto
qed

lemma lex_less_Zero: "ok v \<Longrightarrow> v \<noteq> pw_Zero W1 W2 \<Longrightarrow> lex_less W1 W2 v (pw_Zero W1 W2)"
  by (auto simp: lex_ok_def lex_less_def pw_Zero_def pair_eq_iff w1.NaturalLess_iff w2.NaturalLess_iff w1.M_Zero
      w2.M_Zero w1.Plus_Zero w2.Plus_Zero)

lemma lex_ok_special: "ok (pw_Zero W1 W2)" "ok (pw_One W1 W2)"
  using w1.Zero_neq_One w2.Zero_neq_One
  by (auto simp: lex_ok_def pw_Zero_def pw_One_def w1.M_Zero w2.M_Zero w1.M_One w2.M_One)

lemma lex_ok_Times: "ok v \<Longrightarrow> ok w \<Longrightarrow> ok (lex_Times W1 W2 v w)"
  by (auto simp: lex_ok_def lex_Times_def w1.M_Times w2.M_Times w1.Zero_Times w2.Zero_Times w1.Times_Zero
      w2.Times_Zero dest: no_divisors1 no_divisors2)

end

lemma min_laws:
  assumes irrefl: "\<And>a. M a \<Longrightarrow> \<not> lt a a"
    and trans: "\<And>a b c. M a \<Longrightarrow> M b \<Longrightarrow> M c \<Longrightarrow> lt a b \<Longrightarrow> lt b c \<Longrightarrow> lt a c"
    and total: "\<And>a b. M a \<Longrightarrow> M b \<Longrightarrow> a \<noteq> b \<Longrightarrow> lt a b \<or> lt b a"
    and m: "\<And>a b. M a \<Longrightarrow> M b \<Longrightarrow> m a b = (if lt b a then b else a)"
    and M: "M a" "M b" "M c"
  shows "m (m a b) c = m a (m b c)" "m a b = m b a"
proof -
  show "m a b = m b a" using irrefl trans total M m by metis
  have "m (m a b) c = (if lt b a then if lt c b then c else b else if lt c a then c else a)"
    "m a (m b c) = (if lt c b then if lt c a then c else a else if lt b a then b else a)"
    using M by (simp_all add: m)
  then show "m (m a b) c = m a (m b c)"
    using trans [OF M(3,2,1)] trans [OF M(1,2,3)] trans [OF M(2,3,1)] trans [OF M(1,3,2)] total [OF M(1,2)] total [OF M(2,3)] by auto
qed

sublocale lex_pair \<subseteq> lex: path_property_weight "LexicographicWeight W1 W2" "lex_ok W1 M1 W2 M2"
proof
  fix a b c
  assume [simp]: "ok a" "ok b" "ok c"
  let ?W = "LexicographicWeight W1 W2"
  have sel [simp]: "Zero ?W = pw_Zero W1 W2" "One ?W = pw_One W1 W2" "Plus ?W = lex_Plus W1 W2" "Times ?W = lex_Times W1 W2"
    "Member ?W = lex_Member W1 W2"
    by (simp_all add: LexicographicWeight_def)
  note M = \<open>ok a\<close> \<open>ok b\<close> \<open>ok c\<close>
  note ok1 = M [unfolded lex_ok_def]
  show "Member ?W a" by (simp add: lex_ok_Member)
  show "ok (Times ?W a b)" by (simp add: lex_ok_Times)
  show "Times ?W (Times ?W a b) c = Times ?W a (Times ?W b c)"
    using ok1 by (simp add: lex_Times_def w1.Times_assoc w2.Times_assoc)
  show "Times ?W (One ?W) a = a" "Times ?W a (One ?W) = a"
    using ok1 by (simp_all add: lex_Times_def pw_One_def pair_eq_iff w1.One_Times w2.One_Times w1.Times_One w2.Times_One)
  show "Weq ?W a b \<longleftrightarrow> a = b"
    using ok1 by (simp add: LexicographicWeight_def pw_eq_def pair_eq_iff w1.Weq_eq w2.Weq_eq)
  show "ok (Plus ?W a b)" by (simp add: lex_Plus_min)
  show "Plus ?W (Plus ?W a b) c = Plus ?W a (Plus ?W b c)" "Plus ?W a b = Plus ?W b a"
    using min_laws [of ok "lex_less W1 W2" "lex_Plus W1 W2" a b c, OF lex_less_irrefl lex_less_trans lex_less_total lex_Plus_min M]
    by simp_all
  show "Plus ?W (Zero ?W) a = a"
    using lex_less_Zero [of a] by (auto simp: lex_Plus_min lex_ok_special)
  show "Times ?W (Zero ?W) a = Zero ?W" "Times ?W a (Zero ?W) = Zero ?W"
    using ok1 by (simp_all add: lex_Times_def pw_Zero_def w1.Zero_Times w2.Zero_Times w1.Times_Zero w2.Times_Zero)
  show "Plus ?W a a = a" by (simp add: lex_Plus_min)
  show "Plus ?W a b = a \<or> Plus ?W a b = b" by (simp add: lex_Plus_min)
qed (use lex_ok_special w1.Zero_neq_One in \<open>auto simp: LexicographicWeight_def pw_Zero_def pw_One_def pair_eq_iff\<close>)

context lex_pair
begin

lemma lexicographic: "path_property_weight (LexicographicWeight W1 W2) (lex_ok W1 M1 W2 M2)"
  by (rule lex.path_property_weight_axioms)

end

interpretation lex_bool: lex_pair "SetWeight SET_BOOLEAN" st_bool "SetWeight SET_BOOLEAN" st_bool
  by unfold_locales (auto simp: st_bool_ops st_Zero_def split: if_splits)

section \<open>Power weights\<close>

lemma fold_update_prefix:
  "k \<le> length xs \<Longrightarrow> fold (\<lambda>i r. r[i := f i]) [0 ..< k] xs = map f [0 ..< k] @ drop k xs"
proof (induction k)
  case (Suc k)
  then have "drop k xs = xs ! k # drop (Suc k) xs" by (simp add: Cons_nth_drop_Suc)
  then show ?case using Suc by (simp add: list_update_append)
qed simp

lemma tw_fill_map: "tw_fill W n f = map f [0 ..< n]"
  by (simp add: tw_fill_def TupleWeight_def fold_update_prefix)

lemma tw_eq_iff: "length v = n \<Longrightarrow> length w = n \<Longrightarrow> tw_eq W n v w \<longleftrightarrow> list_all2 (Weq W) v w"
proof -
  have "tw_eq_loop W is v w \<longleftrightarrow> (\<forall>i \<in> set is. Weq W (v ! i) (w ! i))" for "is"
    by (induction "is") auto
  then show "length v = n \<Longrightarrow> length w = n \<Longrightarrow> ?thesis" by (auto simp: tw_eq_def list_all2_conv_all_nth)
qed

locale weight_power = weight_semiring W M
  for W :: "('w, 'z) weight_ops_scheme" and M :: "'w \<Rightarrow> bool" +
  fixes n :: nat
  assumes n_pos: "0 < n"
begin

abbreviation pow_ok :: "'w list \<Rightarrow> bool" where
  "pow_ok w \<equiv> length w = n \<and> (\<forall>i < n. M (w ! i))"

lemma pow_sel [simp]:
  "Zero (PowerWeight W n) = TupleWeight n (Zero W)" "One (PowerWeight W n) = TupleWeight n (One W)"
  "Plus (PowerWeight W n) = pow_Plus W n" "Times (PowerWeight W n) = pow_Times W n"
  "Weq (PowerWeight W n) = tw_eq W n" "Member (PowerWeight W n) = tw_Member W"
  by (simp_all add: PowerWeight_def)

text \<open>The two scalar products and the dot product.\<close>

lemma pow_scalar_Plus:
  "pow_ok v \<Longrightarrow> pow_ok w \<Longrightarrow> M a \<Longrightarrow>
    pow_scalar_left W n a (pow_Plus W n v w) = pow_Plus W n (pow_scalar_left W n a v) (pow_scalar_left W n a w)"
  "pow_ok v \<Longrightarrow> pow_ok w \<Longrightarrow> M a \<Longrightarrow>
    pow_scalar_right W n (pow_Plus W n v w) a = pow_Plus W n (pow_scalar_right W n v a) (pow_scalar_right W n w a)"
  by (simp_all add: pow_scalar_left_def pow_scalar_right_def pow_Plus_def tw_fill_map Times_Plus_left Times_Plus_right)

lemma DotProduct_sum:
  assumes "pow_ok v" "pow_ok w"
  shows "DotProduct W n v w = sum_list_W (map (\<lambda>i. Times W (v ! i) (w ! i)) [0 ..< n])"
proof -
  have "M r \<Longrightarrow> (\<forall>i \<in> set is. M (f i)) \<Longrightarrow>
      fold (\<lambda>i r. Plus W r (f i)) is r = Plus W r (sum_list_W (map f is))" for f "is" r
  proof (induction "is" arbitrary: r)
    case Nil
    then show ?case by (simp add: sum_list_W_def Plus_Zero)
  next
    case (Cons i "is")
    then have "M (sum_list_W (map f is))" by (intro M_sum_list_W) auto
    then show ?case using Cons by (simp add: M_Plus Plus_assoc) (simp add: sum_list_W_def)
  qed
  from this [OF M_Zero, of "[0 ..< n]" "\<lambda>i. Times W (v ! i) (w ! i)"] show ?thesis
    using assms M_sum_list_W [of "map (\<lambda>i. Times W (v ! i) (w ! i)) [0 ..< n]"]
    by (force simp: DotProduct_def M_Times intro!: Zero_Plus)
qed

end

sublocale weight_power \<subseteq> pow: weight_semiring "PowerWeight W n" pow_ok
proof
  fix a b c
  assume M [simp]: "pow_ok a" "pow_ok b" "pow_ok c"
  let ?W = "PowerWeight W n"
  note [simp] = pow_Plus_def pow_Times_def tw_fill_map TupleWeight_def M_Times M_Plus
  note ext = nth_equalityI
  show "Member ?W a" using M by (auto simp: tw_Member_def list_all_length M_Member)
  show "pow_ok (Times ?W a b)" "pow_ok (Plus ?W a b)" by simp_all
  show "Times ?W (Times ?W a b) c = Times ?W a (Times ?W b c)" by (rule ext) (simp_all add: Times_assoc)
  show "Times ?W (One ?W) a = a" "Times ?W a (One ?W) = a" by (rule ext; simp add: One_Times Times_One)+
  show "Weq ?W a b \<longleftrightarrow> a = b"
    using M by (auto simp: tw_eq_iff list_all2_conv_all_nth Weq_eq intro: nth_equalityI)
  show "Plus ?W (Plus ?W a b) c = Plus ?W a (Plus ?W b c)" by (rule ext) (simp_all add: Plus_assoc)
  show "Plus ?W a b = Plus ?W b a" by (rule ext) (simp_all add: Plus_comm)
  show "Plus ?W (Zero ?W) a = a" by (rule ext) (simp_all add: Zero_Plus)
  show "Times ?W (Zero ?W) a = Zero ?W" "Times ?W a (Zero ?W) = Zero ?W" by (rule ext; simp add: Zero_Times Times_Zero)+
  show "Times ?W c (Plus ?W a b) = Plus ?W (Times ?W c a) (Times ?W c b)" by (rule ext) (simp_all add: Times_Plus_left)
  show "Times ?W (Plus ?W a b) c = Plus ?W (Times ?W a c) (Times ?W b c)" by (rule ext) (simp_all add: Times_Plus_right)
qed (use n_pos Zero_neq_One in \<open>auto simp: TupleWeight_def M_One M_Zero\<close>)

context weight_power
begin

lemma power: "weight_semiring (PowerWeight W n) (\<lambda>w. length w = n \<and> (\<forall>i < n. M (w ! i)))"
  by (rule pow.weight_semiring_axioms)

end

interpretation pow_set: weight_power "SetWeight SET_INTERSECT_UNION" st_ok 2
  by unfold_locales simp

interpretation gallic_set: left_semiring_pair "StringWeight STRING_LEFT" sw_ok "SetWeight SET_INTERSECT_UNION" st_ok
  by unfold_locales

interpretation prod_set: semiring_pair "SetWeight SET_INTERSECT_UNION" st_ok "SetWeight SET_UNION_INTERSECT" st_ok
  by unfold_locales

end
