(* ===== verification/Samples.thy ===== *)
theory Samples
  imports ClosureSound PairWeight SetWeight
begin

text \<open>
  Small concrete machines over the left string weight, built with the mutating operations, on
  which the properties of the development are instantiated.
\<close>

abbreviation SW :: "string_weight weight_ops" where
  "SW \<equiv> StringWeight STRING_LEFT"

text \<open>The machine with two states and one arc, which maps the label \<open>l\<close> to itself with the weight \<open>l\<close>.\<close>

definition sample :: "int \<Rightarrow> string_weight vfst" where
  "sample l =
     SetFinal SW 1 sw_One
       (AddArc SW 0 (Arc l l (sw_of_label l) 1) (SetStart (Some 0) (AddStates SW 2 VectorFstImpl)))"

lemmas sample_defs = sample_def SetFinal_def AddArc_def UpdatePropertiesAfterAddArc_def SetStart_def AddStates_def
  BaseSetFinal_def BaseAddArc_def BaseSetStart_def BaseAddStates_def SetProperties_def VectorFstImpl_def Let_def
  NumStates_def Final_def Arcs_def StateAddArc_def IncrementNumEpsilons_def VectorState_def

lemma sample_states:
  "states (sample l) =
    [\<lparr>final_weight = sw_Zero, niepsilons = (if l = 0 then 1 else 0), noepsilons = (if l = 0 then 1 else 0),
      arcs = [Arc l l (sw_of_label l) 1]\<rparr>,
     \<lparr>final_weight = sw_One, niepsilons = 0, noepsilons = 0, arcs = []\<rparr>]"
  "start (sample l) = Some 0" "isymbols (sample l) = None" "osymbols (sample l) = None"
  by (simp_all add: sample_defs numeral_2_eq_2)

lemma sample_mutations: "(mutation SW)\<^sup>*\<^sup>* VectorFstImpl (sample l)"
proof -
  let ?f1 = "AddStates SW 2 VectorFstImpl" and ?a = "Arc l l (sw_of_label l) 1"
  let ?f2 = "SetStart (Some 0) ?f1"
  let ?f3 = "AddArc SW 0 ?a ?f2"
  note step = rtranclp.rtrancl_into_rtrancl [where r = "mutation SW"]
  have "(mutation SW)\<^sup>*\<^sup>* VectorFstImpl ?f1" by (intro r_into_rtranclp mutation.intros)
  moreover have "mutation SW ?f1 ?f2" by (rule m_SetStart) (simp add: sample_defs)
  moreover have "mutation SW ?f2 ?f3" by (rule m_AddArc) (simp_all add: sample_defs)
  moreover have "mutation SW ?f3 (SetFinal SW 1 sw_One ?f3)" by (rule m_SetFinal) (simp add: sample_defs)
  ultimately show ?thesis unfolding sample_def by (blast intro: step)
qed

lemma sample_ok: "fst_ok SW (sample l)"
  by (rule fst_ok_reachable [OF sample_mutations sw.Weq_Zero_Zero])

lemma sample_wf: "wf_fst (sample l)" "props_sound SW (sample l) (properties (sample l))"
  using sample_ok [of l] by (simp_all add: fst_ok_def)

lemma sample_symbols: "symbols_match flag (sample l) (sample m)"
  by (simp add: symbols_match_def CompatSymbols_def sample_states)

lemma sw_of_label_ok: "0 < l \<Longrightarrow> sw_ok (sw_of_label l)"
  by (auto simp: sw_ok_def sw_of_label_def kStringInfinity_def kStringBad_def)

lemma sample_weights: "0 < l \<Longrightarrow> weights_in sw_ok (sample l)"
  by (simp add: weights_in_def sample_states sw_ok_special sw_of_label_ok)

lemma sample_transduces: "0 < l \<Longrightarrow> transduces SW (sample l) [l] [l] (sw_of_label l)"
proof -
  assume l: "0 < l"
  have "path (sample l) 0 [Arc l l (sw_of_label l) 1] 1"
    by (simp add: trans_iff NumStates_def Arcs_def sample_states)
  moreover have "final_state SW (sample l) 1" "Final (sample l) 1 = sw_One"
    using sw.not_Weq_One_Zero by (simp_all add: final_state_def NumStates_def Final_def sample_states)
  moreover have "sw_Times (sw_Times (sw_of_label l) sw_One) sw_One = sw_of_label l"
    using sw_of_label_ok [OF l] sw.Times_One by simp
  ultimately show ?thesis
    using l by (auto simp: transduces_def transduces_from_def sample_states intro!: exI [of _ "[Arc l l (sw_of_label l) 1]"] exI [of _ 1])
qed

lemma error_bit: "bit (properties (SetProperties p f)) 2 \<longleftrightarrow> bit (properties f) 2 \<or> bit p 2"
  by (auto simp: SetProperties_def prop_bits)

lemma sample_no_error: "\<not> has (Properties (sample l) kFstProperties) kError"
proof -
  have "\<not> bit (properties (VectorFstImpl :: string_weight vfst)) 2"
    by (simp add: VectorFstImpl_def error_bit kStaticProperties_def prop_bits)
  then have "\<not> bit (properties (sample l)) 2"
    by (simp add: sample_def SetFinal_def AddArc_def UpdatePropertiesAfterAddArc_def SetStart_def AddStates_def
        error_bit Let_def BaseSetFinal_def BaseAddArc_def BaseSetStart_def BaseAddStates_def)
  then show ?thesis by (simp add: prop_bits Properties_def)
qed

text \<open>The machine with one state, which is the start state, and no arcs.\<close>

definition one_state :: "string_weight vfst" where
  "one_state = SetStart (Some 0) (AddState SW VectorFstImpl)"

lemma one_state_states:
  "states one_state = [\<lparr>final_weight = sw_Zero, niepsilons = 0, noepsilons = 0, arcs = []\<rparr>]" "start one_state = Some 0"
  by (simp_all add: one_state_def sample_defs AddState_def BaseAddState_def)

lemma one_state_wf: "wf_fst one_state" "trans one_state = {}"
proof -
  have "Arcs one_state s = []" if "s < NumStates one_state" for s
    using that by (cases s) (simp_all add: NumStates_def Arcs_def one_state_states)
  then show "trans one_state = {}" by (auto simp: trans_def)
  then show "wf_fst one_state" by (auto simp: wf_fst_def NumStates_def eps_counts_ok_def one_state_states)
qed

lemma st_bool_finite: "finite (Collect st_bool)"
proof -
  have "Collect st_bool = {UnivSet, EmptySet}" by (auto simp: st_bool_def)
  then show ?thesis by simp
qed

text \<open>A machine with a cycle, over the Boolean set weight.\<close>

definition bool_cycle :: "set_weight vfst" where
  "bool_cycle =
     \<lparr>start = Some 0,
      states = [\<lparr>final_weight = UnivSet, niepsilons = 0, noepsilons = 0, arcs = [Arc 1 1 EmptySet 1]\<rparr>,
                \<lparr>final_weight = EmptySet, niepsilons = 0, noepsilons = 0, arcs = [Arc 2 2 EmptySet 0]\<rparr>],
      properties = kStaticProperties, isymbols = None, osymbols = None\<rparr>"

lemma bool_cycle_ok:
  "wf_fst bool_cycle" "weights_in st_bool bool_cycle" "start bool_cycle = Some 0" "NumStates bool_cycle = 2"
  "\<not> has (Properties bool_cycle kError) kError"
proof -
  have "nextstate a < 2" if "(s, a) \<in> trans bool_cycle" for s a
    using that by (auto simp: trans_iff bool_cycle_def NumStates_def Arcs_def less_Suc_eq)
  then show "wf_fst bool_cycle" by (auto simp: wf_fst_def bool_cycle_def NumStates_def eps_counts_ok_def numeral_2_eq_2)
  show "weights_in st_bool bool_cycle" by (simp add: weights_in_def bool_cycle_def st_bool_def)
  show "\<not> has (Properties bool_cycle kError) kError"
    by (auto simp: bool_cycle_def Properties_def kStaticProperties_def prop_bits)
qed (simp_all add: bool_cycle_def NumStates_def)

end
