(* ===== verification/ArcMap.thy ===== *)
theory ArcMap
  imports ClosureSound PairWeight
begin

text \<open>
  Operations that map the arcs of an FST one by one: both forms of \<open>ArcMap\<close> and the utility
  mappers of src/openfst/lib/arc-map.h, \<open>Invert\<close> (invert.h) and \<open>Project\<close> (project.h).

  A mapper is a record of its function, which may change the mapper's own state, and of what it
  says about final weights, symbol tables and properties. A mapper gets and returns arcs whose
  next state may be \<open>kNoStateId\<close> (\<open>None\<close>), which is how final weights are passed; an arc of the
  FST has to be mapped to an arc with a next state, and what a result without one would mean
  is left open (\<open>the\<close>). Capacity reservation is left out.
\<close>

unbundle bit_operations_syntax

section \<open>ArcMap\<close>

datatype MapFinalAction = MAP_NO_SUPERFINAL | MAP_ALLOW_SUPERFINAL | MAP_REQUIRE_SUPERFINAL

datatype MapSymbolsAction = MAP_CLEAR_SYMBOLS | MAP_COPY_SYMBOLS | MAP_NOOP_SYMBOLS

record ('s, 'w, 'v) arc_mapper =
  am_map :: "'s \<Rightarrow> ('w, nat option) garc \<Rightarrow> ('v, nat option) garc \<times> 's"
  FinalAction :: MapFinalAction
  InputSymbolsAction :: MapSymbolsAction
  OutputSymbolsAction :: MapSymbolsAction
  MapProperties :: "'s \<Rightarrow> props \<Rightarrow> props"

definition to_mapper :: "'w arc \<Rightarrow> ('w, nat option) garc" where
  "to_mapper a = Arc (ilabel a) (olabel a) (weight a) (Some (nextstate a))"

definition of_mapper :: "('w, nat option) garc \<Rightarrow> 'w arc" where
  "of_mapper a = Arc (ilabel a) (olabel a) (weight a) (the (nextstate a))"

text \<open>The treatment of the final weight \<open>w\<close> of state \<open>s\<close>; \<open>superfinal\<close> is the superfinal state, if there is one.\<close>

definition map_final ::
  "('v, 'z) weight_ops_scheme \<Rightarrow> ('s, 'w, 'v) arc_mapper \<Rightarrow> 'w \<Rightarrow> nat \<Rightarrow>
    nat option \<times> 'v vfst \<times> 's \<Rightarrow> nat option \<times> 'v vfst \<times> 's" where
  "map_final V m w s = (\<lambda>(superfinal, f, st).
     let (final_arc, st) = am_map m st (Arc 0 0 w None)
     in case FinalAction m of
          MAP_NO_SUPERFINAL \<Rightarrow>
            (let f = (if ilabel final_arc \<noteq> 0 \<or> olabel final_arc \<noteq> 0
                      then SetPropertiesMask kError kError f else f)
             in (superfinal, SetFinal V s (weight final_arc) f, st))
        | MAP_ALLOW_SUPERFINAL \<Rightarrow>
            if ilabel final_arc \<noteq> 0 \<or> olabel final_arc \<noteq> 0
            then
             (let (sf, f) = (case superfinal of
                               Some sf \<Rightarrow> (sf, f)
                             | None \<Rightarrow> (NumStates f, SetFinal V (NumStates f) (One V) (AddState V f)));
                  f = AddArc V s (Arc (ilabel final_arc) (olabel final_arc) (weight final_arc) sf) f
              in (Some sf, SetFinal V s (Zero V) f, st))
            else (superfinal, SetFinal V s (weight final_arc) f, st)
        | MAP_REQUIRE_SUPERFINAL \<Rightarrow>
            (let f = (if ilabel final_arc \<noteq> 0 \<or> olabel final_arc \<noteq> 0 \<or> \<not> Weq V (weight final_arc) (Zero V)
                      then AddArc V s (Arc (ilabel final_arc) (olabel final_arc) (weight final_arc) (the superfinal)) f
                      else f)
             in (superfinal, SetFinal V s (Zero V) f, st)))"

definition map_arcs ::
  "('w, 'z) weight_ops_scheme \<Rightarrow> ('s, 'w, 'w) arc_mapper \<Rightarrow> nat \<Rightarrow> 'w vfst \<times> 's \<Rightarrow> 'w vfst \<times> 's" where
  "map_arcs W m s = (\<lambda>(f, st).
     fold (\<lambda>i (f, st).
        let (a, st) = am_map m st (to_mapper (Arcs f s ! i))
        in (SetValue W s i (of_mapper a) f, st)) [0 ..< NumArcs f s] (f, st))"

definition map_state ::
  "('w, 'z) weight_ops_scheme \<Rightarrow> ('s, 'w, 'w) arc_mapper \<Rightarrow> nat \<Rightarrow>
    nat option \<times> 'w vfst \<times> 's \<Rightarrow> nat option \<times> 'w vfst \<times> 's" where
  "map_state W m s = (\<lambda>(superfinal, f, st).
     let (f, st) = map_arcs W m s (f, st)
     in if superfinal = Some s then (superfinal, f, st)
        else map_final W m (Final f s) s (superfinal, f, st))"

definition clear_symbols :: "('s, 'w, 'v) arc_mapper \<Rightarrow> 'v vfst \<Rightarrow> 'v vfst" where
  "clear_symbols m f =
     (let f = (if InputSymbolsAction m = MAP_CLEAR_SYMBOLS then SetInputSymbols None f else f)
      in if OutputSymbolsAction m = MAP_CLEAR_SYMBOLS then SetOutputSymbols None f else f)"

text \<open>\<open>ArcMap(fst, mapper)\<close>, which changes its argument. The states are those at the start of the loop.\<close>

definition ArcMap ::
  "('w, 'z) weight_ops_scheme \<Rightarrow> ('s, 'w, 'w) arc_mapper \<Rightarrow> 's \<Rightarrow> 'w vfst \<Rightarrow> 'w vfst \<times> 's" where
  "ArcMap W m st f =
     (let f = clear_symbols m f
      in case start f of
           None \<Rightarrow> (f, st)
         | Some _ \<Rightarrow>
            (let props = Properties f kFstProperties;
                 (superfinal, f) =
                   (if FinalAction m = MAP_REQUIRE_SUPERFINAL
                    then (Some (NumStates f), SetFinal W (NumStates f) (One W) (AddState W f))
                    else (None, f));
                 (_, f, st) = fold (map_state W m) [0 ..< NumStates f] (superfinal, f, st)
             in (SetPropertiesMask (MapProperties m st props) kFstProperties f, st)))"

text \<open>
  \<open>ArcMap(ifst, ofst, mapper)\<close>, which writes to another FST; \<open>unique\<close> says whether the implementation
  of \<open>ofst\<close> is not shared.
\<close>

definition copy_symbols ::
  "('s, 'w, 'v) arc_mapper \<Rightarrow> 'w vfst \<Rightarrow> 'v vfst \<Rightarrow> 'v vfst" where
  "copy_symbols m ifst ofst =
     (let ofst = (case InputSymbolsAction m of
                    MAP_COPY_SYMBOLS \<Rightarrow> SetInputSymbols (isymbols ifst) ofst
                  | MAP_CLEAR_SYMBOLS \<Rightarrow> SetInputSymbols None ofst
                  | MAP_NOOP_SYMBOLS \<Rightarrow> ofst)
      in case OutputSymbolsAction m of
           MAP_COPY_SYMBOLS \<Rightarrow> SetOutputSymbols (osymbols ifst) ofst
         | MAP_CLEAR_SYMBOLS \<Rightarrow> SetOutputSymbols None ofst
         | MAP_NOOP_SYMBOLS \<Rightarrow> ofst)"

definition map_state_to ::
  "('v, 'z) weight_ops_scheme \<Rightarrow> ('s, 'w, 'v) arc_mapper \<Rightarrow> 'w vfst \<Rightarrow> nat \<Rightarrow>
    nat option \<times> 'v vfst \<times> 's \<Rightarrow> nat option \<times> 'v vfst \<times> 's" where
  "map_state_to V m ifst s = (\<lambda>(superfinal, ofst, st).
     let ofst = (if Some s = start ifst then SetStart (Some s) ofst else ofst);
         (ofst, st) = fold (\<lambda>a (ofst, st).
            let (b, st) = am_map m st (to_mapper a) in (AddArc V s (of_mapper b) ofst, st)) (Arcs ifst s) (ofst, st)
     in map_final V m (Final ifst s) s (superfinal, ofst, st))"

definition ArcMapTo ::
  "('v, 'z) weight_ops_scheme \<Rightarrow> ('s, 'w, 'v) arc_mapper \<Rightarrow> 's \<Rightarrow> 'w vfst \<Rightarrow> bool \<Rightarrow> 'v vfst \<Rightarrow> 'v vfst \<times> 's" where
  "ArcMapTo V m st ifst unique ofst =
     (let ofst = DeleteAllStates unique ofst;
          ofst = copy_symbols m ifst ofst;
          iprops = Properties ifst kCopyProperties
      in case start ifst of
           None \<Rightarrow> ((if has iprops kError then SetPropertiesMask kError kError ofst else ofst), st)
         | Some _ \<Rightarrow>
            (let ofst = fold (\<lambda>_. AddState V) [0 ..< NumStates ifst] ofst;
                 (superfinal, ofst) =
                   (if FinalAction m = MAP_REQUIRE_SUPERFINAL
                    then (Some (NumStates ofst), SetFinal V (NumStates ofst) (One V) (AddState V ofst))
                    else (None, ofst));
                 (_, ofst, st) = fold (map_state_to V m ifst) [0 ..< NumStates ifst] (superfinal, ofst, st);
                 oprops = Properties ofst kFstProperties
             in (SetPropertiesMask (MapProperties m st iprops OR oprops) kFstProperties ofst, st)))"

section \<open>Utility mappers\<close>

text \<open>A mapper without a state.\<close>

definition stateless ::
  "(('w, nat option) garc \<Rightarrow> ('v, nat option) garc) \<Rightarrow> MapFinalAction \<Rightarrow> MapSymbolsAction \<Rightarrow> MapSymbolsAction \<Rightarrow>
    (props \<Rightarrow> props) \<Rightarrow> (unit, 'w, 'v) arc_mapper" where
  "stateless g fa ia oa p =
     \<lparr>am_map = \<lambda>st a. (g a, st), FinalAction = fa, InputSymbolsAction = ia, OutputSymbolsAction = oa,
      MapProperties = \<lambda>_. p\<rparr>"

definition IdentityArcMapper :: "(unit, 'w, 'w) arc_mapper" where
  "IdentityArcMapper = stateless (\<lambda>arc. arc) MAP_NO_SUPERFINAL MAP_COPY_SYMBOLS MAP_COPY_SYMBOLS (\<lambda>props. props)"

definition InputEpsilonMapper :: "(unit, 'w, 'w) arc_mapper" where
  "InputEpsilonMapper =
     stateless (\<lambda>arc. Arc 0 (olabel arc) (weight arc) (nextstate arc)) MAP_NO_SUPERFINAL MAP_CLEAR_SYMBOLS
       MAP_COPY_SYMBOLS (\<lambda>props. (props AND kSetArcProperties) OR kIEpsilons OR kILabelSorted)"

definition OutputEpsilonMapper :: "(unit, 'w, 'w) arc_mapper" where
  "OutputEpsilonMapper =
     stateless (\<lambda>arc. Arc (ilabel arc) 0 (weight arc) (nextstate arc)) MAP_NO_SUPERFINAL MAP_COPY_SYMBOLS
       MAP_CLEAR_SYMBOLS (\<lambda>props. (props AND kSetArcProperties) OR kOEpsilons OR kOLabelSorted)"

definition SuperFinalMapper :: "('w, 'z) weight_ops_scheme \<Rightarrow> int \<Rightarrow> (unit, 'w, 'w) arc_mapper" where
  "SuperFinalMapper W final_label =
     stateless
       (\<lambda>arc. if nextstate arc = None \<and> \<not> Weq W (weight arc) (Zero W)
              then Arc final_label final_label (weight arc) None else arc)
       MAP_REQUIRE_SUPERFINAL MAP_COPY_SYMBOLS MAP_COPY_SYMBOLS
       (\<lambda>props. if final_label = 0 then props AND kAddSuperFinalProperties
                else props AND kAddSuperFinalProperties AND kILabelInvariantProperties AND kOLabelInvariantProperties)"

definition WeightConvertMapper :: "('w \<Rightarrow> 'v) \<Rightarrow> (unit, 'w, 'v) arc_mapper" where
  "WeightConvertMapper convert_weight =
     stateless (\<lambda>arc. Arc (ilabel arc) (olabel arc) (convert_weight (weight arc)) (nextstate arc))
       MAP_NO_SUPERFINAL MAP_COPY_SYMBOLS MAP_COPY_SYMBOLS (\<lambda>props. props)"

definition ToGallicMapper ::
  "GallicType \<Rightarrow> ('w, 'z) weight_ops_scheme \<Rightarrow> (unit, 'w, (string_weight, 'w) pair_weight) arc_mapper" where
  "ToGallicMapper G W =
     stateless
       (\<lambda>arc. if nextstate arc = None \<and> \<not> Weq W (weight arc) (Zero W)
              then Arc 0 0 (PairWeight sw_One (weight arc)) None
              else if nextstate arc = None then Arc 0 0 (Zero (GallicWeight G W)) None
              else if olabel arc = 0
              then Arc (ilabel arc) (ilabel arc) (PairWeight sw_One (weight arc)) (nextstate arc)
              else Arc (ilabel arc) (ilabel arc) (PairWeight (sw_of_label (olabel arc)) (weight arc)) (nextstate arc))
       MAP_NO_SUPERFINAL MAP_COPY_SYMBOLS MAP_CLEAR_SYMBOLS
       (\<lambda>props. ProjectProperties props True AND kWeightInvariantProperties)"

text \<open>\<open>FromGallicMapper\<close>; its state is the flag \<open>error_\<close>. \<open>Extract\<close> is that of the gallic types but \<open>GALLIC\<close>.\<close>

definition Extract :: "(string_weight, 'w) pair_weight \<Rightarrow> ('w \<times> int) option" where
  "Extract gallic_weight =
     (let w1 = value1 gallic_weight;
          w2 = value2 gallic_weight;
          l = (if sw_Size w1 = 1 then it_Value (sw_Iterator w1) else 0)
      in if l = kStringInfinity \<or> l = kStringBad \<or> sw_Size w1 > 1 then None else Some (w2, l))"

definition kNoLabel :: int where "kNoLabel = -1"

definition FromGallicMapper ::
  "GallicType \<Rightarrow> ('w, 'z) weight_ops_scheme \<Rightarrow> int \<Rightarrow> (bool, (string_weight, 'w) pair_weight, 'w) arc_mapper" where
  "FromGallicMapper G W superfinal_label =
     \<lparr>am_map = \<lambda>error arc.
        if nextstate arc = None \<and> Weq (GallicWeight G W) (weight arc) (Zero (GallicWeight G W))
        then (Arc (ilabel arc) 0 (Zero W) None, error)
        else
         (let (w, l) = (case Extract (weight arc) of None \<Rightarrow> (Zero W, kNoLabel) | Some wl \<Rightarrow> wl);
              error = (error \<or> Extract (weight arc) = None \<or> ilabel arc \<noteq> olabel arc)
          in if ilabel arc = 0 \<and> l \<noteq> 0 \<and> nextstate arc = None
             then (Arc superfinal_label l w (nextstate arc), error)
             else (Arc (ilabel arc) l w (nextstate arc), error)),
      FinalAction = MAP_ALLOW_SUPERFINAL, InputSymbolsAction = MAP_COPY_SYMBOLS,
      OutputSymbolsAction = MAP_CLEAR_SYMBOLS,
      MapProperties = \<lambda>error inprops.
        (let outprops = inprops AND kOLabelInvariantProperties AND kWeightInvariantProperties AND kAddSuperFinalProperties
         in if error then outprops OR kError else outprops)\<rparr>"

definition PlusMapper :: "('w, 'z) weight_ops_scheme \<Rightarrow> 'w \<Rightarrow> (unit, 'w, 'w) arc_mapper" where
  "PlusMapper W w =
     stateless (\<lambda>arc. if Weq W (weight arc) (Zero W) then arc
                      else Arc (ilabel arc) (olabel arc) (Plus W (weight arc) w) (nextstate arc))
       MAP_NO_SUPERFINAL MAP_COPY_SYMBOLS MAP_COPY_SYMBOLS (\<lambda>props. props AND kWeightInvariantProperties)"

definition TimesMapper :: "('w, 'z) weight_ops_scheme \<Rightarrow> 'w \<Rightarrow> (unit, 'w, 'w) arc_mapper" where
  "TimesMapper W w =
     stateless (\<lambda>arc. if Weq W (weight arc) (Zero W) then arc
                      else Arc (ilabel arc) (olabel arc) (Times W (weight arc) w) (nextstate arc))
       MAP_NO_SUPERFINAL MAP_COPY_SYMBOLS MAP_COPY_SYMBOLS (\<lambda>props. props AND kWeightInvariantProperties)"

text \<open>\<open>PowerMapper\<close>, for the weights whose \<open>Power\<close> is the iterated product, where the power is a whole number.\<close>

definition PowerMapper :: "('w, 'z) weight_ops_scheme \<Rightarrow> nat \<Rightarrow> (unit, 'w, 'w) arc_mapper" where
  "PowerMapper W pow =
     stateless (\<lambda>arc. Arc (ilabel arc) (olabel arc) (Power W (weight arc) pow) (nextstate arc))
       MAP_NO_SUPERFINAL MAP_COPY_SYMBOLS MAP_COPY_SYMBOLS (\<lambda>props. props AND kWeightInvariantProperties)"

text \<open>\<open>Divide\<close> of the weight class is an argument.\<close>

definition InvertWeightMapper ::
  "('w, 'z) weight_ops_scheme \<Rightarrow> ('w \<Rightarrow> 'w \<Rightarrow> DivideType \<Rightarrow> 'w) \<Rightarrow> (unit, 'w, 'w) arc_mapper" where
  "InvertWeightMapper W divideW =
     stateless (\<lambda>arc. if Weq W (weight arc) (Zero W) then arc
                      else Arc (ilabel arc) (olabel arc) (divideW (One W) (weight arc) DIVIDE_ANY) (nextstate arc))
       MAP_NO_SUPERFINAL MAP_COPY_SYMBOLS MAP_COPY_SYMBOLS (\<lambda>props. props AND kWeightInvariantProperties)"

definition RmWeightMapper ::
  "('w, 'z) weight_ops_scheme \<Rightarrow> ('v, 'y) weight_ops_scheme \<Rightarrow> (unit, 'w, 'v) arc_mapper" where
  "RmWeightMapper W V =
     stateless (\<lambda>arc. Arc (ilabel arc) (olabel arc) (if \<not> Weq W (weight arc) (Zero W) then One V else Zero V) (nextstate arc))
       MAP_NO_SUPERFINAL MAP_COPY_SYMBOLS MAP_COPY_SYMBOLS
       (\<lambda>props. (props AND kWeightInvariantProperties) OR kUnweighted)"

definition ReverseWeightMapper :: "('w \<Rightarrow> 'v) \<Rightarrow> (unit, 'w, 'v) arc_mapper" where
  "ReverseWeightMapper reverse =
     stateless (\<lambda>arc. Arc (ilabel arc) (olabel arc) (reverse (weight arc)) (nextstate arc))
       MAP_NO_SUPERFINAL MAP_COPY_SYMBOLS MAP_COPY_SYMBOLS (\<lambda>props. props)"

section \<open>Invert and Project\<close>

definition InvertMapper :: "(unit, 'w, 'w) arc_mapper" where
  "InvertMapper =
     stateless (\<lambda>arc. Arc (olabel arc) (ilabel arc) (weight arc) (nextstate arc)) MAP_NO_SUPERFINAL
       MAP_CLEAR_SYMBOLS MAP_CLEAR_SYMBOLS InvertProperties"

definition Invert :: "('w, 'z) weight_ops_scheme \<Rightarrow> 'w vfst \<Rightarrow> 'w vfst" where
  "Invert W f =
     (let input = isymbols f;
          output = osymbols f;
          f = fst (ArcMap W InvertMapper () f)
      in SetOutputSymbols input (SetInputSymbols output f))"

definition InvertTo :: "('w, 'z) weight_ops_scheme \<Rightarrow> 'w vfst \<Rightarrow> bool \<Rightarrow> 'w vfst \<Rightarrow> 'w vfst" where
  "InvertTo W ifst unique ofst =
     (let input = isymbols ifst;
          output = osymbols ifst;
          ofst = fst (ArcMapTo W InvertMapper () ifst unique ofst)
      in SetOutputSymbols input (SetInputSymbols output ofst))"

datatype ProjectType = PROJECT_INPUT | PROJECT_OUTPUT

definition ProjectMapper :: "ProjectType \<Rightarrow> (unit, 'w, 'w) arc_mapper" where
  "ProjectMapper project_type =
     stateless
       (\<lambda>arc. let label = (if project_type = PROJECT_INPUT then ilabel arc else olabel arc)
              in Arc label label (weight arc) (nextstate arc))
       MAP_NO_SUPERFINAL
       (if project_type = PROJECT_INPUT then MAP_COPY_SYMBOLS else MAP_CLEAR_SYMBOLS)
       (if project_type = PROJECT_OUTPUT then MAP_COPY_SYMBOLS else MAP_CLEAR_SYMBOLS)
       (\<lambda>props. ProjectProperties props (project_type = PROJECT_INPUT))"

definition Project :: "('w, 'z) weight_ops_scheme \<Rightarrow> ProjectType \<Rightarrow> 'w vfst \<Rightarrow> 'w vfst" where
  "Project W project_type f =
     (let f = fst (ArcMap W (ProjectMapper project_type) () f)
      in case project_type of
           PROJECT_INPUT \<Rightarrow> SetOutputSymbols (isymbols f) f
         | PROJECT_OUTPUT \<Rightarrow> SetInputSymbols (osymbols f) f)"

definition ProjectTo :: "('w, 'z) weight_ops_scheme \<Rightarrow> ProjectType \<Rightarrow> 'w vfst \<Rightarrow> bool \<Rightarrow> 'w vfst \<Rightarrow> 'w vfst" where
  "ProjectTo W project_type ifst unique ofst =
     (let ofst = fst (ArcMapTo W (ProjectMapper project_type) () ifst unique ofst)
      in case project_type of
           PROJECT_INPUT \<Rightarrow> SetOutputSymbols (isymbols ifst) ofst
         | PROJECT_OUTPUT \<Rightarrow> SetInputSymbols (osymbols ifst) ofst)"

end
