(* ===== verification/ArcMapLaws.thy ===== *)
theory ArcMapLaws
  imports ArcMap
begin

text \<open>
  What \<open>ArcMap\<close> does for a mapper that keeps next states and final states: the result has the
  mapped arcs and final weights at the same places. From this follow the relations that \<open>Invert\<close>
  and \<open>Project\<close> compute, and the soundness of the properties that they store.
\<close>

unbundle bit_operations_syntax

section \<open>Images of an FST under a map of its arcs\<close>

definition arc_image :: "('w arc \<Rightarrow> 'v arc) \<Rightarrow> ('w \<Rightarrow> 'v) \<Rightarrow> 'w vfst \<Rightarrow> 'v vfst \<Rightarrow> bool" where
  "arc_image \<alpha> \<phi> f g \<longleftrightarrow> start g = start f \<and> NumStates g = NumStates f \<and>
     (\<forall>s < NumStates f. Arcs g s = map \<alpha> (Arcs f s) \<and> Final g s = \<phi> (Final f s))"

text \<open>An image up to state \<open>k\<close>, with the other states as before.\<close>

definition image_upto :: "('w arc \<Rightarrow> 'w arc) \<Rightarrow> ('w \<Rightarrow> 'w) \<Rightarrow> nat \<Rightarrow> 'w vfst \<Rightarrow> 'w vfst \<Rightarrow> bool" where
  "image_upto \<alpha> \<phi> k f g \<longleftrightarrow> start g = start f \<and> NumStates g = NumStates f \<and>
     (\<forall>s < NumStates f. Arcs g s = (if s < k then map \<alpha> (Arcs f s) else Arcs f s) \<and>
        Final g s = (if s < k then \<phi> (Final f s) else Final f s))"

lemma stateless_sel [simp]:
  "am_map (stateless g fa ia oa p) st a = (g a, st)" "FinalAction (stateless g fa ia oa p) = fa"
  "InputSymbolsAction (stateless g fa ia oa p) = ia" "OutputSymbolsAction (stateless g fa ia oa p) = oa"
  "MapProperties (stateless g fa ia oa p) st = p"
  by (simp_all add: stateless_def)

locale arc_wise =
  fixes g :: "('w, nat option) garc \<Rightarrow> ('w, nat option) garc"
  assumes keeps_nextstate: "nextstate (g a) = nextstate a"
    and keeps_final: "ilabel (g (Arc 0 0 w None)) = 0" "olabel (g (Arc 0 0 w None)) = 0"
begin

definition on_arc :: "'w arc \<Rightarrow> 'w arc" where
  "on_arc a = of_mapper (g (to_mapper a))"

definition on_final :: "'w \<Rightarrow> 'w" where
  "on_final w = weight (g (Arc 0 0 w None))"

lemma nextstate_on_arc [simp]: "nextstate (on_arc a) = nextstate a"
  by (simp add: on_arc_def of_mapper_def to_mapper_def keeps_nextstate)

abbreviation mapper :: "MapSymbolsAction \<Rightarrow> MapSymbolsAction \<Rightarrow> (props \<Rightarrow> props) \<Rightarrow> (unit, 'w, 'w) arc_mapper" where
  "mapper ia oa p \<equiv> stateless g MAP_NO_SUPERFINAL ia oa p"

lemma map_arcs_eq:
  "map_arcs W (mapper ia oa p) s (f, u) =
    (fold (\<lambda>i f. SetValue W s i (on_arc (Arcs f s ! i)) f) [0 ..< NumArcs f s] f, u)"
proof -
  have "fold (\<lambda>i (f, st). let (a, st) = am_map (mapper ia oa p) st (to_mapper (Arcs f s ! i))
      in (SetValue W s i (of_mapper a) f, st)) is (f, u) =
      (fold (\<lambda>i f. SetValue W s i (on_arc (Arcs f s ! i)) f) is f, u)" for "is"
    by (induction "is" arbitrary: f) (simp_all add: on_arc_def)
  then show ?thesis by (simp add: map_arcs_def)
qed

lemma map_arcs_obs:
  assumes wf: "wf_fst f" and s: "s < NumStates f" and k: "k \<le> length (Arcs f s)"
  shows "let h = fold (\<lambda>i f. SetValue W s i (on_arc (Arcs f s ! i)) f) [0 ..< k] f in
    wf_fst h \<and> start h = start f \<and> NumStates h = NumStates f \<and>
    Arcs h s = map on_arc (take k (Arcs f s)) @ drop k (Arcs f s) \<and>
    (\<forall>r. r \<noteq> s \<longrightarrow> Arcs h r = Arcs f r) \<and> (\<forall>r. Final h r = Final f r)"
  using k
proof (induction k)
  case 0
  then show ?case using wf by simp
next
  case (Suc k)
  let ?h = "fold (\<lambda>i f. SetValue W s i (on_arc (Arcs f s ! i)) f) [0 ..< k] f"
  have IH: "wf_fst ?h" "start ?h = start f" "NumStates ?h = NumStates f"
    "Arcs ?h s = map on_arc (take k (Arcs f s)) @ drop k (Arcs f s)"
    "\<forall>r. r \<noteq> s \<longrightarrow> Arcs ?h r = Arcs f r" "\<forall>r. Final ?h r = Final f r"
    using Suc by (simp_all add: Let_def)
  have k: "k < length (Arcs f s)" using Suc.prems by simp
  then have nth: "Arcs ?h s ! k = Arcs f s ! k" by (simp add: IH nth_append)
  have d: "drop k (Arcs f s) = Arcs f s ! k # drop (Suc k) (Arcs f s)" using k by (simp add: Cons_nth_drop_Suc)
  have "wf_fst (SetValue W s k (on_arc (Arcs f s ! k)) ?h)"
    using IH k s wf_target [OF wf s, of "Arcs f s ! k"] by (intro wf_SetValue) simp_all
  moreover have "(Arcs ?h s)[k := on_arc (Arcs f s ! k)] =
      map on_arc (take (Suc k) (Arcs f s)) @ drop (Suc k) (Arcs f s)"
    using k by (simp add: IH(4) list_update_append d take_Suc_conv_app_nth)
  ultimately show ?case
    using IH(1-3,5,6) s by (simp add: Let_def SetValue_eq nth)
qed

lemma map_state_obs:
  assumes wf: "wf_fst h" and im: "image_upto on_arc on_final s f h" and s: "s < NumStates f"
  shows "\<exists>h'. map_state W (mapper ia oa p) s (None, h, ()) = (None, h', ()) \<and> wf_fst h' \<and>
    image_upto on_arc on_final (Suc s) f h'"
proof -
  have n: "NumStates h = NumStates f" and st: "start h = start f" and A: "Arcs h s = Arcs f s"
    and F: "Final h s = Final f s" using im s by (simp_all add: image_upto_def)
  let ?a = "fold (\<lambda>i f. SetValue W s i (on_arc (Arcs f s ! i)) f) [0 ..< NumArcs h s] h"
  note O = map_arcs_obs [OF wf, of s "length (Arcs h s)" W, unfolded Let_def]
  have na: "NumArcs h s = length (Arcs h s)" by (simp add: NumArcs_def Arcs_def)
  have a: "wf_fst ?a" "start ?a = start f" "NumStates ?a = NumStates f" "Arcs ?a s = map on_arc (Arcs f s)"
    "\<forall>r. r \<noteq> s \<longrightarrow> Arcs ?a r = Arcs h r" "\<forall>r. Final ?a r = Final h r"
    using O s n st A na by simp_all
  let ?h' = "SetFinal W s (on_final (Final f s)) ?a"
  have "map_state W (mapper ia oa p) s (None, h, ()) = (None, ?h', ())"
    using a F by (simp add: map_state_def map_arcs_eq map_final_def keeps_final on_final_def)
  moreover have "wf_fst ?h'" using a s by (intro wf_ops(2)) simp_all
  moreover have "image_upto on_arc on_final (Suc s) f ?h'"
  proof -
    have "Arcs ?h' r = Arcs ?a r" "Final ?h' r = (if r = s then on_final (Final f s) else Final ?a r)"
      "NumStates ?h' = NumStates ?a" if "r < NumStates f" for r
      using that s a(3) by (auto simp: Arcs_def Final_def NumStates_def nth_list_update)
    then show ?thesis using im a s by (auto simp: image_upto_def less_Suc_eq)
  qed
  ultimately show ?thesis by blast
qed

lemma map_states_obs:
  assumes wf: "wf_fst f" and k: "k \<le> NumStates f"
  shows "\<exists>h. fold (map_state W (mapper ia oa p)) [0 ..< k] (None, f, ()) = (None, h, ()) \<and> wf_fst h \<and>
    image_upto on_arc on_final k f h"
  using k
proof (induction k)
  case 0
  then show ?case using wf by (auto simp: image_upto_def)
next
  case (Suc k)
  then obtain h where "fold (map_state W (mapper ia oa p)) [0 ..< k] (None, f, ()) = (None, h, ())" "wf_fst h"
    "image_upto on_arc on_final k f h" by auto
  with map_state_obs [of h k f W ia oa p] Suc.prems show ?case by simp
qed

lemma clear_symbols_obs [simp]:
  "start (clear_symbols m f) = start f" "states (clear_symbols m f) = states f"
  "properties (clear_symbols m f) = properties f"
  by (simp_all add: clear_symbols_def Let_def SetInputSymbols_def SetOutputSymbols_def)

text \<open>The result of \<open>ArcMap\<close>, for an FST with a start state and for one without.\<close>

lemma ArcMap_image:
  assumes wf: "wf_fst f" and s: "start f = Some i"
  shows "wf_fst (fst (ArcMap W (mapper ia oa p) () f)) \<and>
    arc_image on_arc on_final f (fst (ArcMap W (mapper ia oa p) () f)) \<and>
    properties (fst (ArcMap W (mapper ia oa p) () f)) AND kFstProperties AND NOT kError =
      p (Properties f kFstProperties) AND kFstProperties AND NOT kError"
proof -
  let ?c = "clear_symbols (mapper ia oa p) f"
  have wc: "wf_fst ?c" using wf by (simp add: wf_fst_def trans_def NumStates_def Arcs_def)
  obtain h where h: "fold (map_state W (mapper ia oa p)) [0 ..< NumStates ?c] (None, ?c, ()) = (None, h, ())" "wf_fst h"
    "image_upto on_arc on_final (NumStates ?c) ?c h" using map_states_obs [OF wc order_refl] by blast
  have "ArcMap W (mapper ia oa p) () f = (SetPropertiesMask (p (Properties f kFstProperties)) kFstProperties h, ())"
    using s h(1) by (simp add: ArcMap_def Let_def Properties_def)
  moreover have "arc_image on_arc on_final f h"
    using h(3) by (simp add: image_upto_def arc_image_def NumStates_def Arcs_def Final_def)
  ultimately show ?thesis
    using h(2) by (auto simp: SetPropertiesMask_def wf_fst_def trans_def NumStates_def Arcs_def arc_image_def Final_def
        bit_eq_iff bit_and_iff bit_or_iff bit_not_iff)
qed

lemma ArcMap_no_start:
  assumes "start f = None"
  shows "ArcMap W (mapper ia oa p) () f = (clear_symbols (mapper ia oa p) f, ())"
  using assms by (simp add: ArcMap_def Let_def)

end

end
