(* ===== verification/ArcMapSound.thy ===== *)
theory ArcMapSound
  imports ArcMapLaws
begin

text \<open>
  The mappers that change labels only: \<open>Invert\<close> and \<open>Project\<close> compute the inverse and the
  projections of the relation, and the properties that they store are true of their results.
\<close>

unbundle bit_operations_syntax

section \<open>Paths and properties of an image\<close>

lemma image_trans:
  assumes "arc_image \<alpha> \<phi> f g"
  shows "(s, b) \<in> trans g \<longleftrightarrow> (\<exists>a. (s, a) \<in> trans f \<and> b = \<alpha> a)"
  using assms by (auto simp: arc_image_def trans_iff)

lemma image_path:
  assumes "arc_image \<alpha> \<phi> f g" and "\<And>a. nextstate (\<alpha> a) = nextstate a"
  shows "path g s bs t \<longleftrightarrow> (\<exists>as. bs = map \<alpha> as \<and> path f s as t)"
proof (induction bs arbitrary: s)
  case (Cons b bs)
  show ?case
  proof
    assume "path g s (b # bs) t"
    then obtain a as where "(s, a) \<in> trans f" "b = \<alpha> a" "bs = map \<alpha> as" "path f (nextstate a) as t"
      using Cons assms(2) image_trans [OF assms(1)] by auto
    then show "\<exists>as. b # bs = map \<alpha> as \<and> path f s as t" by (intro exI [of _ "a # as"]) simp
  next
    assume "\<exists>as. b # bs = map \<alpha> as \<and> path f s as t"
    then show "path g s (b # bs) t" using Cons assms(2) image_trans [OF assms(1)] by auto
  qed
qed auto

text \<open>A change of labels leaves arcs with their weights and next states, and final weights as they are.\<close>

definition label_image :: "('w arc \<Rightarrow> 'w arc) \<Rightarrow> 'w vfst \<Rightarrow> 'w vfst \<Rightarrow> bool" where
  "label_image \<alpha> f g \<longleftrightarrow> arc_image \<alpha> (\<lambda>w. w) f g \<and> (\<forall>a. nextstate (\<alpha> a) = nextstate a \<and> weight (\<alpha> a) = weight a)"

lemma label_image_sel:
  assumes "label_image \<alpha> f g"
  shows "start g = start f" "NumStates g = NumStates f"
    "s < NumStates f \<Longrightarrow> Arcs g s = map \<alpha> (Arcs f s)" "s < NumStates f \<Longrightarrow> Final g s = Final f s"
    "nextstate (\<alpha> a) = nextstate a" "weight (\<alpha> a) = weight a"
    "(s, b) \<in> trans g \<longleftrightarrow> (\<exists>a. (s, a) \<in> trans f \<and> b = \<alpha> a)"
proof -
  have "arc_image \<alpha> (\<lambda>w. w) f g" using assms by (simp add: label_image_def)
  from image_trans [OF this] show "(s, b) \<in> trans g \<longleftrightarrow> (\<exists>a. (s, a) \<in> trans f \<and> b = \<alpha> a)" .
qed (use assms in \<open>auto simp: label_image_def arc_image_def\<close>)

text \<open>Quantifiers over the transitions of the image.\<close>

lemma label_image_all:
  "label_image \<alpha> f g \<Longrightarrow> (\<forall>(s, b) \<in> trans g. P s b) \<longleftrightarrow> (\<forall>(s, a) \<in> trans f. P s (\<alpha> a))"
  using label_image_sel(7) [of \<alpha> f g] by fastforce

lemma label_image_ex:
  "label_image \<alpha> f g \<Longrightarrow> (\<exists>(s, b) \<in> trans g. P s b) \<longleftrightarrow> (\<exists>(s, a) \<in> trans f. P s (\<alpha> a))"
  using label_image_all [of \<alpha> f g "\<lambda>s b. \<not> P s b"] by auto

lemma label_image_edges:
  assumes "label_image \<alpha> f g"
  shows "edges g = edges f"
proof -
  have "(s, t) \<in> edges g \<longleftrightarrow> (s, t) \<in> edges f" for s t
    using label_image_sel(5,7) [OF assms] by (auto simp: edges_iff)
  then show ?thesis by auto
qed

lemma label_image_final: "label_image \<alpha> f g \<Longrightarrow> final_state W g s \<longleftrightarrow> final_state W f s"
  by (auto simp: final_state_def label_image_sel)

lemma path_weight_image: "(\<And>a. weight (\<alpha> a) = weight a) \<Longrightarrow> path_weight W (map \<alpha> as) = path_weight W as"
  by (induction as) simp_all

lemma label_image_transduces:
  assumes im: "label_image \<alpha> f g"
  shows "transduces W g x y w \<longleftrightarrow>
    (\<exists>i as t. start f = Some i \<and> path f i as t \<and> final_state W f t \<and> x = istring (map \<alpha> as) \<and>
      y = ostring (map \<alpha> as) \<and> w = Times W (path_weight W as) (Final f t))"
proof -
  have p: "path g s bs t \<longleftrightarrow> (\<exists>as. bs = map \<alpha> as \<and> path f s as t)" for s bs t
    using im by (intro image_path) (auto simp: label_image_def)
  have pw: "path_weight W (map \<alpha> as) = path_weight W as" for as
    by (rule path_weight_image) (simp add: label_image_sel [OF im])
  have F: "Final g t = Final f t" if "final_state W f t" for t
    using that label_image_sel(4) [OF im] by (simp add: final_state_def)
  show ?thesis
    unfolding transduces_def transduces_from_def p label_image_sel(1) [OF im] label_image_final [OF im]
    using pw F by (auto; metis)
qed

text \<open>The properties that do not depend on labels.\<close>

fun unlabelled :: "trinary \<Rightarrow> bool" where
  "unlabelled t \<longleftrightarrow> t \<in> {Weighted, Cyclic, InitialCyclic, TopSorted, Accessible, CoAccessible, IsString, WeightedCycles}"

lemma label_image_unlabelled:
  assumes im: "label_image \<alpha> f g" and t: "unlabelled t"
  shows "holds W g t \<longleftrightarrow> holds W f t"
proof -
  note e = label_image_edges [OF im] and n = label_image_sel [OF im] and fs = label_image_final [OF im]
  note arcs = label_image_all [OF im] and ex = label_image_ex [OF im]
  have "is_string W g \<longleftrightarrow> is_string W f"
    by (auto simp: is_string_def fs n(1-3,5))
  moreover have "weighted W g \<longleftrightarrow> weighted W f"
    unfolding weighted_def ex by (simp add: n cong: conj_cong)
  moreover have "weighted_cycles W g \<longleftrightarrow> weighted_cycles W f"
    unfolding weighted_cycles_def ex e by (simp add: n)
  ultimately show ?thesis
    using t by (auto simp: e n(1,2) fs accessible_def coaccessible_def arcs n(5))
qed

section \<open>Invert\<close>

fun flip :: "trinary \<Rightarrow> trinary" where
  "flip IDeterministic = ODeterministic"
| "flip ODeterministic = IDeterministic"
| "flip IEpsilons = OEpsilons"
| "flip OEpsilons = IEpsilons"
| "flip ILabelSorted = OLabelSorted"
| "flip OLabelSorted = ILabelSorted"
| "flip t = t"

definition flip_arc :: "('w, 'n) garc \<Rightarrow> ('w, 'n) garc" where
  "flip_arc arc = Arc (olabel arc) (ilabel arc) (weight arc) (nextstate arc)"

lemma flip_arc_sel [simp]:
  "ilabel (flip_arc a) = olabel a" "olabel (flip_arc a) = ilabel a" "weight (flip_arc a) = weight a"
  "nextstate (flip_arc a) = nextstate a" "ilabel \<circ> flip_arc = olabel" "olabel \<circ> flip_arc = ilabel"
  by (auto simp: flip_arc_def)

interpretation flip: arc_wise flip_arc
  by unfold_locales simp_all

lemma flip_on [simp]: "flip.on_arc = flip_arc" "flip.on_final = (\<lambda>w. w)"
  by (auto simp: flip.on_arc_def flip.on_final_def to_mapper_def of_mapper_def flip_arc_def fun_eq_iff)

lemma InvertMapper_eq: "InvertMapper = stateless flip_arc MAP_NO_SUPERFINAL MAP_CLEAR_SYMBOLS MAP_CLEAR_SYMBOLS InvertProperties"
  by (simp add: InvertMapper_def flip_arc_def [abs_def])

lemma flip_holds:
  assumes im: "label_image flip_arc f g"
  shows "holds W g t \<longleftrightarrow> holds W f (flip t)"
proof -
  note n = label_image_sel [OF im]
  have "holds W g t \<longleftrightarrow> holds W f (flip t)" if "\<not> unlabelled t"
    using that by (cases t) (simp_all add: n(2,3) label_image_all [OF im] label_image_ex [OF im], auto)
  moreover have "flip t = t" if "unlabelled t" using that by auto
  ultimately show ?thesis using label_image_unlabelled [OF im, of t W] by (cases "unlabelled t") simp_all
qed

text \<open>A conditional bit of a property word, in the form in which words that are built step by step stay small.\<close>

lemma if_Or:
  "(if c then x OR k else x) = x OR (if c then k else (0 :: props))"
  "(if c then x OR k OR j else x) = x OR (if c then k OR j else (0 :: props))"
  by (simp_all add: or.assoc)

lemma bit_if_zero: "bit (if c then k else (0 :: props)) n \<longleftrightarrow> c \<and> bit k n"
  by simp

lemma InvertProperties_bits:
  "bit (InvertProperties p) (pos_bit t) \<longleftrightarrow> bit p (pos_bit (flip t))"
  "bit (InvertProperties p) (Suc (pos_bit t)) \<longleftrightarrow> bit p (Suc (pos_bit (flip t)))"
  unfolding InvertProperties_def if_Or unfolding Let_def
  by (cases t; simp add: prop_bits bit_if_zero)+

lemma InvertProperties_sound:
  assumes "label_image flip_arc f g" and "props_sound W f p"
  shows "props_sound W g (InvertProperties p)"
  using assms(2) by (auto simp: props_sound_def flip_holds [OF assms(1)] InvertProperties_bits)

lemma fst_ok_cong:
  assumes "states g = states f" "start g = start f" "properties g = properties f"
  shows "fst_ok W g \<longleftrightarrow> fst_ok W f"
proof -
  have "wf_fst g \<longleftrightarrow> wf_fst f"
    using assms by (simp add: wf_fst_def trans_def NumStates_def Arcs_def)
  moreover have "props_sound W g p \<longleftrightarrow> props_sound W f p" for p
    using assms by (intro props_sound_cong) simp_all
  ultimately show ?thesis using assms(3) by (simp add: fst_ok_def)
qed

lemma same_states_transduces:
  assumes "states g = states f" "start g = start f"
  shows "transduces W g x y w \<longleftrightarrow> transduces W f x y w"
proof -
  have tr: "trans g = trans f" using assms by (simp add: trans_def NumStates_def Arcs_def)
  then have "path g s as t \<longleftrightarrow> path f s as t" for s as t
    by (simp add: path_tpath)
  then show ?thesis
    using assms by (simp add: transduces_def transduces_from_def final_state_def NumStates_def Final_def)
qed

text \<open>
  The results of \<open>ArcMap\<close> for a mapper that only changes labels and whose \<open>Properties\<close> is right:
  the invariant is kept.
\<close>

context arc_wise
begin

lemma ArcMap_arc_image:
  "wf_fst f \<Longrightarrow> start f = Some i \<Longrightarrow> arc_image on_arc on_final f (fst (ArcMap W (mapper ia oa p) () f))"
  using ArcMap_image by blast

lemma ArcMap_ok:
  assumes ok: "fst_ok W f"
    and sound: "\<And>g q. arc_image on_arc on_final f g \<Longrightarrow> props_sound W f q \<Longrightarrow> props_sound W g (p q)"
    and static: "\<And>q n. n \<in> {0, 1} \<Longrightarrow> bit q n \<Longrightarrow> bit (p q) n"
  shows "fst_ok W (fst (ArcMap W (mapper ia oa p) () f))"
proof (cases "start f")
  case None
  then show ?thesis using ok fst_ok_cong [of "clear_symbols (mapper ia oa p) f" f W] by (simp add: ArcMap_no_start)
next
  case (Some i)
  let ?g = "fst (ArcMap W (mapper ia oa p) () f)" and ?q = "Properties f kFstProperties"
  have wf: "wf_fst f" and ps: "props_sound W f (properties f)" using ok by (simp_all add: fst_ok_def)
  note im = ArcMap_image [OF wf Some, of W ia oa p]
  have bits: "bit (properties ?g) n = bit (p ?q) n" if "bit kFstProperties n" "n \<noteq> 2" for n
  proof -
    have "bit (properties ?g AND kFstProperties AND NOT kError) n = bit (p ?q AND kFstProperties AND NOT kError) n"
      using im by simp
    then show ?thesis using that bit_imp_le_length [OF that(1)] by (simp add: bit_and_iff bit_not_iff bit_kError)
  qed
  have "props_sound W ?g (p ?q)" using im by (intro sound props_sound_Properties ps) simp
  moreover have "pos_bit t \<noteq> 2 \<and> Suc (pos_bit t) \<noteq> 2" for t by (cases t) simp_all
  ultimately have "props_sound W ?g (properties ?g)"
    by (simp add: props_sound_def bits bit_kFstProperties)
  moreover have "bit (properties ?g) n" if "n \<in> {0, 1}" for n
    using ok that static [OF that Properties_static [OF that, of f]] bits [of n] by (auto simp: fst_ok_def kFstProperties_def kBinaryProperties_def bit_or_iff)
  ultimately show ?thesis using im by (simp add: fst_ok_def)
qed

text \<open>What an FST without a start state transduces, nothing, is also what its image transduces.\<close>

lemma ArcMap_no_start_transduces: "start f = None \<Longrightarrow> \<not> transduces W (fst (ArcMap W (mapper ia oa p) () f)) x y w"
  by (simp add: ArcMap_no_start transduces_def)

end

lemma no_start_transduces: "start f = None \<Longrightarrow> \<not> transduces W f x y w"
  by (simp add: transduces_def)

text \<open>\<open>Invert\<close> computes the inverse relation and keeps the invariant.\<close>

lemma label_image_flip: "arc_image flip_arc (\<lambda>w. w) f g \<Longrightarrow> label_image flip_arc f g"
  by (simp add: label_image_def)

lemma strings_flip: "istring (map flip_arc as) = ostring as" "ostring (map flip_arc as) = istring as"
  by (simp_all add: istring_def ostring_def)

theorem invert_transduces:
  assumes wf: "wf_fst f"
  shows "transduces W (Invert W f) x y w \<longleftrightarrow> transduces W f y x w"
proof -
  let ?g = "fst (ArcMap W InvertMapper () f)"
  have "transduces W (Invert W f) x y w \<longleftrightarrow> transduces W ?g x y w"
    by (rule same_states_transduces) (simp_all add: Invert_def Let_def)
  also have "\<dots> \<longleftrightarrow> transduces W f y x w"
  proof (cases "start f")
    case None
    then show ?thesis
      unfolding InvertMapper_eq by (simp only: flip.ArcMap_no_start_transduces no_start_transduces)
  next
    case (Some i)
    have "label_image flip_arc f ?g"
      unfolding InvertMapper_eq by (rule label_image_flip [OF flip.ArcMap_arc_image [OF wf Some, unfolded flip_on]])
    note tr = label_image_transduces [OF this]
    show ?thesis unfolding tr by (auto simp: transduces_def transduces_from_def strings_flip)
  qed
  finally show ?thesis .
qed

theorem invert_ok:
  assumes "fst_ok W f"
  shows "fst_ok W (Invert W f)"
proof -
  have "fst_ok W (fst (ArcMap W InvertMapper () f))"
    unfolding InvertMapper_eq
  proof (rule flip.ArcMap_ok [OF assms], unfold flip_on)
    show "props_sound W g (InvertProperties q)" if "arc_image flip_arc (\<lambda>w. w) f g" "props_sound W f q" for g q
      using that by (intro InvertProperties_sound label_image_flip)
    show "bit (InvertProperties q) n" if "n \<in> {0, 1}" "bit q n" for q n
      using that unfolding InvertProperties_def if_Or unfolding Let_def by (auto simp: prop_bits)
  qed
  then show ?thesis using fst_ok_cong [of "Invert W f" "fst (ArcMap W InvertMapper () f)" W]
    by (simp add: Invert_def Let_def)
qed

section \<open>Project\<close>

definition project_arc :: "bool \<Rightarrow> ('w, 'n) garc \<Rightarrow> ('w, 'n) garc" where
  "project_arc input arc =
     (let label = (if input then ilabel arc else olabel arc) in Arc label label (weight arc) (nextstate arc))"

lemma project_arc_sel [simp]:
  "ilabel (project_arc input a) = (if input then ilabel a else olabel a)"
  "olabel (project_arc input a) = (if input then ilabel a else olabel a)"
  "weight (project_arc input a) = weight a" "nextstate (project_arc input a) = nextstate a"
  "ilabel \<circ> project_arc input = (if input then ilabel else olabel)"
  "olabel \<circ> project_arc input = (if input then ilabel else olabel)"
  by (auto simp: project_arc_def Let_def fun_eq_iff)

interpretation proj: arc_wise "project_arc input"
  by unfold_locales simp_all

lemma proj_on [simp]: "proj.on_arc input = project_arc input" "proj.on_final input = (\<lambda>w. w)"
  by (auto simp: proj.on_arc_def proj.on_final_def to_mapper_def of_mapper_def project_arc_def Let_def fun_eq_iff)

lemma ProjectMapper_eq:
  "ProjectMapper pt =
    stateless (project_arc (pt = PROJECT_INPUT)) MAP_NO_SUPERFINAL
      (if pt = PROJECT_INPUT then MAP_COPY_SYMBOLS else MAP_CLEAR_SYMBOLS)
      (if pt = PROJECT_OUTPUT then MAP_COPY_SYMBOLS else MAP_CLEAR_SYMBOLS)
      (\<lambda>props. ProjectProperties props (pt = PROJECT_INPUT))"
  by (simp add: ProjectMapper_def project_arc_def [abs_def] Let_def)

text \<open>The property of the argument that a property of the projection comes from.\<close>

fun projected :: "bool \<Rightarrow> trinary \<Rightarrow> trinary" where
  "projected input Epsilons = (if input then IEpsilons else OEpsilons)"
| "projected input IEpsilons = (if input then IEpsilons else OEpsilons)"
| "projected input OEpsilons = (if input then IEpsilons else OEpsilons)"
| "projected input IDeterministic = (if input then IDeterministic else ODeterministic)"
| "projected input ODeterministic = (if input then IDeterministic else ODeterministic)"
| "projected input ILabelSorted = (if input then ILabelSorted else OLabelSorted)"
| "projected input OLabelSorted = (if input then ILabelSorted else OLabelSorted)"
| "projected input t = t"

lemma project_holds:
  assumes im: "label_image (project_arc input) f g"
  shows "holds W g t \<longleftrightarrow> t = Acceptor \<or> holds W f (projected input t)"
proof (cases "unlabelled t")
  case True
  moreover have "projected input t = t" "t \<noteq> Acceptor" using True by auto
  ultimately show ?thesis using label_image_unlabelled [OF im] by simp
next
  case False
  note n = label_image_sel [OF im]
  show ?thesis
    using False by (cases t) (simp_all add: n(2,3) label_image_all [OF im] label_image_ex [OF im])
qed

lemma ProjectProperties_bits:
  "bit (ProjectProperties p input) (pos_bit t) \<longleftrightarrow> t = Acceptor \<or> bit p (pos_bit (projected input t))"
  "bit (ProjectProperties p input) (Suc (pos_bit t)) \<longleftrightarrow> t \<noteq> Acceptor \<and> bit p (Suc (pos_bit (projected input t)))"
  unfolding ProjectProperties_def if_Or unfolding Let_def
  by (cases input; cases t; simp add: prop_bits bit_if_zero)+

lemma ProjectProperties_sound:
  assumes "label_image (project_arc input) f g" and "props_sound W f p"
  shows "props_sound W g (ProjectProperties p input)"
  using assms(2) by (auto simp: props_sound_def project_holds [OF assms(1)] ProjectProperties_bits)

lemma label_image_project: "arc_image (project_arc input) (\<lambda>w. w) f g \<Longrightarrow> label_image (project_arc input) f g"
  by (simp add: label_image_def)

lemma strings_project:
  "istring (map (project_arc input) as) = (if input then istring as else ostring as)"
  "ostring (map (project_arc input) as) = (if input then istring as else ostring as)"
  by (simp_all add: istring_def ostring_def)

lemma Project_states:
  "states (Project W pt f) = states (fst (ArcMap W (ProjectMapper pt) () f))"
  "start (Project W pt f) = start (fst (ArcMap W (ProjectMapper pt) () f))"
  "properties (Project W pt f) = properties (fst (ArcMap W (ProjectMapper pt) () f))"
  by (cases pt; simp add: Project_def Let_def)+

theorem project_transduces:
  assumes wf: "wf_fst f"
  shows "transduces W (Project W pt f) x y w \<longleftrightarrow>
    x = y \<and> (\<exists>z. if pt = PROJECT_INPUT then transduces W f x z w else transduces W f z x w)"
proof -
  let ?g = "fst (ArcMap W (ProjectMapper pt) () f)"
  have "transduces W (Project W pt f) x y w \<longleftrightarrow> transduces W ?g x y w"
    by (rule same_states_transduces) (simp_all add: Project_states)
  also have "\<dots> \<longleftrightarrow> x = y \<and> (\<exists>z. if pt = PROJECT_INPUT then transduces W f x z w else transduces W f z x w)"
  proof (cases "start f")
    case None
    then show ?thesis
      unfolding ProjectMapper_eq by (simp only: proj.ArcMap_no_start_transduces no_start_transduces) simp
  next
    case (Some i)
    have "label_image (project_arc (pt = PROJECT_INPUT)) f ?g"
      unfolding ProjectMapper_eq by (rule label_image_project [OF proj.ArcMap_arc_image [OF wf Some, unfolded proj_on]])
    note tr = label_image_transduces [OF this]
    show ?thesis unfolding tr by (cases pt) (auto simp: transduces_def transduces_from_def strings_project)
  qed
  finally show ?thesis .
qed

theorem project_ok:
  assumes "fst_ok W f"
  shows "fst_ok W (Project W pt f)"
proof -
  have "fst_ok W (fst (ArcMap W (ProjectMapper pt) () f))"
    unfolding ProjectMapper_eq
  proof (rule proj.ArcMap_ok [OF assms], unfold proj_on)
    show "props_sound W g (ProjectProperties q (pt = PROJECT_INPUT))"
      if "arc_image (project_arc (pt = PROJECT_INPUT)) (\<lambda>w. w) f g" "props_sound W f q" for g q
      using that by (intro ProjectProperties_sound label_image_project)
    show "bit (ProjectProperties q (pt = PROJECT_INPUT)) n" if "n \<in> {0, 1}" "bit q n" for q n
      using that unfolding ProjectProperties_def if_Or unfolding Let_def by (auto simp: prop_bits)
  qed
  then show ?thesis using fst_ok_cong [of "Project W pt f" "fst (ArcMap W (ProjectMapper pt) () f)" W]
    by (simp add: Project_states)
qed

section \<open>The epsilon mappers\<close>

text \<open>
  The properties of \<open>InputEpsilonMapper\<close> contain \<open>kIEpsilons\<close>, and those of \<open>OutputEpsilonMapper\<close>
  contain \<open>kOEpsilons\<close>, whether there are arcs or not.
\<close>

definition epsilon_arc :: "bool \<Rightarrow> ('w, 'n) garc \<Rightarrow> ('w, 'n) garc" where
  "epsilon_arc input arc =
     (if input then Arc 0 (olabel arc) (weight arc) (nextstate arc) else Arc (ilabel arc) 0 (weight arc) (nextstate arc))"

interpretation eps: arc_wise "epsilon_arc input"
  by unfold_locales (simp_all add: epsilon_arc_def)

lemma epsilon_mappers_eq:
  "InputEpsilonMapper = stateless (epsilon_arc True) MAP_NO_SUPERFINAL MAP_CLEAR_SYMBOLS MAP_COPY_SYMBOLS
     (\<lambda>props. (props AND kSetArcProperties) OR kIEpsilons OR kILabelSorted)"
  "OutputEpsilonMapper = stateless (epsilon_arc False) MAP_NO_SUPERFINAL MAP_COPY_SYMBOLS MAP_CLEAR_SYMBOLS
     (\<lambda>props. (props AND kSetArcProperties) OR kOEpsilons OR kOLabelSorted)"
  by (simp_all add: InputEpsilonMapper_def OutputEpsilonMapper_def epsilon_arc_def [abs_def])

lemma epsilon_mappers_unsound:
  assumes "wf_fst f" and s: "start f = Some i" and "trans f = {}"
  shows "let g = fst (ArcMap W InputEpsilonMapper () f) in bit (properties g) (pos_bit IEpsilons) \<and> \<not> holds W g IEpsilons"
    "let g = fst (ArcMap W OutputEpsilonMapper () f) in bit (properties g) (pos_bit OEpsilons) \<and> \<not> holds W g OEpsilons"
proof -
  have bits: "bit (properties g) n"
    if "properties g AND kFstProperties AND NOT kError = q AND kFstProperties AND NOT kError" "bit q n" "n \<in> {24, 26}"
    for g :: "'w vfst" and q n
  proof -
    have "bit (q AND kFstProperties AND NOT kError) n"
      using that(2,3) by (auto simp: bit_and_iff bit_not_iff kFstProperties_def kTrinaryProperties_def prop_bits)
    then show ?thesis using that(1) by (metis bit_and_iff)
  qed
  have none: "trans g = {}" if "arc_image \<alpha> \<phi> f g" for \<alpha> \<phi> g
    using image_trans [OF that] assms(3) by auto
  note im = eps.ArcMap_image [OF assms(1,2)]
  show "let g = fst (ArcMap W InputEpsilonMapper () f) in bit (properties g) (pos_bit IEpsilons) \<and> \<not> holds W g IEpsilons"
    unfolding Let_def epsilon_mappers_eq
    using im [of W True, THEN conjunct2, THEN conjunct1, THEN none] bits [OF im [of W True, THEN conjunct2, THEN conjunct2]]
    by (simp add: bit_or_iff bit_kIEpsilons)
  show "let g = fst (ArcMap W OutputEpsilonMapper () f) in bit (properties g) (pos_bit OEpsilons) \<and> \<not> holds W g OEpsilons"
    unfolding Let_def epsilon_mappers_eq
    using im [of W False, THEN conjunct2, THEN conjunct1, THEN none] bits [OF im [of W False, THEN conjunct2, THEN conjunct2]]
    by (simp add: bit_or_iff bit_kOEpsilons)
qed

end
