(* ===== verification/StateMap.thy ===== *)
theory StateMap
  imports ArcMapSound "HOL-Library.Product_Lexorder"
begin

text \<open>
  Operations that map the arcs of a state together: both forms of \<open>StateMap\<close> and its utility mappers
  (src/openfst/lib/state-map.h), and \<open>ArcSort\<close> (arcsort.h).

  A state mapper is a record of its member functions, which read the FST that the mapper refers to
  as it is at the time of the call; \<open>sm_arcs\<close> is the sequence of arcs that the iteration after
  \<open>SetState\<close> gives. The mappers that sort keep a copy of the arcs, so that the mapping may be in place.
  The order in which \<open>std::sort\<close> leaves elements that compare equal is not specified: it is an
  argument, and its specification is the locale \<open>sorting\<close>. Capacity reservation is left out.
\<close>

unbundle bit_operations_syntax

section \<open>StateMap\<close>

record ('w, 'v) state_mapper =
  sm_Start :: "'w vfst \<Rightarrow> nat option"
  sm_Final :: "'w vfst \<Rightarrow> nat \<Rightarrow> 'v"
  sm_arcs :: "'w vfst \<Rightarrow> nat \<Rightarrow> 'v arc list"
  sm_InputSymbolsAction :: MapSymbolsAction
  sm_OutputSymbolsAction :: MapSymbolsAction
  sm_Properties :: "props \<Rightarrow> props"

definition state_map_step :: "('w, 'z) weight_ops_scheme \<Rightarrow> ('w, 'w) state_mapper \<Rightarrow> nat \<Rightarrow> 'w vfst \<Rightarrow> 'w vfst" where
  "state_map_step W mapper state f =
     (let as = sm_arcs mapper f state;
          f = DeleteAllArcs state f;
          f = fold (AddArc W state) as f
      in SetFinal W state (sm_Final mapper f state) f)"

definition StateMap :: "('w, 'z) weight_ops_scheme \<Rightarrow> ('w, 'w) state_mapper \<Rightarrow> 'w vfst \<Rightarrow> 'w vfst" where
  "StateMap W mapper f =
     (let f = (if sm_InputSymbolsAction mapper = MAP_CLEAR_SYMBOLS then SetInputSymbols None f else f);
          f = (if sm_OutputSymbolsAction mapper = MAP_CLEAR_SYMBOLS then SetOutputSymbols None f else f)
      in case start f of
           None \<Rightarrow> f
         | Some _ \<Rightarrow>
            (let props = Properties f kFstProperties;
                 f = SetStart (sm_Start mapper f) f;
                 f = fold (state_map_step W mapper) [0 ..< NumStates f] f
             in SetPropertiesMask (sm_Properties mapper props) kFstProperties f))"

definition state_map_step_to ::
  "('v, 'z) weight_ops_scheme \<Rightarrow> ('w, 'v) state_mapper \<Rightarrow> 'w vfst \<Rightarrow> nat \<Rightarrow> 'v vfst \<Rightarrow> 'v vfst" where
  "state_map_step_to V mapper ifst state ofst =
     SetFinal V state (sm_Final mapper ifst state) (fold (AddArc V state) (sm_arcs mapper ifst state) ofst)"

definition StateMapTo ::
  "('v, 'z) weight_ops_scheme \<Rightarrow> ('w, 'v) state_mapper \<Rightarrow> 'w vfst \<Rightarrow> bool \<Rightarrow> 'v vfst \<Rightarrow> 'v vfst" where
  "StateMapTo V mapper ifst unique ofst =
     (let ofst = DeleteAllStates unique ofst;
          ofst = (case sm_InputSymbolsAction mapper of
                    MAP_COPY_SYMBOLS \<Rightarrow> SetInputSymbols (isymbols ifst) ofst
                  | MAP_CLEAR_SYMBOLS \<Rightarrow> SetInputSymbols None ofst
                  | MAP_NOOP_SYMBOLS \<Rightarrow> ofst);
          ofst = (case sm_OutputSymbolsAction mapper of
                    MAP_COPY_SYMBOLS \<Rightarrow> SetOutputSymbols (osymbols ifst) ofst
                  | MAP_CLEAR_SYMBOLS \<Rightarrow> SetOutputSymbols None ofst
                  | MAP_NOOP_SYMBOLS \<Rightarrow> ofst);
          iprops = Properties ifst kCopyProperties
      in case start ifst of
           None \<Rightarrow> if has iprops kError then SetPropertiesMask kError kError ofst else ofst
         | Some _ \<Rightarrow>
            (let ofst = fold (\<lambda>_. AddState V) [0 ..< NumStates ifst] ofst;
                 ofst = SetStart (sm_Start mapper ifst) ofst;
                 ofst = fold (state_map_step_to V mapper ifst) [0 ..< NumStates ifst] ofst;
                 oprops = Properties ofst kFstProperties
             in SetPropertiesMask (sm_Properties mapper iprops OR oprops) kFstProperties ofst))"

section \<open>Utility mappers\<close>

definition IdentityStateMapper :: "('w, 'w) state_mapper" where
  "IdentityStateMapper =
     \<lparr>sm_Start = start, sm_Final = Final, sm_arcs = Arcs, sm_InputSymbolsAction = MAP_COPY_SYMBOLS,
      sm_OutputSymbolsAction = MAP_COPY_SYMBOLS, sm_Properties = \<lambda>props. props\<rparr>"

text \<open>A mapper that keeps start state and final weights, and computes the new arcs from the old ones.\<close>

definition rearranging :: "('w arc list \<Rightarrow> 'w arc list) \<Rightarrow> (props \<Rightarrow> props) \<Rightarrow> ('w, 'w) state_mapper" where
  "rearranging \<tau> p =
     \<lparr>sm_Start = start, sm_Final = Final, sm_arcs = \<lambda>f s. \<tau> (Arcs f s), sm_InputSymbolsAction = MAP_COPY_SYMBOLS,
      sm_OutputSymbolsAction = MAP_COPY_SYMBOLS, sm_Properties = p\<rparr>"

text \<open>The tuple that \<open>Compare\<close> of the mappers below compares.\<close>

definition arc_key :: "'w arc \<Rightarrow> int \<times> int \<times> nat" where
  "arc_key x = (ilabel x, olabel x, nextstate x)"

text \<open>The loop of \<open>ArcSumMapper::SetState\<close>; \<open>out\<close> is the part of \<open>arcs_\<close> before \<open>narcs\<close>.\<close>

definition arc_sum_step :: "('w, 'z) weight_ops_scheme \<Rightarrow> 'w arc \<Rightarrow> 'w arc list \<Rightarrow> 'w arc list" where
  "arc_sum_step W arc out =
     (if out \<noteq> [] \<and> arc_key arc = arc_key (last out)
      then butlast out @ [Arc (ilabel (last out)) (olabel (last out)) (Plus W (weight (last out)) (weight arc)) (nextstate (last out))]
      else out @ [arc])"

type_synonym 'w arc_sorter = "('w arc \<Rightarrow> int \<times> int \<times> nat) \<Rightarrow> 'w arc list \<Rightarrow> 'w arc list"

definition arc_sum_arcs :: "('w, 'z) weight_ops_scheme \<Rightarrow> 'w arc_sorter \<Rightarrow> 'w arc list \<Rightarrow> 'w arc list" where
  "arc_sum_arcs W sorter as = fold (arc_sum_step W) (sorter arc_key as) []"

definition ArcSumMapper :: "('w, 'z) weight_ops_scheme \<Rightarrow> 'w arc_sorter \<Rightarrow> ('w, 'w) state_mapper" where
  "ArcSumMapper W sorter =
     rearranging (arc_sum_arcs W sorter)
       (\<lambda>props. props AND kArcSortProperties AND kDeleteArcsProperties AND kWeightInvariantProperties)"

text \<open>\<open>std::unique\<close>: of a run of elements that are equal to its first one, the first one stays.\<close>

fun std_unique :: "('a \<Rightarrow> 'a \<Rightarrow> bool) \<Rightarrow> 'a list \<Rightarrow> 'a list" where
  "std_unique eq (x # y # xs) = (if eq x y then std_unique eq (x # xs) else x # std_unique eq (y # xs))"
| "std_unique eq xs = xs"

definition arc_equal :: "('w, 'z) weight_ops_scheme \<Rightarrow> 'w arc \<Rightarrow> 'w arc \<Rightarrow> bool" where
  "arc_equal W x y \<longleftrightarrow> arc_key x = arc_key y \<and> Weq W (weight x) (weight y)"

definition arc_unique_arcs :: "('w, 'z) weight_ops_scheme \<Rightarrow> 'w arc_sorter \<Rightarrow> 'w arc list \<Rightarrow> 'w arc list" where
  "arc_unique_arcs W sorter as = std_unique (arc_equal W) (sorter arc_key as)"

definition ArcUniqueMapper :: "('w, 'z) weight_ops_scheme \<Rightarrow> 'w arc_sorter \<Rightarrow> ('w, 'w) state_mapper" where
  "ArcUniqueMapper W sorter =
     rearranging (arc_unique_arcs W sorter) (\<lambda>props. props AND kArcSortProperties AND kDeleteArcsProperties)"

section \<open>ArcSort\<close>

text \<open>A comparison class: the key of its \<open>operator()\<close>, a pair of labels, and its \<open>Properties\<close>.\<close>

record 'w arc_compare =
  cmp_key :: "'w arc \<Rightarrow> int \<times> int"
  cmp_Properties :: "props \<Rightarrow> props"

definition ILabelCompare :: "'w arc_compare" where
  "ILabelCompare =
     \<lparr>cmp_key = \<lambda>a. (ilabel a, olabel a),
      cmp_Properties = \<lambda>props. (props AND kArcSortProperties) OR kILabelSorted OR
        (if has props kAcceptor then kOLabelSorted else 0)\<rparr>"

definition OLabelCompare :: "'w arc_compare" where
  "OLabelCompare =
     \<lparr>cmp_key = \<lambda>a. (olabel a, ilabel a),
      cmp_Properties = \<lambda>props. (props AND kArcSortProperties) OR kOLabelSorted OR
        (if has props kAcceptor then kILabelSorted else 0)\<rparr>"

text \<open>\<open>ArcSortMapper\<close>; \<open>std::stable_sort\<close> is \<open>sort_key\<close>, which is stable.\<close>

definition ArcSortMapper :: "'w arc_compare \<Rightarrow> ('w, 'w) state_mapper" where
  "ArcSortMapper cmp = rearranging (sort_key (cmp_key cmp)) (cmp_Properties cmp)"

definition ArcSort :: "('w, 'z) weight_ops_scheme \<Rightarrow> 'w arc_compare \<Rightarrow> 'w vfst \<Rightarrow> 'w vfst" where
  "ArcSort W cmp f = StateMap W (ArcSortMapper cmp) f"

end
