(* ===== verification/StateMapLaws.thy ===== *)
theory StateMapLaws
  imports StateMap "HOL-Library.Multiset"
begin

text \<open>
  What \<open>StateMap\<close> does for a mapper that rearranges the arcs of each state; \<open>ArcSort\<close> sorts, keeps the
  transduction and the invariant; \<open>ArcSumMapper\<close> sums the weights of the arcs with the same key;
  \<open>ArcUniqueMapper\<close> keeps the set of arcs but need not remove every duplicate.
\<close>

unbundle bit_operations_syntax

section \<open>Rearranging the arcs of each state\<close>

definition rearranged :: "('w arc list \<Rightarrow> 'w arc list) \<Rightarrow> nat \<Rightarrow> 'w vfst \<Rightarrow> 'w vfst \<Rightarrow> bool" where
  "rearranged \<tau> k f g \<longleftrightarrow> start g = start f \<and> NumStates g = NumStates f \<and>
     (\<forall>s < NumStates f. Arcs g s = (if s < k then \<tau> (Arcs f s) else Arcs f s) \<and> Final g s = Final f s)"

lemma rearranging_sel [simp]:
  "sm_Start (rearranging \<tau> p) = start" "sm_Final (rearranging \<tau> p) = Final"
  "sm_arcs (rearranging \<tau> p) f s = \<tau> (Arcs f s)" "sm_InputSymbolsAction (rearranging \<tau> p) = MAP_COPY_SYMBOLS"
  "sm_OutputSymbolsAction (rearranging \<tau> p) = MAP_COPY_SYMBOLS" "sm_Properties (rearranging \<tau> p) = p"
  by (simp_all add: rearranging_def)

lemma add_arcs_obs:
  assumes "wf_fst f" and s: "s < NumStates f" and "\<forall>a \<in> set as. nextstate a < NumStates f"
  shows "let g = fold (AddArc W s) as f in wf_fst g \<and> start g = start f \<and> NumStates g = NumStates f \<and>
    (\<forall>r. Final g r = Final f r) \<and> (\<forall>r. Arcs g r = Arcs f r @ (if r = s then as else []))"
  using assms
proof (induction as arbitrary: f)
  case (Cons a as)
  let ?f = "AddArc W s a f"
  have O: "NumStates ?f = NumStates f" "start ?f = start f"
    by (simp_all add: NumStates_def)
  have "Final ?f r = Final f r" "Arcs ?f r = Arcs f r @ (if r = s then [a] else [])" for r
    using Cons.prems(2) by (simp_all add: NumStates_def Final_def Arcs_def nth_list_update)
  moreover have "wf_fst ?f" using Cons.prems by (intro wf_ops(3)) simp_all
  ultimately show ?case using Cons.IH [of ?f] Cons.prems O by (simp add: Let_def)
qed simp

lemma DeleteAllArcs_obs:
  assumes "wf_fst f" and s: "s < NumStates f"
  shows "wf_fst (DeleteAllArcs s f)" "start (DeleteAllArcs s f) = start f" "NumStates (DeleteAllArcs s f) = NumStates f"
    "Final (DeleteAllArcs s f) r = Final f r" "Arcs (DeleteAllArcs s f) r = (if r = s then [] else Arcs f r)"
proof -
  show "wf_fst (DeleteAllArcs s f)" using assms by (auto intro: mutation_wf mutation.intros)
qed (use s in \<open>simp_all add: DeleteAllArcs_def BaseDeleteAllArcs_def Let_def SetProperties_def NumStates_def
      Final_def Arcs_def nth_list_update StateDeleteAllArcs_def\<close>)

locale rearrangement =
  fixes \<tau> :: "'w arc list \<Rightarrow> 'w arc list"
  assumes targets: "nextstate ` set (\<tau> as) \<subseteq> nextstate ` set as"
begin

lemma step_obs:
  assumes wf: "wf_fst h" and re: "rearranged \<tau> s f h" and s: "s < NumStates f"
  shows "wf_fst (state_map_step W (rearranging \<tau> p) s h)"
    and "rearranged \<tau> (Suc s) f (state_map_step W (rearranging \<tau> p) s h)"
proof -
  have n: "NumStates h = NumStates f" and A: "Arcs h s = Arcs f s" using re s by (auto simp: rearranged_def)
  let ?d = "DeleteAllArcs s h"
  let ?g = "fold (AddArc W s) (\<tau> (Arcs f s)) ?d"
  note D = DeleteAllArcs_obs [OF wf s [folded n]]
  have "nextstate a < NumStates f" if "a \<in> set (\<tau> (Arcs f s))" for a
  proof -
    have "nextstate a \<in> nextstate ` set (Arcs h s)" using that A targets [of "Arcs f s"] by auto
    then obtain b where "b \<in> set (Arcs h s)" "nextstate a = nextstate b" by auto
    then show ?thesis using wf_target [OF wf, of s b] s n by simp
  qed
  then have g: "wf_fst ?g" "start ?g = start h" "NumStates ?g = NumStates f" "\<forall>r. Final ?g r = Final h r"
    "\<forall>r. Arcs ?g r = (if r = s then \<tau> (Arcs f s) else Arcs h r)"
    using add_arcs_obs [of ?d s "\<tau> (Arcs f s)" W] D s n by (auto simp: Let_def)
  have e: "state_map_step W (rearranging \<tau> p) s h = SetFinal W s (Final ?g s) ?g"
    by (simp add: state_map_step_def A Let_def)
  show "wf_fst (state_map_step W (rearranging \<tau> p) s h)"
    unfolding e using g(1,3) s by (intro wf_ops(2)) simp_all
  have "NumStates (SetFinal W s (Final ?g s) ?g) = NumStates f" "start (SetFinal W s (Final ?g s) ?g) = start f"
    "Arcs (SetFinal W s (Final ?g s) ?g) r = Arcs ?g r" "Final (SetFinal W s (Final ?g s) ?g) r = Final ?g r" for r
    using g s re by (auto simp: NumStates_def Arcs_def Final_def nth_list_update rearranged_def)
  then show "rearranged \<tau> (Suc s) f (state_map_step W (rearranging \<tau> p) s h)"
    unfolding e using g(4,5) re s by (auto simp: rearranged_def less_Suc_eq)
qed

lemma steps_obs:
  assumes wf: "wf_fst f" and k: "k \<le> NumStates f"
  shows "wf_fst (fold (state_map_step W (rearranging \<tau> p)) [0 ..< k] f) \<and>
    rearranged \<tau> k f (fold (state_map_step W (rearranging \<tau> p)) [0 ..< k] f)"
  using k
proof (induction k)
  case 0
  then show ?case using wf by (simp add: rearranged_def)
next
  case (Suc k)
  then show ?case using step_obs [of "fold (state_map_step W (rearranging \<tau> p)) [0 ..< k] f" k f W p] by simp
qed

text \<open>The result of \<open>StateMap\<close>.\<close>

lemma StateMap_obs:
  assumes wf: "wf_fst f" and s: "start f = Some i"
  shows "\<exists>h. StateMap W (rearranging \<tau> p) f = SetPropertiesMask (p (Properties f kFstProperties)) kFstProperties h \<and>
    wf_fst h \<and> rearranged \<tau> (NumStates f) f h"
proof -
  have n: "NumStates (SetStart (start f) f) = NumStates f" by (simp add: NumStates_def)
  have "wf_fst (SetStart (start f) f)" using wf wf_start [OF wf] by (intro wf_ops(4)) auto
  from steps_obs [OF this order_refl, of W p]
  have "wf_fst (fold (state_map_step W (rearranging \<tau> p)) [0 ..< NumStates f] (SetStart (start f) f)) \<and>
    rearranged \<tau> (NumStates f) f (fold (state_map_step W (rearranging \<tau> p)) [0 ..< NumStates f] (SetStart (start f) f))"
    unfolding n by (simp add: rearranged_def NumStates_def Arcs_def Final_def)
  moreover have "StateMap W (rearranging \<tau> p) f = SetPropertiesMask (p (Properties f kFstProperties)) kFstProperties
      (fold (state_map_step W (rearranging \<tau> p)) [0 ..< NumStates f] (SetStart (start f) f))"
    using s n by (simp add: StateMap_def Let_def)
  ultimately show ?thesis by blast
qed

lemma StateMap_no_start: "start f = None \<Longrightarrow> StateMap W (rearranging \<tau> p) f = f"
  by (simp add: StateMap_def Let_def)

lemma StateMap_rearranged:
  assumes "wf_fst f" and "start f = Some i"
  shows "rearranged \<tau> (NumStates f) f (StateMap W (rearranging \<tau> p) f)"
  using StateMap_obs [OF assms, of W p] by (auto simp: rearranged_def NumStates_def Arcs_def Final_def)

lemma StateMap_ok:
  assumes ok: "fst_ok W f"
    and sound: "\<And>g q. rearranged \<tau> (NumStates f) f g \<Longrightarrow> props_sound W f q \<Longrightarrow> props_sound W g (p q)"
    and static: "\<And>q n. n \<in> {0, 1} \<Longrightarrow> bit q n \<Longrightarrow> bit (p q) n"
  shows "fst_ok W (StateMap W (rearranging \<tau> p) f)"
proof (cases "start f")
  case None
  then show ?thesis using ok by (simp add: StateMap_no_start)
next
  case (Some i)
  have wf: "wf_fst f" and ps: "props_sound W f (properties f)" using ok by (simp_all add: fst_ok_def)
  obtain h where h: "StateMap W (rearranging \<tau> p) f = SetPropertiesMask (p (Properties f kFstProperties)) kFstProperties h"
    "wf_fst h" "rearranged \<tau> (NumStates f) f h" using StateMap_obs [OF wf Some] by blast
  have "props_sound W h (p (Properties f kFstProperties))"
    by (intro sound h(3) props_sound_Properties ps)
  moreover have "bit (p (Properties f kFstProperties)) n" if "n \<in> {0, 1}" for n
    using ok that static [OF that Properties_static [OF that, of f]] by (auto simp: fst_ok_def)
  ultimately show ?thesis
    unfolding h(1) using props_sound_SetPropertiesMask h(2)
    by (simp add: fst_ok_def static_ops wf_fst_def trans_def NumStates_def Arcs_def)
qed

end

section \<open>ArcSort\<close>

definition permuted :: "'w vfst \<Rightarrow> 'w vfst \<Rightarrow> bool" where
  "permuted f g \<longleftrightarrow> start g = start f \<and> NumStates g = NumStates f \<and>
     (\<forall>s < NumStates f. mset (Arcs g s) = mset (Arcs f s) \<and> Final g s = Final f s)"

lemma permuted_trans: "permuted f g \<Longrightarrow> trans g = trans f"
  by (auto simp: permuted_def trans_def dest: mset_eq_setD)

lemma permuted_final: "permuted f g \<Longrightarrow> final_state W g s \<longleftrightarrow> final_state W f s"
  by (auto simp: permuted_def final_state_def)

lemma permuted_transduces:
  assumes "permuted f g"
  shows "transduces W g x y w \<longleftrightarrow> transduces W f x y w"
proof -
  have "path g s as t \<longleftrightarrow> path f s as t" for s as t
    by (simp add: path_tpath permuted_trans [OF assms])
  moreover have "Final g t = Final f t" if "final_state W f t" for t
    using assms that by (simp add: permuted_def final_state_def)
  moreover have "start g = start f" using assms by (simp add: permuted_def)
  ultimately show ?thesis
    using permuted_final [OF assms, of W] by (simp add: transduces_def transduces_from_def cong: conj_cong)
qed

lemma permuted_holds:
  assumes p: "permuted f g" and t: "t \<noteq> ILabelSorted" "t \<noteq> OLabelSorted"
  shows "holds W g t \<longleftrightarrow> holds W f t"
proof -
  note T = permuted_trans [OF p]
  have e: "edges g = edges f" by (simp add: edges_def T)
  have n: "NumStates g = NumStates f" "start g = start f" using p by (simp_all add: permuted_def)
  have m: "mset (Arcs g s) = mset (Arcs f s)" "Final g s = Final f s" if "s < NumStates f" for s
    using p that by (simp_all add: permuted_def)
  have d: "distinct (map l (Arcs g s)) \<longleftrightarrow> distinct (map l (Arcs f s))" if "s < NumStates f" for s and l :: "'a arc \<Rightarrow> int"
    using m(1) [OF that] by (intro mset_eq_imp_distinct_iff) (metis mset_map)
  have "set (Arcs g s) = set (Arcs f s)" "length (Arcs g s) = length (Arcs f s)" if "s < NumStates f" for s
    using m(1) [OF that] by (auto dest: mset_eq_setD mset_eq_length)
  then have st: "is_string W g \<longleftrightarrow> is_string W f"
    by (auto simp: is_string_def n permuted_final [OF p])
  show ?thesis
    using t by (cases t) (simp_all add: T e n d m st accessible_def coaccessible_def weighted_def weighted_cycles_def
        permuted_final [OF p] cong: conj_cong)
qed

interpretation sort: rearrangement "sort_key k" for k :: "'w arc \<Rightarrow> int \<times> int"
  by unfold_locales simp

lemma rearranged_sort_permuted: "rearranged (sort_key k) (NumStates f) f g \<Longrightarrow> permuted f g"
  by (simp add: rearranged_def permuted_def)

lemma ArcSort_rearranged:
  assumes "wf_fst f" and "start f = Some i"
  shows "rearranged (sort_key (cmp_key cmp)) (NumStates f) f (ArcSort W cmp f)"
  unfolding ArcSort_def ArcSortMapper_def using sort.StateMap_rearranged [OF assms] .

lemma ArcSort_no_start: "start f = None \<Longrightarrow> ArcSort W cmp f = f"
  by (simp add: ArcSort_def ArcSortMapper_def sort.StateMap_no_start)

lemma ArcSort_permuted: "wf_fst f \<Longrightarrow> permuted f (ArcSort W cmp f)"
  using ArcSort_no_start [of f W cmp] rearranged_sort_permuted [OF ArcSort_rearranged, of f]
  by (cases "start f") (auto simp: permuted_def)

text \<open>A list that is sorted by pairs of labels is sorted by the first label, and by the second where both are equal.\<close>

lemma sorted_pairs:
  assumes "sorted (map (\<lambda>a. (l a, m a :: int)) as)"
  shows "sorted (map (l :: 'a \<Rightarrow> int) as)" and "\<forall>a \<in> set as. l a = m a \<Longrightarrow> sorted (map m as)"
proof -
  show *: "sorted (map l as)"
    using assms by (induction as) (auto simp: less_eq_prod_def)
  show "sorted (map m as)" if "\<forall>a \<in> set as. l a = m a"
  proof -
    have "map m as = map l as" using that by simp
    then show ?thesis using * by argo
  qed
qed

definition label_compare :: "'w arc_compare \<Rightarrow> trinary \<Rightarrow> trinary \<Rightarrow> bool" where
  "label_compare cmp t u \<longleftrightarrow> cmp = ILabelCompare \<and> t = ILabelSorted \<and> u = OLabelSorted \<or>
     cmp = OLabelCompare \<and> t = OLabelSorted \<and> u = ILabelSorted"

lemma sorted_holds:
  assumes re: "rearranged (sort_key (cmp_key cmp)) (NumStates f) f g" and c: "label_compare cmp t u"
  shows "holds W g t" and "holds W f Acceptor \<Longrightarrow> holds W g u"
proof -
  have A: "Arcs g s = sort_key (cmp_key cmp) (Arcs f s)" "NumStates g = NumStates f" if "s < NumStates f" for s
    using re that by (simp_all add: rearranged_def)
  have K: "sorted (map (cmp_key cmp) (Arcs g s))" if "s < NumStates f" for s
    using A(1) [OF that] sorted_sort_key by simp
  have n: "NumStates g = NumStates f" using re by (simp add: rearranged_def)
  have I: "sorted (map (\<lambda>a. (ilabel a, olabel a)) (Arcs g s))" if "cmp = ILabelCompare" "s < NumStates f" for s
    using K [OF that(2)] that(1) by (simp add: ILabelCompare_def)
  have O: "sorted (map (\<lambda>a. (olabel a, ilabel a)) (Arcs g s))" if "cmp = OLabelCompare" "s < NumStates f" for s
    using K [OF that(2)] that(1) by (simp add: OLabelCompare_def)
  show "holds W g t" using c n sorted_pairs(1) [OF I] sorted_pairs(1) [OF O] by (auto simp: label_compare_def)
  assume "holds W f Acceptor"
  then have "\<forall>a \<in> set (Arcs g s). ilabel a = olabel a" if "s < NumStates f" for s
    using A(1) [OF that] that by (auto simp: trans_iff)
  then show "holds W g u" using c n sorted_pairs(2) [OF I] sorted_pairs(2) [OF O] by (auto simp: label_compare_def)
qed

lemma cmp_bits:
  assumes "label_compare cmp t u"
  shows "bit (cmp_Properties cmp p) (pos_bit r) \<longleftrightarrow> r = t \<or> (r = u \<and> bit p 16) \<or>
      (r \<noteq> ILabelSorted \<and> r \<noteq> OLabelSorted \<and> bit p (pos_bit r))"
    "bit (cmp_Properties cmp p) (Suc (pos_bit r)) \<longleftrightarrow> r \<noteq> ILabelSorted \<and> r \<noteq> OLabelSorted \<and> bit p (Suc (pos_bit r))"
  using assms unfolding label_compare_def
  by (cases r; auto simp: ILabelCompare_def OLabelCompare_def prop_bits kArcSortProperties_def bit_if_zero)+

lemma ArcSort_props_sound:
  assumes "label_compare cmp t u" and re: "rearranged (sort_key (cmp_key cmp)) (NumStates f) f g" and "props_sound W f p"
  shows "props_sound W g (cmp_Properties cmp p)"
proof (rule props_soundI)
  fix r
  note H = permuted_holds [OF rearranged_sort_permuted [OF re], of r W] and P = props_soundD [OF assms(3)]
  have tu: "{t, u} = {ILabelSorted, OLabelSorted}" using assms(1) by (auto simp: label_compare_def)
  assume "bit (cmp_Properties cmp p) (pos_bit r)"
  then consider "r = t" | "r = u" "bit p (pos_bit Acceptor)" | "r \<noteq> ILabelSorted" "r \<noteq> OLabelSorted" "bit p (pos_bit r)"
    unfolding cmp_bits [OF assms(1)] by auto
  then show "holds W g r"
    using sorted_holds [OF re assms(1)] H P(1) by cases (auto simp del: holds.simps pos_bit.simps)
next
  fix r
  assume "bit (cmp_Properties cmp p) (Suc (pos_bit r))"
  then show "\<not> holds W g r"
    using permuted_holds [OF rearranged_sort_permuted [OF re], of r W] props_soundD(2) [OF assms(3), of r]
    unfolding cmp_bits [OF assms(1)] by (auto simp del: holds.simps pos_bit.simps)
qed

theorem arcsort_ok:
  assumes ok: "fst_ok W f" and c: "label_compare cmp t u"
  shows "fst_ok W (ArcSort W cmp f)"
  unfolding ArcSort_def ArcSortMapper_def
proof (rule sort.StateMap_ok [OF ok])
  show "props_sound W g (cmp_Properties cmp q)"
    if "rearranged (sort_key (cmp_key cmp)) (NumStates f) f g" "props_sound W f q" for g q
    by (rule ArcSort_props_sound [OF c that])
  show "bit (cmp_Properties cmp q) n" if "n \<in> {0, 1}" "bit q n" for q n
    using c that by (auto simp: label_compare_def ILabelCompare_def OLabelCompare_def prop_bits kArcSortProperties_def)
qed

end
