(* ===== verification/ArcSum.thy ===== *)
theory ArcSum
  imports StateMapLaws
begin

text \<open>
  The mappers \<open>ArcSumMapper\<close> and \<open>ArcUniqueMapper\<close> of src/openfst/lib/state-map.h, over any
  \<open>std::sort\<close>: what the arcs of the result are, and that the stored properties are true.
\<close>

unbundle bit_operations_syntax

section \<open>What std::sort promises\<close>

locale sorting =
  fixes sorter :: "'w arc_sorter"
  assumes perm: "mset (sorter k as) = mset as" and ordered: "sorted (map k (sorter k as))"

interpretation stable: sorting sort_key
  by unfold_locales simp_all

section \<open>Rearrangements that keep the keys of the arcs\<close>

locale key_rearrangement =
  fixes \<tau> :: "'w arc list \<Rightarrow> 'w arc list"
  assumes keys: "arc_key ` set (\<tau> as) = arc_key ` set as"
    and idet: "distinct (map ilabel as) \<Longrightarrow> distinct (map ilabel (\<tau> as))"
    and odet: "distinct (map olabel as) \<Longrightarrow> distinct (map olabel (\<tau> as))"
begin

lemma key_mem:
  assumes "a \<in> set (\<tau> as)"
  obtains b where "b \<in> set as" "ilabel a = ilabel b" "olabel a = olabel b" "nextstate a = nextstate b"
proof -
  have "arc_key a \<in> arc_key ` set as" using assms keys by blast
  then show thesis using that by (auto simp: arc_key_def)
qed

lemma key_mem':
  assumes "b \<in> set as"
  obtains a where "a \<in> set (\<tau> as)" "ilabel a = ilabel b" "olabel a = olabel b" "nextstate a = nextstate b"
proof -
  have "arc_key b \<in> arc_key ` set (\<tau> as)" using assms keys by blast
  then obtain a where "a \<in> set (\<tau> as)" "arc_key a = arc_key b" by (metis imageE)
  then show thesis using that by (auto simp: arc_key_def)
qed

end

sublocale key_rearrangement \<subseteq> rearrangement
proof
  show "nextstate ` set (\<tau> as) \<subseteq> nextstate ` set as" for as
    by (auto elim!: key_mem)
qed

context key_rearrangement
begin

lemma key_all:
  assumes "rearranged \<tau> (NumStates f) f g"
  shows "(\<forall>(s, a) \<in> trans g. P s (ilabel a) (olabel a) (nextstate a)) \<longleftrightarrow>
    (\<forall>(s, a) \<in> trans f. P s (ilabel a) (olabel a) (nextstate a))"
proof -
  have "(\<forall>a \<in> set (\<tau> as). Q (ilabel a) (olabel a) (nextstate a)) \<longleftrightarrow>
      (\<forall>a \<in> set as. Q (ilabel a) (olabel a) (nextstate a))" for as Q
  proof -
    have "(\<forall>a \<in> set bs. Q (ilabel a) (olabel a) (nextstate a)) \<longleftrightarrow> (\<forall>(i, l, n) \<in> arc_key ` set bs. Q i l n)" for bs :: "'w arc list"
      by (auto simp: arc_key_def)
    note e = this
    show ?thesis unfolding e keys ..
  qed
  moreover have "NumStates g = NumStates f" "\<And>s. s < NumStates f \<Longrightarrow> Arcs g s = \<tau> (Arcs f s)"
    using assms by (simp_all add: rearranged_def)
  ultimately have "(\<forall>s < NumStates g. \<forall>a \<in> set (Arcs g s). P s (ilabel a) (olabel a) (nextstate a)) \<longleftrightarrow>
      (\<forall>s < NumStates f. \<forall>a \<in> set (Arcs f s). P s (ilabel a) (olabel a) (nextstate a))" by simp
  then show ?thesis by (fastforce simp: trans_iff)
qed

lemma key_edges:
  assumes "rearranged \<tau> (NumStates f) f g"
  shows "edges g = edges f"
proof -
  have "(s, t) \<in> edges h \<longleftrightarrow> \<not> (\<forall>(r, a) \<in> trans h. \<not> (r = s \<and> nextstate a = t))" for s t and h :: "'w vfst"
    by (auto simp: edges_iff)
  note e = this
  have "(s, t) \<in> edges g \<longleftrightarrow> (s, t) \<in> edges f" for s t
    unfolding e using key_all [OF assms, of "\<lambda>r i l n. \<not> (r = s \<and> n = t)"] by simp
  then show ?thesis by auto
qed

text \<open>The bits that \<open>ArcSumMapper::Properties\<close> keeps.\<close>

lemma key_positive:
  assumes re: "rearranged \<tau> (NumStates f) f g" and t: "t \<in> {Acceptor, IDeterministic, ODeterministic, TopSorted}"
    and h: "holds W f t"
  shows "holds W g t"
proof -
  have n: "NumStates g = NumStates f" "\<And>s. s < NumStates f \<Longrightarrow> Arcs g s = \<tau> (Arcs f s)"
    using re by (simp_all add: rearranged_def)
  show ?thesis
    using t h n idet odet key_all [OF re, of "\<lambda>s i l n. i = l"] key_all [OF re, of "\<lambda>s i l n. s < n"] by auto
qed

lemma key_negative:
  assumes re: "rearranged \<tau> (NumStates f) f g"
    and t: "t \<in> {Epsilons, IEpsilons, OEpsilons, Cyclic, InitialCyclic, Accessible, CoAccessible}"
  shows "holds W g t \<longleftrightarrow> holds W f t"
proof -
  have n: "NumStates g = NumStates f" "start g = start f" using re by (simp_all add: rearranged_def)
  have fs: "final_state W g s \<longleftrightarrow> final_state W f s" for s using re by (auto simp: final_state_def rearranged_def)
  have ex: "(\<exists>(s, a) \<in> trans g. P (ilabel a) (olabel a)) \<longleftrightarrow> (\<exists>(s, a) \<in> trans f. P (ilabel a) (olabel a))" for P
    using key_all [OF re, of "\<lambda>s i l n. \<not> P i l"] by auto
  show ?thesis
    using t ex [of "\<lambda>i l. i = 0 \<and> l = 0"] ex [of "\<lambda>i l. i = 0"] ex [of "\<lambda>i l. l = 0"]
    by (elim insertE) (simp_all add: accessible_def coaccessible_def key_edges [OF re] n fs)
qed

lemma key_sound:
  assumes re: "rearranged \<tau> (NumStates f) f g" and p: "props_sound W f p"
  shows "props_sound W g (p AND kArcSortProperties AND kDeleteArcsProperties AND kWeightInvariantProperties)"
proof (rule props_soundI)
  fix t
  note [simp del] = holds.simps
  note B = prop_bits kArcSortProperties_def kDeleteArcsProperties_def kWeightInvariantProperties_def
  show "holds W g t"
    if "bit (p AND kArcSortProperties AND kDeleteArcsProperties AND kWeightInvariantProperties) (pos_bit t)"
    using that props_soundD(1) [OF p, of t] key_positive [OF re, of t W] by (cases t) (simp_all add: B)
  show "\<not> holds W g t"
    if "bit (p AND kArcSortProperties AND kDeleteArcsProperties AND kWeightInvariantProperties) (Suc (pos_bit t))"
    using that props_soundD(2) [OF p, of t] key_negative [OF re, of t W] by (cases t) (auto simp: B)
qed

end

section \<open>Summing the weights of equal keys\<close>

definition sum_weights :: "('w, 'z) weight_ops_scheme \<Rightarrow> 'w list \<Rightarrow> 'w" where
  "sum_weights W ws = foldl (Plus W) (hd ws) (tl ws)"

definition weights_of :: "(int \<times> int \<times> nat) \<Rightarrow> 'w arc list \<Rightarrow> 'w list" where
  "weights_of k as = map weight (filter (\<lambda>a. arc_key a = k) as)"

lemma sum_weights_snoc: "ws \<noteq> [] \<Longrightarrow> sum_weights W (ws @ [w]) = Plus W (sum_weights W ws) w"
  by (cases ws) (simp_all add: sum_weights_def)

lemma weights_of_snoc [simp]: "weights_of k (as @ [a]) = weights_of k as @ (if arc_key a = k then [weight a] else [])"
  by (simp add: weights_of_def)

lemma weights_of_empty: "weights_of k as = [] \<longleftrightarrow> k \<notin> arc_key ` set as"
  by (auto simp: weights_of_def filter_empty_conv)

lemma arc_key_Arc [simp]: "arc_key (Arc i o' w n) = (i, o', n)"
  by (simp add: arc_key_def)

definition summed :: "('w, 'z) weight_ops_scheme \<Rightarrow> 'w arc list \<Rightarrow> 'w arc list \<Rightarrow> bool" where
  "summed W as rs \<longleftrightarrow> sorted_wrt (<) (map arc_key rs) \<and> arc_key ` set rs = arc_key ` set as \<and>
     (\<forall>r \<in> set rs. weight r = sum_weights W (weights_of (arc_key r) as))"

lemma sorted_wrt_last:
  "sorted_wrt (<) (xs :: 'a :: linorder list) \<Longrightarrow> x \<in> set xs \<Longrightarrow> x \<le> last xs"
  by (induction xs) (auto simp: less_imp_le split: if_splits)

lemma summed_step:
  assumes s: "summed W as rs" and le: "\<forall>a \<in> set as. arc_key a \<le> arc_key b"
  shows "summed W (as @ [b]) (arc_sum_step W b rs)"
proof (cases "rs \<noteq> [] \<and> arc_key b = arc_key (last rs)")
  case True
  let ?l = "last rs"
  define r' where "r' = Arc (ilabel ?l) (olabel ?l) (Plus W (weight ?l) (weight b)) (nextstate ?l)"
  have rs: "rs = butlast rs @ [?l]" using True by simp
  have k: "arc_key r' = arc_key b" using True by (simp add: r'_def arc_key_def)
  have e: "arc_sum_step W b rs = butlast rs @ [r']" using True by (simp add: arc_sum_step_def r'_def)
  have ks: "map arc_key (butlast rs @ [r']) = map arc_key rs"
  proof -
    have "map arc_key (butlast rs @ [r']) = map arc_key (butlast rs @ [?l])"
      using k True by (simp only: map_append list.map)
    then show ?thesis by (subst rs)
  qed
  have lt: "arc_key r < arc_key b" if "r \<in> set (butlast rs)" for r
  proof -
    have "sorted_wrt (<) (map arc_key (butlast rs @ [?l]))" using s rs by (simp add: summed_def)
    then show ?thesis using that True unfolding map_append sorted_wrt_append by auto
  qed
  have "weight ?l = sum_weights W (weights_of (arc_key b) as)" "arc_key b \<in> arc_key ` set as"
    using s True by (auto simp: summed_def)
  then have "weight r' = sum_weights W (weights_of (arc_key r') (as @ [b]))"
    using sum_weights_snoc [of "weights_of (arc_key b) as" W "weight b"] weights_of_empty [of "arc_key b" as] k
    by (simp add: r'_def)
  moreover have "weight r = sum_weights W (weights_of (arc_key r) (as @ [b]))" if "r \<in> set (butlast rs)" for r
    using s that lt [OF that] in_set_butlastD [OF that] by (auto simp: summed_def)
  moreover have "arc_key ` set (butlast rs @ [r']) = arc_key ` set (as @ [b])"
  proof -
    have "arc_key ` set (butlast rs @ [r']) = arc_key ` set rs" using arg_cong [OF ks, of set] by simp
    then show ?thesis using s \<open>arc_key b \<in> arc_key ` set as\<close> by (auto simp: summed_def)
  qed
  ultimately show ?thesis unfolding e summed_def ks using s by (auto simp: summed_def)
next
  case False
  have e: "arc_sum_step W b rs = rs @ [b]" using False by (auto simp: arc_sum_step_def)
  have lt: "arc_key r < arc_key b" if "r \<in> set rs" for r
  proof -
    have "arc_key r \<le> arc_key (last rs)"
      using s that sorted_wrt_last [of "map arc_key rs" "arc_key r"] by (cases rs rule: rev_cases) (auto simp: summed_def)
    moreover have "arc_key (last rs) \<in> arc_key ` set as"
      using s that by (metis empty_iff image_eqI last_in_set list.set(1) summed_def)
    then have "arc_key (last rs) \<le> arc_key b" using le by auto
    ultimately show ?thesis using False that by force
  qed
  then have "weights_of (arc_key b) as = []"
    using s weights_of_empty [of "arc_key b" as] by (force simp: summed_def)
  then have "weight b = sum_weights W (weights_of (arc_key b) (as @ [b]))" by (simp add: sum_weights_def)
  moreover have "weight r = sum_weights W (weights_of (arc_key r) (as @ [b]))" if "r \<in> set rs" for r
    using s that lt [OF that] by (auto simp: summed_def)
  moreover have "sorted_wrt (<) (map arc_key rs)" using s by (simp add: summed_def)
  then have "sorted_wrt (<) (map arc_key (rs @ [b]))" using lt by (auto simp: sorted_wrt_append)
  ultimately show ?thesis unfolding e summed_def using s by (auto simp: summed_def)
qed

lemma arc_sum_summed:
  "sorted (map arc_key bs) \<Longrightarrow> summed W bs (fold (arc_sum_step W) bs [])"
proof (induction bs rule: rev_induct)
  case Nil
  then show ?case by (simp add: summed_def)
next
  case (snoc b bs)
  then show ?case using summed_step [of W bs _ b] by (auto simp: sorted_append)
qed

lemma arc_sum_distinct:
  "distinct (map arc_key bs) \<Longrightarrow> fold (arc_sum_step W) bs [] = bs"
proof (induction bs rule: rev_induct)
  case (snoc b bs)
  then have "bs = [] \<or> arc_key b \<noteq> arc_key (last bs)" by (cases bs rule: rev_cases) auto
  then show ?case using snoc by (auto simp: arc_sum_step_def)
qed simp

lemma distinct_keys:
  assumes "distinct (map ilabel as) \<or> distinct (map olabel as)"
  shows "distinct (map arc_key as)"
  using assms by (induction as) (auto simp: arc_key_def)

section \<open>Removing equal neighbours\<close>

lemma std_unique_subset: "set (std_unique eq xs) \<subseteq> set xs"
  by (induction eq xs rule: std_unique.induct) auto

lemma std_unique_keys:
  "(\<And>x y. eq x y \<Longrightarrow> k x = k y) \<Longrightarrow> k ` set (std_unique eq xs) = k ` set xs"
proof (induction eq xs rule: std_unique.induct)
  case (1 eq x y xs)
  then show ?case by (cases "eq x y") (use 1(3) [of x y] in auto)
qed simp_all

lemma std_unique_distinct:
  "(\<And>x y. eq x y \<Longrightarrow> k x = k y) \<Longrightarrow> distinct (map k xs) \<Longrightarrow> std_unique eq xs = xs"
proof (induction eq xs rule: std_unique.induct)
  case (1 eq x y xs)
  then have "\<not> eq x y" using 1(3) [of x y] by auto
  then show ?case using 1 by auto
qed simp_all

text \<open>No two neighbours of the result are equal.\<close>

lemma std_unique_neighbours:
  "Suc i < length (std_unique eq xs) \<Longrightarrow> \<not> eq (std_unique eq xs ! i) (std_unique eq xs ! Suc i)"
proof (induction eq xs arbitrary: i rule: std_unique.induct)
  case (1 eq x y xs)
  have hd: "std_unique eq (z # zs) ! 0 = z" for z zs
    by (induction zs) auto
  show ?case
  proof (cases "eq x y")
    case True
    then show ?thesis using 1(1) [OF True, of i] 1(3) by simp
  next
    case False
    then show ?thesis using 1(2) [OF False] 1(3) hd [of y xs] by (cases i) simp_all
  qed
qed simp_all

section \<open>The two mappers\<close>

context sorting
begin

lemma sorter_set [simp]: "set (sorter k as) = set as"
  by (rule mset_eq_setD [OF perm])

lemma sorter_distinct: "distinct (map l (sorter k as)) \<longleftrightarrow> distinct (map l as)"
  by (rule mset_eq_imp_distinct_iff) (simp add: perm mset_map)

lemma arc_sum_summed_sorter: "summed W (sorter arc_key as) (arc_sum_arcs W sorter as)"
  unfolding arc_sum_arcs_def by (rule arc_sum_summed [OF ordered])

lemma arc_sum_keep:
  assumes "distinct (map ilabel as) \<or> distinct (map olabel as)"
  shows "arc_sum_arcs W sorter as = sorter arc_key as" "arc_unique_arcs W sorter as = sorter arc_key as"
proof -
  have d: "distinct (map arc_key (sorter arc_key as))"
    using distinct_keys [OF assms] by (simp add: sorter_distinct)
  show "arc_sum_arcs W sorter as = sorter arc_key as"
    unfolding arc_sum_arcs_def by (rule arc_sum_distinct [OF d])
  show "arc_unique_arcs W sorter as = sorter arc_key as"
    unfolding arc_unique_arcs_def by (rule std_unique_distinct [OF _ d]) (simp add: arc_equal_def)
qed

lemma key_rearrangement_sum: "key_rearrangement (arc_sum_arcs W sorter)"
proof
  show "arc_key ` set (arc_sum_arcs W sorter as) = arc_key ` set as" for as
    using arc_sum_summed_sorter [of W as] by (simp add: summed_def)
qed (simp_all add: arc_sum_keep sorter_distinct)

lemma key_rearrangement_unique: "key_rearrangement (arc_unique_arcs W sorter)"
proof
  show "arc_key ` set (arc_unique_arcs W sorter as) = arc_key ` set as" for as
    unfolding arc_unique_arcs_def by (subst std_unique_keys) (simp_all add: arc_equal_def)
qed (simp_all add: arc_sum_keep sorter_distinct)

end

sublocale sorting \<subseteq> sum_arcs: key_rearrangement "arc_sum_arcs W sorter" for W :: "('w, 'z) weight_ops_scheme"
  by (rule key_rearrangement_sum)

sublocale sorting \<subseteq> unique_arcs: key_rearrangement "arc_unique_arcs W sorter" for W :: "('w, 'z) weight_ops_scheme"
  by (rule key_rearrangement_unique)

context sorting
begin

lemma unique_subset: "set (arc_unique_arcs W sorter as) \<subseteq> set as"
  using std_unique_subset [of "arc_equal W" "sorter arc_key as"] by (simp add: arc_unique_arcs_def)

lemma unique_sound:
  assumes re: "rearranged (arc_unique_arcs W sorter) (NumStates f) f g" and p: "props_sound W f p"
  shows "props_sound W g (p AND kArcSortProperties AND kDeleteArcsProperties)"
proof -
  note B = prop_bits kArcSortProperties_def kDeleteArcsProperties_def kWeightInvariantProperties_def
  have sub: "trans g \<subseteq> trans f" using re unique_subset by (force simp: rearranged_def trans_iff)
  have "NumStates g = NumStates f" "\<And>s. s < NumStates f \<Longrightarrow> Final g s = Final f s"
    using re by (simp_all add: rearranged_def)
  then have w: "weighted W g \<Longrightarrow> weighted W f" "weighted_cycles W g \<Longrightarrow> weighted_cycles W f"
    using sub unique_arcs.key_edges [OF re] unfolding weighted_def weighted_cycles_def by auto
  let ?q = "p AND kArcSortProperties AND kDeleteArcsProperties"
  note K = unique_arcs.key_sound [OF re p]
  show ?thesis
  proof (rule props_soundI)
    fix t
    show "holds W g t" if "bit ?q (pos_bit t)"
      using that props_soundD(1) [OF K, of t] by (cases t) (simp_all add: B)
    show "\<not> holds W g t" if "bit ?q (Suc (pos_bit t))"
      using that props_soundD(2) [OF K, of t] props_soundD(2) [OF p, of t] w by (cases t) (auto simp: B)
  qed
qed

theorem sum_unique_ok:
  assumes ok: "fst_ok W f"
  shows "fst_ok W (StateMap W (ArcSumMapper W sorter) f)" "fst_ok W (StateMap W (ArcUniqueMapper W sorter) f)"
proof -
  note B = prop_bits kArcSortProperties_def kDeleteArcsProperties_def kWeightInvariantProperties_def
  show "fst_ok W (StateMap W (ArcSumMapper W sorter) f)"
    unfolding ArcSumMapper_def
    by (rule sum_arcs.StateMap_ok [OF ok sum_arcs.key_sound]) (assumption | auto simp: B)+
  show "fst_ok W (StateMap W (ArcUniqueMapper W sorter) f)"
    unfolding ArcUniqueMapper_def
    by (rule unique_arcs.StateMap_ok [OF ok unique_sound]) (assumption | auto simp: B)+
qed

text \<open>The arcs of a state after \<open>ArcSumMapper\<close>.\<close>

theorem arc_sum_spec:
  assumes "wf_fst f" and "start f = Some i" and "s < NumStates f"
  shows "\<exists>perm. mset perm = mset (Arcs f s) \<and> summed W perm (Arcs (StateMap W (ArcSumMapper W sorter) f) s)"
proof -
  have "rearranged (arc_sum_arcs W sorter) (NumStates f) f (StateMap W (ArcSumMapper W sorter) f)"
    unfolding ArcSumMapper_def by (rule sum_arcs.StateMap_rearranged [OF assms(1,2)])
  then have "Arcs (StateMap W (ArcSumMapper W sorter) f) s = arc_sum_arcs W sorter (Arcs f s)"
    using assms(3) by (simp add: rearranged_def)
  then show ?thesis using perm arc_sum_summed_sorter [of W "Arcs f s"] by metis
qed

end

end
