(* ===== verification/SymbolMapLaws.thy ===== *)
theory SymbolMapLaws
  imports SymbolTable
begin

text \<open>
  The hash table \<open>DenseSymbolMap\<close> of src/openfst/lib/symbol-table.h: for every hash function its
  probing loops end, and it refines a list of distinct strings, in which \<open>Find\<close> looks up a
  position and \<open>InsertOrFind\<close> appends a string that is not there.
\<close>

section \<open>Linear probing\<close>

text \<open>A loop that walks the residues modulo \<open>N\<close> until \<open>P\<close> holds.\<close>

locale probing =
  fixes P :: "nat \<Rightarrow> bool" and N :: nat and loop :: "nat \<Rightarrow> nat option"
  assumes N_pos: "0 < N"
    and step: "idx < N \<Longrightarrow> loop idx = (if P idx then Some idx else loop ((idx + 1) mod N))"
begin

lemma stops_at:
  "(\<forall>j < d. \<not> P ((i + j) mod N)) \<Longrightarrow> P ((i + d) mod N) \<Longrightarrow> loop (i mod N) = Some ((i + d) mod N)"
proof (induction d arbitrary: i)
  case 0
  then show ?case using step [of "i mod N"] N_pos by simp
next
  case (Suc d)
  have "\<not> P (i mod N)" using Suc.prems(1) [rule_format, of 0] by simp
  moreover have "loop (Suc i mod N) = Some ((Suc i + d) mod N)"
    using Suc.prems by (intro Suc.IH) (auto dest: spec [of _ "Suc _"])
  ultimately show ?case using step [of "i mod N"] N_pos by (simp add: mod_Suc_eq)
qed

text \<open>If some residue stops the loop, it stops, at the first one.\<close>

lemma stops:
  assumes "b < N" "P b"
  obtains d where "loop (i mod N) = Some ((i + d) mod N)" "P ((i + d) mod N)" "\<forall>j < d. \<not> P ((i + j) mod N)"
proof -
  have "\<exists>d. P ((i + d) mod N)"
  proof
    have "(i + (N - i mod N + b)) mod N = (i mod N + (N - i mod N + b)) mod N"
      by (simp add: mod_add_left_eq)
    also have "i mod N + (N - i mod N + b) = N + b" using mod_less_divisor [OF N_pos, of i] by linarith
    finally show "P ((i + (N - i mod N + b)) mod N)" using assms by (simp only: mod_add_self1 mod_less)
  qed
  then obtain d where "P ((i + d) mod N)" "\<forall>j < d. \<not> P ((i + j) mod N)"
    using exists_least_iff [of "\<lambda>d. P ((i + d) mod N)"] by blast
  with stops_at [of d i] show thesis using that by blast
qed

end

lemma and_mask_mod: "n AND (2 ^ k - 1 :: nat) = n mod 2 ^ k"
  by (metis mask_eq_exp_minus_1 take_bit_eq_mask take_bit_eq_mod)

lemma probing_probe:
  assumes "dsm_hash_mask m = 2 ^ k - 1"
  shows "probing (\<lambda>idx. dsm_buckets m ! idx = kEmptyBucket \<or> dsm_symbols m ! nat (dsm_buckets m ! idx) = key)
    (2 ^ k) (probe m key)"
proof
  show "probe m key idx =
      (if dsm_buckets m ! idx = kEmptyBucket \<or> dsm_symbols m ! nat (dsm_buckets m ! idx) = key then Some idx
       else probe m key ((idx + 1) mod 2 ^ k))" for idx
    by (subst probe.simps) (simp only: assms and_mask_mod, simp)
qed simp

lemma probing_probe_empty:
  "probing (\<lambda>idx. bs ! idx = kEmptyBucket) (2 ^ k) (probe_empty bs (2 ^ k - 1))"
proof
  show "probe_empty bs (2 ^ k - 1) idx =
      (if bs ! idx = kEmptyBucket then Some idx else probe_empty bs (2 ^ k - 1) ((idx + 1) mod 2 ^ k))" for idx
    by (subst probe_empty.simps) (simp only: and_mask_mod, simp)
qed simp

section \<open>Placement of the strings in the buckets\<close>

text \<open>
  Every bucket is empty or holds the number of a string, no two hold the same number, and from the
  hash of a string to its bucket there is no empty bucket.
\<close>

definition placed :: "(string \<Rightarrow> nat) \<Rightarrow> int list \<Rightarrow> string list \<Rightarrow> bool" where
  "placed h bs strs \<longleftrightarrow>
     (\<forall>b < length bs. bs ! b = kEmptyBucket \<or> (\<exists>i < length strs. bs ! b = int i)) \<and>
     (\<forall>b < length bs. \<forall>c < length bs. bs ! b \<noteq> kEmptyBucket \<longrightarrow> bs ! b = bs ! c \<longrightarrow> b = c) \<and>
     (\<forall>i < length strs. \<exists>d. bs ! ((h (strs ! i) + d) mod length bs) = int i \<and>
        (\<forall>j < d. bs ! ((h (strs ! i) + j) mod length bs) \<noteq> kEmptyBucket))"

lemma placedD:
  assumes "placed h bs strs"
  shows "b < length bs \<Longrightarrow> bs ! b \<noteq> kEmptyBucket \<Longrightarrow> \<exists>i < length strs. bs ! b = int i"
    and "b < length bs \<Longrightarrow> c < length bs \<Longrightarrow> bs ! b \<noteq> kEmptyBucket \<Longrightarrow> bs ! b = bs ! c \<Longrightarrow> b = c"
    and "i < length strs \<Longrightarrow> \<exists>d. bs ! ((h (strs ! i) + d) mod length bs) = int i \<and>
        (\<forall>j < d. bs ! ((h (strs ! i) + j) mod length bs) \<noteq> kEmptyBucket)"
  using assms unfolding placed_def by blast+

lemma empty_not_nat [simp]: "kEmptyBucket \<noteq> int i" "int i \<noteq> kEmptyBucket"
  by (auto simp: kEmptyBucket_def)

lemma placed_room:
  assumes p: "placed h bs strs" and "length strs < length bs"
  shows "\<exists>b < length bs. bs ! b = kEmptyBucket"
proof (rule ccontr)
  assume n: "\<not> ?thesis"
  have "inj_on (\<lambda>b. bs ! b) {..< length bs}"
    using placedD(2) [OF p] n by (auto intro!: inj_onI)
  moreover have "(\<lambda>b. bs ! b) ` {..< length bs} \<subseteq> int ` {..< length strs}"
    using placedD(1) [OF p] n by fastforce
  ultimately have "length bs \<le> length strs"
    by (metis card_image card_inj_on_le card_lessThan finite_imageI finite_lessThan inj_on_def of_nat_eq_iff)
  then show False using assms(2) by simp
qed

text \<open>Putting a string into the first empty bucket after its hash.\<close>

lemma placed_insert:
  assumes p: "placed h bs strs" and N: "0 < length bs"
    and e: "bs ! ((h key + d) mod length bs) = kEmptyBucket"
    and full: "\<forall>j < d. bs ! ((h key + j) mod length bs) \<noteq> kEmptyBucket"
  shows "placed h (bs[(h key + d) mod length bs := int (length strs)]) (strs @ [key])"
proof -
  let ?N = "length bs" and ?b = "(h key + d) mod length bs" and ?n = "length strs"
  let ?bs = "bs[?b := int ?n]"
  have b: "?b < ?N" using N by simp
  have nth: "?bs ! c = (if c = ?b then int ?n else bs ! c)" if "c < ?N" for c
    using that b by (simp add: nth_list_update)
  have old: "bs ! c \<noteq> int ?n" if "c < ?N" for c
    using placedD(1) [OF p that] by (cases "bs ! c = kEmptyBucket") auto
  have "\<exists>d'. ?bs ! ((h ((strs @ [key]) ! i) + d') mod ?N) = int i \<and>
      (\<forall>j < d'. ?bs ! ((h ((strs @ [key]) ! i) + j) mod ?N) \<noteq> kEmptyBucket)" if "i < Suc ?n" for i
  proof (cases "i = ?n")
    case True
    have "?bs ! ((h key + d) mod ?N) = int i" using True nth b by simp
    moreover have "?bs ! ((h key + j) mod ?N) \<noteq> kEmptyBucket" if "j < d" for j
      using full that nth [of "(h key + j) mod ?N"] N by auto
    ultimately show ?thesis using True by (auto intro!: exI [of _ d])
  next
    case False
    with that have i: "i < ?n" by simp
    from placedD(3) [OF p i] obtain d' where d': "bs ! ((h (strs ! i) + d') mod ?N) = int i"
      "\<forall>j < d'. bs ! ((h (strs ! i) + j) mod ?N) \<noteq> kEmptyBucket" by blast
    have "(h (strs ! i) + d') mod ?N \<noteq> ?b" using d'(1) e by auto
    then have "?bs ! ((h (strs ! i) + d') mod ?N) = int i" using d'(1) nth N by simp
    moreover have "?bs ! ((h (strs ! i) + j) mod ?N) \<noteq> kEmptyBucket" if "j < d'" for j
      using d'(2) that nth [of "(h (strs ! i) + j) mod ?N"] N by auto
    ultimately show ?thesis using i by (auto simp: nth_append)
  qed
  moreover have "?bs ! c = kEmptyBucket \<or> (\<exists>i < Suc ?n. ?bs ! c = int i)" if "c < ?N" for c
    using placedD(1) [OF p that] nth [OF that] less_Suc_eq by auto
  moreover have "c = c'" if "c < ?N" "c' < ?N" "?bs ! c \<noteq> kEmptyBucket" "?bs ! c = ?bs ! c'" for c c'
    using that placedD(2) [OF p that(1,2)] old nth by (metis (full_types))
  ultimately show ?thesis by (simp add: placed_def)
qed

lemma placed_Nil: "placed h (replicate n kEmptyBucket) []"
  by (simp add: placed_def)

section \<open>The map\<close>

definition dsm_ok :: "(string \<Rightarrow> nat) \<Rightarrow> dense_symbol_map \<Rightarrow> bool" where
  "dsm_ok h m \<longleftrightarrow>
     (\<exists>k \<ge> 4. length (dsm_buckets m) = 2 ^ k \<and> dsm_hash_mask m = 2 ^ k - 1) \<and>
     placed h (dsm_buckets m) (dsm_symbols m) \<and> distinct (dsm_symbols m) \<and>
     length (dsm_symbols m) < length (dsm_buckets m)"

lemma dsm_ok_new: "dsm_ok h DenseSymbolMap"
  using placed_Nil [of h 16] by (auto simp: dsm_ok_def DenseSymbolMap_def intro!: exI [of _ 4])

lemma dsm_okE:
  assumes "dsm_ok h m"
  obtains k where "4 \<le> k" "length (dsm_buckets m) = 2 ^ k" "dsm_hash_mask m = 2 ^ k - 1"
    "placed h (dsm_buckets m) (dsm_symbols m)" "distinct (dsm_symbols m)"
    "length (dsm_symbols m) < length (dsm_buckets m)"
  using assms unfolding dsm_ok_def by blast

text \<open>The position of a string, or -1.\<close>

definition position :: "string \<Rightarrow> string list \<Rightarrow> int" where
  "position key strs =
     (if key \<in> set strs then int (length (takeWhile (\<lambda>s. s \<noteq> key) strs)) else kEmptyBucket)"

lemma position_nth: "distinct strs \<Longrightarrow> i < length strs \<Longrightarrow> position (strs ! i) strs = int i"
proof -
  assume d: "distinct strs" and i: "i < length strs"
  have "takeWhile (\<lambda>s. s \<noteq> strs ! i) strs = take i strs"
    using d i by (auto simp: takeWhile_eq_take_P_nth nth_eq_iff_index_eq intro!: takeWhile_eq_take_P_nth)
  then show ?thesis using i by (simp add: position_def)
qed

lemma position_cases:
  assumes "distinct strs"
  shows "(\<exists>i < length strs. strs ! i = key \<and> position key strs = int i) \<or> key \<notin> set strs \<and> position key strs = kEmptyBucket"
proof (cases "key \<in> set strs")
  case True
  then obtain i where "i < length strs" "strs ! i = key" by (auto simp: in_set_conv_nth)
  then show ?thesis using position_nth [OF assms, of i] by auto
qed (simp add: position_def)

text \<open>
  The probing loop ends, in the bucket of the string if it is there and otherwise in the first
  empty bucket after its hash.
\<close>

lemma probe_result:
  assumes ok: "dsm_ok h m"
  shows "\<exists>d. probe m key (h key AND dsm_hash_mask m) = Some ((h key + d) mod length (dsm_buckets m)) \<and>
    dsm_buckets m ! ((h key + d) mod length (dsm_buckets m)) = position key (dsm_symbols m) \<and>
    (key \<notin> set (dsm_symbols m) \<longrightarrow> (\<forall>j < d. dsm_buckets m ! ((h key + j) mod length (dsm_buckets m)) \<noteq> kEmptyBucket))"
proof -
  from ok obtain k where k: "length (dsm_buckets m) = 2 ^ k" "dsm_hash_mask m = 2 ^ k - 1"
    "placed h (dsm_buckets m) (dsm_symbols m)" "distinct (dsm_symbols m)"
    "length (dsm_symbols m) < length (dsm_buckets m)" by (rule dsm_okE)
  let ?P = "\<lambda>idx. dsm_buckets m ! idx = kEmptyBucket \<or> dsm_symbols m ! nat (dsm_buckets m ! idx) = key"
  obtain b where b: "b < 2 ^ k" "?P b" using placed_room [OF k(3,5)] k(1) by auto
  obtain d where d: "probe m key (h key mod 2 ^ k) = Some ((h key + d) mod 2 ^ k)" "?P ((h key + d) mod 2 ^ k)"
    "\<forall>j < d. \<not> ?P ((h key + j) mod 2 ^ k)"
    using probing.stops [OF probing_probe [OF k(2)] b] by metis
  let ?b = "(h key + d) mod 2 ^ k"
  have "dsm_buckets m ! ?b = position key (dsm_symbols m)"
  proof (cases "key \<in> set (dsm_symbols m)")
    case True
    then obtain i where i: "i < length (dsm_symbols m)" "dsm_symbols m ! i = key" by (auto simp: in_set_conv_nth)
    from placedD(3) [OF k(3) i(1)] obtain d' where d': "dsm_buckets m ! ((h key + d') mod 2 ^ k) = int i"
      "\<forall>j < d'. dsm_buckets m ! ((h key + j) mod 2 ^ k) \<noteq> kEmptyBucket" unfolding k(1) i(2) by blast
    have "\<not> d' < d" using d(3) d'(1) i(2) by auto
    then have "dsm_buckets m ! ?b \<noteq> kEmptyBucket" using d' by (cases "d = d'") auto
    then obtain i' where i': "i' < length (dsm_symbols m)" "dsm_buckets m ! ?b = int i'"
      using placedD(1) [OF k(3), of ?b] k(1) by auto
    then have "dsm_symbols m ! i' = key" using d(2) by simp
    then show ?thesis using i' position_nth [OF k(4) i'(1)] by simp
  next
    case False
    have "dsm_buckets m ! ?b = kEmptyBucket"
    proof (rule ccontr)
      assume n: "dsm_buckets m ! ?b \<noteq> kEmptyBucket"
      then obtain i' where "i' < length (dsm_symbols m)" "dsm_buckets m ! ?b = int i'"
        using placedD(1) [OF k(3), of ?b] k(1) by auto
      then show False using d(2) n False by auto
    qed
    then show ?thesis using False by (simp add: position_def)
  qed
  then show ?thesis using d(1,3) unfolding k(1,2) and_mask_mod by blast
qed

text \<open>\<open>Find\<close> returns the position.\<close>

theorem FindIdx_position: "dsm_ok h m \<Longrightarrow> FindIdx h m key = Some (position key (dsm_symbols m))"
  using probe_result [of h m key] by (auto simp: FindIdx_def)

text \<open>\<open>Rehash\<close> with enough buckets.\<close>

lemma rehash_loop_placed:
  assumes "placed h bs done'" and "length bs = 2 ^ k" and "length (done' @ strs) < 2 ^ k"
  shows "\<exists>cs. rehash_loop h (2 ^ k - 1) strs (length done') bs = Some cs \<and> length cs = 2 ^ k \<and> placed h cs (done' @ strs)"
  using assms
proof (induction strs arbitrary: done' bs)
  case (Cons s strs)
  obtain b where b: "b < 2 ^ k" "bs ! b = kEmptyBucket"
    using placed_room [OF Cons.prems(1)] Cons.prems(2,3) by auto
  obtain d where d: "probe_empty bs (2 ^ k - 1) (h s mod 2 ^ k) = Some ((h s + d) mod 2 ^ k)"
    "bs ! ((h s + d) mod 2 ^ k) = kEmptyBucket" "\<forall>j < d. bs ! ((h s + j) mod 2 ^ k) \<noteq> kEmptyBucket"
    using probing.stops [OF probing_probe_empty b] by metis
  let ?bs = "bs[(h s + d) mod 2 ^ k := int (length done')]"
  have "placed h ?bs (done' @ [s])"
    using placed_insert [OF Cons.prems(1), of s d] Cons.prems(2) d(2,3) by simp
  from Cons.IH [OF this] Cons.prems(2,3)
  obtain cs where "rehash_loop h (2 ^ k - 1) strs (Suc (length done')) ?bs = Some cs" "length cs = 2 ^ k"
    "placed h cs (done' @ s # strs)" by auto
  then show ?case using d(1) by (simp only: rehash_loop.simps and_mask_mod option.case) simp
qed simp

lemma Rehash_ok:
  assumes "distinct (dsm_symbols m)" and "4 \<le> k" and "length (dsm_symbols m) < 2 ^ k"
  shows "\<exists>m'. Rehash h m (2 ^ k) = Some m' \<and> dsm_symbols m' = dsm_symbols m \<and> dsm_ok h m' \<and>
    length (dsm_buckets m') = 2 ^ k"
proof -
  obtain cs where cs: "rehash_loop h (2 ^ k - 1) (dsm_symbols m) 0 (replicate (2 ^ k) kEmptyBucket) = Some cs"
    "length cs = 2 ^ k" "placed h cs (dsm_symbols m)"
    using rehash_loop_placed [OF placed_Nil, where strs = "dsm_symbols m"] assms(3) by force
  then have e: "Rehash h m (2 ^ k) = Some (m\<lparr>dsm_buckets := cs, dsm_hash_mask := 2 ^ k - 1\<rparr>)" by (simp add: Rehash_def)
  show ?thesis unfolding e using assms cs by (auto simp: dsm_ok_def)
qed

text \<open>
  \<open>InsertOrFind\<close> always returns: an existing string is found at its position, a new one is
  appended.
\<close>

theorem InsertOrFind_spec:
  assumes ok: "dsm_ok h m"
  shows "\<exists>m'. dsm_ok h m' \<and>
    (if key \<in> set (dsm_symbols m)
     then InsertOrFind h m key = Some (m', position key (dsm_symbols m), False) \<and> dsm_symbols m' = dsm_symbols m
     else InsertOrFind h m key = Some (m', int (Size m), True) \<and> dsm_symbols m' = dsm_symbols m @ [key])"
proof -
  from ok obtain k where k: "4 \<le> k" "length (dsm_buckets m) = 2 ^ k" "distinct (dsm_symbols m)"
    "length (dsm_symbols m) < length (dsm_buckets m)" by (rule dsm_okE)
  have "\<exists>r. (if 4 * Size m \<ge> 3 * length (dsm_buckets m) then Rehash h m (length (dsm_buckets m) * 2) else Some m) = Some r \<and>
      dsm_symbols r = dsm_symbols m \<and> dsm_ok h r \<and> Suc (length (dsm_symbols r)) < length (dsm_buckets r)"
  proof (cases "4 * Size m \<ge> 3 * length (dsm_buckets m)")
    case True
    then show ?thesis using Rehash_ok [of m "Suc k" h] k by (auto simp: mult.commute)
  next
    case False
    have "(2 :: nat) ^ 4 \<le> 2 ^ k" using k(1) by (rule power_increasing) simp
    then show ?thesis using False ok k(2) by (auto simp: Size_def)
  qed
  then obtain r where r: "(if 4 * Size m \<ge> 3 * length (dsm_buckets m) then Rehash h m (length (dsm_buckets m) * 2) else Some m) = Some r"
    "dsm_symbols r = dsm_symbols m" "dsm_ok h r" "Suc (length (dsm_symbols r)) < length (dsm_buckets r)" by blast
  from probe_result [OF r(3), of key] obtain d where d:
    "probe r key (h key AND dsm_hash_mask r) = Some ((h key + d) mod length (dsm_buckets r))"
    "dsm_buckets r ! ((h key + d) mod length (dsm_buckets r)) = position key (dsm_symbols r)"
    "key \<notin> set (dsm_symbols r) \<longrightarrow> (\<forall>j < d. dsm_buckets r ! ((h key + j) mod length (dsm_buckets r)) \<noteq> kEmptyBucket)" by blast
  show ?thesis
  proof (cases "key \<in> set (dsm_symbols m)")
    case True
    then have "position key (dsm_symbols m) \<noteq> kEmptyBucket" by (simp add: position_def)
    then show ?thesis using True r d unfolding InsertOrFind_def GetHash_def r(1) by auto
  next
    case False
    let ?b = "(h key + d) mod length (dsm_buckets r)"
    let ?r = "r\<lparr>dsm_buckets := (dsm_buckets r)[?b := int (Size r)], dsm_symbols := dsm_symbols r @ [key]\<rparr>"
    have e: "dsm_buckets r ! ?b = kEmptyBucket" using d(2) False r(2) by (simp add: position_def)
    have "InsertOrFind h m key = Some (?r, int (Size m), True)"
      using r(2) d(1) e unfolding InsertOrFind_def GetHash_def r(1) by (simp add: Let_def Size_def)
    note ins = this
    from r(3) have "placed h (dsm_buckets r) (dsm_symbols r)" by (simp add: dsm_ok_def)
    moreover have "0 < length (dsm_buckets r)" using r(4) by linarith
    ultimately have "placed h (dsm_buckets ?r) (dsm_symbols ?r)"
      using placed_insert [of h "dsm_buckets r" "dsm_symbols r" key d] r(2,4) d(3) e False by (auto simp: Size_def)
    then have "dsm_ok h ?r" using r(2,3,4) False by (auto simp: dsm_ok_def)
    then show ?thesis using ins False r(2) by auto
  qed
qed

theorem RemoveIdx_spec:
  assumes ok: "dsm_ok h m" and i: "i < Size m"
  shows "\<exists>m'. RemoveIdx h m i = Some m' \<and> dsm_ok h m' \<and>
    dsm_symbols m' = take i (dsm_symbols m) @ drop (Suc i) (dsm_symbols m)"
proof -
  from ok obtain k where k: "4 \<le> k" "length (dsm_buckets m) = 2 ^ k" "distinct (dsm_symbols m)"
    "length (dsm_symbols m) < length (dsm_buckets m)" by (rule dsm_okE)
  let ?m = "m\<lparr>dsm_symbols := take i (dsm_symbols m) @ drop (Suc i) (dsm_symbols m)\<rparr>"
  have "distinct (take i (dsm_symbols m) @ drop (Suc i) (dsm_symbols m))"
    using k(3) id_take_nth_drop [of i "dsm_symbols m"] i by (metis Size_def distinct_append distinct.simps(2) set_ConsD Int_insert_right disjoint_insert(2) list.simps(15))
  moreover have "length (dsm_symbols ?m) < 2 ^ k" using k(2,4) i by (simp add: Size_def)
  ultimately obtain m' where "Rehash h ?m (2 ^ k) = Some m'" "dsm_symbols m' = dsm_symbols ?m" "dsm_ok h m'"
    using Rehash_ok [of ?m k h] k(1) by auto
  then show ?thesis using k(2) by (auto simp: RemoveIdx_def Let_def)
qed

end
