(* ===== verification/SymbolTableLaws.thy ===== *)
theory SymbolTableLaws
  imports SymbolMapLaws
begin

text \<open>
  \<open>SymbolTableImpl\<close> refines a list of pairs of a key and a symbol, without repetitions: the
  invariant of the table, what the lookups return, that \<open>AddSymbol\<close> appends a pair, that \<open>AddTable\<close>
  appends the symbols of another table that are new, with consecutive keys, that
  \<open>RemoveSymbol\<close> removes a pair, and what the check-sums do not notice.
\<close>

section \<open>The loops of RemoveSymbol on the vector of keys\<close>

lemma shift_down:
  "k \<le> n \<Longrightarrow> n < length xs \<Longrightarrow> r < length xs \<Longrightarrow>
    fold (\<lambda>i xs. xs[i := xs ! (i + 1)]) [k ..< n] xs ! r = (if k \<le> r \<and> r < n then xs ! (r + 1) else xs ! r) \<and>
    length (fold (\<lambda>i xs. xs[i := xs ! (i + 1)]) [k ..< n] xs) = length xs"
proof (induction n arbitrary: r)
  case (Suc n)
  show ?case
  proof (cases "k = Suc n")
    case False
    then have k: "k \<le> n" using Suc.prems by simp
    let ?f = "fold (\<lambda>i xs. xs[i := xs ! (i + 1)]) [k ..< n] xs"
    have "?f ! r = (if k \<le> r \<and> r < n then xs ! (r + 1) else xs ! r)" "length ?f = length xs"
      "?f ! (n + 1) = xs ! (n + 1)"
      using Suc.IH [OF k, of r] Suc.IH [OF k, of "n + 1"] Suc.prems by simp_all
    then show ?thesis using k Suc.prems by (auto simp: nth_list_update)
  qed auto
qed simp

lemma shift_idx_keys_eq: "i < length xs \<Longrightarrow> shift_idx_keys i xs = take i xs @ drop (Suc i) xs"
proof (rule nth_equalityI)
  assume i: "i < length xs"
  then have n: "i \<le> length xs - 1" "length xs - 1 < length xs" by auto
  note F = shift_down [OF n]
  have l: "length (fold (\<lambda>i xs. xs[i := xs ! (i + 1)]) [i ..< length xs - 1] xs) = length xs"
    using F [of i] i by simp
  show "length (shift_idx_keys i xs) = length (take i xs @ drop (Suc i) xs)"
    using i l by (simp add: shift_idx_keys_def)
  fix r
  assume "r < length (shift_idx_keys i xs)"
  then have r: "r < length xs - 1" using l by (simp add: shift_idx_keys_def)
  then show "shift_idx_keys i xs ! r = (take i xs @ drop (Suc i) xs) ! r"
    using F [of r] i l by (auto simp: shift_idx_keys_def nth_butlast nth_append min_def)
qed

lemma move_up:
  "off + L \<le> length xs \<Longrightarrow> r < length xs \<Longrightarrow>
    fold (\<lambda>j xs. xs[j + off := xs ! j]) (rev [0 ..< L]) xs ! r = (if off \<le> r \<and> r < off + L then xs ! (r - off) else xs ! r) \<and>
    length (fold (\<lambda>j xs. xs[j + off := xs ! j]) (rev [0 ..< L]) xs) = length xs"
proof (induction L arbitrary: xs)
  case (Suc L)
  let ?xs = "xs[L + off := xs ! L]"
  have "fold (\<lambda>j xs. xs[j + off := xs ! j]) (rev [0 ..< L]) ?xs ! r =
      (if off \<le> r \<and> r < off + L then ?xs ! (r - off) else ?xs ! r)"
    "length (fold (\<lambda>j xs. xs[j + off := xs ! j]) (rev [0 ..< L]) ?xs) = length xs"
    using Suc.IH [of ?xs] Suc.prems by simp_all
  then show ?case using Suc.prems by (auto simp: nth_list_update)
qed auto

lemma fill_up:
  "k \<le> length xs \<Longrightarrow> fold (\<lambda>j xs. xs[j := g j]) [0 ..< k] xs = map g [0 ..< k] @ drop k xs"
proof (induction k)
  case (Suc k)
  then have "drop k xs = xs ! k # drop (Suc k) xs" by (simp add: Cons_nth_drop_Suc)
  then show ?case using Suc by (simp add: list_update_append)
qed simp

lemma fold_upt_shift: "fold f [n ..< n + k] xs = fold (\<lambda>j. f (j + n)) [0 ..< k] xs"
proof -
  have "[n ..< n + k] = map (\<lambda>j. j + n) [0 ..< k]" by (simp add: map_add_upt add.commute)
  then show ?thesis by (simp add: fold_map comp_def)
qed

lemma fold_rev_upt_shift: "fold f (rev [n ..< n + k]) xs = fold (\<lambda>j. f (j + n)) (rev [0 ..< k]) xs"
proof -
  have "[n ..< n + k] = map (\<lambda>j. j + n) [0 ..< k]" by (simp add: map_add_upt add.commute)
  then show ?thesis by (simp add: fold_map comp_def rev_map)
qed

text \<open>The keys that were dense come before the keys that were sparse.\<close>

lemma dense_to_sparse:
  assumes "p < lim" and n: "n = lim - 1 + length xs"
  shows "fill_idx_keys lim p (move_idx_keys n lim p (resize_zero (n - p) xs)) = map int [Suc p ..< lim] @ xs"
proof -
  let ?off = "lim - p - 1" and ?L = "length xs"
  let ?ys = "resize_zero (n - p) xs"
  have ly: "length ?ys = ?off + ?L" using assms by (simp add: resize_zero_def)
  have ny: "?ys ! r = xs ! r" if "r < ?L" for r using that assms by (simp add: resize_zero_def nth_append)
  have "Suc n = lim + ?L" using assms by simp
  then have "move_idx_keys n lim p ?ys = fold (\<lambda>j xs. xs[j + ?off := xs ! j]) (rev [0 ..< ?L]) ?ys"
    using assms(1) by (simp only: move_idx_keys_def fold_rev_upt_shift) (auto intro!: fold_cong)
  then have mv: "length (move_idx_keys n lim p ?ys) = ?off + ?L"
    "r < ?L \<Longrightarrow> move_idx_keys n lim p ?ys ! (?off + r) = xs ! r" for r
    using move_up [of ?off ?L ?ys] ly ny by (force, force)
  have d: "drop ?off (move_idx_keys n lim p ?ys) = xs"
    by (rule nth_equalityI) (use mv in simp_all)
  have lim: "lim - 1 = p + ?off" using assms(1) by simp
  have "fill_idx_keys lim p zs = fold (\<lambda>j xs. xs[j := int (j + p) + 1]) [0 ..< ?off] zs" for zs
    unfolding fill_idx_keys_def lim fold_upt_shift by simp
  then have "fill_idx_keys lim p (move_idx_keys n lim p ?ys) = map (\<lambda>j. int (j + p) + 1) [0 ..< ?off] @ xs"
    using fill_up [of ?off "move_idx_keys n lim p ?ys"] mv(1) d by simp
  moreover have "map (\<lambda>j. int (j + p) + 1) [0 ..< ?off] = map int [Suc p ..< lim]"
    by (rule nth_equalityI) simp_all
  ultimately show ?thesis by simp
qed

section \<open>The ordered map of sparse keys\<close>

lemma km_set_map:
  "sorted_wrt (<) (map fst m) \<Longrightarrow> map_of (km_set k v m) = (map_of m)(k \<mapsto> v)"
proof (induction m)
  case (Cons e m)
  obtain k' v' where e: "e = (k', v')" by (cases e)
  have "k' \<notin> set (map fst m)" using Cons.prems e by force
  moreover have "map_of m k = None" if "k < k'"
    using Cons.prems e that by (force simp: map_of_eq_None_iff)
  ultimately show ?case using Cons e by (auto simp: fun_eq_iff)
qed auto

lemma km_set_keys: "set (map fst (km_set k v m)) = insert k (set (map fst m))"
  by (induction k v m rule: km_set.induct) auto

lemma km_set_sorted: "sorted_wrt (<) (map fst m) \<Longrightarrow> sorted_wrt (<) (map fst (km_set k v m))"
proof (induction k v m rule: km_set.induct)
  case (2 k v k' v' kvs)
  then show ?case using km_set_keys [of k v kvs] by (auto simp: image_iff)
qed simp

lemma km_erase_map: "map_of (km_erase k m) = (map_of m)(k := None)"
  by (induction m) (auto simp: km_erase_def fun_eq_iff)

lemma km_erase_sorted: "sorted_wrt (<) (map fst m) \<Longrightarrow> sorted_wrt (<) (map fst (km_erase k m))"
  by (induction m) (auto simp: km_erase_def)

section \<open>The invariant\<close>

definition keys :: "symbol_table \<Rightarrow> int list" where
  "keys t = map int [0 ..< nat (dense_key_limit t)] @ idx_key t"

definition entries :: "symbol_table \<Rightarrow> (int \<times> string) list" where
  "entries t = zip (keys t) (dsm_symbols (symmap t))"

definition table_ok :: "(string \<Rightarrow> nat) \<Rightarrow> symbol_table \<Rightarrow> bool" where
  "table_ok h t \<longleftrightarrow> dsm_ok h (symmap t) \<and> 0 \<le> dense_key_limit t \<and> 0 \<le> available_key t \<and>
     length (keys t) = Size (symmap t) \<and> distinct (keys t) \<and>
     (\<forall>k \<in> set (keys t). k \<noteq> kNoSymbol \<and> k < available_key t) \<and>
     sorted_wrt (<) (map fst (key_map t)) \<and>
     (\<forall>k i. map_of (key_map t) k = Some i \<longleftrightarrow>
        dense_key_limit t \<le> i \<and> i < int (Size (symmap t)) \<and> keys t ! nat i = k)"

lemma table_okD:
  assumes "table_ok h t"
  shows "dsm_ok h (symmap t)" "0 \<le> dense_key_limit t" "0 \<le> available_key t"
    "length (keys t) = length (dsm_symbols (symmap t))" "distinct (keys t)" "distinct (dsm_symbols (symmap t))"
    "k \<in> set (keys t) \<Longrightarrow> k \<noteq> kNoSymbol \<and> k < available_key t"
    "sorted_wrt (<) (map fst (key_map t))"
    "map_of (key_map t) k = Some i \<longleftrightarrow>
        dense_key_limit t \<le> i \<and> i < int (length (dsm_symbols (symmap t))) \<and> keys t ! nat i = k"
  using assms by (auto simp: table_ok_def Size_def dsm_ok_def)

lemma table_ok_new: "table_ok h (SymbolTableImpl name)" "entries (SymbolTableImpl name) = []"
  using dsm_ok_new by (simp_all add: table_ok_def SymbolTableImpl_def keys_def entries_def Size_def DenseSymbolMap_def)

lemma keys_nth:
  assumes "table_ok h t" and "i < length (keys t)"
  shows "keys t ! i = (if int i < dense_key_limit t then int i else idx_key t ! (i - nat (dense_key_limit t)))"
    "int i < dense_key_limit t \<or> nat (dense_key_limit t) \<le> i"
  using assms table_okD(2) [OF assms(1)] by (auto simp: keys_def nth_append)

lemma entries_iff:
  assumes "table_ok h t"
  shows "(k, s) \<in> set (entries t) \<longleftrightarrow>
    (\<exists>i < length (keys t). k = keys t ! i \<and> s = dsm_symbols (symmap t) ! i)"
  using table_okD(4) [OF assms] by (auto simp: entries_def set_zip)

lemma entries_keys:
  assumes "table_ok h t"
  shows "map fst (entries t) = keys t" "map snd (entries t) = dsm_symbols (symmap t)"
  using table_okD(4) [OF assms] by (simp_all add: entries_def)

section \<open>Lookups\<close>

lemma GetNthKey_keys:
  assumes "table_ok h t" and "i < length (keys t)"
  shows "GetNthKey t (int i) = keys t ! i"
  using assms(2) keys_nth [OF assms] table_okD(2,4) [OF assms(1)]
  by (auto simp: GetNthKey_def Size_def nat_diff_distrib)

lemma FindKey_position:
  assumes ok: "table_ok h t"
  shows "FindKey h t str = Some (let p = position str (dsm_symbols (symmap t)) in if p = kNoSymbol then p else keys t ! nat p)"
proof -
  have e: "FindIdx h (symmap t) str = Some (position str (dsm_symbols (symmap t)))"
    by (rule FindIdx_position [OF table_okD(1) [OF ok]])
  show ?thesis
    using position_cases [OF table_okD(6) [OF ok], of str]
  proof
    assume "\<exists>i < length (dsm_symbols (symmap t)). dsm_symbols (symmap t) ! i = str \<and> position str (dsm_symbols (symmap t)) = int i"
    then obtain i where i: "i < length (keys t)" "position str (dsm_symbols (symmap t)) = int i"
      using table_okD(4) [OF ok] by auto
    then show ?thesis
      using e keys_nth [OF ok i(1)] table_okD(2) [OF ok] by (auto simp: FindKey_def kNoSymbol_def nat_diff_distrib)
  next
    assume "str \<notin> set (dsm_symbols (symmap t)) \<and> position str (dsm_symbols (symmap t)) = kEmptyBucket"
    then show ?thesis using e by (simp add: FindKey_def kNoSymbol_def kEmptyBucket_def)
  qed
qed

theorem FindKey_entries:
  assumes ok: "table_ok h t"
  shows "(k, s) \<in> set (entries t) \<Longrightarrow> FindKey h t s = Some k"
    and "s \<notin> snd ` set (entries t) \<Longrightarrow> FindKey h t s = Some kNoSymbol"
proof -
  assume "(k, s) \<in> set (entries t)"
  then obtain i where i: "i < length (keys t)" "k = keys t ! i" "s = dsm_symbols (symmap t) ! i"
    using entries_iff [OF ok] by blast
  have "position s (dsm_symbols (symmap t)) = int i"
    using position_nth [OF table_okD(6) [OF ok], of i] i table_okD(4) [OF ok] by simp
  then show "FindKey h t s = Some k" using FindKey_position [OF ok, of s] i by (simp add: Let_def kNoSymbol_def)
next
  assume "s \<notin> snd ` set (entries t)"
  then have "s \<notin> set (dsm_symbols (symmap t))" using entries_keys(2) [OF ok] by (metis list.set_map)
  then have "position s (dsm_symbols (symmap t)) = kNoSymbol" by (simp add: position_def kNoSymbol_def kEmptyBucket_def)
  then show "FindKey h t s = Some kNoSymbol" using FindKey_position [OF ok, of s] by simp
qed

text \<open>Where a key is: \<open>sparse_or_dense\<close> is what the code looks up first in \<open>Find(int64_t)\<close> and \<open>RemoveSymbol\<close>.\<close>

definition sparse_or_dense :: "symbol_table \<Rightarrow> int \<Rightarrow> int option" where
  "sparse_or_dense t key =
     (if key < 0 \<or> key \<ge> dense_key_limit t then map_of (key_map t) key else Some key)"

lemma sparse_or_dense_iff:
  assumes ok: "table_ok h t"
  shows "sparse_or_dense t key = Some i \<longleftrightarrow> (\<exists>p < length (keys t). i = int p \<and> keys t ! p = key)"
proof (cases "key < 0 \<or> key \<ge> dense_key_limit t")
  case True
  have "(\<exists>p < length (keys t). i = int p \<and> keys t ! p = key) \<longleftrightarrow>
      dense_key_limit t \<le> i \<and> i < int (length (dsm_symbols (symmap t))) \<and> keys t ! nat i = key"
  proof
    assume "\<exists>p < length (keys t). i = int p \<and> keys t ! p = key"
    then show "dense_key_limit t \<le> i \<and> i < int (length (dsm_symbols (symmap t))) \<and> keys t ! nat i = key"
      using True keys_nth(1) [OF ok, of "nat i"] table_okD(4) [OF ok] by (auto split: if_splits)
  next
    assume "dense_key_limit t \<le> i \<and> i < int (length (dsm_symbols (symmap t))) \<and> keys t ! nat i = key"
    then show "\<exists>p < length (keys t). i = int p \<and> keys t ! p = key"
      using table_okD(2,4) [OF ok] by (intro exI [of _ "nat i"]) auto
  qed
  then show ?thesis using True table_okD(9) [OF ok, of key i] by (simp add: sparse_or_dense_def)
next
  case False
  then have k: "nat key < length (keys t)" "keys t ! nat key = key"
    by (auto simp: keys_def nth_append)
  have "p = nat key" if "p < length (keys t)" "keys t ! p = key" for p
    using nth_eq_iff_index_eq [OF table_okD(5) [OF ok] that(1) k(1)] k(2) that(2) by simp
  then have "i = key" if "\<exists>p < length (keys t). i = int p \<and> keys t ! p = key" using that False by fastforce
  moreover have "\<exists>p < length (keys t). i = int p \<and> keys t ! p = key" if "i = key"
    using that k False by (intro exI [of _ "nat key"]) simp
  ultimately have "(\<exists>p < length (keys t). i = int p \<and> keys t ! p = key) \<longleftrightarrow> i = key" by blast
  then show ?thesis using False by (auto simp: sparse_or_dense_def)
qed

lemma sparse_or_dense_None:
  assumes "table_ok h t"
  shows "sparse_or_dense t key = None \<longleftrightarrow> key \<notin> set (keys t)"
  using sparse_or_dense_iff [OF assms, of key] by (cases "sparse_or_dense t key") (auto simp: in_set_conv_nth)

theorem FindSymbol_entries:
  assumes ok: "table_ok h t"
  shows "(k, s) \<in> set (entries t) \<Longrightarrow> FindSymbol t k = s"
    and "k \<notin> fst ` set (entries t) \<Longrightarrow> FindSymbol t k = []"
proof -
  have e: "FindSymbol t k = (case sparse_or_dense t k of None \<Rightarrow> [] | Some idx \<Rightarrow>
      if idx < 0 \<or> idx \<ge> int (Size (symmap t)) then [] else GetSymbol (symmap t) (nat idx))"
    by (simp add: FindSymbol_def sparse_or_dense_def Let_def)
  { assume "(k, s) \<in> set (entries t)"
    then obtain i where i: "i < length (keys t)" "keys t ! i = k" "s = dsm_symbols (symmap t) ! i"
      using entries_iff [OF ok, of k s] by auto
    then have "sparse_or_dense t k = Some (int i)" using sparse_or_dense_iff [OF ok] by blast
    then show "FindSymbol t k = s" unfolding e using i table_okD(4) [OF ok] by (simp add: Size_def GetSymbol_def) }
  { assume "k \<notin> fst ` set (entries t)"
    then have "k \<notin> set (keys t)" using entries_keys(1) [OF ok] by (metis list.set_map)
    then have "sparse_or_dense t k = None" using sparse_or_dense_None [OF ok] by blast
    then show "FindSymbol t k = []" unfolding e by simp }
qed

section \<open>AddSymbol\<close>

lemma keys_append:
  assumes ok: "table_ok h t" and fresh: "key \<notin> set (keys t)" and k: "key \<noteq> kNoSymbol"
    and m: "dsm_ok h m" "dsm_symbols m = dsm_symbols (symmap t) @ [str]"
  defines "u \<equiv> (if key + 1 = int (Size m) \<and> key = dense_key_limit t
                  then t\<lparr>symmap := m, dense_key_limit := dense_key_limit t + 1\<rparr>
                  else t\<lparr>symmap := m, idx_key := idx_key t @ [key],
                         key_map := km_set key (int (Size m) - 1) (key_map t)\<rparr>)"
  shows "table_ok h (u\<lparr>available_key := (if key \<ge> available_key t then key + 1 else available_key t), check_sum_finalized := c\<rparr>)"
    and "entries u = entries t @ [(key, str)]"
proof -
  note D = table_okD [OF ok]
  have n: "Size m = Suc (length (keys t))" using D(4) m(2) by (simp add: Size_def)
  have ks: "keys u = keys t @ [key]"
  proof (cases "key + 1 = int (Size m) \<and> key = dense_key_limit t")
    case True
    moreover have "length (keys t) = nat (dense_key_limit t) + length (idx_key t)" by (simp add: keys_def)
    ultimately have "length (idx_key t) = 0" using n D(2) by linarith
    then show ?thesis using True D(2) by (simp add: u_def keys_def nat_add_distrib)
  qed (auto simp: u_def keys_def)
  have sm: "symmap u = m" "available_key u = available_key t" by (simp_all add: u_def)
  show "entries u = entries t @ [(key, str)]"
    using D(4) by (simp add: entries_def ks sm m(2))
  have lim: "dense_key_limit t \<le> int (length (keys t))" by (simp add: keys_def)
  have nth: "(keys t @ [key]) ! nat i = (if i = int (length (keys t)) then key else keys t ! nat i)"
    if "0 \<le> i" "i < int (Suc (length (keys t)))" for i
    using that by (auto simp: nth_append)
  have "map_of (key_map u) k = Some i \<longleftrightarrow> dense_key_limit u \<le> i \<and> i < int (Size m) \<and> keys u ! nat i = k" for k i
  proof (cases "key + 1 = int (Size m) \<and> key = dense_key_limit t")
    case True
    then have "key_map u = key_map t" "dense_key_limit u = int (Size m)" by (simp_all add: u_def)
    then show ?thesis using D(9) [of k i] True n D(4) by auto
  next
    case False
    then have u: "dense_key_limit u = dense_key_limit t" "map_of (key_map u) = (map_of (key_map t))(key \<mapsto> int (length (keys t)))"
      using km_set_map [OF D(8)] n by (auto simp: u_def)
    have "keys t ! nat i \<noteq> key" if "0 \<le> i" "i < int (length (keys t))" using fresh that by (metis nat_less_iff nth_mem)
    moreover have "map_of (key_map t) key = None"
      using sparse_or_dense_None [OF ok, of key] fresh by (auto simp: sparse_or_dense_def split: if_splits)
    ultimately show ?thesis
      unfolding u ks n using D(2,4) D(9) [of k i] lim nth [of i] by (cases "i = int (length (keys t))") auto
  qed
  moreover have "sorted_wrt (<) (map fst (key_map u))" using D(8) km_set_sorted [OF D(8)] by (simp add: u_def)
  moreover have "distinct (keys u)" using D(5) fresh ks by simp
  moreover have "0 \<le> dense_key_limit u" using D(2) by (simp add: u_def)
  moreover have "\<forall>r \<in> set (keys u). r \<noteq> kNoSymbol \<and> r < (if key \<ge> available_key t then key + 1 else available_key t)"
    unfolding ks using D(7) k by force
  moreover have "keys (u\<lparr>available_key := a, check_sum_finalized := c\<rparr>) = keys u" for a by (simp add: keys_def)
  ultimately show "table_ok h (u\<lparr>available_key := (if key \<ge> available_key t then key + 1 else available_key t), check_sum_finalized := c\<rparr>)"
    unfolding table_ok_def using D(3) m(1) ks n sm(1) by simp
qed

theorem AddSymbol_spec:
  assumes ok: "table_ok h t" and k: "key \<noteq> kNoSymbol" "key \<notin> set (keys t)"
  shows "\<exists>u. table_ok h u \<and>
    (if str \<in> snd ` set (entries t)
     then entries u = entries t \<and> AddSymbol h t str key = Some (u, the (FindKey h t str))
     else entries u = entries t @ [(key, str)] \<and> AddSymbol h t str key = Some (u, key))"
proof -
  note D = table_okD [OF ok]
  have mem: "str \<in> snd ` set (entries t) \<longleftrightarrow> str \<in> set (dsm_symbols (symmap t))"
    using entries_keys(2) [OF ok] by (metis list.set_map)
  from InsertOrFind_spec [OF D(1), of str] obtain m where m: "dsm_ok h m"
    "if str \<in> set (dsm_symbols (symmap t))
     then InsertOrFind h (symmap t) str = Some (m, position str (dsm_symbols (symmap t)), False) \<and> dsm_symbols m = dsm_symbols (symmap t)
     else InsertOrFind h (symmap t) str = Some (m, int (Size (symmap t)), True) \<and> dsm_symbols m = dsm_symbols (symmap t) @ [str]"
    by blast
  show ?thesis
  proof (cases "str \<in> set (dsm_symbols (symmap t))")
    case True
    let ?u = "t\<lparr>symmap := m\<rparr>"
    from m True have e: "InsertOrFind h (symmap t) str = Some (m, position str (dsm_symbols (symmap t)), False)"
      "dsm_symbols m = dsm_symbols (symmap t)" by auto
    from True obtain i where i: "i < length (keys t)" "position str (dsm_symbols (symmap t)) = int i"
      using position_cases [OF D(6), of str] D(4) by auto
    have ok': "table_ok h ?u" using ok m(1) e(2) by (simp add: table_ok_def keys_def Size_def)
    have ks: "keys ?u = keys t" by (simp add: keys_def)
    have "GetNthKey ?u (int i) = keys t ! i" using GetNthKey_keys [OF ok', of i] i ks by simp
    moreover have "FindKey h t str = Some (keys t ! i)" using FindKey_position [OF ok, of str] i by (simp add: Let_def kNoSymbol_def)
    ultimately have "AddSymbol h t str key = Some (?u, the (FindKey h t str))"
      using k(1) e i by (simp add: AddSymbol_def Let_def)
    moreover have "entries ?u = entries t" using e(2) by (simp add: entries_def keys_def)
    ultimately show ?thesis using ok' True mem by auto
  next
    case False
    from m False have e: "InsertOrFind h (symmap t) str = Some (m, int (Size (symmap t)), True)"
      "dsm_symbols m = dsm_symbols (symmap t) @ [str]" by auto
    let ?v = "if key + 1 = int (Size m) \<and> key = dense_key_limit t
                  then t\<lparr>symmap := m, dense_key_limit := dense_key_limit t + 1\<rparr>
                  else t\<lparr>symmap := m, idx_key := idx_key t @ [key], key_map := km_set key (int (Size m) - 1) (key_map t)\<rparr>"
    let ?u = "?v\<lparr>available_key := (if key \<ge> available_key t then key + 1 else available_key t), check_sum_finalized := False\<rparr>"
    note K = keys_append(1) [OF ok k(2,1) m(1) e(2), where c = False] keys_append(2) [OF ok k(2,1) m(1) e(2)]
    have "AddSymbol h t str key = Some (?u, key)"
      using k(1) e by (simp add: AddSymbol_def Let_def)
    moreover have "entries ?u = entries ?v" by (simp add: entries_def keys_def)
    ultimately show ?thesis using K False mem by auto
  qed
qed

text \<open>\<open>AddSymbol(symbol)\<close> takes a key that is free.\<close>

lemma available_key_fresh: "table_ok h t \<Longrightarrow> available_key t \<noteq> kNoSymbol \<and> available_key t \<notin> set (keys t)"
  using table_okD(3,7) [of h t] by (force simp: kNoSymbol_def)

lemma AddSymbolNew_spec:
  assumes ok: "table_ok h t"
  shows "\<exists>u k. AddSymbolNew h t str = Some (u, k) \<and> table_ok h u \<and>
    (if str \<in> snd ` set (entries t) then entries u = entries t \<and> available_key u = available_key t
     else entries u = entries t @ [(available_key t, str)] \<and> available_key u = available_key t + 1)"
proof -
  note fresh = available_key_fresh [OF ok]
  obtain u k where u: "AddSymbolNew h t str = Some (u, k)" "table_ok h u"
    "if str \<in> snd ` set (entries t) then entries u = entries t else entries u = entries t @ [(available_key t, str)]"
    using AddSymbol_spec [OF ok, of "available_key t" str] fresh unfolding AddSymbolNew_def by (metis (full_types))
  have "str \<in> snd ` set (entries t) \<longleftrightarrow> str \<in> set (dsm_symbols (symmap t))"
    using entries_keys(2) [OF ok] by (metis list.set_map)
  then have "available_key u = (if str \<in> snd ` set (entries t) then available_key t else available_key t + 1)"
    using InsertOrFind_spec [OF table_okD(1) [OF ok], of str] u(1) fresh
    by (auto simp: AddSymbolNew_def AddSymbol_def Let_def split: if_splits)
  then show ?thesis using u by (auto split: if_splits)
qed

section \<open>AddTable\<close>

text \<open>The pairs that a list of symbols adds to a table whose next key is \<open>k\<close>: those not yet there, numbered in order.\<close>

definition numbered_symbols :: "int \<Rightarrow> string list \<Rightarrow> (int \<times> string) list" where
  "numbered_symbols k strs = zip (map (\<lambda>i. k + int i) [0 ..< length strs]) strs"

lemma numbered_symbols_simps [simp]:
  "numbered_symbols k [] = []" "numbered_symbols k (str # strs) = (k, str) # numbered_symbols (k + 1) strs" "snd ` set (numbered_symbols k strs) = set strs"
proof -
  show "numbered_symbols k [] = []" by (simp add: numbered_symbols_def)
  show "numbered_symbols k (str # strs) = (k, str) # numbered_symbols (k + 1) strs"
    by (simp add: numbered_symbols_def upt_conv_Cons map_Suc_upt [symmetric] comp_def add.assoc del: upt_Suc map_Suc_upt)
  have "map snd (numbered_symbols k strs) = strs" by (simp add: numbered_symbols_def)
  then show "snd ` set (numbered_symbols k strs) = set strs" by (metis list.set_map)
qed

lemma add_items_spec:
  assumes "\<forall>p \<in> set ps. FindSymbol table (GetNthKey table p) = g p" and "distinct (map g ps)" and "table_ok h t"
  shows "\<exists>u. add_items h table ps t = Some u \<and> table_ok h u \<and>
    entries u = entries t @ numbered_symbols (available_key t) (filter (\<lambda>s. s \<notin> snd ` set (entries t)) (map g ps))"
  using assms
proof (induction ps arbitrary: t)
  case (Cons p ps)
  obtain u k where u: "AddSymbolNew h t (g p) = Some (u, k)" "table_ok h u"
    "if g p \<in> snd ` set (entries t) then entries u = entries t \<and> available_key u = available_key t
     else entries u = entries t @ [(available_key t, g p)] \<and> available_key u = available_key t + 1"
    using AddSymbolNew_spec [OF Cons.prems(3)] by blast
  have "filter (\<lambda>s. s \<notin> snd ` set (entries u)) (map g ps) = filter (\<lambda>s. s \<notin> snd ` set (entries t)) (map g ps)"
  proof (rule filter_cong)
    fix s
    assume "s \<in> set (map g ps)"
    then have "s \<noteq> g p" using Cons.prems(2) by (metis distinct.simps(2) list.simps(9))
    then show "s \<notin> snd ` set (entries u) \<longleftrightarrow> s \<notin> snd ` set (entries t)" using u(3) by (simp split: if_splits)
  qed simp
  then show ?case using Cons.IH [OF _ _ u(2)] Cons.prems(1,2) u(1,3) by (auto split: if_splits)
qed simp

theorem AddTable_spec:
  assumes ok: "table_ok h t" and tab: "table_ok h' table"
  shows "\<exists>u. AddTable h t table = Some u \<and> table_ok h u \<and>
    entries u = entries t @
      numbered_symbols (available_key t) (filter (\<lambda>s. s \<notin> snd ` set (entries t)) (map snd (entries table)))"
proof -
  let ?g = "\<lambda>p. dsm_symbols (symmap table) ! nat p" and ?ps = "map int [0 ..< Size (symmap table)]"
  note D = table_okD [OF tab]
  have ps: "map ?g ?ps = map snd (entries table)"
    unfolding entries_keys(2) [OF tab] by (simp add: Size_def comp_def map_nth)
  have "FindSymbol table (GetNthKey table p) = ?g p" if "p \<in> set ?ps" for p
  proof -
    from that obtain i where i: "p = int i" "i < length (keys table)" using D(4) by (auto simp: Size_def)
    then have "(keys table ! i, ?g p) \<in> set (entries table)" using entries_iff [OF tab] by auto
    then show ?thesis using FindSymbol_entries(1) [OF tab] GetNthKey_keys [OF tab i(2)] i(1) by simp
  qed
  then show ?thesis
    using add_items_spec [of ?ps table ?g h t] ok D(6) unfolding AddTable_def ps entries_keys(2) [OF tab] by blast
qed

section \<open>RemoveSymbol\<close>

definition without :: "nat \<Rightarrow> 'a list \<Rightarrow> 'a list" where
  "without p xs = take p xs @ drop (Suc p) xs"

lemma without_nth:
  "p < length xs \<Longrightarrow> r < length xs - 1 \<Longrightarrow> without p xs ! r = (if r < p then xs ! r else xs ! Suc r)"
  by (auto simp: without_def nth_append min_def)

lemma length_without [simp]: "p < length xs \<Longrightarrow> length (without p xs) = length xs - 1"
  by (simp add: without_def)

lemma without_filter:
  "distinct (map f xs) \<Longrightarrow> p < length xs \<Longrightarrow> without p xs = filter (\<lambda>x. f x \<noteq> f (xs ! p)) xs"
proof (induction xs arbitrary: p)
  case (Cons x xs)
  show ?case
  proof (cases p)
    case 0
    then have "\<forall>y \<in> set xs. f y \<noteq> f x" using Cons.prems by (auto simp: image_iff)
    then show ?thesis using 0 by (auto simp: without_def filter_id_conv)
  next
    case (Suc q)
    then have "f x \<noteq> f (xs ! q)" using Cons.prems nth_mem [of q xs] by (metis distinct.simps(2) image_eqI length_Cons list.set_map list.simps(9) not_less_eq)
    then show ?thesis using Suc Cons.IH [of q] Cons.prems by (simp add: without_def)
  qed
qed simp

text \<open>The sparse keys after the symbol at position \<open>p\<close> is removed.\<close>

lemma remove_key_map:
  assumes ok: "table_ok h t" and p: "p < length (keys t)"
  shows "map_of (map (\<lambda>(k, i). (k, if i > int p then i - 1 else i)) (km_erase (keys t ! p) (key_map t))) k = Some i \<longleftrightarrow>
    (if int p < dense_key_limit t then dense_key_limit t - 1 else dense_key_limit t) \<le> i \<and>
      i < int (length (keys t)) - 1 \<and> without p (keys t) ! nat i = k"
proof -
  note D = table_okD [OF ok]
  let ?f = "\<lambda>i. if i > int p then i - 1 else i" and ?key = "keys t ! p"
  have m: "map_of (map (\<lambda>(k, i). (k, ?f i)) (km_erase ?key (key_map t))) k = map_option ?f (if k = ?key then None else map_of (key_map t) k)"
    by (simp add: map_of_map km_erase_map)
  have dist: "keys t ! nat j = ?key \<longleftrightarrow> j = int p" if "0 \<le> j" "j < int (length (keys t))" for j
    using nth_eq_iff_index_eq [OF D(5), of "nat j" p] that p by auto
  have "(\<exists>j. k \<noteq> ?key \<and> map_of (key_map t) k = Some j \<and> ?f j = i) \<longleftrightarrow>
      (if int p < dense_key_limit t then dense_key_limit t - 1 else dense_key_limit t) \<le> i \<and>
      i < int (length (keys t)) - 1 \<and> without p (keys t) ! nat i = k" (is "?L \<longleftrightarrow> ?R")
  proof
    assume ?L
    then obtain j where j: "k \<noteq> ?key" "dense_key_limit t \<le> j" "j < int (length (keys t))" "keys t ! nat j = k" "?f j = i"
      using D(4) D(9) [of k] by auto
    then have "j \<noteq> int p" using dist [of j] D(2) by auto
    then show ?R using j D(2) without_nth [OF p, of "nat i"] p by (auto simp: nat_diff_distrib Suc_nat_eq_nat_zadd1 split: if_splits)
  next
    assume R: ?R
    let ?j = "if i < int p then i else i + 1"
    have i: "0 \<le> i" "nat i < length (keys t) - 1" using R D(2) p by (auto split: if_splits)
    then have "keys t ! nat ?j = k" using R without_nth [OF p i(2)] by (cases "i < int p") (simp_all add: nat_add_distrib nat_less_iff)
    moreover have j: "dense_key_limit t \<le> ?j" "0 \<le> ?j" "?j < int (length (keys t))" "?j \<noteq> int p" "?f ?j = i" using R i by (auto split: if_splits)
    ultimately have "k \<noteq> ?key" using dist [OF j(2,3)] by blast
    moreover have "map_of (key_map t) k = Some ?j"
      using D(9) [of k ?j] j(1,3) \<open>keys t ! nat ?j = k\<close> unfolding D(4) [symmetric] by blast
    ultimately show ?L using j(5) by blast
  qed
  note LR = this
  show ?thesis unfolding m LR [symmetric] by (cases "k = ?key"; cases "map_of (key_map t) k") simp_all
qed

lemma km_dense_map:
  "sorted_wrt (<) (map fst m) \<Longrightarrow>
    map_of (fold (\<lambda>i. km_set i (i - 1)) is m) k = (if k \<in> set is then Some (k - 1) else map_of m k) \<and>
    sorted_wrt (<) (map fst (fold (\<lambda>i. km_set i (i - 1)) is m))"
proof (induction "is" arbitrary: m)
  case (Cons i "is")
  then show ?case using km_set_sorted [OF Cons.prems, of i "i - 1"] km_set_map [OF Cons.prems, of i "i - 1"] by auto
qed simp

lemma sorted_map_values: "map fst (map (\<lambda>(k, i). (k, g i)) m) = map fst m"
  by (simp add: comp_def case_prod_beta)

lemma table_ok_remove:
  assumes ok: "table_ok h t" and p: "p < length (keys t)"
    and m: "dsm_ok h m" "dsm_symbols m = without p (dsm_symbols (symmap t))"
    and u: "keys u = without p (keys t)" "symmap u = m" "0 \<le> dense_key_limit u"
      "available_key u = (if keys t ! p = available_key t - 1 then keys t ! p else available_key t)"
      "sorted_wrt (<) (map fst (key_map u))"
    and km: "\<And>k i. map_of (key_map u) k = Some i \<longleftrightarrow>
       dense_key_limit u \<le> i \<and> i < int (length (keys t)) - 1 \<and> without p (keys t) ! nat i = k"
  shows "table_ok h u" and "entries u = filter (\<lambda>e. fst e \<noteq> keys t ! p) (entries t)"
proof -
  note D = table_okD [OF ok]
  have sub: "keys u = filter (\<lambda>k. k \<noteq> keys t ! p) (keys t)"
    unfolding u(1) using without_filter [of "\<lambda>k. k" "keys t" p] D(5) p by simp
  have n: "Size m = length (keys t) - 1" using m(2) p D(4) by (simp add: Size_def)
  have avail: "r \<noteq> kNoSymbol \<and> r < available_key u" if "r \<in> set (keys u)" for r
    using that D(7) [of r] unfolding sub u(4) by auto
  have "0 \<le> available_key u"
    using D(3) D(7) [OF nth_mem [OF p]] unfolding u(4) by (auto simp: kNoSymbol_def)
  moreover have "length (keys u) = Size (symmap u)" using u(1,2) n p by simp
  moreover have "distinct (keys u)" using D(5) sub by simp
  moreover have "\<forall>k i. map_of (key_map u) k = Some i \<longleftrightarrow>
      dense_key_limit u \<le> i \<and> i < int (Size (symmap u)) \<and> keys u ! nat i = k"
  proof -
    have "int (length (keys t)) - 1 = int (Size (symmap u))" using n u(2) p by simp
    then show ?thesis using km u(1) by simp
  qed
  ultimately show "table_ok h u" unfolding table_ok_def using m(1) u(2,3,5) avail by blast
  have "entries u = without p (entries t)"
    using D(4) p by (simp add: entries_def u(1,2) m(2) without_def zip_append take_zip drop_zip)
  also have "\<dots> = filter (\<lambda>e. fst e \<noteq> fst (entries t ! p)) (entries t)"
    using D(4,5) p by (intro without_filter) (simp_all add: entries_def)
  finally show "entries u = filter (\<lambda>e. fst e \<noteq> keys t ! p) (entries t)"
    using D(4) p by (simp add: entries_def)
qed

text \<open>A key in the dense range has no entry in the map of sparse keys.\<close>

lemma dense_key:
  assumes ok: "table_ok h t" and p: "int p < dense_key_limit t"
  shows "p < length (keys t)" "keys t ! p = int p" "map_of (key_map t) (int p) = None"
proof -
  show l: "p < length (keys t)" using p by (simp add: keys_def)
  show e: "keys t ! p = int p" using keys_nth(1) [OF ok l] p by simp
  have "\<not> (dense_key_limit t \<le> i \<and> i < int (length (dsm_symbols (symmap t))) \<and> keys t ! nat i = int p)" for i
  proof
    assume a: "dense_key_limit t \<le> i \<and> i < int (length (dsm_symbols (symmap t))) \<and> keys t ! nat i = int p"
    then have "nat i = p"
      using nth_eq_iff_index_eq [OF table_okD(5) [OF ok], of "nat i" p] l e table_okD(4) [OF ok] by auto
    then have "i = int p" using a p by linarith
    then show False using a p by simp
  qed
  then show "map_of (key_map t) (int p) = None" using table_okD(9) [OF ok, of "int p"] by (metis not_Some_eq)
qed

lemma without_keys_dense:
  assumes "int p < dense_key_limit t"
  shows "without p (keys t) = map int [0 ..< p] @ map int [Suc p ..< nat (dense_key_limit t)] @ idx_key t"
  using assms by (simp add: keys_def without_def take_map drop_map min_def)

lemma remove_dense_map:
  assumes ok: "table_ok h t" and p: "int p < dense_key_limit t"
  defines "km \<equiv> map (\<lambda>(k, i). (k, if i > int p then i - 1 else i)) (key_map t)"
  shows "map_of (fold (\<lambda>i. km_set i (i - 1)) [int p + 1 .. dense_key_limit t - 1] km) k = Some i \<longleftrightarrow>
    int p \<le> i \<and> i < int (length (keys t)) - 1 \<and> without p (keys t) ! nat i = k"
proof -
  note D = table_okD [OF ok] and K = dense_key [OF ok]
  have l: "p < length (keys t)" using K(1) [OF p] .
  have er: "km_erase (keys t ! p) (key_map t) = key_map t"
    using K(2,3) [OF p] by (force simp: km_erase_def filter_id_conv map_of_eq_None_iff)
  have M: "map_of km k = Some i \<longleftrightarrow> dense_key_limit t - 1 \<le> i \<and> i < int (length (keys t)) - 1 \<and> without p (keys t) ! nat i = k" for k i
    using remove_key_map [OF ok l, of k i] p unfolding er km_def by simp
  have low: "without p (keys t) ! nat i = i + 1" if "int p \<le> i" "i < dense_key_limit t - 1" for i
  proof -
    have s: "int (Suc (nat i)) < dense_key_limit t" using that by linarith
    have "nat i < length (keys t) - 1" "\<not> nat i < p" using K(1) [OF s] that by auto
    then show ?thesis using without_nth [OF l, of "nat i"] K(2) [OF s] that by simp
  qed
  have dense_None: "map_of km k = None" if k: "int p < k" "k < dense_key_limit t" for k
  proof -
    have "map_of (key_map t) k = None" using K(3) [of "nat k"] k by simp
    then show ?thesis by (simp add: km_def map_of_map)
  qed
  have "sorted_wrt (<) (map fst km)" using D(8) unfolding km_def sorted_map_values .
  then have F: "map_of (fold (\<lambda>i. km_set i (i - 1)) [int p + 1 .. dense_key_limit t - 1] km) k =
      (if int p < k \<and> k < dense_key_limit t then Some (k - 1) else map_of km k)"
    using km_dense_map [of km "[int p + 1 .. dense_key_limit t - 1]" k] by auto
  have len: "dense_key_limit t \<le> int (length (keys t))" by (simp add: keys_def)
  show ?thesis
  proof (cases "i < dense_key_limit t - 1")
    case True
    then have "map_of km k \<noteq> Some i" using M [of k i] by simp
    moreover have "int p \<le> i \<Longrightarrow> without p (keys t) ! nat i = k \<longleftrightarrow> k = i + 1" using low [OF _ True] by auto
    ultimately show ?thesis using True len by (auto simp: F)
  next
    case False
    then have "map_of km k = Some i \<longleftrightarrow> int p \<le> i \<and> i < int (length (keys t)) - 1 \<and> without p (keys t) ! nat i = k"
      using M [of k i] p by auto
    then show ?thesis using dense_None [of k] False by (auto simp: F)
  qed
qed

lemma RemoveSymbol_at:
  assumes ok: "table_ok h t" and p: "p < length (keys t)"
  shows "\<exists>u. RemoveSymbol h t (keys t ! p) = Some u \<and> table_ok h u \<and>
    entries u = filter (\<lambda>e. fst e \<noteq> keys t ! p) (entries t)"
proof -
  note D = table_okD [OF ok]
  let ?key = "keys t ! p" and ?lim = "dense_key_limit t"
  have found: "sparse_or_dense t ?key = Some (int p)" using sparse_or_dense_iff [OF ok] p by blast
  from RemoveIdx_spec [OF D(1), of p] p D(4) obtain m where m: "RemoveIdx h (symmap t) p = Some m" "dsm_ok h m"
    "dsm_symbols m = without p (dsm_symbols (symmap t))" by (auto simp: Size_def without_def)
  have n: "Size m = length (keys t) - 1" "p < Size (symmap t)" using m(3) p D(4) by (simp_all add: Size_def)
  have lk: "length (keys t) = nat ?lim + length (idx_key t)" by (simp add: keys_def)
  note R = table_ok_remove [OF ok p m(2,3)]
  show ?thesis
  proof (cases "int p < ?lim")
    case dense: True
    have key: "?key = int p" using dense_key(2) [OF ok dense] .
    obtain b where b: "b \<longleftrightarrow> int p = available_key t - 1" by blast
    let ?km = "fold (\<lambda>i. km_set i (i - 1)) [int p + 1 .. ?lim - 1] (map (\<lambda>(k, i). (k, if i > int p then i - 1 else i)) (key_map t))"
    let ?u = "t\<lparr>symmap := m, key_map := ?km, idx_key := map int [Suc p ..< nat ?lim] @ idx_key t, dense_key_limit := int p,
      available_key := (if b then int p else available_key t)\<rparr>"
    have "fill_idx_keys (nat ?lim) p (move_idx_keys (Size m) (nat ?lim) p (resize_zero (Size m - p) (idx_key t))) =
        map int [Suc p ..< nat ?lim] @ idx_key t"
      using dense n lk by (intro dense_to_sparse) auto
    then have e: "RemoveSymbol h t ?key = Some ?u"
      using dense m(1) n(2) unfolding key RemoveSymbol_def by (simp add: Let_def b [symmetric])
    have sk: "sorted_wrt (<) (map fst ?km)"
      using km_dense_map [of "map (\<lambda>(k, i). (k, if i > int p then i - 1 else i)) (key_map t)"] D(8) unfolding sorted_map_values by blast
    have "keys ?u = without p (keys t)" using without_keys_dense [OF dense] by (simp add: keys_def)
    then have "table_ok h ?u" "entries ?u = filter (\<lambda>e. fst e \<noteq> ?key) (entries t)"
      by (rule R; use sk remove_dense_map [OF ok dense] key b in simp)+
    then show ?thesis using e by blast
  next
    case sparse: False
    have s: "?key < 0 \<or> ?lim \<le> ?key"
      using found sparse by (auto simp: sparse_or_dense_def split: if_splits)
    let ?km = "map (\<lambda>(k, i). (k, if i > int p then i - 1 else i)) (km_erase ?key (key_map t))"
    let ?u = "t\<lparr>symmap := m, key_map := ?km, idx_key := without (p - nat ?lim) (idx_key t),
      available_key := (if ?key = available_key t - 1 then ?key else available_key t)\<rparr>"
    have q: "p - nat ?lim < length (idx_key t)" "nat (int p - ?lim) = p - nat ?lim" using p sparse lk D(2) by auto
    have e: "RemoveSymbol h t ?key = Some ?u"
      using s found m(1) n(2) q shift_idx_keys_eq [OF q(1)]
      by (auto simp: RemoveSymbol_def sparse_or_dense_def Let_def without_def)
    have sk: "sorted_wrt (<) (map fst ?km)" using km_erase_sorted [OF D(8)] unfolding sorted_map_values .
    have "keys ?u = without p (keys t)"
      using sparse D(2) by (auto simp: keys_def without_def Suc_diff_le)
    then have "table_ok h ?u" "entries ?u = filter (\<lambda>e. fst e \<noteq> ?key) (entries t)"
      by (rule R; use sk remove_key_map [OF ok p] sparse D(2) in simp)+
    then show ?thesis using e by blast
  qed
qed

theorem RemoveSymbol_spec:
  assumes ok: "table_ok h t"
  shows "\<exists>u. RemoveSymbol h t key = Some u \<and> table_ok h u \<and> entries u = filter (\<lambda>e. fst e \<noteq> key) (entries t)"
proof (cases "key \<in> set (keys t)")
  case True
  then show ?thesis using RemoveSymbol_at [OF ok] by (metis in_set_conv_nth)
next
  case False
  then have "sparse_or_dense t key = None" using sparse_or_dense_None [OF ok] by blast
  then have "RemoveSymbol h t key = Some t"
    by (auto simp: RemoveSymbol_def sparse_or_dense_def Let_def split: if_splits)
  moreover have "filter (\<lambda>e. fst e \<noteq> key) (entries t) = entries t"
    using False by (auto simp: filter_id_conv entries_keys(1) [OF ok, symmetric] image_iff)
  ultimately show ?thesis using ok by simp
qed

section \<open>Check-sums\<close>

text \<open>\<open>RemoveSymbol\<close> does not reset \<open>check_sum_finalized_\<close>: check-sums that were computed before are returned after.\<close>

lemma RemoveSymbol_check_sum:
  assumes "RemoveSymbol h t key = Some u"
  shows "check_sum_finalized u = check_sum_finalized t \<and> check_sum_string u = check_sum_string t \<and>
    labeled_check_sum_string u = labeled_check_sum_string t"
  using assms by (auto simp: RemoveSymbol_def Let_def split: option.splits if_splits)

end
