(* ===== verification/Relabel.thy ===== *)
theory Relabel
  imports ArcMapSound SymbolTableLaws
begin

text \<open>
  Relabelling (src/openfst/lib/relabel.h): \<open>Relabel\<close> by pairs of labels, with its early return when
  a label has no target, and \<open>Relabel\<close> by symbol tables, which computes the pairs. A map that is built from
  a range of pairs keeps the first pair of each label, as \<open>map_of\<close> does. The lookup of a symbol
  in a table is a loop, so the forms with tables return an option.
\<close>

unbundle bit_operations_syntax

section \<open>Relabel by pairs\<close>

type_synonym label_pairs = "(int \<times> int) list"

text \<open>The new label: \<open>None\<close> is the error branch.\<close>

definition relabel_label :: "label_pairs \<Rightarrow> int \<Rightarrow> int option" where
  "relabel_label pairs label =
     (case map_of pairs label of
        None \<Rightarrow> Some label
      | Some target \<Rightarrow> if target = kNoLabel then None else Some target)"

text \<open>The loop over the arcs at the given positions; the flag says whether the loop was left by a return.\<close>

fun relabel_loop ::
  "('w, 'z) weight_ops_scheme \<Rightarrow> label_pairs \<Rightarrow> label_pairs \<Rightarrow> (nat \<times> nat) list \<Rightarrow> 'w vfst \<Rightarrow> bool \<times> 'w vfst" where
  "relabel_loop W ipairs opairs [] f = (False, f)"
| "relabel_loop W ipairs opairs ((s, i) # rest) f =
     (let arc = Arcs f s ! i
      in case relabel_label ipairs (ilabel arc) of
           None \<Rightarrow> (True, SetPropertiesMask kError kError f)
         | Some il \<Rightarrow>
            (case relabel_label opairs (olabel arc) of
               None \<Rightarrow> (True, SetPropertiesMask kError kError f)
             | Some ol \<Rightarrow>
                 relabel_loop W ipairs opairs rest
                   (SetValue W s i (Arc il ol (weight arc) (nextstate arc)) f)))"

definition arc_positions :: "'w vfst \<Rightarrow> (nat \<times> nat) list" where
  "arc_positions f = [(s, i). s \<leftarrow> [0 ..< NumStates f], i \<leftarrow> [0 ..< NumArcs f s]]"

definition Relabel :: "('w, 'z) weight_ops_scheme \<Rightarrow> label_pairs \<Rightarrow> label_pairs \<Rightarrow> 'w vfst \<Rightarrow> 'w vfst" where
  "Relabel W ipairs opairs f =
     (let props = Properties f kFstProperties;
          (returned, f) = relabel_loop W ipairs opairs (arc_positions f) f
      in if returned then f else SetPropertiesMask (RelabelProperties props) kFstProperties f)"

section \<open>Relabel by symbol tables\<close>

definition unknown_label :: "(string \<Rightarrow> nat) \<Rightarrow> symbol_table \<Rightarrow> string \<Rightarrow> int option" where
  "unknown_label h new_symbols unknown_symbol =
     (if unknown_symbol \<noteq> [] then FindKey h new_symbols unknown_symbol else Some kNoLabel)"

fun table_pairs :: "(string \<Rightarrow> nat) \<Rightarrow> symbol_table \<Rightarrow> symbol_table \<Rightarrow> int \<Rightarrow> nat list \<Rightarrow> label_pairs option" where
  "table_pairs h old new unknown [] = Some []"
| "table_pairs h old new unknown (pos # rest) =
     (let old_index = GetNthKey old (int pos);
          symbol = FindSymbol old old_index
      in case FindKey h new symbol of
           None \<Rightarrow> None
         | Some new_index \<Rightarrow>
             map_option ((#) (old_index, if new_index = kNoLabel \<and> unknown \<noteq> kNoLabel then unknown else new_index))
               (table_pairs h old new unknown rest))"

definition relabel_pairs ::
  "(string \<Rightarrow> nat) \<Rightarrow> symbol_table option \<Rightarrow> symbol_table option \<Rightarrow> string \<Rightarrow> label_pairs option" where
  "relabel_pairs h old_symbols new_symbols unknown_symbol =
     (case (old_symbols, new_symbols) of
        (Some old, Some new) \<Rightarrow>
          (case unknown_label h new unknown_symbol of
             None \<Rightarrow> None
           | Some unknown \<Rightarrow> table_pairs h old new unknown [0 ..< Size (symmap old)])
      | _ \<Rightarrow> Some [])"

definition attach ::
  "symbol_table option \<Rightarrow> symbol_table option \<Rightarrow> bool \<Rightarrow> (symbol_table option \<Rightarrow> 'w vfst \<Rightarrow> 'w vfst) \<Rightarrow> 'w vfst \<Rightarrow> 'w vfst" where
  "attach old_symbols new_symbols attach_new setter f =
     (if old_symbols \<noteq> None \<and> new_symbols \<noteq> None \<and> attach_new then setter new_symbols f else f)"

definition RelabelSymbols ::
  "(string \<Rightarrow> nat) \<Rightarrow> ('w, 'z) weight_ops_scheme \<Rightarrow> symbol_table option \<Rightarrow> symbol_table option \<Rightarrow> string \<Rightarrow> bool \<Rightarrow>
    symbol_table option \<Rightarrow> symbol_table option \<Rightarrow> string \<Rightarrow> bool \<Rightarrow> 'w vfst \<Rightarrow> 'w vfst option" where
  "RelabelSymbols h W old_isymbols new_isymbols unknown_isymbol attach_new_isymbols
     old_osymbols new_osymbols unknown_osymbol attach_new_osymbols f =
     (case relabel_pairs h old_isymbols new_isymbols unknown_isymbol of
        None \<Rightarrow> None
      | Some ipairs \<Rightarrow>
         (let f = attach old_isymbols new_isymbols attach_new_isymbols SetInputSymbols f
          in case relabel_pairs h old_osymbols new_osymbols unknown_osymbol of
               None \<Rightarrow> None
             | Some opairs \<Rightarrow>
                Some (Relabel W ipairs opairs (attach old_osymbols new_osymbols attach_new_osymbols SetOutputSymbols f))))"

definition RelabelTables ::
  "(string \<Rightarrow> nat) \<Rightarrow> ('w, 'z) weight_ops_scheme \<Rightarrow> symbol_table option \<Rightarrow> symbol_table option \<Rightarrow> 'w vfst \<Rightarrow> 'w vfst option" where
  "RelabelTables h W new_isymbols new_osymbols f =
     RelabelSymbols h W (isymbols f) new_isymbols [] True (osymbols f) new_osymbols [] True f"

section \<open>What Relabel computes\<close>

definition relabel_arc :: "label_pairs \<Rightarrow> label_pairs \<Rightarrow> 'w arc \<Rightarrow> 'w arc" where
  "relabel_arc ipairs opairs a =
     Arc (the (relabel_label ipairs (ilabel a))) (the (relabel_label opairs (olabel a))) (weight a) (nextstate a)"

lemma relabel_arc_sel [simp]:
  "ilabel (relabel_arc ip op a) = the (relabel_label ip (ilabel a))" "olabel (relabel_arc ip op a) = the (relabel_label op (olabel a))"
  "weight (relabel_arc ip op a) = weight a" "nextstate (relabel_arc ip op a) = nextstate a"
  by (simp_all add: relabel_arc_def)

text \<open>An arc has targets if neither of its labels is mapped to \<open>kNoLabel\<close>.\<close>

definition has_targets :: "label_pairs \<Rightarrow> label_pairs \<Rightarrow> 'w arc \<Rightarrow> bool" where
  "has_targets ip op a \<longleftrightarrow> relabel_label ip (ilabel a) \<noteq> None \<and> relabel_label op (olabel a) \<noteq> None"

lemma relabel_loop_Cons:
  "has_targets ip op (Arcs f s ! i) \<Longrightarrow>
    relabel_loop W ip op ((s, i) # rest) f = relabel_loop W ip op rest (SetValue W s i (relabel_arc ip op (Arcs f s ! i)) f)"
  "\<not> has_targets ip op (Arcs f s ! i) \<Longrightarrow> relabel_loop W ip op ((s, i) # rest) f = (True, SetPropertiesMask kError kError f)"
  by (auto simp: has_targets_def relabel_arc_def Let_def split: option.splits)

declare relabel_loop.simps(2) [simp del]

definition in_range :: "'w vfst \<Rightarrow> (nat \<times> nat) list \<Rightarrow> bool" where
  "in_range f ps \<longleftrightarrow> (\<forall>(s, i) \<in> set ps. s < NumStates f \<and> i < length (Arcs f s))"

lemma relabel_step_obs:
  assumes "wf_fst f" and "s < NumStates f" and "i < length (Arcs f s)" and "nextstate a = nextstate (Arcs f s ! i)"
  shows "wf_fst (SetValue W s i a f)" "in_range f ps \<Longrightarrow> in_range (SetValue W s i a f) ps"
    "Arcs (SetValue W s i a f) r ! j = (if r = s \<and> j = i then a else Arcs f r ! j)"
    "length (Arcs (SetValue W s i a f) r) = length (Arcs f r)"
proof -
  show "wf_fst (SetValue W s i a f)"
    using assms wf_target [OF assms(1,2), of "Arcs f s ! i"] by (intro wf_SetValue) simp_all
  show l: "length (Arcs (SetValue W s i a f) r) = length (Arcs f r)" for r
    using assms(2) by (simp add: SetValue_eq)
  show "Arcs (SetValue W s i a f) r ! j = (if r = s \<and> j = i then a else Arcs f r ! j)"
    using assms(2,3) by (auto simp: SetValue_eq nth_list_update)
  show "in_range f ps \<Longrightarrow> in_range (SetValue W s i a f) ps"
    by (auto simp: in_range_def l SetValue_eq)
qed

lemma relabel_loop_obs:
  assumes "wf_fst f" and "in_range f ps" and "distinct ps" and "\<forall>(s, i) \<in> set ps. has_targets ip op (Arcs f s ! i)"
  shows "\<exists>g. relabel_loop W ip op ps f = (False, g) \<and> wf_fst g \<and> start g = start f \<and> NumStates g = NumStates f \<and>
    (\<forall>r. Final g r = Final f r) \<and> (\<forall>r. length (Arcs g r) = length (Arcs f r)) \<and>
    (\<forall>r j. Arcs g r ! j = (if (r, j) \<in> set ps then relabel_arc ip op (Arcs f r ! j) else Arcs f r ! j))"
  using assms
proof (induction ps arbitrary: f)
  case (Cons p ps)
  obtain s i where p: "p = (s, i)" by (cases p)
  have si: "s < NumStates f" "i < length (Arcs f s)" "has_targets ip op (Arcs f s ! i)"
    using Cons.prems p by (auto simp: in_range_def)
  let ?a = "relabel_arc ip op (Arcs f s ! i)"
  let ?f = "SetValue W s i ?a f"
  note O = relabel_step_obs [OF Cons.prems(1) si(1,2), where a = ?a and W = W]
  have "in_range ?f ps" using O(2) [of ps] Cons.prems(2) by (simp add: in_range_def)
  moreover have "\<forall>(r, j) \<in> set ps. has_targets ip op (Arcs ?f r ! j)"
    using Cons.prems(3,4) p O(3) by auto
  ultimately obtain g where g: "relabel_loop W ip op ps ?f = (False, g)" "wf_fst g" "start g = start ?f"
    "NumStates g = NumStates ?f" "\<forall>r. Final g r = Final ?f r" "\<forall>r. length (Arcs g r) = length (Arcs ?f r)"
    "\<forall>r j. Arcs g r ! j = (if (r, j) \<in> set ps then relabel_arc ip op (Arcs ?f r ! j) else Arcs ?f r ! j)"
    using Cons.IH [of ?f] O(1) Cons.prems(3) by auto
  show ?case
  proof (intro exI conjI)
    show "relabel_loop W ip op (p # ps) f = (False, g)" using g(1) si(3) by (simp add: p relabel_loop_Cons)
    show "\<forall>r j. Arcs g r ! j = (if (r, j) \<in> set (p # ps) then relabel_arc ip op (Arcs f r ! j) else Arcs f r ! j)"
      using g(7) O(3) Cons.prems(3) by (auto simp: p)
  qed (use g O(4) si(1) in \<open>simp_all add: SetValue_eq\<close>)
qed auto

lemma arc_positions_props:
  "set (arc_positions f) = {(s, i). s < NumStates f \<and> i < length (Arcs f s)}" "distinct (arc_positions f)"
  "in_range f (arc_positions f)"
proof -
  show s: "set (arc_positions f) = {(s, i). s < NumStates f \<and> i < length (Arcs f s)}"
    by (auto simp: arc_positions_def NumArcs_def Arcs_def)
  have "distinct (concat (map (\<lambda>s. map (Pair s) [0 ..< NumArcs f s]) ns))" if "distinct ns" for ns
    using that by (induction ns) (auto simp: distinct_map inj_on_def)
  then show "distinct (arc_positions f)" by (simp add: arc_positions_def)
  show "in_range f (arc_positions f)" using s by (auto simp: in_range_def)
qed

lemma has_targets_positions:
  "(\<forall>(s, i) \<in> set (arc_positions f). has_targets ip op (Arcs f s ! i)) \<longleftrightarrow> (\<forall>(s, a) \<in> trans f. has_targets ip op a)"
  unfolding arc_positions_props(1) by (fastforce simp: trans_iff in_set_conv_nth)

lemma Relabel_image:
  assumes wf: "wf_fst f" and t: "\<forall>(s, a) \<in> trans f. has_targets ip op a"
  shows "\<exists>g. Relabel W ip op f = SetPropertiesMask (RelabelProperties (Properties f kFstProperties)) kFstProperties g \<and>
    wf_fst g \<and> label_image (relabel_arc ip op) f g"
proof -
  from relabel_loop_obs [OF wf arc_positions_props(3,2)] t
  obtain g where g: "relabel_loop W ip op (arc_positions f) f = (False, g)" "wf_fst g" "start g = start f"
    "NumStates g = NumStates f" "\<forall>r. Final g r = Final f r" "\<forall>r. length (Arcs g r) = length (Arcs f r)"
    "\<forall>r j. Arcs g r ! j = (if (r, j) \<in> set (arc_positions f) then relabel_arc ip op (Arcs f r ! j) else Arcs f r ! j)"
    unfolding has_targets_positions by blast
  have "Arcs g s = map (relabel_arc ip op) (Arcs f s)" if "s < NumStates f" for s
    using that g(6,7) by (intro nth_equalityI) (simp_all add: arc_positions_props(1))
  then have "label_image (relabel_arc ip op) f g"
    using g by (simp add: label_image_def arc_image_def)
  moreover have "Relabel W ip op f = SetPropertiesMask (RelabelProperties (Properties f kFstProperties)) kFstProperties g"
    using g(1) by (simp add: Relabel_def)
  ultimately show ?thesis using g(2) by blast
qed

text \<open>A side keeps epsilon if it maps the label 0, and no other label, to 0.\<close>

definition keeps_epsilon :: "label_pairs \<Rightarrow> bool" where
  "keeps_epsilon pairs \<longleftrightarrow> (\<forall>l. relabel_label pairs l = Some 0 \<longleftrightarrow> l = 0)"

definition new_label :: "label_pairs \<Rightarrow> int \<Rightarrow> int" where
  "new_label pairs l = the (relabel_label pairs l)"

lemma relabel_strings:
  assumes "keeps_epsilon ip" "keeps_epsilon op" "\<forall>a \<in> set as. has_targets ip op a"
  shows "istring (map (relabel_arc ip op) as) = map (new_label ip) (istring as)"
    "ostring (map (relabel_arc ip op) as) = map (new_label op) (ostring as)"
proof -
  have "(the (relabel_label ip (ilabel a)) = 0) = (ilabel a = 0)" "(the (relabel_label op (olabel a)) = 0) = (olabel a = 0)"
    if "a \<in> set as" for a
    using assms that unfolding keeps_epsilon_def has_targets_def by (metis option.collapse option.sel)+
  then show "istring (map (relabel_arc ip op) as) = map (new_label ip) (istring as)"
    "ostring (map (relabel_arc ip op) as) = map (new_label op) (ostring as)"
    using assms(3) by (induction as) (auto simp: new_label_def)
qed

lemma path_arcs: "path f s as t \<Longrightarrow> a \<in> set as \<Longrightarrow> \<exists>r. (r, a) \<in> trans f"
  by (induction as arbitrary: s) auto

theorem relabel_transduces:
  assumes wf: "wf_fst f" and t: "\<forall>(s, a) \<in> trans f. has_targets ip op a" and e: "keeps_epsilon ip" "keeps_epsilon op"
  shows "transduces W (Relabel W ip op f) x y w \<longleftrightarrow>
    (\<exists>x' y'. transduces W f x' y' w \<and> x = map (new_label ip) x' \<and> y = map (new_label op) y')"
proof -
  from Relabel_image [OF wf t] obtain g where
    g: "Relabel W ip op f = SetPropertiesMask (RelabelProperties (Properties f kFstProperties)) kFstProperties g"
    "label_image (relabel_arc ip op) f g" by blast
  have "transduces W (Relabel W ip op f) x y w \<longleftrightarrow> transduces W g x y w"
    by (rule same_states_transduces) (simp_all add: g(1))
  also have "\<dots> \<longleftrightarrow> (\<exists>i as t. start f = Some i \<and> path f i as t \<and> final_state W f t \<and> x = map (new_label ip) (istring as) \<and>
      y = map (new_label op) (ostring as) \<and> w = Times W (path_weight W as) (Final f t))"
  proof -
    have "\<forall>a \<in> set as. has_targets ip op a" if "path f i as t" for i as t
      using path_arcs [OF that] assms(2) by fastforce
    then show ?thesis
      unfolding label_image_transduces [OF g(2)] using relabel_strings [OF e] by (metis (no_types, lifting))
  qed
  also have "\<dots> \<longleftrightarrow> (\<exists>x' y'. transduces W f x' y' w \<and> x = map (new_label ip) x' \<and> y = map (new_label op) y')"
    unfolding transduces_def transduces_from_def by blast
  finally show ?thesis .
qed

section \<open>The invariant and errors\<close>

lemma RelabelProperties_sound:
  assumes im: "label_image \<alpha> f g" and p: "props_sound W f p"
  shows "props_sound W g (RelabelProperties p)"
proof (rule props_soundI)
  fix t
  have b: "bit (RelabelProperties p) (pos_bit t) \<Longrightarrow> unlabelled t \<and> bit p (pos_bit t)"
    "bit (RelabelProperties p) (Suc (pos_bit t)) \<Longrightarrow> unlabelled t \<and> bit p (Suc (pos_bit t))"
    by (cases t; simp add: RelabelProperties_def prop_bits)+
  show "bit (RelabelProperties p) (pos_bit t) \<Longrightarrow> holds W g t"
    using b(1) props_soundD(1) [OF p] label_image_unlabelled [OF im] by blast
  show "bit (RelabelProperties p) (Suc (pos_bit t)) \<Longrightarrow> \<not> holds W g t"
    using b(2) props_soundD(2) [OF p] label_image_unlabelled [OF im] by blast
qed

text \<open>Relabelling keeps the invariant, whether it succeeds or not.\<close>

lemma relabel_loop_ok:
  assumes "fst_ok W f" and "in_range f ps" and Z: "Weq W (Zero W) (Zero W)"
  shows "fst_ok W (snd (relabel_loop W ip op ps f))"
  using assms(1,2)
proof (induction ps arbitrary: f)
  case (Cons p ps)
  obtain s i where p: "p = (s, i)" by (cases p)
  have si: "s < NumStates f" "i < length (Arcs f s)" and wf: "wf_fst f"
    using Cons.prems p by (auto simp: in_range_def fst_ok_def)
  show ?case
  proof (cases "has_targets ip op (Arcs f s ! i)")
    case True
    let ?f = "SetValue W s i (relabel_arc ip op (Arcs f s ! i)) f"
    have "mutation W f ?f"
      using si wf_target [OF wf si(1), of "Arcs f s ! i"] by (intro mutation.intros) simp_all
    then have "fst_ok W ?f" using Cons.prems(1) Z by (auto intro: fst_ok_mutation)
    moreover have "in_range f ps" using Cons.prems(2) by (simp add: in_range_def)
    then have "in_range ?f ps" by (rule relabel_step_obs(2) [OF wf si, rotated]) simp
    ultimately show ?thesis using Cons.IH True by (simp add: p relabel_loop_Cons)
  next
    case False
    then show ?thesis using SetError_ok Cons.prems(1) by (simp add: p relabel_loop_Cons)
  qed
qed simp

lemma relabel_loop_error:
  assumes "wf_fst f" and "in_range f ps" and "\<exists>(s, i) \<in> set ps. \<not> has_targets ip op (Arcs f s ! i)" and "distinct ps"
  shows "fst (relabel_loop W ip op ps f) \<and> bit (properties (snd (relabel_loop W ip op ps f))) 2"
  using assms
proof (induction ps arbitrary: f)
  case (Cons p ps)
  obtain s i where p: "p = (s, i)" by (cases p)
  have si: "s < NumStates f" "i < length (Arcs f s)" using Cons.prems p by (auto simp: in_range_def)
  show ?case
  proof (cases "has_targets ip op (Arcs f s ! i)")
    case True
    let ?a = "relabel_arc ip op (Arcs f s ! i)"
    let ?f = "SetValue W s i ?a f"
    note O = relabel_step_obs [OF Cons.prems(1) si, where a = ?a and W = W]
    have "in_range ?f ps" using O(2) [of ps] Cons.prems(2) by (simp add: in_range_def)
    moreover have "\<exists>(s, i) \<in> set ps. \<not> has_targets ip op (Arcs ?f s ! i)"
    proof -
      obtain r j where "(r, j) \<in> set ps" "\<not> has_targets ip op (Arcs f r ! j)" "(r, j) \<noteq> (s, i)"
        using Cons.prems(3,4) True p by auto
      then show ?thesis using O(3) [of r j] by (intro bexI [of _ "(r, j)"]) auto
    qed
    ultimately show ?thesis using Cons.IH [of ?f] O(1) Cons.prems(4) True by (simp add: p relabel_loop_Cons)
  next
    case False
    then show ?thesis by (simp add: p relabel_loop_Cons SetPropertiesMask_def prop_bits)
  qed
qed simp

theorem relabel_error:
  assumes "wf_fst f" and "\<exists>(s, a) \<in> trans f. \<not> has_targets ip op a"
  shows "has (properties (Relabel W ip op f)) kError"
proof -
  have "\<exists>(s, i) \<in> set (arc_positions f). \<not> has_targets ip op (Arcs f s ! i)"
    using has_targets_positions [of f ip op] assms(2) by auto
  from relabel_loop_error [OF assms(1) arc_positions_props(3) this arc_positions_props(2), of W] show ?thesis
    by (auto simp: Relabel_def Let_def case_prod_beta prop_bits)
qed

theorem relabel_ok:
  assumes ok: "fst_ok W f" and Z: "Weq W (Zero W) (Zero W)"
  shows "fst_ok W (Relabel W ip op f)"
proof (cases "\<forall>(s, a) \<in> trans f. has_targets ip op a")
  case True
  have wf: "wf_fst f" and ps: "props_sound W f (properties f)" using ok by (simp_all add: fst_ok_def)
  from Relabel_image [OF wf True] obtain g where
    g: "Relabel W ip op f = SetPropertiesMask (RelabelProperties (Properties f kFstProperties)) kFstProperties g"
    "wf_fst g" "label_image (relabel_arc ip op) f g" by blast
  have "bit (RelabelProperties (Properties f kFstProperties)) n" if "n \<in> {0, 1}" for n
    using Properties_static [OF that, of f] ok that by (auto simp: fst_ok_def RelabelProperties_def prop_bits)
  then show ?thesis
    unfolding g(1) using g(2) props_sound_SetPropertiesMask [OF RelabelProperties_sound [OF g(3) props_sound_Properties [OF ps]]]
    by (simp add: fst_ok_def static_ops wf_fst_def trans_def NumStates_def Arcs_def)
next
  case False
  have wf: "wf_fst f" using ok by (simp add: fst_ok_def)
  have "\<exists>(s, i) \<in> set (arc_positions f). \<not> has_targets ip op (Arcs f s ! i)"
    using has_targets_positions [of f ip op] False by auto
  from relabel_loop_error [OF wf arc_positions_props(3) this arc_positions_props(2), of W]
  have "Relabel W ip op f = snd (relabel_loop W ip op (arc_positions f) f)"
    by (auto simp: Relabel_def Let_def case_prod_beta)
  then show ?thesis using relabel_loop_ok [OF ok arc_positions_props(3) Z] by simp
qed

section \<open>Pairs from symbol tables\<close>

text \<open>
  The pairs that two symbol tables give: every key of the old table is paired with the key that
  its symbol has in the new table, or with the label of the unknown symbol.
\<close>

theorem relabel_pairs_spec:
  assumes old: "table_ok h old" and new: "table_ok h new" and d: "unknown_label h new unknown = Some u"
  shows "relabel_pairs h (Some old) (Some new) unknown =
    Some (map (\<lambda>(k, s). (k, if s \<in> snd ` set (entries new) then the (FindKey h new s) else u)) (entries old))"
proof -
  define kf where "kf s = the (FindKey h new s)" for s
  have find: "FindKey h new s = Some (kf s)" for s
    using FindKey_entries [OF new] by (cases "s \<in> snd ` set (entries new)") (auto simp: kf_def)
  have key: "kf s = kNoLabel \<longleftrightarrow> s \<notin> snd ` set (entries new)" for s
  proof (cases "s \<in> snd ` set (entries new)")
    case True
    then obtain k where k: "(k, s) \<in> set (entries new)" by auto
    then have "k \<in> set (keys new)" by (metis entries_keys(1) [OF new] fst_conv image_eqI list.set_map)
    then show ?thesis
      using True FindKey_entries(1) [OF new k] table_okD(7) [OF new] by (simp add: kf_def kNoLabel_def kNoSymbol_def)
  next
    case False
    then show ?thesis using FindKey_entries(2) [OF new] by (simp add: kf_def kNoLabel_def kNoSymbol_def)
  qed
  have step: "GetNthKey old (int p) = fst (entries old ! p)" "FindSymbol old (GetNthKey old (int p)) = snd (entries old ! p)"
    if "p < length (entries old)" for p
  proof -
    have p: "p < length (keys old)" using that by (simp add: entries_def)
    have e: "entries old ! p = (keys old ! p, dsm_symbols (symmap old) ! p)"
      using p table_okD(4) [OF old] by (simp add: entries_def)
    show k: "GetNthKey old (int p) = fst (entries old ! p)" using GetNthKey_keys [OF old p] e by simp
    have "(keys old ! p, dsm_symbols (symmap old) ! p) \<in> set (entries old)" using e that by (metis nth_mem)
    then show "FindSymbol old (GetNthKey old (int p)) = snd (entries old ! p)"
      using FindSymbol_entries(1) [OF old] k e by simp
  qed
  let ?g = "\<lambda>(k, s). (k, if s \<in> snd ` set (entries new) then the (FindKey h new s) else u)"
  have "table_pairs h old new u ps = Some (map (\<lambda>p. ?g (entries old ! p)) ps)" if "\<forall>p \<in> set ps. p < length (entries old)" for ps
    using that
  proof (induction ps)
    case (Cons p ps)
    have "p < length (entries old)" using Cons.prems by simp
    note S = step [OF this]
    show ?case
      using Cons key [of "snd (entries old ! p)"] S by (simp add: Let_def case_prod_beta find)
  qed simp
  moreover have "length (entries old) = Size (symmap old)" using table_okD(4) [OF old] by (simp add: entries_def Size_def)
  ultimately have "table_pairs h old new u [0 ..< Size (symmap old)] = Some (map (\<lambda>p. ?g (entries old ! p)) [0 ..< length (entries old)])"
    by simp
  also have "map (\<lambda>p. ?g (entries old ! p)) [0 ..< length (entries old)] = map ?g (entries old)"
    by (rule nth_equalityI) simp_all
  finally show ?thesis using d by (simp add: relabel_pairs_def)
qed

end
