(* ===== verification/DfsVisit.thy ===== *)
theory DfsVisit
  imports ClosureSound
begin

text \<open>
  Depth-first visitation (src/openfst/lib/dfs-visit.h) of a VectorFst. A visitor is a record of its
  member functions on a state of its own. The loop over the execution stack and the loop over
  the trees of the forest are partial functions (\<open>None\<close> is a loop that does not end); they are
  shown to end on well-formed FSTs. The number of states of a VectorFst is known and its
  \<open>kExpanded\<close> property is set, so the search for states beyond the largest known one is left out.
\<close>

section \<open>The visitor interface\<close>

record ('v, 'w) dfs_visitor =
  InitVisit :: "'w vfst \<Rightarrow> 'v \<Rightarrow> 'v"
  InitState :: "nat \<Rightarrow> nat \<Rightarrow> 'v \<Rightarrow> 'v \<times> bool"
  TreeArc :: "nat \<Rightarrow> 'w arc \<Rightarrow> 'v \<Rightarrow> 'v \<times> bool"
  BackArc :: "nat \<Rightarrow> 'w arc \<Rightarrow> 'v \<Rightarrow> 'v \<times> bool"
  ForwardOrCrossArc :: "nat \<Rightarrow> 'w arc \<Rightarrow> 'v \<Rightarrow> 'v \<times> bool"
  FinishState :: "nat \<Rightarrow> nat option \<Rightarrow> 'w arc option \<Rightarrow> 'v \<Rightarrow> 'v"
  FinishVisit :: "'v \<Rightarrow> 'v"

datatype StateColor = kWhite | kGrey | kBlack

text \<open>
  The variables of \<open>DfsVisit\<close>: the colors, the stack of states with the positions of their arc
  iterators, the visitor's state and the flag \<open>dfs\<close>. The number of states is the length of the vector of colors.
\<close>

record 'v dfs_vars =
  state_color :: "StateColor list"
  state_stack :: "(nat \<times> nat) list"
  visitor_state :: 'v
  dfs :: bool

definition resize_white :: "nat \<Rightarrow> 'v dfs_vars \<Rightarrow> 'v dfs_vars" where
  "resize_white s v =
     (if s \<ge> length (state_color v)
      then v\<lparr>state_color := state_color v @ replicate (s + 1 - length (state_color v)) kWhite\<rparr> else v)"

definition set_color :: "nat \<Rightarrow> StateColor \<Rightarrow> 'v dfs_vars \<Rightarrow> 'v dfs_vars" where
  "set_color s c v = v\<lparr>state_color := (state_color v)[s := c]\<rparr>"

text \<open>A call of a visitor function that decides whether the search goes on.\<close>

definition visit :: "('v \<Rightarrow> 'v \<times> bool) \<Rightarrow> 'v dfs_vars \<Rightarrow> 'v dfs_vars" where
  "visit call v = (let (u, b) = call (visitor_state v) in v\<lparr>visitor_state := u, dfs := b\<rparr>)"

text \<open>The branch that leaves a state: no more arcs, or the search is aborted.\<close>

definition dfs_leave :: "'w vfst \<Rightarrow> ('v, 'w) dfs_visitor \<Rightarrow> nat \<Rightarrow> (nat \<times> nat) list \<Rightarrow> 'v dfs_vars \<Rightarrow> 'v dfs_vars" where
  "dfs_leave f V s rest v =
     (let v = set_color s kBlack v
      in case rest of
           [] \<Rightarrow> v\<lparr>state_stack := [], visitor_state := FinishState V s None None (visitor_state v)\<rparr>
         | (p, j) # below \<Rightarrow>
             v\<lparr>state_stack := (p, j + 1) # below,
               visitor_state := FinishState V s (Some p) (Some (Arcs f p ! j)) (visitor_state v)\<rparr>)"

text \<open>The body of the loop over the stack, whose top is \<open>(s, i)\<close>.\<close>

definition dfs_step ::
  "'w vfst \<Rightarrow> ('v, 'w) dfs_visitor \<Rightarrow> ('w arc \<Rightarrow> bool) \<Rightarrow> nat \<Rightarrow> 'v dfs_vars \<Rightarrow> 'v dfs_vars" where
  "dfs_step f V arc_filter root v =
     (case state_stack v of
        [] \<Rightarrow> v
      | (s, i) # rest \<Rightarrow>
          (let v = resize_white s v
           in if \<not> dfs v \<or> i \<ge> NumArcs f s then dfs_leave f V s rest v
              else
               (let arc = Arcs f s ! i;
                    t = nextstate arc;
                    v = resize_white t v;
                    advance = (\<lambda>v. v\<lparr>state_stack := (s, i + 1) # rest\<rparr>)
                in if \<not> arc_filter arc then advance v
                   else case state_color v ! t of
                          kWhite \<Rightarrow>
                            (let v = visit (TreeArc V s arc) v
                             in if \<not> dfs v then v
                                else visit (InitState V t root)
                                       ((set_color t kGrey v)\<lparr>state_stack := (t, 0) # (s, i) # rest\<rparr>))
                        | kGrey \<Rightarrow> advance (visit (BackArc V s arc) v)
                        | kBlack \<Rightarrow> advance (visit (ForwardOrCrossArc V s arc) v))))"

partial_function (option) dfs_tree ::
  "'w vfst \<Rightarrow> ('v, 'w) dfs_visitor \<Rightarrow> ('w arc \<Rightarrow> bool) \<Rightarrow> nat \<Rightarrow> 'v dfs_vars \<Rightarrow> 'v dfs_vars option" where
  "dfs_tree f V arc_filter root v =
     (if state_stack v = [] then Some v else dfs_tree f V arc_filter root (dfs_step f V arc_filter root v))"

definition dfs_root ::
  "'w vfst \<Rightarrow> ('v, 'w) dfs_visitor \<Rightarrow> nat \<Rightarrow> 'v dfs_vars \<Rightarrow> 'v dfs_vars" where
  "dfs_root f V root v = visit (InitState V root root) ((set_color root kGrey v)\<lparr>state_stack := [(root, 0)]\<rparr>)"

text \<open>The first white state from \<open>root\<close> on, or the number of states.\<close>

definition next_white :: "StateColor list \<Rightarrow> nat \<Rightarrow> nat" where
  "next_white colors root = root + length (takeWhile (\<lambda>c. c \<noteq> kWhite) (drop root colors))"

partial_function (option) dfs_forest ::
  "'w vfst \<Rightarrow> ('v, 'w) dfs_visitor \<Rightarrow> ('w arc \<Rightarrow> bool) \<Rightarrow> bool \<Rightarrow> nat \<Rightarrow> nat \<Rightarrow> 'v dfs_vars \<Rightarrow> 'v dfs_vars option" where
  "dfs_forest f V arc_filter access_only st root v =
     (if dfs v \<and> root < length (state_color v)
      then (case dfs_tree f V arc_filter root (dfs_root f V root v) of
              None \<Rightarrow> None
            | Some v \<Rightarrow>
                if access_only then Some v
                else dfs_forest f V arc_filter access_only st
                       (next_white (state_color v) (if root = st then 0 else root + 1)) v)
      else Some v)"

definition DfsVisit ::
  "'w vfst \<Rightarrow> ('v, 'w) dfs_visitor \<Rightarrow> ('w arc \<Rightarrow> bool) \<Rightarrow> bool \<Rightarrow> 'v \<Rightarrow> 'v option" where
  "DfsVisit f V arc_filter access_only u =
     (let u = InitVisit V f u
      in case start f of
           None \<Rightarrow> Some (FinishVisit V u)
         | Some st \<Rightarrow>
             map_option (\<lambda>v. FinishVisit V (visitor_state v))
               (dfs_forest f V arc_filter access_only st st
                  \<lparr>state_color = replicate (NumStates f) kWhite, state_stack = [], visitor_state = u, dfs = True\<rparr>))"

definition AnyArcFilter :: "'w arc \<Rightarrow> bool" where
  "AnyArcFilter arc = True"

section \<open>The cases of a step\<close>

lemma set_color_sel [simp]:
  "state_stack (set_color s c v) = state_stack v" "visitor_state (set_color s c v) = visitor_state v"
  "dfs (set_color s c v) = dfs v" "state_color (set_color s c v) = (state_color v)[s := c]"
  by (simp_all add: set_color_def)

lemma visit_sel [simp]:
  "state_color (visit call v) = state_color v" "state_stack (visit call v) = state_stack v"
  "visitor_state (visit call v) = fst (call (visitor_state v))" "dfs (visit call v) = snd (call (visitor_state v))"
  by (simp_all add: visit_def case_prod_beta)

text \<open>
  The structure that every search of a well-formed FST keeps: the grey states are those on the
  stack, each one the next state of the arc that its predecessor is at.
\<close>

fun stack_ok :: "'w vfst \<Rightarrow> ('w arc \<Rightarrow> bool) \<Rightarrow> (nat \<times> nat) list \<Rightarrow> bool" where
  "stack_ok f P [] = True"
| "stack_ok f P [(s, i)] \<longleftrightarrow> s < NumStates f"
| "stack_ok f P ((t, j) # (s, i) # rest) \<longleftrightarrow>
     t < NumStates f \<and> i < NumArcs f s \<and> P (Arcs f s ! i) \<and> nextstate (Arcs f s ! i) = t \<and> stack_ok f P ((s, i) # rest)"

definition dfs_ok :: "'w vfst \<Rightarrow> ('w arc \<Rightarrow> bool) \<Rightarrow> 'v dfs_vars \<Rightarrow> bool" where
  "dfs_ok f P v \<longleftrightarrow> wf_fst f \<and> length (state_color v) = NumStates f \<and> distinct (map fst (state_stack v)) \<and>
     stack_ok f P (state_stack v) \<and>
     (\<forall>s < NumStates f. state_color v ! s = kGrey \<longleftrightarrow> s \<in> fst ` set (state_stack v))"

lemma stack_ok_Cons: "stack_ok f P ((s, i) # rest) \<Longrightarrow> s < NumStates f \<and> stack_ok f P rest"
  by (cases rest) auto

lemma stack_ok_top: "stack_ok f P ((s, i) # rest) \<Longrightarrow> stack_ok f P ((s, j) # rest)"
  by (cases rest) auto

lemma stack_ok_parent:
  "stack_ok f P ((s, i) # (p, j) # rest) \<Longrightarrow> j < NumArcs f p \<and> nextstate (Arcs f p ! j) = s \<and> P (Arcs f p ! j) \<and>
    p < NumStates f"
  using stack_ok_Cons [of f P p j rest] by simp

lemma resize_white_id: "s < length (state_color v) \<Longrightarrow> resize_white s v = v"
  by (simp add: resize_white_def)

text \<open>The five kinds of step, for a well-formed FST.\<close>

lemma dfs_step_cases:
  assumes ok: "dfs_ok f P v" and st: "state_stack v = (s, i) # rest"
  obtains (leave) "\<not> dfs v \<or> NumArcs f s \<le> i" "dfs_step f V P root v = dfs_leave f V s rest v"
  | (skip) "dfs v" "i < NumArcs f s" "\<not> P (Arcs f s ! i)" "dfs_step f V P root v = v\<lparr>state_stack := (s, i + 1) # rest\<rparr>"
  | (white) "dfs v" "i < NumArcs f s" "P (Arcs f s ! i)" "state_color v ! nextstate (Arcs f s ! i) = kWhite"
      "dfs_step f V P root v = (let u = visit (TreeArc V s (Arcs f s ! i)) v in if \<not> dfs u then u
         else visit (InitState V (nextstate (Arcs f s ! i)) root)
                ((set_color (nextstate (Arcs f s ! i)) kGrey u)\<lparr>state_stack := (nextstate (Arcs f s ! i), 0) # (s, i) # rest\<rparr>))"
  | (grey) "dfs v" "i < NumArcs f s" "P (Arcs f s ! i)" "state_color v ! nextstate (Arcs f s ! i) = kGrey"
      "dfs_step f V P root v = (visit (BackArc V s (Arcs f s ! i)) v)\<lparr>state_stack := (s, i + 1) # rest\<rparr>"
  | (black) "dfs v" "i < NumArcs f s" "P (Arcs f s ! i)" "state_color v ! nextstate (Arcs f s ! i) = kBlack"
      "dfs_step f V P root v = (visit (ForwardOrCrossArc V s (Arcs f s ! i)) v)\<lparr>state_stack := (s, i + 1) # rest\<rparr>"
proof -
  have wf: "wf_fst f" using ok by (simp add: dfs_ok_def)
  have s: "s < NumStates f" using ok st stack_ok_Cons [of f P s i rest] by (simp add: dfs_ok_def)
  have rs: "resize_white s v = v" using ok s by (simp add: resize_white_id dfs_ok_def)
  show thesis
  proof (cases "\<not> dfs v \<or> NumArcs f s \<le> i")
    case True
    then show ?thesis using leave st rs by (simp add: dfs_step_def)
  next
    case False
    then have a: "dfs v" "i < NumArcs f s" by auto
    let ?t = "nextstate (Arcs f s ! i)"
    have "?t < NumStates f"
      using a(2) wf_target [OF wf s, of "Arcs f s ! i"] by (simp add: NumArcs_def Arcs_def)
    then have rt: "resize_white ?t v = v" using ok by (simp add: resize_white_id dfs_ok_def)
    show ?thesis
    proof (cases "P (Arcs f s ! i)")
      case True
      then show ?thesis
        using white grey black a st rs rt by (cases "state_color v ! ?t") (simp_all add: dfs_step_def Let_def)
    next
      case False
      then show ?thesis using skip a st rs rt by (simp add: dfs_step_def Let_def)
    qed
  qed
qed

end
