(* ===== verification/DfsLaws.thy ===== *)
theory DfsLaws
  imports DfsVisit
begin

text \<open>
  What every depth-first visit keeps, and that it ends. A step of the loop over the stack keeps
  \<open>dfs_ok\<close> and makes a lexicographic measure smaller: the number of white states, the work left
  on the stack, the flag \<open>dfs\<close>. The locale \<open>dfs_invariant\<close> is the contract by which a visitor is
  verified: from an invariant that each single step keeps, it concludes that \<open>DfsVisit\<close> returns,
  with the invariant and all states finished.
\<close>

section \<open>The effect of a step on the stack and the colors\<close>

definition next_top :: "(nat \<times> nat) list \<Rightarrow> (nat \<times> nat) list" where
  "next_top stack = (case stack of [] \<Rightarrow> [] | (s, i) # rest \<Rightarrow> (s, i + 1) # rest)"

lemma next_top_simps [simp]: "next_top [] = []" "next_top ((s, i) # rest) = (s, i + 1) # rest"
  by (simp_all add: next_top_def)

lemma next_top_states [simp]: "map fst (next_top stack) = map fst stack"
  by (cases stack) auto

lemma next_top_set [simp]: "fst ` set (next_top stack) = fst ` set stack"
  by (cases stack) auto

lemma stack_ok_next_top: "stack_ok f P stack \<Longrightarrow> stack_ok f P (next_top stack)"
  by (cases stack) (auto dest: stack_ok_top)

lemma dfs_leave_sel [simp]:
  "state_color (dfs_leave f V s rest v) = (state_color v)[s := kBlack]"
  "state_stack (dfs_leave f V s rest v) = next_top rest"
  "dfs (dfs_leave f V s rest v) = dfs v"
  by (auto simp: dfs_leave_def Let_def split: list.splits prod.splits)

definition whites :: "'v dfs_vars \<Rightarrow> nat set" where
  "whites v = {s. s < length (state_color v) \<and> state_color v ! s = kWhite}"

lemma finite_whites [simp]: "finite (whites v)"
  by (simp add: whites_def)

lemma dfs_ok_wf: "dfs_ok f P v \<Longrightarrow> wf_fst f"
  by (simp add: dfs_ok_def)

lemma dfs_ok_top: "dfs_ok f P v \<Longrightarrow> state_stack v = (s, i) # rest \<Longrightarrow>
    s < NumStates f \<and> s < length (state_color v) \<and> state_color v ! s = kGrey \<and> s \<notin> fst ` set rest \<and> stack_ok f P rest"
  using stack_ok_Cons [of f P s i rest] by (auto simp: dfs_ok_def)

lemma dfs_ok_arc:
  assumes ok: "dfs_ok f P v" and st: "state_stack v = (s, i) # rest" and i: "i < NumArcs f s"
  shows "nextstate (Arcs f s ! i) < NumStates f" "nextstate (Arcs f s ! i) < length (state_color v)"
    "state_color v ! nextstate (Arcs f s ! i) = kGrey \<Longrightarrow> nextstate (Arcs f s ! i) \<in> fst ` set (state_stack v)"
proof -
  show t: "nextstate (Arcs f s ! i) < NumStates f"
    using wf_target [OF dfs_ok_wf [OF ok], of s "Arcs f s ! i"] dfs_ok_top [OF ok st] i by (simp add: NumArcs_def Arcs_def)
  then show "nextstate (Arcs f s ! i) < length (state_color v)" using ok by (simp add: dfs_ok_def)
  show "nextstate (Arcs f s ! i) \<in> fst ` set (state_stack v)" if "state_color v ! nextstate (Arcs f s ! i) = kGrey"
    using ok t that unfolding dfs_ok_def by blast
qed

lemma dfs_ok_leave:
  assumes ok: "dfs_ok f P v" and st: "state_stack v = (s, i) # rest"
  shows "dfs_ok f P (dfs_leave f V s rest v)" "whites (dfs_leave f V s rest v) = whites v"
proof -
  note top = dfs_ok_top [OF ok st]
  have "(state_color v)[s := kBlack] ! t = kGrey \<longleftrightarrow> t \<in> fst ` set (next_top rest)" if "t < NumStates f" for t
    using ok st top that unfolding dfs_ok_def next_top_set by (cases "t = s") auto
  then show "dfs_ok f P (dfs_leave f V s rest v)"
    using ok st top by (simp add: dfs_ok_def stack_ok_next_top)
  show "whites (dfs_leave f V s rest v) = whites v"
    using top by (auto simp: whites_def nth_list_update split: if_splits)
qed

lemma dfs_ok_next_top:
  assumes ok: "dfs_ok f P v"
    and w: "state_color w = state_color v" "state_stack w = next_top (state_stack v)"
  shows "dfs_ok f P w"
  using ok by (simp add: dfs_ok_def w stack_ok_next_top)

lemma dfs_ok_cong:
  "dfs_ok f P v \<Longrightarrow> state_color w = state_color v \<Longrightarrow> state_stack w = state_stack v \<Longrightarrow> dfs_ok f P w"
  by (simp add: dfs_ok_def)

lemma dfs_ok_push:
  assumes ok: "dfs_ok f P v" and white: "t < NumStates f" "state_color v ! t = kWhite"
    and top: "state_stack v = [] \<or> (\<exists>s i rest. state_stack v = (s, i) # rest \<and> i < NumArcs f s \<and> P (Arcs f s ! i) \<and>
       nextstate (Arcs f s ! i) = t)"
    and w: "state_color w = (state_color v)[t := kGrey]" "state_stack w = (t, 0) # state_stack v"
  shows "dfs_ok f P w" "whites w = whites v - {t}" "t \<in> whites v"
proof -
  have new: "t \<notin> fst ` set (state_stack v)" using ok white by (auto simp: dfs_ok_def)
  have len: "t < length (state_color v)" using ok white by (simp add: dfs_ok_def)
  have "(state_color v)[t := kGrey] ! s = kGrey \<longleftrightarrow> s \<in> fst ` set ((t, 0) # state_stack v)" if "s < NumStates f" for s
    using ok len that unfolding dfs_ok_def by (cases "s = t") auto
  moreover have "stack_ok f P ((t, 0) # state_stack v)"
    using top ok white by (auto simp: dfs_ok_def)
  ultimately show "dfs_ok f P w" using ok new by (auto simp: dfs_ok_def w)
  show "whites w = whites v - {t}"
    using len by (auto simp: whites_def w nth_list_update split: if_splits)
  show "t \<in> whites v" using len white by (simp add: whites_def)
qed

section \<open>Steps end\<close>

definition stack_work :: "'w vfst \<Rightarrow> 'v dfs_vars \<Rightarrow> nat" where
  "stack_work f v = (\<Sum>(s, i) \<leftarrow> state_stack v. NumArcs f s - i) + length (state_stack v)"

definition dfs_order :: "'w vfst \<Rightarrow> ('v dfs_vars \<times> 'v dfs_vars) set" where
  "dfs_order f = measures [\<lambda>v. card (whites v), stack_work f, \<lambda>v. if dfs v then 1 else 0]"

lemma wf_dfs_order [simp]: "wf (dfs_order f)"
  by (simp add: dfs_order_def)

lemma stack_work_cong: "state_stack w = state_stack v \<Longrightarrow> stack_work f w = stack_work f v"
  by (simp add: stack_work_def)

lemma dfs_order_work: "whites w = whites v \<Longrightarrow> stack_work f w < stack_work f v \<Longrightarrow> (w, v) \<in> dfs_order f"
  by (simp add: dfs_order_def)

lemma dfs_order_white: "whites w = whites v - {t} \<Longrightarrow> t \<in> whites v \<Longrightarrow> (w, v) \<in> dfs_order f"
  using card_Diff1_less [of "whites v" t] by (simp add: dfs_order_def)

lemma whites_cong: "state_color w = state_color v \<Longrightarrow> whites w = whites v"
  by (simp add: whites_def)

text \<open>The cases of a step once more, as equations on the stack, the colors and the visitor.\<close>

lemma dfs_ok_step:
  assumes ok: "dfs_ok f P v" and ne: "state_stack v \<noteq> []"
  shows "dfs_ok f P (dfs_step f V P root v) \<and> whites (dfs_step f V P root v) \<subseteq> whites v \<and>
    (dfs_step f V P root v, v) \<in> dfs_order f"
proof -
  obtain s i rest where st: "state_stack v = (s, i) # rest" using ne by (cases "state_stack v") auto
  let ?a = "Arcs f s ! i" let ?w = "dfs_step f V P root v"
  have adv: "dfs_ok f P ?w \<and> whites ?w \<subseteq> whites v \<and> (?w, v) \<in> dfs_order f"
    if "i < NumArcs f s" "state_color ?w = state_color v" "state_stack ?w = (s, i + 1) # rest"
    using that st dfs_ok_next_top [OF ok, of ?w] whites_cong [of ?w v]
    by (auto intro!: dfs_order_work simp: stack_work_def)
  show ?thesis using ok st
  proof (cases rule: dfs_step_cases [where V = V and root = root])
    case leave
    have "stack_work f (dfs_leave f V s rest v) < stack_work f v"
      by (cases rest) (auto simp: stack_work_def st)
    then show ?thesis using leave(2) dfs_ok_leave [OF ok st, of V] by (simp add: dfs_order_work)
  next
    case skip
    then show ?thesis using adv by simp
  next
    case white
    let ?t = "nextstate ?a" let ?u = "visit (TreeArc V s ?a) v"
    have t: "?t < NumStates f" using dfs_ok_arc [OF ok st white(2)] by simp
    show ?thesis
    proof (cases "dfs ?u")
      case True
      then have w: "state_color ?w = (state_color v)[?t := kGrey]" "state_stack ?w = (?t, 0) # state_stack v"
        using white(5) by (simp_all add: Let_def st)
      have top: "state_stack v = [] \<or> (\<exists>s i rest. state_stack v = (s, i) # rest \<and> i < NumArcs f s \<and> P (Arcs f s ! i) \<and>
         nextstate (Arcs f s ! i) = ?t)" using white st by auto
      note push = dfs_ok_push [OF ok t white(4) top w]
      show ?thesis using push dfs_order_white [OF push(2,3)] by auto
    next
      case False
      then have w: "?w = ?u" using white(5) by (simp add: Let_def)
      have "(?u, v) \<in> dfs_order f"
        using False white(1) stack_work_cong [of ?u v f] whites_cong [of ?u v] by (simp add: dfs_order_def)
      then show ?thesis using w dfs_ok_cong [OF ok, of ?u] whites_cong [of ?u v] by simp
    qed
  next
    case grey
    then show ?thesis using adv by simp
  next
    case black
    then show ?thesis using adv by simp
  qed
qed

lemma dfs_ok_root:
  assumes ok: "dfs_ok f P v" and st: "state_stack v = []" and root: "root < NumStates f" "state_color v ! root = kWhite"
  shows "dfs_ok f P (dfs_root f V root v) \<and> whites (dfs_root f V root v) = whites v - {root}"
  using dfs_ok_push [OF ok root, of "dfs_root f V root v"] by (simp add: dfs_root_def st)

section \<open>The contract of a visitor\<close>

lemma next_white_spec:
  assumes "r \<le> length cs"
  shows "next_white cs r \<le> length cs" "r \<le> next_white cs r"
    "r \<le> t \<Longrightarrow> t < next_white cs r \<Longrightarrow> cs ! t \<noteq> kWhite"
    "next_white cs r < length cs \<Longrightarrow> cs ! next_white cs r = kWhite"
proof -
  let ?P = "\<lambda>c. c \<noteq> kWhite" let ?n = "length (takeWhile ?P (drop r cs))"
  have len: "?n \<le> length cs - r" using length_takeWhile_le [of ?P "drop r cs"] by simp
  then show "next_white cs r \<le> length cs" "r \<le> next_white cs r" using assms by (simp_all add: next_white_def)
  show "cs ! t \<noteq> kWhite" if "r \<le> t" "t < next_white cs r"
  proof -
    have "t - r < ?n" using that by (simp add: next_white_def)
    then have "takeWhile ?P (drop r cs) ! (t - r) \<in> set (takeWhile ?P (drop r cs))" by simp
    then have "?P (takeWhile ?P (drop r cs) ! (t - r))" by (metis (mono_tags, lifting) set_takeWhileD)
    moreover have "takeWhile ?P (drop r cs) ! (t - r) = cs ! t"
      using \<open>t - r < ?n\<close> that assms takeWhile_nth [of "t - r" ?P "drop r cs"] by simp
    ultimately show ?thesis by simp
  qed
  show "cs ! next_white cs r = kWhite" if "next_white cs r < length cs"
  proof -
    have "?n < length (drop r cs)" using that assms by (simp add: next_white_def)
    from nth_length_takeWhile [OF this] show ?thesis using assms by (simp add: next_white_def)
  qed
qed

locale dfs_invariant =
  fixes f :: "'w vfst" and V :: "('v, 'w) dfs_visitor" and P :: "'w arc \<Rightarrow> bool"
    and I :: "nat \<Rightarrow> 'v dfs_vars \<Rightarrow> bool"
  assumes init_root: "\<lbrakk>dfs_ok f P v; I r v; state_stack v = []; dfs v; root < NumStates f; state_color v ! root = kWhite;
        start f = Some root \<or> (\<forall>st. start f = Some st \<longrightarrow> st \<notin> whites v)\<rbrakk>
        \<Longrightarrow> I root (dfs_root f V root v)"
    and leave: "\<lbrakk>dfs_ok f P v; I root v; state_stack v = (s, i) # rest; \<not> dfs v \<or> NumArcs f s \<le> i\<rbrakk>
        \<Longrightarrow> I root (dfs_leave f V s rest v)"
    and skip: "\<lbrakk>dfs_ok f P v; I root v; state_stack v = (s, i) # rest; dfs v; i < NumArcs f s; \<not> P (Arcs f s ! i)\<rbrakk>
        \<Longrightarrow> I root (v\<lparr>state_stack := (s, i + 1) # rest\<rparr>)"
    and tree_abort: "\<lbrakk>dfs_ok f P v; I root v; state_stack v = (s, i) # rest; dfs v; i < NumArcs f s; P (Arcs f s ! i);
        state_color v ! nextstate (Arcs f s ! i) = kWhite; \<not> dfs (visit (TreeArc V s (Arcs f s ! i)) v)\<rbrakk>
        \<Longrightarrow> I root (visit (TreeArc V s (Arcs f s ! i)) v)"
    and tree: "\<lbrakk>dfs_ok f P v; I root v; state_stack v = (s, i) # rest; dfs v; i < NumArcs f s; P (Arcs f s ! i);
        t = nextstate (Arcs f s ! i); state_color v ! t = kWhite;
        u = visit (TreeArc V s (Arcs f s ! i)) v; dfs u\<rbrakk>
        \<Longrightarrow> I root (visit (InitState V t root) ((set_color t kGrey u)\<lparr>state_stack := (t, 0) # (s, i) # rest\<rparr>))"
    and back_arc: "\<lbrakk>dfs_ok f P v; I root v; state_stack v = (s, i) # rest; dfs v; i < NumArcs f s; P (Arcs f s ! i);
        state_color v ! nextstate (Arcs f s ! i) = kGrey\<rbrakk>
        \<Longrightarrow> I root ((visit (BackArc V s (Arcs f s ! i)) v)\<lparr>state_stack := (s, i + 1) # rest\<rparr>)"
    and cross_arc: "\<lbrakk>dfs_ok f P v; I root v; state_stack v = (s, i) # rest; dfs v; i < NumArcs f s; P (Arcs f s ! i);
        state_color v ! nextstate (Arcs f s ! i) = kBlack\<rbrakk>
        \<Longrightarrow> I root ((visit (ForwardOrCrossArc V s (Arcs f s ! i)) v)\<lparr>state_stack := (s, i + 1) # rest\<rparr>)"
begin

lemma step_inv:
  assumes ok: "dfs_ok f P v" and inv: "I root v" and ne: "state_stack v \<noteq> []"
  shows "I root (dfs_step f V P root v)"
proof -
  obtain s i rest where st: "state_stack v = (s, i) # rest" using ne by (cases "state_stack v") auto
  note facts = ok inv st
  show ?thesis using ok st
  proof (cases rule: dfs_step_cases [where V = V and root = root])
    case leave
    then show ?thesis using dfs_invariant.leave [OF dfs_invariant_axioms facts] by simp
  next
    case skip
    then show ?thesis using dfs_invariant.skip [OF dfs_invariant_axioms facts] by simp
  next
    case white
    then show ?thesis
      using tree [OF facts white(1-3) refl white(4) refl] tree_abort [OF facts white(1-4)] by (simp add: Let_def)
  next
    case grey
    then show ?thesis using back_arc [OF facts grey(1-4)] by simp
  next
    case black
    then show ?thesis using cross_arc [OF facts black(1-4)] by simp
  qed
qed

lemma tree_returns:
  assumes "dfs_ok f P v" "I root v"
  shows "\<exists>w. dfs_tree f V P root v = Some w \<and> dfs_ok f P w \<and> I root w \<and> state_stack w = [] \<and> whites w \<subseteq> whites v"
  using assms
proof (induction v rule: wf_induct_rule [OF wf_dfs_order [of f]])
  case (1 v)
  show ?case
  proof (cases "state_stack v = []")
    case True
    then show ?thesis using 1 by (simp add: dfs_tree.simps)
  next
    case False
    note s = dfs_ok_step [OF 1(2) False, of V root]
    then obtain w where "dfs_tree f V P root (dfs_step f V P root v) = Some w" "dfs_ok f P w" "I root w"
        "state_stack w = []" "whites w \<subseteq> whites (dfs_step f V P root v)"
      using 1(1) step_inv [OF 1(2,3) False] by blast
    then show ?thesis using False s by (subst dfs_tree.simps) auto
  qed
qed

lemma forest_returns:
  assumes "dfs_ok f P v" "I r v" "state_stack v = []" "start f = Some st" "root = st \<or> st \<notin> whites v"
    "root < NumStates f \<Longrightarrow> state_color v ! root = kWhite" "root \<noteq> st \<Longrightarrow> \<forall>t < root. t \<notin> whites v" "root \<le> NumStates f"
  shows "\<exists>w r. dfs_forest f V P ao st root v = Some w \<and> dfs_ok f P w \<and> I r w \<and> state_stack w = [] \<and>
    (dfs w \<and> \<not> ao \<longrightarrow> whites w = {})"
  using assms
proof (induction "card (whites v)" arbitrary: v r root rule: less_induct)
  case less
  have len: "length (state_color v) = NumStates f" using less(2) by (simp add: dfs_ok_def)
  show ?case
  proof (cases "dfs v \<and> root < NumStates f")
    case True
    then have root: "root < NumStates f" "state_color v ! root = kWhite" using less(7) by auto
    note dr = dfs_ok_root [OF less(2,4) root, of V]
    have "I root (dfs_root f V root v)" using init_root [OF less(2-4) _ root] True less(5,6) by auto
    then obtain w where w: "dfs_tree f V P root (dfs_root f V root v) = Some w" "dfs_ok f P w" "I root w"
        "state_stack w = []" "whites w \<subseteq> whites v - {root}"
      using tree_returns [of "dfs_root f V root v" root] dr by auto
    have lw: "length (state_color w) = NumStates f" using w(2) by (simp add: dfs_ok_def)
    let ?b = "if root = st then 0 else root + 1" let ?n = "next_white (state_color w) ?b"
    have b: "?b \<le> length (state_color w)" using root lw by auto
    note nw = next_white_spec [OF b]
    have rw: "root \<in> whites v" using root len by (simp add: whites_def)
    have smaller: "card (whites w) < card (whites v)"
      using card_mono [OF _ w(5)] card_Diff1_less [OF _ rw] by simp
    have st: "st \<notin> whites w" using less(6) w(5) by auto
    have below: "t \<notin> whites w" if "t < ?n" for t
    proof (cases "?b \<le> t")
      case True
      then show ?thesis using nw(3) [of t] that by (simp add: whites_def)
    next
      case False
      then have "root \<noteq> st" "t = root \<or> t < root" by (auto split: if_splits)
      then show ?thesis using less(8) w(5) by blast
    qed
    have "\<exists>x r. dfs_forest f V P ao st ?n w = Some x \<and> dfs_ok f P x \<and> I r x \<and> state_stack x = [] \<and>
        (dfs x \<and> \<not> ao \<longrightarrow> whites x = {})"
      using less(1) [OF smaller w(2-4) less(5)] st below nw(1,4) lw by auto
    then show ?thesis
      using True w len by (subst dfs_forest.simps) auto
  next
    case False
    then have "\<not> dfs v \<or> root = NumStates f" using less(9) by auto
    moreover have "whites v = {}" if "root = NumStates f"
      using that less(5,6,8) wf_start [OF dfs_ok_wf [OF less(2)], of st] len by (auto simp: whites_def)
    ultimately show ?thesis using less(2-4) False len by (subst dfs_forest.simps) auto
  qed
qed

theorem visit_returns:
  assumes wf: "wf_fst f"
    and init: "\<And>v. state_color v = replicate (NumStates f) kWhite \<Longrightarrow> state_stack v = [] \<Longrightarrow> dfs v \<Longrightarrow>
      visitor_state v = InitVisit V f u \<Longrightarrow> I r v" and st: "start f = Some st"
  shows "\<exists>w r. DfsVisit f V P ao u = Some (FinishVisit V (visitor_state w)) \<and> dfs_ok f P w \<and> I r w \<and>
    state_stack w = [] \<and> (dfs w \<and> \<not> ao \<longrightarrow> whites w = {})"
proof -
  let ?v = "\<lparr>state_color = replicate (NumStates f) kWhite, state_stack = [], visitor_state = InitVisit V f u, dfs = True\<rparr>"
  have "dfs_ok f P ?v" using wf by (simp add: dfs_ok_def)
  then obtain w s where "dfs_forest f V P ao st st ?v = Some w" "dfs_ok f P w" "I s w" "state_stack w = []"
      "dfs w \<and> \<not> ao \<longrightarrow> whites w = {}"
    using forest_returns [of ?v r st st ao] init [of ?v] st wf_start [OF wf st] by fastforce
  then show ?thesis using st by (auto simp: DfsVisit_def)
qed

end

text \<open>Every visitor satisfies the contract with the trivial invariant, so every visit ends.\<close>

interpretation any_visitor: dfs_invariant f V P "\<lambda>_ _. True"
  for f :: "'w vfst" and V :: "('v, 'w) dfs_visitor" and P
  by unfold_locales simp_all

theorem DfsVisit_returns:
  assumes "wf_fst f"
  shows "\<exists>u'. DfsVisit f V P ao u = Some u'"
proof (cases "start f")
  case None
  then show ?thesis by (simp add: DfsVisit_def)
next
  case (Some st)
  then show ?thesis
    using any_visitor.visit_returns [OF assms TrueI Some, where V = V and P = P and ao = ao and u = u] by (elim exE conjE) (rule exI)
qed

end
