(* ===== verification/Connect.thy ===== *)
theory Connect
  imports DfsLaws
begin

text \<open>
  The visitor \<open>SccVisitor\<close> (src/openfst/lib/cc-visitors.h), which finds the strongly connected
  components and the accessible and coaccessible states in one depth-first search, and \<open>Connect\<close>
  and \<open>Condense\<close> (src/openfst/lib/connect.h), which use it. A result vector that the caller does not
  ask for (a null pointer) is \<open>None\<close>; \<open>coaccess\<close> is always there, since the visitor falls back to a
  vector of its own. The back of the vector \<open>scc_stack_\<close> is the head of the list.
\<close>

unbundle bit_operations_syntax

section \<open>SccVisitor\<close>

record 'w scc_vars =
  scc :: "int list option"
  access :: "bool list option"
  coaccess :: "bool list"
  scc_props :: props
  scc_fst :: "'w vfst"
  scc_start :: "nat option"
  scc_nstates :: int
  nscc :: int
  dfnumber :: "int list"
  lowlink :: "int list"
  onstack :: "bool list"
  scc_stack :: "nat list"

definition resize :: "nat \<Rightarrow> 'a \<Rightarrow> 'a list \<Rightarrow> 'a list" where
  "resize n x xs = take n xs @ replicate (n - length xs) x"

definition scc_InitVisit :: "'w vfst \<Rightarrow> 'w scc_vars \<Rightarrow> 'w scc_vars" where
  "scc_InitVisit f u =
     u\<lparr>scc := map_option (\<lambda>_. []) (scc u), access := map_option (\<lambda>_. []) (access u), coaccess := [],
       scc_props := (scc_props u OR (kAcyclic OR kInitialAcyclic OR kAccessible OR kCoAccessible))
                    AND NOT (kCyclic OR kInitialCyclic OR kNotAccessible OR kNotCoAccessible),
       scc_fst := f, scc_start := start f, scc_nstates := 0, nscc := 0,
       dfnumber := [], lowlink := [], onstack := [], scc_stack := []\<rparr>"

definition scc_InitState :: "nat \<Rightarrow> nat \<Rightarrow> 'w scc_vars \<Rightarrow> 'w scc_vars \<times> bool" where
  "scc_InitState s root u =
     (let u = u\<lparr>scc_stack := s # scc_stack u\<rparr>;
          u = (if length (dfnumber u) \<le> s
               then u\<lparr>scc := map_option (resize (s + 1) (- 1)) (scc u),
                      access := map_option (resize (s + 1) False) (access u),
                      coaccess := resize (s + 1) False (coaccess u),
                      dfnumber := resize (s + 1) (- 1) (dfnumber u),
                      lowlink := resize (s + 1) (- 1) (lowlink u),
                      onstack := resize (s + 1) False (onstack u)\<rparr>
               else u);
          u = u\<lparr>dfnumber := (dfnumber u)[s := scc_nstates u], lowlink := (lowlink u)[s := scc_nstates u],
                onstack := (onstack u)[s := True]\<rparr>;
          u = (if Some root = scc_start u
               then u\<lparr>access := map_option (\<lambda>a. a[s := True]) (access u)\<rparr>
               else u\<lparr>access := map_option (\<lambda>a. a[s := False]) (access u),
                      scc_props := (scc_props u OR kNotAccessible) AND NOT kAccessible\<rparr>)
      in (u\<lparr>scc_nstates := scc_nstates u + 1\<rparr>, True))"

definition scc_TreeArc :: "nat \<Rightarrow> 'w arc \<Rightarrow> 'w scc_vars \<Rightarrow> 'w scc_vars \<times> bool" where
  "scc_TreeArc s arc u = (u, True)"

definition scc_BackArc :: "nat \<Rightarrow> 'w arc \<Rightarrow> 'w scc_vars \<Rightarrow> 'w scc_vars \<times> bool" where
  "scc_BackArc s arc u =
     (let t = nextstate arc;
          u = (if dfnumber u ! t < lowlink u ! s then u\<lparr>lowlink := (lowlink u)[s := dfnumber u ! t]\<rparr> else u);
          u = (if coaccess u ! t then u\<lparr>coaccess := (coaccess u)[s := True]\<rparr> else u);
          u = u\<lparr>scc_props := (scc_props u OR kCyclic) AND NOT kAcyclic\<rparr>;
          u = (if Some t = scc_start u
               then u\<lparr>scc_props := (scc_props u OR kInitialCyclic) AND NOT kInitialAcyclic\<rparr> else u)
      in (u, True))"

definition scc_ForwardOrCrossArc :: "nat \<Rightarrow> 'w arc \<Rightarrow> 'w scc_vars \<Rightarrow> 'w scc_vars \<times> bool" where
  "scc_ForwardOrCrossArc s arc u =
     (let t = nextstate arc;
          u = (if dfnumber u ! t < dfnumber u ! s \<and> onstack u ! t \<and> dfnumber u ! t < lowlink u ! s
               then u\<lparr>lowlink := (lowlink u)[s := dfnumber u ! t]\<rparr> else u);
          u = (if coaccess u ! t then u\<lparr>coaccess := (coaccess u)[s := True]\<rparr> else u)
      in (u, True))"

text \<open>The two loops over the states of the component of \<open>s\<close>, from the top of the stack.\<close>

primrec scc_coaccess :: "nat \<Rightarrow> bool list \<Rightarrow> nat list \<Rightarrow> bool \<Rightarrow> bool" where
  "scc_coaccess s coacc [] b = b"
| "scc_coaccess s coacc (t # stack) b =
     (let b = (if coacc ! t then True else b) in if s \<noteq> t then scc_coaccess s coacc stack b else b)"

primrec scc_pop :: "nat \<Rightarrow> bool \<Rightarrow> nat list \<Rightarrow> 'w scc_vars \<Rightarrow> 'w scc_vars" where
  "scc_pop s b [] u = u"
| "scc_pop s b (t # stack) u =
     (let u = u\<lparr>scc := map_option (\<lambda>c. c[t := nscc u]) (scc u),
                coaccess := (if b then (coaccess u)[t := True] else coaccess u),
                onstack := (onstack u)[t := False], scc_stack := stack\<rparr>
      in if s \<noteq> t then scc_pop s b stack u else u)"

definition scc_FinishState ::
  "('w, 'z) weight_ops_scheme \<Rightarrow> nat \<Rightarrow> nat option \<Rightarrow> 'w arc option \<Rightarrow> 'w scc_vars \<Rightarrow> 'w scc_vars" where
  "scc_FinishState W s p arcp u =
     (let u = (if \<not> Weq W (Final (scc_fst u) s) (Zero W) then u\<lparr>coaccess := (coaccess u)[s := True]\<rparr> else u);
          u = (if dfnumber u ! s = lowlink u ! s
               then (let b = scc_coaccess s (coaccess u) (scc_stack u) False;
                         u = scc_pop s b (scc_stack u) u;
                         u = (if \<not> b
                              then u\<lparr>scc_props := (scc_props u OR kNotCoAccessible) AND NOT kCoAccessible\<rparr> else u)
                     in u\<lparr>nscc := nscc u + 1\<rparr>)
               else u)
      in case p of
           None \<Rightarrow> u
         | Some p \<Rightarrow>
             (let u = (if coaccess u ! s then u\<lparr>coaccess := (coaccess u)[p := True]\<rparr> else u)
              in if lowlink u ! s < lowlink u ! p then u\<lparr>lowlink := (lowlink u)[p := lowlink u ! s]\<rparr> else u))"

definition scc_FinishVisit :: "'w scc_vars \<Rightarrow> 'w scc_vars" where
  "scc_FinishVisit u = u\<lparr>scc := map_option (map (\<lambda>s. nscc u - 1 - s)) (scc u)\<rparr>"

definition SccVisitor :: "('w, 'z) weight_ops_scheme \<Rightarrow> ('w scc_vars, 'w) dfs_visitor" where
  "SccVisitor W =
     \<lparr>InitVisit = scc_InitVisit, InitState = scc_InitState, TreeArc = scc_TreeArc, BackArc = scc_BackArc,
      ForwardOrCrossArc = scc_ForwardOrCrossArc, FinishState = scc_FinishState W, FinishVisit = scc_FinishVisit\<rparr>"

text \<open>A new visitor with the vectors that the caller wants and the property word \<open>props\<close>.\<close>

definition new_SccVisitor :: "bool \<Rightarrow> bool \<Rightarrow> props \<Rightarrow> 'w vfst \<Rightarrow> 'w scc_vars" where
  "new_SccVisitor want_scc want_access props f =
     \<lparr>scc = (if want_scc then Some [] else None), access = (if want_access then Some [] else None), coaccess = [],
      scc_props = props, scc_fst = f, scc_start = None, scc_nstates = 0, nscc = 0, dfnumber = [], lowlink = [],
      onstack = [], scc_stack = []\<rparr>"

section \<open>Connect and Condense\<close>

definition Connect :: "('w, 'z) weight_ops_scheme \<Rightarrow> 'w vfst \<Rightarrow> 'w vfst option" where
  "Connect W f =
     (case DfsVisit f (SccVisitor W) AnyArcFilter False (new_SccVisitor False True 0 f) of
        None \<Rightarrow> None
      | Some u \<Rightarrow>
          (let acc = the (access u);
               dstates = filter (\<lambda>s. \<not> acc ! s \<or> \<not> coaccess u ! s) [0 ..< length acc];
               f = DeleteStates dstates f
           in Some (SetPropertiesMask (kAccessible OR kCoAccessible) (kAccessible OR kCoAccessible) f)))"

text \<open>One state of the loop of \<open>Condense\<close>; \<open>comp\<close> are the component numbers.\<close>

definition condense_arc ::
  "('w, 'z) weight_ops_scheme \<Rightarrow> int list \<Rightarrow> nat \<Rightarrow> 'w arc \<Rightarrow> 'w vfst \<Rightarrow> 'w vfst" where
  "condense_arc W comps c arc g =
     (let nextc = nat (comps ! nextstate arc)
      in if nextc \<noteq> c then AddArc W c (arc\<lparr>nextstate := nextc\<rparr>) g else g)"

definition condense_state ::
  "('w, 'z) weight_ops_scheme \<Rightarrow> 'w vfst \<Rightarrow> int list \<Rightarrow> nat \<Rightarrow> 'w vfst \<Rightarrow> 'w vfst" where
  "condense_state W f comps s g =
     (let c = nat (comps ! s);
          g = (if Some s = start f then SetStart (Some c) g else g);
          w = Final f s;
          g = (if \<not> Weq W w (Zero W) then SetFinal W c (Plus W (Final g c) w) g else g)
      in fold (condense_arc W comps c) (Arcs f s) g)"

definition Condense ::
  "('w, 'z) weight_ops_scheme \<Rightarrow> bool \<Rightarrow> 'w vfst \<Rightarrow> 'w vfst \<Rightarrow> ('w vfst \<times> int list) option" where
  "Condense W unique f g =
     (let g = DeleteAllStates unique g
      in case DfsVisit f (SccVisitor W) AnyArcFilter False (new_SccVisitor True False 0 f) of
           None \<Rightarrow> None
         | Some u \<Rightarrow>
             (let comps = the (scc u)
              in if comps = [] then Some (g, comps)
                 else
                  (let n = nat (1 + Max (set comps));
                       g = (AddState W ^^ n) g;
                       g = fold (condense_state W f comps) [0 ..< length comps] g
                   in Some (SetPropertiesMask (kAcyclic OR kInitialAcyclic) (kAcyclic OR kInitialAcyclic) g, comps))))"

end
