(* ===== verification/Tarjan.thy ===== *)
theory Tarjan
  imports Prelude
begin

text \<open>
  The algorithm behind \<open>SccVisitor\<close> (src/openfst/lib/cc-visitors.h), Tarjan's single depth-first
  search for strongly connected components, as a step relation on an abstract state: the grey
  states (the innermost first), the discovered states, the edges that were examined, the discovery
  numbers and low links, the stack of states without a component yet, the marks for states that
  reach a final state, and the components. The invariant \<open>tarjan_inv\<close> is kept by every step; when no
  grey state is left it says that the components and the marks are right. The theory on \<open>SccVisitor\<close>
  shows that the visitor makes these steps.
\<close>

record tarjan =
  greys :: "nat list"
  disc :: "nat set"
  procd :: "(nat \<times> nat) set"
  num :: "nat \<Rightarrow> int"
  low :: "nat \<Rightarrow> int"
  sstack :: "nat list"
  coacc :: "nat \<Rightarrow> bool"
  comp_of :: "nat \<Rightarrow> int"
  ncomp :: int

section \<open>The steps\<close>

definition t_push :: "nat \<Rightarrow> int \<Rightarrow> tarjan \<Rightarrow> tarjan" where
  "t_push t k \<sigma> = \<sigma>\<lparr>greys := t # greys \<sigma>, disc := insert t (disc \<sigma>), num := (num \<sigma>)(t := k), low := (low \<sigma>)(t := k),
     sstack := t # sstack \<sigma>, coacc := (coacc \<sigma>)(t := False)\<rparr>"

definition t_arc :: "nat \<Rightarrow> nat \<Rightarrow> int \<Rightarrow> tarjan \<Rightarrow> tarjan" where
  "t_arc s t l \<sigma> = \<sigma>\<lparr>procd := insert (s, t) (procd \<sigma>), low := (low \<sigma>)(s := l),
     coacc := (coacc \<sigma>)(s := coacc \<sigma> s \<or> coacc \<sigma> t)\<rparr>"

text \<open>Leaving a state: the mark of a final state, the component if it is a root, the parent.\<close>

definition t_mark :: "nat set \<Rightarrow> nat \<Rightarrow> tarjan \<Rightarrow> tarjan" where
  "t_mark fin s \<sigma> = \<sigma>\<lparr>coacc := (coacc \<sigma>)(s := coacc \<sigma> s \<or> s \<in> fin)\<rparr>"

definition t_seg :: "nat \<Rightarrow> tarjan \<Rightarrow> nat set" where
  "t_seg s \<sigma> = insert s (set (takeWhile (\<lambda>t. t \<noteq> s) (sstack \<sigma>)))"

definition t_pop :: "nat \<Rightarrow> tarjan \<Rightarrow> tarjan" where
  "t_pop s \<sigma> =
     (if low \<sigma> s = num \<sigma> s
      then \<sigma>\<lparr>sstack := tl (dropWhile (\<lambda>t. t \<noteq> s) (sstack \<sigma>)),
             coacc := (\<lambda>t. coacc \<sigma> t \<or> t \<in> t_seg s \<sigma> \<and> (\<exists>u \<in> t_seg s \<sigma>. coacc \<sigma> u)),
             comp_of := (\<lambda>t. if t \<in> t_seg s \<sigma> then ncomp \<sigma> else comp_of \<sigma> t), ncomp := ncomp \<sigma> + 1\<rparr>
      else \<sigma>)"

definition t_parent :: "nat \<Rightarrow> nat list \<Rightarrow> tarjan \<Rightarrow> tarjan" where
  "t_parent s rest \<sigma> =
     (case rest of [] \<Rightarrow> \<sigma>\<lparr>greys := []\<rparr>
      | p # _ \<Rightarrow> \<sigma>\<lparr>greys := rest, procd := insert (p, s) (procd \<sigma>),
                    coacc := (coacc \<sigma>)(p := coacc \<sigma> p \<or> coacc \<sigma> s), low := (low \<sigma>)(p := min (low \<sigma> p) (low \<sigma> s))\<rparr>)"

inductive tarjan_step :: "(nat \<times> nat) set \<Rightarrow> nat set \<Rightarrow> tarjan \<Rightarrow> tarjan \<Rightarrow> bool" for E fin where
  push: "t \<notin> disc \<sigma> \<Longrightarrow> (\<And>s rest. greys \<sigma> = s # rest \<Longrightarrow> (s, t) \<in> E) \<Longrightarrow> (\<And>s. s \<in> disc \<sigma> \<Longrightarrow> num \<sigma> s < k) \<Longrightarrow>
     tarjan_step E fin \<sigma> (t_push t k \<sigma>)"
| arc: "greys \<sigma> = s # rest \<Longrightarrow> t \<in> disc \<sigma> \<Longrightarrow> (s, t) \<in> E \<Longrightarrow> l \<le> low \<sigma> s \<Longrightarrow>
     l = low \<sigma> s \<or> t \<in> set (sstack \<sigma>) \<and> l = num \<sigma> t \<Longrightarrow> (t \<in> set (sstack \<sigma>) \<Longrightarrow> l \<le> num \<sigma> t) \<Longrightarrow>
     tarjan_step E fin \<sigma> (t_arc s t l \<sigma>)"
| leave: "greys \<sigma> = s # rest \<Longrightarrow> E `` {s} \<subseteq> procd \<sigma> `` {s} \<Longrightarrow>
     tarjan_step E fin \<sigma> (t_parent s rest (t_pop s (t_mark fin s \<sigma>)))"

section \<open>The invariant\<close>

abbreviation closed :: "tarjan \<Rightarrow> nat set" where
  "closed \<sigma> \<equiv> disc \<sigma> - set (sstack \<sigma>)"

text \<open>The shape of the two stacks.\<close>

definition t_shape :: "(nat \<times> nat) set \<Rightarrow> tarjan \<Rightarrow> bool" where
  "t_shape E \<sigma> \<longleftrightarrow> set (greys \<sigma>) \<subseteq> set (sstack \<sigma>) \<and> set (sstack \<sigma>) \<subseteq> disc \<sigma> \<and>
     sorted_wrt (\<lambda>x y. num \<sigma> x > num \<sigma> y) (sstack \<sigma>) \<and> sorted_wrt (\<lambda>x y. num \<sigma> x > num \<sigma> y) (greys \<sigma>) \<and>
     successively (\<lambda>t s. (s, t) \<in> E) (greys \<sigma>) \<and>
     procd \<sigma> \<subseteq> E \<and> procd \<sigma> \<subseteq> disc \<sigma> \<times> disc \<sigma> \<and> (\<forall>y \<in> disc \<sigma> - set (greys \<sigma>). E `` {y} \<subseteq> procd \<sigma> `` {y})"

text \<open>Reachability between the states on the stack, and the low links.\<close>

definition t_links :: "(nat \<times> nat) set \<Rightarrow> tarjan \<Rightarrow> bool" where
  "t_links E \<sigma> \<longleftrightarrow>
     (\<forall>y \<in> closed \<sigma>. E `` {y} \<subseteq> closed \<sigma>) \<and>
     (\<forall>y \<in> set (sstack \<sigma>). \<exists>g \<in> set (greys \<sigma>). num \<sigma> g \<le> num \<sigma> y \<and> (y, g) \<in> E\<^sup>*) \<and>
     (\<forall>g \<in> set (greys \<sigma>). \<forall>y \<in> set (sstack \<sigma>). num \<sigma> g \<le> num \<sigma> y \<longrightarrow> (g, y) \<in> E\<^sup>*) \<and>
     (\<forall>g \<in> set (greys \<sigma>). low \<sigma> g \<le> num \<sigma> g \<and> (\<exists>x \<in> set (sstack \<sigma>). low \<sigma> g = num \<sigma> x \<and> (g, x) \<in> E\<^sup>*))"

text \<open>
  The low link of the innermost grey state below \<open>y\<close> covers the edges of \<open>y\<close>, and no examined edge
  passes over a grey state.
\<close>

definition t_cover :: "tarjan \<Rightarrow> bool" where
  "t_cover \<sigma> \<longleftrightarrow> (\<forall>g \<in> set (greys \<sigma>). \<forall>(y, t) \<in> procd \<sigma>. y \<in> set (sstack \<sigma>) \<and> t \<in> set (sstack \<sigma>) \<longrightarrow>
     (num \<sigma> g \<le> num \<sigma> y \<and> (\<forall>h \<in> set (greys \<sigma>). num \<sigma> h \<le> num \<sigma> y \<longrightarrow> num \<sigma> h \<le> num \<sigma> g) \<longrightarrow> low \<sigma> g \<le> num \<sigma> t) \<and>
     \<not> (num \<sigma> y < num \<sigma> g \<and> num \<sigma> g \<le> num \<sigma> t))"

definition coaccs :: "(nat \<times> nat) set \<Rightarrow> nat set \<Rightarrow> nat set" where
  "coaccs E fin = {s. \<exists>z \<in> fin. (s, z) \<in> E\<^sup>*}"

definition t_coacc :: "(nat \<times> nat) set \<Rightarrow> nat set \<Rightarrow> tarjan \<Rightarrow> bool" where
  "t_coacc E fin \<sigma> \<longleftrightarrow>
     (\<forall>s \<in> disc \<sigma>. coacc \<sigma> s \<longrightarrow> s \<in> coaccs E fin) \<and>
     (\<forall>s \<in> closed \<sigma>. s \<in> coaccs E fin \<longrightarrow> coacc \<sigma> s) \<and>
     (\<forall>(y, t) \<in> procd \<sigma>. y \<in> set (sstack \<sigma>) \<and> t \<in> closed \<sigma> \<and> coacc \<sigma> t \<longrightarrow> coacc \<sigma> y) \<and>
     (\<forall>y \<in> set (sstack \<sigma>) - set (greys \<sigma>). y \<in> fin \<longrightarrow> coacc \<sigma> y)"

definition t_comps :: "(nat \<times> nat) set \<Rightarrow> tarjan \<Rightarrow> bool" where
  "t_comps E \<sigma> \<longleftrightarrow> 0 \<le> ncomp \<sigma> \<and>
     (\<forall>x \<in> closed \<sigma>. 0 \<le> comp_of \<sigma> x \<and> comp_of \<sigma> x < ncomp \<sigma>) \<and>
     (\<forall>x \<in> closed \<sigma>. \<forall>y \<in> closed \<sigma>. comp_of \<sigma> x = comp_of \<sigma> y \<longleftrightarrow> (x, y) \<in> E\<^sup>* \<and> (y, x) \<in> E\<^sup>*) \<and>
     (\<forall>x \<in> closed \<sigma>. \<forall>y \<in> closed \<sigma>. (x, y) \<in> E \<longrightarrow> comp_of \<sigma> y \<le> comp_of \<sigma> x) \<and>
     (\<forall>c. 0 \<le> c \<and> c < ncomp \<sigma> \<longrightarrow> (\<exists>x \<in> closed \<sigma>. comp_of \<sigma> x = c))"

definition tarjan_inv :: "(nat \<times> nat) set \<Rightarrow> nat set \<Rightarrow> tarjan \<Rightarrow> bool" where
  "tarjan_inv E fin \<sigma> \<longleftrightarrow> t_shape E \<sigma> \<and> t_links E \<sigma> \<and> t_cover \<sigma> \<and> t_coacc E fin \<sigma> \<and> t_comps E \<sigma>"

lemma t_linksI:
  assumes "\<And>y t. y \<in> closed \<sigma> \<Longrightarrow> (y, t) \<in> E \<Longrightarrow> t \<in> closed \<sigma>"
    and "\<And>y. y \<in> set (sstack \<sigma>) \<Longrightarrow> \<exists>g \<in> set (greys \<sigma>). num \<sigma> g \<le> num \<sigma> y \<and> (y, g) \<in> E\<^sup>*"
    and "\<And>g y. g \<in> set (greys \<sigma>) \<Longrightarrow> y \<in> set (sstack \<sigma>) \<Longrightarrow> num \<sigma> g \<le> num \<sigma> y \<Longrightarrow> (g, y) \<in> E\<^sup>*"
    and "\<And>g. g \<in> set (greys \<sigma>) \<Longrightarrow> low \<sigma> g \<le> num \<sigma> g"
    and "\<And>g. g \<in> set (greys \<sigma>) \<Longrightarrow> \<exists>x \<in> set (sstack \<sigma>). low \<sigma> g = num \<sigma> x \<and> (g, x) \<in> E\<^sup>*"
  shows "t_links E \<sigma>"
  using assms unfolding t_links_def by blast

lemma t_linksD:
  assumes "t_links E \<sigma>"
  shows "y \<in> closed \<sigma> \<Longrightarrow> (y, t) \<in> E \<Longrightarrow> t \<in> closed \<sigma>"
    and "y \<in> set (sstack \<sigma>) \<Longrightarrow> \<exists>g \<in> set (greys \<sigma>). num \<sigma> g \<le> num \<sigma> y \<and> (y, g) \<in> E\<^sup>*"
    and "g \<in> set (greys \<sigma>) \<Longrightarrow> y \<in> set (sstack \<sigma>) \<Longrightarrow> num \<sigma> g \<le> num \<sigma> y \<Longrightarrow> (g, y) \<in> E\<^sup>*"
    and "g \<in> set (greys \<sigma>) \<Longrightarrow> low \<sigma> g \<le> num \<sigma> g"
    and "g \<in> set (greys \<sigma>) \<Longrightarrow> \<exists>x \<in> set (sstack \<sigma>). low \<sigma> g = num \<sigma> x \<and> (g, x) \<in> E\<^sup>*"
  using assms unfolding t_links_def by blast+

lemma t_coverI:
  assumes "\<And>g y t. g \<in> set (greys \<sigma>) \<Longrightarrow> (y, t) \<in> procd \<sigma> \<Longrightarrow> y \<in> set (sstack \<sigma>) \<Longrightarrow> t \<in> set (sstack \<sigma>) \<Longrightarrow>
      num \<sigma> g \<le> num \<sigma> y \<Longrightarrow> (\<And>h. h \<in> set (greys \<sigma>) \<Longrightarrow> num \<sigma> h \<le> num \<sigma> y \<Longrightarrow> num \<sigma> h \<le> num \<sigma> g) \<Longrightarrow> low \<sigma> g \<le> num \<sigma> t"
    and "\<And>g y t. g \<in> set (greys \<sigma>) \<Longrightarrow> (y, t) \<in> procd \<sigma> \<Longrightarrow> y \<in> set (sstack \<sigma>) \<Longrightarrow> t \<in> set (sstack \<sigma>) \<Longrightarrow>
      num \<sigma> y < num \<sigma> g \<Longrightarrow> num \<sigma> g \<le> num \<sigma> t \<Longrightarrow> False"
  shows "t_cover \<sigma>"
  using assms unfolding t_cover_def by blast

lemma t_coverD:
  assumes "t_cover \<sigma>" "g \<in> set (greys \<sigma>)" "(y, t) \<in> procd \<sigma>" "y \<in> set (sstack \<sigma>)" "t \<in> set (sstack \<sigma>)"
  shows "num \<sigma> g \<le> num \<sigma> y \<Longrightarrow> (\<And>h. h \<in> set (greys \<sigma>) \<Longrightarrow> num \<sigma> h \<le> num \<sigma> y \<Longrightarrow> num \<sigma> h \<le> num \<sigma> g) \<Longrightarrow> low \<sigma> g \<le> num \<sigma> t"
    and "num \<sigma> y < num \<sigma> g \<Longrightarrow> num \<sigma> g \<le> num \<sigma> t \<Longrightarrow> False"
  using assms unfolding t_cover_def by blast+

lemma t_coaccI:
  assumes "\<And>s. s \<in> disc \<sigma> \<Longrightarrow> coacc \<sigma> s \<Longrightarrow> s \<in> coaccs E fin"
    and "\<And>s. s \<in> closed \<sigma> \<Longrightarrow> s \<in> coaccs E fin \<Longrightarrow> coacc \<sigma> s"
    and "\<And>y t. (y, t) \<in> procd \<sigma> \<Longrightarrow> y \<in> set (sstack \<sigma>) \<Longrightarrow> t \<in> closed \<sigma> \<Longrightarrow> coacc \<sigma> t \<Longrightarrow> coacc \<sigma> y"
    and "\<And>y. y \<in> set (sstack \<sigma>) \<Longrightarrow> y \<notin> set (greys \<sigma>) \<Longrightarrow> y \<in> fin \<Longrightarrow> coacc \<sigma> y"
  shows "t_coacc E fin \<sigma>"
  using assms unfolding t_coacc_def by blast

lemma t_coaccD:
  assumes "t_coacc E fin \<sigma>"
  shows "s \<in> disc \<sigma> \<Longrightarrow> coacc \<sigma> s \<Longrightarrow> s \<in> coaccs E fin"
    and "s \<in> closed \<sigma> \<Longrightarrow> s \<in> coaccs E fin \<Longrightarrow> coacc \<sigma> s"
    and "(y, t) \<in> procd \<sigma> \<Longrightarrow> y \<in> set (sstack \<sigma>) \<Longrightarrow> t \<in> closed \<sigma> \<Longrightarrow> coacc \<sigma> t \<Longrightarrow> coacc \<sigma> y"
    and "y \<in> set (sstack \<sigma>) \<Longrightarrow> y \<notin> set (greys \<sigma>) \<Longrightarrow> y \<in> fin \<Longrightarrow> coacc \<sigma> y"
  using assms unfolding t_coacc_def by blast+

section \<open>Discovering a state\<close>

lemma greys_reach:
  assumes "successively (\<lambda>t s. (s, t) \<in> E) (s # gs)" "g \<in> set (s # gs)"
  shows "(g, s) \<in> E\<^sup>*"
  using assms
proof (induction gs arbitrary: s)
  case (Cons p gs)
  then have "(p, s) \<in> E" "g = s \<or> (g, p) \<in> E\<^sup>*" using Cons.IH [of p] by auto
  then show ?case by auto
qed simp

lemma push_sel [simp]:
  "greys (t_push t k \<sigma>) = t # greys \<sigma>" "disc (t_push t k \<sigma>) = insert t (disc \<sigma>)" "procd (t_push t k \<sigma>) = procd \<sigma>"
  "num (t_push t k \<sigma>) = (num \<sigma>)(t := k)" "low (t_push t k \<sigma>) = (low \<sigma>)(t := k)" "sstack (t_push t k \<sigma>) = t # sstack \<sigma>"
  "coacc (t_push t k \<sigma>) = (coacc \<sigma>)(t := False)" "comp_of (t_push t k \<sigma>) = comp_of \<sigma>" "ncomp (t_push t k \<sigma>) = ncomp \<sigma>"
  by (simp_all add: t_push_def)

lemma sorted_wrt_upd:
  "t \<notin> set xs \<Longrightarrow> sorted_wrt (\<lambda>x y. (h(t := k)) y < (h(t := k)) x) xs \<longleftrightarrow> sorted_wrt (\<lambda>x y. h y < (h x :: int)) xs"
  by (induction xs) auto

lemma closed_push: "t \<notin> disc \<sigma> \<Longrightarrow> insert t (disc \<sigma>) - set (t # sstack \<sigma>) = closed \<sigma>"
  by auto

lemma tarjan_push:
  assumes inv: "tarjan_inv E fin \<sigma>" and t: "t \<notin> disc \<sigma>"
    and e: "\<And>s rest. greys \<sigma> = s # rest \<Longrightarrow> (s, t) \<in> E" and k: "\<And>s. s \<in> disc \<sigma> \<Longrightarrow> num \<sigma> s < k"
  shows "tarjan_inv E fin (t_push t k \<sigma>)"
proof -
  have sh: "t_shape E \<sigma>" and li: "t_links E \<sigma>" and co: "t_cover \<sigma>" and ca: "t_coacc E fin \<sigma>" and cm: "t_comps E \<sigma>"
    using inv by (simp_all add: tarjan_inv_def)
  have sub: "set (greys \<sigma>) \<subseteq> set (sstack \<sigma>)" "set (sstack \<sigma>) \<subseteq> disc \<sigma>" "procd \<sigma> \<subseteq> disc \<sigma> \<times> disc \<sigma>"
    using sh by (auto simp: t_shape_def)
  have ts: "t \<notin> set (sstack \<sigma>)" "t \<notin> set (greys \<sigma>)" "\<And>y. (y, t) \<notin> procd \<sigma> \<and> (t, y) \<notin> procd \<sigma>" using t sub by auto
  have ks: "num \<sigma> x < k" if "x \<in> set (sstack \<sigma>)" for x using that sub k by auto
  have kg: "num \<sigma> x < k" if "x \<in> set (greys \<sigma>)" for x using that sub ks by auto
  have chain: "successively (\<lambda>t s. (s, t) \<in> E) (t # greys \<sigma>)"
    using sh e by (cases "greys \<sigma>") (auto simp: t_shape_def)
  have cl: "insert t (disc \<sigma>) - set (t # sstack \<sigma>) = closed \<sigma>" using t by auto
  have "t_shape E (t_push t k \<sigma>)"
    using sh chain ts ks kg unfolding t_shape_def push_sel sorted_wrt.simps sorted_wrt_upd [OF ts(1)] sorted_wrt_upd [OF ts(2)]
    by (auto simp del: successively.simps)
  moreover have "t_links E (t_push t k \<sigma>)"
  proof -
    note L = t_linksD [OF li]
    have r: "(g, t) \<in> E\<^sup>*" if "g \<in> set (t # greys \<sigma>)" for g using greys_reach [OF chain that] .
    show ?thesis
    proof (rule t_linksI, unfold push_sel cl)
      show "u \<in> closed \<sigma>" if "y \<in> closed \<sigma>" "(y, u) \<in> E" for y u using that by (rule L(1))
      show "\<exists>g \<in> set (t # greys \<sigma>). ((num \<sigma>)(t := k)) g \<le> ((num \<sigma>)(t := k)) y \<and> (y, g) \<in> E\<^sup>*"
        if "y \<in> set (t # sstack \<sigma>)" for y
      proof (cases "y = t")
        case False
        then have y: "y \<in> set (sstack \<sigma>)" using that by simp
        obtain g where g: "g \<in> set (greys \<sigma>)" "num \<sigma> g \<le> num \<sigma> y" "(y, g) \<in> E\<^sup>*" using L(2) [OF y] by blast
        then have "g \<noteq> t" using ts by auto
        then show ?thesis using g False by (intro bexI [of _ g]) auto
      qed auto
      show "(g, y) \<in> E\<^sup>*" if g: "g \<in> set (t # greys \<sigma>)" "y \<in> set (t # sstack \<sigma>)"
          "((num \<sigma>)(t := k)) g \<le> ((num \<sigma>)(t := k)) y" for g y
      proof (cases "y = t")
        case True
        then show ?thesis using r g by simp
      next
        case False
        then have y: "y \<in> set (sstack \<sigma>)" using g by simp
        have "g \<noteq> t" using g(3) ks [OF y] False by auto
        then show ?thesis using L(3) [of g y] g y False by simp
      qed
      show "((low \<sigma>)(t := k)) g \<le> ((num \<sigma>)(t := k)) g" if "g \<in> set (t # greys \<sigma>)" for g
        using that L(4) [of g] by auto
      show "\<exists>x \<in> set (t # sstack \<sigma>). ((low \<sigma>)(t := k)) g = ((num \<sigma>)(t := k)) x \<and> (g, x) \<in> E\<^sup>*"
        if "g \<in> set (t # greys \<sigma>)" for g
      proof (cases "g = t")
        case False
        then obtain x where x: "x \<in> set (sstack \<sigma>)" "low \<sigma> g = num \<sigma> x" "(g, x) \<in> E\<^sup>*" using L(5) [of g] \<open>g \<in> set (t # greys \<sigma>)\<close> by auto
        then have "x \<noteq> t" using ts by auto
        then show ?thesis using x False by (intro bexI [of _ x]) auto
      qed auto
    qed
  qed
  moreover have "t_cover (t_push t k \<sigma>)"
  proof (rule t_coverI, unfold push_sel)
    fix g y u
    assume g: "g \<in> set (t # greys \<sigma>)" and e: "(y, u) \<in> procd \<sigma>" "y \<in> set (t # sstack \<sigma>)" "u \<in> set (t # sstack \<sigma>)"
    have yu: "y \<noteq> t" "u \<noteq> t" "y \<in> set (sstack \<sigma>)" "u \<in> set (sstack \<sigma>)" using e ts by auto
    note C = t_coverD [OF co _ e(1) yu(3,4)]
    { assume le: "((num \<sigma>)(t := k)) g \<le> ((num \<sigma>)(t := k)) y"
        "\<And>h. h \<in> set (t # greys \<sigma>) \<Longrightarrow> ((num \<sigma>)(t := k)) h \<le> ((num \<sigma>)(t := k)) y \<Longrightarrow> ((num \<sigma>)(t := k)) h \<le> ((num \<sigma>)(t := k)) g"
      have gt: "g \<noteq> t" using le(1) yu ks [OF yu(3)] by auto
      have "num \<sigma> h \<le> num \<sigma> g" if "h \<in> set (greys \<sigma>)" "num \<sigma> h \<le> num \<sigma> y" for h
        using le(2) [of h] that ts(2) gt yu by (cases "h = t") auto
      then show "((low \<sigma>)(t := k)) g \<le> ((num \<sigma>)(t := k)) u" using C(1) [of g] le(1) g gt yu by simp }
    { assume "((num \<sigma>)(t := k)) y < ((num \<sigma>)(t := k)) g" "((num \<sigma>)(t := k)) g \<le> ((num \<sigma>)(t := k)) u"
      then show False using C(2) [of g] g yu ks [OF yu(4)] by (cases "g = t") auto }
  qed
  moreover have "t_coacc E fin (t_push t k \<sigma>)"
    using ca ts sub t unfolding t_coacc_def push_sel cl by (auto split: if_splits)
  moreover have "t_comps E (t_push t k \<sigma>)"
    using cm unfolding t_comps_def push_sel cl by simp
  ultimately show ?thesis by (simp add: tarjan_inv_def)
qed

section \<open>Examining an arc\<close>

lemma arc_sel [simp]:
  "greys (t_arc s t l \<sigma>) = greys \<sigma>" "disc (t_arc s t l \<sigma>) = disc \<sigma>" "procd (t_arc s t l \<sigma>) = insert (s, t) (procd \<sigma>)"
  "num (t_arc s t l \<sigma>) = num \<sigma>" "low (t_arc s t l \<sigma>) = (low \<sigma>)(s := l)" "sstack (t_arc s t l \<sigma>) = sstack \<sigma>"
  "coacc (t_arc s t l \<sigma>) = (coacc \<sigma>)(s := coacc \<sigma> s \<or> coacc \<sigma> t)" "comp_of (t_arc s t l \<sigma>) = comp_of \<sigma>" "ncomp (t_arc s t l \<sigma>) = ncomp \<sigma>"
  by (simp_all add: t_arc_def)

text \<open>The innermost grey state has the greatest number of the grey ones.\<close>

lemma shape_top:
  assumes "t_shape E \<sigma>" "greys \<sigma> = s # rest"
  shows "s \<in> set (sstack \<sigma>)" "s \<in> disc \<sigma>" "h \<in> set rest \<Longrightarrow> num \<sigma> h < num \<sigma> s" "h \<in> set (greys \<sigma>) \<Longrightarrow> num \<sigma> h \<le> num \<sigma> s"
    "s \<notin> set rest"
  using assms by (auto simp: t_shape_def)

lemma coaccs_step: "(s, t) \<in> E\<^sup>* \<Longrightarrow> t \<in> coaccs E fin \<Longrightarrow> s \<in> coaccs E fin"
  unfolding coaccs_def by (auto intro: rtrancl_trans)

lemma tarjan_arc:
  assumes inv: "tarjan_inv E fin \<sigma>" and g: "greys \<sigma> = s # rest" and t: "t \<in> disc \<sigma>" and e: "(s, t) \<in> E"
    and l: "l \<le> low \<sigma> s" "l = low \<sigma> s \<or> t \<in> set (sstack \<sigma>) \<and> l = num \<sigma> t" "t \<in> set (sstack \<sigma>) \<Longrightarrow> l \<le> num \<sigma> t"
  shows "tarjan_inv E fin (t_arc s t l \<sigma>)"
proof -
  have sh: "t_shape E \<sigma>" and li: "t_links E \<sigma>" and co: "t_cover \<sigma>" and ca: "t_coacc E fin \<sigma>" and cm: "t_comps E \<sigma>"
    using inv by (simp_all add: tarjan_inv_def)
  note top = shape_top [OF sh g]
  have "t_shape E (t_arc s t l \<sigma>)"
    using sh top t e unfolding t_shape_def by auto
  moreover have "t_links E (t_arc s t l \<sigma>)"
  proof (rule t_linksI, unfold arc_sel)
    note L = t_linksD [OF li]
    show "((low \<sigma>)(s := l)) h \<le> num \<sigma> h" if "h \<in> set (greys \<sigma>)" for h
      using L(4) [OF that] l(1) by auto
    show "\<exists>x \<in> set (sstack \<sigma>). ((low \<sigma>)(s := l)) h = num \<sigma> x \<and> (h, x) \<in> E\<^sup>*" if "h \<in> set (greys \<sigma>)" for h
      using L(5) [OF that] l(2) e by auto
  qed (use t_linksD [OF li] in blast)+
  moreover have "t_cover (t_arc s t l \<sigma>)"
  proof (rule t_coverI, unfold arc_sel)
    fix h y u
    assume h: "h \<in> set (greys \<sigma>)" and yu: "(y, u) \<in> insert (s, t) (procd \<sigma>)" "y \<in> set (sstack \<sigma>)" "u \<in> set (sstack \<sigma>)"
    { assume le: "num \<sigma> h \<le> num \<sigma> y" "\<And>g'. g' \<in> set (greys \<sigma>) \<Longrightarrow> num \<sigma> g' \<le> num \<sigma> y \<Longrightarrow> num \<sigma> g' \<le> num \<sigma> h"
      show "((low \<sigma>)(s := l)) h \<le> num \<sigma> u"
      proof (cases "(y, u) \<in> procd \<sigma>")
        case True
        then have "low \<sigma> h \<le> num \<sigma> u" using t_coverD(1) [OF co h _ yu(2,3)] le by blast
        then show ?thesis using l(1) by auto
      next
        case False
        then have "y = s" "u = t" using yu(1) by auto
        then have "num \<sigma> s \<le> num \<sigma> h" using le(2) [of s] g by simp
        then have "h = s" using top(3) [of h] h g by auto
        then show ?thesis using l(3) yu(3) \<open>u = t\<close> by simp
      qed }
    { assume "num \<sigma> y < num \<sigma> h" "num \<sigma> h \<le> num \<sigma> u"
      then show False using t_coverD(2) [OF co h _ yu(2,3)] top(4) [OF h] yu(1) by auto }
  qed
  moreover have "t_coacc E fin (t_arc s t l \<sigma>)"
  proof (rule t_coaccI, unfold arc_sel)
    note C = t_coaccD [OF ca]
    show "r \<in> coaccs E fin" if "r \<in> disc \<sigma>" "((coacc \<sigma>)(s := coacc \<sigma> s \<or> coacc \<sigma> t)) r" for r
      using that C(1) t coaccs_step [of s t E fin] e by (auto split: if_splits)
    show "((coacc \<sigma>)(s := coacc \<sigma> s \<or> coacc \<sigma> t)) r" if "r \<in> closed \<sigma>" "r \<in> coaccs E fin" for r
      using C(2) [OF that] by auto
    show "((coacc \<sigma>)(s := coacc \<sigma> s \<or> coacc \<sigma> t)) y"
      if "(y, u) \<in> insert (s, t) (procd \<sigma>)" "y \<in> set (sstack \<sigma>)" "u \<in> closed \<sigma>" "((coacc \<sigma>)(s := coacc \<sigma> s \<or> coacc \<sigma> t)) u" for y u
      using that C(3) [of y u] top(1) by (auto split: if_splits)
    show "((coacc \<sigma>)(s := coacc \<sigma> s \<or> coacc \<sigma> t)) y" if "y \<in> set (sstack \<sigma>)" "y \<notin> set (greys \<sigma>)" "y \<in> fin" for y
      using C(4) [OF that] by auto
  qed
  moreover have "t_comps E (t_arc s t l \<sigma>)" using cm by (simp add: t_comps_def)
  ultimately show ?thesis by (simp add: tarjan_inv_def)
qed

section \<open>Leaving a state that is no root\<close>

lemma mark_sel [simp]:
  "greys (t_mark fin s \<sigma>) = greys \<sigma>" "disc (t_mark fin s \<sigma>) = disc \<sigma>" "procd (t_mark fin s \<sigma>) = procd \<sigma>" "num (t_mark fin s \<sigma>) = num \<sigma>"
  "low (t_mark fin s \<sigma>) = low \<sigma>" "sstack (t_mark fin s \<sigma>) = sstack \<sigma>" "coacc (t_mark fin s \<sigma>) = (coacc \<sigma>)(s := coacc \<sigma> s \<or> s \<in> fin)"
  "comp_of (t_mark fin s \<sigma>) = comp_of \<sigma>" "ncomp (t_mark fin s \<sigma>) = ncomp \<sigma>"
  by (simp_all add: t_mark_def)

lemma tarjan_mark:
  assumes inv: "tarjan_inv E fin \<sigma>" and g: "greys \<sigma> = s # rest"
  shows "tarjan_inv E fin (t_mark fin s \<sigma>)"
proof -
  have sh: "t_shape E \<sigma>" and ca: "t_coacc E fin \<sigma>" using inv by (simp_all add: tarjan_inv_def)
  have "s \<in> fin \<Longrightarrow> s \<in> coaccs E fin" by (auto simp: coaccs_def)
  then have "t_coacc E fin (t_mark fin s \<sigma>)"
    using ca shape_top(1) [OF sh g] unfolding t_coacc_def mark_sel by (auto split: if_splits)
  then show ?thesis using inv by (simp add: tarjan_inv_def t_shape_def t_links_def t_cover_def t_comps_def)
qed

lemma parent_sel [simp]:
  "greys (t_parent s rest \<sigma>) = rest" "disc (t_parent s rest \<sigma>) = disc \<sigma>" "num (t_parent s rest \<sigma>) = num \<sigma>"
  "sstack (t_parent s rest \<sigma>) = sstack \<sigma>" "comp_of (t_parent s rest \<sigma>) = comp_of \<sigma>" "ncomp (t_parent s rest \<sigma>) = ncomp \<sigma>"
  by (cases rest; simp add: t_parent_def)+

lemma parent_Cons:
  "procd (t_parent s (p # gs) \<sigma>) = insert (p, s) (procd \<sigma>)"
  "coacc (t_parent s (p # gs) \<sigma>) = (coacc \<sigma>)(p := coacc \<sigma> p \<or> coacc \<sigma> s)"
  "low (t_parent s (p # gs) \<sigma>) = (low \<sigma>)(p := min (low \<sigma> p) (low \<sigma> s))"
  by (simp_all add: t_parent_def)

lemma tarjan_leave_inner:
  assumes inv: "tarjan_inv E fin \<sigma>" and g: "greys \<sigma> = s # rest" and all: "E `` {s} \<subseteq> procd \<sigma> `` {s}"
    and lo: "low \<sigma> s \<noteq> num \<sigma> s" and fin: "s \<in> fin \<Longrightarrow> coacc \<sigma> s"
  shows "tarjan_inv E fin (t_parent s rest \<sigma>)"
proof -
  have sh: "t_shape E \<sigma>" and li: "t_links E \<sigma>" and co: "t_cover \<sigma>" and ca: "t_coacc E fin \<sigma>" and cm: "t_comps E \<sigma>"
    using inv by (simp_all add: tarjan_inv_def)
  note top = shape_top [OF sh g] and L = t_linksD [OF li]
  have less: "low \<sigma> s < num \<sigma> s" using L(4) [of s] g lo by simp
  obtain x where x: "x \<in> set (sstack \<sigma>)" "low \<sigma> s = num \<sigma> x" "(s, x) \<in> E\<^sup>*" using L(5) [of s] g by auto
  obtain g0 where g0: "g0 \<in> set (greys \<sigma>)" "num \<sigma> g0 \<le> num \<sigma> x" "(x, g0) \<in> E\<^sup>*" using L(2) [OF x(1)] by auto
  then have g0r: "g0 \<in> set rest" "num \<sigma> g0 < num \<sigma> s" using less x(2) g by auto
  then obtain p gs where r: "rest = p # gs" by (cases rest) auto
  have ps: "(p, s) \<in> E" "num \<sigma> p < num \<sigma> s" "p \<in> set (sstack \<sigma>)" "low \<sigma> p \<le> num \<sigma> p" "p \<in> disc \<sigma>"
    using sh g r top(3) [of p] L(4) [of p] by (auto simp: t_shape_def)
  have hp: "num \<sigma> h < num \<sigma> p \<or> h = p" if "h \<in> set rest" for h using sh g r that by (auto simp: t_shape_def)
  note sel = parent_sel parent_Cons [of s p gs \<sigma>, folded r]
  have "t_shape E (t_parent s rest \<sigma>)"
    using sh g all ps top(2) unfolding t_shape_def sel by (auto simp: r)
  moreover have "t_links E (t_parent s rest \<sigma>)"
  proof (rule t_linksI, unfold sel)
    show "u \<in> closed \<sigma>" if "y \<in> closed \<sigma>" "(y, u) \<in> E" for y u using that by (rule L(1))
    show "\<exists>h \<in> set rest. num \<sigma> h \<le> num \<sigma> y \<and> (y, h) \<in> E\<^sup>*" if y: "y \<in> set (sstack \<sigma>)" for y
    proof -
      obtain h where h: "h \<in> set (greys \<sigma>)" "num \<sigma> h \<le> num \<sigma> y" "(y, h) \<in> E\<^sup>*" using L(2) [OF y] by auto
      show ?thesis
      proof (cases "h = s")
        case True
        then have "(y, g0) \<in> E\<^sup>*" using h x(3) g0(3) by (meson rtrancl_trans)
        then show ?thesis using g0r True h(2) by (intro bexI [of _ g0]) auto
      next
        case False
        then show ?thesis using h g by auto
      qed
    qed
    show "(h, y) \<in> E\<^sup>*" if "h \<in> set rest" "y \<in> set (sstack \<sigma>)" "num \<sigma> h \<le> num \<sigma> y" for h y
      using that L(3) g by simp
    show "((low \<sigma>)(p := min (low \<sigma> p) (low \<sigma> s))) h \<le> num \<sigma> h" if "h \<in> set rest" for h
      using that L(4) [of h] ps(4) g by auto
    show "\<exists>x \<in> set (sstack \<sigma>). ((low \<sigma>)(p := min (low \<sigma> p) (low \<sigma> s))) h = num \<sigma> x \<and> (h, x) \<in> E\<^sup>*" if h: "h \<in> set rest" for h
    proof (cases "h = p \<and> low \<sigma> s < low \<sigma> p")
      case True
      moreover have "(p, x) \<in> E\<^sup>*" using ps(1) x(3) by (rule converse_rtrancl_into_rtrancl)
      ultimately show ?thesis using x by (intro bexI [of _ x]) auto
    next
      case False
      then show ?thesis using L(5) [of h] h g by auto
    qed
  qed
  moreover have "t_cover (t_parent s rest \<sigma>)"
  proof (rule t_coverI, unfold sel)
    fix h y u
    assume h: "h \<in> set rest" and yu: "(y, u) \<in> insert (p, s) (procd \<sigma>)" "y \<in> set (sstack \<sigma>)" "u \<in> set (sstack \<sigma>)"
    have hg: "h \<in> set (greys \<sigma>)" using h g by simp
    { assume le: "num \<sigma> h \<le> num \<sigma> y" "\<And>g'. g' \<in> set rest \<Longrightarrow> num \<sigma> g' \<le> num \<sigma> y \<Longrightarrow> num \<sigma> g' \<le> num \<sigma> h"
      have p: "h = p" if "num \<sigma> p \<le> num \<sigma> y" using le(2) [of p] that hp [OF h] r by auto
      show "((low \<sigma>)(p := min (low \<sigma> p) (low \<sigma> s))) h \<le> num \<sigma> u"
      proof (cases "(y, u) \<in> procd \<sigma>")
        case True
        show ?thesis
        proof (cases "num \<sigma> s \<le> num \<sigma> y")
          case s: True
          have "low \<sigma> s \<le> num \<sigma> u"
            using t_coverD(1) [OF co _ True yu(2,3), of s] s top(4) g by auto
          then show ?thesis using p s ps(2) by simp
        next
          case False
          then have "num \<sigma> g' \<le> num \<sigma> h" if "g' \<in> set (greys \<sigma>)" "num \<sigma> g' \<le> num \<sigma> y" for g'
            using that le(2) g by auto
          then have "low \<sigma> h \<le> num \<sigma> u" using t_coverD(1) [OF co hg True yu(2,3)] le(1) by blast
          then show ?thesis by auto
        qed
      next
        case False
        then have "y = p" "u = s" using yu(1) by auto
        then show ?thesis using p ps by auto
      qed }
    { assume "num \<sigma> y < num \<sigma> h" "num \<sigma> h \<le> num \<sigma> u"
      then show False using t_coverD(2) [OF co hg _ yu(2,3)] hp [OF h] yu(1) by auto }
  qed
  moreover have "t_coacc E fin (t_parent s rest \<sigma>)"
  proof (rule t_coaccI, unfold sel)
    note C = t_coaccD [OF ca]
    show "r \<in> coaccs E fin" if "r \<in> disc \<sigma>" "((coacc \<sigma>)(p := coacc \<sigma> p \<or> coacc \<sigma> s)) r" for r
      using that C(1) top(2) coaccs_step [of p s E fin] ps(1) by (auto split: if_splits)
    show "((coacc \<sigma>)(p := coacc \<sigma> p \<or> coacc \<sigma> s)) r" if "r \<in> closed \<sigma>" "r \<in> coaccs E fin" for r
      using C(2) [OF that] by auto
    show "((coacc \<sigma>)(p := coacc \<sigma> p \<or> coacc \<sigma> s)) y"
      if "(y, u) \<in> insert (p, s) (procd \<sigma>)" "y \<in> set (sstack \<sigma>)" "u \<in> closed \<sigma>" "((coacc \<sigma>)(p := coacc \<sigma> p \<or> coacc \<sigma> s)) u" for y u
      using that C(3) [of y u] ps(3) by (auto split: if_splits)
    show "((coacc \<sigma>)(p := coacc \<sigma> p \<or> coacc \<sigma> s)) y" if "y \<in> set (sstack \<sigma>)" "y \<notin> set rest" "y \<in> fin" for y
      using C(4) [of y] that fin g by (cases "y = s") auto
  qed
  moreover have "t_comps E (t_parent s rest \<sigma>)" using cm by (simp add: t_comps_def)
  ultimately show ?thesis by (simp add: tarjan_inv_def)
qed

section \<open>Leaving a root\<close>

lemma parent_rest:
  assumes "rest = [] \<or> (\<exists>p gs. rest = p # gs \<and> low \<sigma> p \<le> low \<sigma> s)"
  shows "low (t_parent s rest \<sigma>) = low \<sigma>"
    "procd (t_parent s rest \<sigma>) = procd \<sigma> \<union> (if rest = [] then {} else {(hd rest, s)})"
    "coacc (t_parent s rest \<sigma>) = (\<lambda>t. coacc \<sigma> t \<or> rest \<noteq> [] \<and> t = hd rest \<and> coacc \<sigma> s)"
  using assms by (auto simp: t_parent_def fun_eq_iff split: if_splits)

text \<open>The stack splits at a root into its component and the states below it.\<close>

lemma split_stack:
  assumes "sorted_wrt (\<lambda>x y. num \<sigma> x > num \<sigma> y) (sstack \<sigma>)" "s \<in> set (sstack \<sigma>)"
  shows "tl (dropWhile (\<lambda>t. t \<noteq> s) (sstack \<sigma>)) = filter (\<lambda>t. num \<sigma> t < num \<sigma> s) (sstack \<sigma>)"
    and "t_seg s \<sigma> = {t \<in> set (sstack \<sigma>). num \<sigma> s \<le> num \<sigma> t}"
proof -
  obtain A B where AB: "sstack \<sigma> = A @ s # B" "s \<notin> set A" using assms(2) by (meson split_list_first)
  have d: "dropWhile (\<lambda>t. t \<noteq> s) (sstack \<sigma>) = s # B" "takeWhile (\<lambda>t. t \<noteq> s) (sstack \<sigma>) = A"
    using AB by (auto simp: dropWhile_append3 takeWhile_append)
  have A: "num \<sigma> s < num \<sigma> t" if "t \<in> set A" for t using assms(1) that by (auto simp: AB(1) sorted_wrt_append)
  have B: "num \<sigma> t < num \<sigma> s" if "t \<in> set B" for t using assms(1) that by (auto simp: AB(1) sorted_wrt_append)
  have "filter (\<lambda>t. num \<sigma> t < num \<sigma> s) A = []" using A by (force simp: filter_empty_conv)
  moreover have "filter (\<lambda>t. num \<sigma> t < num \<sigma> s) B = B" using B by (simp add: filter_id_conv)
  ultimately show "tl (dropWhile (\<lambda>t. t \<noteq> s) (sstack \<sigma>)) = filter (\<lambda>t. num \<sigma> t < num \<sigma> s) (sstack \<sigma>)"
    unfolding d by (simp add: AB(1))
  show "t_seg s \<sigma> = {t \<in> set (sstack \<sigma>). num \<sigma> s \<le> num \<sigma> t}"
    using A B unfolding t_seg_def d by (auto simp: AB(1) order_less_imp_le) (meson leD)
qed

lemma root_component:
  assumes inv: "tarjan_inv E fin \<sigma>" and g: "greys \<sigma> = s # rest" and all: "E `` {s} \<subseteq> procd \<sigma> `` {s}"
    and lo: "low \<sigma> s = num \<sigma> s"
  defines "Q \<equiv> {t \<in> set (sstack \<sigma>). num \<sigma> s \<le> num \<sigma> t}"
  shows "y \<in> Q \<Longrightarrow> (y, t) \<in> E \<Longrightarrow> t \<in> Q \<union> closed \<sigma>"
    and "y \<in> Q \<Longrightarrow> (y, s) \<in> E\<^sup>*" and "y \<in> Q \<Longrightarrow> (s, y) \<in> E\<^sup>*"
    and "y \<in> Q \<Longrightarrow> (y, t) \<in> E \<Longrightarrow> (y, t) \<in> procd \<sigma>"
    and "y \<in> closed \<sigma> \<Longrightarrow> (y, t) \<in> E\<^sup>* \<Longrightarrow> t \<in> closed \<sigma>"
proof -
  have sh: "t_shape E \<sigma>" and li: "t_links E \<sigma>" and co: "t_cover \<sigma>" using inv by (simp_all add: tarjan_inv_def)
  note top = shape_top [OF sh g] and L = t_linksD [OF li]
  have grey: "h = s" if "h \<in> set (greys \<sigma>)" "h \<in> Q" for h using that top(3) [of h] g by (auto simp: Q_def)
  show proc: "(y, t) \<in> procd \<sigma>" if "y \<in> Q" "(y, t) \<in> E" for y t
  proof (cases "y = s")
    case False
    then have "y \<in> disc \<sigma> - set (greys \<sigma>)" using that(1) grey sh by (auto simp: Q_def t_shape_def)
    then show ?thesis using that(2) sh by (auto simp: t_shape_def)
  qed (use that all in auto)
  show out: "t \<in> Q \<union> closed \<sigma>" if y: "y \<in> Q" and e: "(y, t) \<in> E" for y t
  proof -
    have "t \<in> disc \<sigma>" using proc [OF y e] sh by (auto simp: t_shape_def)
    moreover have "num \<sigma> s \<le> num \<sigma> t" if t: "t \<in> set (sstack \<sigma>)"
      using t_coverD(1) [OF co _ proc [OF y e] _ t, of s] y top(4) g lo by (auto simp: Q_def)
    ultimately show ?thesis by (auto simp: Q_def)
  qed
  show cl: "t \<in> closed \<sigma>" if "y \<in> closed \<sigma>" "(y, t) \<in> E\<^sup>*" for y t
    using that(2,1)
  proof (induction rule: rtrancl_induct)
    case (step t u)
    then show ?case using L(1) [of t u] by blast
  qed
  have reach: "t \<in> Q \<union> closed \<sigma>" if "(y, t) \<in> E\<^sup>*" "y \<in> Q" for y t
    using that
  proof (induction rule: rtrancl_induct)
    case (step t u)
    then show ?case using out [of t u] L(1) [of t u] by blast
  qed simp
  show "(y, s) \<in> E\<^sup>*" if y: "y \<in> Q" for y
  proof -
    obtain h where h: "h \<in> set (greys \<sigma>)" "(y, h) \<in> E\<^sup>*" using L(2) [of y] y by (auto simp: Q_def)
    then have "h \<in> Q" using reach [OF h(2) y] sh by (auto simp: t_shape_def)
    then show ?thesis using grey h by auto
  qed
  show "(s, y) \<in> E\<^sup>*" if "y \<in> Q" for y using L(3) [of s y] that g by (auto simp: Q_def)
qed

lemma root_coacc:
  assumes inv: "tarjan_inv E fin \<sigma>" and g: "greys \<sigma> = s # rest" and all: "E `` {s} \<subseteq> procd \<sigma> `` {s}"
    and lo: "low \<sigma> s = num \<sigma> s" and fin: "s \<in> fin \<Longrightarrow> coacc \<sigma> s"
    and y: "y \<in> set (sstack \<sigma>)" "num \<sigma> s \<le> num \<sigma> y" and z: "(y, z) \<in> E\<^sup>*" "z \<in> fin"
  shows "\<exists>u \<in> set (sstack \<sigma>). num \<sigma> s \<le> num \<sigma> u \<and> coacc \<sigma> u"
  using z(1) y
proof (induction rule: converse_rtrancl_induct)
  case base
  have "set (greys \<sigma>) \<inter> {t. num \<sigma> s \<le> num \<sigma> t} \<subseteq> {s}"
    using shape_top(3) [of E \<sigma> s rest] inv g by (fastforce simp: tarjan_inv_def)
  then have "coacc \<sigma> z"
    using base z(2) fin t_coaccD(4) [of E fin \<sigma> z] inv by (cases "z = s") (auto simp: tarjan_inv_def)
  then show ?case using base by blast
next
  case (step y t)
  note R = root_component [OF inv g all lo]
  have "t \<in> {t \<in> set (sstack \<sigma>). num \<sigma> s \<le> num \<sigma> t} \<union> closed \<sigma>" using R(1) step.hyps(1) step.prems by blast
  then show ?case
  proof
    assume t: "t \<in> closed \<sigma>"
    have "t \<in> coaccs E fin" using step.hyps(2) z(2) by (auto simp: coaccs_def)
    then have "coacc \<sigma> y"
      using t_coaccD(2) [of E fin \<sigma> t] t_coaccD(3) [of E fin \<sigma> y t] inv t step.prems R(4) [of y t] step.hyps(1)
      by (auto simp: tarjan_inv_def)
    then show ?thesis using step.prems by blast
  qed (use step.IH in blast)
qed

lemma tarjan_leave_root:
  assumes inv: "tarjan_inv E fin \<sigma>" and g: "greys \<sigma> = s # rest" and all: "E `` {s} \<subseteq> procd \<sigma> `` {s}"
    and lo: "low \<sigma> s = num \<sigma> s" and fin: "s \<in> fin \<Longrightarrow> coacc \<sigma> s"
  shows "tarjan_inv E fin (t_parent s rest (t_pop s \<sigma>))"
proof -
  have sh: "t_shape E \<sigma>" and li: "t_links E \<sigma>" and co: "t_cover \<sigma>" and ca: "t_coacc E fin \<sigma>" and cm: "t_comps E \<sigma>"
    using inv by (simp_all add: tarjan_inv_def)
  note top = shape_top [OF sh g] and L = t_linksD [OF li] and C = t_coaccD [OF ca]
  define Q where "Q = {t \<in> set (sstack \<sigma>). num \<sigma> s \<le> num \<sigma> t}"
  note R = root_component [OF inv g all lo, folded Q_def]
  have srt: "sorted_wrt (\<lambda>x y. num \<sigma> x > num \<sigma> y) (sstack \<sigma>)" using sh by (simp add: t_shape_def)
  note spl = split_stack [OF srt top(1), folded Q_def]
  let ?B = "filter (\<lambda>t. num \<sigma> t < num \<sigma> s) (sstack \<sigma>)"
  let ?\<tau> = "t_parent s rest (t_pop s \<sigma>)"
  have lowp: "rest = [] \<or> (\<exists>p gs. rest = p # gs \<and> low (t_pop s \<sigma>) p \<le> low (t_pop s \<sigma>) s)"
  proof (cases rest)
    case (Cons p gs)
    then have "low \<sigma> p \<le> num \<sigma> p" "num \<sigma> p < num \<sigma> s" using L(4) [of p] top(3) [of p] g by auto
    then show ?thesis using Cons lo by (simp add: t_pop_def)
  qed simp
  have sel: "greys ?\<tau> = rest" "disc ?\<tau> = disc \<sigma>" "num ?\<tau> = num \<sigma>" "low ?\<tau> = low \<sigma>" "sstack ?\<tau> = ?B"
    "procd ?\<tau> = procd \<sigma> \<union> (if rest = [] then {} else {(hd rest, s)})"
    "comp_of ?\<tau> = (\<lambda>t. if t \<in> Q then ncomp \<sigma> else comp_of \<sigma> t)" "ncomp ?\<tau> = ncomp \<sigma> + 1"
    using parent_rest [OF lowp] lo by (simp_all add: t_pop_def spl)
  have coa: "coacc ?\<tau> t \<longleftrightarrow> coacc \<sigma> t \<or> t \<in> Q \<and> (\<exists>u \<in> Q. coacc \<sigma> u) \<or> rest \<noteq> [] \<and> t = hd rest \<and> (\<exists>u \<in> Q. coacc \<sigma> u)" for t
  proof -
    have "s \<in> Q" using top(1) by (simp add: Q_def)
    then show ?thesis using parent_rest(3) [OF lowp] lo by (auto simp: t_pop_def spl(2))
  qed
  have sQ: "s \<in> Q" using top(1) by (simp add: Q_def)
  have setB: "set ?B = set (sstack \<sigma>) - Q" by (auto simp: Q_def)
  have clo: "disc \<sigma> - set ?B = closed \<sigma> \<union> Q" using sh by (auto simp: Q_def t_shape_def)
  have restB: "h \<in> set ?B" "h \<notin> Q" if "h \<in> set rest" for h
    using that top(3) [OF that] sh g by (auto simp: t_shape_def Q_def)
  have hdr: "(hd rest, s) \<in> E" "hd rest \<in> set rest" if "rest \<noteq> []"
    using that sh g by (cases rest; auto simp: t_shape_def)+
  have hin: "h \<in> set (greys \<sigma>)" if "h \<in> set rest" for h using that g by simp
  have "t_shape E ?\<tau>"
  proof -
    have "sorted_wrt (\<lambda>x y. num \<sigma> x > num \<sigma> y) ?B" using srt by (rule sorted_wrt_filter)
    moreover have "set rest \<subseteq> disc \<sigma>" using restB sh by (auto simp: t_shape_def)
    moreover have "set rest \<subseteq> set ?B" using restB by blast
    ultimately show ?thesis
      using sh g all top(2) hdr unfolding t_shape_def sel by (auto simp: successively_Cons)
  qed
  moreover have "t_links E ?\<tau>"
  proof (rule t_linksI, unfold sel clo)
    show "u \<in> closed \<sigma> \<union> Q" if "y \<in> closed \<sigma> \<union> Q" "(y, u) \<in> E" for y u
      using that R(1) [of y u] L(1) [of y u] by blast
    show "\<exists>h \<in> set rest. num \<sigma> h \<le> num \<sigma> y \<and> (y, h) \<in> E\<^sup>*" if y: "y \<in> set ?B" for y
    proof -
      obtain h where h: "h \<in> set (greys \<sigma>)" "num \<sigma> h \<le> num \<sigma> y" "(y, h) \<in> E\<^sup>*" using L(2) [of y] y by auto
      then have "h \<noteq> s" using y by auto
      then show ?thesis using h g by auto
    qed
    show "(h, y) \<in> E\<^sup>*" if "h \<in> set rest" "y \<in> set ?B" "num \<sigma> h \<le> num \<sigma> y" for h y
      using that L(3) [OF hin] by auto
    show "low \<sigma> h \<le> num \<sigma> h" if "h \<in> set rest" for h using L(4) [OF hin [OF that]] .
    show "\<exists>x \<in> set ?B. low \<sigma> h = num \<sigma> x \<and> (h, x) \<in> E\<^sup>*" if h: "h \<in> set rest" for h
      using L(4,5) [OF hin [OF h]] top(3) [OF h] by force
  qed
  moreover have "t_cover ?\<tau>"
  proof (rule t_coverI, unfold sel)
    fix h y u
    assume h: "h \<in> set rest" and yu: "(y, u) \<in> procd \<sigma> \<union> (if rest = [] then {} else {(hd rest, s)})" "y \<in> set ?B" "u \<in> set ?B"
    have pr: "(y, u) \<in> procd \<sigma>" "y \<in> set (sstack \<sigma>)" "u \<in> set (sstack \<sigma>)" "num \<sigma> y < num \<sigma> s"
      using yu by (auto split: if_splits)
    { assume le: "num \<sigma> h \<le> num \<sigma> y" "\<And>g'. g' \<in> set rest \<Longrightarrow> num \<sigma> g' \<le> num \<sigma> y \<Longrightarrow> num \<sigma> g' \<le> num \<sigma> h"
      have "num \<sigma> g' \<le> num \<sigma> h" if "g' \<in> set (greys \<sigma>)" "num \<sigma> g' \<le> num \<sigma> y" for g'
        using that le(2) pr(4) g by auto
      then show "low \<sigma> h \<le> num \<sigma> u" using t_coverD(1) [OF co hin [OF h] pr(1-3)] le(1) by blast }
    { assume "num \<sigma> y < num \<sigma> h" "num \<sigma> h \<le> num \<sigma> u"
      then show False using t_coverD(2) [OF co hin [OF h] pr(1-3)] by blast }
  qed
  moreover have "t_coacc E fin ?\<tau>"
  proof (rule t_coaccI, unfold sel clo coa)
    have Qd: "u \<in> disc \<sigma>" if "u \<in> Q" for u using that sh by (auto simp: Q_def t_shape_def)
    have Qc: "s \<in> coaccs E fin" if "u \<in> Q" "coacc \<sigma> u" for u
      using C(1) [OF Qd [OF that(1)] that(2)] R(3) [OF that(1)] by (blast intro: coaccs_step)
    show "r \<in> coaccs E fin"
      if "r \<in> disc \<sigma>" "coacc \<sigma> r \<or> r \<in> Q \<and> (\<exists>u \<in> Q. coacc \<sigma> u) \<or> rest \<noteq> [] \<and> r = hd rest \<and> (\<exists>u \<in> Q. coacc \<sigma> u)" for r
      using that C(1) R(2) [of r] Qc hdr(1) by (blast intro: coaccs_step)
    show "coacc \<sigma> r \<or> r \<in> Q \<and> (\<exists>u \<in> Q. coacc \<sigma> u) \<or> rest \<noteq> [] \<and> r = hd rest \<and> (\<exists>u \<in> Q. coacc \<sigma> u)"
      if r: "r \<in> closed \<sigma> \<union> Q" "r \<in> coaccs E fin" for r
    proof (cases "r \<in> Q")
      case True
      then have "\<exists>u \<in> Q. coacc \<sigma> u"
        using root_coacc [OF inv g all lo fin, of r] r(2) by (auto simp: coaccs_def Q_def)
      then show ?thesis using True by blast
    next
      case False
      then show ?thesis using r C(2) [of r] by blast
    qed
    show "coacc \<sigma> y \<or> y \<in> Q \<and> (\<exists>u \<in> Q. coacc \<sigma> u) \<or> rest \<noteq> [] \<and> y = hd rest \<and> (\<exists>u \<in> Q. coacc \<sigma> u)"
      if yt: "(y, t) \<in> procd \<sigma> \<union> (if rest = [] then {} else {(hd rest, s)})" "y \<in> set ?B" "t \<in> closed \<sigma> \<union> Q"
        "coacc \<sigma> t \<or> t \<in> Q \<and> (\<exists>u \<in> Q. coacc \<sigma> u) \<or> rest \<noteq> [] \<and> t = hd rest \<and> (\<exists>u \<in> Q. coacc \<sigma> u)" for y t
    proof (cases "(y, t) \<in> procd \<sigma>")
      case True
      have "t \<notin> Q" using t_coverD(2) [OF co _ True, of s] yt(2) g by (auto simp: Q_def)
      moreover have "t \<noteq> hd rest" if "rest \<noteq> []" using restB(1) [OF hdr(2) [OF that]] yt(3) calculation by auto
      ultimately show ?thesis using C(3) [OF True] yt by auto
    next
      case False
      then have "rest \<noteq> []" "y = hd rest" "t = s" using yt(1) by (auto split: if_splits)
      moreover have "hd rest \<noteq> s" using restB(2) [OF hdr(2) [OF calculation(1)]] sQ by auto
      ultimately show ?thesis using yt(4) sQ by blast
    qed
    show "coacc \<sigma> y \<or> y \<in> Q \<and> (\<exists>u \<in> Q. coacc \<sigma> u) \<or> rest \<noteq> [] \<and> y = hd rest \<and> (\<exists>u \<in> Q. coacc \<sigma> u)"
      if "y \<in> set ?B" "y \<notin> set rest" "y \<in> fin" for y
      using C(4) [of y] that g by auto
  qed
  moreover have "t_comps E ?\<tau>"
  proof -
    have QF: "x \<notin> Q" if "x \<in> closed \<sigma>" for x using that by (auto simp: Q_def)
    have mut: "(x, y) \<in> E\<^sup>*" if "x \<in> Q" "y \<in> Q" for x y using R(2) [OF that(1)] R(3) [OF that(2)] by simp
    have no: "(x, y) \<notin> E\<^sup>*" "(x, y) \<notin> E" if "x \<in> closed \<sigma>" "y \<in> Q" for x y
      using R(5) [OF that(1), of y] that(2) by (auto simp: Q_def)
    have cs: "0 \<le> ncomp \<sigma>" "\<And>x. x \<in> closed \<sigma> \<Longrightarrow> 0 \<le> comp_of \<sigma> x \<and> comp_of \<sigma> x < ncomp \<sigma>"
      "\<And>x y. x \<in> closed \<sigma> \<Longrightarrow> y \<in> closed \<sigma> \<Longrightarrow> comp_of \<sigma> x = comp_of \<sigma> y \<longleftrightarrow> (x, y) \<in> E\<^sup>* \<and> (y, x) \<in> E\<^sup>*"
      "\<And>x y. x \<in> closed \<sigma> \<Longrightarrow> y \<in> closed \<sigma> \<Longrightarrow> (x, y) \<in> E \<Longrightarrow> comp_of \<sigma> y \<le> comp_of \<sigma> x"
      "\<And>c. 0 \<le> c \<Longrightarrow> c < ncomp \<sigma> \<Longrightarrow> \<exists>x \<in> closed \<sigma>. comp_of \<sigma> x = c"
      using cm unfolding t_comps_def by blast+
    show ?thesis unfolding t_comps_def sel clo
    proof (intro conjI ballI allI impI)
      show "0 \<le> ncomp \<sigma> + 1" using cs(1) by simp
      show "\<exists>x \<in> closed \<sigma> \<union> Q. (if x \<in> Q then ncomp \<sigma> else comp_of \<sigma> x) = c" if cr: "0 \<le> c \<and> c < ncomp \<sigma> + 1" for c
      proof (cases "c = ncomp \<sigma>")
        case True
        then show ?thesis using sQ by auto
      next
        case False
        then obtain x where "x \<in> closed \<sigma>" "comp_of \<sigma> x = c" using cs(5) [of c] cr by auto
        then show ?thesis using QF by (intro bexI [of _ x]) auto
      qed
      fix x assume x: "x \<in> closed \<sigma> \<union> Q"
      show "0 \<le> (if x \<in> Q then ncomp \<sigma> else comp_of \<sigma> x)" "(if x \<in> Q then ncomp \<sigma> else comp_of \<sigma> x) < ncomp \<sigma> + 1"
        using x cs(1) cs(2) [of x] by auto
      fix y assume y: "y \<in> closed \<sigma> \<union> Q"
      show "((if x \<in> Q then ncomp \<sigma> else comp_of \<sigma> x) = (if y \<in> Q then ncomp \<sigma> else comp_of \<sigma> y)) \<longleftrightarrow>
          (x, y) \<in> E\<^sup>* \<and> (y, x) \<in> E\<^sup>*"
        using x y cs(2) [of x] cs(2) [of y] cs(3) [of x y] mut no(1) by (cases "x \<in> Q"; cases "y \<in> Q") auto
      assume "(x, y) \<in> E"
      then show "(if y \<in> Q then ncomp \<sigma> else comp_of \<sigma> y) \<le> (if x \<in> Q then ncomp \<sigma> else comp_of \<sigma> x)"
        using x y cs(2) [of y] cs(4) [of x y] no(2) [of x y] by (cases "x \<in> Q"; cases "y \<in> Q") auto
    qed
  qed
  ultimately show ?thesis by (simp add: tarjan_inv_def)
qed

theorem tarjan_step_inv: "tarjan_step E fin \<sigma> \<tau> \<Longrightarrow> tarjan_inv E fin \<sigma> \<Longrightarrow> tarjan_inv E fin \<tau>"
proof (induction rule: tarjan_step.induct)
  case (push t \<sigma> k)
  then show ?case by (intro tarjan_push)
next
  case (arc \<sigma> s rest t l)
  then show ?case by (intro tarjan_arc)
next
  case (leave \<sigma> s rest)
  let ?\<mu> = "t_mark fin s \<sigma>"
  have m: "tarjan_inv E fin ?\<mu>" "greys ?\<mu> = s # rest" "E `` {s} \<subseteq> procd ?\<mu> `` {s}" "s \<in> fin \<Longrightarrow> coacc ?\<mu> s"
    using leave tarjan_mark [of E fin \<sigma> s rest] by auto
  show ?case
  proof (cases "low \<sigma> s = num \<sigma> s")
    case True
    then show ?thesis using tarjan_leave_root [OF m(1-3) _ m(4)] by simp
  next
    case False
    then have "t_pop s ?\<mu> = ?\<mu>" by (simp add: t_pop_def)
    then show ?thesis using tarjan_leave_inner [OF m(1-3) _ m(4)] False by simp
  qed
qed

section \<open>The result\<close>

theorem tarjan_result:
  assumes inv: "tarjan_inv E fin \<sigma>" and "greys \<sigma> = []"
  shows "s \<in> disc \<sigma> \<Longrightarrow> coacc \<sigma> s \<longleftrightarrow> s \<in> coaccs E fin"
    and "x \<in> disc \<sigma> \<Longrightarrow> y \<in> disc \<sigma> \<Longrightarrow> comp_of \<sigma> x = comp_of \<sigma> y \<longleftrightarrow> (x, y) \<in> E\<^sup>* \<and> (y, x) \<in> E\<^sup>*"
    and "x \<in> disc \<sigma> \<Longrightarrow> y \<in> disc \<sigma> \<Longrightarrow> (x, y) \<in> E \<Longrightarrow> comp_of \<sigma> y \<le> comp_of \<sigma> x"
    and "x \<in> disc \<sigma> \<Longrightarrow> 0 \<le> comp_of \<sigma> x \<and> comp_of \<sigma> x < ncomp \<sigma>"
    and "0 \<le> c \<Longrightarrow> c < ncomp \<sigma> \<Longrightarrow> \<exists>x \<in> disc \<sigma>. comp_of \<sigma> x = c"
proof -
  have "sstack \<sigma> = []"
    using inv assms(2) unfolding tarjan_inv_def t_links_def by (cases "sstack \<sigma>") auto
  then have cl: "closed \<sigma> = disc \<sigma>" by simp
  have ca: "t_coacc E fin \<sigma>" and cm: "t_comps E \<sigma>" using inv by (simp_all add: tarjan_inv_def)
  show "coacc \<sigma> s \<longleftrightarrow> s \<in> coaccs E fin" if "s \<in> disc \<sigma>" using t_coaccD(1,2) [OF ca, of s] that cl by blast
  show "comp_of \<sigma> x = comp_of \<sigma> y \<longleftrightarrow> (x, y) \<in> E\<^sup>* \<and> (y, x) \<in> E\<^sup>*" if "x \<in> disc \<sigma>" "y \<in> disc \<sigma>"
    using cm that unfolding t_comps_def cl by blast
  show "comp_of \<sigma> y \<le> comp_of \<sigma> x" if "x \<in> disc \<sigma>" "y \<in> disc \<sigma>" "(x, y) \<in> E"
    using cm that unfolding t_comps_def cl by blast
  show "0 \<le> comp_of \<sigma> x \<and> comp_of \<sigma> x < ncomp \<sigma>" if "x \<in> disc \<sigma>"
    using cm that unfolding t_comps_def cl by blast
  show "\<exists>x \<in> disc \<sigma>. comp_of \<sigma> x = c" if "0 \<le> c" "c < ncomp \<sigma>"
    using cm that unfolding t_comps_def cl by blast
qed

end
