(* ===== verification/SccLaws.thy ===== *)
theory SccLaws
  imports Connect Tarjan
begin

text \<open>
  \<open>SccVisitor\<close> carries out the steps of Tarjan's algorithm: the relation \<open>scc_rel\<close> between the
  variables of the search and of the visitor and an abstract state is kept by every step of the
  search, with a step of \<open>tarjan_step\<close>. So after the visit the vectors \<open>scc\<close>, \<open>access\<close> and \<open>coaccess\<close>
  say what the documentation promises.
\<close>

unbundle bit_operations_syntax

section \<open>The arcs examined so far\<close>

definition examined :: "'w vfst \<Rightarrow> 'v dfs_vars \<Rightarrow> (nat \<times> nat) set" where
  "examined f v = {(y, nextstate (Arcs f y ! j)) | y j. y < NumStates f \<and> j < NumArcs f y \<and>
     (state_color v ! y = kBlack \<or> (\<exists>i > j. (y, i) \<in> set (state_stack v)))}"

lemma examined_eqI:
  assumes "\<And>y j. y < NumStates f \<Longrightarrow> j < NumArcs f y \<Longrightarrow>
      (state_color w ! y = kBlack \<or> (\<exists>i > j. (y, i) \<in> set (state_stack w))) \<longleftrightarrow>
      (state_color v ! y = kBlack \<or> (\<exists>i > j. (y, i) \<in> set (state_stack v)))"
  shows "examined f w = examined f v"
  using assms unfolding examined_def by blast

lemma examined_push:
  assumes "dfs_ok f P v" "state_color v ! t = kWhite" "t < NumStates f"
    and "state_color w = (state_color v)[t := kGrey]" "state_stack w = (t, 0) # state_stack v"
  shows "examined f w = examined f v"
proof -
  have "t < length (state_color v)" using assms by (simp add: dfs_ok_def)
  then have "(state_color w ! y = kBlack) = (state_color v ! y = kBlack)" for y
    using assms(2) by (cases "y = t") (simp_all add: assms(4))
  then show ?thesis by (intro examined_eqI) (auto simp: assms(5))
qed

lemma examined_cong: "state_color w = state_color v \<Longrightarrow> state_stack w = state_stack v \<Longrightarrow> examined f w = examined f v"
  by (simp add: examined_def)

lemma dfs_ok_distinct:
  "dfs_ok f P v \<Longrightarrow> state_stack v = (s, i) # rest \<Longrightarrow> (s, j) \<in> set (state_stack v) \<longleftrightarrow> j = i"
  by (force simp: dfs_ok_def)

lemma examined_next:
  assumes ok: "dfs_ok f P v" and st: "state_stack v = (s, i) # rest" and i: "i < NumArcs f s"
    and w: "state_color w = state_color v" "state_stack w = (s, i + 1) # rest"
  shows "examined f w = insert (s, nextstate (Arcs f s ! i)) (examined f v)"
proof -
  note top = dfs_ok_top [OF ok st]
  have "(\<exists>k > j. (y, k) \<in> set (state_stack w)) \<longleftrightarrow> (\<exists>k > j. (y, k) \<in> set (state_stack v)) \<or> y = s \<and> j = i" for y j
  proof (cases "y = s")
    case True
    have "(s, k) \<notin> set rest" for k using top by force
    then show ?thesis using True by (auto simp: w st less_Suc_eq)
  qed (auto simp: w st)
  then show ?thesis using top i unfolding examined_def w(1) by auto
qed

lemma examined_leave:
  assumes ok: "dfs_ok f P v" and st: "state_stack v = (s, i) # rest" and i: "NumArcs f s \<le> i"
  shows "examined f (dfs_leave f V s rest v) =
    (case rest of [] \<Rightarrow> examined f v | (p, j) # _ \<Rightarrow> insert (p, s) (examined f v))"
proof -
  note top = dfs_ok_top [OF ok st]
  let ?m = "v\<lparr>state_color := (state_color v)[s := kBlack], state_stack := rest\<rparr>"
  have "(s, k) \<notin> set rest" for k using top by force
  then have "(state_color ?m ! y = kBlack \<or> (\<exists>k > j. (y, k) \<in> set (state_stack ?m))) \<longleftrightarrow>
      (state_color v ! y = kBlack \<or> (\<exists>k > j. (y, k) \<in> set (state_stack v)))" if "j < NumArcs f y" for y j
    using that top i by (cases "y = s") (auto simp: st)
  then have m: "examined f ?m = examined f v" by (intro examined_eqI)
  show ?thesis
  proof (cases rest)
    case Nil
    then have "examined f (dfs_leave f V s rest v) = examined f ?m" by (simp add: examined_def)
    then show ?thesis using m Nil by simp
  next
    case (Cons q below)
    obtain p j where q: "q = (p, j)" by (cases q)
    have sk: "stack_ok f P ((s, i) # (p, j) # below)" using ok st unfolding dfs_ok_def Cons q by metis
    note par = stack_ok_parent [OF sk]
    have "distinct (map fst rest)" using ok st by (simp add: dfs_ok_def)
    then have nb: "(p, k) \<notin> set below" for k by (force simp: Cons q)
    have "(\<exists>k > l. (y, k) \<in> set (next_top rest)) \<longleftrightarrow> (\<exists>k > l. (y, k) \<in> set rest) \<or> y = p \<and> l = j" for y l
      using nb by (cases "y = p") (auto simp: Cons q less_Suc_eq)
    then have "examined f (dfs_leave f V s rest v) = insert (p, nextstate (Arcs f p ! j)) (examined f ?m)"
      using par unfolding examined_def by auto
    then show ?thesis using m par by (simp add: Cons q)
  qed
qed

lemma examined_all:
  assumes ok: "dfs_ok f P v" and st: "state_stack v = (s, i) # rest" and i: "NumArcs f s \<le> i"
  shows "edges f `` {s} \<subseteq> examined f v `` {s}"
proof
  fix t assume "t \<in> edges f `` {s}"
  then obtain a where "s < NumStates f" "a \<in> set (Arcs f s)" "t = nextstate a" by (auto simp: edges_iff trans_iff)
  then obtain j where j: "j < NumArcs f s" "t = nextstate (Arcs f s ! j)" by (auto simp: in_set_conv_nth NumArcs_def Arcs_def)
  moreover have "(s, i) \<in> set (state_stack v)" "j < i" using st i j by simp_all
  ultimately have "(s, t) \<in> examined f v" using dfs_ok_top [OF ok st] unfolding examined_def by blast
  then show "t \<in> examined f v `` {s}" by simp
qed

section \<open>The operations of the visitor\<close>

lemma resize_obs: "length (resize n d xs) = n" "x < n \<Longrightarrow> x < length xs \<Longrightarrow> resize n d xs ! x = xs ! x"
  "x < n \<Longrightarrow> length xs \<le> x \<Longrightarrow> resize n d xs ! x = d"
  by (auto simp: resize_def nth_append)

definition scc_lens :: "'w scc_vars \<Rightarrow> nat \<Rightarrow> bool" where
  "scc_lens u n \<longleftrightarrow> length (dfnumber u) = n \<and> length (lowlink u) = n \<and> length (onstack u) = n \<and> length (coaccess u) = n \<and>
     (\<forall>c. scc u = Some c \<longrightarrow> length c = n) \<and> (\<forall>a. access u = Some a \<longrightarrow> length a = n)"

lemma InitState_obs:
  assumes l: "scc_lens u n" and u': "u' = fst (scc_InitState s root u)"
  shows "scc_lens u' (max n (s + 1))" "snd (scc_InitState s root u)"
    "dfnumber u' ! s = scc_nstates u" "lowlink u' ! s = scc_nstates u" "onstack u' ! s"
    "coaccess u' ! s \<longleftrightarrow> s < n \<and> coaccess u ! s"
    "x < n \<Longrightarrow> x \<noteq> s \<Longrightarrow> dfnumber u' ! x = dfnumber u ! x \<and> lowlink u' ! x = lowlink u ! x \<and> onstack u' ! x = onstack u ! x \<and>
       coaccess u' ! x = coaccess u ! x \<and> the (access u') ! x = the (access u) ! x \<and> the (scc u') ! x = the (scc u) ! x"
    "n \<le> x \<Longrightarrow> x < max n (s + 1) \<Longrightarrow> \<not> coaccess u' ! x"
    "scc_stack u' = s # scc_stack u" "scc_nstates u' = scc_nstates u + 1" "nscc u' = nscc u"
    "scc_fst u' = scc_fst u" "scc_start u' = scc_start u"
    "(access u' = None) = (access u = None)" "(scc u' = None) = (scc u = None)"
    "access u \<noteq> None \<Longrightarrow> the (access u') ! s = (Some root = scc_start u)"
proof -
  note D = u' [unfolded scc_InitState_def Let_def]
  have L: "length (dfnumber u) = n" "length (lowlink u) = n" "length (onstack u) = n" "length (coaccess u) = n"
    "\<And>c. scc u = Some c \<Longrightarrow> length c = n" "\<And>a. access u = Some a \<Longrightarrow> length a = n" using l by (auto simp: scc_lens_def)
  have m: "max n (s + 1) = (if n \<le> s then s + 1 else n)" by auto
  note S = D L m resize_obs
  show "scc_lens u' (max n (s + 1))" unfolding scc_lens_def by (cases "n \<le> s") (auto simp: S)
  show "snd (scc_InitState s root u)" by (simp add: scc_InitState_def Let_def)
  show "dfnumber u' ! s = scc_nstates u" "lowlink u' ! s = scc_nstates u" "onstack u' ! s"
    by (cases "n \<le> s"; simp add: S)+
  show "coaccess u' ! s \<longleftrightarrow> s < n \<and> coaccess u ! s" by (cases "n \<le> s") (simp_all add: S)
  show "scc_stack u' = s # scc_stack u" "scc_nstates u' = scc_nstates u + 1" "nscc u' = nscc u" "scc_fst u' = scc_fst u"
    "scc_start u' = scc_start u" "(access u' = None) = (access u = None)" "(scc u' = None) = (scc u = None)"
    by (simp_all add: D)
  show "the (access u') ! s = (Some root = scc_start u)" if "access u \<noteq> None"
    using that by (cases "n \<le> s") (auto simp: S)
  show "\<not> coaccess u' ! x" if "n \<le> x" "x < max n (s + 1)" using that by (cases "n \<le> s") (auto simp: S)
  assume x: "x < n" "x \<noteq> s"
  have "dfnumber u' ! x = dfnumber u ! x" "lowlink u' ! x = lowlink u ! x" "onstack u' ! x = onstack u ! x"
    "coaccess u' ! x = coaccess u ! x" using x by (cases "n \<le> s"; simp add: S)+
  moreover have "the (access u') ! x = the (access u) ! x" using x by (cases "access u"; cases "n \<le> s"; auto simp: S)
  moreover have "the (scc u') ! x = the (scc u) ! x" using x by (cases "scc u"; cases "n \<le> s"; auto simp: S)
  ultimately show "dfnumber u' ! x = dfnumber u ! x \<and> lowlink u' ! x = lowlink u ! x \<and> onstack u' ! x = onstack u ! x \<and>
       coaccess u' ! x = coaccess u ! x \<and> the (access u') ! x = the (access u) ! x \<and> the (scc u') ! x = the (scc u) ! x"
    by blast
qed

text \<open>The component of \<open>s\<close> on the stack.\<close>

abbreviation seg :: "nat \<Rightarrow> nat list \<Rightarrow> nat set" where
  "seg s stack \<equiv> insert s (set (takeWhile (\<lambda>t. t \<noteq> s) stack))"

lemma scc_coaccess_iff: "s \<in> set stack \<Longrightarrow> scc_coaccess s cs stack b \<longleftrightarrow> b \<or> (\<exists>t \<in> seg s stack. cs ! t)"
  by (induction stack arbitrary: b) (auto simp: Let_def)

lemma below_seg:
  assumes "s \<in> set stack" "distinct stack"
  shows "set (tl (dropWhile (\<lambda>t. t \<noteq> s) stack)) = set stack - seg s stack"
proof -
  obtain A B where AB: "stack = A @ s # B" "s \<notin> set A" using assms(1) by (meson split_list_first)
  have d: "dropWhile (\<lambda>t. t \<noteq> s) stack = s # B" "takeWhile (\<lambda>t. t \<noteq> s) stack = A"
    using AB by (auto simp: dropWhile_append3 takeWhile_append)
  show ?thesis unfolding d using assms(2) AB by auto
qed

definition popped :: "nat \<Rightarrow> bool \<Rightarrow> nat list \<Rightarrow> nat \<Rightarrow> 'w scc_vars \<Rightarrow> 'w scc_vars \<Rightarrow> bool" where
  "popped s b stack n u w \<longleftrightarrow> scc_lens w n \<and> dfnumber w = dfnumber u \<and> lowlink w = lowlink u \<and> scc_nstates w = scc_nstates u \<and>
     nscc w = nscc u \<and> scc_fst w = scc_fst u \<and> scc_start w = scc_start u \<and> access w = access u \<and> scc_props w = scc_props u \<and>
     scc_stack w = tl (dropWhile (\<lambda>t. t \<noteq> s) stack) \<and>
     (\<forall>x < n. coaccess w ! x = (coaccess u ! x \<or> b \<and> x \<in> seg s stack)) \<and>
     (\<forall>x < n. onstack w ! x = (onstack u ! x \<and> x \<notin> seg s stack)) \<and> (scc w = None) = (scc u = None) \<and>
     (scc u \<noteq> None \<longrightarrow> (\<forall>x < n. the (scc w) ! x = (if x \<in> seg s stack then nscc u else the (scc u) ! x)))"

lemma scc_pop_obs:
  assumes "s \<in> set stack" "scc_lens u n" "set stack \<subseteq> {..<n}"
  shows "popped s b stack n u (scc_pop s b stack u)"
  using assms
proof (induction stack arbitrary: u)
  case (Cons t stack)
  let ?u = "u\<lparr>scc := map_option (\<lambda>c. c[t := nscc u]) (scc u), coaccess := (if b then (coaccess u)[t := True] else coaccess u),
     onstack := (onstack u)[t := False], scc_stack := stack\<rparr>"
  have L: "scc_lens ?u n" and t: "t < n" using Cons.prems by (auto simp: scc_lens_def)
  have nth: "coaccess ?u ! x = (coaccess u ! x \<or> b \<and> x = t)" "onstack ?u ! x = (onstack u ! x \<and> x \<noteq> t)" if "x < n" for x
    using that Cons.prems(2) by (cases "x = t"; auto simp: scc_lens_def)+
  have sc: "the (scc ?u) ! x = (if x = t then nscc u else the (scc u) ! x)" if "x < n" "scc u \<noteq> None" for x
    using that Cons.prems(2) by (auto simp: scc_lens_def nth_list_update)
  have same: "dfnumber ?u = dfnumber u" "lowlink ?u = lowlink u" "scc_nstates ?u = scc_nstates u" "nscc ?u = nscc u"
    "scc_fst ?u = scc_fst u" "scc_start ?u = scc_start u" "access ?u = access u" "scc_props ?u = scc_props u" "(scc ?u = None) = (scc u = None)"
    "scc_stack ?u = stack"
    by simp_all
  show ?case
  proof (cases "s = t")
    case True
    then have e: "scc_pop s b (t # stack) u = ?u" "seg s (t # stack) = {t}" "tl (dropWhile (\<lambda>x. x \<noteq> s) (t # stack)) = stack"
      by (simp_all add: Let_def)
    show ?thesis unfolding popped_def e using L nth sc same by auto
  next
    case False
    have IH: "popped s b stack n ?u (scc_pop s b stack ?u)" by (rule Cons.IH [OF _ L]) (use Cons.prems False in auto)
    have e: "scc_pop s b (t # stack) u = scc_pop s b stack ?u" "seg s (t # stack) = insert t (seg s stack)"
      "tl (dropWhile (\<lambda>x. x \<noteq> s) (t # stack)) = tl (dropWhile (\<lambda>x. x \<noteq> s) stack)"
      using False by (auto simp: Let_def)
    show ?thesis using IH nth sc unfolding popped_def e same by auto
  qed
qed simp

section \<open>The simulation\<close>

definition discovered :: "'v dfs_vars \<Rightarrow> nat set" where
  "discovered v = {s. s < length (state_color v) \<and> state_color v ! s \<noteq> kWhite}"

definition scc_rel :: "'w vfst \<Rightarrow> 'w scc_vars dfs_vars \<Rightarrow> tarjan \<Rightarrow> bool" where
  "scc_rel f v \<sigma> \<longleftrightarrow>
     (let u = visitor_state v; n = length (dfnumber u)
      in greys \<sigma> = map fst (state_stack v) \<and> disc \<sigma> = discovered v \<and> procd \<sigma> = examined f v \<and>
         sstack \<sigma> = scc_stack u \<and> ncomp \<sigma> = nscc u \<and> scc_lens u n \<and> n \<le> NumStates f \<and> disc \<sigma> \<subseteq> {..<n} \<and>
         (\<forall>s \<in> disc \<sigma>. num \<sigma> s = dfnumber u ! s \<and> low \<sigma> s = lowlink u ! s \<and> coacc \<sigma> s = coaccess u ! s \<and>
            onstack u ! s = (s \<in> set (sstack \<sigma>)) \<and> dfnumber u ! s < scc_nstates u) \<and>
         (scc u \<noteq> None \<longrightarrow> (\<forall>s \<in> closed \<sigma>. comp_of \<sigma> s = the (scc u) ! s)) \<and>
         (\<forall>s < n. s \<notin> disc \<sigma> \<longrightarrow> \<not> coaccess u ! s) \<and> dfs v \<and> scc_fst u = f \<and> scc_start u = start f)"

lemma scc_relI:
  assumes "u = visitor_state v" "greys \<sigma> = map fst (state_stack v)" "disc \<sigma> = discovered v" "procd \<sigma> = examined f v"
    "sstack \<sigma> = scc_stack u" "ncomp \<sigma> = nscc u" "scc_lens u n" "n \<le> NumStates f" "disc \<sigma> \<subseteq> {..<n}"
    "\<And>s. s \<in> disc \<sigma> \<Longrightarrow> num \<sigma> s = dfnumber u ! s \<and> low \<sigma> s = lowlink u ! s \<and> coacc \<sigma> s = coaccess u ! s \<and>
       onstack u ! s = (s \<in> set (sstack \<sigma>)) \<and> dfnumber u ! s < scc_nstates u"
    "\<And>s. scc u \<noteq> None \<Longrightarrow> s \<in> closed \<sigma> \<Longrightarrow> comp_of \<sigma> s = the (scc u) ! s"
    "\<And>s. s < n \<Longrightarrow> s \<notin> disc \<sigma> \<Longrightarrow> \<not> coaccess u ! s" "dfs v" "scc_fst u = f" "scc_start u = start f"
  shows "scc_rel f v \<sigma>"
  using assms unfolding scc_rel_def Let_def scc_lens_def by blast

lemma scc_relD:
  assumes "scc_rel f v \<sigma>" and u: "u = visitor_state v" and n: "n = length (dfnumber u)"
  shows "greys \<sigma> = map fst (state_stack v)" "disc \<sigma> = discovered v" "procd \<sigma> = examined f v"
    "sstack \<sigma> = scc_stack u" "ncomp \<sigma> = nscc u" "scc_lens u n" "n \<le> NumStates f" "disc \<sigma> \<subseteq> {..<n}"
    "s \<in> disc \<sigma> \<Longrightarrow> num \<sigma> s = dfnumber u ! s \<and> low \<sigma> s = lowlink u ! s \<and> coacc \<sigma> s = coaccess u ! s \<and>
       onstack u ! s = (s \<in> set (sstack \<sigma>)) \<and> dfnumber u ! s < scc_nstates u"
    "scc u \<noteq> None \<Longrightarrow> s \<in> closed \<sigma> \<Longrightarrow> comp_of \<sigma> s = the (scc u) ! s"
    "s < n \<Longrightarrow> s \<notin> disc \<sigma> \<Longrightarrow> \<not> coaccess u ! s" "dfs v" "scc_fst u = f" "scc_start u = start f"
  using assms(1) unfolding scc_rel_def Let_def u n by blast+

lemma discovered_push:
  "t < length (state_color v) \<Longrightarrow> state_color w = (state_color v)[t := kGrey] \<Longrightarrow> discovered w = insert t (discovered v)"
  by (auto simp: discovered_def nth_list_update)

lemma sim_push:
  assumes ok: "dfs_ok f P v" and rel: "scc_rel f v \<sigma>" and t: "t < NumStates f" "state_color v ! t = kWhite"
    and st: "set (sstack \<sigma>) \<subseteq> disc \<sigma>"
    and w: "state_color w = (state_color v)[t := kGrey]" "state_stack w = (t, 0) # state_stack v"
      "visitor_state w = fst (scc_InitState t root (visitor_state v))" "dfs w"
  shows "scc_rel f w (t_push t (scc_nstates (visitor_state v)) \<sigma>)"
proof -
  define u where "u = visitor_state v"
  define u' where "u' = visitor_state w"
  define n where "n = length (dfnumber u)"
  note R = scc_relD [OF rel u_def n_def]
  have tl: "t < length (state_color v)" using ok t by (simp add: dfs_ok_def)
  have td: "t \<notin> disc \<sigma>" using t by (simp add: R(2) discovered_def)
  have eq: "u' = fst (scc_InitState t root u)" using w(3) by (simp add: u_def u'_def)
  note O = InitState_obs [OF R(6) eq]
  have dw: "discovered w = insert t (disc \<sigma>)" using discovered_push [OF tl w(1)] R(2) by simp
  have clo: "insert t (disc \<sigma>) - set (t # sstack \<sigma>) = closed \<sigma>" using td by auto
  show ?thesis
  proof (rule scc_relI [OF u'_def, where n = "max n (t + 1)"], unfold push_sel clo)
    show "t # greys \<sigma> = map fst (state_stack w)" using R(1) w(2) by simp
    show "insert t (disc \<sigma>) = discovered w" using dw by simp
    show "procd \<sigma> = examined f w" using R(3) examined_push [OF ok t(2,1) w(1,2)] by simp
    show "t # sstack \<sigma> = scc_stack u'" using R(4) O(9) by simp
    show "ncomp \<sigma> = nscc u'" using R(5) O(11) by simp
    show "scc_lens u' (max n (t + 1))" using O(1) .
    show "max n (t + 1) \<le> NumStates f" using R(7) t(1) by simp
    show "insert t (disc \<sigma>) \<subseteq> {..<max n (t + 1)}" using R(8) by auto
    show "dfs w" "scc_fst u' = f" "scc_start u' = start f" using w(4) O(12,13) R(13,14) by simp_all
    show "\<not> coaccess u' ! s" if "s < max n (t + 1)" "s \<notin> insert t (disc \<sigma>)" for s
      using that O(7) [of s] O(8) [of s] R(11) [of s] by (cases "s < n") auto
    show "comp_of \<sigma> s = the (scc u') ! s" if "scc u' \<noteq> None" "s \<in> closed \<sigma>" for s
    proof -
      have "s < n" "s \<noteq> t" using that(2) R(8) td by auto
      then show ?thesis using O(7) [of s] O(15) R(10) [of s] that by simp
    qed
    show "((num \<sigma>)(t := scc_nstates (visitor_state v))) s = dfnumber u' ! s \<and> ((low \<sigma>)(t := scc_nstates (visitor_state v))) s = lowlink u' ! s \<and>
      ((coacc \<sigma>)(t := False)) s = coaccess u' ! s \<and> onstack u' ! s = (s \<in> set (t # sstack \<sigma>)) \<and> dfnumber u' ! s < scc_nstates u'"
      if s: "s \<in> insert t (disc \<sigma>)" for s
    proof (cases "s = t")
      case True
      have "\<not> coaccess u' ! t" using O(6) R(11) td by blast
      then show ?thesis using True O(3-5,10) by (simp add: u_def)
    next
      case False
      then have sd: "s \<in> disc \<sigma>" "s < n" using s R(8) by auto
      then show ?thesis using O(7) [OF sd(2) False] R(9) [OF sd(1)] False O(10) by simp
    qed
  qed
qed

lemma sim_arc:
  assumes ok: "dfs_ok f P v" and rel: "scc_rel f v \<sigma>" and stk: "state_stack v = (s, i) # rest" and i: "i < NumArcs f s"
    and t: "t = nextstate (Arcs f s ! i)" "t \<in> disc \<sigma>"
    and w: "state_color w = state_color v" "state_stack w = (s, i + 1) # rest" "dfs w"
      "visitor_state w = (visitor_state v)\<lparr>lowlink := (lowlink (visitor_state v))[s := l],
         coaccess := (coaccess (visitor_state v))[s := coaccess (visitor_state v) ! s \<or> coaccess (visitor_state v) ! t], scc_props := q\<rparr>"
  shows "scc_rel f w (t_arc s t l \<sigma>)"
proof -
  define u where "u = visitor_state v"
  define n where "n = length (dfnumber u)"
  note R = scc_relD [OF rel u_def n_def]
  have sd: "s \<in> disc \<sigma>" using dfs_ok_top [OF ok stk] by (simp add: R(2) discovered_def)
  have sn: "s < n" using sd R(8) by auto
  define u' where "u' = visitor_state w"
  have W: "dfnumber u' = dfnumber u" "lowlink u' = (lowlink u)[s := l]" "onstack u' = onstack u"
    "coaccess u' = (coaccess u)[s := coaccess u ! s \<or> coaccess u ! t]" "scc_nstates u' = scc_nstates u" "scc u' = scc u"
    "access u' = access u" "scc_stack u' = scc_stack u" "nscc u' = nscc u" "scc_fst u' = scc_fst u" "scc_start u' = scc_start u"
    by (simp_all add: u'_def w(4) u_def)
  have len: "length (lowlink u) = n" "length (coaccess u) = n" using R(6) by (simp_all add: scc_lens_def)
  show ?thesis
  proof (rule scc_relI [OF u'_def, where n = n], unfold arc_sel W)
    show "greys \<sigma> = map fst (state_stack w)" using R(1) w(2) stk by simp
    show "disc \<sigma> = discovered w" using R(2) w(1) by (simp add: discovered_def)
    show "insert (s, t) (procd \<sigma>) = examined f w" using R(3) examined_next [OF ok stk i w(1,2)] t by simp
    show "num \<sigma> x = dfnumber u ! x \<and> ((low \<sigma>)(s := l)) x = (lowlink u)[s := l] ! x \<and>
      ((coacc \<sigma>)(s := coacc \<sigma> s \<or> coacc \<sigma> t)) x = (coaccess u)[s := coaccess u ! s \<or> coaccess u ! t] ! x \<and>
      onstack u ! x = (x \<in> set (sstack \<sigma>)) \<and> dfnumber u ! x < scc_nstates u" if "x \<in> disc \<sigma>" for x
      using R(9) [OF that] R(9) [OF sd] R(9) [OF t(2)] len sn by (cases "x = s") auto
    show "\<not> (coaccess u)[s := coaccess u ! s \<or> coaccess u ! t] ! x" if "x < n" "x \<notin> disc \<sigma>" for x
      using R(11) [OF that] that sd by (cases "x = s") auto
    show "scc_lens u' n" using R(6) by (simp add: scc_lens_def W)
  qed (use R w in simp_all)
qed

text \<open>The three parts of \<open>FinishState\<close>.\<close>

definition finish_mark :: "('w, 'z) weight_ops_scheme \<Rightarrow> nat \<Rightarrow> 'w scc_vars \<Rightarrow> 'w scc_vars" where
  "finish_mark W s u = (if \<not> Weq W (Final (scc_fst u) s) (Zero W) then u\<lparr>coaccess := (coaccess u)[s := True]\<rparr> else u)"

definition finish_pop :: "nat \<Rightarrow> 'w scc_vars \<Rightarrow> 'w scc_vars" where
  "finish_pop s u =
     (if dfnumber u ! s = lowlink u ! s
      then (let b = scc_coaccess s (coaccess u) (scc_stack u) False;
                u = scc_pop s b (scc_stack u) u;
                u = (if \<not> b then u\<lparr>scc_props := (scc_props u OR kNotCoAccessible) AND NOT kCoAccessible\<rparr> else u)
            in u\<lparr>nscc := nscc u + 1\<rparr>)
      else u)"

definition finish_parent :: "nat \<Rightarrow> nat option \<Rightarrow> 'w scc_vars \<Rightarrow> 'w scc_vars" where
  "finish_parent s p u =
     (case p of
        None \<Rightarrow> u
      | Some p \<Rightarrow>
          (let u = (if coaccess u ! s then u\<lparr>coaccess := (coaccess u)[p := True]\<rparr> else u)
           in if lowlink u ! s < lowlink u ! p then u\<lparr>lowlink := (lowlink u)[p := lowlink u ! s]\<rparr> else u))"

lemma FinishState_split: "scc_FinishState W s p arcp u = finish_parent s p (finish_pop s (finish_mark W s u))"
  unfolding scc_FinishState_def finish_mark_def finish_pop_def finish_parent_def by (simp add: Let_def)

lemma sim_mark:
  assumes rel: "scc_rel f v \<sigma>" and s: "s \<in> disc \<sigma>" "s < NumStates f" and fin: "fin = {s. final_state W f s}"
  shows "scc_rel f (v\<lparr>visitor_state := finish_mark W s (visitor_state v)\<rparr>) (t_mark fin s \<sigma>)"
proof -
  define u where "u = visitor_state v"
  define u' where "u' = finish_mark W s u"
  define n where "n = length (dfnumber u)"
  note R = scc_relD [OF rel u_def n_def]
  have sn: "s < n" using s R(8) by auto
  have fs: "s \<in> fin \<longleftrightarrow> \<not> Weq W (Final (scc_fst u) s) (Zero W)" using s by (simp add: fin final_state_def R(13))
  have len: "length (coaccess u) = n" using R(6) by (simp add: scc_lens_def)
  have W: "dfnumber u' = dfnumber u" "lowlink u' = lowlink u" "onstack u' = onstack u" "scc_nstates u' = scc_nstates u" "scc u' = scc u"
    "access u' = access u" "scc_stack u' = scc_stack u" "nscc u' = nscc u" "scc_fst u' = scc_fst u" "scc_start u' = scc_start u"
    "coaccess u' = (coaccess u)[s := coaccess u ! s \<or> s \<in> fin]"
    using fs by (simp_all add: u'_def finish_mark_def)
  show ?thesis
  proof (rule scc_relI [where u = u' and n = n], unfold mark_sel W)
    show "num \<sigma> x = dfnumber u ! x \<and> low \<sigma> x = lowlink u ! x \<and>
      ((coacc \<sigma>)(s := coacc \<sigma> s \<or> s \<in> fin)) x = (coaccess u)[s := coaccess u ! s \<or> s \<in> fin] ! x \<and>
      onstack u ! x = (x \<in> set (sstack \<sigma>)) \<and> dfnumber u ! x < scc_nstates u" if "x \<in> disc \<sigma>" for x
      using R(9) [OF that] R(9) [OF s(1)] len sn by (cases "x = s") auto
    show "\<not> (coaccess u)[s := coaccess u ! s \<or> s \<in> fin] ! x" if "x < n" "x \<notin> disc \<sigma>" for x
      using R(11) [OF that] that s by (cases "x = s") auto
    show "scc_lens u' n" using R(6) by (simp add: scc_lens_def W)
    show "disc \<sigma> = discovered (v\<lparr>visitor_state := finish_mark W s (visitor_state v)\<rparr>)" using R(2) by (simp add: discovered_def)
    show "procd \<sigma> = examined f (v\<lparr>visitor_state := finish_mark W s (visitor_state v)\<rparr>)" using R(3) by (simp add: examined_def)
  qed (use R in \<open>simp_all add: u'_def u_def\<close>)
qed

lemma pop_sel [simp]:
  "greys (t_pop s \<sigma>) = greys \<sigma>" "disc (t_pop s \<sigma>) = disc \<sigma>" "procd (t_pop s \<sigma>) = procd \<sigma>" "num (t_pop s \<sigma>) = num \<sigma>" "low (t_pop s \<sigma>) = low \<sigma>"
  by (simp_all add: t_pop_def)

lemma sim_pop:
  assumes rel: "scc_rel f v \<sigma>" and s: "s \<in> set (sstack \<sigma>)" and sub: "set (sstack \<sigma>) \<subseteq> disc \<sigma>" and di: "distinct (sstack \<sigma>)"
  shows "scc_rel f (v\<lparr>visitor_state := finish_pop s (visitor_state v)\<rparr>) (t_pop s \<sigma>)"
proof -
  define u where "u = visitor_state v"
  define n where "n = length (dfnumber u)"
  note R = scc_relD [OF rel u_def n_def]
  have sd: "s \<in> disc \<sigma>" using s sub by auto
  show ?thesis
  proof (cases "low \<sigma> s = num \<sigma> s")
    case False
    then have "t_pop s \<sigma> = \<sigma>" "finish_pop s u = u" using R(9) [OF sd] by (auto simp: t_pop_def finish_pop_def)
    then show ?thesis using rel by (simp add: u_def)
  next
    case True
    let ?S = "seg s (sstack \<sigma>)"
    define b where "b = scc_coaccess s (coaccess u) (scc_stack u) False"
    define w where "w = scc_pop s b (scc_stack u) u"
    define u' where "u' = finish_pop s u"
    have "set (scc_stack u) \<subseteq> {..<n}" using sub R(4,8) by auto
    from scc_pop_obs [OF _ R(6) this, of s b]
    have pw: "popped s b (sstack \<sigma>) n u w" using s R(4) by (simp add: w_def)
    have eq: "u' = (if b then w else w\<lparr>scc_props := (scc_props w OR kNotCoAccessible) AND NOT kCoAccessible\<rparr>)\<lparr>nscc := nscc w + 1\<rparr>"
      using True R(9) [OF sd] by (simp add: u'_def finish_pop_def b_def w_def Let_def)
    have P: "scc_lens u' n" "dfnumber u' = dfnumber u" "lowlink u' = lowlink u" "scc_nstates u' = scc_nstates u" "nscc u' = nscc u + 1"
      "scc_fst u' = scc_fst u" "scc_start u' = scc_start u" "scc_stack u' = tl (dropWhile (\<lambda>t. t \<noteq> s) (sstack \<sigma>))"
      "\<And>x. x < n \<Longrightarrow> coaccess u' ! x = (coaccess u ! x \<or> b \<and> x \<in> ?S)" "\<And>x. x < n \<Longrightarrow> onstack u' ! x = (onstack u ! x \<and> x \<notin> ?S)"
      "(scc u' = None) = (scc u = None)"
      "\<And>x. scc u \<noteq> None \<Longrightarrow> x < n \<Longrightarrow> the (scc u') ! x = (if x \<in> ?S then nscc u else the (scc u) ! x)"
      using pw unfolding eq popped_def by (auto simp: scc_lens_def)
    have Sd: "?S \<subseteq> set (sstack \<sigma>)" using s by (auto dest: set_takeWhileD)
    have bi: "b \<longleftrightarrow> (\<exists>x \<in> ?S. coacc \<sigma> x)"
    proof -
      have "b \<longleftrightarrow> (\<exists>x \<in> ?S. coaccess u ! x)" unfolding b_def R(4) [symmetric] using scc_coaccess_iff [OF s] by simp
      moreover have "coaccess u ! x = coacc \<sigma> x" if "x \<in> ?S" for x using R(9) [of x] that Sd sub by blast
      ultimately show ?thesis by blast
    qed
    have tseg: "t_seg s \<sigma> = ?S" by (simp add: t_seg_def)
    have T: "sstack (t_pop s \<sigma>) = tl (dropWhile (\<lambda>t. t \<noteq> s) (sstack \<sigma>))" "ncomp (t_pop s \<sigma>) = ncomp \<sigma> + 1"
      "coacc (t_pop s \<sigma>) x = (coacc \<sigma> x \<or> b \<and> x \<in> ?S)" "comp_of (t_pop s \<sigma>) x = (if x \<in> ?S then ncomp \<sigma> else comp_of \<sigma> x)" for x
      using True bi by (auto simp: t_pop_def tseg)
    note rest = below_seg [OF s di]
    show ?thesis
    proof (rule scc_relI [where u = u' and n = n], unfold pop_sel T(1,2))
      show "num \<sigma> x = dfnumber u' ! x \<and> low \<sigma> x = lowlink u' ! x \<and> coacc (t_pop s \<sigma>) x = coaccess u' ! x \<and>
        onstack u' ! x = (x \<in> set (tl (dropWhile (\<lambda>t. t \<noteq> s) (sstack \<sigma>)))) \<and> dfnumber u' ! x < scc_nstates u'" if x: "x \<in> disc \<sigma>" for x
      proof -
        have "x < n" using x R(8) by auto
        then show ?thesis using R(9) [OF x] P(9,10) by (simp add: P(2-4) T(3) rest)
      qed
      show "comp_of (t_pop s \<sigma>) x = the (scc u') ! x" if "scc u' \<noteq> None" "x \<in> disc \<sigma> - set (tl (dropWhile (\<lambda>t. t \<noteq> s) (sstack \<sigma>)))" for x
      proof -
        have "x < n" "scc u \<noteq> None" "x \<in> ?S \<or> x \<in> closed \<sigma>" using that R(8) P(11) unfolding rest by auto
        then show ?thesis using P(12) [of x] R(10) [of x] R(5) by (auto simp: T(4))
      qed
      show "\<not> coaccess u' ! x" if "x < n" "x \<notin> disc \<sigma>" for x
        using R(11) [OF that] that P(9) [of x] Sd sub by auto
      show "disc \<sigma> = discovered (v\<lparr>visitor_state := finish_pop s (visitor_state v)\<rparr>)" using R(2) by (simp add: discovered_def)
      show "procd \<sigma> = examined f (v\<lparr>visitor_state := finish_pop s (visitor_state v)\<rparr>)" using R(3) by (simp add: examined_def)
    qed (use R P in \<open>simp_all add: u'_def u_def\<close>)
  qed
qed

lemma SccVisitor_sel [simp]:
  "InitVisit (SccVisitor W) = scc_InitVisit" "InitState (SccVisitor W) = scc_InitState" "TreeArc (SccVisitor W) = scc_TreeArc"
  "BackArc (SccVisitor W) = scc_BackArc" "ForwardOrCrossArc (SccVisitor W) = scc_ForwardOrCrossArc"
  "FinishState (SccVisitor W) = scc_FinishState W" "FinishVisit (SccVisitor W) = scc_FinishVisit"
  by (simp_all add: SccVisitor_def)

lemma scc_leave_state:
  "visitor_state (dfs_leave f (SccVisitor W) s rest v) =
     finish_parent s (case rest of [] \<Rightarrow> None | (p, j) # _ \<Rightarrow> Some p) (finish_pop s (finish_mark W s (visitor_state v)))"
  by (cases rest) (auto simp: dfs_leave_def Let_def FinishState_split)

lemma discovered_leave:
  assumes "dfs_ok f P v" "state_stack v = (s, i) # rest"
  shows "discovered (dfs_leave f V s rest v) = discovered v"
  using dfs_ok_top [OF assms] by (auto simp: discovered_def nth_list_update split: if_splits)

lemma sim_parent:
  assumes ok: "dfs_ok f P v" and stk: "state_stack v = (s, i) # rest" and i: "NumArcs f s \<le> i"
    and rel: "scc_rel f (v\<lparr>visitor_state := u\<rparr>) \<sigma>"
    and w: "state_color w = state_color (dfs_leave f V s rest v)" "state_stack w = state_stack (dfs_leave f V s rest v)" "dfs w"
      "visitor_state w = finish_parent s (case rest of [] \<Rightarrow> None | (p, j) # _ \<Rightarrow> Some p) u"
  shows "scc_rel f w (t_parent s (map fst rest) \<sigma>)"
proof -
  define n where "n = length (dfnumber u)"
  define u' where "u' = visitor_state w"
  have n': "n = length (dfnumber (visitor_state (v\<lparr>visitor_state := u\<rparr>)))" by (simp add: n_def)
  note R0 = scc_relD [OF rel refl n']
  note R = R0 [simplified]
  have dis: "disc \<sigma> = discovered w"
    using R(2) discovered_leave [OF ok stk, of V] w(1) by (simp add: discovered_def)
  have ev: "examined f (v\<lparr>visitor_state := u\<rparr>) = examined f v" by (simp add: examined_def)
  have ex: "examined f w = (case rest of [] \<Rightarrow> procd \<sigma> | (p, j) # _ \<Rightarrow> insert (p, s) (procd \<sigma>))"
    unfolding R(3) ev examined_cong [OF w(1,2), of f] examined_leave [OF ok stk i, of V] ..
  have gr: "map fst rest = map fst (state_stack w)" using w(2) by simp
  have sd: "s \<in> disc \<sigma>" using dfs_ok_top [OF ok stk] R(2) by (simp add: discovered_def)
  show ?thesis
  proof (cases rest)
    case Nil
    have e: "t_parent s (map fst rest) \<sigma> = \<sigma>\<lparr>greys := []\<rparr>" "u' = u" using Nil w(4) by (simp_all add: t_parent_def u'_def finish_parent_def)
    show ?thesis unfolding e(1)
      by (rule scc_relI [OF u'_def, where n = n]) (use R ex dis w(3) gr Nil in \<open>auto simp: e(2)\<close>)
  next
    case (Cons q below)
    obtain p j where q: "q = (p, j)" by (cases q)
    have sk: "stack_ok f P ((s, i) # (p, j) # below)" using ok stk unfolding dfs_ok_def Cons q by metis
    have "p < NumStates f" using stack_ok_parent [OF sk] by blast
    moreover have "p \<in> fst ` set (state_stack v)" by (simp add: stk Cons q)
    ultimately have "p < length (state_color v)" "state_color v ! p = kGrey" using ok unfolding dfs_ok_def by auto
    then have pd: "p \<in> disc \<sigma>" using R(2) by (simp add: discovered_def)
    then have pn: "p < n" using R(8) by auto
    have len: "length (coaccess u) = n" "length (lowlink u) = n" using R(6) by (simp_all add: scc_lens_def)
    have W: "dfnumber u' = dfnumber u" "onstack u' = onstack u" "scc_nstates u' = scc_nstates u" "scc u' = scc u"
      "access u' = access u" "scc_stack u' = scc_stack u" "nscc u' = nscc u" "scc_fst u' = scc_fst u" "scc_start u' = scc_start u"
      "coaccess u' = (coaccess u)[p := coaccess u ! p \<or> coaccess u ! s]" "lowlink u' = (lowlink u)[p := min (lowlink u ! p) (lowlink u ! s)]"
      using w(4) by (auto simp: u'_def Cons q finish_parent_def Let_def min_def)
    note sel = parent_sel parent_Cons [of s p "map fst below" \<sigma>]
    have mr: "map fst rest = p # map fst below" by (simp add: Cons q)
    show ?thesis unfolding mr
    proof (rule scc_relI [OF u'_def, where n = n], unfold sel W)
      show "p # map fst below = map fst (state_stack w)" using gr mr by simp
      show "insert (p, s) (procd \<sigma>) = examined f w" using ex by (simp add: Cons q)
      show "num \<sigma> x = dfnumber u ! x \<and> ((low \<sigma>)(p := min (low \<sigma> p) (low \<sigma> s))) x = (lowlink u)[p := min (lowlink u ! p) (lowlink u ! s)] ! x \<and>
        ((coacc \<sigma>)(p := coacc \<sigma> p \<or> coacc \<sigma> s)) x = (coaccess u)[p := coaccess u ! p \<or> coaccess u ! s] ! x \<and>
        onstack u ! x = (x \<in> set (sstack \<sigma>)) \<and> dfnumber u ! x < scc_nstates u" if "x \<in> disc \<sigma>" for x
        using R(9) [OF that] R(9) [OF sd] R(9) [OF pd] len pn by (cases "x = p") auto
      show "\<not> (coaccess u)[p := coaccess u ! p \<or> coaccess u ! s] ! x" if "x < n" "x \<notin> disc \<sigma>" for x
        using R(11) [OF that] that pd by (cases "x = p") auto
      show "scc_lens u' n" using R(6) by (simp add: scc_lens_def W)
    qed (use R dis w(3) in simp_all)
  qed
qed

section \<open>The invariant of the visit\<close>

definition finals :: "('w, 'z) weight_ops_scheme \<Rightarrow> 'w vfst \<Rightarrow> nat set" where
  "finals W f = {s. final_state W f s}"

definition scc_inv :: "('w, 'z) weight_ops_scheme \<Rightarrow> 'w vfst \<Rightarrow> 'w scc_vars dfs_vars \<Rightarrow> bool" where
  "scc_inv W f v \<longleftrightarrow> (\<exists>\<sigma>. tarjan_inv (edges f) (finals W f) \<sigma> \<and> scc_rel f v \<sigma>)"

lemma tarjan_distinct:
  assumes "tarjan_inv E F \<sigma>"
  shows "distinct (sstack \<sigma>)"
proof -
  have "sorted_wrt (\<lambda>x y. num \<sigma> x > num \<sigma> y) (sstack \<sigma>)" using assms by (simp add: tarjan_inv_def t_shape_def)
  then show ?thesis
    by (auto simp: distinct_conv_nth sorted_wrt_iff_nth_less) (metis less_irrefl linorder_neqE_nat)
qed

lemma scc_inv_push:
  assumes ok: "dfs_ok f P v" and inv: "scc_inv W f v" and t: "t < NumStates f" "state_color v ! t = kWhite"
    and e: "\<And>s rest. map fst (state_stack v) = s # rest \<Longrightarrow> (s, t) \<in> edges f"
    and w: "state_color w = (state_color v)[t := kGrey]" "state_stack w = (t, 0) # state_stack v"
      "visitor_state w = fst (scc_InitState t root (visitor_state v))" "dfs w"
  shows "scc_inv W f w"
proof -
  obtain \<sigma> where \<sigma>: "tarjan_inv (edges f) (finals W f) \<sigma>" "scc_rel f v \<sigma>" using inv by (auto simp: scc_inv_def)
  note R = scc_relD [OF \<sigma>(2) refl refl]
  have "tarjan_step (edges f) (finals W f) \<sigma> (t_push t (scc_nstates (visitor_state v)) \<sigma>)"
  proof (rule tarjan_step.push)
    show "t \<notin> disc \<sigma>" using t by (simp add: R(2) discovered_def)
    show "(s, t) \<in> edges f" if "greys \<sigma> = s # rest" for s rest using e that R(1) by simp
    show "num \<sigma> s < scc_nstates (visitor_state v)" if "s \<in> disc \<sigma>" for s using R(9) [OF that] by simp
  qed
  moreover have "set (sstack \<sigma>) \<subseteq> disc \<sigma>" using \<sigma>(1) by (simp add: tarjan_inv_def t_shape_def)
  ultimately show ?thesis
    using tarjan_step_inv \<sigma>(1) sim_push [OF ok \<sigma>(2) t _ w] unfolding scc_inv_def by blast
qed

lemma scc_inv_arc:
  assumes ok: "dfs_ok f P v" and inv: "scc_inv W f v" and stk: "state_stack v = (s, i) # rest" and i: "i < NumArcs f s"
    and t: "t = nextstate (Arcs f s ! i)" "state_color v ! t \<noteq> kWhite" and u: "u = visitor_state v"
    and l: "l \<le> lowlink u ! s" "l = lowlink u ! s \<or> onstack u ! t \<and> l = dfnumber u ! t" "onstack u ! t \<Longrightarrow> l \<le> dfnumber u ! t"
    and w: "state_color w = state_color v" "state_stack w = (s, i + 1) # rest" "dfs w"
      "visitor_state w = u\<lparr>lowlink := (lowlink u)[s := l], coaccess := (coaccess u)[s := coaccess u ! s \<or> coaccess u ! t], scc_props := q\<rparr>"
  shows "scc_inv W f w"
proof -
  obtain \<sigma> where \<sigma>: "tarjan_inv (edges f) (finals W f) \<sigma>" "scc_rel f v \<sigma>" using inv by (auto simp: scc_inv_def)
  note R = scc_relD [OF \<sigma>(2) u refl]
  have td: "t \<in> disc \<sigma>" using dfs_ok_arc(2) [OF ok stk i] t by (simp add: R(2) discovered_def)
  have sd: "s \<in> disc \<sigma>" using dfs_ok_top [OF ok stk] by (simp add: R(2) discovered_def)
  have "tarjan_step (edges f) (finals W f) \<sigma> (t_arc s t l \<sigma>)"
  proof (rule tarjan_step.arc)
    show "greys \<sigma> = s # map fst rest" using R(1) stk by simp
    show "(s, t) \<in> edges f" using dfs_ok_top [OF ok stk] i t(1) by (auto simp: NumArcs_def Arcs_def trans_iff intro!: edgesI)
  qed (use td l R(9) [OF sd] R(9) [OF td] in auto)
  then show ?thesis
    using tarjan_step_inv \<sigma>(1) sim_arc [OF ok \<sigma>(2) stk i t(1) td w(1-3) w(4) [unfolded u]] unfolding scc_inv_def by blast
qed

lemma scc_inv_leave:
  assumes ok: "dfs_ok f P v" and inv: "scc_inv W f v" and stk: "state_stack v = (s, i) # rest" and i: "NumArcs f s \<le> i"
  shows "scc_inv W f (dfs_leave f (SccVisitor W) s rest v)"
proof -
  obtain \<sigma> where \<sigma>: "tarjan_inv (edges f) (finals W f) \<sigma>" "scc_rel f v \<sigma>" using inv by (auto simp: scc_inv_def)
  note R = scc_relD [OF \<sigma>(2) refl refl]
  note top = dfs_ok_top [OF ok stk]
  have sd: "s \<in> disc \<sigma>" using top by (simp add: R(2) discovered_def)
  have g: "greys \<sigma> = s # map fst rest" using R(1) stk by simp
  have sh: "set (greys \<sigma>) \<subseteq> set (sstack \<sigma>)" "set (sstack \<sigma>) \<subseteq> disc \<sigma>" "sorted_wrt (\<lambda>x y. num \<sigma> x > num \<sigma> y) (sstack \<sigma>)"
    using \<sigma>(1) by (simp_all add: tarjan_inv_def t_shape_def)
  have di: "distinct (sstack \<sigma>)" by (rule tarjan_distinct [OF \<sigma>(1)])
  let ?\<mu> = "t_mark (finals W f) s \<sigma>" let ?u = "finish_pop s (finish_mark W s (visitor_state v))"
  have "tarjan_step (edges f) (finals W f) \<sigma> (t_parent s (map fst rest) (t_pop s ?\<mu>))"
    by (rule tarjan_step.leave [OF g]) (use examined_all [OF ok stk i] R(3) in simp)
  moreover have "scc_rel f (v\<lparr>visitor_state := ?u\<rparr>) (t_pop s ?\<mu>)"
    using sim_pop [OF sim_mark [OF \<sigma>(2) sd _ finals_def], of s W] top sh di g by simp
  then have "scc_rel f (dfs_leave f (SccVisitor W) s rest v) (t_parent s (map fst rest) (t_pop s ?\<mu>))"
    by (rule sim_parent [OF ok stk i]) (simp_all add: scc_leave_state R(12))
  ultimately show ?thesis using tarjan_step_inv \<sigma>(1) unfolding scc_inv_def by blast
qed

section \<open>Accessible states\<close>

lemma access_scc_pop [simp]: "access (scc_pop s b st u) = access u"
  by (induction st arbitrary: u) (simp_all add: Let_def)

lemma access_finish [simp]:
  "access (finish_mark W s u) = access u" "access (finish_pop s u) = access u" "access (finish_parent s p u) = access u"
  by (simp_all add: finish_mark_def finish_pop_def finish_parent_def Let_def split: option.splits)

definition reachable :: "'w vfst \<Rightarrow> nat \<Rightarrow> bool" where
  "reachable f s \<longleftrightarrow> (\<exists>st. start f = Some st \<and> (st, s) \<in> (edges f)\<^sup>*)"

definition acc_inv :: "'w vfst \<Rightarrow> nat \<Rightarrow> 'w scc_vars dfs_vars \<Rightarrow> bool" where
  "acc_inv f root v \<longleftrightarrow>
     (\<forall>s \<in> discovered v. access (visitor_state v) \<noteq> None \<longrightarrow> the (access (visitor_state v)) ! s = reachable f s) \<and>
     (\<forall>s \<in> fst ` set (state_stack v). (root, s) \<in> (edges f)\<^sup>*) \<and>
     (start f \<noteq> Some root \<longrightarrow> (\<forall>s. reachable f s \<longrightarrow> s \<in> discovered v))"

lemma acc_inv_cong:
  assumes "acc_inv f root v" "discovered w = discovered v" "fst ` set (state_stack w) \<subseteq> fst ` set (state_stack v)"
    "access (visitor_state w) = access (visitor_state v)"
  shows "acc_inv f root w"
  using assms(1,3) unfolding acc_inv_def assms(2,4) by blast

lemma acc_inv_push:
  assumes ok: "dfs_ok f P v" and rel: "scc_rel f v \<sigma>" and t: "t < NumStates f" "state_color v ! t = kWhite"
    and old: "\<And>s. s \<in> discovered v \<Longrightarrow> access (visitor_state v) \<noteq> None \<Longrightarrow> the (access (visitor_state v)) ! s = reachable f s"
    and grey: "\<And>s. s \<in> fst ` set (state_stack v) \<Longrightarrow> (root, s) \<in> (edges f)\<^sup>*" and rt: "(root, t) \<in> (edges f)\<^sup>*"
    and other: "start f \<noteq> Some root \<Longrightarrow> (\<And>s. reachable f s \<Longrightarrow> s \<in> discovered v)"
    and w: "state_color w = (state_color v)[t := kGrey]" "state_stack w = (t, 0) # state_stack v"
      "visitor_state w = fst (scc_InitState t root (visitor_state v))"
  shows "acc_inv f root w"
proof -
  note R = scc_relD [OF rel refl refl]
  note O = InitState_obs [OF R(6) w(3)]
  have tl: "t < length (state_color v)" using ok t by (simp add: dfs_ok_def)
  have dw: "discovered w = insert t (discovered v)" by (rule discovered_push [OF tl w(1)])
  have td: "t \<notin> discovered v" using t by (simp add: discovered_def)
  have new: "the (access (visitor_state w)) ! t = reachable f t" if "access (visitor_state w) \<noteq> None"
  proof (cases "start f = Some root")
    case True
    then have "reachable f t" using rt by (auto simp: reachable_def)
    then show ?thesis using O(14,16) R(14) that True by simp
  next
    case False
    then have "\<not> reachable f t" using other td by blast
    then show ?thesis using O(14,16) R(14) that False by auto
  qed
  have "the (access (visitor_state w)) ! s = reachable f s" if "s \<in> discovered v" "access (visitor_state w) \<noteq> None" for s
  proof -
    have "s < length (dfnumber (visitor_state v))" "s \<noteq> t" using that(1) td R(2,8) by auto
    then show ?thesis using O(7) [of s] O(14) old [OF that(1)] that(2) by simp
  qed
  then show ?thesis unfolding acc_inv_def dw using new grey rt other w(2) by auto
qed

lemma disc_closed:
  assumes "scc_inv W f v" "state_stack v = []" "s \<in> discovered v" "(s, t) \<in> (edges f)\<^sup>*"
  shows "t \<in> discovered v"
proof -
  obtain \<sigma> where \<sigma>: "tarjan_inv (edges f) (finals W f) \<sigma>" "scc_rel f v \<sigma>" using assms(1) by (auto simp: scc_inv_def)
  note R = scc_relD [OF \<sigma>(2) refl refl]
  have "procd \<sigma> \<subseteq> discovered v \<times> discovered v" "\<forall>y \<in> discovered v. edges f `` {y} \<subseteq> procd \<sigma> `` {y}"
    using \<sigma>(1) assms(2) R(1,2) by (simp_all add: tarjan_inv_def t_shape_def)
  then have "edges f `` {y} \<subseteq> discovered v" if "y \<in> discovered v" for y using that by blast
  then have step: "u \<in> discovered v" if "y \<in> discovered v" "(y, u) \<in> edges f" for y u using that by blast
  show ?thesis using assms(4,3) by (induction rule: rtrancl_induct) (auto intro: step)
qed

text \<open>Which of the two vectors the visitor does not fill.\<close>

definition wants :: "'w scc_vars \<Rightarrow> bool \<times> bool" where
  "wants u = (scc u = None, access u = None)"

lemma scc_scc_pop: "(scc (scc_pop s b st u) = None) = (scc u = None)"
  by (induction st arbitrary: u) (simp_all add: Let_def)

lemma wants_finish [simp]:
  "wants (finish_mark W s u) = wants u" "wants (finish_pop s u) = wants u" "wants (finish_parent s p u) = wants u"
  by (simp_all add: wants_def finish_mark_def finish_pop_def finish_parent_def Let_def scc_scc_pop split: option.splits)

lemma wants_InitState [simp]: "wants (fst (scc_InitState s root u)) = wants u"
  by (simp add: wants_def scc_InitState_def Let_def)

interpretation scc: dfs_invariant f "SccVisitor W" AnyArcFilter
  "\<lambda>root v. (scc_inv W f v \<and> acc_inv f root v) \<and> wants (visitor_state v) = b"
  for f :: "'w vfst" and W :: "('w, 'z) weight_ops_scheme" and b
proof (unfold_locales, goal_cases)
  case (1 v r root)
  let ?w = "dfs_root f (SccVisitor W) root v"
  obtain \<sigma> where \<sigma>: "scc_rel f v \<sigma>" using 1(2) by (auto simp: scc_inv_def)
  have w: "state_color ?w = (state_color v)[root := kGrey]" "state_stack ?w = (root, 0) # state_stack v"
    "visitor_state ?w = fst (scc_InitState root root (visitor_state v))" "dfs ?w"
    using 1(3) InitState_obs(2) [OF scc_relD(6) [OF \<sigma> refl refl] refl] by (simp_all add: dfs_root_def)
  have "s \<in> discovered v" if ns: "start f \<noteq> Some root" and re: "reachable f s" for s
  proof -
    obtain st where st: "start f = Some st" "(st, s) \<in> (edges f)\<^sup>*" using re by (auto simp: reachable_def)
    then have "st \<in> discovered v"
      using 1(1,7) ns wf_start [OF dfs_ok_wf [OF 1(1)] st(1)] by (auto simp: whites_def discovered_def dfs_ok_def)
    then show ?thesis using disc_closed [OF _ 1(3) _ st(2)] 1(2) by blast
  qed
  then have "acc_inv f root ?w"
    using 1(2,3) by (intro acc_inv_push [OF 1(1) \<sigma> 1(5,6) _ _ _ _ w(1-3)]) (auto simp: acc_inv_def)
  moreover have "scc_inv W f ?w" using 1(2,3) by (intro scc_inv_push [OF 1(1) _ 1(5,6) _ w]) auto
  moreover have "wants (visitor_state ?w) = b" using 1(2) by (simp add: w(3))
  ultimately show ?case by blast
next
  case (2 v root s i rest)
  then have i: "NumArcs f s \<le> i" by (auto simp: scc_inv_def scc_rel_def Let_def)
  let ?w = "dfs_leave f (SccVisitor W) s rest v"
  obtain \<sigma> where \<sigma>: "tarjan_inv (edges f) (finals W f) \<sigma>" "scc_rel f v \<sigma>" using 2(2) by (auto simp: scc_inv_def)
  have "access (visitor_state ?w) = access (visitor_state v)" by (simp add: scc_leave_state)
  moreover have "fst ` set (state_stack ?w) \<subseteq> fst ` set (state_stack v)" by (simp add: 2(3) subset_insertI)
  ultimately have "acc_inv f root ?w"
    using acc_inv_cong [OF conjunct2 [OF conjunct1 [OF 2(2)]] discovered_leave [OF 2(1,3)]] by blast
  moreover have "wants (visitor_state ?w) = b" using 2(2) by (simp add: scc_leave_state)
  ultimately show ?case using scc_inv_leave [OF 2(1) _ 2(3) i] 2(2) by blast
next
  case (3 v root s i rest)
  then show ?case by (simp add: AnyArcFilter_def)
next
  case (4 v root s i rest)
  then show ?case by (simp add: scc_TreeArc_def)
next
  case (5 v root s i rest t u)
  let ?w = "visit (InitState (SccVisitor W) t root) ((set_color t kGrey u)\<lparr>state_stack := (t, 0) # (s, i) # rest\<rparr>)"
  have u: "state_color u = state_color v" "visitor_state u = visitor_state v" using 5(9) by (simp_all add: scc_TreeArc_def)
  obtain \<sigma> where \<sigma>: "scc_rel f v \<sigma>" using 5(2) by (auto simp: scc_inv_def)
  have w: "state_color ?w = (state_color v)[t := kGrey]" "state_stack ?w = (t, 0) # state_stack v"
    "visitor_state ?w = fst (scc_InitState t root (visitor_state v))" "dfs ?w"
    using 5(3) u InitState_obs(2) [OF scc_relD(6) [OF \<sigma> refl refl] refl] by simp_all
  have e: "(s, t) \<in> edges f" using dfs_ok_top [OF 5(1,3)] 5(5,7) by (auto simp: NumArcs_def Arcs_def trans_iff intro!: edgesI)
  have "(root, s) \<in> (edges f)\<^sup>*" using 5(2,3) by (auto simp: acc_inv_def)
  then have rt: "(root, t) \<in> (edges f)\<^sup>*" using e by simp
  have tn: "t < NumStates f" using dfs_ok_arc(1) [OF 5(1,3,5)] 5(7) by simp
  have "acc_inv f root ?w"
    using 5(2,3) by (intro acc_inv_push [OF 5(1) \<sigma> tn 5(8) _ _ rt _ w(1-3)]) (auto simp: acc_inv_def)
  moreover have "scc_inv W f ?w" using 5(2,3) e by (intro scc_inv_push [OF 5(1) _ tn 5(8) _ w]) auto
  moreover have "wants (visitor_state ?w) = b" using 5(2) by (simp add: w(3) u(2))
  ultimately show ?case by blast
next
  case (6 v root s i rest)
  let ?u = "visitor_state v" let ?t = "nextstate (Arcs f s ! i)"
  let ?w = "(visit (BackArc (SccVisitor W) s (Arcs f s ! i)) v)\<lparr>state_stack := (s, i + 1) # rest\<rparr>"
  let ?l = "if dfnumber ?u ! ?t < lowlink ?u ! s then dfnumber ?u ! ?t else lowlink ?u ! s"
  have d: "visitor_state ?w = ?u\<lparr>lowlink := (lowlink ?u)[s := ?l], coaccess := (coaccess ?u)[s := coaccess ?u ! s \<or> coaccess ?u ! ?t],
      scc_props := scc_props (visitor_state ?w)\<rparr>" "dfs ?w" "access (visitor_state ?w) = access ?u"
    by (auto simp: scc_BackArc_def Let_def)
  obtain \<sigma> where \<sigma>: "tarjan_inv (edges f) (finals W f) \<sigma>" "scc_rel f v \<sigma>" using 6(2) by (auto simp: scc_inv_def)
  note R = scc_relD [OF \<sigma>(2) refl refl]
  have "?t \<in> set (greys \<sigma>)" using dfs_ok_arc(3) [OF 6(1,3,5,7)] R(1) by simp
  then have "?t \<in> set (sstack \<sigma>)" "?t \<in> disc \<sigma>" using \<sigma>(1) by (auto simp: tarjan_inv_def t_shape_def)
  then have on: "onstack ?u ! ?t" using R(9) by blast
  have "scc_inv W f ?w"
    using 6(2) on by (intro scc_inv_arc [OF 6(1) _ 6(3,5) refl _ refl, of W ?l ?w, OF _ _ _ _ _ _ _ _ d(1)]) (use 6(7) d(2) in auto)
  moreover have "acc_inv f root ?w"
    by (rule acc_inv_cong [OF conjunct2 [OF conjunct1 [OF 6(2)]] _ _ d(3)]) (simp_all add: discovered_def 6(3))
  moreover have "wants (visitor_state ?w) = b" using 6(2) by (subst d(1)) (simp add: wants_def)
  ultimately show ?case by blast
next
  case (7 v root s i rest)
  let ?u = "visitor_state v" let ?t = "nextstate (Arcs f s ! i)"
  let ?w = "(visit (ForwardOrCrossArc (SccVisitor W) s (Arcs f s ! i)) v)\<lparr>state_stack := (s, i + 1) # rest\<rparr>"
  let ?c = "dfnumber ?u ! ?t < dfnumber ?u ! s \<and> onstack ?u ! ?t \<and> dfnumber ?u ! ?t < lowlink ?u ! s"
  let ?l = "if ?c then dfnumber ?u ! ?t else lowlink ?u ! s"
  have d: "visitor_state ?w = ?u\<lparr>lowlink := (lowlink ?u)[s := ?l], coaccess := (coaccess ?u)[s := coaccess ?u ! s \<or> coaccess ?u ! ?t],
      scc_props := scc_props (visitor_state ?w)\<rparr>" "dfs ?w" "access (visitor_state ?w) = access ?u"
    by (auto simp: scc_ForwardOrCrossArc_def Let_def)
  obtain \<sigma> where \<sigma>: "tarjan_inv (edges f) (finals W f) \<sigma>" "scc_rel f v \<sigma>" using 7(2) by (auto simp: scc_inv_def)
  note R = scc_relD [OF \<sigma>(2) refl refl]
  have s: "s \<in> set (greys \<sigma>)" "s \<in> disc \<sigma>" using R(1,2) 7(3) dfs_ok_top [OF 7(1,3)] by (auto simp: discovered_def)
  then have "lowlink ?u ! s \<le> dfnumber ?u ! s" using \<sigma>(1) R(9) [OF s(2)] by (auto simp: tarjan_inv_def t_links_def)
  then have "scc_inv W f ?w"
    using 7(2) by (intro scc_inv_arc [OF 7(1) _ 7(3,5) refl _ refl, of W ?l ?w, OF _ _ _ _ _ _ _ _ d(1)]) (use 7(7) d(2) in auto)
  moreover have "acc_inv f root ?w"
    by (rule acc_inv_cong [OF conjunct2 [OF conjunct1 [OF 7(2)]] _ _ d(3)]) (simp_all add: discovered_def 7(3))
  moreover have "wants (visitor_state ?w) = b" using 7(2) by (subst d(1)) (simp add: wants_def)
  ultimately show ?case by blast
qed

end
