(* ===== verification/TopSort.thy ===== *)
theory TopSort
  imports DfsLaws
begin

text \<open>
  Topological sorting: \<open>StateSort\<close> (src/openfst/lib/statesort.h), which renumbers the states of an
  FST in place along the cycles of a permutation, the visitor \<open>TopOrderVisitor\<close> and \<open>TopSort\<close>
  (src/openfst/lib/topsort.h). A vector of state numbers is a list of type \<open>nat option list\<close>,
  in which \<open>None\<close> is \<open>kNoStateId\<close>. The visitor is verified against the contract \<open>dfs_invariant\<close>.
\<close>

section \<open>StateSort\<close>

record 'w sort_vars =
  sort_fst :: "'w vfst"
  is_done :: "bool list"
  s1 :: nat
  final1 :: 'w
  final2 :: 'w
  arcsa :: "'w arc list"
  arcsb :: "'w arc list"

definition order_at :: "nat option list \<Rightarrow> nat \<Rightarrow> nat" where
  "order_at order s = the (order ! s)"

text \<open>One round of the inner loop, with the assignments of its third clause.\<close>

definition sort_step ::
  "('w, 'z) weight_ops_scheme \<Rightarrow> nat option list \<Rightarrow> 'w sort_vars \<Rightarrow> 'w sort_vars" where
  "sort_step W order v =
     (let s2 = order_at order (s1 v);
          v = (if \<not> is_done v ! s2
               then v\<lparr>final2 := Final (sort_fst v) s2, arcsb := Arcs (sort_fst v) s2\<rparr> else v);
          f = SetFinal W s2 (final1 v) (sort_fst v);
          f = DeleteAllArcs s2 f;
          f = fold (\<lambda>arc. AddArc W s2 (arc\<lparr>nextstate := order_at order (nextstate arc)\<rparr>)) (arcsa v) f
      in v\<lparr>sort_fst := f, is_done := (is_done v)[s1 v := True], s1 := s2, final1 := final2 v,
           arcsa := arcsb v, arcsb := arcsa v\<rparr>)"

partial_function (option) sort_cycle ::
  "('w, 'z) weight_ops_scheme \<Rightarrow> nat option list \<Rightarrow> 'w sort_vars \<Rightarrow> 'w sort_vars option" where
  "sort_cycle W order v =
     (if \<not> is_done v ! s1 v then sort_cycle W order (sort_step W order v) else Some v)"

definition sort_state ::
  "('w, 'z) weight_ops_scheme \<Rightarrow> nat option list \<Rightarrow> nat \<Rightarrow> 'w sort_vars \<Rightarrow> 'w sort_vars option" where
  "sort_state W order s v =
     (if is_done v ! s then Some v
      else sort_cycle W order
             (v\<lparr>s1 := s, final1 := Final (sort_fst v) s, final2 := Zero W, arcsa := Arcs (sort_fst v) s\<rparr>))"

fun sort_states ::
  "('w, 'z) weight_ops_scheme \<Rightarrow> nat option list \<Rightarrow> nat list \<Rightarrow> 'w sort_vars \<Rightarrow> 'w sort_vars option" where
  "sort_states W order [] v = Some v"
| "sort_states W order (s # ss) v = Option.bind (sort_state W order s v) (sort_states W order ss)"

definition StateSort ::
  "('w, 'z) weight_ops_scheme \<Rightarrow> nat option list \<Rightarrow> 'w vfst \<Rightarrow> 'w vfst option" where
  "StateSort W order f =
     (if length order \<noteq> NumStates f then Some (SetPropertiesMask kError kError f)
      else case start f of
             None \<Rightarrow> Some f
           | Some st \<Rightarrow>
               (let props = Properties f kStateSortProperties;
                    v = \<lparr>sort_fst = SetStart (order ! st) f, is_done = replicate (length order) False, s1 = 0,
                         final1 = Zero W, final2 = Zero W, arcsa = [], arcsb = []\<rparr>
                in map_option (\<lambda>v. SetPropertiesMask props kFstProperties (sort_fst v))
                     (sort_states W order [0 ..< NumStates f] v)))"

section \<open>TopOrderVisitor and TopSort\<close>

record top_order =
  order_vec :: "nat option list"
  is_acyclic :: bool
  finish :: "nat list"

definition finish_order :: "nat list \<Rightarrow> nat option list" where
  "finish_order fin =
     fold (\<lambda>s order. order[fin ! (length fin - s - 1) := Some s]) [0 ..< length fin] (replicate (length fin) None)"

definition TopOrderVisitor :: "(top_order, 'w) dfs_visitor" where
  "TopOrderVisitor =
     \<lparr>InitVisit = (\<lambda>_ u. u\<lparr>finish := [], is_acyclic := True\<rparr>),
      InitState = (\<lambda>_ _ u. (u, True)),
      TreeArc = (\<lambda>_ _ u. (u, True)),
      BackArc = (\<lambda>_ _ u. (u\<lparr>is_acyclic := False\<rparr>, False)),
      ForwardOrCrossArc = (\<lambda>_ _ u. (u, True)),
      FinishState = (\<lambda>s _ _ u. u\<lparr>finish := finish u @ [s]\<rparr>),
      FinishVisit = (\<lambda>u. if is_acyclic u then u\<lparr>order_vec := finish_order (finish u)\<rparr> else u)\<rparr>"

definition TopSort :: "('w, 'z) weight_ops_scheme \<Rightarrow> 'w vfst \<Rightarrow> (bool \<times> 'w vfst) option" where
  "TopSort W f =
     (case DfsVisit f TopOrderVisitor AnyArcFilter False \<lparr>order_vec = [], is_acyclic = False, finish = []\<rparr> of
        None \<Rightarrow> None
      | Some u \<Rightarrow>
          if is_acyclic u
          then map_option (\<lambda>f. (True, SetPropertiesMask (kAcyclic OR kInitialAcyclic OR kTopSorted)
                                        (kAcyclic OR kInitialAcyclic OR kTopSorted) f))
                 (StateSort W (order_vec u) f)
          else Some (False, SetPropertiesMask (kCyclic OR kNotTopSorted) (kCyclic OR kNotTopSorted) f))"

section \<open>The order of finishing\<close>

definition topo :: "'w vfst \<Rightarrow> nat list \<Rightarrow> bool" where
  "topo f fin \<longleftrightarrow> (\<forall>xs s ys. fin = xs @ s # ys \<longrightarrow> edges f `` {s} \<subseteq> set xs)"

lemma topo_snoc: "topo f fin \<Longrightarrow> edges f `` {s} \<subseteq> set fin \<Longrightarrow> topo f (fin @ [s])"
  unfolding topo_def
proof (intro allI impI)
  fix xs t ys
  assume t: "\<forall>xs s ys. fin = xs @ s # ys \<longrightarrow> edges f `` {s} \<subseteq> set xs" "edges f `` {s} \<subseteq> set fin" "fin @ [s] = xs @ t # ys"
  show "edges f `` {t} \<subseteq> set xs"
  proof (cases ys rule: rev_cases)
    case Nil
    then show ?thesis using t by simp
  next
    case (snoc zs z)
    then have "fin = xs @ t # zs" using t(3) by simp
    then show ?thesis using t(1) by blast
  qed
qed

lemma topo_index:
  assumes "topo f fin" "i < length fin" "(fin ! i, t) \<in> edges f"
  shows "\<exists>j < i. fin ! j = t"
proof -
  have "fin = take i fin @ fin ! i # drop (Suc i) fin" using assms(2) by (rule id_take_nth_drop)
  then have "t \<in> set (take i fin)" using assms(1,3) unfolding topo_def by blast
  then show ?thesis using assms(2) by (auto simp: in_set_conv_nth)
qed

definition blacks :: "'v dfs_vars \<Rightarrow> nat set" where
  "blacks v = {s. s < length (state_color v) \<and> state_color v ! s = kBlack}"

definition arcs_before :: "'w vfst \<Rightarrow> nat set \<Rightarrow> (nat \<times> nat) list \<Rightarrow> bool" where
  "arcs_before f B stack \<longleftrightarrow> (\<forall>(s, i) \<in> set stack. \<forall>j < i. j < NumArcs f s \<longrightarrow> nextstate (Arcs f s ! j) \<in> B)"

definition top_inv :: "'w vfst \<Rightarrow> nat \<Rightarrow> top_order dfs_vars \<Rightarrow> bool" where
  "top_inv f root v \<longleftrightarrow>
     (let u = visitor_state v
      in dfs v = is_acyclic u \<and> distinct (finish u) \<and> set (finish u) = blacks v \<and>
         (is_acyclic u \<longrightarrow> topo f (finish u) \<and> arcs_before f (blacks v) (state_stack v)) \<and>
         (\<not> is_acyclic u \<longrightarrow> (\<exists>s. (s, s) \<in> (edges f)\<^sup>+)))"

lemma nth_edge: "s < NumStates f \<Longrightarrow> i < NumArcs f s \<Longrightarrow> (s, nextstate (Arcs f s ! i)) \<in> edges f"
  by (auto simp: NumArcs_def Arcs_def trans_iff intro!: edgesI)

text \<open>Every state on the stack reaches the top.\<close>

lemma stack_reaches:
  "stack_ok f P ((s, i) # rest) \<Longrightarrow> t \<in> fst ` set ((s, i) # rest) \<Longrightarrow> (t, s) \<in> (edges f)\<^sup>*"
proof (induction rest arbitrary: s i)
  case Nil
  then show ?case by simp
next
  case (Cons q rest)
  obtain p j where q: "q = (p, j)" by (cases q)
  note par = stack_ok_parent [OF Cons.prems(1) [unfolded q]]
  have "(p, s) \<in> edges f" using par nth_edge [of p f j] by metis
  moreover have "t = s \<or> (t, p) \<in> (edges f)\<^sup>*"
    using Cons.IH [of p j] Cons.prems(2) stack_ok_Cons [OF Cons.prems(1)] unfolding q by auto
  ultimately show ?case by (metis rtrancl.rtrancl_into_rtrancl rtrancl.rtrancl_refl)
qed

section \<open>The visitor\<close>

lemma TopOrderVisitor_sel [simp]:
  "InitVisit TopOrderVisitor f u = u\<lparr>finish := [], is_acyclic := True\<rparr>"
  "InitState TopOrderVisitor s root u = (u, True)"
  "TreeArc TopOrderVisitor s arc u = (u, True)"
  "BackArc TopOrderVisitor s arc u = (u\<lparr>is_acyclic := False\<rparr>, False)"
  "ForwardOrCrossArc TopOrderVisitor s arc u = (u, True)"
  "FinishState TopOrderVisitor s p arcp u = u\<lparr>finish := finish u @ [s]\<rparr>"
  "FinishVisit TopOrderVisitor u = (if is_acyclic u then u\<lparr>order_vec := finish_order (finish u)\<rparr> else u)"
  by (simp_all add: TopOrderVisitor_def)

lemma blacks_cong: "state_color w = state_color v \<Longrightarrow> blacks w = blacks v"
  by (simp add: blacks_def)

lemma blacks_leave:
  "s < length (state_color v) \<Longrightarrow> blacks (dfs_leave f V s rest v) = insert s (blacks v)"
  by (auto simp: blacks_def nth_list_update)

lemma blacks_grey:
  "t < length (state_color v) \<Longrightarrow> state_color v ! t = kWhite \<Longrightarrow> state_color w = (state_color v)[t := kGrey] \<Longrightarrow>
    blacks w = blacks v"
  by (auto simp: blacks_def nth_list_update split: if_splits)

lemma visitor_state_leave:
  "visitor_state (dfs_leave f TopOrderVisitor s rest v) = (visitor_state v)\<lparr>finish := finish (visitor_state v) @ [s]\<rparr>"
  by (auto simp: dfs_leave_def Let_def split: list.splits)

lemma arcs_before_mono: "arcs_before f B stack \<Longrightarrow> B \<subseteq> B' \<Longrightarrow> arcs_before f B' stack"
  by (fastforce simp: arcs_before_def)

lemma arcs_before_Cons [simp]:
  "arcs_before f B ((s, i) # rest) \<longleftrightarrow>
    (\<forall>j < i. j < NumArcs f s \<longrightarrow> nextstate (Arcs f s ! j) \<in> B) \<and> arcs_before f B rest"
  by (auto simp: arcs_before_def)

lemma arcs_before_advance:
  "arcs_before f B ((s, i) # rest) \<Longrightarrow> nextstate (Arcs f s ! i) \<in> B \<Longrightarrow> arcs_before f B ((s, i + 1) # rest)"
  by (auto simp: less_Suc_eq)

lemma top_inv_leave:
  assumes ok: "dfs_ok f P v" and inv: "top_inv f root v" and st: "state_stack v = (s, i) # rest"
    and fin: "\<not> dfs v \<or> NumArcs f s \<le> i"
  shows "top_inv f root (dfs_leave f TopOrderVisitor s rest v)"
proof -
  note top = dfs_ok_top [OF ok st]
  let ?u = "visitor_state v" let ?w = "dfs_leave f TopOrderVisitor s rest v"
  have b: "blacks ?w = insert s (blacks v)" using top by (simp add: blacks_leave)
  have new: "s \<notin> blacks v" using top by (simp add: blacks_def)
  have "topo f (finish ?u @ [s]) \<and> arcs_before f (insert s (blacks v)) (next_top rest)" if a: "is_acyclic ?u"
  proof -
    have before: "\<forall>j < NumArcs f s. nextstate (Arcs f s ! j) \<in> blacks v" "arcs_before f (blacks v) rest"
      using inv st a fin by (auto simp: top_inv_def Let_def)
    have "edges f `` {s} \<subseteq> blacks v"
      using before(1) by (auto simp: edges_iff trans_iff NumArcs_def Arcs_def in_set_conv_nth)
    moreover have "arcs_before f (insert s (blacks v)) (next_top rest)"
    proof (cases rest)
      case (Cons q below)
      obtain p j where q: "q = (p, j)" by (cases q)
      have "stack_ok f P ((s, i) # (p, j) # below)" using ok st unfolding dfs_ok_def Cons q by metis
      then have "nextstate (Arcs f p ! j) = s" by (meson stack_ok_parent)
      moreover have "arcs_before f (insert s (blacks v)) ((p, j) # below)"
        using arcs_before_mono [OF before(2), of "insert s (blacks v)"] unfolding Cons q by blast
      ultimately show ?thesis unfolding Cons q next_top_simps by (intro arcs_before_advance) auto
    qed (simp add: arcs_before_def)
    ultimately show ?thesis using inv a by (auto simp: top_inv_def Let_def intro: topo_snoc)
  qed
  then show ?thesis using inv new by (simp add: top_inv_def Let_def visitor_state_leave b)
qed

lemma top_inv_cong:
  assumes "top_inv f root v" "blacks w = blacks v" "dfs w = dfs v" "visitor_state w = visitor_state v"
    "is_acyclic (visitor_state v) \<Longrightarrow> arcs_before f (blacks v) (state_stack v) \<Longrightarrow> arcs_before f (blacks v) (state_stack w)"
  shows "top_inv f root' w"
  using assms by (simp add: top_inv_def Let_def)

interpretation top: dfs_invariant f TopOrderVisitor AnyArcFilter "top_inv f" for f :: "'w vfst"
proof (unfold_locales, goal_cases)
  case (1 v r root)
  then have "root < length (state_color v)" by (simp add: dfs_ok_def)
  then have "blacks (dfs_root f TopOrderVisitor root v) = blacks v"
    using 1(6) by (rule blacks_grey) (simp add: dfs_root_def)
  moreover have "dfs (dfs_root f TopOrderVisitor root v) = dfs v"
    "visitor_state (dfs_root f TopOrderVisitor root v) = visitor_state v" using 1(4) by (simp_all add: dfs_root_def)
  ultimately show ?case using 1(2) by (elim top_inv_cong) (simp_all add: dfs_root_def arcs_before_def)
next
  case (2 v root s i rest)
  then show ?case by (rule top_inv_leave)
next
  case (3 v root s i rest)
  then show ?case by (simp add: AnyArcFilter_def)
next
  case (4 v root s i rest)
  then show ?case by simp
next
  case (5 v root s i rest t u)
  let ?w = "visit (InitState (TopOrderVisitor :: (top_order, 'w) dfs_visitor) t root) ((set_color t kGrey u)\<lparr>state_stack := (t, 0) # (s, i) # rest\<rparr>)"
  have "t < length (state_color v)" using dfs_ok_arc [OF 5(1,3,5)] 5(7) by simp
  then have "blacks ?w = blacks v"
    using 5(8) by (rule blacks_grey) (simp add: 5(9))
  moreover have "dfs ?w = dfs v" "visitor_state ?w = visitor_state v" using 5(4) by (simp_all add: 5(9))
  moreover have "arcs_before f (blacks v) (state_stack ?w)" if "arcs_before f (blacks v) (state_stack v)"
    using that 5(3) by (simp add: 5(9))
  ultimately show ?case using 5(2) by (elim top_inv_cong)
next
  case (6 v root s i rest)
  let ?t = "nextstate (Arcs f s ! i)"
  have st: "s < NumStates f" "?t \<in> fst ` set ((s, i) # rest)"
    using dfs_ok_arc(3) [OF 6(1,3,5,7)] dfs_ok_top [OF 6(1,3)] 6(3) by simp_all
  have "stack_ok f AnyArcFilter ((s, i) # rest)" using 6(1,3) unfolding dfs_ok_def by metis
  then have "(?t, s) \<in> (edges f)\<^sup>*" using st(2) by (rule stack_reaches)
  moreover have "(s, ?t) \<in> edges f" using st(1) 6 nth_edge by blast
  ultimately have "(s, s) \<in> (edges f)\<^sup>+" by (meson rtrancl_into_trancl2)
  then show ?case using 6 by (auto simp: top_inv_def Let_def blacks_def)
next
  case (7 v root s i rest)
  let ?t = "nextstate (Arcs f s ! i)"
  let ?w = "(visit (ForwardOrCrossArc (TopOrderVisitor :: (top_order, 'w) dfs_visitor) s (Arcs f s ! i)) v)
    \<lparr>state_stack := (s, i + 1) # rest\<rparr>"
  have t: "?t \<in> blacks v" using dfs_ok_arc [OF 7(1,3,5)] 7(7) by (simp add: blacks_def)
  have "blacks ?w = blacks v" "dfs ?w = dfs v" "visitor_state ?w = visitor_state v"
    using 7(4) by (simp_all add: blacks_def)
  moreover have "arcs_before f (blacks v) (state_stack ?w)" if "arcs_before f (blacks v) (state_stack v)"
    using arcs_before_advance [OF that [unfolded 7(3)] t] by simp
  ultimately show ?case using 7(2) by (elim top_inv_cong)
qed

section \<open>The order is topological\<close>

definition permutes_states :: "nat option list \<Rightarrow> nat \<Rightarrow> bool" where
  "permutes_states order n \<longleftrightarrow>
     length order = n \<and> (\<forall>s < n. order ! s \<noteq> None) \<and> bij_betw (order_at order) {..<n} {..<n}"

lemma finish_order_loop:
  assumes d: "distinct fin" and r: "set fin = {..<length fin}" and k: "k \<le> length fin"
  shows "length (fold (\<lambda>s order. order[fin ! (length fin - s - 1) := Some s]) [0 ..< k] (replicate (length fin) None)) = length fin
    \<and> (\<forall>s < k. fold (\<lambda>s order. order[fin ! (length fin - s - 1) := Some s]) [0 ..< k] (replicate (length fin) None)
          ! (fin ! (length fin - s - 1)) = Some s)"
  using k
proof (induction k)
  case (Suc k)
  let ?o = "fold (\<lambda>s order. order[fin ! (length fin - s - 1) := Some s]) [0 ..< k] (replicate (length fin) None)"
  have ne: "fin ! (length fin - s - 1) \<noteq> fin ! (length fin - k - 1)" if "s < k" for s
    using that Suc.prems d by (simp add: nth_eq_iff_index_eq)
  have "fin ! (length fin - k - 1) < length fin" using Suc.prems r nth_mem [of "length fin - k - 1" fin] by auto
  then have "?o[fin ! (length fin - k - 1) := Some k] ! (fin ! (length fin - s - 1)) = Some s" if "s < Suc k" for s
    using that Suc ne [of s] by (cases "s = k") simp_all
  then show ?case using Suc by simp
qed simp

lemma finish_order_spec:
  assumes d: "distinct fin" and r: "set fin = {..<n}"
  shows "permutes_states (finish_order fin) n"
    and "i < n \<Longrightarrow> order_at (finish_order fin) (fin ! i) = n - i - 1"
proof -
  have n: "length fin = n" using d r distinct_card [of fin] by simp
  note loop = finish_order_loop [OF d, of "length fin", unfolded n, folded finish_order_def [of fin, unfolded n]]
  have len: "length (finish_order fin) = n" using loop r by simp
  have at: "finish_order fin ! (fin ! i) = Some (n - i - 1)" if "i < n" for i
    using loop r that by (auto dest: spec [of _ "n - i - 1"])
  then show "order_at (finish_order fin) (fin ! i) = n - i - 1" if "i < n"
    using that by (simp add: order_at_def)
  have ex: "\<exists>i < n. fin ! i = s" if "s < n" for s
    using that r n by (metis in_set_conv_nth lessThan_iff)
  have inj: "inj_on (order_at (finish_order fin)) {..<n}"
  proof (rule inj_onI)
    fix s t
    assume st: "s \<in> {..<n}" "t \<in> {..<n}" "order_at (finish_order fin) s = order_at (finish_order fin) t"
    obtain i j where ij: "i < n" "fin ! i = s" "j < n" "fin ! j = t" using ex st by (metis lessThan_iff)
    then have "n - i - 1 = n - j - 1" using st(3) at by (auto simp: order_at_def)
    then show "s = t" using ij by (metis diff_diff_cancel diff_diff_left less_eq_Suc_le Suc_eq_plus1 add_diff_cancel_right' diff_Suc_1)
  qed
  have "order_at (finish_order fin) ` {..<n} \<subseteq> {..<n}"
    using ex at by (force simp: order_at_def)
  then have "bij_betw (order_at (finish_order fin)) {..<n} {..<n}"
    using inj by (simp add: bij_betw_def card_image card_subset_eq)
  moreover have "\<forall>s < n. finish_order fin ! s \<noteq> None" using ex at by (metis option.distinct(1))
  ultimately show "permutes_states (finish_order fin) n" by (simp add: permutes_states_def len)
qed

definition topological :: "'w vfst \<Rightarrow> nat option list \<Rightarrow> bool" where
  "topological f order \<longleftrightarrow>
     permutes_states order (NumStates f) \<and> (\<forall>(s, t) \<in> edges f. order_at order s < order_at order t)"

lemma topo_order:
  assumes "topo f fin" "distinct fin" "set fin = {..<NumStates f}"
  shows "topological f (finish_order fin)"
proof -
  let ?n = "NumStates f"
  note spec = finish_order_spec [OF assms(2,3)]
  have n: "length fin = ?n" using assms(2,3) distinct_card [of fin] by simp
  have "order_at (finish_order fin) s < order_at (finish_order fin) t" if e: "(s, t) \<in> edges f" for s t
  proof -
    have "s < ?n" using e by (auto simp: edges_iff trans_iff)
    then obtain i where i: "i < ?n" "fin ! i = s" using assms(3) n by (metis in_set_conv_nth lessThan_iff)
    then obtain j where "j < i" "fin ! j = t" using topo_index [OF assms(1), of i t] e n by auto
    then show ?thesis using spec(2) [of i] spec(2) [of j] i by auto
  qed
  then show ?thesis using spec(1) by (auto simp: topological_def)
qed

lemma topological_acyclic:
  assumes "topological f order"
  shows "(s, s) \<notin> (edges f)\<^sup>+"
proof -
  have "order_at order s < order_at order t" if "(s, t) \<in> (edges f)\<^sup>+" for s t
    using that
  proof (induction rule: trancl_induct)
    case (base t)
    then show ?case using assms by (auto simp: topological_def)
  next
    case (step t u)
    then have "order_at order t < order_at order u" using assms by (auto simp: topological_def)
    then show ?case using step.IH by simp
  qed
  then show ?thesis by blast
qed

theorem top_order_visit:
  assumes wf: "wf_fst f" and st: "start f = Some st"
  obtains u where "DfsVisit f TopOrderVisitor AnyArcFilter False u0 = Some u"
    "is_acyclic u \<longleftrightarrow> \<not> (\<exists>s. (s, s) \<in> (edges f)\<^sup>+)" "is_acyclic u \<Longrightarrow> topological f (order_vec u)"
proof -
  have init: "top_inv f 0 v" if "state_color v = replicate (NumStates f) kWhite" "state_stack v = []" "dfs v"
      "visitor_state v = InitVisit TopOrderVisitor f u0" for v
    using that by (auto simp: top_inv_def Let_def topo_def arcs_before_def blacks_def)
  obtain w r where w: "DfsVisit f TopOrderVisitor AnyArcFilter False u0 = Some (FinishVisit (TopOrderVisitor :: (top_order, 'a) dfs_visitor) (visitor_state w))"
      "dfs_ok f AnyArcFilter w" "top_inv f r w" "state_stack w = []" "dfs w \<longrightarrow> whites w = {}"
    using top.visit_returns [OF wf _ st, where u = u0 and r = 0 and ao = False] init by blast
  let ?x = "visitor_state w"
  have black: "blacks w = {..<NumStates f}" if "dfs w"
  proof -
    have "state_color w ! s = kBlack" if "s < NumStates f" for s
      using that w(2,4,5) \<open>dfs w\<close> by (cases "state_color w ! s") (auto simp: dfs_ok_def whites_def)
    then show ?thesis using w(2) by (auto simp: blacks_def dfs_ok_def)
  qed
  have top: "topological f (finish_order (finish ?x))" if "is_acyclic ?x"
    using w(3) that black by (intro topo_order) (auto simp: top_inv_def Let_def)
  show thesis
  proof (rule that [OF w(1)])
    show "is_acyclic (FinishVisit (TopOrderVisitor :: (top_order, 'a) dfs_visitor) ?x) \<longleftrightarrow> \<not> (\<exists>s. (s, s) \<in> (edges f)\<^sup>+)"
      using topological_acyclic [OF top] w(3) by (auto simp: top_inv_def Let_def)
    show "topological f (order_vec (FinishVisit (TopOrderVisitor :: (top_order, 'a) dfs_visitor) ?x))"
      if "is_acyclic (FinishVisit (TopOrderVisitor :: (top_order, 'a) dfs_visitor) ?x)"
      using that top by (auto split: if_splits)
  qed
qed

end
