(* ===== verification/StateSortLaws.thy ===== *)
theory StateSortLaws
  imports TopSort StateMapLaws
begin

text \<open>
  \<open>StateSort\<close> and \<open>TopSort\<close> are right. Renumbering the states by a permutation changes neither the
  transduction nor a property that does not speak of state numbers; the loop of \<open>StateSort\<close>, which
  follows the cycles of the permutation and keeps one state in a buffer, ends and carries out that
  renumbering; \<open>TopSort\<close> therefore sorts an FST topologically if and only if it is acyclic.
\<close>

unbundle bit_operations_syntax

section \<open>Renumbering\<close>

definition state_iso :: "(nat \<Rightarrow> nat) \<Rightarrow> 'w vfst \<Rightarrow> 'w vfst \<Rightarrow> bool" where
  "state_iso p f g \<longleftrightarrow> bij_betw p {..<NumStates f} {..<NumStates f} \<and> NumStates g = NumStates f \<and>
     start g = map_option p (start f) \<and>
     (\<forall>s < NumStates f. Arcs g (p s) = map (retarget p) (Arcs f s) \<and> Final g (p s) = Final f s)"

lemma iso_num: "state_iso p f g \<Longrightarrow> NumStates g = NumStates f"
  by (simp add: state_iso_def)

lemma iso_less: "state_iso p f g \<Longrightarrow> s < NumStates f \<Longrightarrow> p s < NumStates f"
  by (auto simp: state_iso_def bij_betw_def)

lemma iso_obs: "state_iso p f g \<Longrightarrow> s < NumStates f \<Longrightarrow> Arcs g (p s) = map (retarget p) (Arcs f s) \<and> Final g (p s) = Final f s"
  by (simp add: state_iso_def)

lemma iso_all:
  assumes "state_iso p f g"
  shows "(\<forall>s < NumStates g. Q s) \<longleftrightarrow> (\<forall>s < NumStates f. Q (p s))"
proof -
  have "p ` {..<NumStates f} = {..<NumStates f}" using assms by (simp add: state_iso_def bij_betw_def)
  then have "(\<forall>s \<in> {..<NumStates f}. Q s) \<longleftrightarrow> (\<forall>s \<in> p ` {..<NumStates f}. Q s)" by simp
  then show ?thesis unfolding ball_simps iso_num [OF assms] by (auto simp: Ball_def)
qed

lemma iso_trans:
  assumes "state_iso p f g"
  shows "trans g = (\<lambda>(s, a). (p s, retarget p a)) ` trans f"
proof -
  have "(s, a) \<in> trans g \<longleftrightarrow> (s, a) \<in> (\<lambda>(s, a). (p s, retarget p a)) ` trans f" for s a
  proof
    assume l: "(s, a) \<in> trans g"
    then have "s \<in> p ` {..<NumStates f}" using assms by (simp add: trans_iff state_iso_def bij_betw_def)
    then obtain r where r: "r < NumStates f" "s = p r" by auto
    then obtain b where "b \<in> set (Arcs f r)" "a = retarget p b" using l iso_obs [OF assms] by (auto simp: trans_iff)
    then show "(s, a) \<in> (\<lambda>(s, a). (p s, retarget p a)) ` trans f" using r by (force simp: trans_iff)
  next
    assume "(s, a) \<in> (\<lambda>(s, a). (p s, retarget p a)) ` trans f"
    then show "(s, a) \<in> trans g" using iso_obs [OF assms] iso_less [OF assms] iso_num [OF assms] by (auto simp: trans_iff)
  qed
  then show ?thesis by auto
qed

lemma iso_edge: "state_iso p f g \<Longrightarrow> (s, t) \<in> edges f \<Longrightarrow> (p s, p t) \<in> edges g"
  by (force simp: edges_def iso_trans)

lemma iso_rtrancl:
  assumes "state_iso p f g" and "(s, t) \<in> (edges f)\<^sup>*"
  shows "(p s, p t) \<in> (edges g)\<^sup>*"
  using assms(2) by induction (auto intro: rtrancl_into_rtrancl iso_edge [OF assms(1)])

lemma iso_trancl:
  assumes "state_iso p f g" and "(s, t) \<in> (edges f)\<^sup>+"
  shows "(p s, p t) \<in> (edges g)\<^sup>+"
  using assms(2) by induction (auto intro: trancl_into_trancl iso_edge [OF assms(1)])

lemma iso_path:
  "state_iso p f g \<Longrightarrow> path f s as t \<Longrightarrow> path g (p s) (map (retarget p) as) (p t)"
proof (induction as arbitrary: s)
  case (Cons a as)
  then have "(p s, retarget p a) \<in> trans g" by (force simp: iso_trans)
  then show ?case using Cons by simp
qed simp

lemma iso_final: "state_iso p f g \<Longrightarrow> s < NumStates f \<Longrightarrow> final_state W g (p s) \<longleftrightarrow> final_state W f s"
  by (simp add: final_state_def iso_less iso_obs iso_num)

lemma iso_transduces: "state_iso p f g \<Longrightarrow> transduces W f x y w \<Longrightarrow> transduces W g x y w"
proof -
  assume iso: "state_iso p f g" and "transduces W f x y w"
  then obtain i as t where t: "start f = Some i" "path f i as t" "final_state W f t" "x = istring as" "y = ostring as"
    "w = Times W (path_weight W as) (Final f t)" by (auto simp: transduces_def transduces_from_def)
  have n: "t < NumStates f" using t(3) by (simp add: final_state_def)
  have "start g = Some (p i)" using iso t(1) by (simp add: state_iso_def)
  then show ?thesis
    using iso_path [OF iso t(2)] iso_final [OF iso n, of W] iso_obs [OF iso n] t
    unfolding transduces_def transduces_from_def
    by (intro exI [of _ "p i"] conjI exI [of _ "map (retarget p) as"] exI [of _ "p t"]) simp_all
qed

text \<open>The inverse renumbering.\<close>

lemma iso_sym:
  assumes iso: "state_iso p f g" and wf: "wf_fst f"
  shows "state_iso (inv_into {..<NumStates f} p) g f"
proof -
  let ?n = "NumStates f" let ?q = "inv_into {..<?n} p"
  have bij: "bij_betw p {..<?n} {..<?n}" using iso by (simp add: state_iso_def)
  have qp: "?q (p s) = s" if "s < ?n" for s using bij that by (simp add: bij_betw_inv_into_left)
  have pq: "p (?q s) = s" "?q s < ?n" if "s < ?n" for s
    using bij that bij_betw_inv_into_right [OF bij, of s] bij_betw_apply [OF bij_betw_inv_into [OF bij], of s] by auto
  have back_arcs: "map (retarget ?q) (map (retarget p) (Arcs f s)) = Arcs f s" if "s < ?n" for s
    unfolding map_map
  proof (rule map_idI)
    fix a assume "a \<in> set (Arcs f s)"
    then have "nextstate a < ?n" using wf_target [OF wf that] by blast
    then show "(retarget ?q \<circ> retarget p) a = a" by (simp add: retarget_def qp)
  qed
  have "Arcs f (?q s) = map (retarget ?q) (Arcs g s) \<and> Final f (?q s) = Final g s" if "s < ?n" for s
    using iso_obs [OF iso pq(2) [OF that]] back_arcs [OF pq(2) [OF that]] pq(1) [OF that] by simp
  moreover have "start f = map_option ?q (start g)"
    using iso qp wf_start [OF wf] by (cases "start f") (auto simp: state_iso_def)
  ultimately show ?thesis using bij_betw_inv_into [OF bij] iso_num [OF iso] by (simp add: state_iso_def)
qed

lemma iso_rtrancl_iff:
  assumes iso: "state_iso p f g" and wf: "wf_fst f" and "s < NumStates f" "t < NumStates f"
  shows "(p s, p t) \<in> (edges g)\<^sup>* \<longleftrightarrow> (s, t) \<in> (edges f)\<^sup>*"
    and "(p s, p t) \<in> (edges g)\<^sup>+ \<longleftrightarrow> (s, t) \<in> (edges f)\<^sup>+"
proof -
  have bij: "bij_betw p {..<NumStates f} {..<NumStates f}" using iso by (simp add: state_iso_def)
  have q: "inv_into {..<NumStates f} p (p s) = s" "inv_into {..<NumStates f} p (p t) = t"
    using assms(3,4) bij by (simp_all add: bij_betw_inv_into_left)
  show "(p s, p t) \<in> (edges g)\<^sup>* \<longleftrightarrow> (s, t) \<in> (edges f)\<^sup>*"
    using iso_rtrancl [OF iso, of s t] iso_rtrancl [OF iso_sym [OF iso wf], of "p s" "p t"] q by auto
  show "(p s, p t) \<in> (edges g)\<^sup>+ \<longleftrightarrow> (s, t) \<in> (edges f)\<^sup>+"
    using iso_trancl [OF iso, of s t] iso_trancl [OF iso_sym [OF iso wf], of "p s" "p t"] q by auto
qed

lemma trancl_source: "(s, t) \<in> (edges f)\<^sup>+ \<Longrightarrow> s < NumStates f"
  by (induction rule: trancl_induct) (auto simp: edges_iff trans_iff)

lemma iso_cyclic:
  assumes iso: "state_iso p f g" and wf: "wf_fst f"
  shows "(\<exists>s. (s, s) \<in> (edges g)\<^sup>+) \<longleftrightarrow> (\<exists>s. (s, s) \<in> (edges f)\<^sup>+)"
  using iso_trancl [OF iso] iso_trancl [OF iso_sym [OF iso wf]] by blast

lemma iso_holds:
  assumes iso: "state_iso p f g" and wf: "wf_fst f" and t: "t \<noteq> TopSorted" "t \<noteq> IsString"
  shows "holds W g t \<longleftrightarrow> holds W f t"
proof -
  note tr = iso_trans [OF iso] and obs = iso_obs [OF iso] and less = iso_less [OF iso]
  note reach = iso_rtrancl_iff [OF iso wf]
  have src: "s < NumStates f \<and> nextstate a < NumStates f" if "(s, a) \<in> trans f" for s a
    using that wf_trans [OF wf that] by (simp add: trans_iff)
  have lab: "map ilabel (map (retarget p) as) = map ilabel as" "map olabel (map (retarget p) as) = map olabel as" for as :: "'a arc list"
    by simp_all
  have acc: "accessible g \<longleftrightarrow> accessible f"
    using iso wf_start [OF wf] reach(1) unfolding accessible_def iso_all [OF iso]
    by (cases "start f") (auto simp: state_iso_def)
  have co: "coaccessible W g \<longleftrightarrow> coaccessible W f"
  proof -
    have "(\<exists>u. (p s, u) \<in> (edges g)\<^sup>* \<and> final_state W g u) \<longleftrightarrow> (\<exists>u. (s, u) \<in> (edges f)\<^sup>* \<and> final_state W f u)"
      if s: "s < NumStates f" for s
    proof
      assume "\<exists>u. (p s, u) \<in> (edges g)\<^sup>* \<and> final_state W g u"
      then obtain u where u: "(p s, u) \<in> (edges g)\<^sup>*" "final_state W g u" by blast
      then have "u \<in> p ` {..<NumStates f}" using iso by (simp add: final_state_def state_iso_def bij_betw_def)
      then obtain r where "r < NumStates f" "u = p r" by auto
      then show "\<exists>u. (s, u) \<in> (edges f)\<^sup>* \<and> final_state W f u" using u reach(1) s iso_final [OF iso] by blast
    next
      assume "\<exists>u. (s, u) \<in> (edges f)\<^sup>* \<and> final_state W f u"
      then obtain u where u: "(s, u) \<in> (edges f)\<^sup>*" "final_state W f u" by blast
      then have "u < NumStates f" by (simp add: final_state_def)
      then show "\<exists>u. (p s, u) \<in> (edges g)\<^sup>* \<and> final_state W g u"
        using u iso_rtrancl [OF iso u(1)] iso_final [OF iso] by blast
    qed
    then show ?thesis unfolding coaccessible_def iso_all [OF iso] by simp
  qed
  have "weighted W g \<longleftrightarrow> weighted W f"
  proof -
    have "(\<exists>s < NumStates g. nontrivial W (Final g s)) \<longleftrightarrow> (\<exists>s < NumStates f. nontrivial W (Final f s))"
      using iso_all [OF iso, of "\<lambda>s. \<not> nontrivial W (Final g s)"] obs by auto
    then show ?thesis by (simp add: weighted_def tr case_prod_beta)
  qed
  moreover have "weighted_cycles W g \<longleftrightarrow> weighted_cycles W f"
    unfolding weighted_cycles_def tr using src reach(1) by (auto simp: Bex_def) blast+
  moreover have "holds W g InitialCyclic \<longleftrightarrow> holds W f InitialCyclic"
    using iso wf_start [OF wf] reach(2) by (cases "start f") (auto simp: state_iso_def)
  ultimately show ?thesis
    using t acc co iso_cyclic [OF iso wf] obs
    by (cases t) (simp_all add: tr case_prod_beta iso_all [OF iso] lab del: map_map)
qed

section \<open>The loop of StateSort\<close>

text \<open>
  \<open>sorting f p D v\<close>: the states in \<open>D\<close> have been moved, every state that was not overwritten is
  as in \<open>f\<close>, and the buffer holds the state that is moved next.
\<close>

definition sort_content :: "'w vfst \<Rightarrow> (nat \<Rightarrow> nat) \<Rightarrow> nat set \<Rightarrow> 'w vfst \<Rightarrow> bool" where
  "sort_content f p D h \<longleftrightarrow> wf_fst h \<and> NumStates h = NumStates f \<and> start h = map_option p (start f) \<and>
     (\<forall>u \<in> D. Arcs h (p u) = map (retarget p) (Arcs f u) \<and> Final h (p u) = Final f u) \<and>
     (\<forall>t < NumStates f. t \<notin> p ` D \<longrightarrow> Arcs h t = Arcs f t \<and> Final h t = Final f t)"

definition sort_inv :: "'w vfst \<Rightarrow> (nat \<Rightarrow> nat) \<Rightarrow> 'w sort_vars \<Rightarrow> bool" where
  "sort_inv f p v \<longleftrightarrow>
     (let D = {s. s < NumStates f \<and> is_done v ! s}
      in length (is_done v) = NumStates f \<and> s1 v < NumStates f \<and> sort_content f p D (sort_fst v) \<and>
         p ` D \<subseteq> insert (s1 v) D \<and>
         (\<not> is_done v ! s1 v \<longrightarrow> final1 v = Final f (s1 v) \<and> arcsa v = Arcs f (s1 v)))"

definition write_state ::
  "('w, 'z) weight_ops_scheme \<Rightarrow> (nat \<Rightarrow> nat) \<Rightarrow> nat \<Rightarrow> 'w \<Rightarrow> 'w arc list \<Rightarrow> 'w vfst \<Rightarrow> 'w vfst" where
  "write_state W p s w as f = fold (\<lambda>arc. AddArc W s (retarget p arc)) as (DeleteAllArcs s (SetFinal W s w f))"

lemma write_state_obs:
  assumes wf: "wf_fst f" and s: "s < NumStates f" and as: "\<forall>a \<in> set as. p (nextstate a) < NumStates f"
  shows "wf_fst (write_state W p s w as f)" "start (write_state W p s w as f) = start f"
    "NumStates (write_state W p s w as f) = NumStates f"
    "r < NumStates f \<Longrightarrow> Final (write_state W p s w as f) r = (if r = s then w else Final f r)"
    "r < NumStates f \<Longrightarrow> Arcs (write_state W p s w as f) r = (if r = s then map (retarget p) as else Arcs f r)"
proof -
  let ?f = "SetFinal W s w f"
  have f: "wf_fst ?f" "NumStates ?f = NumStates f" "start ?f = start f" "Arcs ?f r = Arcs f r"
    "r < NumStates f \<Longrightarrow> Final ?f r = (if r = s then w else Final f r)" for r
    using wf s wf_ops(2) [OF wf s] by (auto simp: NumStates_def Arcs_def Final_def nth_list_update)
  note d = DeleteAllArcs_obs [OF f(1) s [folded f(2)]]
  have e: "write_state W p s w as f = fold (AddArc W s) (map (retarget p) as) (DeleteAllArcs s ?f)"
    by (simp add: write_state_def fold_map comp_def)
  note o = add_arcs_obs [of "DeleteAllArcs s ?f" s "map (retarget p) as" W, folded e]
  show "wf_fst (write_state W p s w as f)" "start (write_state W p s w as f) = start f"
    "NumStates (write_state W p s w as f) = NumStates f"
    "r < NumStates f \<Longrightarrow> Final (write_state W p s w as f) r = (if r = s then w else Final f r)"
    "r < NumStates f \<Longrightarrow> Arcs (write_state W p s w as f) r = (if r = s then map (retarget p) as else Arcs f r)"
    using o d f s as by (simp_all add: Let_def)
qed

lemma sort_step_eq:
  "sort_step W order v =
     (let s2 = order_at order (s1 v);
          v = (if \<not> is_done v ! s2 then v\<lparr>final2 := Final (sort_fst v) s2, arcsb := Arcs (sort_fst v) s2\<rparr> else v)
      in v\<lparr>sort_fst := write_state W (order_at order) s2 (final1 v) (arcsa v) (sort_fst v),
           is_done := (is_done v)[s1 v := True], s1 := s2, final1 := final2 v, arcsa := arcsb v, arcsb := arcsa v\<rparr>)"
  by (simp add: sort_step_def write_state_def retarget_def Let_def)

lemma sort_step_sel:
  "sort_fst (sort_step W order v) = write_state W (order_at order) (order_at order (s1 v)) (final1 v) (arcsa v) (sort_fst v)"
  "is_done (sort_step W order v) = (is_done v)[s1 v := True]" "s1 (sort_step W order v) = order_at order (s1 v)"
  "\<not> is_done v ! order_at order (s1 v) \<Longrightarrow> final1 (sort_step W order v) = Final (sort_fst v) (order_at order (s1 v)) \<and>
     arcsa (sort_step W order v) = Arcs (sort_fst v) (order_at order (s1 v))"
  by (simp_all add: sort_step_eq Let_def)

lemma sort_step_inv:
  assumes wf: "wf_fst f" and perm: "permutes_states order (NumStates f)" and inv: "sort_inv f (order_at order) v"
    and nd: "\<not> is_done v ! s1 v"
  shows "sort_inv f (order_at order) (sort_step W order v)"
proof -
  let ?n = "NumStates f" let ?p = "order_at order" let ?h = "sort_fst v" let ?s = "s1 v" let ?w = "sort_step W order v"
  define D where "D = {s. s < ?n \<and> is_done v ! s}"
  have I: "length (is_done v) = ?n" "?s < ?n" "sort_content f ?p D ?h" "?p ` D \<subseteq> insert ?s D"
    "final1 v = Final f ?s" "arcsa v = Arcs f ?s"
    using inv nd by (simp_all add: sort_inv_def Let_def D_def)
  have C: "wf_fst ?h" "NumStates ?h = ?n" "start ?h = map_option ?p (start f)"
    "\<forall>u \<in> D. Arcs ?h (?p u) = map (retarget ?p) (Arcs f u) \<and> Final ?h (?p u) = Final f u"
    "\<forall>t < ?n. t \<notin> ?p ` D \<longrightarrow> Arcs ?h t = Arcs f t \<and> Final ?h t = Final f t"
    using I(3) by (simp_all add: sort_content_def)
  have inj: "inj_on ?p {..<?n}" and less: "\<And>s. s < ?n \<Longrightarrow> ?p s < ?n"
    using perm by (auto simp: permutes_states_def bij_betw_def)
  have ps: "?p ?s < ?n" using less I(2) by simp
  have fresh: "?p ?s \<noteq> ?p u" if "u \<in> D" for u
    using inj that nd I(2) by (auto simp: D_def inj_on_def)
  have "\<forall>a \<in> set (arcsa v). ?p (nextstate a) < NumStates ?h"
    using less wf_target [OF wf I(2)] by (simp add: I(6) C(2))
  note o = write_state_obs [where p = ?p and as = "arcsa v" and W = W and w = "final1 v", OF C(1) ps [folded C(2)] this,
      folded sort_step_sel(1) [of W], unfolded C(2)]
  have D': "{s. s < ?n \<and> is_done ?w ! s} = insert ?s D"
    using I(1,2) by (auto simp: sort_step_sel D_def nth_list_update)
  have "Arcs (sort_fst ?w) (?p u) = map (retarget ?p) (Arcs f u) \<and> Final (sort_fst ?w) (?p u) = Final f u"
    if "u \<in> insert ?s D" for u
  proof (cases "u = ?s")
    case True
    then show ?thesis using o(4,5) [OF ps] by (simp add: I)
  next
    case False
    then have u: "u \<in> D" "?p u < ?n" using that less by (auto simp: D_def)
    then show ?thesis using o(4,5) [OF u(2)] C(4) fresh [OF u(1)] by simp
  qed
  moreover have "Arcs (sort_fst ?w) t = Arcs f t \<and> Final (sort_fst ?w) t = Final f t"
    if "t < ?n" "t \<notin> ?p ` insert ?s D" for t
    using that o(4,5) [OF that(1)] C(5) by auto
  ultimately have content: "sort_content f ?p (insert ?s D) (sort_fst ?w)"
    using o(1-3) C(3) by (simp add: sort_content_def)
  have buf: "final1 ?w = Final f (?p ?s) \<and> arcsa ?w = Arcs f (?p ?s)" if "\<not> is_done ?w ! ?p ?s"
  proof -
    have "\<not> is_done v ! ?p ?s" using that I(1,2) ps by (auto simp: sort_step_sel nth_list_update split: if_splits)
    then show ?thesis using sort_step_sel(4) [of v order W] C(5) ps fresh by auto
  qed
  have "?p ` insert ?s D \<subseteq> insert (?p ?s) (insert ?s D)" using I(4) by auto
  then show ?thesis
    using I(1) ps content buf unfolding sort_inv_def Let_def D' sort_step_sel(3) by (simp add: sort_step_sel(2))
qed

lemma sort_cycle_returns:
  assumes wf: "wf_fst f" and perm: "permutes_states order (NumStates f)" and inv: "sort_inv f (order_at order) v"
  shows "\<exists>w. sort_cycle W order v = Some w \<and> sort_inv f (order_at order) w \<and> is_done w ! s1 w \<and>
    (\<forall>s < NumStates f. is_done v ! s \<longrightarrow> is_done w ! s) \<and> is_done w ! s1 v"
  using inv
proof (induction "card {s. s < NumStates f \<and> \<not> is_done v ! s}" arbitrary: v rule: less_induct)
  case less
  show ?case
  proof (cases "is_done v ! s1 v")
    case True
    then show ?thesis using less.prems by (subst sort_cycle.simps) simp
  next
    case False
    let ?v = "sort_step W order v"
    have l: "length (is_done v) = NumStates f" "s1 v < NumStates f" using less.prems by (simp_all add: sort_inv_def Let_def)
    have eq: "{s. s < NumStates f \<and> \<not> is_done ?v ! s} = {s. s < NumStates f \<and> \<not> is_done v ! s} - {s1 v}"
      using l by (auto simp: sort_step_sel nth_list_update split: if_splits)
    have "card {s. s < NumStates f \<and> \<not> is_done ?v ! s} < card {s. s < NumStates f \<and> \<not> is_done v ! s}"
      unfolding eq using False l by (intro card_Diff1_less) auto
    from less.hyps [OF this sort_step_inv [OF wf perm less.prems False]]
    obtain w where w: "sort_cycle W order ?v = Some w" "sort_inv f (order_at order) w" "is_done w ! s1 w"
      "\<forall>s < NumStates f. is_done ?v ! s \<longrightarrow> is_done w ! s" by blast
    have "is_done ?v ! s1 v" "\<forall>s < NumStates f. is_done v ! s \<longrightarrow> is_done ?v ! s"
      using l by (auto simp: sort_step_sel nth_list_update)
    then show ?thesis using w False l by (subst sort_cycle.simps) auto
  qed
qed

text \<open>Between two cycles the set of moved states is closed under the permutation.\<close>

definition sort_idle :: "'w vfst \<Rightarrow> (nat \<Rightarrow> nat) \<Rightarrow> 'w sort_vars \<Rightarrow> bool" where
  "sort_idle f p v \<longleftrightarrow>
     (let D = {s. s < NumStates f \<and> is_done v ! s}
      in length (is_done v) = NumStates f \<and> sort_content f p D (sort_fst v) \<and> p ` D \<subseteq> D)"

lemma sort_state_returns:
  assumes wf: "wf_fst f" and perm: "permutes_states order (NumStates f)" and idle: "sort_idle f (order_at order) v"
    and s: "s < NumStates f"
  shows "\<exists>w. sort_state W order s v = Some w \<and> sort_idle f (order_at order) w \<and> is_done w ! s \<and>
    (\<forall>s < NumStates f. is_done v ! s \<longrightarrow> is_done w ! s)"
proof (cases "is_done v ! s")
  case True
  then show ?thesis using idle by (simp add: sort_state_def)
next
  case False
  let ?v = "v\<lparr>s1 := s, final1 := Final (sort_fst v) s, final2 := Zero W, arcsa := Arcs (sort_fst v) s\<rparr>"
  have "s \<notin> order_at order ` {s. s < NumStates f \<and> is_done v ! s}"
    using False idle unfolding sort_idle_def Let_def by blast
  then have "Arcs (sort_fst v) s = Arcs f s" "Final (sort_fst v) s = Final f s"
    using idle s unfolding sort_idle_def sort_content_def Let_def by auto
  then have "sort_inv f (order_at order) ?v"
    using idle s unfolding sort_idle_def sort_inv_def Let_def by auto
  from sort_cycle_returns [OF wf perm this, of W]
  obtain w where w: "sort_cycle W order ?v = Some w" "sort_inv f (order_at order) w" "is_done w ! s1 w"
    "\<forall>s < NumStates f. is_done v ! s \<longrightarrow> is_done w ! s" "is_done w ! s" by auto
  have "sort_idle f (order_at order) w"
    using w(2,3) unfolding sort_inv_def sort_idle_def Let_def by auto
  then show ?thesis using w False by (auto simp: sort_state_def)
qed

lemma sort_states_returns:
  assumes wf: "wf_fst f" and perm: "permutes_states order (NumStates f)" and idle: "sort_idle f (order_at order) v"
    and ss: "set ss \<subseteq> {..<NumStates f}"
  shows "\<exists>w. sort_states W order ss v = Some w \<and> sort_idle f (order_at order) w \<and> (\<forall>s \<in> set ss. is_done w ! s) \<and>
    (\<forall>s < NumStates f. is_done v ! s \<longrightarrow> is_done w ! s)"
  using idle ss
proof (induction ss arbitrary: v)
  case (Cons s ss)
  have s: "s < NumStates f" using Cons.prems by simp
  obtain u where u: "sort_state W order s v = Some u" "sort_idle f (order_at order) u" "is_done u ! s"
    "\<forall>s < NumStates f. is_done v ! s \<longrightarrow> is_done u ! s"
    using sort_state_returns [OF wf perm Cons.prems(1) s, of W] by blast
  obtain w where "sort_states W order ss u = Some w" "sort_idle f (order_at order) w" "\<forall>s \<in> set ss. is_done w ! s"
    "\<forall>s < NumStates f. is_done u ! s \<longrightarrow> is_done w ! s"
    using Cons.IH [OF u(2)] Cons.prems by auto
  then show ?case using u s by auto
qed simp

theorem StateSort_spec:
  assumes wf: "wf_fst f" and perm: "permutes_states order (NumStates f)" and st: "start f = Some st"
  obtains h where "StateSort W order f = Some (SetPropertiesMask (Properties f kStateSortProperties) kFstProperties h)"
    "state_iso (order_at order) f h" "wf_fst h"
proof -
  let ?p = "order_at order" let ?n = "NumStates f"
  let ?v = "\<lparr>sort_fst = SetStart (order ! st) f, is_done = replicate (length order) False, s1 = 0,
     final1 = Zero W, final2 = Zero W, arcsa = [], arcsb = []\<rparr>"
  have p: "length order = ?n" "bij_betw ?p {..<?n} {..<?n}" "order ! st = Some (?p st)" "?p st < ?n"
    using perm wf_start [OF wf st] by (auto simp: permutes_states_def order_at_def bij_betw_def)
  have "wf_fst (SetStart (order ! st) f)" using p wf by (intro wf_ops(4)) auto
  then have "sort_content f ?p {} (SetStart (order ! st) f)"
    using p st by (auto simp: sort_content_def NumStates_def Arcs_def Final_def)
  then have "sort_idle f ?p ?v" by (simp add: sort_idle_def p(1) Let_def cong: conj_cong)
  from sort_states_returns [OF wf perm this, of "[0 ..< ?n]" W]
  obtain w where w: "sort_states W order [0 ..< ?n] ?v = Some w" "sort_idle f ?p w" "\<forall>s < ?n. is_done w ! s"
    by (auto simp: Ball_def subset_iff)
  have "{s. s < ?n \<and> is_done w ! s} = {..<?n}" using w(3) by auto
  then have c: "sort_content f ?p {..<?n} (sort_fst w)" using w(2) by (simp add: sort_idle_def Let_def)
  show thesis
  proof (rule that [of "sort_fst w"])
    show "StateSort W order f = Some (SetPropertiesMask (Properties f kStateSortProperties) kFstProperties (sort_fst w))"
      using w(1) p(1) st by (simp add: StateSort_def Let_def)
    show "state_iso ?p f (sort_fst w)" using c p(2) by (simp add: sort_content_def state_iso_def)
    show "wf_fst (sort_fst w)" using c by (simp add: sort_content_def)
  qed
qed

section \<open>TopSort\<close>

lemma iso_SetPropertiesMask [simp]: "state_iso p f (SetPropertiesMask q m g) = state_iso p f g"
  by (simp add: state_iso_def NumStates_def Arcs_def Final_def)

lemma bit_kStateSortProperties:
  "bit kStateSortProperties (pos_bit t) \<longleftrightarrow> t \<noteq> TopSorted \<and> t \<noteq> IsString"
  "bit kStateSortProperties (Suc (pos_bit t)) \<longleftrightarrow> t \<noteq> TopSorted \<and> t \<noteq> IsString"
  by (cases t; simp add: prop_bits)+

lemma StateSort_sound:
  assumes "state_iso p f h" "wf_fst f" "props_sound W f (properties f)"
  shows "props_sound W h (Properties f kStateSortProperties)"
proof (rule props_soundI)
  fix t
  note I = iso_holds [OF assms(1,2), of t W] and P = props_soundD [OF assms(3), of t]
  { assume "bit (Properties f kStateSortProperties) (pos_bit t)"
    then show "holds W h t" using I P by (simp add: Properties_def bit_and_iff bit_kStateSortProperties del: holds.simps pos_bit.simps) }
  { assume "bit (Properties f kStateSortProperties) (Suc (pos_bit t))"
    then show "\<not> holds W h t" using I P by (simp add: Properties_def bit_and_iff bit_kStateSortProperties del: holds.simps pos_bit.simps) }
qed

lemma fst_ok_StateSort:
  assumes "state_iso p f h" "wf_fst h" "fst_ok W f"
  shows "fst_ok W (SetPropertiesMask (Properties f kStateSortProperties) kFstProperties h)"
proof -
  have f: "wf_fst f" "props_sound W f (properties f)" "bit (properties f) 0" "bit (properties f) 1"
    using assms(3) by (simp_all add: fst_ok_def)
  have "bit (Properties f kStateSortProperties) n" if "n \<in> {0, 1}" for n
    using that f(3,4) by (auto simp: Properties_def prop_bits)
  then show ?thesis
    using StateSort_sound [OF assms(1) f(1,2)] props_sound_SetPropertiesMask [of W h] assms(2)
    by (simp add: fst_ok_def static_ops)
qed

lemma iso_topsorted:
  assumes "topological f order" "state_iso (order_at order) f g"
  shows "holds W g TopSorted"
proof -
  have "order_at order s < order_at order (nextstate a)" if "(s, a) \<in> trans f" for s a
    using assms(1) edgesI [OF that] unfolding topological_def by blast
  then show ?thesis by (auto simp: iso_trans [OF assms(2)])
qed

text \<open>Bits that are true may be added to the stored properties.\<close>

lemma fst_ok_add_bits:
  assumes "fst_ok W f" "props_sound W f q" "\<not> bit q 0" "\<not> bit q 1"
  shows "fst_ok W (SetPropertiesMask q q f)"
proof -
  have e: "properties (SetPropertiesMask q q f) = properties f AND (NOT q OR kError) OR q"
    by (simp add: SetPropertiesMask_def)
  have "props_sound W (SetPropertiesMask q q f) (properties (SetPropertiesMask q q f))"
    unfolding e props_sound_SetPropertiesMask_iff using assms(1,2) by (auto simp: fst_ok_def props_sound_def bit_or_iff bit_and_iff)
  then show ?thesis
    using assms unfolding fst_ok_def e by (auto simp: bit_or_iff bit_and_iff bit_not_iff)
qed

abbreviation top_sorted_bits :: props where
  "top_sorted_bits \<equiv> kAcyclic OR kInitialAcyclic OR kTopSorted"

abbreviation cyclic_bits :: props where
  "cyclic_bits \<equiv> kCyclic OR kNotTopSorted"

lemma top_sorted_bits_sound:
  assumes "holds W f TopSorted"
  shows "props_sound W f top_sorted_bits"
proof (rule props_soundI)
  fix t
  have "(s, s) \<notin> (edges f)\<^sup>+" for s using topsorted_acyclic [OF assms] .
  then have "\<not> holds W f Cyclic" "\<not> holds W f InitialCyclic" by auto
  then show "bit top_sorted_bits (pos_bit t) \<Longrightarrow> holds W f t" "bit top_sorted_bits (Suc (pos_bit t)) \<Longrightarrow> \<not> holds W f t"
    using assms by (cases t; simp add: prop_bits del: holds.simps)+
qed

lemma cyclic_bits_sound:
  assumes "(s, s) \<in> (edges f)\<^sup>+"
  shows "props_sound W f cyclic_bits"
proof (rule props_soundI)
  fix t
  have "\<not> holds W f TopSorted" "holds W f Cyclic" using assms topsorted_acyclic [of W f s] by (blast, auto)
  then show "bit cyclic_bits (pos_bit t) \<Longrightarrow> holds W f t" "bit cyclic_bits (Suc (pos_bit t)) \<Longrightarrow> \<not> holds W f t"
    by (cases t; simp add: prop_bits del: holds.simps)+
qed

theorem TopSort_spec:
  assumes wf: "wf_fst f" and st: "start f = Some st"
  obtains (sorted) p h where "\<not> holds W f Cyclic" "state_iso p f h" "wf_fst h" "holds W h TopSorted"
      "TopSort W f = Some (True, SetPropertiesMask top_sorted_bits top_sorted_bits
         (SetPropertiesMask (Properties f kStateSortProperties) kFstProperties h))"
  | (cyclic) "holds W f Cyclic" "TopSort W f = Some (False, SetPropertiesMask cyclic_bits cyclic_bits f)"
proof -
  obtain u where u: "DfsVisit f TopOrderVisitor AnyArcFilter False \<lparr>order_vec = [], is_acyclic = False, finish = []\<rparr> = Some u"
    "is_acyclic u \<longleftrightarrow> \<not> (\<exists>s. (s, s) \<in> (edges f)\<^sup>+)" "is_acyclic u \<Longrightarrow> topological f (order_vec u)"
    using top_order_visit [OF wf st] by blast
  show thesis
  proof (cases "is_acyclic u")
    case True
    note top = u(3) [OF True]
    then have "permutes_states (order_vec u) (NumStates f)" by (simp add: topological_def)
    then obtain h where h: "StateSort W (order_vec u) f = Some (SetPropertiesMask (Properties f kStateSortProperties) kFstProperties h)"
      "state_iso (order_at (order_vec u)) f h" "wf_fst h" by (rule StateSort_spec [OF wf _ st])
    show ?thesis
    proof (rule sorted [OF _ h(2,3) iso_topsorted [OF top h(2)]])
      show "\<not> holds W f Cyclic" using True u(2) by simp
    qed (simp add: TopSort_def u(1) True h(1))
  next
    case False
    then show ?thesis using cyclic u(2) by (simp add: TopSort_def u(1))
  qed
qed

lemma added_bits_static:
  "\<not> bit top_sorted_bits 0" "\<not> bit top_sorted_bits 1" "\<not> bit cyclic_bits 0" "\<not> bit cyclic_bits 1"
  by (simp_all add: prop_bits)

theorem TopSort_ok:
  assumes ok: "fst_ok W f" and st: "start f = Some st"
  obtains b g where "TopSort W f = Some (b, g)" "fst_ok W g"
proof -
  have wf: "wf_fst f" using ok by (simp add: fst_ok_def)
  from wf st show thesis
  proof (cases rule: TopSort_spec [where W = W])
    case (sorted p h)
    let ?g = "SetPropertiesMask (Properties f kStateSortProperties) kFstProperties h"
    have "fst_ok W ?g" using sorted ok by (intro fst_ok_StateSort)
    moreover have "holds W ?g TopSorted \<longleftrightarrow> holds W h TopSorted" by (rule holds_cong) simp_all
    ultimately show ?thesis
      using that [OF sorted(5)] fst_ok_add_bits [OF _ top_sorted_bits_sound added_bits_static(1,2)] sorted(4) by blast
  next
    case cyclic
    then obtain s where "(s, s) \<in> (edges f)\<^sup>+" by auto
    then show ?thesis
      using that [OF cyclic(2)] fst_ok_add_bits [OF ok cyclic_bits_sound added_bits_static(3,4)] by blast
  qed
qed

lemma iso_transduces_iff:
  assumes "state_iso p f g" "wf_fst f"
  shows "transduces W g x y w \<longleftrightarrow> transduces W f x y w"
  using iso_transduces [OF assms(1)] iso_transduces [OF iso_sym [OF assms]] by blast

text \<open>Without a start state no state is visited.\<close>

lemma TopSort_no_start:
  "start f = None \<Longrightarrow> TopSort W f =
     Some (True, SetPropertiesMask top_sorted_bits top_sorted_bits
                   (if NumStates f = 0 then f else SetPropertiesMask kError kError f))"
  by (simp add: TopSort_def DfsVisit_def StateSort_def finish_order_def)

end
