(* ===== verification/ConnectLaws.thy ===== *)
theory ConnectLaws
  imports SccLaws StateSortLaws
begin

text \<open>
  After a visit by \<open>SccVisitor\<close> the vectors are right; \<open>Connect\<close> keeps exactly the states on a
  successful path and the transduction; \<open>Condense\<close> has one state for each strongly connected
  component and exactly the arcs between different components, so it is acyclic.
\<close>

unbundle bit_operations_syntax

section \<open>The result of the visit\<close>

definition same_component :: "'w vfst \<Rightarrow> nat \<Rightarrow> nat \<Rightarrow> bool" where
  "same_component f s t \<longleftrightarrow> (s, t) \<in> (edges f)\<^sup>* \<and> (t, s) \<in> (edges f)\<^sup>*"

lemma scc_init:
  assumes st: "start f = Some st" and v: "state_color v = replicate (NumStates f) kWhite" "state_stack v = []" "dfs v"
    "visitor_state v = InitVisit (SccVisitor W) f u0"
  shows "(scc_inv W f v \<and> acc_inv f st v) \<and> wants (visitor_state v) = wants u0"
proof -
  let ?\<sigma> = "\<lparr>greys = [], disc = {}, procd = {}, num = (\<lambda>_. 0), low = (\<lambda>_. 0), sstack = [], coacc = (\<lambda>_. False),
     comp_of = (\<lambda>_. 0), ncomp = 0\<rparr>"
  have d: "discovered v = {}" "examined f v = {}" using v(1,2) by (auto simp: discovered_def examined_def)
  have "tarjan_inv (edges f) (finals W f) ?\<sigma>"
    by (simp add: tarjan_inv_def t_shape_def t_links_def t_cover_def t_coacc_def t_comps_def)
  moreover have "scc_rel f v ?\<sigma>"
    by (rule scc_relI [OF refl, where n = 0]) (simp_all add: v d scc_InitVisit_def scc_lens_def)
  ultimately show ?thesis
    using d v st by (auto simp: scc_inv_def acc_inv_def wants_def scc_InitVisit_def)
qed

theorem scc_visit:
  assumes wf: "wf_fst f" and st: "start f = Some st"
  obtains u where "DfsVisit f (SccVisitor W) AnyArcFilter False u0 = Some u"
    "access u0 \<noteq> None \<Longrightarrow> length (the (access u)) = NumStates f \<and> (\<forall>s < NumStates f. the (access u) ! s = reachable f s)"
    "length (coaccess u) = NumStates f" "\<And>s. s < NumStates f \<Longrightarrow> coaccess u ! s \<longleftrightarrow> s \<in> coaccs (edges f) (finals W f)"
    "scc u0 \<noteq> None \<Longrightarrow> length (the (scc u)) = NumStates f"
    "\<And>s. scc u0 \<noteq> None \<Longrightarrow> s < NumStates f \<Longrightarrow> 0 \<le> the (scc u) ! s \<and> the (scc u) ! s < nscc u"
    "\<And>s t. scc u0 \<noteq> None \<Longrightarrow> s < NumStates f \<Longrightarrow> t < NumStates f \<Longrightarrow> the (scc u) ! s = the (scc u) ! t \<longleftrightarrow> same_component f s t"
    "\<And>s t. scc u0 \<noteq> None \<Longrightarrow> (s, t) \<in> edges f \<Longrightarrow> the (scc u) ! s \<le> the (scc u) ! t"
    "\<And>c. scc u0 \<noteq> None \<Longrightarrow> 0 \<le> c \<Longrightarrow> c < nscc u \<Longrightarrow> \<exists>s < NumStates f. the (scc u) ! s = c"
proof -
  let ?n = "NumStates f"
  have init: "(scc_inv W f v \<and> acc_inv f st v) \<and> wants (visitor_state v) = wants u0"
    if "state_color v = replicate ?n kWhite" "state_stack v = []" "dfs v" "visitor_state v = InitVisit (SccVisitor W) f u0" for v
    using scc_init [OF st that] .
  obtain w r where w: "DfsVisit f (SccVisitor W) AnyArcFilter False u0 = Some (scc_FinishVisit (visitor_state w))"
      "dfs_ok f AnyArcFilter w" "scc_inv W f w" "acc_inv f r w" "wants (visitor_state w) = wants u0" "state_stack w = []" "dfs w \<longrightarrow> whites w = {}"
    using scc.visit_returns [OF wf _ st, where u = u0 and r = st and ao = False and W = W and b = "wants u0"] init by auto
  define u where "u = visitor_state w"
  obtain \<sigma> where \<sigma>: "tarjan_inv (edges f) (finals W f) \<sigma>" "scc_rel f w \<sigma>" using w(3) by (auto simp: scc_inv_def)
  note R = scc_relD [OF \<sigma>(2) u_def refl]
  have dis: "discovered w = {..<?n}" using w(2,7) R(12) by (auto simp: discovered_def whites_def dfs_ok_def)
  have len: "length (dfnumber u) = ?n"
    using R(7) R(2,8) dis by (cases "?n") (auto simp: lessThan_Suc)
  have sl: "scc_lens u ?n" using R(6) len by simp
  have g: "greys \<sigma> = []" using R(1) w(6) by simp
  note T = tarjan_result [OF \<sigma>(1) g]
  have D: "s \<in> disc \<sigma>" if "s < ?n" for s using that dis R(2) by simp
  have ss: "sstack \<sigma> = []" using \<sigma>(1) g unfolding tarjan_inv_def t_links_def by (cases "sstack \<sigma>") auto
  let ?u = "scc_FinishVisit u"
  have C: "the (scc ?u) ! s = nscc u - 1 - comp_of \<sigma> s" if so: "scc u0 \<noteq> None" and sn: "s < ?n" for s
  proof -
    obtain c where c: "scc u = Some c" using so w(5) by (auto simp: wants_def u_def)
    have "length c = ?n" using sl c by (simp add: scc_lens_def)
    then show ?thesis using R(10) [of s] D [OF sn] ss c sn by (simp add: scc_FinishVisit_def)
  qed
  have nc: "nscc ?u = nscc u" by (simp add: scc_FinishVisit_def)
  show thesis
  proof (rule that [of ?u])
    show "DfsVisit f (SccVisitor W) AnyArcFilter False u0 = Some ?u" using w(1) by (simp add: u_def)
    show "length (the (access ?u)) = ?n \<and> (\<forall>s < ?n. the (access ?u) ! s = reachable f s)" if "access u0 \<noteq> None"
    proof -
      have a: "access u \<noteq> None" using that w(5) by (auto simp: wants_def u_def)
      then have "length (the (access u)) = ?n" using sl by (auto simp: scc_lens_def)
      then show ?thesis using a w(4) dis by (auto simp: acc_inv_def u_def scc_FinishVisit_def)
    qed
    show "length (coaccess ?u) = ?n" using sl by (simp add: scc_lens_def scc_FinishVisit_def)
    show "coaccess ?u ! s \<longleftrightarrow> s \<in> coaccs (edges f) (finals W f)" if "s < ?n" for s
      using T(1) [OF D [OF that]] R(9) [OF D [OF that]] by (simp add: scc_FinishVisit_def)
    show "length (the (scc ?u)) = ?n" if "scc u0 \<noteq> None"
      using that w(5) sl by (auto simp: wants_def u_def scc_lens_def scc_FinishVisit_def)
    show "0 \<le> the (scc ?u) ! s \<and> the (scc ?u) ! s < nscc ?u" if "scc u0 \<noteq> None" "s < ?n" for s
      using C [OF that] T(4) [OF D [OF that(2)]] R(5) nc by simp
    show "the (scc ?u) ! s = the (scc ?u) ! t \<longleftrightarrow> same_component f s t" if "scc u0 \<noteq> None" "s < ?n" "t < ?n" for s t
      using C [OF that(1,2)] C [OF that(1,3)] T(2) [OF D [OF that(2)] D [OF that(3)]] by (simp add: same_component_def)
    show "the (scc ?u) ! s \<le> the (scc ?u) ! t" if "scc u0 \<noteq> None" "(s, t) \<in> edges f" for s t
    proof -
      have "s < ?n" "t < ?n" using that(2) wf_trans [OF wf] by (auto simp: edges_iff trans_iff)
      then show ?thesis using C that T(3) [OF D D that(2)] by simp
    qed
    show "\<exists>s < ?n. the (scc ?u) ! s = c" if so: "scc u0 \<noteq> None" and c: "0 \<le> c" "c < nscc ?u" for c
    proof -
      obtain x where x: "x \<in> disc \<sigma>" "comp_of \<sigma> x = nscc u - 1 - c" using T(5) [of "nscc u - 1 - c"] c R(5) nc by auto
      then have "x < ?n" using dis R(2) by auto
      then show ?thesis using C [OF so] x(2) by auto
    qed
  qed
qed

section \<open>Deleting states off the successful paths\<close>

lemma DeleteStates_view:
  fixes ds :: "nat list" and f :: "'a vfst"
  assumes wf: "wf_fst f"
  defines "keep \<equiv> kept ds (NumStates f)"
  shows "NumStates (DeleteStates ds f) = length keep"
    "k < length keep \<Longrightarrow> Final (DeleteStates ds f) k = Final f (keep ! k)"
    "k < length keep \<Longrightarrow> Arcs (DeleteStates ds f) k =
      map (retarget (rank ds)) (filter (\<lambda>a. nextstate a \<notin> set ds) (Arcs f (keep ! k)))"
    "start (DeleteStates ds f) = (case start f of None \<Rightarrow> None | Some s \<Rightarrow> if s \<in> set ds then None else Some (rank ds s))"
proof -
  have "NumStates (DeleteStates ds f) = length keep \<and>
    (k < length keep \<longrightarrow> Final (DeleteStates ds f) k = Final f (keep ! k)) \<and>
    (k < length keep \<longrightarrow> Arcs (DeleteStates ds f) k =
      map (retarget (rank ds)) (filter (\<lambda>a. nextstate a \<notin> set ds) (Arcs f (keep ! k)))) \<and>
    start (DeleteStates ds f) = (case start f of None \<Rightarrow> None | Some s \<Rightarrow> if s \<in> set ds then None else Some (rank ds s))"
  proof (cases "ds = []")
    case True
    have "retarget (rank []) a = a" for a :: "'a arc" by (simp add: retarget_def rank_def kept_def)
    then have "map (retarget (rank [])) as = as" for as :: "'a arc list" by (simp add: map_idI)
    moreover have "keep = [0 ..< NumStates f]" by (simp add: keep_def kept_def True)
    ultimately show ?thesis by (auto simp: True DeleteStates_def rank_def kept_def split: option.splits)
  next
    case False
    then show ?thesis
      using DeleteStates_obs [OF wf False] BaseDeleteStates_spec [OF wf False]
      by (simp add: keep_def DeleteStates_def ImplDeleteStates_def Let_def SetProperties_def NumStates_def Final_def Arcs_def)
  qed
  then show "NumStates (DeleteStates ds f) = length keep"
    "k < length keep \<Longrightarrow> Final (DeleteStates ds f) k = Final f (keep ! k)"
    "k < length keep \<Longrightarrow> Arcs (DeleteStates ds f) k =
      map (retarget (rank ds)) (filter (\<lambda>a. nextstate a \<notin> set ds) (Arcs f (keep ! k)))"
    "start (DeleteStates ds f) = (case start f of None \<Rightarrow> None | Some s \<Rightarrow> if s \<in> set ds then None else Some (rank ds s))"
    by blast+
qed

lemma kept_rank:
  assumes "s < n" "s \<notin> set ds"
  shows "rank ds s < length (kept ds n)" "kept ds n ! rank ds s = s"
  using assms rank_less [OF assms] nth_kept_rank [OF assms] by (simp_all add: rank_def kept_def)

lemma trans_DeleteStates_I:
  assumes wf: "wf_fst f" and e: "(s, a) \<in> trans f" and s: "s \<notin> set ds" "nextstate a \<notin> set ds"
  shows "(rank ds s, retarget (rank ds) a) \<in> trans (DeleteStates ds f)"
proof -
  have "s < NumStates f" using e by (simp add: trans_iff)
  note k = kept_rank [OF this s(1)]
  show ?thesis using e s k by (simp add: trans_iff DeleteStates_view [OF wf])
qed

lemma trans_DeleteStates_D:
  assumes wf: "wf_fst f" and e: "(k, b) \<in> trans (DeleteStates ds f)"
  shows "(kept ds (NumStates f) ! k, retarget (\<lambda>k. kept ds (NumStates f) ! k) b) \<in> trans f"
proof -
  let ?K = "kept ds (NumStates f)"
  have k: "k < length ?K" using e by (simp add: trans_iff DeleteStates_view [OF wf])
  then have kn: "?K ! k < NumStates f" using nth_mem [OF k] by simp
  obtain a where a: "a \<in> set (Arcs f (?K ! k))" "nextstate a \<notin> set ds" "b = retarget (rank ds) a"
    using e k by (auto simp: trans_iff DeleteStates_view [OF wf])
  then have "nextstate a < NumStates f" using wf_target [OF wf kn] by blast
  then have "retarget (\<lambda>k. ?K ! k) b = a" using a kept_rank(2) by (simp add: retarget_def)
  then show ?thesis using a(1) kn by (simp add: trans_iff)
qed

text \<open>The states that \<open>Connect\<close> keeps.\<close>

definition useful :: "('w, 'z) weight_ops_scheme \<Rightarrow> 'w vfst \<Rightarrow> nat \<Rightarrow> bool" where
  "useful W f s \<longleftrightarrow> reachable f s \<and> s \<in> coaccs (edges f) (finals W f)"

lemma reachable_step: "reachable f s \<Longrightarrow> (s, t) \<in> (edges f)\<^sup>* \<Longrightarrow> reachable f t"
  unfolding reachable_def by (meson rtrancl_trans)

lemma useful_path:
  assumes wf: "wf_fst f" and ds: "\<And>s. useful W f s \<Longrightarrow> s \<notin> set ds"
  shows "path f s as t \<Longrightarrow> reachable f s \<Longrightarrow> t \<in> coaccs (edges f) (finals W f) \<Longrightarrow>
    path (DeleteStates ds f) (rank ds s) (map (retarget (rank ds)) as) (rank ds t)"
proof (induction as arbitrary: s)
  case (Cons a as)
  have e: "(s, a) \<in> trans f" "path f (nextstate a) as t" using Cons.prems by simp_all
  have r: "reachable f (nextstate a)" using reachable_step [OF Cons.prems(2)] edgesI [OF e(1)] by blast
  have "(nextstate a, t) \<in> (edges f)\<^sup>*" using e(2) by (rule path_edges)
  then have c: "nextstate a \<in> coaccs (edges f) (finals W f)" using Cons.prems(3) by (rule coaccs_step)
  then have "s \<in> coaccs (edges f) (finals W f)" using coaccs_step [of s "nextstate a"] edgesI [OF e(1)] by blast
  then have "s \<notin> set ds" "nextstate a \<notin> set ds" using ds r c Cons.prems(2) by (auto simp: useful_def)
  then show ?case using trans_DeleteStates_I [OF wf e(1)] Cons.IH [OF e(2) r Cons.prems(3)] by simp
qed simp

lemma DeleteStates_path:
  assumes wf: "wf_fst f"
  shows "path (DeleteStates ds f) k as m \<Longrightarrow>
    path f (kept ds (NumStates f) ! k) (map (retarget (\<lambda>k. kept ds (NumStates f) ! k)) as) (kept ds (NumStates f) ! m)"
  by (induction as arbitrary: k) (auto dest: trans_DeleteStates_D [OF wf])

lemma final_coaccs: "final_state W f s \<Longrightarrow> s \<in> coaccs (edges f) (finals W f)"
  by (auto simp: coaccs_def finals_def)

lemma final_DeleteStates:
  assumes "wf_fst f" "k < length (kept ds (NumStates f))"
  shows "final_state W (DeleteStates ds f) k \<longleftrightarrow> final_state W f (kept ds (NumStates f) ! k)"
  using assms nth_mem [OF assms(2)] by (simp add: final_state_def DeleteStates_view [OF assms(1)])

theorem DeleteStates_transduces:
  assumes wf: "wf_fst f" and ds: "\<And>s. useful W f s \<Longrightarrow> s \<notin> set ds"
  shows "transduces W (DeleteStates ds f) x y w \<longleftrightarrow> transduces W f x y w"
proof
  let ?g = "DeleteStates ds f" let ?K = "kept ds (NumStates f)"
  assume "transduces W f x y w"
  then obtain i as t where t: "start f = Some i" "path f i as t" "final_state W f t" "x = istring as" "y = ostring as"
    "w = Times W (path_weight W as) (Final f t)" by (auto simp: transduces_def transduces_from_def)
  have ri: "reachable f i" using t(1) by (auto simp: reachable_def)
  have ct: "t \<in> coaccs (edges f) (finals W f)" using t(3) by (rule final_coaccs)
  have "i \<notin> set ds" using ds ri coaccs_step [OF path_edges [OF t(2)] ct] by (auto simp: useful_def)
  then have si: "start ?g = Some (rank ds i)" using t(1) by (simp add: DeleteStates_view(4) [OF wf])
  have "t \<notin> set ds" "t < NumStates f"
    using ds ct reachable_step [OF ri path_edges [OF t(2)]] t(3) by (auto simp: useful_def final_state_def)
  then have k: "rank ds t < length ?K" "?K ! rank ds t = t" using kept_rank by blast+
  have "final_state W ?g (rank ds t)" "Final ?g (rank ds t) = Final f t"
    using final_DeleteStates [OF wf k(1), of W] DeleteStates_view(2) [OF wf k(1)] k(2) t(3) by simp_all
  then show "transduces W ?g x y w"
    using si useful_path [OF wf ds t(2) ri ct] t unfolding transduces_def transduces_from_def
    by (intro exI [of _ "rank ds i"] conjI exI [of _ "map (retarget (rank ds)) as"] exI [of _ "rank ds t"]) simp_all
next
  let ?g = "DeleteStates ds f" let ?K = "kept ds (NumStates f)"
  assume "transduces W ?g x y w"
  then obtain i as t where t: "start ?g = Some i" "path ?g i as t" "final_state W ?g t" "x = istring as" "y = ostring as"
    "w = Times W (path_weight W as) (Final ?g t)" by (auto simp: transduces_def transduces_from_def)
  have tk: "t < length ?K" using t(3) by (simp add: final_state_def DeleteStates_view(1) [OF wf])
  obtain j where j: "start f = Some j" "j \<notin> set ds" "i = rank ds j"
    using t(1) by (auto simp: DeleteStates_view(4) [OF wf] split: option.splits if_splits)
  then have "?K ! i = j" using kept_rank(2) wf_start [OF wf j(1)] by blast
  then show "transduces W f x y w"
    using j(1) DeleteStates_path [OF wf t(2)] final_DeleteStates [OF wf tk, of W] DeleteStates_view(2) [OF wf tk] t
    unfolding transduces_def transduces_from_def
    by (intro exI [of _ j] conjI exI [of _ "map (retarget (\<lambda>k. ?K ! k)) as"] exI [of _ "?K ! t"]) simp_all
qed

text \<open>If exactly the useful states stay, the result is accessible and coaccessible.\<close>

lemma trim_connected:
  assumes wf: "wf_fst f" and ds: "\<And>s. s < NumStates f \<Longrightarrow> s \<notin> set ds \<longleftrightarrow> useful W f s" and sub: "set ds \<subseteq> {..<NumStates f}"
  shows "accessible (DeleteStates ds f)" "coaccessible W (DeleteStates ds f)"
proof -
  let ?g = "DeleteStates ds f" let ?K = "kept ds (NumStates f)"
  have ns: "s \<notin> set ds" if "useful W f s" for s using that ds sub by blast
  have K: "?K ! k < NumStates f" "useful W f (?K ! k)" "rank ds (?K ! k) = k" if "k < NumStates ?g" for k
    using that nth_mem [of k ?K] ds rank_nth_kept [of k ds "NumStates f"] by (auto simp: DeleteStates_view(1) [OF wf] rank_def kept_def)
  show "accessible ?g" unfolding accessible_def
  proof (intro allI impI)
    fix k assume k: "k < NumStates ?g"
    obtain i where i: "start f = Some i" "(i, ?K ! k) \<in> (edges f)\<^sup>*" "?K ! k \<in> coaccs (edges f) (finals W f)"
      using K(2) [OF k] by (auto simp: useful_def reachable_def)
    then obtain as where as: "path f i as (?K ! k)" using edges_path by blast
    have r: "reachable f i" using i(1) by (auto simp: reachable_def)
    have "path ?g (rank ds i) (map (retarget (rank ds)) as) k" using useful_path [OF wf ns as r i(3)] K(3) [OF k] by simp
    moreover have "i \<notin> set ds" using ns r coaccs_step [OF i(2,3)] by (auto simp: useful_def)
    ultimately show "\<exists>i. start ?g = Some i \<and> (i, k) \<in> (edges ?g)\<^sup>*"
      using i(1) path_edges by (auto simp: DeleteStates_view(4) [OF wf])
  qed
  show "coaccessible W ?g" unfolding coaccessible_def
  proof (intro allI impI)
    fix k assume k: "k < NumStates ?g"
    obtain z where z: "final_state W f z" "(?K ! k, z) \<in> (edges f)\<^sup>*" "reachable f (?K ! k)"
      using K(2) [OF k] by (auto simp: useful_def coaccs_def finals_def)
    then obtain as where as: "path f (?K ! k) as z" using edges_path by blast
    have "path ?g k (map (retarget (rank ds)) as) (rank ds z)" using useful_path [OF wf ns as z(3) final_coaccs [OF z(1)]] K(3) [OF k] by simp
    moreover have "z \<notin> set ds" "z < NumStates f"
      using ns reachable_step [OF z(3,2)] z(1) final_coaccs [OF z(1)] by (auto simp: useful_def final_state_def)
    then have "final_state W ?g (rank ds z)" using final_DeleteStates [OF wf] kept_rank z(1) by metis
    ultimately show "\<exists>t. (k, t) \<in> (edges ?g)\<^sup>* \<and> final_state W ?g t" using path_edges by blast
  qed
qed

section \<open>Connect\<close>

abbreviation connected_bits :: props where
  "connected_bits \<equiv> kAccessible OR kCoAccessible"

theorem Connect_spec:
  assumes wf: "wf_fst f" and st: "start f = Some st"
  obtains ds where "Connect W f = Some (SetPropertiesMask connected_bits connected_bits (DeleteStates ds f))"
    "ds = filter (\<lambda>s. \<not> useful W f s) [0 ..< NumStates f]"
proof -
  let ?u0 = "new_SccVisitor False True 0 f"
  have w: "access ?u0 \<noteq> None" by (simp add: new_SccVisitor_def)
  show thesis
  proof (rule scc_visit [OF wf st, of W ?u0])
    fix u
    assume u: "DfsVisit f (SccVisitor W) AnyArcFilter False ?u0 = Some u"
      and a: "access ?u0 \<noteq> None \<Longrightarrow> length (the (access u)) = NumStates f \<and> (\<forall>s < NumStates f. the (access u) ! s = reachable f s)"
      and c: "\<And>s. s < NumStates f \<Longrightarrow> coaccess u ! s \<longleftrightarrow> s \<in> coaccs (edges f) (finals W f)"
    have "filter (\<lambda>s. \<not> the (access u) ! s \<or> \<not> coaccess u ! s) [0 ..< length (the (access u))] =
        filter (\<lambda>s. \<not> useful W f s) [0 ..< NumStates f]"
      using a [OF w] c by (intro filter_cong) (auto simp: useful_def)
    then show thesis using that u by (simp add: Connect_def Let_def)
  qed
qed

lemma connected_bits_sound: "accessible f \<Longrightarrow> coaccessible W f \<Longrightarrow> props_sound W f connected_bits"
proof (rule props_soundI)
  fix t
  assume "accessible f" "coaccessible W f"
  then show "bit connected_bits (pos_bit t) \<Longrightarrow> holds W f t" "bit connected_bits (Suc (pos_bit t)) \<Longrightarrow> \<not> holds W f t"
    by (cases t; simp add: prop_bits)+
qed

theorem Connect_ok:
  assumes ok: "fst_ok W f" and st: "start f = Some st" and Z: "Weq W (Zero W) (Zero W)"
  obtains g where "Connect W f = Some g" "fst_ok W g"
proof -
  have wf: "wf_fst f" using ok by (simp add: fst_ok_def)
  obtain ds where ds: "Connect W f = Some (SetPropertiesMask connected_bits connected_bits (DeleteStates ds f))"
    "ds = filter (\<lambda>s. \<not> useful W f s) [0 ..< NumStates f]" using Connect_spec [OF wf st] by blast
  have "fst_ok W (DeleteStates ds f)" by (rule fst_ok_mutation [OF m_DeleteStates Z ok])
  moreover have "accessible (DeleteStates ds f)" "coaccessible W (DeleteStates ds f)"
    using trim_connected [OF wf, of ds W] ds(2) by auto
  moreover have "\<not> bit connected_bits 0" "\<not> bit connected_bits 1" by (simp_all add: prop_bits)
  ultimately have "fst_ok W (SetPropertiesMask connected_bits connected_bits (DeleteStates ds f))"
    using fst_ok_add_bits connected_bits_sound by blast
  then show thesis using that ds(1) by blast
qed

section \<open>Condense\<close>

text \<open>The arcs and the final weight of component \<open>c\<close>, after the first \<open>k\<close> states; \<open>\<rho>\<close> numbers the components.\<close>

definition condensed_arcs :: "(nat \<Rightarrow> nat) \<Rightarrow> 'w vfst \<Rightarrow> nat \<Rightarrow> nat \<Rightarrow> 'w arc list" where
  "condensed_arcs \<rho> f c k = concat (map (\<lambda>s. map (retarget \<rho>) (filter (\<lambda>a. \<rho> (nextstate a) \<noteq> c) (Arcs f s)))
     (filter (\<lambda>s. \<rho> s = c) [0 ..< k]))"

definition condensed_final :: "('w, 'z) weight_ops_scheme \<Rightarrow> (nat \<Rightarrow> nat) \<Rightarrow> 'w vfst \<Rightarrow> nat \<Rightarrow> nat \<Rightarrow> 'w" where
  "condensed_final W \<rho> f c k =
     fold (\<lambda>s w. Plus W w (Final f s)) (filter (\<lambda>s. \<rho> s = c \<and> \<not> Weq W (Final f s) (Zero W)) [0 ..< k]) (Zero W)"

lemma condense_arcs_eq:
  "fold (condense_arc W comps c) as g =
     fold (AddArc W c) (map (retarget (\<lambda>t. nat (comps ! t))) (filter (\<lambda>a. nat (comps ! nextstate a) \<noteq> c) as)) g"
  by (induction as arbitrary: g) (simp_all add: condense_arc_def retarget_def Let_def)

definition condensing ::
  "('w, 'z) weight_ops_scheme \<Rightarrow> (nat \<Rightarrow> nat) \<Rightarrow> nat \<Rightarrow> 'w vfst \<Rightarrow> nat \<Rightarrow> 'w vfst \<Rightarrow> bool" where
  "condensing W \<rho> n f k g \<longleftrightarrow> wf_fst g \<and> NumStates g = n \<and>
     start g = (case start f of None \<Rightarrow> None | Some s \<Rightarrow> if s < k then Some (\<rho> s) else None) \<and>
     (\<forall>c < n. Arcs g c = condensed_arcs \<rho> f c k \<and> Final g c = condensed_final W \<rho> f c k)"

lemma condense_state_step:
  assumes wf: "wf_fst f" and inv: "condensing W \<rho> n f k g" and k: "k < NumStates f"
    and \<rho>: "\<rho> = (\<lambda>t. nat (comps ! t))" and n: "\<And>s. s < NumStates f \<Longrightarrow> \<rho> s < n"
  shows "condensing W \<rho> n f (Suc k) (condense_state W f comps k g)"
proof -
  let ?c = "\<rho> k"
  have I: "wf_fst g" "NumStates g = n" "start g = (case start f of None \<Rightarrow> None | Some s \<Rightarrow> if s < k then Some (\<rho> s) else None)"
    "\<forall>c < n. Arcs g c = condensed_arcs \<rho> f c k \<and> Final g c = condensed_final W \<rho> f c k"
    using inv by (simp_all add: condensing_def)
  define g1 where "g1 = (if Some k = start f then SetStart (Some ?c) g else g)"
  have g1: "wf_fst g1" "NumStates g1 = n" "Arcs g1 c = Arcs g c" "Final g1 c = Final g c"
    "start g1 = (if start f = Some k then Some ?c else start g)" for c
    using wf_ops(4) [OF I(1), of "Some ?c"] I(1,2) n [OF k] by (auto simp: g1_def NumStates_def Arcs_def Final_def)
  define g2 where "g2 = (if \<not> Weq W (Final f k) (Zero W) then SetFinal W ?c (Plus W (Final g1 ?c) (Final f k)) g1 else g1)"
  have c2: "?c < NumStates g1" using g1(2) n [OF k] by simp
  have g2: "wf_fst g2" "NumStates g2 = n" "Arcs g2 c = Arcs g c" "start g2 = start g1"
    "c < n \<Longrightarrow> Final g2 c = (if c = ?c \<and> \<not> Weq W (Final f k) (Zero W) then Plus W (Final g c) (Final f k) else Final g c)" for c
    using wf_ops(2) [OF g1(1) c2] g1 c2 by (auto simp: g2_def NumStates_def Arcs_def Final_def nth_list_update)
  let ?as = "map (retarget \<rho>) (filter (\<lambda>a. \<rho> (nextstate a) \<noteq> ?c) (Arcs f k))"
  define g3 where "g3 = fold (AddArc W ?c) ?as g2"
  have e: "condense_state W f comps k g = g3"
    by (simp add: condense_state_def Let_def condense_arcs_eq g1_def g2_def g3_def \<rho>)
  have "\<forall>a \<in> set ?as. nextstate a < NumStates g2" using wf_target [OF wf k] n g2(2) by auto
  then have g3: "wf_fst g3" "start g3 = start g2" "NumStates g3 = n" "\<forall>r. Final g3 r = Final g2 r"
    "\<forall>r. Arcs g3 r = Arcs g2 r @ (if r = ?c then ?as else [])"
    using add_arcs_obs [of g2 ?c ?as W] g2(1,2) n [OF k] by (simp_all add: Let_def g3_def)
  have "Arcs g3 c = condensed_arcs \<rho> f c (Suc k)" "Final g3 c = condensed_final W \<rho> f c (Suc k)" if "c < n" for c
    using that I(4) g2(3,5) g3(4,5) by (auto simp: condensed_arcs_def condensed_final_def)
  moreover have "start g3 = (case start f of None \<Rightarrow> None | Some s \<Rightarrow> if s < Suc k then Some (\<rho> s) else None)"
    using g3(2) g2(4) g1(5) I(3) by (auto simp: less_Suc_eq split: option.splits)
  ultimately show ?thesis using g3(1,3) by (simp add: condensing_def e)
qed

lemma condense_states:
  assumes wf: "wf_fst f" and inv: "condensing W \<rho> n f 0 g"
    and \<rho>: "\<rho> = (\<lambda>t. nat (comps ! t))" and n: "\<And>s. s < NumStates f \<Longrightarrow> \<rho> s < n"
  shows "k \<le> NumStates f \<Longrightarrow> condensing W \<rho> n f k (fold (condense_state W f comps) [0 ..< k] g)"
proof (induction k)
  case (Suc k)
  then show ?case using condense_state_step [OF wf _ _ \<rho> n, of W k "fold (condense_state W f comps) [0 ..< k] g"] by simp
qed (use inv in simp)

lemma AddState_funpow:
  assumes "states g = []" "start g = None"
  shows "wf_fst ((AddState W ^^ n) g) \<and> start ((AddState W ^^ n) g) = None \<and> states ((AddState W ^^ n) g) = replicate n (VectorState W)"
proof (induction n)
  case 0
  then show ?case using assms by (simp add: wf_empty)
next
  case (Suc n)
  have "states (AddState W f) = states f @ [VectorState W]" "start (AddState W f) = start f" for f :: "'a vfst"
    by (simp_all add: AddState_def BaseAddState_def Let_def SetProperties_def)
  then show ?case using Suc wf_ops(1) [of "(AddState W ^^ n) g" W] by (simp add: replicate_append_same)
qed

theorem Condense_spec:
  assumes wf: "wf_fst f" and st: "start f = Some st"
  obtains comps h where
    "Condense W unique f g = Some (SetPropertiesMask (kAcyclic OR kInitialAcyclic) (kAcyclic OR kInitialAcyclic) h, comps)"
    "length comps = NumStates f" "\<And>s. s < NumStates f \<Longrightarrow> 0 \<le> comps ! s \<and> comps ! s < int (NumStates h)"
    "\<And>s t. s < NumStates f \<Longrightarrow> t < NumStates f \<Longrightarrow> comps ! s = comps ! t \<longleftrightarrow> same_component f s t"
    "\<And>s t. (s, t) \<in> edges f \<Longrightarrow> comps ! s \<le> comps ! t"
    "\<And>c. c < NumStates h \<Longrightarrow> \<exists>s < NumStates f. comps ! s = int c"
    "condensing W (\<lambda>t. nat (comps ! t)) (NumStates h) f (NumStates f) h"
proof -
  let ?u0 = "new_SccVisitor True False 0 f" let ?n = "NumStates f"
  have w: "scc ?u0 \<noteq> None" by (simp add: new_SccVisitor_def)
  have n0: "0 < ?n" using wf_start [OF wf st] by simp
  show thesis
  proof (rule scc_visit [OF wf st, of W ?u0])
    fix u
    assume u: "DfsVisit f (SccVisitor W) AnyArcFilter False ?u0 = Some u"
      and len0: "scc ?u0 \<noteq> None \<Longrightarrow> length (the (scc u)) = ?n"
      and rng0: "\<And>s. scc ?u0 \<noteq> None \<Longrightarrow> s < ?n \<Longrightarrow> 0 \<le> the (scc u) ! s \<and> the (scc u) ! s < nscc u"
      and eq0: "\<And>s t. scc ?u0 \<noteq> None \<Longrightarrow> s < ?n \<Longrightarrow> t < ?n \<Longrightarrow> the (scc u) ! s = the (scc u) ! t \<longleftrightarrow> same_component f s t"
      and top0: "\<And>s t. scc ?u0 \<noteq> None \<Longrightarrow> (s, t) \<in> edges f \<Longrightarrow> the (scc u) ! s \<le> the (scc u) ! t"
      and sur0: "\<And>c. scc ?u0 \<noteq> None \<Longrightarrow> 0 \<le> c \<Longrightarrow> c < nscc u \<Longrightarrow> \<exists>s < ?n. the (scc u) ! s = c"
    let ?C = "the (scc u)" let ?\<rho> = "\<lambda>t. nat (?C ! t)"
    note len = len0 [OF w] and rng = rng0 [OF w] and eq = eq0 [OF w] and top = top0 [OF w] and sur = sur0 [OF w]
    have pos: "0 < nscc u" using rng [OF n0] by simp
    have max: "Max (set ?C) = nscc u - 1"
    proof (rule Max_eqI)
      show "y \<le> nscc u - 1" if "y \<in> set ?C" for y using that rng len by (fastforce simp: in_set_conv_nth)
      show "nscc u - 1 \<in> set ?C" using sur [of "nscc u - 1"] pos len by (auto simp: in_set_conv_nth)
    qed simp
    let ?m = "nat (1 + Max (set ?C))"
    have m: "?m = nat (nscc u)" by (simp add: max)
    have less: "?\<rho> s < ?m" if "s < ?n" for s using rng [OF that] m by simp
    let ?d = "DeleteAllStates unique g"
    have "states ?d = []" "start ?d = None" using DeleteAllStates_empty [of unique g] by simp_all
    note A = AddState_funpow [OF this, where W = W and n = ?m]
    have "condensing W ?\<rho> ?m f 0 ((AddState W ^^ ?m) ?d)"
      using A by (auto simp: condensing_def NumStates_def Arcs_def Final_def condensed_arcs_def condensed_final_def VectorState_def
          split: option.splits)
    from condense_states [OF wf this refl less, of ?n]
    have cd: "condensing W ?\<rho> ?m f ?n (fold (condense_state W f ?C) [0 ..< ?n] ((AddState W ^^ ?m) ?d))" by simp
    let ?h = "fold (condense_state W f ?C) [0 ..< ?n] ((AddState W ^^ ?m) ?d)"
    have nh: "NumStates ?h = ?m" using cd by (simp add: condensing_def)
    have ne: "?C \<noteq> []" using len n0 by auto
    show thesis
    proof (rule that [of ?h ?C])
      show "Condense W unique f g = Some (SetPropertiesMask (kAcyclic OR kInitialAcyclic) (kAcyclic OR kInitialAcyclic) ?h, ?C)"
        using u ne len by (simp add: Condense_def Let_def)
      show "0 \<le> ?C ! s \<and> ?C ! s < int (NumStates ?h)" if "s < ?n" for s using rng [OF that] nh m by simp
      show "\<exists>s < ?n. ?C ! s = int c" if "c < NumStates ?h" for c using sur [of "int c"] that nh m by auto
      show "condensing W ?\<rho> (NumStates ?h) f ?n ?h" using cd nh by simp
    qed (use len eq top in auto)
  qed
qed

text \<open>Between components the numbers only grow.\<close>

lemma condensing_topsorted:
  assumes wf: "wf_fst f" and c: "condensing W (\<lambda>t. nat (comps ! t)) n f (NumStates f) h"
    and pos: "\<And>s. s < NumStates f \<Longrightarrow> 0 \<le> comps ! s" and top: "\<And>s t. (s, t) \<in> edges f \<Longrightarrow> comps ! s \<le> comps ! t"
  shows "holds W h TopSorted"
proof -
  have "k < nextstate b" if kb: "(k, b) \<in> trans h" for k b
  proof -
    have "b \<in> set (condensed_arcs (\<lambda>t. nat (comps ! t)) f k (NumStates f))" using kb c by (auto simp: trans_iff condensing_def)
    then obtain s a where a: "s < NumStates f" "nat (comps ! s) = k" "a \<in> set (Arcs f s)" "nat (comps ! nextstate a) \<noteq> k"
      "b = retarget (\<lambda>t. nat (comps ! t)) a" by (auto simp: condensed_arcs_def)
    have "comps ! s \<le> comps ! nextstate a" using top [OF edgesI] a by (simp add: trans_iff)
    then show ?thesis using a pos [OF a(1)] by simp
  qed
  then show ?thesis by auto
qed

section \<open>Without a start state\<close>

text \<open>Nothing is visited, so \<open>Connect\<close> deletes nothing.\<close>

lemma Connect_no_start:
  "start f = None \<Longrightarrow> Connect W f = Some (SetPropertiesMask connected_bits connected_bits f)"
  by (simp add: Connect_def DfsVisit_def new_SccVisitor_def scc_InitVisit_def scc_FinishVisit_def DeleteStates_def)

end
