(* ===== verification/SccProps.thy ===== *)
theory SccProps
  imports ConnectLaws
begin

text \<open>
  The property bits that \<open>SccVisitor\<close> sets (src/openfst/lib/cc-visitors.h): after a visit the bits
  for cycles, initial cycles, accessibility and coaccessibility are the truth, and all other bits are
  as they were.
\<close>

unbundle bit_operations_syntax

section \<open>Recorded properties\<close>

text \<open>The property word \<open>p\<close> says that property \<open>t\<close> has the value \<open>b\<close>.\<close>

definition recorded :: "props \<Rightarrow> trinary \<Rightarrow> bool \<Rightarrow> bool" where
  "recorded p t b \<longleftrightarrow> bit p (pos_bit t) = b \<and> bit p (Suc (pos_bit t)) = (\<not> b)"

lemma recorded_not_accessible:
  "recorded ((q OR kNotAccessible) AND NOT kAccessible) t b \<longleftrightarrow> (if t = Accessible then \<not> b else recorded q t b)"
  by (cases t) (auto simp: recorded_def prop_bits)

lemma recorded_not_coaccessible:
  "recorded ((q OR kNotCoAccessible) AND NOT kCoAccessible) t b \<longleftrightarrow> (if t = CoAccessible then \<not> b else recorded q t b)"
  by (cases t) (auto simp: recorded_def prop_bits)

lemma recorded_cyclic:
  "recorded ((q OR kCyclic) AND NOT kAcyclic) t b \<longleftrightarrow> (if t = Cyclic then b else recorded q t b)"
  by (cases t) (auto simp: recorded_def prop_bits)

lemma recorded_initial_cyclic:
  "recorded ((q OR kInitialCyclic) AND NOT kInitialAcyclic) t b \<longleftrightarrow> (if t = InitialCyclic then b else recorded q t b)"
  by (cases t) (auto simp: recorded_def prop_bits)

lemmas recorded_dfs = recorded_not_accessible recorded_not_coaccessible recorded_cyclic recorded_initial_cyclic

text \<open>The bits that a depth-first visit computes.\<close>

definition kDfsProps :: props where
  "kDfsProps = kCyclic OR kAcyclic OR kInitialCyclic OR kInitialAcyclic OR kAccessible OR kNotAccessible OR
     kCoAccessible OR kNotCoAccessible"

definition same_others :: "props \<Rightarrow> props \<Rightarrow> bool" where
  "same_others p q \<longleftrightarrow> p AND NOT kDfsProps = q AND NOT kDfsProps"

lemma same_others_iff: "same_others p q \<longleftrightarrow> (\<forall>n < 64. \<not> bit kDfsProps n \<longrightarrow> bit p n = bit q n)"
proof -
  have "bit (a :: 64 word) n \<Longrightarrow> n < 64" for a n using bit_imp_le_length [of a n] by simp
  then show ?thesis unfolding same_others_def by (auto simp: bit_eq_iff bit_and_iff bit_NOT_word64)
qed

lemma same_others_ops:
  "same_others ((q OR kNotAccessible) AND NOT kAccessible) r = same_others q r"
  "same_others ((q OR kNotCoAccessible) AND NOT kCoAccessible) r = same_others q r"
  "same_others ((q OR kCyclic) AND NOT kAcyclic) r = same_others q r"
  "same_others ((q OR kInitialCyclic) AND NOT kInitialAcyclic) r = same_others q r"
  by (auto simp: same_others_iff kDfsProps_def prop_bits)

section \<open>The invariant\<close>

definition closed_states :: "'w scc_vars dfs_vars \<Rightarrow> nat set" where
  "closed_states v = discovered v - set (scc_stack (visitor_state v))"

text \<open>No back arc so far: the examined edges are acyclic and lead to finished states.\<close>

definition forward_only :: "'w vfst \<Rightarrow> 'v dfs_vars \<Rightarrow> bool" where
  "forward_only f v \<longleftrightarrow> acyclic (examined f v) \<and> Range (examined f v) \<subseteq> blacks v"

text \<open>No accessible state with an examined edge to the start state so far.\<close>

definition no_return :: "'w vfst \<Rightarrow> 'v dfs_vars \<Rightarrow> bool" where
  "no_return f v \<longleftrightarrow> (\<forall>st y. start f = Some st \<and> (y, st) \<in> examined f v \<longrightarrow> \<not> reachable f y)"

definition tree_inv :: "'w vfst \<Rightarrow> nat \<Rightarrow> 'v dfs_vars \<Rightarrow> bool" where
  "tree_inv f root v \<longleftrightarrow>
     (start f \<noteq> Some root \<longrightarrow> (\<forall>s \<in> fst ` set (state_stack v). \<not> reachable f s)) \<and>
     (state_stack v \<noteq> [] \<longrightarrow> fst (last (state_stack v)) = root)"

definition bits_inv :: "('w, 'z) weight_ops_scheme \<Rightarrow> 'w vfst \<Rightarrow> props \<Rightarrow> 'w scc_vars dfs_vars \<Rightarrow> bool" where
  "bits_inv W f q0 v \<longleftrightarrow>
     (let q = scc_props (visitor_state v)
      in recorded q Accessible (\<forall>s \<in> discovered v. reachable f s) \<and>
         recorded q CoAccessible (closed_states v \<subseteq> coaccs (edges f) (finals W f)) \<and>
         (\<exists>c. recorded q Cyclic c \<and> (if c then \<exists>s. (s, s) \<in> (edges f)\<^sup>+ else forward_only f v)) \<and>
         (\<exists>c. recorded q InitialCyclic c \<and> (if c then \<exists>s. start f = Some s \<and> (s, s) \<in> (edges f)\<^sup>+ else no_return f v)) \<and>
         same_others q q0)"

lemma bits_invI:
  assumes "q = scc_props (visitor_state v)" "recorded q Accessible (\<forall>s \<in> discovered v. reachable f s)"
    "recorded q CoAccessible (closed_states v \<subseteq> coaccs (edges f) (finals W f))"
    "recorded q Cyclic c" "if c then \<exists>s. (s, s) \<in> (edges f)\<^sup>+ else forward_only f v"
    "recorded q InitialCyclic d" "if d then \<exists>s. start f = Some s \<and> (s, s) \<in> (edges f)\<^sup>+ else no_return f v"
    "same_others q q0"
  shows "bits_inv W f q0 v"
  using assms unfolding bits_inv_def Let_def by blast

lemma bits_invE:
  assumes "bits_inv W f q0 v" "q = scc_props (visitor_state v)"
  obtains c d where "recorded q Accessible (\<forall>s \<in> discovered v. reachable f s)"
    "recorded q CoAccessible (closed_states v \<subseteq> coaccs (edges f) (finals W f))"
    "recorded q Cyclic c" "if c then \<exists>s. (s, s) \<in> (edges f)\<^sup>+ else forward_only f v"
    "recorded q InitialCyclic d" "if d then \<exists>s. start f = Some s \<and> (s, s) \<in> (edges f)\<^sup>+ else no_return f v"
    "same_others q q0"
  using assms unfolding bits_inv_def Let_def by blast

lemma bits_push:
  assumes ok: "dfs_ok f P v" and inv: "bits_inv W f q0 v" and t: "t < NumStates f" "state_color v ! t = kWhite"
    and st: "scc_start (visitor_state v) = start f" and re: "reachable f t \<longleftrightarrow> start f = Some root"
    and w: "state_color w = (state_color v)[t := kGrey]" "state_stack w = (t, 0) # state_stack v"
      "visitor_state w = fst (scc_InitState t root (visitor_state v))"
  shows "bits_inv W f q0 w"
proof -
  let ?q = "scc_props (visitor_state v)" let ?q' = "if start f = Some root then ?q else (?q OR kNotAccessible) AND NOT kAccessible"
  have tl: "t < length (state_color v)" using ok t by (simp add: dfs_ok_def)
  have q: "?q' = scc_props (visitor_state w)" using st by (auto simp: w(3) scc_InitState_def Let_def)
  have d: "discovered w = insert t (discovered v)" by (rule discovered_push [OF tl w(1)])
  have td: "t \<notin> discovered v" using t by (simp add: discovered_def)
  have "scc_stack (visitor_state w) = t # scc_stack (visitor_state v)" by (simp add: w(3) scc_InitState_def Let_def)
  then have c: "closed_states w = closed_states v" using td by (auto simp: closed_states_def d)
  have e: "examined f w = examined f v" by (rule examined_push [OF ok t(2,1) w(1,2)])
  have b: "blacks w = blacks v" by (rule blacks_grey [OF tl t(2) w(1)])
  from bits_invE [OF inv refl] obtain c d where I: "recorded ?q Accessible (\<forall>s \<in> discovered v. reachable f s)"
    "recorded ?q CoAccessible (closed_states v \<subseteq> coaccs (edges f) (finals W f))"
    "recorded ?q Cyclic c" "if c then \<exists>s. (s, s) \<in> (edges f)\<^sup>+ else forward_only f v"
    "recorded ?q InitialCyclic d" "if d then \<exists>s. start f = Some s \<and> (s, s) \<in> (edges f)\<^sup>+ else no_return f v"
    "same_others ?q q0" .
  show ?thesis
    by (rule bits_invI [OF q, of _ _ c d])
      (use I re in \<open>auto simp: recorded_dfs same_others_ops d c e b forward_only_def no_return_def split del: if_split split: if_splits\<close>)
qed


text \<open>An examined edge to a finished state closes no cycle, as long as there is no back arc.\<close>

lemma forward_only_insert:
  assumes "forward_only f v" "examined f w = insert (s, t) (examined f v)" "t \<in> blacks w" "blacks v \<subseteq> blacks w"
    and "s \<notin> blacks v" "s \<noteq> t" and "t \<notin> blacks v \<Longrightarrow> (t, s) \<notin> (examined f v)\<^sup>*"
  shows "forward_only f w"
proof -
  have r: "Range (examined f v) \<subseteq> blacks v" "acyclic (examined f v)" using assms(1) by (auto simp: forward_only_def)
  have "(t, s) \<notin> (examined f v)\<^sup>*"
  proof
    assume p: "(t, s) \<in> (examined f v)\<^sup>*"
    then have "s \<in> Range (examined f v)" using assms(6) by (metis Range.intros rtrancl.cases)
    then show False using r assms(5) by blast
  qed
  then show ?thesis using r assms(2-4) by (auto simp: forward_only_def)
qed

lemma bits_back:
  assumes ok: "dfs_ok f AnyArcFilter v" and inv: "bits_inv W f q0 v" and stk: "state_stack v = (s, i) # rest" and i: "i < NumArcs f s"
    and t: "state_color v ! nextstate (Arcs f s ! i) = kGrey" and st: "scc_start (visitor_state v) = start f"
    and w: "w = (visit (BackArc (SccVisitor W) s (Arcs f s ! i)) v)\<lparr>state_stack := (s, i + 1) # rest\<rparr>"
  shows "bits_inv W f q0 w"
proof -
  let ?t = "nextstate (Arcs f s ! i)" let ?q = "scc_props (visitor_state v)"
  let ?c = "(?q OR kCyclic) AND NOT kAcyclic"
  let ?q' = "if start f = Some ?t then (?c OR kInitialCyclic) AND NOT kInitialAcyclic else ?c"
  have q: "?q' = scc_props (visitor_state w)" using st by (auto simp: w scc_BackArc_def Let_def)
  have d: "discovered w = discovered v" "closed_states w = closed_states v"
    by (auto simp: w discovered_def closed_states_def scc_BackArc_def Let_def)
  have e: "examined f w = insert (s, ?t) (examined f v)" by (rule examined_next [OF ok stk i]) (simp_all add: w)
  have "stack_ok f AnyArcFilter ((s, i) # rest)" using ok stk unfolding dfs_ok_def by metis
  then have ts: "(?t, s) \<in> (edges f)\<^sup>*" using dfs_ok_arc(3) [OF ok stk i t] stk by (metis stack_reaches)
  have "(s, ?t) \<in> edges f" using dfs_ok_top [OF ok stk] i nth_edge by blast
  then have cyc: "(s, s) \<in> (edges f)\<^sup>+" "(?t, ?t) \<in> (edges f)\<^sup>+" using ts by (meson rtrancl_into_trancl1 rtrancl_into_trancl2)+
  from bits_invE [OF inv refl] obtain c d where I: "recorded ?q Accessible (\<forall>s \<in> discovered v. reachable f s)"
    "recorded ?q CoAccessible (closed_states v \<subseteq> coaccs (edges f) (finals W f))"
    "recorded ?q InitialCyclic d" "if d then \<exists>s. start f = Some s \<and> (s, s) \<in> (edges f)\<^sup>+ else no_return f v"
    "same_others ?q q0" .
  show ?thesis
    by (rule bits_invI [OF q, of _ _ True "d \<or> start f = Some ?t"])
      (use I cyc in \<open>auto simp: recorded_dfs same_others_ops d e no_return_def split: if_splits\<close>)
qed

lemma bits_cross:
  assumes ok: "dfs_ok f AnyArcFilter v" and inv: "bits_inv W f q0 v" and tr: "tree_inv f root v"
    and stk: "state_stack v = (s, i) # rest" and i: "i < NumArcs f s"
    and t: "state_color v ! nextstate (Arcs f s ! i) = kBlack"
    and w: "w = (visit (ForwardOrCrossArc (SccVisitor W) s (Arcs f s ! i)) v)\<lparr>state_stack := (s, i + 1) # rest\<rparr>"
  shows "bits_inv W f q0 w"
proof -
  let ?t = "nextstate (Arcs f s ! i)" let ?q = "scc_props (visitor_state v)"
  note top = dfs_ok_top [OF ok stk]
  have q: "?q = scc_props (visitor_state w)" by (auto simp: w scc_ForwardOrCrossArc_def Let_def)
  have d: "discovered w = discovered v" "closed_states w = closed_states v" "blacks w = blacks v"
    by (auto simp: w discovered_def blacks_def closed_states_def scc_ForwardOrCrossArc_def Let_def)
  have e: "examined f w = insert (s, ?t) (examined f v)" by (rule examined_next [OF ok stk i]) (simp_all add: w)
  have tb: "?t \<in> blacks v" "s \<notin> blacks v" using dfs_ok_arc(2) [OF ok stk i] t top by (auto simp: blacks_def)
  then have fo: "forward_only f w" if "forward_only f v" by (intro forward_only_insert [OF that e]) (auto simp: d)
  have nr: "no_return f w" if "no_return f v"
  proof -
    have "\<not> reachable f s" if st: "start f = Some ?t"
    proof -
      have "?t \<noteq> root"
      proof
        assume "?t = root"
        then have "?t \<in> fst ` set (state_stack v)" using tr stk by (metis tree_inv_def last_in_set image_eqI list.distinct(1))
        then show False using ok t dfs_ok_arc(1) [OF ok stk i] by (auto simp: dfs_ok_def)
      qed
      then show ?thesis using tr st stk by (simp add: tree_inv_def)
    qed
    then show ?thesis using that by (auto simp: no_return_def e)
  qed
  from bits_invE [OF inv refl] obtain c d where I: "recorded ?q Accessible (\<forall>s \<in> discovered v. reachable f s)"
    "recorded ?q CoAccessible (closed_states v \<subseteq> coaccs (edges f) (finals W f))"
    "recorded ?q Cyclic c" "if c then \<exists>s. (s, s) \<in> (edges f)\<^sup>+ else forward_only f v"
    "recorded ?q InitialCyclic d" "if d then \<exists>s. start f = Some s \<and> (s, s) \<in> (edges f)\<^sup>+ else no_return f v"
    "same_others ?q q0" .
  show ?thesis
    by (rule bits_invI [OF q, of _ _ c d]) (use I fo nr in \<open>simp_all add: d split: if_splits\<close>)
qed

section \<open>Leaving a state\<close>

lemma leave_coaccess:
  assumes ok: "dfs_ok f P v" and inv: "scc_inv W f v" and stk: "state_stack v = (s, i) # rest" and i: "NumArcs f s \<le> i"
    and w: "w = dfs_leave f (SccVisitor W) s rest v"
  obtains b where "scc_props (visitor_state w) = (if b then scc_props (visitor_state v)
      else (scc_props (visitor_state v) OR kNotCoAccessible) AND NOT kCoAccessible)"
    "closed_states w \<subseteq> coaccs (edges f) (finals W f) \<longleftrightarrow> b \<and> closed_states v \<subseteq> coaccs (edges f) (finals W f)"
proof -
  define u where "u = visitor_state v"
  define m where "m = finish_mark W s u"
  let ?p = "case rest of [] \<Rightarrow> None | (p, j) # _ \<Rightarrow> Some p"
  have u': "visitor_state w = finish_parent s ?p (finish_pop s m)" by (simp add: w scc_leave_state u_def m_def)
  have par: "scc_props (finish_parent s p x) = scc_props x" "scc_stack (finish_parent s p x) = scc_stack x" for p and x :: "'a scc_vars"
    by (simp_all add: finish_parent_def Let_def split: option.splits)
  have mk: "scc_props m = scc_props u" "scc_stack m = scc_stack u" "dfnumber m = dfnumber u" "lowlink m = lowlink u"
    by (simp_all add: m_def finish_mark_def)
  have d: "discovered w = discovered v" using discovered_leave [OF ok stk] by (simp add: w)
  show thesis
  proof (cases "dfnumber u ! s = lowlink u ! s")
    case False
    then have "finish_pop s m = m" by (simp add: finish_pop_def mk)
    then show thesis using that [of True] by (simp add: u' par mk closed_states_def d u_def)
  next
    case True
    obtain \<sigma> where \<sigma>: "tarjan_inv (edges f) (finals W f) \<sigma>" "scc_rel f v \<sigma>" using inv by (auto simp: scc_inv_def)
    obtain \<tau> where \<tau>: "tarjan_inv (edges f) (finals W f) \<tau>" "scc_rel f w \<tau>"
      using scc_inv_leave [OF ok inv stk i] by (auto simp: scc_inv_def w)
    define n where "n = length (dfnumber u)"
    note R = scc_relD [OF \<sigma>(2) u_def n_def]
    note T = scc_relD [OF \<tau>(2) refl refl]
    let ?S = "seg s (scc_stack u)"
    define b where "b = scc_coaccess s (coaccess m) (scc_stack m) False"
    define x where "x = scc_pop s b (scc_stack m) m"
    have sh: "set (greys \<sigma>) \<subseteq> set (sstack \<sigma>)" "set (sstack \<sigma>) \<subseteq> disc \<sigma>"
      using \<sigma>(1) by (simp_all add: tarjan_inv_def t_shape_def)
    have di: "distinct (scc_stack u)" using tarjan_distinct [OF \<sigma>(1)] R(4) by simp
    have s: "s \<in> set (scc_stack u)" using sh(1) R(1,4) stk by auto
    have sub: "set (scc_stack u) \<subseteq> {..<n}" using sh(2) R(4,8) by auto
    have "scc_lens m n" using R(6) by (simp add: m_def finish_mark_def scc_lens_def)
    from scc_pop_obs [OF _ this, of s "scc_stack m" b] s sub
    have X: "popped s b (scc_stack u) n m x" by (simp add: x_def mk)
    have eq: "finish_pop s m = (if b then x else x\<lparr>scc_props := (scc_props x OR kNotCoAccessible) AND NOT kCoAccessible\<rparr>)\<lparr>nscc := nscc x + 1\<rparr>"
      using True by (simp add: finish_pop_def mk b_def x_def Let_def)
    have S: "?S \<subseteq> set (scc_stack u)" using s by (auto dest: set_takeWhileD)
    have rest: "set (scc_stack (visitor_state w)) = set (scc_stack u) - ?S"
      using X below_seg [OF s di] by (simp add: u' par eq popped_def)
    have cl: "closed_states w = closed_states v \<union> ?S"
      using S sh(2) R(2,4) by (auto simp: closed_states_def d rest u_def [symmetric])
    have bi: "b \<longleftrightarrow> (\<exists>t \<in> ?S. coaccess m ! t)" unfolding b_def mk using scc_coaccess_iff [OF s] by simp
    have "t \<in> coaccs (edges f) (finals W f) \<longleftrightarrow> b" if t: "t \<in> ?S" for t
    proof -
      have tn: "t < n" using t S sub by blast
      have tc: "t \<in> closed_states w" using t cl by blast
      have tp: "?p \<noteq> Some t"
      proof
        assume "?p = Some t"
        then have "t \<in> set (greys \<tau>)" using T(1) by (auto simp: w split: list.splits)
        then have "t \<in> set (sstack \<tau>)" using \<tau>(1) by (auto simp: tarjan_inv_def t_shape_def)
        then show False using T(4) tc by (simp add: closed_states_def)
      qed
      have td: "t \<in> disc \<tau>" "t \<in> closed \<tau>" using tc T(2,4) by (auto simp: closed_states_def)
      have "coaccess (finish_parent s ?p y) ! t = coaccess y ! t" for y :: "'a scc_vars"
        using tp by (auto simp: finish_parent_def Let_def split: option.splits)
      then have "coaccess (visitor_state w) ! t = coaccess x ! t" by (simp add: u' eq)
      also have "\<dots> \<longleftrightarrow> b" using X tn t bi by (auto simp: popped_def)
      finally have "coacc \<tau> t \<longleftrightarrow> b" using T(9) [OF td(1)] by simp
      then show ?thesis using \<tau>(1) td unfolding tarjan_inv_def t_coacc_def by blast
    qed
    then have "closed_states w \<subseteq> coaccs (edges f) (finals W f) \<longleftrightarrow> b \<and> closed_states v \<subseteq> coaccs (edges f) (finals W f)"
      unfolding cl by blast
    moreover have "scc_props (visitor_state w) = (if b then scc_props (visitor_state v)
        else (scc_props (visitor_state v) OR kNotCoAccessible) AND NOT kCoAccessible)"
      using X by (simp add: u' par eq popped_def mk u_def)
    ultimately show thesis using that by blast
  qed
qed


lemma bits_leave:
  assumes ok: "dfs_ok f AnyArcFilter v" and inv: "bits_inv W f q0 v" and scc: "scc_inv W f v" and tr: "tree_inv f root v"
    and stk: "state_stack v = (s, i) # rest" and i: "NumArcs f s \<le> i"
    and w: "w = dfs_leave f (SccVisitor W) s rest v"
  shows "bits_inv W f q0 w"
proof -
  let ?q = "scc_props (visitor_state v)"
  note top = dfs_ok_top [OF ok stk]
  obtain b where b: "scc_props (visitor_state w) = (if b then ?q else (?q OR kNotCoAccessible) AND NOT kCoAccessible)"
    "closed_states w \<subseteq> coaccs (edges f) (finals W f) \<longleftrightarrow> b \<and> closed_states v \<subseteq> coaccs (edges f) (finals W f)"
    by (rule leave_coaccess [OF ok scc stk i w])
  have d: "discovered w = discovered v" using discovered_leave [OF ok stk] by (simp add: w)
  have di: "s \<notin> fst ` set rest" using ok stk by (simp add: dfs_ok_def)
  have bl: "blacks w = insert s (blacks v)" using top by (simp add: w blacks_leave)
  have sb: "s \<notin> blacks v" using top by (simp add: blacks_def)
  have e: "examined f w = (case rest of [] \<Rightarrow> examined f v | (p, j) # _ \<Rightarrow> insert (p, s) (examined f v))"
    using examined_leave [OF ok stk i] by (simp add: w)
  have fo: "forward_only f w" if f: "forward_only f v"
  proof (cases rest)
    case Nil
    then show ?thesis using f by (auto simp: forward_only_def e bl)
  next
    case (Cons q below)
    obtain p j where q: "q = (p, j)" by (cases q)
    have sk: "stack_ok f AnyArcFilter ((s, i) # (p, j) # below)" using ok stk unfolding dfs_ok_def Cons q by metis
    have p: "p < NumStates f" "p \<noteq> s" using stack_ok_parent [OF sk] di by (simp_all add: Cons q)
    have "p \<in> fst ` set (state_stack v)" by (simp add: stk Cons q)
    then have "state_color v ! p = kGrey" using ok p(1) by (simp add: dfs_ok_def)
    then have pb: "p \<notin> blacks v" by (simp add: blacks_def)
    have "(s, p) \<notin> (examined f v)\<^sup>*"
      using f pb p(2) unfolding forward_only_def by (metis Range.intros rtrancl.cases subsetD)
    then show ?thesis using p pb by (intro forward_only_insert [OF f]) (auto simp: e Cons q bl)
  qed
  have nr: "no_return f w" if n: "no_return f v"
  proof (cases rest)
    case (Cons q below)
    obtain p j where q: "q = (p, j)" by (cases q)
    have "fst (last rest) = root" using tr by (simp add: tree_inv_def stk Cons)
    moreover have "last rest \<in> set rest" using Cons by (intro last_in_set) simp
    ultimately have "s \<noteq> root" using di by auto
    moreover have "reachable f s" if "start f = Some s" using that by (simp add: reachable_def)
    ultimately have "start f \<noteq> Some s" using tr stk by (auto simp: tree_inv_def)
    then show ?thesis using n by (auto simp: no_return_def e Cons q)
  qed (use n in \<open>simp add: no_return_def e\<close>)
  from bits_invE [OF inv refl] obtain c d where I: "recorded ?q Accessible (\<forall>s \<in> discovered v. reachable f s)"
    "recorded ?q CoAccessible (closed_states v \<subseteq> coaccs (edges f) (finals W f))"
    "recorded ?q Cyclic c" "if c then \<exists>s. (s, s) \<in> (edges f)\<^sup>+ else forward_only f v"
    "recorded ?q InitialCyclic d" "if d then \<exists>s. start f = Some s \<and> (s, s) \<in> (edges f)\<^sup>+ else no_return f v"
    "same_others ?q q0" .
  show ?thesis
    by (rule bits_invI [OF b(1) [symmetric], of _ _ c d])
      (use I fo nr in \<open>auto simp: recorded_dfs same_others_ops d b(2) split: if_splits\<close>)
qed


section \<open>The visit\<close>

lemma tree_inv_push:
  assumes "state_stack v = [] \<and> t = root \<or> state_stack v \<noteq> [] \<and> tree_inv f root v" "reachable f t \<longleftrightarrow> start f = Some root"
    and "state_stack w = (t, 0) # state_stack v"
  shows "tree_inv f root w"
  using assms by (auto simp: tree_inv_def)

lemma tree_inv_top:
  assumes "tree_inv f root v" "map fst (state_stack w) = map fst (state_stack v)"
  shows "tree_inv f root w"
proof -
  have "fst ` set (state_stack w) = fst ` set (state_stack v)" using assms(2) by (metis set_map)
  moreover have "state_stack w \<noteq> [] \<Longrightarrow> fst (last (state_stack w)) = fst (last (state_stack v))" "state_stack w = [] \<longleftrightarrow> state_stack v = []"
    using assms(2) by (metis last_map map_is_Nil_conv)+
  ultimately show ?thesis using assms(1) unfolding tree_inv_def by metis
qed

lemma tree_inv_leave:
  assumes "tree_inv f root v" "state_stack v = (s, i) # rest"
  shows "tree_inv f root (dfs_leave f V s rest v)"
proof -
  have "tree_inv f root (v\<lparr>state_stack := rest\<rparr>)" using assms by (auto simp: tree_inv_def split: if_splits)
  then show ?thesis by (rule tree_inv_top) simp
qed

text \<open>A state that is discovered now is accessible if and only if this is the tree of the start state.\<close>

lemma new_reachable:
  assumes "acc_inv f root v" "t \<notin> discovered v" "(root, t) \<in> (edges f)\<^sup>*"
  shows "reachable f t \<longleftrightarrow> start f = Some root"
  using assms by (auto simp: acc_inv_def reachable_def)

lemma root_reachable:
  assumes ok: "dfs_ok f P v" and inv: "scc_inv W f v" and stk: "state_stack v = []" and root: "root < NumStates f" "state_color v ! root = kWhite"
    and first: "start f = Some root \<or> (\<forall>st. start f = Some st \<longrightarrow> st \<notin> whites v)"
  shows "reachable f root \<longleftrightarrow> start f = Some root"
proof
  assume "reachable f root"
  then obtain st where st: "start f = Some st" "(st, root) \<in> (edges f)\<^sup>*" by (auto simp: reachable_def)
  have "root \<notin> discovered v" using root by (simp add: discovered_def)
  moreover have "st < NumStates f" using wf_start [OF dfs_ok_wf [OF ok] st(1)] .
  ultimately show "start f = Some root"
    using first st disc_closed [OF inv stk _ st(2)] ok by (auto simp: whites_def discovered_def dfs_ok_def)
qed (auto simp: reachable_def)

interpretation scc_bits: dfs_invariant f "SccVisitor W" AnyArcFilter
  "\<lambda>root v. ((scc_inv W f v \<and> acc_inv f root v) \<and> wants (visitor_state v) = b) \<and> tree_inv f root v \<and> bits_inv W f q0 v"
  for f :: "'w vfst" and W :: "('w, 'z) weight_ops_scheme" and b and q0
proof (unfold_locales, goal_cases)
  case (1 v r root)
  let ?w = "dfs_root f (SccVisitor W) root v"
  have st: "scc_start (visitor_state v) = start f" using 1(2) by (auto simp: scc_inv_def scc_rel_def Let_def)
  have re: "reachable f root \<longleftrightarrow> start f = Some root" by (rule root_reachable [OF 1(1) _ 1(3,5-7)]) (use 1(2) in blast)
  have w: "state_color ?w = (state_color v)[root := kGrey]" "state_stack ?w = (root, 0) # state_stack v"
    "visitor_state ?w = fst (scc_InitState root root (visitor_state v))" using 1(3) by (simp_all add: dfs_root_def)
  have "bits_inv W f q0 ?w" using 1(2) by (intro bits_push [OF 1(1) _ 1(5,6) st re w]) blast
  moreover have "tree_inv f root ?w" using 1(3) by (intro tree_inv_push [OF _ re w(2)]) simp
  ultimately show ?case using scc.init_root [OF 1(1) conjunct1 [OF 1(2)] 1(3-7)] by blast
next
  case (2 v root s i rest)
  have i: "NumArcs f s \<le> i" using 2(2,4) by (auto simp: scc_inv_def scc_rel_def Let_def)
  have "bits_inv W f q0 (dfs_leave f (SccVisitor W) s rest v)"
    using 2(2) by (intro bits_leave [OF 2(1) _ _ _ 2(3) i refl]) blast+
  then show ?case using scc.leave [OF 2(1) conjunct1 [OF 2(2)] 2(3,4)] tree_inv_leave [OF _ 2(3)] 2(2) by blast
next
  case (3 v root s i rest)
  then show ?case by (simp add: AnyArcFilter_def)
next
  case (4 v root s i rest)
  then show ?case by (simp add: scc_TreeArc_def)
next
  case (5 v root s i rest t u)
  let ?w = "visit (InitState (SccVisitor W) t root) ((set_color t kGrey u)\<lparr>state_stack := (t, 0) # (s, i) # rest\<rparr>)"
  have u: "state_color u = state_color v" "visitor_state u = visitor_state v" using 5(9) by (simp_all add: scc_TreeArc_def)
  have st: "scc_start (visitor_state v) = start f" using 5(2) by (auto simp: scc_inv_def scc_rel_def Let_def)
  have tn: "t < NumStates f" using dfs_ok_arc(1) [OF 5(1,3,5)] 5(7) by simp
  have "(root, s) \<in> (edges f)\<^sup>*" using 5(2,3) by (auto simp: acc_inv_def)
  then have "(root, t) \<in> (edges f)\<^sup>*" using nth_edge [of s f i] dfs_ok_top [OF 5(1,3)] 5(5,7) by (metis rtrancl.rtrancl_into_rtrancl)
  then have re: "reachable f t \<longleftrightarrow> start f = Some root"
    using 5(2,8) by (intro new_reachable [of f root v]) (auto simp: discovered_def)
  have w: "state_color ?w = (state_color v)[t := kGrey]" "state_stack ?w = (t, 0) # state_stack v"
    "visitor_state ?w = fst (scc_InitState t root (visitor_state v))" using 5(3) u by simp_all
  have "bits_inv W f q0 ?w" using 5(2) by (intro bits_push [OF 5(1) _ tn 5(8) st re w]) blast
  moreover have "tree_inv f root ?w" using 5(2,3) by (intro tree_inv_push [OF _ re w(2)]) simp
  ultimately show ?case using scc.tree [OF 5(1) conjunct1 [OF 5(2)] 5(3-10)] by blast
next
  case (6 v root s i rest)
  have st: "scc_start (visitor_state v) = start f" using 6(2) by (auto simp: scc_inv_def scc_rel_def Let_def)
  let ?w = "(visit (BackArc (SccVisitor W) s (Arcs f s ! i)) v)\<lparr>state_stack := (s, i + 1) # rest\<rparr>"
  have "bits_inv W f q0 ?w" using 6(2) by (intro bits_back [OF 6(1) _ 6(3,5,7) st refl]) blast
  moreover have "tree_inv f root ?w" by (rule tree_inv_top [of f root v]) (use 6(2,3) in simp_all)
  ultimately show ?case using scc.back_arc [OF 6(1) conjunct1 [OF 6(2)] 6(3-7)] by blast
next
  case (7 v root s i rest)
  let ?w = "(visit (ForwardOrCrossArc (SccVisitor W) s (Arcs f s ! i)) v)\<lparr>state_stack := (s, i + 1) # rest\<rparr>"
  have "bits_inv W f q0 ?w" using 7(2) by (intro bits_cross [OF 7(1) _ _ 7(3,5,7) refl]) blast+
  moreover have "tree_inv f root ?w" by (rule tree_inv_top [of f root v]) (use 7(2,3) in simp_all)
  ultimately show ?case using scc.cross_arc [OF 7(1) conjunct1 [OF 7(2)] 7(3-7)] by blast
qed


lemma bits_init:
  assumes v: "state_color v = replicate (NumStates f) kWhite" "state_stack v = []" "visitor_state v = InitVisit (SccVisitor W) f u0"
  shows "bits_inv W f (scc_props u0) v"
proof -
  let ?q = "scc_props (scc_InitVisit f u0)"
  have d: "discovered v = {}" "examined f v = {}" "closed_states v = {}" using v(1,2) by (auto simp: discovered_def examined_def closed_states_def)
  have q: "recorded ?q Accessible True" "recorded ?q CoAccessible True" "recorded ?q Cyclic False" "recorded ?q InitialCyclic False"
    by (simp_all add: scc_InitVisit_def recorded_def prop_bits)
  have "same_others ?q (scc_props u0)" by (auto simp: same_others_iff kDfsProps_def scc_InitVisit_def prop_bits)
  then show ?thesis
    by (intro bits_invI [of ?q v _ _ False False]) (use q in \<open>simp_all add: v d forward_only_def no_return_def acyclic_def\<close>)
qed

text \<open>The states and edges that a search has seen at its end.\<close>

lemma finished_search:
  assumes "dfs_ok f P w" "state_stack w = []" "whites w = {}"
  shows "discovered w = {..<NumStates f}" "blacks w = {..<NumStates f}" "examined f w = edges f"
proof -
  have c: "state_color w ! s = kBlack" if "s < NumStates f" for s
    using assms that by (cases "state_color w ! s") (auto simp: dfs_ok_def whites_def)
  moreover have "length (state_color w) = NumStates f" using assms(1) by (simp add: dfs_ok_def)
  ultimately show "discovered w = {..<NumStates f}" "blacks w = {..<NumStates f}" by (auto simp: discovered_def blacks_def)
  show "examined f w = edges f"
  proof (intro set_eqI iffI)
    fix e assume "e \<in> examined f w"
    then show "e \<in> edges f" using nth_edge by (auto simp: examined_def)
  next
    fix e assume "e \<in> edges f"
    then obtain y a where y: "y < NumStates f" "a \<in> set (Arcs f y)" "e = (y, nextstate a)" by (cases e) (auto simp: edges_iff trans_iff)
    then obtain j where "j < NumArcs f y" "a = Arcs f y ! j" by (auto simp: in_set_conv_nth NumArcs_def Arcs_def)
    then show "e \<in> examined f w" using y c by (auto simp: examined_def)
  qed
qed

theorem scc_visit_bits:
  assumes wf: "wf_fst f" and st: "start f = Some st"
  obtains u where "DfsVisit f (SccVisitor W) AnyArcFilter False u0 = Some u" "same_others (scc_props u) (scc_props u0)"
    "recorded (scc_props u) Cyclic (holds W f Cyclic)" "recorded (scc_props u) InitialCyclic (holds W f InitialCyclic)"
    "recorded (scc_props u) Accessible (holds W f Accessible)" "recorded (scc_props u) CoAccessible (holds W f CoAccessible)"
proof -
  let ?I = "\<lambda>r v. ((scc_inv W f v \<and> acc_inv f r v) \<and> wants (visitor_state v) = wants u0) \<and> tree_inv f r v \<and> bits_inv W f (scc_props u0) v"
  have init: "?I st v" if "state_color v = replicate (NumStates f) kWhite" "state_stack v = []" "dfs v"
    "visitor_state v = InitVisit (SccVisitor W) f u0" for v
    using scc_init [OF st that] bits_init [OF that(1,2,4)] that(2) by (simp add: tree_inv_def)
  obtain w r where w: "DfsVisit f (SccVisitor W) AnyArcFilter False u0 = Some (scc_FinishVisit (visitor_state w))"
      "dfs_ok f AnyArcFilter w" "?I r w" "state_stack w = []" "dfs w \<longrightarrow> whites w = {}"
    using scc_bits.visit_returns [OF wf init st, where ao = False and u = u0] by auto
  obtain \<sigma> where \<sigma>: "tarjan_inv (edges f) (finals W f) \<sigma>" "scc_rel f w \<sigma>" using w(3) by (auto simp: scc_inv_def)
  note R = scc_relD [OF \<sigma>(2) refl refl]
  have "dfs w" using R(12) .
  then have fin: "discovered w = {..<NumStates f}" "blacks w = {..<NumStates f}" "examined f w = edges f"
    using finished_search [OF w(2,4)] w(5) by auto
  have "sstack \<sigma> = []" using \<sigma>(1) R(1) w(4) unfolding tarjan_inv_def t_links_def by (cases "sstack \<sigma>") auto
  then have cl: "closed_states w = {..<NumStates f}" using R(4) fin by (simp add: closed_states_def)
  let ?q = "scc_props (visitor_state w)"
  have "bits_inv W f (scc_props u0) w" using w(3) by blast
  from bits_invE [OF this refl] obtain c d where I: "recorded ?q Accessible (\<forall>s \<in> discovered w. reachable f s)"
    "recorded ?q CoAccessible (closed_states w \<subseteq> coaccs (edges f) (finals W f))"
    "recorded ?q Cyclic c" "if c then \<exists>s. (s, s) \<in> (edges f)\<^sup>+ else forward_only f w"
    "recorded ?q InitialCyclic d" "if d then \<exists>s. start f = Some s \<and> (s, s) \<in> (edges f)\<^sup>+ else no_return f w"
    "same_others ?q (scc_props u0)" .
  have "c = holds W f Cyclic" using I(4) by (auto simp: forward_only_def fin acyclic_def split: if_splits)
  moreover have "d = holds W f InitialCyclic"
  proof -
    have False if n: "no_return f w" and s: "start f = Some s" "(s, s) \<in> (edges f)\<^sup>+" for s
    proof -
      obtain y where "(s, y) \<in> (edges f)\<^sup>*" "(y, s) \<in> edges f" using s(2) by (metis tranclD2)
      then show False using n s(1) by (auto simp: no_return_def fin reachable_def)
    qed
    then show ?thesis using I(6) by (auto split: if_splits)
  qed
  moreover have "(\<forall>s \<in> discovered w. reachable f s) = holds W f Accessible" by (auto simp: fin accessible_def reachable_def)
  moreover have "(closed_states w \<subseteq> coaccs (edges f) (finals W f)) = holds W f CoAccessible"
    by (auto simp: cl coaccessible_def coaccs_def finals_def)
  ultimately show thesis
    using that [OF w(1)] I by (simp add: scc_FinishVisit_def)
qed

end
