(* ===== verification/TestProperties.thy ===== *)
theory TestProperties
  imports SccProps
begin

text \<open>
  The computation of properties (src/openfst/lib/test-properties.h) and the member function
  \<open>Properties(mask, test)\<close> of src/openfst/lib/impl-to-fst.h that uses it. The loop over states and arcs is a
  fold; a hash set of labels is a set. \<open>None\<close> is a depth-first visit that does not end.
\<close>

unbundle bit_operations_syntax

section \<open>ComputeProperties\<close>

record 'w prop_vars =
  comp_props :: props
  ilabels :: "int set option"
  olabels :: "int set option"
  prev_arc :: "'w arc option"
  nfinal :: nat

text \<open>\<open>comp_props |= yes; comp_props &= ~no\<close> under a condition.\<close>

definition flip :: "props \<Rightarrow> props \<Rightarrow> bool \<Rightarrow> props \<Rightarrow> props" where
  "flip yes no c p = (if c then (p OR yes) AND NOT no else p)"

definition seen :: "int \<Rightarrow> int set option \<Rightarrow> bool" where
  "seen l labels = (case labels of None \<Rightarrow> False | Some L \<Rightarrow> l \<in> L)"

text \<open>The body of the loop over the arcs of state \<open>s\<close>; \<open>comps\<close> are the component numbers of the states.\<close>

definition compute_arc ::
  "('w, 'z) weight_ops_scheme \<Rightarrow> int list \<Rightarrow> nat \<Rightarrow> 'w arc \<Rightarrow> 'w prop_vars \<Rightarrow> 'w prop_vars" where
  "compute_arc W comps s arc v =
     (let p = comp_props v;
          p = flip kNonIDeterministic kIDeterministic (seen (ilabel arc) (ilabels v)) p;
          p = flip kNonODeterministic kODeterministic (seen (olabel arc) (olabels v)) p;
          p = flip kNotAcceptor kAcceptor (ilabel arc \<noteq> olabel arc) p;
          p = flip kEpsilons kNoEpsilons (ilabel arc = 0 \<and> olabel arc = 0) p;
          p = flip kIEpsilons kNoIEpsilons (ilabel arc = 0) p;
          p = flip kOEpsilons kNoOEpsilons (olabel arc = 0) p;
          p = (case prev_arc v of
                 None \<Rightarrow> p
               | Some prev \<Rightarrow>
                   flip kNotOLabelSorted kOLabelSorted (olabel arc < olabel prev)
                     (flip kNotILabelSorted kILabelSorted (ilabel arc < ilabel prev) p));
          p = (if \<not> Weq W (weight arc) (One W) \<and> \<not> Weq W (weight arc) (Zero W)
               then (let p = flip kWeighted kUnweighted True p
                     in flip kWeightedCycles kUnweightedCycles
                          (has p kUnweightedCycles \<and> comps ! s = comps ! nextstate arc) p)
               else p);
          p = flip kNotTopSorted kTopSorted (nextstate arc \<le> s) p;
          p = flip kNotString kString (nextstate arc \<noteq> s + 1) p
      in v\<lparr>comp_props := p, prev_arc := Some arc,
           ilabels := map_option (insert (ilabel arc)) (ilabels v),
           olabels := map_option (insert (olabel arc)) (olabels v)\<rparr>)"

text \<open>The body of the loop over the states.\<close>

definition compute_state ::
  "('w, 'z) weight_ops_scheme \<Rightarrow> 'w vfst \<Rightarrow> props \<Rightarrow> int list \<Rightarrow> nat \<Rightarrow> 'w prop_vars \<Rightarrow> 'w prop_vars" where
  "compute_state W f pmask comps s v =
     (let v = v\<lparr>prev_arc := None,
                ilabels := (if has pmask (kIDeterministic OR kNonIDeterministic) then Some {} else ilabels v),
                olabels := (if has pmask (kODeterministic OR kNonODeterministic) then Some {} else olabels v)\<rparr>;
          v = fold (compute_arc W comps s) (Arcs f s) v;
          p = flip kNotString kString (nfinal v > 0) (comp_props v);
          w = Final f s
      in if \<not> Weq W w (Zero W)
         then v\<lparr>comp_props := flip kWeighted kUnweighted (\<not> Weq W w (One W)) p, nfinal := nfinal v + 1\<rparr>
         else v\<lparr>comp_props := flip kNotString kString (NumArcs f s \<noteq> 1) p\<rparr>)"

definition compute_states ::
  "('w, 'z) weight_ops_scheme \<Rightarrow> 'w vfst \<Rightarrow> props \<Rightarrow> int list \<Rightarrow> props \<Rightarrow> props" where
  "compute_states W f pmask comps p =
     (let p = p OR (kAcceptor OR kNoEpsilons OR kNoIEpsilons OR kNoOEpsilons OR kILabelSorted OR
                    kOLabelSorted OR kUnweighted OR kTopSorted OR kString);
          p = (if has pmask (kIDeterministic OR kNonIDeterministic) then p OR kIDeterministic else p);
          p = (if has pmask (kODeterministic OR kNonODeterministic) then p OR kODeterministic else p);
          p = (if has pmask (kDfsProps OR kWeightedCycles OR kUnweightedCycles) then p OR kUnweightedCycles else p);
          v = fold (compute_state W f pmask comps) [0 ..< NumStates f]
                \<lparr>comp_props = p, ilabels = None, olabels = None, prev_arc = None, nfinal = 0\<rparr>
      in flip kNotString kString (start f \<noteq> None \<and> start f \<noteq> Some 0) (comp_props v))"

definition ComputeProperties ::
  "('w, 'z) weight_ops_scheme \<Rightarrow> 'w vfst \<Rightarrow> props \<Rightarrow> (props \<times> props) option" where
  "ComputeProperties W f pmask =
     (let fst_props = Properties f kFstProperties;
          p = fst_props AND kBinaryProperties;
          visited = (if has pmask (kDfsProps OR kWeightedCycles OR kUnweightedCycles)
                     then map_option (\<lambda>u. (scc_props u, the (scc u)))
                            (DfsVisit f (SccVisitor W) AnyArcFilter False (new_SccVisitor True False p f))
                     else Some (p, []))
      in map_option (\<lambda>(p, comps).
           let p = (if has pmask (NOT (kBinaryProperties OR kDfsProps)) then compute_states W f pmask comps p else p)
           in (p, KnownProperties p)) visited)"

definition ComputeOrUseStoredProperties ::
  "('w, 'z) weight_ops_scheme \<Rightarrow> 'w vfst \<Rightarrow> props \<Rightarrow> (props \<times> props) option" where
  "ComputeOrUseStoredProperties W f pmask =
     (let fst_props = Properties f kFstProperties;
          known_props = KnownProperties fst_props
      in if known_props AND pmask = pmask then Some (fst_props, known_props) else ComputeProperties W f pmask)"

text \<open>\<open>verify\<close> is the flag \<open>fst_verify_properties\<close>; the error that the function may report changes no result.\<close>

definition TestProperties ::
  "bool \<Rightarrow> ('w, 'z) weight_ops_scheme \<Rightarrow> 'w vfst \<Rightarrow> props \<Rightarrow> (props \<times> props) option" where
  "TestProperties verify W f pmask =
     (if verify then ComputeProperties W f pmask else ComputeOrUseStoredProperties W f pmask)"

definition CheckProperties ::
  "bool \<Rightarrow> ('w, 'z) weight_ops_scheme \<Rightarrow> 'w vfst \<Rightarrow> props \<Rightarrow> props \<Rightarrow> props option" where
  "CheckProperties verify W f check_mask test_mask =
     (let props = Properties f kFstProperties
      in map_option (\<lambda>p. p AND (check_mask OR test_mask))
           (if verify then map_option fst (TestProperties verify W f (check_mask OR test_mask))
            else if KnownProperties props AND check_mask \<noteq> check_mask
            then map_option fst (ComputeProperties W f (check_mask OR test_mask))
            else Some props))"

text \<open>\<open>Properties(mask, true)\<close>: the result and the FST with its stored properties updated.\<close>

definition PropertiesTest ::
  "bool \<Rightarrow> ('w, 'z) weight_ops_scheme \<Rightarrow> 'w vfst \<Rightarrow> props \<Rightarrow> (props \<times> 'w vfst) option" where
  "PropertiesTest verify W f pmask =
     map_option (\<lambda>(testprops, knownprops). (testprops AND pmask, UpdateProperties testprops knownprops f))
       (TestProperties verify W f pmask)"

section \<open>One arc\<close>

text \<open>The properties whose value is true as soon as one state or arc has a feature.\<close>

definition existential :: "trinary \<Rightarrow> bool" where
  "existential t \<longleftrightarrow> t \<in> {Epsilons, IEpsilons, OEpsilons, Weighted, WeightedCycles}"

definition join :: "trinary \<Rightarrow> bool \<Rightarrow> bool \<Rightarrow> bool" where
  "join t b c = (if existential t then b \<or> c else b \<and> c)"

abbreviation dfs_trinary :: "trinary set" where
  "dfs_trinary \<equiv> {Cyclic, InitialCyclic, Accessible, CoAccessible}"

text \<open>The value that the arcs \<open>as\<close> of state \<open>s\<close> give to a property that is not about the graph.\<close>

primrec arcs_value :: "('w, 'z) weight_ops_scheme \<Rightarrow> int list \<Rightarrow> nat \<Rightarrow> 'w arc list \<Rightarrow> trinary \<Rightarrow> bool" where
  "arcs_value W comps s as Acceptor = (\<forall>a \<in> set as. ilabel a = olabel a)"
| "arcs_value W comps s as IDeterministic = distinct (map ilabel as)"
| "arcs_value W comps s as ODeterministic = distinct (map olabel as)"
| "arcs_value W comps s as Epsilons = (\<exists>a \<in> set as. ilabel a = 0 \<and> olabel a = 0)"
| "arcs_value W comps s as IEpsilons = (\<exists>a \<in> set as. ilabel a = 0)"
| "arcs_value W comps s as OEpsilons = (\<exists>a \<in> set as. olabel a = 0)"
| "arcs_value W comps s as ILabelSorted = sorted (map ilabel as)"
| "arcs_value W comps s as OLabelSorted = sorted (map olabel as)"
| "arcs_value W comps s as Weighted = (\<exists>a \<in> set as. nontrivial W (weight a))"
| "arcs_value W comps s as Cyclic = True"
| "arcs_value W comps s as InitialCyclic = True"
| "arcs_value W comps s as TopSorted = (\<forall>a \<in> set as. s < nextstate a)"
| "arcs_value W comps s as Accessible = True"
| "arcs_value W comps s as CoAccessible = True"
| "arcs_value W comps s as IsString = (\<forall>a \<in> set as. nextstate a = s + 1)"
| "arcs_value W comps s as WeightedCycles = (\<exists>a \<in> set as. nontrivial W (weight a) \<and> comps ! s = comps ! nextstate a)"

lemma arcs_value_Nil: "t \<notin> dfs_trinary \<Longrightarrow> arcs_value W comps s [] t \<longleftrightarrow> \<not> existential t"
  by (cases t) (simp_all add: existential_def)

lemma recorded_flip:
  "recorded (flip kNonIDeterministic kIDeterministic c p) t b \<longleftrightarrow> (if t = IDeterministic \<and> c then \<not> b else recorded p t b)"
  "recorded (flip kNonODeterministic kODeterministic c p) t b \<longleftrightarrow> (if t = ODeterministic \<and> c then \<not> b else recorded p t b)"
  "recorded (flip kNotAcceptor kAcceptor c p) t b \<longleftrightarrow> (if t = Acceptor \<and> c then \<not> b else recorded p t b)"
  "recorded (flip kEpsilons kNoEpsilons c p) t b \<longleftrightarrow> (if t = Epsilons \<and> c then b else recorded p t b)"
  "recorded (flip kIEpsilons kNoIEpsilons c p) t b \<longleftrightarrow> (if t = IEpsilons \<and> c then b else recorded p t b)"
  "recorded (flip kOEpsilons kNoOEpsilons c p) t b \<longleftrightarrow> (if t = OEpsilons \<and> c then b else recorded p t b)"
  "recorded (flip kNotILabelSorted kILabelSorted c p) t b \<longleftrightarrow> (if t = ILabelSorted \<and> c then \<not> b else recorded p t b)"
  "recorded (flip kNotOLabelSorted kOLabelSorted c p) t b \<longleftrightarrow> (if t = OLabelSorted \<and> c then \<not> b else recorded p t b)"
  "recorded (flip kWeighted kUnweighted c p) t b \<longleftrightarrow> (if t = Weighted \<and> c then b else recorded p t b)"
  "recorded (flip kWeightedCycles kUnweightedCycles c p) t b \<longleftrightarrow> (if t = WeightedCycles \<and> c then b else recorded p t b)"
  "recorded (flip kNotTopSorted kTopSorted c p) t b \<longleftrightarrow> (if t = TopSorted \<and> c then \<not> b else recorded p t b)"
  "recorded (flip kNotString kString c p) t b \<longleftrightarrow> (if t = IsString \<and> c then \<not> b else recorded p t b)"
  by (cases t; auto simp: flip_def recorded_def prop_bits)+

lemma recorded_has_unweighted: "recorded p WeightedCycles b \<Longrightarrow> has p kUnweightedCycles \<longleftrightarrow> \<not> b"
  by (simp add: recorded_def prop_bits)

text \<open>What one more arc \<open>a\<close> behind the arcs \<open>as\<close> adds to the value of a property.\<close>

definition arc_value :: "('w, 'z) weight_ops_scheme \<Rightarrow> int list \<Rightarrow> nat \<Rightarrow> 'w arc list \<Rightarrow> 'w arc \<Rightarrow> trinary \<Rightarrow> bool" where
  "arc_value W comps s as a t =
     (case t of IDeterministic \<Rightarrow> ilabel a \<notin> ilabel ` set as | ODeterministic \<Rightarrow> olabel a \<notin> olabel ` set as
      | ILabelSorted \<Rightarrow> as = [] \<or> ilabel (last as) \<le> ilabel a | OLabelSorted \<Rightarrow> as = [] \<or> olabel (last as) \<le> olabel a
      | _ \<Rightarrow> arcs_value W comps s [a] t)"

lemma arcs_value_snoc:
  "t \<notin> dfs_trinary \<Longrightarrow>
    arcs_value W comps s (as @ [a]) t \<longleftrightarrow> join t (arcs_value W comps s as t) (arc_value W comps s as a t)"
  by (cases t) (auto simp: arc_value_def join_def existential_def sorted_snoc, (metis last_map)+)

lemma join_assoc: "join t b (join t c d) = join t (join t b c) d"
  by (simp add: join_def)

lemma compute_arc_recorded:
  assumes r: "recorded (comp_props v) t b" and t: "t \<notin> dfs_trinary"
    and i: "t = IDeterministic \<Longrightarrow> ilabels v = Some (ilabel ` set as)" and o: "t = ODeterministic \<Longrightarrow> olabels v = Some (olabel ` set as)"
    and pr: "prev_arc v = (if as = [] then None else Some (last as))"
  shows "recorded (comp_props (compute_arc W comps s a v)) t (join t b (arc_value W comps s as a t))"
proof (cases "t = WeightedCycles")
  case False
  then show ?thesis
    using r t i o pr
    by (cases t) (auto simp: compute_arc_def Let_def recorded_flip join_def existential_def seen_def nontrivial_def arc_value_def split: option.splits)
next
  case True
  then show ?thesis
    using r by (cases b) (auto simp: compute_arc_def Let_def recorded_flip join_def existential_def nontrivial_def arc_value_def
        recorded_has_unweighted split: option.splits)
qed

text \<open>The bits that the loop does not touch.\<close>

definition keeps :: "'w prop_vars \<Rightarrow> nat \<Rightarrow> bool" where
  "keeps v n \<longleftrightarrow> n < 16 \<or> n \<in> {34 ..< 38} \<or> n \<in> {40 ..< 44} \<or> 48 \<le> n \<or> (n = 18 \<or> n = 19) \<and> ilabels v = None \<or>
     (n = 20 \<or> n = 21) \<and> olabels v = None \<or> (n = 46 \<or> n = 47) \<and> \<not> bit (comp_props v) 47"

lemma flip_other: "n < 64 \<Longrightarrow> \<not> bit yes n \<Longrightarrow> \<not> bit no n \<Longrightarrow> bit (flip yes no c p) n \<longleftrightarrow> bit p n"
  by (simp add: flip_def bit_and_iff bit_or_iff bit_NOT_word64)

lemma flip_False [simp]: "flip yes no False p = p"
  by (simp add: flip_def)

lemma has_unweighted: "has p kUnweightedCycles \<longleftrightarrow> bit p 47"
  by (simp add: has_iff bit_kUnweightedCycles)

lemmas flip_bits = flip_other bit_kAcceptor bit_kNotAcceptor bit_kIDeterministic bit_kNonIDeterministic bit_kODeterministic
  bit_kNonODeterministic bit_kEpsilons bit_kNoEpsilons bit_kIEpsilons bit_kNoIEpsilons bit_kOEpsilons bit_kNoOEpsilons
  bit_kILabelSorted bit_kNotILabelSorted bit_kOLabelSorted bit_kNotOLabelSorted bit_kWeighted bit_kUnweighted
  bit_kTopSorted bit_kNotTopSorted bit_kString bit_kNotString bit_kWeightedCycles bit_kUnweightedCycles

lemma compute_arc_keeps:
  assumes k: "keeps v n" and n: "n < 64"
  shows "bit (comp_props (compute_arc W comps s a v)) n \<longleftrightarrow> bit (comp_props v) n"
proof -
  consider "n < 16 \<or> n \<in> {34 ..< 38} \<or> n \<in> {40 ..< 44} \<or> 48 \<le> n" | "n = 18 \<or> n = 19" "ilabels v = None"
    | "n = 20 \<or> n = 21" "olabels v = None" | "n = 46 \<or> n = 47" "\<not> bit (comp_props v) 47"
    using k unfolding keeps_def by metis
  then show ?thesis
  proof cases
    case 1
    then have h: "\<And>m. m \<in> {16 ..< 34} \<or> m \<in> {38, 39, 44, 45, 46, 47} \<Longrightarrow> n \<noteq> m" by auto
    show ?thesis using n h
      by (simp add: compute_arc_def Let_def flip_bits split: option.split)
  next
    case 2
    then show ?thesis by (elim disjE) (simp_all add: compute_arc_def Let_def seen_def flip_bits split: option.split)
  next
    case 3
    then show ?thesis by (elim disjE) (simp_all add: compute_arc_def Let_def seen_def flip_bits split: option.split)
  next
    case 4
    then show ?thesis by (elim disjE) (simp_all add: compute_arc_def Let_def has_unweighted flip_bits split: option.split)
  qed
qed


section \<open>The loops\<close>

text \<open>The properties that the loop over states determines for a given mask.\<close>

definition tracked :: "props \<Rightarrow> trinary \<Rightarrow> bool" where
  "tracked pmask t \<longleftrightarrow> t \<notin> dfs_trinary \<and>
     (t = IDeterministic \<longrightarrow> has pmask (kIDeterministic OR kNonIDeterministic)) \<and>
     (t = ODeterministic \<longrightarrow> has pmask (kODeterministic OR kNonODeterministic)) \<and>
     (t = WeightedCycles \<longrightarrow> has pmask (kDfsProps OR kWeightedCycles OR kUnweightedCycles))"

lemma compute_arc_sel [simp]:
  "ilabels (compute_arc W comps s a v) = map_option (insert (ilabel a)) (ilabels v)"
  "olabels (compute_arc W comps s a v) = map_option (insert (olabel a)) (olabels v)"
  "prev_arc (compute_arc W comps s a v) = Some a" "nfinal (compute_arc W comps s a v) = nfinal v"
  by (simp_all add: compute_arc_def Let_def)

lemma compute_arcs_sel:
  assumes "prev_arc v = None"
  shows "ilabels (fold (compute_arc W comps s) as v) = map_option (\<lambda>L. L \<union> ilabel ` set as) (ilabels v)"
    "olabels (fold (compute_arc W comps s) as v) = map_option (\<lambda>L. L \<union> olabel ` set as) (olabels v)"
    "prev_arc (fold (compute_arc W comps s) as v) = (if as = [] then None else Some (last as))"
    "nfinal (fold (compute_arc W comps s) as v) = nfinal v"
proof -
  show "ilabels (fold (compute_arc W comps s) as v) = map_option (\<lambda>L. L \<union> ilabel ` set as) (ilabels v)"
    by (induction as rule: rev_induct) (cases "ilabels v"; simp)+
  show "olabels (fold (compute_arc W comps s) as v) = map_option (\<lambda>L. L \<union> olabel ` set as) (olabels v)"
    by (induction as rule: rev_induct) (cases "olabels v"; simp)+
  show "prev_arc (fold (compute_arc W comps s) as v) = (if as = [] then None else Some (last as))"
    using assms by (induction as rule: rev_induct) simp_all
  show "nfinal (fold (compute_arc W comps s) as v) = nfinal v" by (induction as rule: rev_induct) simp_all
qed

lemma compute_arcs_recorded:
  assumes r: "recorded (comp_props v) t b" and t: "t \<notin> dfs_trinary"
    and i: "t = IDeterministic \<Longrightarrow> ilabels v = Some {}" and o: "t = ODeterministic \<Longrightarrow> olabels v = Some {}" and pr: "prev_arc v = None"
  shows "recorded (comp_props (fold (compute_arc W comps s) as v)) t (join t b (arcs_value W comps s as t))"
proof (induction as rule: rev_induct)
  case Nil
  then show ?case using r arcs_value_Nil [OF t, of W comps s] by (simp add: join_def)
next
  case (snoc a as)
  note sel = compute_arcs_sel [OF pr, of W comps s as]
  show ?case
    using compute_arc_recorded [OF snoc t, where as = as and a = a] i o sel by (simp add: arcs_value_snoc [OF t] join_assoc)
qed

lemma compute_arcs_keeps:
  assumes k: "keeps v n" and n: "n < 64" and pr: "prev_arc v = None"
  shows "(bit (comp_props (fold (compute_arc W comps s) as v)) n \<longleftrightarrow> bit (comp_props v) n) \<and>
    keeps (fold (compute_arc W comps s) as v) n"
proof (induction as rule: rev_induct)
  case Nil
  then show ?case using k by simp
next
  case (snoc a as)
  let ?v = "fold (compute_arc W comps s) as v"
  have "\<not> bit (comp_props (compute_arc W comps s a ?v)) 47" if "\<not> bit (comp_props ?v) 47"
    using compute_arc_keeps [of ?v 47] that by (simp add: keeps_def)
  then have "keeps (compute_arc W comps s a ?v) n" using snoc by (auto simp: keeps_def)
  then show ?case using snoc compute_arc_keeps [of ?v n] n by simp
qed

text \<open>The value that a state gives to a property; \<open>fin\<close>: an earlier state is final.\<close>

definition state_value :: "('w, 'z) weight_ops_scheme \<Rightarrow> int list \<Rightarrow> 'w vfst \<Rightarrow> nat \<Rightarrow> trinary \<Rightarrow> bool" where
  "state_value W comps f s t =
     (case t of
        Weighted \<Rightarrow> arcs_value W comps s (Arcs f s) t \<or> nontrivial W (Final f s)
      | IsString \<Rightarrow> arcs_value W comps s (Arcs f s) t \<and> (\<forall>r < s. Weq W (Final f r) (Zero W)) \<and>
                    (Weq W (Final f s) (Zero W) \<longrightarrow> NumArcs f s = 1)
      | _ \<Rightarrow> arcs_value W comps s (Arcs f s) t)"

lemma compute_state_recorded:
  assumes r: "recorded (comp_props v) t b" and t: "tracked pmask t" and nf: "nfinal v = 0 \<longleftrightarrow> (\<forall>r < s. Weq W (Final f r) (Zero W))"
  shows "recorded (comp_props (compute_state W f pmask comps s v)) t (join t b (state_value W comps f s t))"
proof -
  let ?v = "v\<lparr>prev_arc := None,
      ilabels := (if has pmask (kIDeterministic OR kNonIDeterministic) then Some {} else ilabels v),
      olabels := (if has pmask (kODeterministic OR kNonODeterministic) then Some {} else olabels v)\<rparr>"
  have t': "t \<notin> dfs_trinary" using t unfolding tracked_def by blast
  have "recorded (comp_props (fold (compute_arc W comps s) (Arcs f s) ?v)) t (join t b (arcs_value W comps s (Arcs f s) t))"
    by (rule compute_arcs_recorded [OF _ t']) (use r t in \<open>auto simp: tracked_def\<close>)
  moreover have "nfinal (fold (compute_arc W comps s) (Arcs f s) ?v) = nfinal v" by (simp add: compute_arcs_sel(4))
  ultimately show ?thesis
    using nf t' unfolding compute_state_def Let_def
    by (cases t) (auto simp: recorded_flip join_def existential_def state_value_def nontrivial_def)
qed


text \<open>The bits that no state changes for a given mask.\<close>

definition untouched :: "props \<Rightarrow> nat \<Rightarrow> bool" where
  "untouched pmask n \<longleftrightarrow> n < 16 \<or> n \<in> {34 ..< 38} \<or> n \<in> {40 ..< 44} \<or> 48 \<le> n \<or>
     (n = 18 \<or> n = 19) \<and> \<not> has pmask (kIDeterministic OR kNonIDeterministic) \<or>
     (n = 20 \<or> n = 21) \<and> \<not> has pmask (kODeterministic OR kNonODeterministic) \<or>
     (n = 46 \<or> n = 47) \<and> \<not> has pmask (kDfsProps OR kWeightedCycles OR kUnweightedCycles)"

text \<open>What holds between two states of the loop.\<close>

definition loop_ok :: "('w, 'z) weight_ops_scheme \<Rightarrow> 'w vfst \<Rightarrow> props \<Rightarrow> nat \<Rightarrow> 'w prop_vars \<Rightarrow> bool" where
  "loop_ok W f pmask k v \<longleftrightarrow>
     (\<not> has pmask (kIDeterministic OR kNonIDeterministic) \<longrightarrow> ilabels v = None) \<and>
     (\<not> has pmask (kODeterministic OR kNonODeterministic) \<longrightarrow> olabels v = None) \<and>
     (\<not> has pmask (kDfsProps OR kWeightedCycles OR kUnweightedCycles) \<longrightarrow> \<not> bit (comp_props v) 47) \<and>
     (nfinal v = 0 \<longleftrightarrow> (\<forall>r < k. Weq W (Final f r) (Zero W)))"

lemma compute_state_keeps:
  assumes ok: "loop_ok W f pmask s v" and u: "untouched pmask n" and n: "n < 64"
  shows "bit (comp_props (compute_state W f pmask comps s v)) n \<longleftrightarrow> bit (comp_props v) n"
proof -
  let ?v = "v\<lparr>prev_arc := None,
      ilabels := (if has pmask (kIDeterministic OR kNonIDeterministic) then Some {} else ilabels v),
      olabels := (if has pmask (kODeterministic OR kNonODeterministic) then Some {} else olabels v)\<rparr>"
  have "keeps ?v n" using u ok unfolding untouched_def keeps_def loop_ok_def by auto
  then have "bit (comp_props (fold (compute_arc W comps s) (Arcs f s) ?v)) n \<longleftrightarrow> bit (comp_props v) n"
    using compute_arcs_keeps [of ?v n W comps s "Arcs f s"] n by simp
  moreover have "n \<noteq> 32 \<and> n \<noteq> 33 \<and> n \<noteq> 44 \<and> n \<noteq> 45" using u by (auto simp: untouched_def)
  ultimately show ?thesis using n by (simp add: compute_state_def Let_def flip_bits)
qed

lemma loop_ok_step:
  assumes ok: "loop_ok W f pmask s v"
  shows "loop_ok W f pmask (Suc s) (compute_state W f pmask comps s v)"
proof -
  let ?w = "compute_state W f pmask comps s v"
  have "\<not> bit (comp_props ?w) 47" if "\<not> has pmask (kDfsProps OR kWeightedCycles OR kUnweightedCycles)"
    using compute_state_keeps [OF ok, of 47 comps] that ok by (auto simp: untouched_def loop_ok_def)
  moreover have "nfinal ?w = nfinal v + (if Weq W (Final f s) (Zero W) then 0 else 1)"
    by (simp add: compute_state_def Let_def compute_arcs_sel(4))
  moreover have "ilabels ?w = None" if "\<not> has pmask (kIDeterministic OR kNonIDeterministic)"
    using that ok by (simp add: compute_state_def Let_def compute_arcs_sel(1) loop_ok_def)
  moreover have "olabels ?w = None" if "\<not> has pmask (kODeterministic OR kNonODeterministic)"
    using that ok by (simp add: compute_state_def Let_def compute_arcs_sel(2) loop_ok_def)
  ultimately show ?thesis using ok by (auto simp: loop_ok_def less_Suc_eq)
qed

definition scan_value :: "('w, 'z) weight_ops_scheme \<Rightarrow> int list \<Rightarrow> 'w vfst \<Rightarrow> nat \<Rightarrow> trinary \<Rightarrow> bool" where
  "scan_value W comps f n t =
     (if existential t then \<exists>s < n. state_value W comps f s t else \<forall>s < n. state_value W comps f s t)"

lemma scan_value_Suc: "scan_value W comps f (Suc n) t = join t (scan_value W comps f n t) (state_value W comps f n t)"
  by (auto simp: scan_value_def join_def less_Suc_eq)

lemma compute_states_loop:
  assumes ok: "loop_ok W f pmask 0 v"
  shows "loop_ok W f pmask k (fold (compute_state W f pmask comps) [0 ..< k] v) \<and>
    (\<forall>n < 64. untouched pmask n \<longrightarrow> bit (comp_props (fold (compute_state W f pmask comps) [0 ..< k] v)) n = bit (comp_props v) n) \<and>
    (\<forall>t. tracked pmask t \<and> recorded (comp_props v) t (\<not> existential t) \<longrightarrow>
       recorded (comp_props (fold (compute_state W f pmask comps) [0 ..< k] v)) t (scan_value W comps f k t))"
proof (induction k)
  case 0
  then show ?case using ok by (simp add: scan_value_def)
next
  case (Suc k)
  let ?v = "fold (compute_state W f pmask comps) [0 ..< k] v"
  have nf: "nfinal ?v = 0 \<longleftrightarrow> (\<forall>r < k. Weq W (Final f r) (Zero W))" using Suc by (simp add: loop_ok_def)
  show ?case
    using Suc loop_ok_step [of W f pmask k ?v comps] compute_state_keeps [of W f pmask k ?v _ comps]
      compute_state_recorded [OF _ _ nf, of _ _ pmask comps]
    by (simp add: scan_value_Suc)
qed

lemma trans_quant:
  "(\<exists>x \<in> trans f. P x) \<longleftrightarrow> (\<exists>s < NumStates f. \<exists>a \<in> set (Arcs f s). P (s, a))"
  "(\<forall>x \<in> trans f. P x) \<longleftrightarrow> (\<forall>s < NumStates f. \<forall>a \<in> set (Arcs f s). P (s, a))"
  by (auto simp: trans_def)

text \<open>The scan of all states gives the meaning of a property.\<close>

lemma scan_holds:
  assumes "\<And>s t. (s, t) \<in> edges f \<Longrightarrow> tracked pmask WeightedCycles \<Longrightarrow> comps ! s = comps ! t \<longleftrightarrow> (t, s) \<in> (edges f)\<^sup>*"
    and t: "tracked pmask t"
  shows "holds W f t \<longleftrightarrow> scan_value W comps f (NumStates f) t \<and> (t = IsString \<longrightarrow> start f = None \<or> start f = Some 0)"
proof (cases t)
  case WeightedCycles
  then have "comps ! s = comps ! nextstate a \<longleftrightarrow> (nextstate a, s) \<in> (edges f)\<^sup>*" if "(s, a) \<in> trans f" for s a
    using assms(1) [OF edgesI [OF that]] t by simp
  then have "(nontrivial W (weight a) \<and> comps ! s = comps ! nextstate a) \<longleftrightarrow> (nontrivial W (weight a) \<and> (nextstate a, s) \<in> (edges f)\<^sup>*)"
    if "s < NumStates f" "a \<in> set (Arcs f s)" for s a using that by (auto simp: trans_iff)
  then have "(\<exists>s < NumStates f. \<exists>a \<in> set (Arcs f s). nontrivial W (weight a) \<and> comps ! s = comps ! nextstate a) \<longleftrightarrow>
      (\<exists>s < NumStates f. \<exists>a \<in> set (Arcs f s). nontrivial W (weight a) \<and> (nextstate a, s) \<in> (edges f)\<^sup>*)" by blast
  moreover have "weighted_cycles W f \<longleftrightarrow>
      (\<exists>s < NumStates f. \<exists>a \<in> set (Arcs f s). nontrivial W (weight a) \<and> (nextstate a, s) \<in> (edges f)\<^sup>*)"
    by (simp add: weighted_cycles_def trans_quant)
  ultimately show ?thesis unfolding WeightedCycles by (simp add: scan_value_def existential_def state_value_def)
next
  case IsString
  have "(\<forall>s < NumStates f. \<forall>r < s. Weq W (Final f r) (Zero W)) \<longleftrightarrow> (\<forall>s < NumStates f. final_state W f s \<longrightarrow> s + 1 = NumStates f)"
  proof (intro iffI allI impI)
    fix s assume h: "\<forall>s < NumStates f. \<forall>r < s. Weq W (Final f r) (Zero W)" "s < NumStates f" "final_state W f s"
    have "\<not> Suc s < NumStates f" using h(1,3) by (auto simp: final_state_def)
    then show "s + 1 = NumStates f" using h(2) by simp
  next
    fix s r assume "\<forall>s < NumStates f. final_state W f s \<longrightarrow> s + 1 = NumStates f" "s < NumStates f" "r < s"
    then show "Weq W (Final f r) (Zero W)" unfolding final_state_def by (metis add.commute less_trans not_less_eq plus_1_eq_Suc)
  qed
  then show ?thesis
    unfolding IsString by (auto simp: scan_value_def existential_def state_value_def is_string_def NumArcs_def Arcs_def final_state_def)
qed (use t in \<open>auto simp: scan_value_def existential_def state_value_def weighted_def trans_quant tracked_def\<close>)


section \<open>The result\<close>

lemma compute_states_spec:
  fixes W :: "('w, 'z) weight_ops_scheme"
  assumes comps: "\<And>s t. (s, t) \<in> edges f \<Longrightarrow> tracked pmask WeightedCycles \<Longrightarrow> comps ! s = comps ! t \<longleftrightarrow> (t, s) \<in> (edges f)\<^sup>*"
    and cl: "\<And>n. 16 \<le> n \<Longrightarrow> n < 34 \<or> 38 \<le> n \<and> n < 40 \<or> 44 \<le> n \<and> n < 48 \<Longrightarrow> \<not> bit p n"
  shows "tracked pmask t \<Longrightarrow> recorded (compute_states W f pmask comps p) t (holds W f t)"
    and "n < 64 \<Longrightarrow> untouched pmask n \<Longrightarrow> bit (compute_states W f pmask comps p) n \<longleftrightarrow> bit p n"
proof -
  define q where "q = (p OR (kAcceptor OR kNoEpsilons OR kNoIEpsilons OR kNoOEpsilons OR kILabelSorted OR
      kOLabelSorted OR kUnweighted OR kTopSorted OR kString)) OR
      (if has pmask (kIDeterministic OR kNonIDeterministic) then kIDeterministic else 0) OR
      (if has pmask (kODeterministic OR kNonODeterministic) then kODeterministic else 0) OR
      (if has pmask (kDfsProps OR kWeightedCycles OR kUnweightedCycles) then kUnweightedCycles else 0)"
  define v :: "'w prop_vars" where "v = \<lparr>comp_props = q, ilabels = None, olabels = None, prev_arc = None, nfinal = 0\<rparr>"
  define w where "w = fold (compute_state W f pmask comps) [0 ..< NumStates f] v"
  have res: "compute_states W f pmask comps p = flip kNotString kString (start f \<noteq> None \<and> start f \<noteq> Some 0) (comp_props w)"
    unfolding compute_states_def Let_def w_def v_def q_def by (simp add: or.assoc)
  have ok: "loop_ok W f pmask 0 v" by (auto simp: loop_ok_def v_def q_def cl bit_or_iff bit_If flip_bits bit_kIDeterministic)
  note L = compute_states_loop [OF ok, of "NumStates f" comps, folded w_def]
  show "recorded (compute_states W f pmask comps p) t (holds W f t)" if t: "tracked pmask t"
  proof -
    have "recorded q t (\<not> existential t)"
      using t by (cases t) (simp_all add: recorded_def q_def existential_def tracked_def cl bit_or_iff bit_If flip_bits)
    then have "recorded (comp_props w) t (scan_value W comps f (NumStates f) t)" using L t by (simp add: v_def)
    then show ?thesis using scan_holds [OF comps t, of W] by (cases t) (auto simp: res recorded_flip)
  qed
  show "bit (compute_states W f pmask comps p) n \<longleftrightarrow> bit p n" if "n < 64" "untouched pmask n"
  proof -
    have h: "n \<noteq> 44 \<and> n \<noteq> 45" using that by (auto simp: untouched_def)
    have "bit q n = bit p n"
      using that unfolding untouched_def by (auto simp: q_def bit_or_iff bit_If flip_bits)
    then show ?thesis using L that h by (simp add: res flip_bits v_def)
  qed
qed


lemma bit_kDfsProps: "bit kDfsProps n \<longleftrightarrow> n \<in> {34 ..< 38} \<or> n \<in> {40 ..< 44}"
  by (auto simp: kDfsProps_def prop_bits)

lemma bit_kBinaryProperties: "bit kBinaryProperties n \<longleftrightarrow> n < 3"
proof -
  have e: "kBinaryProperties = mask 3" by (simp add: kBinaryProperties_def mask_eq_exp_minus_1)
  show ?thesis unfolding e bit_mask_iff by (auto simp: possible_bit_def)
qed

text \<open>A visit of an FST that is empty or has a start state.\<close>

lemma compute_visit:
  assumes wf: "wf_fst f" and st: "start f = None \<Longrightarrow> NumStates f = 0"
  obtains u where "DfsVisit f (SccVisitor W) AnyArcFilter False (new_SccVisitor True False p f) = Some u"
    "\<And>t. t \<in> dfs_trinary \<Longrightarrow> recorded (scc_props u) t (holds W f t)" "same_others (scc_props u) p"
    "\<And>s t. (s, t) \<in> edges f \<Longrightarrow> the (scc u) ! s = the (scc u) ! t \<longleftrightarrow> (t, s) \<in> (edges f)\<^sup>*"
proof (cases "start f")
  case None
  then have e: "edges f = {}" "NumStates f = 0" using st by (auto simp: edges_def trans_def)
  let ?u = "scc_FinishVisit (scc_InitVisit f (new_SccVisitor True False p f))"
  have "DfsVisit f (SccVisitor W) AnyArcFilter False (new_SccVisitor True False p f) = Some ?u"
    using None by (simp add: DfsVisit_def)
  moreover have "recorded (scc_props ?u) t (holds W f t)" if "t \<in> dfs_trinary" for t
    using that e None by (auto simp: scc_FinishVisit_def scc_InitVisit_def recorded_def prop_bits accessible_def coaccessible_def)
  moreover have "same_others (scc_props ?u) p"
    by (auto simp: same_others_iff scc_FinishVisit_def scc_InitVisit_def new_SccVisitor_def kDfsProps_def prop_bits)
  ultimately show ?thesis using that e by blast
next
  case (Some s)
  let ?u0 = "new_SccVisitor True False p f"
  have so: "scc ?u0 \<noteq> None" by (simp add: new_SccVisitor_def)
  obtain u where u: "DfsVisit f (SccVisitor W) AnyArcFilter False ?u0 = Some u" "same_others (scc_props u) (scc_props ?u0)"
    "recorded (scc_props u) Cyclic (holds W f Cyclic)" "recorded (scc_props u) InitialCyclic (holds W f InitialCyclic)"
    "recorded (scc_props u) Accessible (holds W f Accessible)" "recorded (scc_props u) CoAccessible (holds W f CoAccessible)"
    by (rule scc_visit_bits [OF wf Some])
  have "the (scc u) ! s = the (scc u) ! t \<longleftrightarrow> (t, s) \<in> (edges f)\<^sup>*" if e: "(s, t) \<in> edges f" for s t
  proof -
    have "s < NumStates f" "t < NumStates f" using e wf_trans [OF wf] by (auto simp: edges_iff trans_iff)
    then show ?thesis
      using e by (cases rule: scc_visit [OF wf Some, of W ?u0]) (use u(1) so in \<open>auto simp: same_component_def\<close>)
  qed
  moreover have "same_others (scc_props u) p" using u(2) by (simp add: new_SccVisitor_def)
  moreover have "recorded (scc_props u) t (holds W f t)" if "t \<in> dfs_trinary" for t using that u(3-6) by blast
  ultimately show ?thesis using that [OF u(1)] by blast
qed


lemma trinary_bits: "16 \<le> pos_bit t" "Suc (pos_bit t) < 48" "t \<in> dfs_trinary \<Longrightarrow> untouched pmask (pos_bit t) \<and> untouched pmask (Suc (pos_bit t))"
  "t \<in> dfs_trinary \<Longrightarrow> bit kDfsProps (pos_bit t) \<and> bit kDfsProps (Suc (pos_bit t))"
  "t \<notin> dfs_trinary \<Longrightarrow> \<not> bit kDfsProps (pos_bit t) \<and> \<not> bit kDfsProps (Suc (pos_bit t))"
  by (cases t; auto simp: untouched_def bit_kDfsProps)+

lemma untracked_bits: "\<not> tracked pmask t \<Longrightarrow> untouched pmask (pos_bit t) \<and> untouched pmask (Suc (pos_bit t))"
  by (cases t) (auto simp: tracked_def untouched_def)

text \<open>The properties that a mask asks for are determined: by the visit, or by the scan of the states.\<close>

definition asked :: "props \<Rightarrow> trinary \<Rightarrow> bool" where
  "asked pmask t \<longleftrightarrow> bit pmask (pos_bit t) \<or> bit pmask (Suc (pos_bit t))"

lemma asked_visit: "asked pmask t \<Longrightarrow> t \<in> dfs_trinary \<Longrightarrow> has pmask (kDfsProps OR kWeightedCycles OR kUnweightedCycles)"
  using trinary_bits(4) [of t] unfolding asked_def has_iff bit_or_iff by blast

lemma asked_scan:
  assumes "asked pmask t" "t \<notin> dfs_trinary"
  shows "has pmask (NOT (kBinaryProperties OR kDfsProps))" "tracked pmask t"
proof -
  show "has pmask (NOT (kBinaryProperties OR kDfsProps))"
  proof -
    have "bit (NOT (kBinaryProperties OR kDfsProps)) n" if "n = pos_bit t \<or> n = Suc (pos_bit t)" for n
    proof -
      have n: "n < 64" "\<not> n < 3" "\<not> bit kDfsProps n" using that trinary_bits(1,2) [of t] trinary_bits(5) [OF assms(2)] by auto
      then show ?thesis unfolding bit_NOT_word64 [OF n(1)] bit_or_iff bit_kBinaryProperties by blast
    qed
    then show ?thesis using assms(1) unfolding asked_def has_iff by blast
  qed
  show "tracked pmask t"
    using assms unfolding tracked_def asked_def has_iff by (auto simp: bit_or_iff flip_bits)
qed

theorem ComputeProperties_spec:
  assumes wf: "wf_fst f" and st: "start f = None \<Longrightarrow> NumStates f = 0"
  obtains p where "ComputeProperties W f pmask = Some (p, KnownProperties p)"
    "\<And>t. asked pmask t \<Longrightarrow> recorded p t (holds W f t)"
    "\<And>t. recorded p t (holds W f t) \<or> \<not> bit p (pos_bit t) \<and> \<not> bit p (Suc (pos_bit t))"
    "\<And>n. n < 3 \<Longrightarrow> bit p n \<longleftrightarrow> bit (properties f) n"
proof -
  let ?b = "Properties f kFstProperties AND kBinaryProperties"
  let ?visit = "has pmask (kDfsProps OR kWeightedCycles OR kUnweightedCycles)"
  let ?scan = "has pmask (NOT (kBinaryProperties OR kDfsProps))"
  have b: "bit ?b n \<longleftrightarrow> n < 3 \<and> bit (properties f) n" for n
    by (auto simp: Properties_def kFstProperties_def bit_and_iff bit_or_iff bit_kBinaryProperties)
  obtain p0 comps where v: "(if ?visit then map_option (\<lambda>u. (scc_props u, the (scc u)))
        (DfsVisit f (SccVisitor W) AnyArcFilter False (new_SccVisitor True False ?b f)) else Some (?b, [])) = Some (p0, comps)"
    and g: "\<And>t. t \<in> dfs_trinary \<Longrightarrow> if ?visit then recorded p0 t (holds W f t) else \<not> bit p0 (pos_bit t) \<and> \<not> bit p0 (Suc (pos_bit t))"
    and o: "\<And>n. n < 64 \<Longrightarrow> \<not> bit kDfsProps n \<Longrightarrow> bit p0 n \<longleftrightarrow> bit ?b n"
    and c: "\<And>s t. ?visit \<Longrightarrow> (s, t) \<in> edges f \<Longrightarrow> comps ! s = comps ! t \<longleftrightarrow> (t, s) \<in> (edges f)\<^sup>*"
  proof (cases ?visit)
    case True
    show thesis
      by (rule compute_visit [OF wf st, of W ?b]) (use True that in \<open>auto simp: same_others_iff\<close>)
  next
    case False
    have "\<not> bit ?b (pos_bit t) \<and> \<not> bit ?b (Suc (pos_bit t))" for t using trinary_bits(1) [of t] by (auto simp: b)
    then show thesis using False that [of ?b "[]"] by simp
  qed
  let ?p = "if ?scan then compute_states W f pmask comps p0 else p0"
  have cl: "\<not> bit p0 n" if "16 \<le> n" "n < 34 \<or> 38 \<le> n \<and> n < 40 \<or> 44 \<le> n \<and> n < 48" for n
    using o [of n] that by (auto simp: b bit_kDfsProps)
  have tc: "tracked pmask WeightedCycles \<Longrightarrow> ?visit" by (simp add: tracked_def)
  note S = compute_states_spec [where comps = comps and f = f and pmask = pmask and p = p0 and W = W, OF _ cl]
  have sc: "tracked pmask t \<Longrightarrow> recorded (compute_states W f pmask comps p0) t (holds W f t)" for t by (rule S(1)) (use c tc in auto)
  have un: "n < 64 \<Longrightarrow> untouched pmask n \<Longrightarrow> bit (compute_states W f pmask comps p0) n \<longleftrightarrow> bit p0 n" for n
    by (rule S(2)) (use c tc in auto)
  have same: "recorded ?p t x = recorded p0 t x \<and> bit ?p (pos_bit t) = bit p0 (pos_bit t) \<and> bit ?p (Suc (pos_bit t)) = bit p0 (Suc (pos_bit t))"
    if "untouched pmask (pos_bit t) \<and> untouched pmask (Suc (pos_bit t))" for t x
    using that un trinary_bits(2) [of t] by (auto simp: recorded_def)
  show thesis
  proof (rule that [of ?p])
    show "ComputeProperties W f pmask = Some (?p, KnownProperties ?p)"
      unfolding ComputeProperties_def Let_def v by simp
    show "recorded ?p t (holds W f t)" if a: "asked pmask t" for t
    proof (cases "t \<in> dfs_trinary")
      case True
      then show ?thesis using same trinary_bits(3) g asked_visit [OF a] by metis
    next
      case False
      then show ?thesis using asked_scan [OF a] sc by simp
    qed
    show "recorded ?p t (holds W f t) \<or> \<not> bit ?p (pos_bit t) \<and> \<not> bit ?p (Suc (pos_bit t))" for t
    proof (cases "t \<in> dfs_trinary")
      case True
      then show ?thesis using same trinary_bits(3) g by metis
    next
      case False
      have "\<not> bit p0 (pos_bit t) \<and> \<not> bit p0 (Suc (pos_bit t))"
        using o trinary_bits(1,2) [of t] trinary_bits(5) [OF False] by (simp add: b)
      then show ?thesis using sc same untracked_bits by (cases "tracked pmask t \<and> ?scan") auto
    qed
    show "bit ?p n \<longleftrightarrow> bit (properties f) n" if "n < 3" for n
      using that un [of n] o [of n] by (auto simp: untouched_def b bit_kDfsProps)
  qed
qed


section \<open>Known properties and the member function\<close>

lemma bit_trinary_masks:
  "bit kTrinaryProperties m \<longleftrightarrow> 16 \<le> m \<and> m < 48" "bit kPosTrinaryProperties m \<longleftrightarrow> 16 \<le> m \<and> m < 48 \<and> even m"
  "bit kNegTrinaryProperties m \<longleftrightarrow> 16 \<le> m \<and> m < 48 \<and> odd m"
proof -
  have "list_all (\<lambda>m. bit kTrinaryProperties m = (16 \<le> m \<and> m < 48) \<and> bit kPosTrinaryProperties m = (16 \<le> m \<and> m < 48 \<and> even m) \<and>
      bit kNegTrinaryProperties m = (16 \<le> m \<and> m < 48 \<and> odd m)) [0..<64]" by code_simp
  then have T: "bit kTrinaryProperties m = (16 \<le> m \<and> m < 48) \<and> bit kPosTrinaryProperties m = (16 \<le> m \<and> m < 48 \<and> even m) \<and>
      bit kNegTrinaryProperties m = (16 \<le> m \<and> m < 48 \<and> odd m)" if "m < 64"
    using that unfolding list_all_iff by (metis atLeastLessThan_iff set_upt zero_le)
  have B: "\<not> bit (w :: 64 word) m" if "\<not> m < 64" for w using bit_imp_le_length [of w m] that by auto
  show "bit kTrinaryProperties m \<longleftrightarrow> 16 \<le> m \<and> m < 48" "bit kPosTrinaryProperties m \<longleftrightarrow> 16 \<le> m \<and> m < 48 \<and> even m"
    "bit kNegTrinaryProperties m \<longleftrightarrow> 16 \<le> m \<and> m < 48 \<and> odd m"
    by (cases "m < 64"; use T B in simp)+
qed

lemma bit_KnownProperties:
  assumes "16 \<le> n" "n < 48"
  shows "bit (KnownProperties p) n \<longleftrightarrow> bit p n \<or> (if even n then bit p (Suc n) else bit p (n - 1))"
proof -
  have e: "even n \<Longrightarrow> Suc n < 48" "odd n \<Longrightarrow> 16 \<le> n - 1" using assms by presburger+
  show ?thesis
    using assms e unfolding KnownProperties_def bit_or_iff bit_and_iff bit_push_bit_iff bit_drop_bit_eq bit_trinary_masks bit_kBinaryProperties
    by (auto simp: possible_bit_def bit_and_iff bit_trinary_masks)
qed

lemma even_pos_bit: "even (pos_bit t)"
  by (cases t) simp_all

lemma known_trinary:
  "bit (KnownProperties p) (pos_bit t) \<longleftrightarrow> bit p (pos_bit t) \<or> bit p (Suc (pos_bit t))"
  "bit (KnownProperties p) (Suc (pos_bit t)) \<longleftrightarrow> bit p (pos_bit t) \<or> bit p (Suc (pos_bit t))"
  using trinary_bits(1,2) [of t] even_pos_bit [of t] by (auto simp: bit_KnownProperties)


lemma sound_recorded: "props_sound W f p \<Longrightarrow> bit p (pos_bit t) \<or> bit p (Suc (pos_bit t)) \<Longrightarrow> recorded p t (holds W f t)"
  unfolding props_sound_def recorded_def by blast

lemma recorded_sound:
  assumes "\<And>t. recorded p t (holds W f t) \<or> \<not> bit p (pos_bit t) \<and> \<not> bit p (Suc (pos_bit t))"
  shows "props_sound W f p"
  using assms unfolding props_sound_def recorded_def by blast

lemma sound_Properties: "props_sound W f (properties f) \<Longrightarrow> props_sound W f (Properties f pmask)"
  by (auto simp: props_sound_def Properties_def bit_and_iff)

theorem TestProperties_spec:
  assumes ok: "fst_ok W f" and st: "start f = None \<Longrightarrow> NumStates f = 0"
  obtains p where "TestProperties verify W f pmask = Some (p, KnownProperties p)" "props_sound W f p"
    "\<And>t. asked pmask t \<Longrightarrow> recorded p t (holds W f t)"
proof -
  have wf: "wf_fst f" and so: "props_sound W f (properties f)" using ok by (simp_all add: fst_ok_def)
  obtain p where p: "ComputeProperties W f pmask = Some (p, KnownProperties p)"
    "\<And>t. asked pmask t \<Longrightarrow> recorded p t (holds W f t)"
    "\<And>t. recorded p t (holds W f t) \<or> \<not> bit p (pos_bit t) \<and> \<not> bit p (Suc (pos_bit t))"
    by (rule ComputeProperties_spec [OF wf st, of W pmask]) blast+
  let ?q = "Properties f kFstProperties"
  show thesis
  proof (cases "\<not> verify \<and> KnownProperties ?q AND pmask = pmask")
    case True
    have q: "props_sound W f ?q" by (rule sound_Properties [OF so])
    have "recorded ?q t (holds W f t)" if a: "asked pmask t" for t
    proof -
      have "bit pmask n \<Longrightarrow> bit (KnownProperties ?q) n" for n using True by (metis bit_and_iff)
      then show ?thesis using a known_trinary [of ?q t] by (intro sound_recorded [OF q]) (auto simp: asked_def)
    qed
    then show thesis using True that [of ?q] q by (simp add: TestProperties_def ComputeOrUseStoredProperties_def Let_def)
  next
    case False
    then show thesis
      using that [of p] p recorded_sound [OF p(3)] by (auto simp: TestProperties_def ComputeOrUseStoredProperties_def Let_def)
  qed
qed

text \<open>The stored properties after an update with properties that are true and known.\<close>

lemma UpdateProperties_bits:
  assumes so: "props_sound W f (properties f)" and p: "props_sound W f p" "recorded p t (holds W f t)"
  shows "recorded (properties (UpdateProperties p (KnownProperties p) f)) t (holds W f t)"
proof -
  let ?k = "KnownProperties p" let ?d = "p AND (?k AND NOT (KnownProperties (properties f AND ?k)))"
  have pr: "properties (UpdateProperties p ?k f) = properties f OR ?d"
    by (simp add: UpdateProperties_def Let_def)
  have n: "pos_bit t < 64" "Suc (pos_bit t) < 64" using trinary_bits(2) [of t] by simp_all
  have kn: "bit ?k (pos_bit t)" "bit ?k (Suc (pos_bit t))" using p(2) by (auto simp: known_trinary recorded_def)
  have old: "bit (KnownProperties (properties f AND ?k)) m \<longleftrightarrow> bit (properties f) (pos_bit t) \<or> bit (properties f) (Suc (pos_bit t))"
    if "m = pos_bit t \<or> m = Suc (pos_bit t)" for m
    using that kn known_trinary [of "properties f AND ?k" t] by (auto simp: bit_and_iff)
  show ?thesis
    using p(2) so kn old n unfolding pr recorded_def props_sound_def
    by (auto simp: bit_or_iff bit_and_iff bit_NOT_word64)
qed

lemma UpdateProperties_sound:
  assumes "props_sound W f (properties f)" "props_sound W f p"
  shows "props_sound W f (properties (UpdateProperties p q f))"
  using assms by (auto simp: UpdateProperties_def Let_def props_sound_def bit_or_iff bit_and_iff)

lemma UpdateProperties_same [simp]: "states (UpdateProperties p q f) = states f" "start (UpdateProperties p q f) = start f"
  by (simp_all add: UpdateProperties_def Let_def)

theorem PropertiesTest_spec:
  assumes ok: "fst_ok W f" and st: "start f = None \<Longrightarrow> NumStates f = 0"
  obtains p g where "PropertiesTest verify W f pmask = Some (p, g)" "states g = states f" "start g = start f" "fst_ok W g"
    "\<And>t. bit pmask (pos_bit t) \<Longrightarrow> bit p (pos_bit t) = holds W f t"
    "\<And>t. bit pmask (Suc (pos_bit t)) \<Longrightarrow> bit p (Suc (pos_bit t)) = (\<not> holds W f t)"
    "\<And>t. asked pmask t \<Longrightarrow> recorded (properties g) t (holds W f t)"
proof -
  have so: "props_sound W f (properties f)" using ok by (simp add: fst_ok_def)
  obtain p where p: "TestProperties verify W f pmask = Some (p, KnownProperties p)" "props_sound W f p"
    "\<And>t. asked pmask t \<Longrightarrow> recorded p t (holds W f t)" by (rule TestProperties_spec [OF ok st, of verify pmask]) blast+
  let ?g = "UpdateProperties p (KnownProperties p) f"
  have "fst_ok W ?g"
    using ok UpdateProperties_sound [OF so p(2)] props_sound_cong [of ?g f W]
    by (simp add: fst_ok_def wf_fst_def trans_def NumStates_def Arcs_def) (simp add: UpdateProperties_def Let_def bit_or_iff)
  moreover have "bit (p AND pmask) (pos_bit t) = holds W f t" if "bit pmask (pos_bit t)" for t
    using that p(3) [of t] by (simp add: asked_def recorded_def bit_and_iff)
  moreover have "bit (p AND pmask) (Suc (pos_bit t)) = (\<not> holds W f t)" if "bit pmask (Suc (pos_bit t))" for t
    using that p(3) [of t] by (simp add: asked_def recorded_def bit_and_iff)
  moreover have "recorded (properties ?g) t (holds W f t)" if "asked pmask t" for t
    by (rule UpdateProperties_bits [OF so p(2) p(3) [OF that]])
  ultimately show thesis using that [of "p AND pmask" ?g] p(1) by (simp add: PropertiesTest_def)
qed

end
