(* ===== verification/Heap.thy ===== *)
theory Heap
  imports Prelude
begin

text \<open>
  The heap with keys of src/openfst/lib/heap.h. A value keeps the key that \<open>Insert\<close> returned, so that it can be
  updated in place. The vectors \<open>pos\<close> and \<open>elements\<close> never shrink: the nodes behind the first \<open>heap_size\<close> ones
  hold the keys that are free. The heap refines a finite map from keys to values with the operations of a
  priority queue.
\<close>

section \<open>The operations\<close>

record 'v node =
  node_value :: 'v
  node_key :: nat

record 'v heap =
  pos :: "nat list"
  elements :: "'v node list"
  heap_size :: nat

definition new_Heap :: "'v heap" where
  "new_Heap = \<lparr>pos = [], elements = [], heap_size = 0\<rparr>"

definition Left :: "nat \<Rightarrow> nat" where
  "Left i = 2 * (i + 1) - 1"

definition Right :: "nat \<Rightarrow> nat" where
  "Right i = 2 * (i + 1)"

definition Parent :: "nat \<Rightarrow> nat" where
  "Parent i = (i - 1) div 2"

definition value_at :: "'v heap \<Rightarrow> nat \<Rightarrow> 'v" where
  "value_at h i = node_value (elements h ! i)"

definition key_at :: "'v heap \<Rightarrow> nat \<Rightarrow> nat" where
  "key_at h i = node_key (elements h ! i)"

definition set_value :: "nat \<Rightarrow> 'v \<Rightarrow> 'v heap \<Rightarrow> 'v heap" where
  "set_value i x h = h\<lparr>elements := (elements h)[i := (elements h ! i)\<lparr>node_value := x\<rparr>]\<rparr>"

definition Swap :: "nat \<Rightarrow> nat \<Rightarrow> 'v heap \<Rightarrow> 'v heap" where
  "Swap j k h =
     (if j = k then h
      else h\<lparr>pos := (pos h)[key_at h j := k, key_at h k := j],
             elements := (elements h)[j := elements h ! k, k := elements h ! j]\<rparr>)"

lemma heap_size_Swap [simp]: "heap_size (Swap j k h) = heap_size h"
  by (simp add: Swap_def)

text \<open>The child of \<open>i\<close> that is to move up, or \<open>i\<close>.\<close>

definition largest :: "('v \<Rightarrow> 'v \<Rightarrow> bool) \<Rightarrow> nat \<Rightarrow> 'v heap \<Rightarrow> nat" where
  "largest cmp i h =
     (let l = Left i; r = Right i;
          m = (if l < heap_size h \<and> cmp (value_at h l) (value_at h i) then l else i)
      in if r < heap_size h \<and> cmp (value_at h r) (value_at h m) then r else m)"

lemma largest_cases: "largest cmp i h = i \<or> i < largest cmp i h \<and> largest cmp i h < heap_size h"
  by (simp add: largest_def Left_def Right_def Let_def)

function Heapify :: "('v \<Rightarrow> 'v \<Rightarrow> bool) \<Rightarrow> nat \<Rightarrow> 'v heap \<Rightarrow> 'v heap" where
  "Heapify cmp i h = (let m = largest cmp i h in if m \<noteq> i then Heapify cmp m (Swap i m h) else h)"
  by pat_completeness auto
termination
proof (relation "measure (\<lambda>(_, i, h). heap_size h - i)", goal_cases)
  case (2 cmp i h m)
  then show ?case using largest_cases [of cmp i h] by auto
qed simp

declare Heapify.simps [simp del]

text \<open>The private \<open>Insert(value, i)\<close> that moves a value up; it returns the key of the value.\<close>

function InsertAt :: "('v \<Rightarrow> 'v \<Rightarrow> bool) \<Rightarrow> 'v \<Rightarrow> nat \<Rightarrow> 'v heap \<Rightarrow> nat \<times> 'v heap" where
  "InsertAt cmp x i h =
     (if i > 0 \<and> \<not> cmp (value_at h (Parent i)) x then InsertAt cmp x (Parent i) (Swap i (Parent i) h)
      else (key_at h i, h))"
  by pat_completeness auto
termination by (relation "measure (\<lambda>(_, _, i, _). i)") (auto simp: Parent_def)

declare InsertAt.simps [simp del]

definition Insert :: "('v \<Rightarrow> 'v \<Rightarrow> bool) \<Rightarrow> 'v \<Rightarrow> 'v heap \<Rightarrow> nat \<times> 'v heap" where
  "Insert cmp x h =
     (let n = heap_size h;
          h = (if n < length (elements h)
               then (let h = set_value n x h in h\<lparr>pos := (pos h)[key_at h n := n]\<rparr>)
               else h\<lparr>elements := elements h @ [\<lparr>node_value = x, node_key = n\<rparr>], pos := pos h @ [n]\<rparr>);
          h = h\<lparr>heap_size := n + 1\<rparr>
      in InsertAt cmp x (heap_size h - 1) h)"

definition HeapUpdate :: "('v \<Rightarrow> 'v \<Rightarrow> bool) \<Rightarrow> nat \<Rightarrow> 'v \<Rightarrow> 'v heap \<Rightarrow> 'v heap" where
  "HeapUpdate cmp key x h =
     (let i = pos h ! key;
          is_better = cmp x (value_at h (Parent i));
          h = set_value i x h
      in if is_better then snd (InsertAt cmp x i h) else Heapify cmp i h)"

definition Top :: "'v heap \<Rightarrow> 'v" where
  "Top h = value_at h 0"

definition Pop :: "('v \<Rightarrow> 'v \<Rightarrow> bool) \<Rightarrow> 'v heap \<Rightarrow> 'v \<times> 'v heap" where
  "Pop cmp h =
     (let top = value_at h 0;
          h = Swap 0 (heap_size h - 1) h;
          h = h\<lparr>heap_size := heap_size h - 1\<rparr>
      in (top, Heapify cmp 0 h))"

definition Get :: "nat \<Rightarrow> 'v heap \<Rightarrow> 'v" where
  "Get key h = value_at h (pos h ! key)"

definition Empty :: "'v heap \<Rightarrow> bool" where
  "Empty h \<longleftrightarrow> heap_size h = 0"

definition Clear :: "'v heap \<Rightarrow> 'v heap" where
  "Clear h = h\<lparr>heap_size := 0\<rparr>"

section \<open>Keys and positions\<close>

definition keys_ok :: "'v heap \<Rightarrow> bool" where
  "keys_ok h \<longleftrightarrow> length (pos h) = length (elements h) \<and> heap_size h \<le> length (elements h) \<and>
     (\<forall>i < length (elements h). key_at h i < length (pos h) \<and> pos h ! key_at h i = i)"

text \<open>The abstract value: a map from the keys in use to values.\<close>

definition heap_map :: "'v heap \<Rightarrow> nat \<Rightarrow> 'v option" where
  "heap_map h k = (if k < length (pos h) \<and> pos h ! k < heap_size h then Some (value_at h (pos h ! k)) else None)"

lemma keys_inj: "keys_ok h \<Longrightarrow> i < length (elements h) \<Longrightarrow> j < length (elements h) \<Longrightarrow> key_at h i = key_at h j \<longleftrightarrow> i = j"
  by (metis keys_ok_def)

text \<open>Every key is the key of its position.\<close>

lemma keys_surj:
  assumes ok: "keys_ok h" and k: "k < length (pos h)"
  shows "pos h ! k < length (elements h) \<and> key_at h (pos h ! k) = k"
proof -
  let ?n = "length (elements h)"
  have "inj_on (key_at h) {..<?n}" using keys_inj [OF ok] by (auto simp: inj_on_def)
  moreover have "key_at h ` {..<?n} \<subseteq> {..<?n}" using ok by (auto simp: keys_ok_def)
  ultimately have "key_at h ` {..<?n} = {..<?n}" by (simp add: endo_inj_surj)
  then obtain i where "i < ?n" "k = key_at h i" using k ok by (auto simp: keys_ok_def image_iff lessThan_def set_eq_iff)
  then show ?thesis using ok by (simp add: keys_ok_def)
qed

lemma Swap_sel:
  assumes "j < length (elements h)" "k < length (elements h)"
  shows "length (elements (Swap j k h)) = length (elements h)" "length (pos (Swap j k h)) = length (pos h)"
    "value_at (Swap j k h) i = (if i = j then value_at h k else if i = k then value_at h j else value_at h i)"
    "key_at (Swap j k h) i = (if i = j then key_at h k else if i = k then key_at h j else key_at h i)"
  using assms by (auto simp: Swap_def value_at_def key_at_def nth_list_update)

lemma Swap_keys:
  assumes ok: "keys_ok h" and j: "j < length (elements h)" and k: "k < length (elements h)"
  shows "keys_ok (Swap j k h)"
proof -
  note s = Swap_sel [OF j k]
  have "pos (Swap j k h) ! key_at (Swap j k h) i = i" if i: "i < length (elements h)" for i
    using ok i j k keys_inj [OF ok i j] keys_inj [OF ok i k] keys_inj [OF ok j k]
    unfolding s by (auto simp: Swap_def keys_ok_def nth_list_update)
  then show ?thesis using ok j k by (auto simp: keys_ok_def s)
qed

text \<open>An exchange of two positions in use, or of two free ones, does not change the map.\<close>

lemma Swap_map:
  assumes ok: "keys_ok h" and j: "j < heap_size h" and k: "k < heap_size h"
  shows "heap_map (Swap j k h) = heap_map h"
proof
  fix x
  have jk: "j < length (elements h)" "k < length (elements h)" using ok j k by (auto simp: keys_ok_def)
  note s = Swap_sel [OF jk] and ok' = Swap_keys [OF ok jk]
  show "heap_map (Swap j k h) x = heap_map h x"
  proof (cases "x < length (pos h)")
    case True
    define i where "i = pos h ! x"
    have i: "i < length (elements h)" "key_at h i = x" using keys_surj [OF ok True] by (simp_all add: i_def)
    define i' where "i' = (if i = j then k else if i = k then j else i)"
    have i': "i' < length (elements h)" "key_at (Swap j k h) i' = x" "value_at (Swap j k h) i' = value_at h i"
      using i jk by (auto simp: i'_def s)
    then have "pos (Swap j k h) ! x = i'" using ok' by (auto simp: keys_ok_def s)
    then show ?thesis using True i' j k by (auto simp: heap_map_def s i_def [symmetric] i'_def)
  qed (simp add: heap_map_def s)
qed


section \<open>Growing and shrinking\<close>

text \<open>The first part of \<open>Insert\<close>: the value at the first free position.\<close>

definition grow :: "'v \<Rightarrow> 'v heap \<Rightarrow> 'v heap" where
  "grow x h =
     (let n = heap_size h
      in (if n < length (elements h)
          then (let h = set_value n x h in h\<lparr>pos := (pos h)[key_at h n := n]\<rparr>)
          else h\<lparr>elements := elements h @ [\<lparr>node_value = x, node_key = n\<rparr>], pos := pos h @ [n]\<rparr>)\<lparr>heap_size := n + 1\<rparr>)"

lemma Insert_grow: "Insert cmp x h = InsertAt cmp x (heap_size h) (grow x h)"
  by (simp add: Insert_def grow_def Let_def)

lemma grow_spec:
  assumes ko: "keys_ok h"
  shows "heap_size (grow x h) = Suc (heap_size h)"
    and "j \<le> heap_size h \<Longrightarrow> value_at (grow x h) j = (if j = heap_size h then x else value_at h j)"
    and "keys_ok (grow x h)" "heap_map h (key_at (grow x h) (heap_size h)) = None"
    and "heap_map (grow x h) = (heap_map h)(key_at (grow x h) (heap_size h) \<mapsto> x)"
proof -
  let ?n = "heap_size h"
  define g where "g = grow x h"
  note g_def' = g_def [unfolded grow_def Let_def]
  have len: "length (pos h) = length (elements h)" "?n \<le> length (elements h)" using ko by (simp_all add: keys_ok_def)
  have sz: "heap_size g = Suc ?n" by (simp add: g_def')
  have v: "value_at g j = (if j = ?n then x else value_at h j)" if "j \<le> ?n" for j
    using that len by (auto simp: g_def' value_at_def set_value_def nth_append)
  define c where "c = key_at g ?n"
  have kg: "keys_ok g \<and> heap_map h c = None \<and> heap_map g = (heap_map h)(c \<mapsto> x)"
  proof (cases "?n < length (elements h)")
    case True
    have e: "elements g = (elements h)[?n := (elements h ! ?n)\<lparr>node_value := x\<rparr>]" "pos g = pos h"
    proof -
      have "pos h ! key_at h ?n = ?n" using True ko by (simp add: keys_ok_def)
      then have "(pos h)[key_at h ?n := ?n] = pos h" by (metis list_update_id)
      then show "elements g = (elements h)[?n := (elements h ! ?n)\<lparr>node_value := x\<rparr>]" "pos g = pos h"
        using True by (simp_all add: g_def' set_value_def Let_def key_at_def)
    qed
    have key: "key_at g j = key_at h j" for j using True by (cases "j = ?n") (simp_all add: key_at_def e)
    have pc: "pos h ! c = ?n" "c < length (pos h)" "key_at h ?n = c" using True ko by (auto simp: c_def key keys_ok_def)
    have "keys_ok g" using ko True by (auto simp: keys_ok_def key e sz)
    moreover have iff: "pos h ! k' = ?n \<longleftrightarrow> k' = c" if "k' < length (pos h)" for k'
      using keys_surj [OF ko that] pc by metis
    have "heap_map h c = None" using pc(1) by (simp add: heap_map_def)
    moreover have "heap_map g k' = ((heap_map h)(c \<mapsto> x)) k'" for k'
      using iff [of k'] pc(1,2) by (auto simp: heap_map_def e sz v less_Suc_eq)
    ultimately show ?thesis by blast
  next
    case False
    then have n: "?n = length (elements h)" using len by simp
    have e: "elements g = elements h @ [\<lparr>node_value = x, node_key = ?n\<rparr>]" "pos g = pos h @ [?n]" using False by (simp_all add: g_def')
    have key: "key_at g j = (if j = ?n then ?n else key_at h j)" if "j \<le> ?n" for j using that n by (auto simp: key_at_def e nth_append)
    have "keys_ok g" using ko n by (auto simp: keys_ok_def key e sz nth_append less_Suc_eq)
    moreover have "c = ?n" by (simp add: c_def key)
    moreover have "pos h ! k' < ?n" if "k' < length (pos h)" for k' using keys_surj [OF ko that] n by simp
    then have "heap_map g k' = ((heap_map h)(?n \<mapsto> x)) k'" for k'
      using n len by (auto simp: heap_map_def e sz v nth_append less_Suc_eq)
    moreover have "heap_map h ?n = None" using n len by (simp add: heap_map_def)
    ultimately show ?thesis by auto
  qed
  show "heap_size (grow x h) = Suc ?n" "j \<le> ?n \<Longrightarrow> value_at (grow x h) j = (if j = ?n then x else value_at h j)"
    "keys_ok (grow x h)" "heap_map h (key_at (grow x h) ?n) = None" "heap_map (grow x h) = (heap_map h)(key_at (grow x h) ?n \<mapsto> x)"
    using sz v [of j] kg by (simp_all add: g_def [symmetric] c_def)
qed

lemma heap_map_range:
  assumes "keys_ok h" "heap_map h k = Some x"
  obtains j where "j < heap_size h" "x = value_at h j" "k = key_at h j" "j = pos h ! k"
proof (rule that [of "pos h ! k"])
  have "k < length (pos h)" "pos h ! k < heap_size h" "x = value_at h (pos h ! k)"
    using assms(2) by (auto simp: heap_map_def split: if_splits)
  then show "pos h ! k < heap_size h" "x = value_at h (pos h ! k)" "k = key_at h (pos h ! k)"
    using keys_surj [OF assms(1), of k] by simp_all
qed (rule refl)

lemma set_value_sel:
  assumes "i < length (elements h)"
  shows "value_at (set_value i x h) j = (if j = i then x else value_at h j)" "key_at (set_value i x h) j = key_at h j"
    "pos (set_value i x h) = pos h" "heap_size (set_value i x h) = heap_size h" "length (elements (set_value i x h)) = length (elements h)"
  using assms by (auto simp: set_value_def value_at_def key_at_def nth_list_update)

lemma live_key: "heap_map h key \<noteq> None \<Longrightarrow> pos h ! key < heap_size h \<and> key < length (pos h)"
  by (auto simp: heap_map_def split: if_splits)

lemma set_value_map:
  assumes ok: "keys_ok h" and k: "heap_map h key \<noteq> None"
  shows "keys_ok (set_value (pos h ! key) x h)" "heap_map (set_value (pos h ! key) x h) = (heap_map h)(key \<mapsto> x)"
proof -
  have i: "pos h ! key < heap_size h" "key < length (pos h)" using live_key [OF k] by simp_all
  then have l: "pos h ! key < length (elements h)" using ok by (simp add: keys_ok_def)
  note s = set_value_sel [OF l]
  show "keys_ok (set_value (pos h ! key) x h)" using ok unfolding keys_ok_def s by blast
  have "pos h ! k' = pos h ! key \<longleftrightarrow> k' = key" if "k' < length (pos h)" for k'
    using keys_surj [OF ok that] keys_surj [OF ok i(2)] by metis
  then show "heap_map (set_value (pos h ! key) x h) = (heap_map h)(key \<mapsto> x)" using i by (auto simp: heap_map_def s fun_eq_iff)
qed

lemma shrink_map:
  assumes ok: "keys_ok h" and n: "0 < heap_size h"
  shows "keys_ok (h\<lparr>heap_size := heap_size h - 1\<rparr>)"
    "heap_map (h\<lparr>heap_size := heap_size h - 1\<rparr>) = (heap_map h)(key_at h (heap_size h - 1) := None)"
proof -
  have e: "key_at (h\<lparr>heap_size := m\<rparr>) j = key_at h j" "value_at (h\<lparr>heap_size := m\<rparr>) j = value_at h j" for m j
    by (simp_all add: key_at_def value_at_def)
  show "keys_ok (h\<lparr>heap_size := heap_size h - 1\<rparr>)" using ok by (auto simp: keys_ok_def e)
  let ?k = "key_at h (heap_size h - 1)"
  have k: "?k < length (pos h)" "pos h ! ?k = heap_size h - 1" using ok n by (auto simp: keys_ok_def)
  have "pos h ! x = heap_size h - 1 \<longleftrightarrow> x = ?k" if "x < length (pos h)" for x
    using keys_surj [OF ok that] k by metis
  then have iff: "pos h ! x < heap_size h - 1 \<longleftrightarrow> pos h ! x < heap_size h \<and> x \<noteq> ?k" if "x < length (pos h)" for x
  proof -
    have "pos h ! x < heap_size h - 1 \<longleftrightarrow> pos h ! x < heap_size h \<and> pos h ! x \<noteq> heap_size h - 1" using n by linarith
    then show ?thesis using \<open>\<And>x. x < length (pos h) \<Longrightarrow> (pos h ! x = heap_size h - 1) = (x = ?k)\<close> that by blast
  qed
  show "heap_map (h\<lparr>heap_size := heap_size h - 1\<rparr>) = (heap_map h)(?k := None)"
  proof
    fix x show "heap_map (h\<lparr>heap_size := heap_size h - 1\<rparr>) x = ((heap_map h)(?k := None)) x"
      using iff [of x] by (cases "x < length (pos h)") (simp_all add: heap_map_def e)
  qed
qed

section \<open>The loops keep the map\<close>

lemma InsertAt_keys:
  assumes "keys_ok h" "i < heap_size h" "InsertAt cmp x i h = (k, h')"
  shows "keys_ok h' \<and> heap_map h' = heap_map h \<and> heap_size h' = heap_size h \<and> k = key_at h i"
  using assms
proof (induction i arbitrary: h rule: less_induct)
  case (less i)
  let ?p = "Parent i"
  show ?case
  proof (cases "0 < i \<and> \<not> cmp (value_at h ?p) x")
    case True
    have p: "?p < i" "?p < heap_size h" using True less.prems(2) by (auto simp: Parent_def)
    have l: "i < length (elements h)" "?p < length (elements h)" using less.prems(1,2) p by (auto simp: keys_ok_def)
    have "key_at (Swap i ?p h) ?p = key_at h i" using p by (auto simp: Swap_sel [OF l])
    moreover have "InsertAt cmp x i h = InsertAt cmp x ?p (Swap i ?p h)" using True by (subst InsertAt.simps) auto
    ultimately show ?thesis
      using less.IH [OF p(1) Swap_keys [OF less.prems(1) l]] Swap_map [OF less.prems(1,2) p(2)] p(2) less.prems(3) by simp
  next
    case False
    then have "InsertAt cmp x i h = (key_at h i, h)" by (subst InsertAt.simps) auto
    then show ?thesis using less.prems by simp
  qed
qed

lemma Heapify_keys:
  assumes "keys_ok h" "i < heap_size h \<or> heap_size h = 0"
  shows "keys_ok (Heapify cmp i h) \<and> heap_map (Heapify cmp i h) = heap_map h \<and> heap_size (Heapify cmp i h) = heap_size h"
  using assms
proof (induction "heap_size h - i" arbitrary: i h rule: less_induct)
  case less
  let ?m = "largest cmp i h"
  show ?case
  proof (cases "?m = i")
    case True
    then have "Heapify cmp i h = h" by (subst Heapify.simps) simp
    then show ?thesis using less.prems by simp
  next
    case False
    have m: "i < ?m" "?m < heap_size h" using largest_cases [of cmp i h] False by auto
    have l: "i < length (elements h)" "?m < length (elements h)" using less.prems(1) m by (auto simp: keys_ok_def)
    have "Heapify cmp i h = Heapify cmp ?m (Swap i ?m h)" using False by (subst Heapify.simps) (simp add: Let_def)
    moreover have "i < heap_size h" using m by simp
    ultimately show ?thesis
      using less.hyps [of "Swap i ?m h" ?m] Swap_keys [OF less.prems(1) l] Swap_map [OF less.prems(1) \<open>i < heap_size h\<close> m(2)] m by auto
  qed
qed

lemma Insert_keys:
  assumes "keys_ok h" "Insert cmp x h = (k, h')"
  shows "keys_ok h'" "heap_map h k = None" "heap_map h' = (heap_map h)(k \<mapsto> x)"
  using grow_spec [OF assms(1), where x = x] InsertAt_keys [of "grow x h" "heap_size h" cmp x k h'] assms(2) by (simp_all add: Insert_grow)

lemma HeapUpdate_keys:
  assumes ok: "keys_ok h" and k: "heap_map h key \<noteq> None"
  shows "keys_ok (HeapUpdate cmp key x h) \<and> heap_map (HeapUpdate cmp key x h) = (heap_map h)(key \<mapsto> x)"
proof -
  let ?g = "set_value (pos h ! key) x h"
  note g = set_value_map [OF ok k, of x]
  have i: "pos h ! key < heap_size ?g" using live_key [OF k] by (simp add: set_value_def)
  obtain c h' where c: "InsertAt cmp x (pos h ! key) ?g = (c, h')" by (cases "InsertAt cmp x (pos h ! key) ?g")
  show ?thesis
    using InsertAt_keys [OF g(1) i c] Heapify_keys [OF g(1), of "pos h ! key" cmp] i c g(2) by (simp add: HeapUpdate_def Let_def)
qed

lemma Pop_keys:
  assumes ok: "keys_ok h" and n: "0 < heap_size h" and r: "Pop cmp h = (x, h')"
  shows "keys_ok h'" "x = Top h" "heap_map h (key_at h 0) = Some x" "heap_map h' = (heap_map h)(key_at h 0 := None)"
proof -
  let ?n = "heap_size h" let ?s = "Swap 0 (?n - 1) h" let ?g = "?s\<lparr>heap_size := heap_size ?s - 1\<rparr>"
  have n': "?n - 1 < ?n" using n by simp
  have l: "0 < length (elements h)" "?n - 1 < length (elements h)" using ok n by (auto simp: keys_ok_def)
  note s = Swap_sel [OF l] and g = shrink_map [OF Swap_keys [OF ok l], unfolded heap_size_Swap, OF n]
  have key: "key_at ?s (?n - 1) = key_at h 0" unfolding s by simp
  have r': "x = Top h" "h' = Heapify cmp 0 ?g" using r by (simp_all add: Pop_def Top_def Let_def)
  show "x = Top h" by (rule r')
  have "pos h ! key_at h 0 = 0" "key_at h 0 < length (pos h)" using ok l by (auto simp: keys_ok_def)
  then show "heap_map h (key_at h 0) = Some x" using n by (simp add: heap_map_def r' Top_def)
  have gm: "heap_map ?g = (heap_map h)(key_at h 0 := None)" "keys_ok ?g" using g key Swap_map [OF ok n n'] by simp_all
  have ne: "0 < heap_size ?g \<or> heap_size ?g = 0" by blast
  show "keys_ok h'" "heap_map h' = (heap_map h)(key_at h 0 := None)"
    using Heapify_keys [OF gm(2) ne, of cmp] gm(1) r' by auto
qed

end
