(* ===== verification/HeapLaws.thy ===== *)
theory HeapLaws
  imports Heap
begin

text \<open>
  The heap refines a priority queue, for every comparison that is a strict weak order on the values in
  use: \<open>Insert\<close> and \<open>HeapUpdate\<close> change the map from keys to values at one key, \<open>Pop\<close> removes the
  key of a least value and returns the value. The loops move one value up or down; the order holds but
  for that value.
\<close>

section \<open>The order of a heap\<close>

definition in_order :: "('v \<Rightarrow> 'v \<Rightarrow> bool) \<Rightarrow> 'v heap \<Rightarrow> nat \<Rightarrow> bool" where
  "in_order cmp h j \<longleftrightarrow> \<not> cmp (value_at h j) (value_at h (Parent j))"

definition heap_order :: "('v \<Rightarrow> 'v \<Rightarrow> bool) \<Rightarrow> 'v heap \<Rightarrow> bool" where
  "heap_order cmp h \<longleftrightarrow> (\<forall>j. 0 < j \<and> j < heap_size h \<longrightarrow> in_order cmp h j)"

definition values_in :: "('v \<Rightarrow> bool) \<Rightarrow> 'v heap \<Rightarrow> bool" where
  "values_in M h \<longleftrightarrow> (\<forall>j < heap_size h. M (value_at h j))"

definition heap_ok :: "('v \<Rightarrow> 'v \<Rightarrow> bool) \<Rightarrow> ('v \<Rightarrow> bool) \<Rightarrow> 'v heap \<Rightarrow> bool" where
  "heap_ok cmp M h \<longleftrightarrow> keys_ok h \<and> heap_order cmp h \<and> values_in M h"

text \<open>The children of \<open>i\<close> are not less than its parent.\<close>

definition bridged :: "('v \<Rightarrow> 'v \<Rightarrow> bool) \<Rightarrow> 'v heap \<Rightarrow> nat \<Rightarrow> bool" where
  "bridged cmp h i \<longleftrightarrow> (\<forall>j. 0 < j \<and> j < heap_size h \<and> Parent j = i \<and> 0 < i \<longrightarrow> \<not> cmp (value_at h j) (value_at h (Parent i)))"

text \<open>Only the value at \<open>i\<close> may be less than its parent, or greater than its children.\<close>

definition moving_up :: "('v \<Rightarrow> 'v \<Rightarrow> bool) \<Rightarrow> 'v heap \<Rightarrow> nat \<Rightarrow> bool" where
  "moving_up cmp h i \<longleftrightarrow> (\<forall>j. 0 < j \<and> j < heap_size h \<and> j \<noteq> i \<longrightarrow> in_order cmp h j) \<and> bridged cmp h i"

definition moving_down :: "('v \<Rightarrow> 'v \<Rightarrow> bool) \<Rightarrow> 'v heap \<Rightarrow> nat \<Rightarrow> bool" where
  "moving_down cmp h i \<longleftrightarrow> (\<forall>j. 0 < j \<and> j < heap_size h \<and> Parent j \<noteq> i \<longrightarrow> in_order cmp h j) \<and> bridged cmp h i"

lemma Parent_less: "0 < j \<Longrightarrow> Parent j < j"
  by (auto simp: Parent_def)

lemma Parent_child: "0 < j \<Longrightarrow> Parent j = i \<longleftrightarrow> j = Left i \<or> j = Right i"
  by (auto simp: Parent_def Left_def Right_def)

lemma children: "0 < Left i" "0 < Right i" "Parent (Left i) = i" "Parent (Right i) = i" "Left i \<noteq> i" "Right i \<noteq> i" "Left i \<noteq> Right i"
  by (auto simp: Parent_def Left_def Right_def)

locale heap_compare =
  fixes cmp :: "'v \<Rightarrow> 'v \<Rightarrow> bool" and M :: "'v \<Rightarrow> bool"
  assumes cmp_asym: "M a \<Longrightarrow> M b \<Longrightarrow> cmp a b \<Longrightarrow> \<not> cmp b a"
    and cmp_trans: "M a \<Longrightarrow> M b \<Longrightarrow> M c \<Longrightarrow> \<not> cmp b a \<Longrightarrow> \<not> cmp c b \<Longrightarrow> \<not> cmp c a"
begin

lemma Swap_values:
  assumes "keys_ok h" "values_in M h" "j < heap_size h" "k < heap_size h"
  shows "values_in M (Swap j k h)" "keys_ok (Swap j k h)" "heap_map (Swap j k h) = heap_map h"
proof -
  have l: "j < length (elements h)" "k < length (elements h)" using assms by (auto simp: keys_ok_def)
  show "values_in M (Swap j k h)" using assms by (auto simp: values_in_def Swap_sel [OF l])
  show "keys_ok (Swap j k h)" by (rule Swap_keys [OF assms(1) l])
  show "heap_map (Swap j k h) = heap_map h" by (rule Swap_map [OF assms(1,3,4)])
qed

lemma up_step:
  assumes ok: "keys_ok h" "values_in M h" and mv: "moving_up cmp h i" and i: "0 < i" "i < heap_size h"
    and c: "\<not> cmp (value_at h (Parent i)) (value_at h i)"
  shows "moving_up cmp (Swap i (Parent i) h) (Parent i)"
proof -
  let ?p = "Parent i" let ?h = "Swap i ?p h"
  have p: "?p < i" "?p < heap_size h" using Parent_less [OF i(1)] i(2) by auto
  have l: "i < length (elements h)" "?p < length (elements h)" using ok(1) i p by (auto simp: keys_ok_def)
  have v: "value_at ?h x = (if x = i then value_at h ?p else if x = ?p then value_at h i else value_at h x)" for x
    by (rule Swap_sel(3) [OF l])
  have M: "M (value_at h x)" if "x < heap_size h" for x using ok(2) that by (simp add: values_in_def)
  have o: "\<not> cmp (value_at h j) (value_at h (Parent j))" if "0 < j" "j < heap_size h" "j \<noteq> i" for j
    using mv that by (simp add: moving_up_def in_order_def)
  have br: "\<not> cmp (value_at h j) (value_at h ?p)" if "0 < j" "j < heap_size h" "Parent j = i" for j
    using mv that i by (simp add: moving_up_def bridged_def)
  have sib: "\<not> cmp (value_at h j) (value_at h i)" if "0 < j" "j < heap_size h" "Parent j = ?p" "j \<noteq> i" for j
    using cmp_trans [OF M [OF i(2)] M [OF p(2)] M [OF that(2)] c] o [of j] that by simp
  have "in_order cmp ?h j" if j: "0 < j" "j < heap_size h" "j \<noteq> ?p" for j
    using c o [OF j(1,2)] br [OF j(1,2)] sib [OF j(1,2)] j Parent_less [OF j(1)] i(1) by (auto simp: in_order_def v)
  moreover have "\<not> cmp (value_at ?h j) (value_at ?h (Parent ?p))" if j: "0 < j" "j < heap_size h" "Parent j = ?p" "0 < ?p" for j
  proof -
    have pp: "Parent ?p < ?p" using Parent_less [OF j(4)] .
    have op: "\<not> cmp (value_at h ?p) (value_at h (Parent ?p))" using o [OF j(4)] p by simp
    show ?thesis
    proof (cases "j = i")
      case True
      then show ?thesis using op pp p by (auto simp: v)
    next
      case False
      have "\<not> cmp (value_at h j) (value_at h ?p)" using o [OF j(1,2) False] j(3) by simp
      then have "\<not> cmp (value_at h j) (value_at h (Parent ?p))"
        using cmp_trans [OF M [of "Parent ?p"] M [OF p(2)] M [OF j(2)] op] pp p(2) by simp
      then show ?thesis using False j(3) pp p Parent_less [OF j(1)] by (auto simp: v)
    qed
  qed
  ultimately show ?thesis by (auto simp: moving_up_def bridged_def)
qed

lemma InsertAt_spec:
  assumes "keys_ok h" "values_in M h" "moving_up cmp h i" "i < heap_size h" "value_at h i = x"
  shows "heap_ok cmp M (snd (InsertAt cmp x i h)) \<and> heap_map (snd (InsertAt cmp x i h)) = heap_map h \<and>
    fst (InsertAt cmp x i h) = key_at h i"
  using assms
proof (induction i arbitrary: h rule: less_induct)
  case (less i)
  let ?p = "Parent i"
  show ?case
  proof (cases "0 < i \<and> \<not> cmp (value_at h ?p) x")
    case True
    have p: "?p < i" "?p < heap_size h" using Parent_less [of i] True less.prems(4) by auto
    have l: "i < length (elements h)" "?p < length (elements h)" using less.prems(1,4) p by (auto simp: keys_ok_def)
    note sw = Swap_values [OF less.prems(1,2,4) p(2)]
    have "moving_up cmp (Swap i ?p h) ?p" using True less.prems by (intro up_step) auto
    moreover have "value_at (Swap i ?p h) ?p = x" "key_at (Swap i ?p h) ?p = key_at h i"
      using less.prems(5) p by (auto simp: Swap_sel [OF l])
    moreover have "InsertAt cmp x i h = InsertAt cmp x ?p (Swap i ?p h)" using True by (subst InsertAt.simps) auto
    ultimately show ?thesis using less.IH [OF p(1) sw(2,1)] sw(3) p by simp
  next
    case False
    have "in_order cmp h i" if "0 < i"
    proof -
      have "M (value_at h i)" "M (value_at h ?p)"
        using less.prems(2,4) Parent_less [OF that] by (auto simp: values_in_def)
      then show ?thesis using False that less.prems(5) cmp_asym by (auto simp: in_order_def)
    qed
    then have "heap_order cmp h" using less.prems(3) unfolding heap_order_def moving_up_def by metis
    moreover have "InsertAt cmp x i h = (key_at h i, h)" using False by (subst InsertAt.simps) auto
    ultimately show ?thesis using less.prems by (simp add: heap_ok_def)
  qed
qed

text \<open>The child that moves up is the least of the three.\<close>

lemma largest_least:
  assumes M: "\<And>x. x < heap_size h \<Longrightarrow> M (value_at h x)" and i: "i < heap_size h" and m: "m = largest cmp i h"
  shows "m = i \<or> (m = Left i \<or> m = Right i) \<and> m < heap_size h \<and> cmp (value_at h m) (value_at h i)"
    and "\<And>j. j = Left i \<or> j = Right i \<Longrightarrow> j < heap_size h \<Longrightarrow> j \<noteq> m \<Longrightarrow> \<not> cmp (value_at h j) (value_at h m)"
proof -
  let ?l = "Left i" let ?r = "Right i" let ?n = "heap_size h" let ?v = "value_at h"
  define m0 where "m0 = (if ?l < ?n \<and> cmp (?v ?l) (?v i) then ?l else i)"
  have m': "m = (if ?r < ?n \<and> cmp (?v ?r) (?v m0) then ?r else m0)" by (simp add: m largest_def m0_def Let_def)
  have m0: "m0 < ?n" "\<not> cmp (?v i) (?v m0)" using i cmp_asym M by (auto simp: m0_def)
  have irr: "\<not> cmp a a" if "M a" for a using cmp_asym [OF that that] by blast
  have l0: "\<not> cmp (?v ?l) (?v m0)" if "?l < ?n" using that irr M by (auto simp: m0_def)
  show "m = i \<or> (m = ?l \<or> m = ?r) \<and> m < ?n \<and> cmp (?v m) (?v i)"
  proof (cases "?r < ?n \<and> cmp (?v ?r) (?v m0)")
    case True
    have "cmp (?v ?r) (?v i)"
    proof (rule ccontr)
      assume "\<not> cmp (?v ?r) (?v i)"
      then have "\<not> cmp (?v ?r) (?v m0)" using cmp_trans [OF M [OF m0(1)] M [OF i] M m0(2)] True by blast
      then show False using True by blast
    qed
    then show ?thesis using True m' by simp
  qed (use m' in \<open>auto simp: m0_def\<close>)
  show "\<not> cmp (?v j) (?v m)" if j: "j = ?l \<or> j = ?r" "j < ?n" "j \<noteq> m" for j
  proof (cases "?r < ?n \<and> cmp (?v ?r) (?v m0)")
    case True
    then have "j = ?l" "m = ?r" using j m' by auto
    moreover have "\<not> cmp (?v m0) (?v ?r)" using True cmp_asym M m0(1) by blast
    ultimately show ?thesis using cmp_trans [OF M [of ?r] M [OF m0(1)] M [of ?l]] l0 True j(2) by blast
  next
    case False
    then show ?thesis using j m' l0 by auto
  qed
qed

lemma down_step:
  assumes ok: "keys_ok h" "values_in M h" and mv: "moving_down cmp h i" and i: "i < heap_size h"
    and m: "m = largest cmp i h" "m \<noteq> i"
  shows "moving_down cmp (Swap i m h) m"
proof -
  let ?h = "Swap i m h" let ?n = "heap_size h"
  have M: "M (value_at h x)" if "x < ?n" for x using ok(2) that by (simp add: values_in_def)
  have mc: "m = Left i \<or> m = Right i" "m < ?n" "cmp (value_at h m) (value_at h i)"
    and other: "\<And>j. j = Left i \<or> j = Right i \<Longrightarrow> j < ?n \<Longrightarrow> j \<noteq> m \<Longrightarrow> \<not> cmp (value_at h j) (value_at h m)"
    using largest_least [OF M i m(1)] m(2) by auto
  have pm: "Parent m = i" "0 < m" using mc(1) children by auto
  have l: "i < length (elements h)" "m < length (elements h)" using ok(1) i mc by (auto simp: keys_ok_def)
  have v: "value_at ?h x = (if x = i then value_at h m else if x = m then value_at h i else value_at h x)" for x
    by (rule Swap_sel(3) [OF l])
  have o: "\<not> cmp (value_at h j) (value_at h (Parent j))" if "0 < j" "j < ?n" "Parent j \<noteq> i" for j
    using mv that by (simp add: moving_down_def in_order_def)
  have br: "0 < i \<Longrightarrow> \<not> cmp (value_at h m) (value_at h (Parent i))"
    using mv pm mc(2) by (simp add: moving_down_def bridged_def)
  have im: "\<not> cmp (value_at h i) (value_at h m)" using cmp_asym [OF M M mc(3)] i mc(2) by blast
  have "in_order cmp ?h j" if j: "0 < j" "j < ?n" "Parent j \<noteq> m" for j
  proof -
    have pj: "Parent j < j" by (rule Parent_less [OF j(1)])
    consider "j = m" | "j = i" "j \<noteq> m" | "j \<noteq> m" "j \<noteq> i" "Parent j = i" | "j \<noteq> m" "j \<noteq> i" "Parent j \<noteq> i" by blast
    then show ?thesis
    proof cases
      case 1
      then show ?thesis using im pm m(2) by (auto simp: in_order_def v)
    next
      case 2
      then show ?thesis using br j pj by (auto simp: in_order_def v)
    next
      case 3
      then show ?thesis using other [of j] Parent_child [OF j(1)] j by (auto simp: in_order_def v)
    next
      case 4
      then show ?thesis using o [OF j(1,2)] j by (auto simp: in_order_def v)
    qed
  qed
  moreover have "\<not> cmp (value_at ?h j) (value_at ?h (Parent m))" if j: "0 < j" "j < ?n" "Parent j = m" for j
  proof -
    have "j \<noteq> m" "j \<noteq> i" using j Parent_less [OF j(1)] Parent_less [OF pm(2)] pm by auto
    then show ?thesis using o [OF j(1,2)] j m(2) by (simp add: v pm)
  qed
  ultimately show ?thesis by (auto simp: moving_down_def bridged_def)
qed

lemma Heapify_spec:
  assumes "keys_ok h" "values_in M h" "moving_down cmp h i" "i < heap_size h"
  shows "heap_ok cmp M (Heapify cmp i h) \<and> heap_map (Heapify cmp i h) = heap_map h"
  using assms
proof (induction "heap_size h - i" arbitrary: i h rule: less_induct)
  case less
  let ?m = "largest cmp i h"
  have M: "\<And>x. x < heap_size h \<Longrightarrow> M (value_at h x)" using less.prems(2) by (simp add: values_in_def)
  show ?case
  proof (cases "?m = i")
    case True
    have "in_order cmp h j" if j: "0 < j" "j < heap_size h" for j
    proof (cases "Parent j = i")
      case pi: True
      then have "j = Left i \<or> j = Right i" "j \<noteq> i" using Parent_child [OF j(1), of i] Parent_less [OF j(1)] pi by auto
      then show ?thesis using largest_least(2) [OF M less.prems(4) refl, of j] j pi True by (simp add: in_order_def)
    qed (use less.prems(3) j in \<open>simp add: moving_down_def\<close>)
    then have "heap_order cmp h" by (simp add: heap_order_def)
    moreover have "Heapify cmp i h = h" using True by (subst Heapify.simps) simp
    ultimately show ?thesis using less.prems by (simp add: heap_ok_def)
  next
    case False
    have m: "i < ?m" "?m < heap_size h" using largest_cases [of cmp i h] False by auto
    note sw = Swap_values [OF less.prems(1,2,4) m(2)]
    have "moving_down cmp (Swap i ?m h) ?m" by (rule down_step [OF less.prems(1-4) refl False])
    moreover have "Heapify cmp i h = Heapify cmp ?m (Swap i ?m h)" using False by (subst Heapify.simps) (simp add: Let_def)
    ultimately show ?thesis using less.hyps [of "Swap i ?m h" ?m] sw m by auto
  qed
qed


section \<open>The operations\<close>

lemma top_least:
  assumes "heap_ok cmp M h" "j < heap_size h"
  shows "\<not> cmp (value_at h j) (Top h)"
  using assms(2)
proof (induction j rule: less_induct)
  case (less j)
  have M: "\<And>x. x < heap_size h \<Longrightarrow> M (value_at h x)" using assms(1) by (simp add: heap_ok_def values_in_def)
  show ?case
  proof (cases "j = 0")
    case True
    then show ?thesis using cmp_asym [OF M M, of 0 0] less.prems by (auto simp: Top_def)
  next
    case False
    then have p: "Parent j < j" by (simp add: Parent_less)
    then have "\<not> cmp (value_at h (Parent j)) (Top h)" using less by simp
    moreover have "\<not> cmp (value_at h j) (value_at h (Parent j))"
      using assms(1) False less.prems by (simp add: heap_ok_def heap_order_def in_order_def)
    ultimately show ?thesis using cmp_trans [of "Top h" "value_at h (Parent j)" "value_at h j"] M less.prems p
      by (simp add: Top_def)
  qed
qed

lemma Insert_spec:
  assumes ok: "heap_ok cmp M h" and x: "M x" and r: "Insert cmp x h = (k, h')"
  shows "heap_ok cmp M h' \<and> heap_map h k = None \<and> heap_map h' = (heap_map h)(k \<mapsto> x)"
proof -
  let ?n = "heap_size h" let ?g = "grow x h"
  have ko: "keys_ok h" "heap_order cmp h" "values_in M h" using ok by (simp_all add: heap_ok_def)
  note G = grow_spec [OF ko(1), where x = x]
  have v: "value_at ?g j = (if j = ?n then x else value_at h j)" if "j \<le> ?n" for j using G(2) that by blast
  have "in_order cmp ?g j" if "0 < j" "j < ?n" for j
    using ko(2) that Parent_less [OF that(1)] by (simp add: in_order_def heap_order_def v)
  moreover have "Parent j \<noteq> ?n" if "0 < j" "j < Suc ?n" for j using that Parent_less [OF that(1)] by simp
  ultimately have "moving_up cmp ?g ?n" unfolding moving_up_def bridged_def G(1) less_Suc_eq by blast
  moreover have "values_in M ?g" using ko(3) x by (auto simp: values_in_def G(1) v less_Suc_eq)
  ultimately show ?thesis
    using InsertAt_spec [of ?g ?n x] G v [of ?n] r by (simp add: Insert_grow)
qed

text \<open>
  \<open>HeapUpdate\<close> also works when the comparison has changed for the value at one position only, which is how the
  queues use it.
\<close>

definition except_at :: "'v heap \<Rightarrow> nat \<Rightarrow> bool" where
  "except_at h i \<longleftrightarrow> (\<forall>j. 0 < j \<and> j < heap_size h \<and> j \<noteq> i \<and> Parent j \<noteq> i \<longrightarrow> in_order cmp h j) \<and> bridged cmp h i"

lemma Update_reorder:
  assumes ok: "keys_ok h" and k: "heap_map h key \<noteq> None" and i: "i = pos h ! key"
    and M: "values_in M (set_value i x h)" "\<And>j. j < heap_size h \<Longrightarrow> j \<noteq> i \<Longrightarrow> M (value_at h j)" and ex: "except_at h i"
    and top: "i = 0 \<Longrightarrow> cmp x (value_at h 0) \<Longrightarrow> heap_order cmp h \<and> M (value_at h 0)"
  shows "heap_ok cmp M (HeapUpdate cmp key x h) \<and> heap_map (HeapUpdate cmp key x h) = (heap_map h)(key \<mapsto> x)"
proof -
  let ?g = "set_value i x h"
  note g = set_value_map [OF ok k, of x, folded i]
  have il: "i < heap_size h" using live_key [OF k] by (simp add: i)
  then have l: "i < length (elements h)" using ok by (simp add: keys_ok_def)
  note s = set_value_sel [OF l, of x]
  have far: "in_order cmp ?g j" if "0 < j" "j < heap_size h" "j \<noteq> i" "Parent j \<noteq> i" for j
    using ex that by (simp add: except_at_def in_order_def s)
  have Mx: "M x" using M(1) il by (auto simp: values_in_def s)
  have br: "bridged cmp ?g i" using ex Parent_less unfolding except_at_def bridged_def s by (metis less_not_refl)
  have bj: "\<not> cmp (value_at h j) (value_at h (Parent i))" if "0 < j" "j < heap_size h" "Parent j = i" "0 < i" for j
    using ex that by (simp add: except_at_def bridged_def)
  show ?thesis
  proof (cases "cmp x (value_at h (Parent i))")
    case True
    have "in_order cmp ?g j" if j: "0 < j" "j < heap_size h" "j \<noteq> i" for j
    proof (cases "Parent j = i")
      case pj: True
      have "\<not> cmp (value_at h j) x"
      proof (cases "i = 0")
        case z: True
        have "cmp x (value_at h 0)" using True z by (simp add: Parent_def)
        then have "heap_order cmp h" "M (value_at h 0)" "\<not> cmp (value_at h 0) x" using top z cmp_asym [OF Mx] by auto
        moreover have "\<not> cmp (value_at h j) (value_at h 0)" using calculation(1) j pj z unfolding heap_order_def in_order_def by metis
        ultimately show ?thesis using cmp_trans [OF Mx _ M(2)] j by blast
      next
        case nz: False
        have P: "M (value_at h (Parent i))" using M(2) [of "Parent i"] Parent_less [of i] nz il by simp
        then have "\<not> cmp (value_at h (Parent i)) x" using cmp_asym [OF Mx] True by blast
        then show ?thesis using cmp_trans [OF Mx P M(2)] bj [OF j(1,2) pj] j nz by blast
      qed
      then show ?thesis using j pj by (simp add: in_order_def s)
    qed (use far j in blast)
    then have "moving_up cmp ?g i" using br by (simp add: moving_up_def s)
    then show ?thesis
      using InsertAt_spec [OF g(1) M(1), of i x] g il True by (simp add: HeapUpdate_def Let_def i [symmetric] s)
  next
    case False
    have "in_order cmp ?g i" if "0 < i" using False Parent_less [OF that] by (simp add: in_order_def s)
    then have "moving_down cmp ?g i" using br far by (auto simp: moving_down_def s)
    then show ?thesis
      using Heapify_spec [OF g(1) M(1), of i] g il False by (simp add: HeapUpdate_def Let_def i [symmetric] s)
  qed
qed

lemma Update_spec:
  assumes ok: "heap_ok cmp M h" and k: "heap_map h key \<noteq> None" and x: "M x"
  shows "heap_ok cmp M (HeapUpdate cmp key x h) \<and> heap_map (HeapUpdate cmp key x h) = (heap_map h)(key \<mapsto> x)"
proof (rule Update_reorder [OF _ k refl])
  let ?i = "pos h ! key"
  have ko: "keys_ok h" "heap_order cmp h" "values_in M h" using ok by (simp_all add: heap_ok_def)
  show "keys_ok h" by (rule ko(1))
  have i: "?i < heap_size h" using live_key [OF k] by simp
  then have l: "?i < length (elements h)" using ko(1) by (simp add: keys_ok_def)
  show "values_in M (set_value ?i x h)" using ko(3) x by (auto simp: values_in_def set_value_sel [OF l])
  show "M (value_at h j)" if "j < heap_size h" for j using ko(3) that by (simp add: values_in_def)
  have "\<not> cmp (value_at h j) (value_at h (Parent ?i))" if j: "0 < j" "j < heap_size h" "Parent j = ?i" "0 < ?i" for j
  proof -
    have "\<not> cmp (value_at h j) (value_at h ?i)" "\<not> cmp (value_at h ?i) (value_at h (Parent ?i))"
      using ko(2) j i by (auto simp: heap_order_def in_order_def)
    then show ?thesis
      using cmp_trans ko(3) i j(2) Parent_less [OF j(4)] unfolding values_in_def by (meson less_trans)
  qed
  then show "except_at h ?i" using ko(2) by (auto simp: except_at_def bridged_def heap_order_def)
  show "heap_order cmp h \<and> M (value_at h 0)" if "?i = 0" using ko i that by (simp add: values_in_def)
qed

lemma Pop_spec:
  assumes ok: "heap_ok cmp M h" and ne: "\<not> Empty h" and r: "Pop cmp h = (x, h')"
  shows "x = Top h \<and> heap_ok cmp M h' \<and> (\<exists>k. heap_map h k = Some x \<and> heap_map h' = (heap_map h)(k := None))"
proof -
  let ?n = "heap_size h" let ?s = "Swap 0 (?n - 1) h" let ?g = "?s\<lparr>heap_size := heap_size ?s - 1\<rparr>"
  have ko: "keys_ok h" "heap_order cmp h" "values_in M h" using ok by (simp_all add: heap_ok_def)
  have n: "0 < ?n" "?n - 1 < ?n" using ne by (simp_all add: Empty_def)
  then have l: "0 < length (elements h)" "?n - 1 < length (elements h)" using ko(1) by (auto simp: keys_ok_def)
  note sw = Swap_values [OF ko(1,3) n] and s = Swap_sel [OF l]
  note g = shrink_map [OF sw(2), unfolded heap_size_Swap, OF n(1)]
  have r': "x = Top h" "h' = Heapify cmp 0 ?g" using r by (simp_all add: Pop_def Top_def Let_def)
  have v: "value_at ?g j = value_at ?s j" for j by (simp add: value_at_def)
  have key: "key_at ?s (?n - 1) = key_at h 0" unfolding s by simp
  have "pos h ! key_at h 0 = 0" "key_at h 0 < length (pos h)" using ko(1) l by (auto simp: keys_ok_def)
  then have top: "heap_map h (key_at h 0) = Some x" using n by (simp add: heap_map_def r' Top_def)
  have gm: "heap_map ?g = (heap_map h)(key_at h 0 := None)" "keys_ok ?g" using g sw(3) key by simp_all
  have gv: "values_in M ?g" using sw(1) unfolding values_in_def v by simp
  have "heap_ok cmp M (Heapify cmp 0 ?g) \<and> heap_map (Heapify cmp 0 ?g) = heap_map ?g"
  proof (cases "heap_size ?g = 0")
    case True
    have "Heapify cmp 0 ?g = ?g" using True by (subst Heapify.simps) (simp add: largest_def Let_def)
    then show ?thesis using gm gv True by (simp add: heap_ok_def heap_order_def)
  next
    case False
    have "in_order cmp ?g j" if j: "0 < j" "j < heap_size ?g" "Parent j \<noteq> 0" for j
    proof -
      have p: "0 < Parent j" "Parent j < j" "j < ?n - 1" using j Parent_less [OF j(1)] by simp_all
      then have "value_at ?s j = value_at h j" "value_at ?s (Parent j) = value_at h (Parent j)" unfolding s by auto
      moreover have "in_order cmp h j" using ko(2) j(1) p(3) unfolding heap_order_def by auto
      ultimately show ?thesis unfolding in_order_def v by simp
    qed
    then have "moving_down cmp ?g 0" by (auto simp: moving_down_def bridged_def)
    then show ?thesis using Heapify_spec [OF gm(2) gv] False by blast
  qed
  then show ?thesis using r' gm(1) top by auto
qed

lemma new_Heap_ok: "heap_ok cmp M new_Heap" "heap_map new_Heap = Map.empty"
  by (auto simp: new_Heap_def heap_ok_def keys_ok_def heap_order_def values_in_def heap_map_def)

lemma Clear_spec: "heap_ok cmp M h \<Longrightarrow> heap_ok cmp M (Clear h) \<and> heap_map (Clear h) = Map.empty"
  by (auto simp: Clear_def heap_ok_def keys_ok_def heap_order_def values_in_def heap_map_def key_at_def)

end

text \<open>The comparison \<open>std::less\<close> of a totally ordered type.\<close>

interpretation less_heap: heap_compare "(<) :: 'a::linorder \<Rightarrow> 'a \<Rightarrow> bool" "\<lambda>_. True"
  by unfold_locales auto

end
