(* ===== verification/Queue.thy ===== *)
theory Queue
  imports HeapLaws Weight
begin

text \<open>
  The queue disciplines of src/openfst/lib/queue.h that the shortest-distance algorithm can be run with: first-in
  first-out, last-in first-out, shortest first (over the heap with keys), state order and topological order.
  A queue is a record of its member functions. A shortest-first queue holds a reference to the vector of
  distances that the algorithm changes, so the functions take the current distances as an argument. The
  locale \<open>state_queue\<close> is the contract of a queue of states, and every discipline is an interpretation of it.
\<close>

section \<open>The disciplines\<close>

record ('q, 'w) queue_ops =
  q_Head :: "'q \<Rightarrow> nat"
  q_Enqueue :: "'w list \<Rightarrow> nat \<Rightarrow> 'q \<Rightarrow> 'q"
  q_Dequeue :: "'w list \<Rightarrow> 'q \<Rightarrow> 'q"
  q_Update :: "'w list \<Rightarrow> nat \<Rightarrow> 'q \<Rightarrow> 'q"
  q_Empty :: "'q \<Rightarrow> bool"
  q_Clear :: "'q \<Rightarrow> 'q"

definition FifoQueue :: "(nat list, 'w) queue_ops" where
  "FifoQueue =
     \<lparr>q_Head = hd, q_Enqueue = (\<lambda>_ s q. q @ [s]), q_Dequeue = (\<lambda>_. tl), q_Update = (\<lambda>_ _ q. q),
      q_Empty = (\<lambda>q. q = []), q_Clear = (\<lambda>_. [])\<rparr>"

definition LifoQueue :: "(nat list, 'w) queue_ops" where
  "LifoQueue =
     \<lparr>q_Head = last, q_Enqueue = (\<lambda>_ s q. q @ [s]), q_Dequeue = (\<lambda>_. butlast), q_Update = (\<lambda>_ _ q. q),
      q_Empty = (\<lambda>q. q = []), q_Clear = (\<lambda>_. [])\<rparr>"

record sf_queue =
  sf_heap :: "nat heap"
  sf_key :: "nat option list"

text \<open>Two states are compared by their weights.\<close>

definition StateWeightCompare :: "'w list \<Rightarrow> ('w \<Rightarrow> 'w \<Rightarrow> bool) \<Rightarrow> nat \<Rightarrow> nat \<Rightarrow> bool" where
  "StateWeightCompare weights lt s1 s2 = lt (weights ! s1) (weights ! s2)"

definition sf_Enqueue :: "(nat \<Rightarrow> nat \<Rightarrow> bool) \<Rightarrow> bool \<Rightarrow> nat \<Rightarrow> sf_queue \<Rightarrow> sf_queue" where
  "sf_Enqueue cmp upd s q =
     (if upd
      then (let key = sf_key q @ replicate (s + 1 - length (sf_key q)) None;
                (k, h) = Insert cmp s (sf_heap q)
            in q\<lparr>sf_heap := h, sf_key := key[s := Some k]\<rparr>)
      else q\<lparr>sf_heap := snd (Insert cmp s (sf_heap q))\<rparr>)"

definition sf_Dequeue :: "(nat \<Rightarrow> nat \<Rightarrow> bool) \<Rightarrow> bool \<Rightarrow> sf_queue \<Rightarrow> sf_queue" where
  "sf_Dequeue cmp upd q =
     (let (s, h) = Pop cmp (sf_heap q)
      in if upd then q\<lparr>sf_heap := h, sf_key := (sf_key q)[s := None]\<rparr> else q\<lparr>sf_heap := h\<rparr>)"

definition sf_Update :: "(nat \<Rightarrow> nat \<Rightarrow> bool) \<Rightarrow> bool \<Rightarrow> nat \<Rightarrow> sf_queue \<Rightarrow> sf_queue" where
  "sf_Update cmp upd s q =
     (if \<not> upd then q
      else if s \<ge> length (sf_key q) \<or> sf_key q ! s = None then sf_Enqueue cmp upd s q
      else q\<lparr>sf_heap := HeapUpdate cmp (the (sf_key q ! s)) s (sf_heap q)\<rparr>)"

definition sf_Clear :: "bool \<Rightarrow> sf_queue \<Rightarrow> sf_queue" where
  "sf_Clear upd q =
     (let q = q\<lparr>sf_heap := Clear (sf_heap q)\<rparr> in if upd then q\<lparr>sf_key := []\<rparr> else q)"

text \<open>\<open>CustomShortestFirstQueue\<close>: a shortest-first queue that compares states by the distances.\<close>

definition ShortestFirstQueue :: "('w \<Rightarrow> 'w \<Rightarrow> bool) \<Rightarrow> (sf_queue, 'w) queue_ops" where
  "ShortestFirstQueue lt =
     \<lparr>q_Head = (\<lambda>q. Top (sf_heap q)),
      q_Enqueue = (\<lambda>d. sf_Enqueue (StateWeightCompare d lt) True),
      q_Dequeue = (\<lambda>d. sf_Dequeue (StateWeightCompare d lt) True),
      q_Update = (\<lambda>d. sf_Update (StateWeightCompare d lt) True),
      q_Empty = (\<lambda>q. Empty (sf_heap q)), q_Clear = sf_Clear True\<rparr>"

definition new_ShortestFirstQueue :: sf_queue where
  "new_ShortestFirstQueue = \<lparr>sf_heap = new_Heap, sf_key = []\<rparr>"

text \<open>
  The other two queues keep the bounds \<open>front\<close> and \<open>back\<close> of the part of a vector that is in use. A new entry
  widens the bounds, and the loop of \<open>Dequeue\<close> moves \<open>front\<close> to the next entry.
\<close>

definition widen :: "int \<Rightarrow> int \<Rightarrow> int \<Rightarrow> int \<times> int" where
  "widen front back s =
     (if front > back then (s, s) else if s > back then (front, s) else if s < front then (s, back) else (front, back))"

function skip :: "(nat \<Rightarrow> bool) \<Rightarrow> int \<Rightarrow> int \<Rightarrow> int" where
  "skip used front back = (if front \<le> back \<and> \<not> used (nat front) then skip used (front + 1) back else front)"
  by pat_completeness auto
termination by (relation "measure (\<lambda>(_, front, back). nat (back + 1 - front))") auto

declare skip.simps [simp del]

record so_queue =
  so_front :: int
  so_back :: int
  so_enqueued :: "bool list"

definition new_StateOrderQueue :: so_queue where
  "new_StateOrderQueue = \<lparr>so_front = 0, so_back = - 1, so_enqueued = []\<rparr>"

definition so_Enqueue :: "nat \<Rightarrow> so_queue \<Rightarrow> so_queue" where
  "so_Enqueue s q =
     (let (front, back) = widen (so_front q) (so_back q) (int s);
          e = so_enqueued q @ replicate (s + 1 - length (so_enqueued q)) False
      in q\<lparr>so_front := front, so_back := back, so_enqueued := e[s := True]\<rparr>)"

definition so_Dequeue :: "so_queue \<Rightarrow> so_queue" where
  "so_Dequeue q =
     (let e = (so_enqueued q)[nat (so_front q) := False]
      in q\<lparr>so_enqueued := e, so_front := skip (\<lambda>i. e ! i) (so_front q) (so_back q)\<rparr>)"

definition so_Clear :: "so_queue \<Rightarrow> so_queue" where
  "so_Clear q =
     q\<lparr>so_enqueued := fold (\<lambda>i e. e[nat i := False]) [so_front q .. so_back q] (so_enqueued q), so_front := 0, so_back := - 1\<rparr>"

definition StateOrderQueue :: "(so_queue, 'w) queue_ops" where
  "StateOrderQueue =
     \<lparr>q_Head = (\<lambda>q. nat (so_front q)), q_Enqueue = (\<lambda>_. so_Enqueue), q_Dequeue = (\<lambda>_. so_Dequeue), q_Update = (\<lambda>_ _ q. q),
      q_Empty = (\<lambda>q. so_front q > so_back q), q_Clear = so_Clear\<rparr>"

record to_queue =
  to_front :: int
  to_back :: int
  to_order :: "nat list"
  to_state :: "nat option list"

text \<open>The constructor that is passed the order.\<close>

definition new_TopOrderQueue :: "nat list \<Rightarrow> to_queue" where
  "new_TopOrderQueue order = \<lparr>to_front = 0, to_back = - 1, to_order = order, to_state = replicate (length order) None\<rparr>"

definition to_Enqueue :: "nat \<Rightarrow> to_queue \<Rightarrow> to_queue" where
  "to_Enqueue s q =
     (let (front, back) = widen (to_front q) (to_back q) (int (to_order q ! s))
      in q\<lparr>to_front := front, to_back := back, to_state := (to_state q)[to_order q ! s := Some s]\<rparr>)"

definition to_Dequeue :: "to_queue \<Rightarrow> to_queue" where
  "to_Dequeue q =
     (let st = (to_state q)[nat (to_front q) := None]
      in q\<lparr>to_state := st, to_front := skip (\<lambda>i. st ! i \<noteq> None) (to_front q) (to_back q)\<rparr>)"

definition to_Clear :: "to_queue \<Rightarrow> to_queue" where
  "to_Clear q =
     q\<lparr>to_state := fold (\<lambda>i st. st[nat i := None]) [to_front q .. to_back q] (to_state q), to_back := - 1, to_front := 0\<rparr>"

definition TopOrderQueue :: "(to_queue, 'w) queue_ops" where
  "TopOrderQueue =
     \<lparr>q_Head = (\<lambda>q. the (to_state q ! nat (to_front q))), q_Enqueue = (\<lambda>_. to_Enqueue), q_Dequeue = (\<lambda>_. to_Dequeue),
      q_Update = (\<lambda>_ _ q. q), q_Empty = (\<lambda>q. to_front q > to_back q), q_Clear = to_Clear\<rparr>"

section \<open>The contract\<close>

text \<open>
  A queue holds a set of states. A state is enqueued only while it is not in the queue, and updated only while it is.
  \<open>valid\<close> are the states that the queue can hold.
\<close>

locale state_queue =
  fixes Q :: "('q, 'w) queue_ops" and valid :: "nat \<Rightarrow> bool" and ok :: "'q \<Rightarrow> bool" and queued :: "'q \<Rightarrow> nat set"
  assumes clear: "ok q \<Longrightarrow> ok (q_Clear Q q) \<and> queued (q_Clear Q q) = {}"
    and enqueue: "ok q \<Longrightarrow> valid s \<Longrightarrow> s \<notin> queued q \<Longrightarrow> ok (q_Enqueue Q d s q) \<and> queued (q_Enqueue Q d s q) = insert s (queued q)"
    and update: "ok q \<Longrightarrow> s \<in> queued q \<Longrightarrow> ok (q_Update Q d s q) \<and> queued (q_Update Q d s q) = queued q"
    and empty: "ok q \<Longrightarrow> q_Empty Q q \<longleftrightarrow> queued q = {}"
    and head: "ok q \<Longrightarrow> queued q \<noteq> {} \<Longrightarrow> q_Head Q q \<in> queued q"
    and dequeue: "ok q \<Longrightarrow> queued q \<noteq> {} \<Longrightarrow> ok (q_Dequeue Q d q) \<and> queued (q_Dequeue Q d q) = queued q - {q_Head Q q}"
    and finite_queued: "ok q \<Longrightarrow> finite (queued q)"

interpretation fifo: state_queue "FifoQueue :: (nat list, 'w) queue_ops" "\<lambda>_. True" distinct set
proof (unfold_locales, goal_cases)
  case (6 q d)
  then show ?case by (cases q) (auto simp: FifoQueue_def)
qed (auto simp: FifoQueue_def)

interpretation lifo: state_queue "LifoQueue :: (nat list, 'w) queue_ops" "\<lambda>_. True" distinct set
proof (unfold_locales, goal_cases)
  case (6 q d)
  then show ?case by (cases q rule: rev_cases) (auto simp: LifoQueue_def)
qed (auto simp: LifoQueue_def)

section \<open>The shortest-first queue\<close>

definition sf_ok :: "sf_queue \<Rightarrow> bool" where
  "sf_ok q \<longleftrightarrow> keys_ok (sf_heap q) \<and>
     (\<forall>k s. heap_map (sf_heap q) k = Some s \<longleftrightarrow> s < length (sf_key q) \<and> sf_key q ! s = Some k)"

definition sf_queued :: "sf_queue \<Rightarrow> nat set" where
  "sf_queued q = {s. s < length (sf_key q) \<and> sf_key q ! s \<noteq> None}"

lemma sf_queued_iff: "t \<in> sf_queued q \<longleftrightarrow> (\<exists>k. t < length (sf_key q) \<and> sf_key q ! t = Some k)"
  by (auto simp: sf_queued_def)

lemma sf_enqueue:
  assumes ok: "sf_ok q" and s: "s \<notin> sf_queued q"
  shows "sf_ok (sf_Enqueue cmp True s q) \<and> sf_queued (sf_Enqueue cmp True s q) = insert s (sf_queued q)"
proof -
  obtain k h where kh: "Insert cmp s (sf_heap q) = (k, h)" by (cases "Insert cmp s (sf_heap q)")
  have ko: "keys_ok (sf_heap q)" and map: "\<And>k s. heap_map (sf_heap q) k = Some s \<longleftrightarrow> s < length (sf_key q) \<and> sf_key q ! s = Some k"
    using ok by (auto simp: sf_ok_def)
  note I = Insert_keys [OF ko kh]
  define key where "key = (sf_key q @ replicate (s + 1 - length (sf_key q)) None)[s := Some k]"
  have q: "sf_Enqueue cmp True s q = q\<lparr>sf_heap := h, sf_key := key\<rparr>" using kh by (simp add: sf_Enqueue_def key_def Let_def)
  have nth: "t < length key \<and> key ! t = Some j \<longleftrightarrow> (if t = s then j = k else t < length (sf_key q) \<and> sf_key q ! t = Some j)" for t j
    by (auto simp: key_def nth_append nth_list_update)
  have "heap_map h j = Some t \<longleftrightarrow> t < length key \<and> key ! t = Some j" for j t
    using s I(2) map [of k] map [of j t] unfolding nth I(3) by (auto simp: sf_queued_def)
  moreover have "sf_queued (q\<lparr>sf_heap := h, sf_key := key\<rparr>) = insert s (sf_queued q)"
    by (rule set_eqI, subst sf_queued_iff) (auto simp: nth sf_queued_iff)
  ultimately show ?thesis using I(1) by (simp add: q sf_ok_def)
qed

lemma sf_update:
  assumes ok: "sf_ok q" and s: "s \<in> sf_queued q"
  shows "sf_ok (sf_Update cmp True s q) \<and> sf_queued (sf_Update cmp True s q) = sf_queued q"
proof -
  obtain k where k: "s < length (sf_key q)" "sf_key q ! s = Some k" using s by (auto simp: sf_queued_def)
  have ko: "keys_ok (sf_heap q)" and m: "heap_map (sf_heap q) k = Some s" using ok k by (auto simp: sf_ok_def)
  have "heap_map (HeapUpdate cmp k s (sf_heap q)) = heap_map (sf_heap q)" "keys_ok (HeapUpdate cmp k s (sf_heap q))"
    using HeapUpdate_keys [OF ko, of k cmp s] m by (auto simp: fun_eq_iff)
  then show ?thesis using ok k by (simp add: sf_Update_def sf_ok_def sf_queued_def)
qed

lemma sf_nonempty:
  assumes ok: "sf_ok q" and ne: "sf_queued q \<noteq> {}"
  shows "0 < heap_size (sf_heap q)"
proof -
  obtain s k where "s < length (sf_key q)" "sf_key q ! s = Some k" using ne by (auto simp: sf_queued_def)
  then have "heap_map (sf_heap q) k = Some s" using ok by (auto simp: sf_ok_def)
  then show ?thesis by (auto simp: heap_map_def split: if_splits)
qed

lemma sf_dequeue:
  assumes ok: "sf_ok q" and ne: "sf_queued q \<noteq> {}"
  shows "sf_ok (sf_Dequeue cmp True q) \<and> sf_queued (sf_Dequeue cmp True q) = sf_queued q - {Top (sf_heap q)} \<and>
    Top (sf_heap q) \<in> sf_queued q"
proof -
  obtain x h where xh: "Pop cmp (sf_heap q) = (x, h)" by (cases "Pop cmp (sf_heap q)")
  have ko: "keys_ok (sf_heap q)" and map: "\<And>k s. heap_map (sf_heap q) k = Some s \<longleftrightarrow> s < length (sf_key q) \<and> sf_key q ! s = Some k"
    using ok by (auto simp: sf_ok_def)
  note P = Pop_keys [OF ko sf_nonempty [OF ok ne] xh]
  let ?k = "key_at (sf_heap q) 0"
  have x: "x < length (sf_key q)" "sf_key q ! x = Some ?k" using map [of ?k x] P(3) by auto
  have "heap_map h j = Some t \<longleftrightarrow> t < length (sf_key q) \<and> (sf_key q)[x := None] ! t = Some j" for j t
    using map [of j t] P(3) x unfolding P(4) by (auto simp: nth_list_update)
  moreover have "{s. s < length (sf_key q) \<and> (sf_key q)[x := None] ! s \<noteq> None} = sf_queued q - {x}"
    using x by (auto simp: sf_queued_def nth_list_update split: if_splits)
  ultimately show ?thesis using P(1,2) x xh by (simp add: sf_Dequeue_def sf_ok_def) (auto simp: sf_queued_def)
qed

lemma sf_new: "sf_ok new_ShortestFirstQueue"
  by (simp add: new_ShortestFirstQueue_def sf_ok_def new_Heap_def keys_ok_def heap_map_def)

interpretation shortest_first: state_queue "ShortestFirstQueue lt :: (sf_queue, 'w) queue_ops" "\<lambda>_. True" sf_ok sf_queued
  for lt :: "'w \<Rightarrow> 'w \<Rightarrow> bool"
proof (unfold_locales, goal_cases)
  case (1 q)
  then show ?case
    by (auto simp: ShortestFirstQueue_def sf_Clear_def Clear_def sf_ok_def sf_queued_def keys_ok_def heap_map_def key_at_def Let_def)
next
  case (2 q s d)
  then show ?case using sf_enqueue by (simp add: ShortestFirstQueue_def)
next
  case (3 q s d)
  then show ?case using sf_update by (simp add: ShortestFirstQueue_def)
next
  case (4 q)
  have "sf_queued q \<noteq> {}" if "0 < heap_size (sf_heap q)"
  proof -
    have "keys_ok (sf_heap q)" using 4 by (simp add: sf_ok_def)
    then have "heap_map (sf_heap q) (key_at (sf_heap q) 0) \<noteq> None"
      using that by (force simp: keys_ok_def heap_map_def)
    then show ?thesis using 4 by (auto simp: sf_ok_def sf_queued_def)
  qed
  moreover have "0 < heap_size (sf_heap q)" if "sf_queued q \<noteq> {}" using sf_nonempty [OF 4 that] .
  ultimately show ?case by (cases "sf_queued q = {}") (auto simp: ShortestFirstQueue_def Empty_def)
next
  case (5 q)
  then show ?case using sf_dequeue [of q] by (simp add: ShortestFirstQueue_def)
next
  case (6 q d)
  then show ?case using sf_dequeue [of q] by (simp add: ShortestFirstQueue_def)
next
  case (7 q)
  then show ?case by (simp add: sf_queued_def)
qed

section \<open>The queues over a vector\<close>

text \<open>
  The bounds of a vector of size \<open>n\<close> whose used entries satisfy \<open>used\<close>: every used entry is within the bounds, and
  when there is one, \<open>front\<close> is the first.
\<close>

definition window :: "(nat \<Rightarrow> bool) \<Rightarrow> nat \<Rightarrow> int \<Rightarrow> int \<Rightarrow> bool" where
  "window used n front back \<longleftrightarrow> 0 \<le> front \<and> (front \<le> back \<longrightarrow> back < int n \<and> used (nat front)) \<and>
     (\<forall>i < n. used i \<longrightarrow> front \<le> int i \<and> int i \<le> back)"

lemma window_empty: "window used n f b \<Longrightarrow> b < f \<longleftrightarrow> (\<forall>i < n. \<not> used i)"
  by (cases "f \<le> b") (auto simp: window_def zless_nat_eq_int_zless intro!: exI [of _ "nat f"])

lemma window_front: "window used n f b \<Longrightarrow> f \<le> b \<Longrightarrow> nat f < n \<and> used (nat f)"
  by (auto simp: window_def)

lemma window_widen:
  assumes "window used n f b" "n \<le> n'" "s < n'" "\<And>i. i < n' \<Longrightarrow> used' i \<longleftrightarrow> i = s \<or> i < n \<and> used i"
    "widen f b (int s) = (f', b')"
  shows "window used' n' f' b'"
  using assms by (auto simp: window_def widen_def split: if_splits)

lemma skip_spec:
  "f \<le> skip used f b \<and> (skip used f b \<le> b \<longrightarrow> used (nat (skip used f b))) \<and>
   (\<forall>i. f \<le> i \<and> i < skip used f b \<longrightarrow> \<not> used (nat i))"
proof (induction used f b rule: skip.induct)
  case (1 used f b)
  show ?case
  proof (cases "f \<le> b \<and> \<not> used (nat f)")
    case True
    then have "skip used f b = skip used (f + 1) b" by (subst skip.simps) simp
    moreover have "\<not> used (nat i)" if "f \<le> i" "i < skip used (f + 1) b" for i
      using 1 [OF True] True that by (cases "i = f") auto
    ultimately show ?thesis using 1 [OF True] by auto
  next
    case False
    then show ?thesis by (subst (1 2 3 4) skip.simps) auto
  qed
qed

lemma window_skip:
  assumes "window used n f b" "f \<le> b" "\<And>i. i < n \<Longrightarrow> used' i \<longleftrightarrow> used i \<and> i \<noteq> nat f"
  shows "window used' n (skip used' f b) b"
proof -
  have "skip used' f b \<le> int i \<and> int i \<le> b" if "i < n" "used' i" for i
  proof -
    have "f \<le> int i" "int i \<le> b" using assms that by (auto simp: window_def)
    moreover have "\<not> int i < skip used' f b" using skip_spec [of f used' b] calculation(1) that(2) by fastforce
    ultimately show ?thesis by simp
  qed
  moreover have "0 \<le> f" "b < int n" using assms(1,2) by (auto simp: window_def)
  ultimately show ?thesis using skip_spec [of f used' b] by (auto simp: window_def)
qed

lemma fold_update_nth:
  assumes "j < length xs"
  shows "fold (\<lambda>i xs. xs[nat i := v]) is xs ! j = (if \<exists>i \<in> set is. nat i = j then v else xs ! j)"
  using assms by (induction "is" arbitrary: xs) (auto simp: nth_list_update)

lemma length_fold_update [simp]: "length (fold (\<lambda>i xs. xs[nat i := v]) is xs) = length xs"
  by (induction "is" arbitrary: xs) auto

lemma window_clear:
  assumes "window (\<lambda>i. P (xs ! i)) (length xs) f b" "\<not> P v" "i < length xs"
  shows "\<not> P (fold (\<lambda>i xs. xs[nat i := v]) [f .. b] xs ! i)"
proof -
  have "\<exists>j \<in> {f .. b}. nat j = i" if "P (xs ! i)" using assms that by (auto simp: window_def intro!: bexI [of _ "int i"])
  then show ?thesis using assms by (auto simp: fold_update_nth)
qed

definition so_ok :: "so_queue \<Rightarrow> bool" where
  "so_ok q \<longleftrightarrow> window (\<lambda>i. so_enqueued q ! i) (length (so_enqueued q)) (so_front q) (so_back q)"

definition so_queued :: "so_queue \<Rightarrow> nat set" where
  "so_queued q = {s. s < length (so_enqueued q) \<and> so_enqueued q ! s}"

lemma so_new: "so_ok new_StateOrderQueue"
  by (simp add: new_StateOrderQueue_def so_ok_def window_def)

interpretation state_order: state_queue "StateOrderQueue :: (so_queue, 'w) queue_ops" "\<lambda>_. True" so_ok so_queued
proof (unfold_locales, goal_cases)
  case (1 q)
  then show ?case
    using window_clear [of "\<lambda>x. x" "so_enqueued q" _ _ False]
    by (auto simp: StateOrderQueue_def so_Clear_def so_ok_def so_queued_def window_def)
next
  case (2 q s d)
  obtain f b where fb: "widen (so_front q) (so_back q) (int s) = (f, b)" by fastforce
  let ?e = "(so_enqueued q @ replicate (s + 1 - length (so_enqueued q)) False)[s := True]"
  have nth: "?e ! i \<longleftrightarrow> i = s \<or> i < length (so_enqueued q) \<and> so_enqueued q ! i" if "i < length ?e" for i
    using that by (auto simp: nth_append nth_list_update)
  have "window (\<lambda>i. ?e ! i) (length ?e) f b"
    using 2 window_widen [OF _ _ _ nth fb] by (simp add: so_ok_def)
  then show ?case using fb nth
    by (auto simp: StateOrderQueue_def so_Enqueue_def so_ok_def so_queued_def Let_def)
next
  case (4 q)
  then show ?case using window_empty [of _ _ "so_front q" "so_back q"] by (auto simp: StateOrderQueue_def so_ok_def so_queued_def)
next
  case (5 q)
  then show ?case
    using window_empty [of _ _ "so_front q" "so_back q"] window_front [of _ _ "so_front q" "so_back q"]
    by (fastforce simp: StateOrderQueue_def so_ok_def so_queued_def)
next
  case (6 q d)
  let ?e = "(so_enqueued q)[nat (so_front q) := False]"
  have w: "window (\<lambda>i. so_enqueued q ! i) (length (so_enqueued q)) (so_front q) (so_back q)" and le: "so_front q \<le> so_back q"
    using 6 window_empty [of _ _ "so_front q" "so_back q"] by (force simp: so_ok_def so_queued_def)+
  have "window (\<lambda>i. ?e ! i) (length (so_enqueued q)) (skip (\<lambda>i. ?e ! i) (so_front q) (so_back q)) (so_back q)"
    by (rule window_skip [OF w le]) (use window_front [OF w le] in \<open>auto simp: nth_list_update\<close>)
  then have "so_ok (so_Dequeue q)" by (simp add: so_Dequeue_def so_ok_def Let_def)
  moreover have "so_queued (so_Dequeue q) = so_queued q - {nat (so_front q)}" using window_front [OF w le]
    by (auto simp: so_Dequeue_def so_queued_def nth_list_update Let_def)
  ultimately show ?case by (simp add: StateOrderQueue_def)
qed (auto simp: StateOrderQueue_def so_queued_def)

text \<open>A topological-order queue holds the states that have a number in the order, each at its number.\<close>

definition to_ok :: "nat list \<Rightarrow> to_queue \<Rightarrow> bool" where
  "to_ok order q \<longleftrightarrow> to_order q = order \<and> length (to_state q) = length order \<and>
     window (\<lambda>i. to_state q ! i \<noteq> None) (length order) (to_front q) (to_back q) \<and>
     (\<forall>i < length order. \<forall>s. to_state q ! i = Some s \<longrightarrow> s < length order \<and> order ! s = i)"

lemma to_new: "to_ok order (new_TopOrderQueue order)"
  by (simp add: new_TopOrderQueue_def to_ok_def window_def)

definition to_queued :: "to_queue \<Rightarrow> nat set" where
  "to_queued q = {s. Some s \<in> set (to_state q)}"

lemma to_queued_iff:
  assumes "to_ok order q"
  shows "s \<in> to_queued q \<longleftrightarrow> s < length order \<and> order ! s < length order \<and> to_state q ! (order ! s) = Some s"
  using assms by (auto simp: to_queued_def to_ok_def in_set_conv_nth)

definition to_valid :: "nat list \<Rightarrow> nat \<Rightarrow> bool" where
  "to_valid order s \<longleftrightarrow> s < length order \<and> order ! s < length order \<and> (\<forall>t < length order. order ! t = order ! s \<longrightarrow> t = s)"

lemma to_nonempty:
  assumes "to_ok order q"
  shows "to_queued q = {} \<longleftrightarrow> to_front q > to_back q"
  using assms window_empty [of "\<lambda>i. to_state q ! i \<noteq> None" "length order" "to_front q" "to_back q"]
  by (auto simp: to_queued_def to_ok_def in_set_conv_nth)

lemma to_head:
  assumes ok: "to_ok order q" and ne: "to_queued q \<noteq> {}"
  shows "nat (to_front q) < length order \<and> to_state q ! nat (to_front q) \<noteq> None"
  using window_front [of "\<lambda>i. to_state q ! i \<noteq> None" "length order" "to_front q" "to_back q"] ok ne to_nonempty [OF ok]
  by (auto simp: to_ok_def)

lemma to_enqueue:
  assumes ok: "to_ok order q" and s: "to_valid order s" "s \<notin> to_queued q"
  shows "to_ok order (to_Enqueue s q) \<and> to_queued (to_Enqueue s q) = insert s (to_queued q)"
proof -
  obtain f b where fb: "widen (to_front q) (to_back q) (int (order ! s)) = (f, b)" by fastforce
  let ?st = "(to_state q)[order ! s := Some s]"
  have E: "to_Enqueue s q = q\<lparr>to_front := f, to_back := b, to_state := ?st\<rparr>"
    using ok fb by (simp add: to_Enqueue_def to_ok_def)
  have len: "length (to_state q) = length order" using ok by (simp add: to_ok_def)
  have own: "order ! t \<noteq> order ! s" if "t < length order" "t \<noteq> s" for t using s(1) that by (auto simp: to_valid_def)
  have "window (\<lambda>i. ?st ! i \<noteq> None) (length order) f b"
    by (rule window_widen [OF _ _ _ _ fb, of "\<lambda>i. to_state q ! i \<noteq> None" "length order"])
      (use ok s in \<open>auto simp: to_ok_def to_valid_def nth_list_update\<close>)
  then have ok': "to_ok order (to_Enqueue s q)" using ok s by (auto simp: E to_ok_def to_valid_def nth_list_update split: if_splits)
  moreover have "t \<in> to_queued (to_Enqueue s q) \<longleftrightarrow> t = s \<or> t \<in> to_queued q" for t
    unfolding to_queued_iff [OF ok'] to_queued_iff [OF ok]
    using s(1) own [of t] by (cases "t = s") (auto simp: E len to_valid_def)
  ultimately show ?thesis by auto
qed

lemma to_dequeue:
  assumes ok: "to_ok order q" and ne: "to_queued q \<noteq> {}"
  shows "to_ok order (to_Dequeue q) \<and> to_queued (to_Dequeue q) = to_queued q - {the (to_state q ! nat (to_front q))}"
proof -
  let ?st = "(to_state q)[nat (to_front q) := None]"
  have w: "window (\<lambda>i. to_state q ! i \<noteq> None) (length order) (to_front q) (to_back q)" and le: "to_front q \<le> to_back q"
    using ok ne to_nonempty [OF ok] by (auto simp: to_ok_def)
  have "window (\<lambda>i. ?st ! i \<noteq> None) (length order) (skip (\<lambda>i. ?st ! i \<noteq> None) (to_front q) (to_back q)) (to_back q)"
    by (rule window_skip [OF w le]) (use ok to_head [OF ok ne] in \<open>auto simp: to_ok_def nth_list_update\<close>)
  then have ok': "to_ok order (to_Dequeue q)"
    using ok to_head [OF ok ne] by (auto simp: to_Dequeue_def to_ok_def nth_list_update split: if_splits)
  have len: "length (to_state q) = length order" and at: "to_state q ! nat (to_front q) = Some t \<Longrightarrow> order ! t = nat (to_front q)" for t
    using ok to_head [OF ok ne] by (auto simp: to_ok_def)
  have st: "to_state (to_Dequeue q) = ?st" by (simp add: to_Dequeue_def Let_def)
  have "t \<in> to_queued (to_Dequeue q) \<longleftrightarrow> t \<in> to_queued q \<and> to_state q ! nat (to_front q) \<noteq> Some t" for t
  proof (cases "order ! t = nat (to_front q)")
    case True
    then show ?thesis unfolding to_queued_iff [OF ok'] to_queued_iff [OF ok] st using to_head [OF ok ne] len by simp
  next
    case False
    then show ?thesis unfolding to_queued_iff [OF ok'] to_queued_iff [OF ok] st using at [of t] by auto
  qed
  moreover obtain u where "to_state q ! nat (to_front q) = Some u" using to_head [OF ok ne] by blast
  ultimately have "to_queued (to_Dequeue q) = to_queued q - {u}" "the (to_state q ! nat (to_front q)) = u" by auto
  then show ?thesis using ok' by simp
qed

lemma to_clear:
  assumes ok: "to_ok order q"
  shows "to_ok order (to_Clear q) \<and> to_queued (to_Clear q) = {}"
proof -
  have none: "to_state (to_Clear q) ! i = None" if "i < length order" for i
    using window_clear [of "\<lambda>x. x \<noteq> None" "to_state q" "to_front q" "to_back q" None i] ok that by (auto simp: to_ok_def to_Clear_def)
  moreover have "length (to_state (to_Clear q)) = length order" "to_order (to_Clear q) = order" using ok by (auto simp: to_ok_def to_Clear_def)
  ultimately show ?thesis by (auto simp: to_ok_def window_def to_queued_def in_set_conv_nth to_Clear_def)
qed

interpretation top_order: state_queue "TopOrderQueue :: (to_queue, 'w) queue_ops" "to_valid order" "to_ok order" to_queued for order
proof (unfold_locales, goal_cases)
  case (1 q)
  then show ?case using to_clear by (simp add: TopOrderQueue_def)
next
  case (2 q s d)
  then show ?case using to_enqueue by (simp add: TopOrderQueue_def)
next
  case (4 q)
  then show ?case using to_nonempty by (simp add: TopOrderQueue_def)
next
  case (5 q)
  then show ?case using to_head [of order q] by (auto simp: TopOrderQueue_def to_queued_def to_ok_def in_set_conv_nth)
next
  case (6 q d)
  then show ?case using to_dequeue by (simp add: TopOrderQueue_def)
qed (auto simp: TopOrderQueue_def to_queued_def vimage_def [symmetric] intro!: finite_vimageI)

end
