(* ===== verification/ShortestDistance.thy ===== *)
theory ShortestDistance
  imports Queue FstPaths SetWeight
begin

text \<open>
  The shortest-distance algorithm of src/openfst/lib/shortest-distance.h: the class \<open>ShortestDistanceState\<close>, with
  the information it retains between calls, and the function that takes options. The queue is a record of
  its operations (theory Queue). \<open>Weight::Properties()\<close> is the argument \<open>wprops\<close>, and the comparison \<open>weight_equal\<close>,
  which the options fix by \<open>delta\<close>, is a field of the options. The loop over the queue need not end, so
  it is a partial function.
\<close>

unbundle bit_operations_syntax

section \<open>Properties of weights\<close>

type_synonym weight_props = "64 word"

definition kLeftSemiring :: weight_props where "kLeftSemiring = 0x1"
definition kRightSemiring :: weight_props where "kRightSemiring = 0x2"
definition kSemiring :: weight_props where "kSemiring = kLeftSemiring OR kRightSemiring"
definition kCommutative :: weight_props where "kCommutative = 0x4"
definition kIdempotent :: weight_props where "kIdempotent = 0x8"
definition kPath :: weight_props where "kPath = 0x10"

text \<open>\<open>SetWeight::Properties\<close>.\<close>

definition st_Properties :: weight_props where
  "st_Properties = kIdempotent OR kLeftSemiring OR kRightSemiring OR kCommutative"

section \<open>ShortestDistanceState\<close>

record 'w sd_options =
  o_arc_filter :: "'w arc \<Rightarrow> bool"
  o_source :: "nat option"
  o_weight_equal :: "'w \<Rightarrow> 'w \<Rightarrow> bool"
  o_first_path :: bool

record ('w, 'q) sd_state =
  sd_distance :: "'w list"
  sd_queue :: 'q
  sd_adder :: "'w adder list"
  sd_radder :: "'w adder list"
  sd_enqueued :: "bool list"
  sd_sources :: "nat option list"
  sd_source_id :: nat
  sd_error :: bool

definition ShortestDistanceState :: "'q \<Rightarrow> ('w, 'q) sd_state" where
  "ShortestDistanceState queue =
     \<lparr>sd_distance = [], sd_queue = queue, sd_adder = [], sd_radder = [], sd_enqueued = [], sd_sources = [],
      sd_source_id = 0, sd_error = False\<rparr>"

definition EnsureDistanceIndexIsValid :: "('w, 'z) weight_ops_scheme \<Rightarrow> nat \<Rightarrow> ('w, 'q) sd_state \<Rightarrow> ('w, 'q) sd_state" where
  "EnsureDistanceIndexIsValid W index st =
     (let n = index + 1 - length (sd_distance st)
      in st\<lparr>sd_distance := sd_distance st @ replicate n (Zero W),
            sd_adder := sd_adder st @ replicate n (Adder_init W),
            sd_radder := sd_radder st @ replicate n (Adder_init W),
            sd_enqueued := sd_enqueued st @ replicate n False\<rparr>)"

definition EnsureSourcesIndexIsValid :: "nat \<Rightarrow> ('w, 'q) sd_state \<Rightarrow> ('w, 'q) sd_state" where
  "EnsureSourcesIndexIsValid index st =
     st\<lparr>sd_sources := sd_sources st @ replicate (index + 1 - length (sd_sources st)) None\<rparr>"

text \<open>
  What the loop over the arcs does to the entries of \<open>nextstate\<close> before it reads them: they are made valid, and
  what an earlier call left there is reset.
\<close>

definition refresh :: "('w, 'z) weight_ops_scheme \<Rightarrow> bool \<Rightarrow> nat \<Rightarrow> ('w, 'q) sd_state \<Rightarrow> ('w, 'q) sd_state" where
  "refresh W retain t st =
     (let st = EnsureDistanceIndexIsValid W t st
      in if retain
         then (let st = EnsureSourcesIndexIsValid t st
               in if sd_sources st ! t \<noteq> Some (sd_source_id st)
                  then st\<lparr>sd_distance := (sd_distance st)[t := Zero W],
                          sd_adder := (sd_adder st)[t := Adder_Reset (sd_adder st ! t) (Zero W)],
                          sd_radder := (sd_radder st)[t := Adder_Reset (sd_radder st ! t) (Zero W)],
                          sd_enqueued := (sd_enqueued st)[t := False],
                          sd_sources := (sd_sources st)[t := Some (sd_source_id st)]\<rparr>
                  else st)
         else st)"

text \<open>
  One round of the loop over the arcs, for an arc that the filter keeps. \<open>Inl\<close> is the return from the member function
  with an error, \<open>Inr\<close> the end of the round.
\<close>

definition relax_arc ::
  "('w, 'z) weight_ops_scheme \<Rightarrow> ('q, 'w) queue_ops \<Rightarrow> 'w sd_options \<Rightarrow> bool \<Rightarrow> 'w \<Rightarrow> 'w arc \<Rightarrow>
    ('w, 'q) sd_state \<Rightarrow> ('w, 'q) sd_state + ('w, 'q) sd_state" where
  "relax_arc W Q opts retain r arc st =
     (let t = nextstate arc;
          st = refresh W retain t st;
          nd = sd_distance st ! t;
          w = Times W r (weight arc)
      in if o_weight_equal opts nd (Plus W nd w) then Inr st
         else (let (na, nd) = Adder_Add W (sd_adder st ! t) w;
                   (nr, _) = Adder_Add W (sd_radder st ! t) w;
                   st = st\<lparr>sd_distance := (sd_distance st)[t := nd], sd_adder := (sd_adder st)[t := na],
                           sd_radder := (sd_radder st)[t := nr]\<rparr>
               in if \<not> Member W nd \<or> \<not> Member W (Adder_Sum nr) then Inl (st\<lparr>sd_error := True\<rparr>)
                  else if \<not> sd_enqueued st ! t
                  then Inr (st\<lparr>sd_queue := q_Enqueue Q (sd_distance st) t (sd_queue st),
                               sd_enqueued := (sd_enqueued st)[t := True]\<rparr>)
                  else Inr (st\<lparr>sd_queue := q_Update Q (sd_distance st) t (sd_queue st)\<rparr>)))"

primrec relax_arcs ::
  "('w, 'z) weight_ops_scheme \<Rightarrow> ('q, 'w) queue_ops \<Rightarrow> 'w sd_options \<Rightarrow> bool \<Rightarrow> 'w \<Rightarrow> 'w arc list \<Rightarrow>
    ('w, 'q) sd_state \<Rightarrow> ('w, 'q) sd_state + ('w, 'q) sd_state" where
  "relax_arcs W Q opts retain r [] st = Inr st"
| "relax_arcs W Q opts retain r (arc # as) st =
     (if \<not> o_arc_filter opts arc then relax_arcs W Q opts retain r as st
      else (case relax_arc W Q opts retain r arc st of
              Inl st \<Rightarrow> Inl st
            | Inr st \<Rightarrow> relax_arcs W Q opts retain r as st))"

text \<open>What a round of the loop over the queue does first: the head is dequeued, and then its relaxation distance is taken.\<close>

definition sd_dequeue ::
  "('w, 'z) weight_ops_scheme \<Rightarrow> ('q, 'w) queue_ops \<Rightarrow> ('w, 'q) sd_state \<Rightarrow> nat \<times> ('w, 'q) sd_state" where
  "sd_dequeue W Q st =
     (let state = q_Head Q (sd_queue st);
          st = st\<lparr>sd_queue := q_Dequeue Q (sd_distance st) (sd_queue st)\<rparr>
      in (state, EnsureDistanceIndexIsValid W state st))"

definition take_radder ::
  "('w, 'z) weight_ops_scheme \<Rightarrow> nat \<Rightarrow> ('w, 'q) sd_state \<Rightarrow> 'w \<times> ('w, 'q) sd_state" where
  "take_radder W state st =
     (Adder_Sum (sd_radder st ! state),
      st\<lparr>sd_enqueued := (sd_enqueued st)[state := False],
         sd_radder := (sd_radder st)[state := Adder_Reset (sd_radder st ! state) (Zero W)]\<rparr>)"

partial_function (option) sd_loop ::
  "('w, 'z) weight_ops_scheme \<Rightarrow> ('q, 'w) queue_ops \<Rightarrow> 'w vfst \<Rightarrow> 'w sd_options \<Rightarrow> bool \<Rightarrow>
    ('w, 'q) sd_state \<Rightarrow> (('w, 'q) sd_state + ('w, 'q) sd_state) option" where
  "sd_loop W Q f opts retain st =
     (if q_Empty Q (sd_queue st) then Some (Inr st)
      else (let (state, st) = sd_dequeue W Q st
            in if o_first_path opts \<and> \<not> Weq W (Final f state) (Zero W) then Some (Inr st)
               else (let (r, st) = take_radder W state st
                     in case relax_arcs W Q opts retain r (Arcs f state) st of
                          Inl st \<Rightarrow> Some (Inl st)
                        | Inr st \<Rightarrow> sd_loop W Q f opts retain st)))"

text \<open>The statements before the loop.\<close>

definition sd_begin ::
  "('w, 'z) weight_ops_scheme \<Rightarrow> ('q, 'w) queue_ops \<Rightarrow> bool \<Rightarrow> nat \<Rightarrow> ('w, 'q) sd_state \<Rightarrow> ('w, 'q) sd_state" where
  "sd_begin W Q retain source st =
     (let st = st\<lparr>sd_queue := q_Clear Q (sd_queue st)\<rparr>;
          st = (if \<not> retain then st\<lparr>sd_distance := [], sd_adder := [], sd_radder := [], sd_enqueued := []\<rparr> else st);
          st = EnsureDistanceIndexIsValid W source st;
          st = (if retain
                then (let st = EnsureSourcesIndexIsValid source st
                      in st\<lparr>sd_sources := (sd_sources st)[source := Some (sd_source_id st)]\<rparr>)
                else st);
          st = st\<lparr>sd_distance := (sd_distance st)[source := One W],
                  sd_adder := (sd_adder st)[source := Adder_Reset (sd_adder st ! source) (One W)],
                  sd_radder := (sd_radder st)[source := Adder_Reset (sd_radder st ! source) (One W)],
                  sd_enqueued := (sd_enqueued st)[source := True]\<rparr>
      in st\<lparr>sd_queue := q_Enqueue Q (sd_distance st) source (sd_queue st)\<rparr>)"

text \<open>The member function.\<close>

definition sd_ShortestDistance ::
  "('w, 'z) weight_ops_scheme \<Rightarrow> weight_props \<Rightarrow> ('q, 'w) queue_ops \<Rightarrow> 'w vfst \<Rightarrow> 'w sd_options \<Rightarrow> bool \<Rightarrow> nat option \<Rightarrow>
    ('w, 'q) sd_state \<Rightarrow> ('w, 'q) sd_state option" where
  "sd_ShortestDistance W wprops Q f opts retain source st =
     (case start f of
        None \<Rightarrow> Some (if has (Properties f kError) kError then st\<lparr>sd_error := True\<rparr> else st)
      | Some i \<Rightarrow>
          if \<not> has wprops kRightSemiring then Some (st\<lparr>sd_error := True\<rparr>)
          else if o_first_path opts \<and> \<not> has wprops kPath then Some (st\<lparr>sd_error := True\<rparr>)
          else (case sd_loop W Q f opts retain
                       (sd_begin W Q retain (case source of None \<Rightarrow> i | Some s \<Rightarrow> s) st) of
                  None \<Rightarrow> None
                | Some (Inl st) \<Rightarrow> Some st
                | Some (Inr st) \<Rightarrow>
                    (let st = st\<lparr>sd_source_id := sd_source_id st + 1\<rparr>
                     in Some (if has (Properties f kError) kError then st\<lparr>sd_error := True\<rparr> else st))))"

section \<open>ShortestDistance\<close>

text \<open>The function that takes options. It returns the distances, and the queue is left with the caller.\<close>

definition ShortestDistance ::
  "('w, 'z) weight_ops_scheme \<Rightarrow> weight_props \<Rightarrow> ('q, 'w) queue_ops \<Rightarrow> 'w vfst \<Rightarrow> 'w sd_options \<Rightarrow> 'q \<Rightarrow>
    ('w list \<times> 'q) option" where
  "ShortestDistance W wprops Q f opts queue =
     (case sd_ShortestDistance W wprops Q f opts False (o_source opts) (ShortestDistanceState queue) of
        None \<Rightarrow> None
      | Some st \<Rightarrow> Some (if sd_error st then [NoWeight W] else sd_distance st, sd_queue st))"

end
