(* ===== verification/DistanceLaws.thy ===== *)
theory DistanceLaws
  imports ShortestDistance
begin

text \<open>
  Weights of paths over a set of transitions, and their sums, in an idempotent weight that distributes from the right.
  These are the values that the shortest-distance algorithm can reach. The locale \<open>distance_weight\<close> states what the
  algorithm needs of the weights.
\<close>

section \<open>Sums of path weights\<close>

definition path_weights :: "('w, 'z) weight_ops_scheme \<Rightarrow> (nat \<times> 'w arc) set \<Rightarrow> nat \<Rightarrow> nat \<Rightarrow> 'w set" where
  "path_weights W T s t = {path_weight W as | as. tpath T s as t}"

definition sums :: "('w, 'z) weight_ops_scheme \<Rightarrow> 'w set \<Rightarrow> 'w set" where
  "sums W X = {foldr (Plus W) ws (Zero W) | ws. set ws \<subseteq> X}"

text \<open>\<open>d\<close> is the sum of the weights in \<open>X\<close>: a sum of weights in \<open>X\<close> to which no weight in \<open>X\<close> adds anything.\<close>

definition is_total :: "('w, 'z) weight_ops_scheme \<Rightarrow> 'w set \<Rightarrow> 'w \<Rightarrow> bool" where
  "is_total W X d \<longleftrightarrow> d \<in> sums W X \<and> (\<forall>w \<in> X. Plus W d w = d)"

locale distance_weight = right_semiring W M + idempotent_weight W M
  for W :: "('w, 'z) weight_ops_scheme" and M :: "'w \<Rightarrow> bool"
begin

lemma M_sum: "set ws \<subseteq> Collect M \<Longrightarrow> M (foldr (Plus W) ws (Zero W))"
  by (induction ws) (auto simp: M_Zero M_Plus)

lemma M_sums: "X \<subseteq> Collect M \<Longrightarrow> x \<in> sums W X \<Longrightarrow> M x"
  using M_sum by (auto simp: sums_def)

lemma sum_append:
  "set us \<subseteq> Collect M \<Longrightarrow> set ws \<subseteq> Collect M \<Longrightarrow>
    foldr (Plus W) (us @ ws) (Zero W) = Plus W (foldr (Plus W) us (Zero W)) (foldr (Plus W) ws (Zero W))"
proof (induction us)
  case Nil
  then show ?case using M_sum [of ws] by (simp add: Zero_Plus)
next
  case (Cons u us)
  then show ?case using M_sum [of us] M_sum [of ws] Plus_assoc by auto
qed

lemma sums_Zero: "Zero W \<in> sums W X"
  by (auto simp: sums_def intro!: exI [of _ "[]"])

lemma sums_single: "x \<in> X \<Longrightarrow> M x \<Longrightarrow> x \<in> sums W X"
  by (auto simp: sums_def Plus_Zero intro!: exI [of _ "[x]"])

lemma sums_Plus:
  assumes X: "X \<subseteq> Collect M" and xy: "x \<in> sums W X" "y \<in> sums W X"
  shows "Plus W x y \<in> sums W X"
proof -
  obtain us ws where "set us \<subseteq> X" "x = foldr (Plus W) us (Zero W)" "set ws \<subseteq> X" "y = foldr (Plus W) ws (Zero W)"
    using xy by (auto simp: sums_def)
  then show ?thesis using sum_append [of us ws] X by (auto simp: sums_def intro!: exI [of _ "us @ ws"])
qed

lemma sum_Times:
  "set ws \<subseteq> Collect M \<Longrightarrow> M x \<Longrightarrow>
    Times W (foldr (Plus W) ws (Zero W)) x = foldr (Plus W) (map (\<lambda>w. Times W w x) ws) (Zero W)"
  by (induction ws) (auto simp: Zero_Times Times_Plus_right M_sum)

lemma sums_Times:
  assumes X: "X \<subseteq> Collect M" and x: "M x" and y: "y \<in> sums W X" and Y: "\<And>z. z \<in> X \<Longrightarrow> Times W z x \<in> Y"
  shows "Times W y x \<in> sums W Y"
proof -
  obtain ws where "set ws \<subseteq> X" "y = foldr (Plus W) ws (Zero W)" using y by (auto simp: sums_def)
  moreover from this have "set (map (\<lambda>w. Times W w x) ws) \<subseteq> Y" using Y by auto
  ultimately show ?thesis using sum_Times [of ws x] X x by (auto simp: sums_def intro!: exI [of _ "map (\<lambda>w. Times W w x) ws"])
qed

lemma sum_absorbs:
  "w \<in> set ws \<Longrightarrow> set ws \<subseteq> Collect M \<Longrightarrow> Plus W w (foldr (Plus W) ws (Zero W)) = foldr (Plus W) ws (Zero W)"
proof (induction ws)
  case (Cons u us)
  have M: "M w" "M u" "M (foldr (Plus W) us (Zero W))" using Cons.prems M_sum [of us] by auto
  show ?case
  proof (cases "w = u")
    case True
    then show ?thesis using M Plus_assoc [of u u "foldr (Plus W) us (Zero W)"] by (simp add: Plus_idem)
  next
    case False
    then have IH: "Plus W w (foldr (Plus W) us (Zero W)) = foldr (Plus W) us (Zero W)" using Cons by auto
    have "Plus W w (Plus W u (foldr (Plus W) us (Zero W))) = Plus W u (Plus W w (foldr (Plus W) us (Zero W)))"
      using M by (simp add: Plus_assoc [symmetric] Plus_comm)
    then show ?thesis using IH by simp
  qed
qed simp

lemma sum_remdups: "set ws \<subseteq> Collect M \<Longrightarrow> foldr (Plus W) (remdups ws) (Zero W) = foldr (Plus W) ws (Zero W)"
  by (induction ws) (auto simp: sum_absorbs)

lemma finite_sums:
  assumes "finite X" "X \<subseteq> Collect M"
  shows "finite (sums W X)"
proof (rule finite_subset)
  show "sums W X \<subseteq> (\<lambda>ws. foldr (Plus W) ws (Zero W)) ` {ws. set ws \<subseteq> X \<and> distinct ws}"
  proof
    fix x assume "x \<in> sums W X"
    then obtain ws where ws: "set ws \<subseteq> X" "x = foldr (Plus W) ws (Zero W)" by (auto simp: sums_def)
    then have "x = foldr (Plus W) (remdups ws) (Zero W)" using sum_remdups [of ws] assms(2) by auto
    then show "x \<in> (\<lambda>ws. foldr (Plus W) ws (Zero W)) ` {ws. set ws \<subseteq> X \<and> distinct ws}"
      using ws(1) by (intro image_eqI [of _ _ "remdups ws"]) auto
  qed
qed (simp add: finite_subset_distinct [OF assms(1)])

section \<open>Absorption\<close>

text \<open>\<open>Plus W a b = a\<close>: nothing is gained by adding \<open>b\<close>. It is an order on the weights.\<close>

lemma absorbs_trans: "M a \<Longrightarrow> M b \<Longrightarrow> M c \<Longrightarrow> Plus W a b = a \<Longrightarrow> Plus W b c = b \<Longrightarrow> Plus W a c = a"
  using Plus_assoc [of a b c] by metis

lemma absorbs_antisym: "M a \<Longrightarrow> M b \<Longrightarrow> Plus W a b = a \<Longrightarrow> Plus W b a = b \<Longrightarrow> a = b"
  using Plus_comm [of a b] by simp

lemma absorbs_Plus: "M a \<Longrightarrow> M b \<Longrightarrow> Plus W (Plus W a b) a = Plus W a b \<and> Plus W (Plus W a b) b = Plus W a b"
  using Plus_assoc [of a b b] Plus_assoc [of b a a] Plus_comm [of a b] by (simp add: Plus_idem)

lemma absorbs_sum: "M a \<Longrightarrow> M b \<Longrightarrow> M c \<Longrightarrow> Plus W a b = a \<Longrightarrow> Plus W a c = a \<Longrightarrow> Plus W a (Plus W b c) = a"
  using Plus_assoc [of a b c] by simp

lemma absorbs_Times: "M a \<Longrightarrow> M b \<Longrightarrow> M x \<Longrightarrow> Plus W a b = a \<Longrightarrow> Plus W (Times W a x) (Times W b x) = Times W a x"
  using Times_Plus_right [of a b x] by simp

lemma absorbs_larger:
  assumes "M a" "M b" "M c" "Plus W a c = a"
  shows "Plus W (Plus W a b) c = Plus W a b"
  using absorbs_trans [of "Plus W a b" a c] absorbs_Plus [of a b] assms by (simp add: M_Plus)

text \<open>The values above a value. They get fewer when the value grows, which is why the algorithm ends.\<close>

definition larger :: "'w set \<Rightarrow> 'w \<Rightarrow> 'w set" where
  "larger F d = {x \<in> F. Plus W x d = x \<and> x \<noteq> d}"

lemma larger_less:
  assumes F: "finite F" "F \<subseteq> Collect M" and d: "M d" "M w" "Plus W d w \<in> F" "Plus W d w \<noteq> d"
  shows "card (larger F (Plus W d w)) < card (larger F d)"
proof (rule psubset_card_mono)
  show "finite (larger F d)" using F(1) by (simp add: larger_def)
  have "x \<in> larger F d" if "x \<in> larger F (Plus W d w)" for x
  proof -
    have x: "x \<in> F" "M x" "Plus W x (Plus W d w) = x" "x \<noteq> Plus W d w" using that F by (auto simp: larger_def)
    have "Plus W x d = x"
      using absorbs_trans [of x "Plus W d w" d] x d absorbs_Plus [of d w] by (simp add: M_Plus)
    moreover have "x \<noteq> d" using x d(1,2,4) Plus_assoc [of d d w] by (auto simp: Plus_idem)
    ultimately show ?thesis using x(1) by (simp add: larger_def)
  qed
  moreover have "Plus W d w \<in> larger F d" "Plus W d w \<notin> larger F (Plus W d w)"
    using d absorbs_Plus [of d w] by (auto simp: larger_def)
  ultimately show "larger F (Plus W d w) \<subset> larger F d" by blast
qed

section \<open>Paths\<close>

lemma path_weights_M: "(\<And>s a. (s, a) \<in> T \<Longrightarrow> M (weight a)) \<Longrightarrow> path_weights W T s t \<subseteq> Collect M"
proof
  fix x assume T: "\<And>s a. (s, a) \<in> T \<Longrightarrow> M (weight a)" and "x \<in> path_weights W T s t"
  then obtain as where as: "tpath T s as t" "x = path_weight W as" by (auto simp: path_weights_def)
  then have "arcs_in M as" using T by (induction as arbitrary: s x) auto
  then show "x \<in> Collect M" using as M_path_weight by simp
qed

lemma path_weights_step:
  assumes T: "\<And>s a. (s, a) \<in> T \<Longrightarrow> M (weight a)" and x: "x \<in> path_weights W T s u" and a: "(u, a) \<in> T"
  shows "Times W x (weight a) \<in> path_weights W T s (nextstate a)"
proof -
  obtain as where as: "tpath T s as u" "x = path_weight W as" using x by (auto simp: path_weights_def)
  have "arcs_in M as" using as(1) T by (induction as arbitrary: s) auto
  then have "Times W x (weight a) = path_weight W (as @ [a])"
    using T [OF a] by (simp add: path_weight_append as(2) Times_One)
  then show ?thesis using as(1) a by (auto simp: path_weights_def tpath_append intro!: exI [of _ "as @ [a]"])
qed

lemma sums_step:
  assumes T: "\<And>s a. (s, a) \<in> T \<Longrightarrow> M (weight a)" and x: "x \<in> sums W (path_weights W T s u)" and a: "(u, a) \<in> T"
  shows "Times W x (weight a) \<in> sums W (path_weights W T s (nextstate a))"
proof (rule sums_Times)
  show "path_weights W T s u \<subseteq> Collect M" using T by (rule path_weights_M)
  show "Times W z (weight a) \<in> path_weights W T s (nextstate a)" if "z \<in> path_weights W T s u" for z
    using T that a by (rule path_weights_step)
qed (use x T [OF a] in simp_all)

text \<open>Distances that every transition respects bound the weight of every path.\<close>

lemma closed_absorbs:
  assumes T: "\<And>s a. (s, a) \<in> T \<Longrightarrow> M (weight a)" and D: "\<And>s. M (D s)" and src: "Plus W (D src) (One W) = D src"
    and step: "\<And>s a. (s, a) \<in> T \<Longrightarrow> Plus W (D (nextstate a)) (Times W (D s) (weight a)) = D (nextstate a)"
    and as: "tpath T src as t"
  shows "Plus W (D t) (path_weight W as) = D t"
  using as
proof (induction as arbitrary: t rule: rev_induct)
  case Nil
  then show ?case using src by simp
next
  case (snoc a as)
  obtain u where u: "tpath T src as u" "(u, a) \<in> T" "t = nextstate a" using snoc.prems by (auto simp: tpath_append)
  have as: "arcs_in M as" using u(1) T by (induction as arbitrary: src) auto
  have "Plus W (D t) (Times W (path_weight W as) (weight a)) = D t"
    using absorbs_trans [OF D _ _ step [OF u(2)] absorbs_Times [OF D _ T [OF u(2)] snoc.IH [OF u(1)]]]
      D as T [OF u(2)] u(3) by (simp add: M_Times M_path_weight)
  then show ?case using as T [OF u(2)] by (simp add: path_weight_append Times_One)
qed

end

interpretation st_iu: distance_weight "SetWeight SET_INTERSECT_UNION" st_ok ..

interpretation st_ui: distance_weight "SetWeight SET_UNION_INTERSECT" st_ok ..

interpretation st_bool: distance_weight "SetWeight SET_BOOLEAN" st_bool ..

end
