(* ===== verification/DistanceView.thy ===== *)
theory DistanceView
  imports DistanceLaws
begin

text \<open>
  The state of the shortest-distance algorithm seen as functions of the state number: the distance, the relaxation
  distance, and the set of waiting states. The view hides the size of the vectors and what earlier calls left in them
  when information is retained. The lemmas say what each part of the algorithm does to the view.
\<close>

section \<open>The state seen as functions\<close>

definition current :: "bool \<Rightarrow> ('w, 'q) sd_state \<Rightarrow> nat \<Rightarrow> bool" where
  "current retain st s \<longleftrightarrow> s < length (sd_distance st) \<and>
     (retain \<longrightarrow> s < length (sd_sources st) \<and> sd_sources st ! s = Some (sd_source_id st))"

definition dist :: "('w, 'z) weight_ops_scheme \<Rightarrow> bool \<Rightarrow> ('w, 'q) sd_state \<Rightarrow> nat \<Rightarrow> 'w" where
  "dist W retain st s = (if current retain st s then sd_distance st ! s else Zero W)"

definition rdist :: "('w, 'z) weight_ops_scheme \<Rightarrow> bool \<Rightarrow> ('w, 'q) sd_state \<Rightarrow> nat \<Rightarrow> 'w" where
  "rdist W retain st s = (if current retain st s then adder_sum (sd_radder st ! s) else Zero W)"

definition waiting :: "bool \<Rightarrow> ('w, 'q) sd_state \<Rightarrow> nat set" where
  "waiting retain st = {s. current retain st s \<and> sd_enqueued st ! s}"

definition sizes :: "('w, 'q) sd_state \<Rightarrow> bool" where
  "sizes st \<longleftrightarrow> length (sd_adder st) = length (sd_distance st) \<and> length (sd_radder st) = length (sd_distance st) \<and>
     length (sd_enqueued st) = length (sd_distance st) \<and> map adder_sum (sd_adder st) = sd_distance st \<and>
     (\<forall>k. Some k \<in> set (sd_sources st) \<longrightarrow> k \<le> sd_source_id st)"

text \<open>Two states that nothing but the space for the vectors tells apart.\<close>

definition same_view :: "('w, 'z) weight_ops_scheme \<Rightarrow> bool \<Rightarrow> ('w, 'q) sd_state \<Rightarrow> ('w, 'q) sd_state \<Rightarrow> bool" where
  "same_view W retain st st' \<longleftrightarrow> dist W retain st' = dist W retain st \<and> rdist W retain st' = rdist W retain st \<and>
     waiting retain st' = waiting retain st \<and> sd_queue st' = sd_queue st \<and> sd_source_id st' = sd_source_id st \<and> sd_error st' = sd_error st"

lemma pad_nth: "i < length xs + n \<Longrightarrow> (xs @ replicate n v) ! i = (if i < length xs then xs ! i else v)"
  by (simp add: nth_append)

lemma current_Ensure_sources [simp]: "current retain (EnsureSourcesIndexIsValid t st) s \<longleftrightarrow> current retain st s"
  by (auto simp: current_def EnsureSourcesIndexIsValid_def pad_nth split: if_splits)

lemma Ensure_view:
  assumes "sizes st"
  shows "sizes (EnsureDistanceIndexIsValid W t st)" "same_view W retain st (EnsureDistanceIndexIsValid W t st)"
    "length (sd_distance (EnsureDistanceIndexIsValid W t st)) = max (length (sd_distance st)) (t + 1)"
    "sd_sources (EnsureDistanceIndexIsValid W t st) = sd_sources st"
  using assms
  by (auto simp: sizes_def same_view_def EnsureDistanceIndexIsValid_def dist_def rdist_def waiting_def current_def
      pad_nth Adder_init_def fun_eq_iff Let_def split: if_splits)

lemma Ensure_sources_view:
  assumes "sizes st"
  shows "sizes (EnsureSourcesIndexIsValid t st)" "same_view W retain st (EnsureSourcesIndexIsValid t st)"
    "sd_distance (EnsureSourcesIndexIsValid t st) = sd_distance st" "t < length (sd_sources (EnsureSourcesIndexIsValid t st))"
proof -
  show "same_view W retain st (EnsureSourcesIndexIsValid t st)"
    by (simp add: same_view_def dist_def rdist_def waiting_def fun_eq_iff) (simp add: EnsureSourcesIndexIsValid_def)
qed (use assms in \<open>auto simp: sizes_def EnsureSourcesIndexIsValid_def\<close>)

lemma same_view_trans: "same_view W retain st st' \<Longrightarrow> same_view W retain st' st'' \<Longrightarrow> same_view W retain st st''"
  by (simp add: same_view_def)

lemma refresh_view:
  assumes "sizes st"
  shows "sizes (refresh W retain t st)" "same_view W retain st (refresh W retain t st)" "current retain (refresh W retain t st) t"
    "length (sd_distance (refresh W retain t st)) = max (length (sd_distance st)) (t + 1)"
proof -
  define u where "u = EnsureDistanceIndexIsValid W t st"
  define v where "v = EnsureSourcesIndexIsValid t u"
  note u = Ensure_view [OF assms, where W = W and t = t, folded u_def]
  note v = Ensure_sources_view [OF u(1), where t = t, folded v_def]
  have len: "length (sd_distance v) = max (length (sd_distance st)) (t + 1)" using u(3) v(3) by simp
  let ?w = "v\<lparr>sd_distance := (sd_distance v)[t := Zero W],
               sd_adder := (sd_adder v)[t := Adder_Reset (sd_adder v ! t) (Zero W)],
               sd_radder := (sd_radder v)[t := Adder_Reset (sd_radder v ! t) (Zero W)],
               sd_enqueued := (sd_enqueued v)[t := False],
               sd_sources := (sd_sources v)[t := Some (sd_source_id v)]\<rparr>"
  have r: "refresh W retain t st = (if retain then if sd_sources v ! t \<noteq> Some (sd_source_id v) then ?w else v else u)"
    by (simp add: refresh_def u_def v_def Let_def)
  have "sizes ?w" using v(1) set_update_subset_insert [of "sd_sources v" t] by (fastforce simp: sizes_def Adder_Reset_def map_update)
  note w = this
  have "same_view W True v ?w" if "sd_sources v ! t \<noteq> Some (sd_source_id v)"
    using v(1,4) len that
    by (auto simp: same_view_def sizes_def dist_def rdist_def waiting_def current_def fun_eq_iff nth_list_update Adder_Reset_def)
  moreover have "same_view W retain st u" and "same_view W retain u v" by (rule u(2), rule v(2))
  moreover from this have "same_view W retain st v" by (rule same_view_trans)
  ultimately show "same_view W retain st (refresh W retain t st)"
    unfolding r by (cases retain) (auto intro: same_view_trans [of W True st v])
  show "sizes (refresh W retain t st)" using r w u(1) v(1) by simp
  show "current retain (refresh W retain t st) t" using r v(4) len u(3) by (auto simp: current_def)
  show "length (sd_distance (refresh W retain t st)) = max (length (sd_distance st)) (t + 1)" using r len u(3) by simp
qed

text \<open>A relaxation that changes the distance of \<open>t\<close>.\<close>

definition relaxed ::
  "('w, 'z) weight_ops_scheme \<Rightarrow> ('q, 'w) queue_ops \<Rightarrow> bool \<Rightarrow> nat \<Rightarrow> 'w \<Rightarrow> ('w, 'q) sd_state \<Rightarrow> ('w, 'q) sd_state \<Rightarrow> bool" where
  "relaxed W Q retain t w st st' \<longleftrightarrow>
     dist W retain st' = (dist W retain st)(t := Plus W (dist W retain st t) w) \<and>
     rdist W retain st' = (rdist W retain st)(t := Plus W (rdist W retain st t) w) \<and>
     waiting retain st' = insert t (waiting retain st) \<and>
     (\<exists>d. sd_queue st' = (if t \<in> waiting retain st then q_Update Q d t (sd_queue st) else q_Enqueue Q d t (sd_queue st))) \<and>
     sd_source_id st' = sd_source_id st \<and> sd_error st' = sd_error st"

lemma relax_view:
  assumes sz: "sizes st" and cur: "current retain st t"
    and st': "st' = st\<lparr>sd_distance := (sd_distance st)[t := Plus W (dist W retain st t) w],
      sd_adder := (sd_adder st)[t := (sd_adder st ! t)\<lparr>adder_sum := Plus W (dist W retain st t) w\<rparr>],
      sd_radder := (sd_radder st)[t := (sd_radder st ! t)\<lparr>adder_sum := Plus W (rdist W retain st t) w\<rparr>],
      sd_queue := (if t \<in> waiting retain st then q_Update Q d t (sd_queue st) else q_Enqueue Q d t (sd_queue st)),
      sd_enqueued := (if t \<in> waiting retain st then sd_enqueued st else (sd_enqueued st)[t := True])\<rparr>"
  shows "sizes st' \<and> relaxed W Q retain t w st st' \<and> length (sd_distance st') = length (sd_distance st)"
proof -
  have t: "t < length (sd_distance st)" using cur by (simp add: current_def)
  have c: "current retain st' s \<longleftrightarrow> current retain st s" for s by (simp add: st' current_def)
  have "sizes st'" using sz by (auto simp: sizes_def st' map_update)
  moreover have "dist W retain st' = (dist W retain st)(t := Plus W (dist W retain st t) w)"
    using t cur by (auto simp: fun_eq_iff dist_def [of W retain st'] c) (auto simp: st' dist_def)
  moreover have "rdist W retain st' = (rdist W retain st)(t := Plus W (rdist W retain st t) w)"
    using t cur sz by (auto simp: fun_eq_iff rdist_def [of W retain st'] c sizes_def) (auto simp: st' rdist_def)
  moreover have "waiting retain st' = insert t (waiting retain st)"
    using t cur sz by (auto simp: waiting_def c sizes_def) (auto simp: st' waiting_def nth_list_update split: if_splits)
  ultimately show ?thesis by (auto simp: relaxed_def st')
qed

lemma current_view:
  assumes sz: "sizes st" and cur: "current retain st t"
  shows "t < length (sd_distance st)" "sd_distance st ! t = dist W retain st t" "adder_sum (sd_radder st ! t) = rdist W retain st t"
    "sd_enqueued st ! t \<longleftrightarrow> t \<in> waiting retain st" "adder_sum (sd_adder st ! t) = dist W retain st t"
proof -
  show t: "t < length (sd_distance st)" using cur by (simp add: current_def)
  have "map adder_sum (sd_adder st) ! t = sd_distance st ! t" "t < length (sd_adder st)" using sz t by (simp_all add: sizes_def)
  then show "adder_sum (sd_adder st ! t) = dist W retain st t" using cur by (simp add: dist_def)
qed (use cur in \<open>simp_all add: dist_def rdist_def waiting_def\<close>)

lemma relax_arc_view:
  assumes sz: "sizes st" and mem: "Member W (Plus W (dist W retain st t) w)" "Member W (Plus W (rdist W retain st t) w)"
    and t: "t = nextstate arc" and w: "w = Times W r (weight arc)"
  shows "\<exists>st'. relax_arc W Q opts retain r arc st = Inr st' \<and> sizes st' \<and>
    length (sd_distance st') = max (length (sd_distance st)) (t + 1) \<and>
    (if o_weight_equal opts (dist W retain st t) (Plus W (dist W retain st t) w) then same_view W retain st st'
     else relaxed W Q retain t w st st')"
proof -
  define u where "u = refresh W retain t st"
  note u = refresh_view [OF sz, where W = W and retain = retain and t = t, folded u_def]
  have D: "dist W retain u = dist W retain st" "rdist W retain u = rdist W retain st" "waiting retain u = waiting retain st"
    "sd_queue u = sd_queue st" "sd_source_id u = sd_source_id st" "sd_error u = sd_error st"
    using u(2) by (auto simp: same_view_def)
  have cur: "t < length (sd_distance u)" "sd_distance u ! t = dist W retain st t" "adder_sum (sd_radder u ! t) = rdist W retain st t"
    "sd_enqueued u ! t \<longleftrightarrow> t \<in> waiting retain st" "adder_sum (sd_adder u ! t) = dist W retain st t"
    unfolding D(1-3) [symmetric] by (rule current_view [OF u(1,3)])+
  show ?thesis
  proof (cases "o_weight_equal opts (dist W retain st t) (Plus W (dist W retain st t) w)")
    case True
    then have "relax_arc W Q opts retain r arc st = Inr u" using cur by (simp add: relax_arc_def u_def t w Let_def)
    then show ?thesis using True u by auto
  next
    case False
    define d where "d = (sd_distance u)[t := Plus W (dist W retain st t) w]"
    define v where "v = u\<lparr>sd_distance := d,
      sd_adder := (sd_adder u)[t := (sd_adder u ! t)\<lparr>adder_sum := Plus W (dist W retain st t) w\<rparr>],
      sd_radder := (sd_radder u)[t := (sd_radder u ! t)\<lparr>adder_sum := Plus W (rdist W retain st t) w\<rparr>],
      sd_queue := (if t \<in> waiting retain u then q_Update Q d t (sd_queue u) else q_Enqueue Q d t (sd_queue u)),
      sd_enqueued := (if t \<in> waiting retain u then sd_enqueued u else (sd_enqueued u)[t := True])\<rparr>"
    have "relax_arc W Q opts retain r arc st = Inr v"
      using False cur mem
      by (simp add: relax_arc_def u_def [symmetric] t [symmetric] w [symmetric] Let_def Adder_Add_def Adder_Sum_def d_def v_def D(3))
    moreover have "sizes v \<and> relaxed W Q retain t w u v \<and> length (sd_distance v) = length (sd_distance u)"
      using u(1,3) by (rule relax_view) (simp add: v_def d_def D)
    ultimately show ?thesis using False D u(4) by (auto simp: relaxed_def)
  qed
qed

lemma take_radder_view:
  assumes sz: "sizes st" and cur: "current retain st s"
  shows "fst (take_radder W s st) = rdist W retain st s" "sizes (snd (take_radder W s st))"
    "dist W retain (snd (take_radder W s st)) = dist W retain st"
    "rdist W retain (snd (take_radder W s st)) = (rdist W retain st)(s := Zero W)"
    "waiting retain (snd (take_radder W s st)) = waiting retain st - {s}"
proof -
  have c: "current retain (snd (take_radder W s st)) t \<longleftrightarrow> current retain st t" for t
    by (simp add: current_def take_radder_def)
  show "fst (take_radder W s st) = rdist W retain st s" using cur by (simp add: take_radder_def rdist_def Adder_Sum_def)
  show "sizes (snd (take_radder W s st))" using sz by (simp add: sizes_def take_radder_def)
  show "dist W retain (snd (take_radder W s st)) = dist W retain st"
    by (simp add: fun_eq_iff dist_def c) (simp add: take_radder_def)
  show "rdist W retain (snd (take_radder W s st)) = (rdist W retain st)(s := Zero W)"
    using sz current_view(1) [OF sz cur]
    by (auto simp: fun_eq_iff rdist_def c) (auto simp: take_radder_def sizes_def Adder_Reset_def)
  show "waiting retain (snd (take_radder W s st)) = waiting retain st - {s}"
    using sz current_view(1) [OF sz cur]
    by (auto simp: waiting_def c) (auto simp: take_radder_def sizes_def nth_list_update split: if_splits)
qed

lemma take_radder_frame [simp]:
  "sd_queue (snd (take_radder W s st)) = sd_queue st" "sd_distance (snd (take_radder W s st)) = sd_distance st"
  "sd_source_id (snd (take_radder W s st)) = sd_source_id st" "sd_error (snd (take_radder W s st)) = sd_error st"
  by (simp_all add: take_radder_def)

lemma Ensure_current: "sizes st \<Longrightarrow> s < length (sd_distance st) \<Longrightarrow> EnsureDistanceIndexIsValid W s st = st"
  by (simp add: EnsureDistanceIndexIsValid_def)

text \<open>The state at the head of the queue has valid entries, so dequeuing it changes nothing else.\<close>

lemma sd_dequeue_current:
  assumes "sizes st" "current retain st (q_Head Q (sd_queue st))"
  shows "sd_dequeue W Q st = (q_Head Q (sd_queue st), st\<lparr>sd_queue := q_Dequeue Q (sd_distance st) (sd_queue st)\<rparr>)"
  using assms by (simp add: sd_dequeue_def current_def EnsureDistanceIndexIsValid_def)

lemma view_queue [simp]:
  "sizes (st\<lparr>sd_queue := q\<rparr>) = sizes st" "current retain (st\<lparr>sd_queue := q\<rparr>) = current retain st"
  "dist W retain (st\<lparr>sd_queue := q\<rparr>) = dist W retain st" "rdist W retain (st\<lparr>sd_queue := q\<rparr>) = rdist W retain st"
  "waiting retain (st\<lparr>sd_queue := q\<rparr>) = waiting retain st"
  by (auto simp: sizes_def current_def dist_def rdist_def waiting_def fun_eq_iff)

definition fresh :: "('w, 'q) sd_state \<Rightarrow> bool" where
  "fresh st \<longleftrightarrow> (\<forall>k. Some k \<in> set (sd_sources st) \<longrightarrow> k < sd_source_id st)"

text \<open>The states of \<open>sd_begin\<close>: the vectors before the source is entered, and after its source id is.\<close>

lemma begin_mark:
  assumes sz: "sizes st" and fr: "fresh st"
    and u: "u = EnsureDistanceIndexIsValid W src (if \<not> retain then st\<lparr>sd_distance := [], sd_adder := [], sd_radder := [], sd_enqueued := []\<rparr> else st)"
    and v: "v = (if retain then (EnsureSourcesIndexIsValid src u)\<lparr>sd_sources :=
                   (sd_sources (EnsureSourcesIndexIsValid src u))[src := Some (sd_source_id u)]\<rparr> else u)"
  shows "sizes v" "current retain v src" "s \<noteq> src \<Longrightarrow> dist W retain v s = Zero W \<and> rdist W retain v s = Zero W \<and> s \<notin> waiting retain v"
proof -
  define st1 where "st1 = (if \<not> retain then st\<lparr>sd_distance := [], sd_adder := [], sd_radder := [], sd_enqueued := []\<rparr> else st)"
  have sz1: "sizes st1" using sz by (auto simp: st1_def sizes_def)
  have none: "\<not> current retain st1 s" for s
    using fr by (auto simp: st1_def current_def fresh_def in_set_conv_nth)
  note U = Ensure_view [OF sz1, where W = W and t = src, folded u [folded st1_def]]
  define v' where "v' = EnsureSourcesIndexIsValid src u"
  note V = Ensure_sources_view [OF U(1), where t = src, folded v'_def]
  have v: "v = (if retain then v'\<lparr>sd_sources := (sd_sources v')[src := Some (sd_source_id v')]\<rparr> else u)"
    by (simp add: v v'_def EnsureSourcesIndexIsValid_def)
  show "sizes v" using U(1) V(1) set_update_subset_insert [of "sd_sources v'" src] by (fastforce simp: v sizes_def)
  show "current retain v src" using U(3) V(3,4) by (simp add: v current_def)
  have "dist W retain u s = Zero W" "rdist W retain u s = Zero W" "s \<notin> waiting retain u"
    using U(2) [of retain] none [of s] by (simp_all add: same_view_def dist_def rdist_def waiting_def)
  moreover have "current retain v s \<longleftrightarrow> current retain u s" if "s \<noteq> src"
    using that current_Ensure_sources [of retain src u s] by (auto simp: v v'_def current_def)
  ultimately show "s \<noteq> src \<Longrightarrow> dist W retain v s = Zero W \<and> rdist W retain v s = Zero W \<and> s \<notin> waiting retain v"
    using V(3) by (auto simp: dist_def rdist_def waiting_def v v'_def EnsureSourcesIndexIsValid_def)
qed

lemma sd_begin_view:
  assumes sz: "sizes st" and fr: "fresh st"
  shows "sizes (sd_begin W Q retain src st)"
    "dist W retain (sd_begin W Q retain src st) = (\<lambda>_. Zero W)(src := One W)"
    "rdist W retain (sd_begin W Q retain src st) = (\<lambda>_. Zero W)(src := One W)"
    "waiting retain (sd_begin W Q retain src st) = {src}"
    "\<exists>d. sd_queue (sd_begin W Q retain src st) = q_Enqueue Q d src (q_Clear Q (sd_queue st))"
    "sd_source_id (sd_begin W Q retain src st) = sd_source_id st" "sd_error (sd_begin W Q retain src st) = sd_error st"
    "length (sd_distance (sd_begin W Q retain src st)) = (if retain then max (length (sd_distance st)) (src + 1) else src + 1)"
proof -
  define st0 where "st0 = st\<lparr>sd_queue := q_Clear Q (sd_queue st)\<rparr>"
  define u where "u = EnsureDistanceIndexIsValid W src
    (if \<not> retain then st0\<lparr>sd_distance := [], sd_adder := [], sd_radder := [], sd_enqueued := []\<rparr> else st0)"
  define v where "v = (if retain then (EnsureSourcesIndexIsValid src u)\<lparr>sd_sources :=
    (sd_sources (EnsureSourcesIndexIsValid src u))[src := Some (sd_source_id u)]\<rparr> else u)"
  define x where "x = v\<lparr>sd_distance := (sd_distance v)[src := One W],
    sd_adder := (sd_adder v)[src := Adder_Reset (sd_adder v ! src) (One W)],
    sd_radder := (sd_radder v)[src := Adder_Reset (sd_radder v ! src) (One W)],
    sd_enqueued := (sd_enqueued v)[src := True]\<rparr>"
  have "sizes st0" "fresh st0" using sz fr by (simp_all add: st0_def) (simp add: fresh_def)
  note V = begin_mark [OF this u_def v_def]
  have b: "sd_begin W Q retain src st = x\<lparr>sd_queue := q_Enqueue Q (sd_distance x) src (sd_queue x)\<rparr>"
    unfolding sd_begin_def Let_def x_def v_def u_def st0_def by (simp add: EnsureSourcesIndexIsValid_def)
  have len: "src < length (sd_distance v)" "length (sd_radder v) = length (sd_distance v)" "length (sd_enqueued v) = length (sd_distance v)"
    using V(1,2) by (simp_all add: current_def sizes_def)
  have cur: "current retain x s \<longleftrightarrow> current retain v s" for s by (simp add: x_def current_def)
  have sel: "sd_distance x = (sd_distance v)[src := One W]" "sd_enqueued x = (sd_enqueued v)[src := True]"
    "sd_radder x = (sd_radder v)[src := Adder_Reset (sd_radder v ! src) (One W)]" by (simp_all add: x_def)
  have "sizes x" using V(1) by (auto simp: x_def sizes_def map_update Adder_Reset_def)
  then show "sizes (sd_begin W Q retain src st)" by (simp add: b)
  have "dist W retain x s = ((\<lambda>_. Zero W)(src := One W)) s" for s
    using V(2) V(3) [of s] len by (cases "s = src") (auto simp: dist_def cur sel)
  then show "dist W retain (sd_begin W Q retain src st) = (\<lambda>_. Zero W)(src := One W)" by (simp add: b fun_eq_iff)
  have "rdist W retain x s = ((\<lambda>_. Zero W)(src := One W)) s" for s
    using V(2) V(3) [of s] len by (cases "s = src") (auto simp: rdist_def cur sel Adder_Reset_def)
  then show "rdist W retain (sd_begin W Q retain src st) = (\<lambda>_. Zero W)(src := One W)" by (simp add: b fun_eq_iff)
  have "s \<in> waiting retain x \<longleftrightarrow> s = src" for s
    using V(2) V(3) [of s] len by (cases "s = src") (auto simp: waiting_def cur sel)
  then show "waiting retain (sd_begin W Q retain src st) = {src}" by (auto simp: b)
qed (auto simp: sd_begin_def EnsureDistanceIndexIsValid_def EnsureSourcesIndexIsValid_def Let_def)

end
