(* ===== verification/ShortestDistanceLaws.thy ===== *)
theory ShortestDistanceLaws
  imports DistanceView
begin

text \<open>
  Correctness of the shortest-distance algorithm for idempotent weights that are compared exactly. The locale
  \<open>distance_algorithm\<close> joins the laws of the weights and the contract of the queue. In it, the loop ends when there
  are finitely many weights of paths to each state, and then the distances are the sums of the path weights.
\<close>

section \<open>The invariant\<close>

text \<open>
  Of the distance of a state, the part \<open>P s\<close> has been propagated along its arcs, and the part \<open>R s\<close> has not. While the
  arcs \<open>pend\<close> of a state \<open>s0\<close> are still to be relaxed, its \<open>P\<close> is the sum of what was propagated before, \<open>p\<close>, and
  what is being propagated, \<open>r\<close>.
\<close>

definition kept_arcs :: "('w arc \<Rightarrow> bool) \<Rightarrow> 'w vfst \<Rightarrow> (nat \<times> 'w arc) set" where
  "kept_arcs keep f = {(s, a) \<in> trans f. keep a}"

text \<open>The distance of \<open>s\<close> that the call with the source id \<open>k\<close> computed.\<close>

definition distance_of :: "('w, 'z) weight_ops_scheme \<Rightarrow> bool \<Rightarrow> nat \<Rightarrow> ('w, 'q) sd_state \<Rightarrow> nat \<Rightarrow> 'w" where
  "distance_of W retain k st s =
     (if s < length (sd_distance st) \<and> (retain \<longrightarrow> s < length (sd_sources st) \<and> sd_sources st ! s = Some k)
      then sd_distance st ! s else Zero W)"

text \<open>A state in which the member function can be called.\<close>

definition ready :: "nat \<Rightarrow> ('q \<Rightarrow> bool) \<Rightarrow> ('w, 'q) sd_state \<Rightarrow> bool" where
  "ready n ok st \<longleftrightarrow> sizes st \<and> fresh st \<and> length (sd_distance st) \<le> n \<and> ok (sd_queue st)"

lemma ready_init: "ok q \<Longrightarrow> ready n ok (ShortestDistanceState q)"
  by (simp add: ready_def ShortestDistanceState_def sizes_def fresh_def)

locale distance_algorithm = distance_weight W M + state_queue Q valid ok queued
  for W :: "('w, 'z) weight_ops_scheme" and M :: "'w \<Rightarrow> bool" and Q :: "('q, 'w) queue_ops"
    and valid :: "nat \<Rightarrow> bool" and ok :: "'q \<Rightarrow> bool" and queued :: "'q \<Rightarrow> nat set" +
  fixes opts :: "'w sd_options"
  assumes exact: "M a \<Longrightarrow> M b \<Longrightarrow> o_weight_equal opts a b \<longleftrightarrow> a = b"
    and all_paths: "\<not> o_first_path opts"
begin

definition reach :: "(nat \<times> 'w arc) set \<Rightarrow> nat \<Rightarrow> nat \<Rightarrow> 'w set" where
  "reach T src s = sums W (path_weights W T src s)"

definition base_inv :: "(nat \<times> 'w arc) set \<Rightarrow> nat \<Rightarrow> (nat \<Rightarrow> 'w) \<Rightarrow> (nat \<Rightarrow> 'w) \<Rightarrow> nat set \<Rightarrow> (nat \<Rightarrow> 'w) \<Rightarrow> bool" where
  "base_inv T src D R E P \<longleftrightarrow>
     (\<forall>(s, a) \<in> T. M (weight a)) \<and>
     (\<forall>s. D s \<in> reach T src s \<and> R s \<in> reach T src s \<and> M (P s) \<and> Plus W (P s) (R s) = D s \<and> (s \<notin> E \<longrightarrow> R s = Zero W)) \<and>
     Plus W (D src) (One W) = D src"

definition arc_inv :: "(nat \<times> 'w arc) set \<Rightarrow> (nat \<Rightarrow> 'w) \<Rightarrow> (nat \<Rightarrow> 'w) \<Rightarrow> nat \<Rightarrow> 'w arc list \<Rightarrow> 'w \<Rightarrow> bool" where
  "arc_inv T D P s0 pend p \<longleftrightarrow>
     (\<forall>(s, a) \<in> T. Plus W (D (nextstate a)) (Times W (if s = s0 \<and> a \<in> set pend then p else P s) (weight a)) = D (nextstate a))"

lemma reach_M: "(\<And>s a. (s, a) \<in> T \<Longrightarrow> M (weight a)) \<Longrightarrow> x \<in> reach T src s \<Longrightarrow> M x"
  unfolding reach_def by (rule M_sums [OF path_weights_M])

lemma base_inv_sel:
  assumes "base_inv T src D R E P"
  shows "M (D s)" "M (R s)" "M (P s)" "Plus W (P s) (R s) = D s" "(s, a) \<in> T \<Longrightarrow> M (weight a)"
    "D s \<in> reach T src s" "R s \<in> reach T src s" "s \<notin> E \<Longrightarrow> R s = Zero W" "Plus W (D src) (One W) = D src"
proof -
  have T: "(s, a) \<in> T \<Longrightarrow> M (weight a)" for s a using assms by (auto simp: base_inv_def)
  have R: "D s \<in> reach T src s" "R s \<in> reach T src s" for s using assms by (simp_all add: base_inv_def)
  show "M (D s)" using T R(1) by (rule reach_M)
  show "M (R s)" using T R(2) by (rule reach_M)
  show "(s, a) \<in> T \<Longrightarrow> M (weight a)" by (rule T)
qed (use assms in \<open>simp_all add: base_inv_def\<close>)

lemma base_inv_grow:
  assumes inv: "base_inv T src D R E P" and w: "w \<in> reach T src t"
  shows "base_inv T src (D(t := Plus W (D t) w)) (R(t := Plus W (R t) w)) (insert t E) P"
proof -
  note I = base_inv_sel [OF inv]
  have M: "M w" using I(5) w by (rule reach_M)
  have P: "path_weights W T src t \<subseteq> Collect M" using I(5) by (rule path_weights_M)
  have "Plus W (D t) w \<in> reach T src t" "Plus W (R t) w \<in> reach T src t"
    using sums_Plus [OF P] I(6,7) [of t] w by (auto simp: reach_def)
  moreover have "Plus W (D t) w = Plus W (P t) (Plus W (R t) w)"
    using I(4) [of t] Plus_assoc [OF I(3) I(2) M, of t t] by simp
  moreover have "Plus W (Plus W (D t) w) (One W) = Plus W (D t) w" if "t = src"
    using absorbs_larger [OF I(1) M M_One, of src] I(9) that by simp
  ultimately show ?thesis using inv by (auto simp: base_inv_def)
qed

lemma arc_inv_grow:
  assumes inv: "base_inv T src D R E P" and arc: "arc_inv T D P s0 pend p" and p: "M p" and w: "M w"
  shows "arc_inv T (D(t := Plus W (D t) w)) P s0 pend p"
proof -
  note I = base_inv_sel [OF inv]
  have "Plus W (Plus W (D t) w) x = Plus W (D t) w" if "Plus W (D t) x = D t" "M x" for x
    using absorbs_larger [OF I(1) w that(2) that(1)] .
  moreover have "M (Times W (if s = s0 \<and> a \<in> set pend then p else P s) (weight a))" if "(s, a) \<in> T" for s a
    using M_Times [OF p I(5) [OF that]] M_Times [OF I(3) I(5) [OF that]] by simp
  ultimately show ?thesis using arc by (fastforce simp: arc_inv_def)
qed

lemma arc_inv_done:
  assumes inv: "base_inv T src D R E P" and arc: "arc_inv T D P s0 (a # pend) p" and p: "M p" "M r" "P s0 = Plus W p r"
    and a: "(s0, a) \<in> T \<Longrightarrow> Plus W (D (nextstate a)) (Times W r (weight a)) = D (nextstate a)"
  shows "arc_inv T D P s0 pend p"
  unfolding arc_inv_def
proof (intro ballI, clarify)
  fix s b assume b: "(s, b) \<in> T"
  note I = base_inv_sel [OF inv]
  have old: "Plus W (D (nextstate b)) (Times W (if s = s0 \<and> b \<in> set (a # pend) then p else P s) (weight b)) = D (nextstate b)"
    using arc b unfolding arc_inv_def by blast
  have "Plus W (D (nextstate a)) (Times W (P s0) (weight a)) = D (nextstate a)" if "s = s0" "b = a"
    using absorbs_sum [OF I(1), of "Times W p (weight a)" "Times W r (weight a)" "nextstate a"] old a b that p I(5) [OF b]
    by (simp add: M_Times Times_Plus_right)
  then show "Plus W (D (nextstate b)) (Times W (if s = s0 \<and> b \<in> set pend then p else P s) (weight b)) = D (nextstate b)"
    using old by (auto split: if_splits)
qed

lemma inv_take:
  assumes inv: "base_inv T src D R E P" and arc: "arc_inv T D P s0 [] p" and as: "\<And>a. (s0, a) \<in> T \<Longrightarrow> a \<in> set as"
  shows "base_inv T src D (R(s0 := Zero W)) (E - {s0}) (P(s0 := D s0))" "arc_inv T D (P(s0 := D s0)) s0 as (P s0)"
proof -
  note I = base_inv_sel [OF inv]
  have "Plus W (D s0) (Zero W) = D s0" using Plus_Zero [OF I(1), of s0] .
  then show "base_inv T src D (R(s0 := Zero W)) (E - {s0}) (P(s0 := D s0))"
    using inv I(1) [of s0] sums_Zero by (auto simp: base_inv_def reach_def)
  show "arc_inv T D (P(s0 := D s0)) s0 as (P s0)" using arc as by (fastforce simp: arc_inv_def)
qed

lemma inv_begin:
  assumes T: "\<And>s a. (s, a) \<in> T \<Longrightarrow> M (weight a)"
  shows "base_inv T src ((\<lambda>_. Zero W)(src := One W)) ((\<lambda>_. Zero W)(src := One W)) {src} (\<lambda>_. Zero W)"
    "arc_inv T ((\<lambda>_. Zero W)(src := One W)) (\<lambda>_. Zero W) s0 [] p"
proof -
  have "One W \<in> path_weights W T src src" by (auto simp: path_weights_def intro!: exI [of _ "[]"])
  then have "One W \<in> reach T src src" unfolding reach_def using M_One by (rule sums_single)
  then show "base_inv T src ((\<lambda>_. Zero W)(src := One W)) ((\<lambda>_. Zero W)(src := One W)) {src} (\<lambda>_. Zero W)"
    using T sums_Zero by (auto simp: base_inv_def reach_def M_Zero M_One Plus_idem Zero_Plus)
  show "arc_inv T ((\<lambda>_. Zero W)(src := One W)) (\<lambda>_. Zero W) s0 [] p"
    using T by (auto simp: arc_inv_def Zero_Times Plus_Zero M_One M_Zero)
qed

lemma inv_end:
  assumes inv: "base_inv T src D R {} P" and arc: "arc_inv T D P s0 [] p"
  shows "is_total W (path_weights W T src s) (D s)"
proof -
  note I = base_inv_sel [OF inv]
  have "P s = D s" for s using I(4) [of s] I(8) [of s] Plus_Zero [OF I(3), of s] by simp
  then have step: "Plus W (D (nextstate a)) (Times W (D s) (weight a)) = D (nextstate a)" if "(s, a) \<in> T" for s a
    using arc that by (fastforce simp: arc_inv_def)
  have "Plus W (D s) (path_weight W as) = D s" if "tpath T src as s" for as
    using I(5) I(1) I(9) step that by (rule closed_absorbs)
  then show ?thesis using I(6) [of s] by (auto simp: is_total_def reach_def path_weights_def)
qed

section \<open>The measure\<close>

definition room :: "(nat \<times> 'w arc) set \<Rightarrow> nat \<Rightarrow> nat \<Rightarrow> (nat \<Rightarrow> 'w) \<Rightarrow> nat" where
  "room T src n D = (\<Sum>s < n. card (larger (reach T src s) (D s)))"

lemma room_less:
  assumes T: "\<And>s a. (s, a) \<in> T \<Longrightarrow> M (weight a)" and fin: "finite (path_weights W T src t)" and t: "t < n"
    and M: "M (D t)" "M w" and D: "Plus W (D t) w \<in> reach T src t" "Plus W (D t) w \<noteq> D t"
  shows "room T src n (D(t := Plus W (D t) w)) < room T src n D"
proof -
  have X: "path_weights W T src t \<subseteq> Collect M" using T by (rule path_weights_M)
  have "finite (reach T src t)" unfolding reach_def using fin X by (rule finite_sums)
  moreover have "reach T src t \<subseteq> Collect M" using M_sums [OF X] by (auto simp: reach_def)
  ultimately have "card (larger (reach T src t) (Plus W (D t) w)) < card (larger (reach T src t) (D t))"
    using M D by (rule larger_less)
  then show ?thesis using t unfolding room_def by (intro sum_strict_mono_ex1) auto
qed

section \<open>The loop over the arcs\<close>

definition st_inv ::
  "(nat \<times> 'w arc) set \<Rightarrow> nat \<Rightarrow> nat \<Rightarrow> bool \<Rightarrow> (nat \<Rightarrow> 'w) \<Rightarrow> nat \<Rightarrow> 'w arc list \<Rightarrow> 'w \<Rightarrow> ('w, 'q) sd_state \<Rightarrow> bool" where
  "st_inv T src n retain P s0 pend p st \<longleftrightarrow>
     sizes st \<and> length (sd_distance st) \<le> n \<and> ok (sd_queue st) \<and> queued (sd_queue st) = waiting retain st \<and>
     base_inv T src (dist W retain st) (rdist W retain st) (waiting retain st) P \<and> arc_inv T (dist W retain st) P s0 pend p"

text \<open>Progress: some distance has grown, or else no state was added to the queue.\<close>

definition progress :: "(nat \<times> 'w arc) set \<Rightarrow> nat \<Rightarrow> nat \<Rightarrow> bool \<Rightarrow> ('w, 'q) sd_state \<Rightarrow> ('w, 'q) sd_state \<Rightarrow> bool" where
  "progress T src n retain st st' \<longleftrightarrow>
     sd_source_id st' = sd_source_id st \<and> sd_error st' = sd_error st \<and>
     (room T src n (dist W retain st') < room T src n (dist W retain st) \<or>
      room T src n (dist W retain st') = room T src n (dist W retain st) \<and> waiting retain st' = waiting retain st)"

lemma progress_trans:
  assumes "progress T src n retain st u" "progress T src n retain u st'"
  shows "progress T src n retain st st'"
proof -
  have lex: "a' < a \<or> a' = a \<and> x' = x \<Longrightarrow> a'' < a' \<or> a'' = a' \<and> x'' = x' \<Longrightarrow> a'' < a \<or> a'' = a \<and> x'' = x"
    for a a' a'' :: nat and x x' x'' :: "nat set"
    by auto
  show ?thesis using assms unfolding progress_def by (elim conjE, intro conjI) (erule (1) trans, erule (1) trans, erule (1) lex)
qed

lemma relaxed_queue:
  assumes v: "relaxed W Q retain t w st st'" and q: "ok (sd_queue st)" "queued (sd_queue st) = waiting retain st" and t: "valid t"
  shows "ok (sd_queue st') \<and> queued (sd_queue st') = insert t (waiting retain st)"
proof -
  obtain d where d: "sd_queue st' = (if t \<in> waiting retain st then q_Update Q d t (sd_queue st) else q_Enqueue Q d t (sd_queue st))"
    using v by (auto simp: relaxed_def)
  show ?thesis
  proof (cases "t \<in> waiting retain st")
    case True
    then show ?thesis using d update [OF q(1), of t d] by (simp add: q(2) insert_absorb)
  next
    case False
    then show ?thesis using d enqueue [OF q(1) t, of d] by (simp add: q(2))
  qed
qed

lemma relax_arc_ok:
  assumes inv: "st_inv T src n retain P s0 (a # pend) p st" and p: "M p" "P s0 = Plus W p r" and r: "r \<in> reach T src s0"
    and a: "(s0, a) \<in> T" "nextstate a < n" and n: "\<And>s. s < n \<Longrightarrow> valid s" and fin: "\<And>s. finite (path_weights W T src s)"
  shows "\<exists>st'. relax_arc W Q opts retain r a st = Inr st' \<and> st_inv T src n retain P s0 pend p st' \<and> progress T src n retain st st'"
proof -
  let ?t = "nextstate a" and ?w = "Times W r (weight a)" and ?D = "dist W retain st" and ?R = "rdist W retain st"
  have base: "base_inv T src ?D ?R (waiting retain st) P" and arc: "arc_inv T ?D P s0 (a # pend) p" and sz: "sizes st"
    and q: "ok (sd_queue st)" "queued (sd_queue st) = waiting retain st" and len: "length (sd_distance st) \<le> n"
    using inv by (auto simp: st_inv_def)
  note I = base_inv_sel [OF base]
  have Mr: "M r" using I(5) r by (rule reach_M)
  have w: "?w \<in> reach T src ?t" unfolding reach_def using I(5) r [unfolded reach_def] a(1) by (rule sums_step)
  have Mw: "M ?w" using Mr I(5) [OF a(1)] by (rule M_Times)
  obtain st' where st': "relax_arc W Q opts retain r a st = Inr st'" "sizes st'"
      "length (sd_distance st') = max (length (sd_distance st)) (?t + 1)"
      "if o_weight_equal opts (?D ?t) (Plus W (?D ?t) ?w) then same_view W retain st st' else relaxed W Q retain ?t ?w st st'"
    using relax_arc_view [OF sz _ _ refl refl, where W = W and retain = retain and arc = a and r = r and Q = Q and opts = opts]
      M_Member M_Plus [OF I(1) Mw] M_Plus [OF I(2) Mw] by blast
  have len': "length (sd_distance st') \<le> n" using st'(3) len a(2) by simp
  have eq: "o_weight_equal opts (?D ?t) (Plus W (?D ?t) ?w) \<longleftrightarrow> ?D ?t = Plus W (?D ?t) ?w"
    using I(1) M_Plus [OF I(1) Mw] by (rule exact)
  show ?thesis
  proof (cases "?D ?t = Plus W (?D ?t) ?w")
    case True
    then have v: "same_view W retain st st'" using st'(4) eq by simp
    have "arc_inv T ?D P s0 pend p" using base arc p(1) Mr p(2) by (rule arc_inv_done) (use True in simp)
    then show ?thesis using v base st'(1,2) q len' by (auto simp: same_view_def st_inv_def progress_def)
  next
    case False
    then have v: "relaxed W Q retain ?t ?w st st'" using st'(4) eq by simp
    let ?D' = "?D(?t := Plus W (?D ?t) ?w)"
    have b': "base_inv T src ?D' (?R(?t := Plus W (?R ?t) ?w)) (insert ?t (waiting retain st)) P" using base w by (rule base_inv_grow)
    have "arc_inv T ?D' P s0 (a # pend) p" using base arc p(1) Mw by (rule arc_inv_grow)
    then have "arc_inv T ?D' P s0 pend p"
      using arc_inv_done [OF b' _ p(1) Mr p(2)] absorbs_Plus [OF I(1) Mw] by simp
    moreover have "ok (sd_queue st')" "queued (sd_queue st') = insert ?t (waiting retain st)"
      using relaxed_queue [OF v q(1) q(2) n [OF a(2)]] by simp_all
    moreover have "?D' ?t \<in> reach T src ?t" using b' by (rule base_inv_sel(6))
    then have "Plus W (?D ?t) ?w \<in> reach T src ?t" by simp
    with I(5) fin a(2) I(1) Mw have "room T src n ?D' < room T src n ?D" using False [symmetric] by (rule room_less)
    ultimately show ?thesis using v b' st'(1,2) len' by (auto simp: relaxed_def st_inv_def progress_def)
  qed
qed

lemma relax_arcs_ok:
  assumes p: "M p" "P s0 = Plus W p r" and r: "r \<in> reach T src s0"
    and n: "\<And>s. s < n \<Longrightarrow> valid s" and fin: "\<And>s. finite (path_weights W T src s)"
  shows "st_inv T src n retain P s0 as p st \<Longrightarrow>
    (\<And>a. a \<in> set as \<Longrightarrow> nextstate a < n \<and> ((s0, a) \<in> T \<longleftrightarrow> o_arc_filter opts a)) \<Longrightarrow>
    \<exists>st'. relax_arcs W Q opts retain r as st = Inr st' \<and> st_inv T src n retain P s0 [] p st' \<and> progress T src n retain st st'"
proof (induction as arbitrary: st)
  case Nil
  then show ?case by (simp add: progress_def)
next
  case (Cons a as)
  have a: "nextstate a < n" "(s0, a) \<in> T \<longleftrightarrow> o_arc_filter opts a" using Cons.prems(2) by simp_all
  show ?case
  proof (cases "o_arc_filter opts a")
    case True
    then obtain u where u: "relax_arc W Q opts retain r a st = Inr u" "st_inv T src n retain P s0 as p u" "progress T src n retain st u"
      using relax_arc_ok [where retain = retain, OF Cons.prems(1) p r _ a(1) n fin] a(2) by blast
    obtain st' where "relax_arcs W Q opts retain r as u = Inr st'" "st_inv T src n retain P s0 [] p st'" "progress T src n retain u st'"
      using Cons.IH [OF u(2)] Cons.prems(2) by auto
    then show ?thesis using u(1) True progress_trans [OF u(3)] by simp
  next
    case False
    have base: "base_inv T src (dist W retain st) (rdist W retain st) (waiting retain st) P" "arc_inv T (dist W retain st) P s0 (a # as) p"
      using Cons.prems(1) by (simp_all add: st_inv_def)
    have "M r" using base_inv_sel(5) [OF base(1)] r by (rule reach_M)
    with base p(1) have "arc_inv T (dist W retain st) P s0 as p" using p(2) by (rule arc_inv_done) (use a False in simp)
    then have "st_inv T src n retain P s0 as p st" using Cons.prems(1) by (simp add: st_inv_def)
    then show ?thesis using Cons.IH [of st] Cons.prems(2) False by simp
  qed
qed

section \<open>The loop over the queue\<close>

lemma dequeue_ok:
  assumes inv: "st_inv T src n retain P s0 [] p st" and ne: "\<not> q_Empty Q (sd_queue st)"
    and as: "\<And>a. (q_Head Q (sd_queue st), a) \<in> T \<Longrightarrow> a \<in> set as"
  shows "\<exists>s r u v. s < n \<and> s \<in> waiting retain st \<and> s = q_Head Q (sd_queue st) \<and>
    sd_dequeue W Q st = (s, u) \<and> take_radder W s u = (r, v) \<and> r \<in> reach T src s \<and> M (P s) \<and> dist W retain st s = Plus W (P s) r \<and>
    st_inv T src n retain (P(s := dist W retain st s)) s as (P s) v \<and>
    sd_source_id v = sd_source_id st \<and> sd_error v = sd_error st \<and>
    dist W retain v = dist W retain st \<and> waiting retain v = waiting retain st - {s}"
proof -
  let ?s = "q_Head Q (sd_queue st)"
  let ?u = "st\<lparr>sd_queue := q_Dequeue Q (sd_distance st) (sd_queue st)\<rparr>"
  have sz: "sizes st" and q: "ok (sd_queue st)" "queued (sd_queue st) = waiting retain st" and len: "length (sd_distance st) \<le> n"
    and base: "base_inv T src (dist W retain st) (rdist W retain st) (waiting retain st) P" and arc: "arc_inv T (dist W retain st) P s0 [] p"
    using inv by (auto simp: st_inv_def)
  have ne': "queued (sd_queue st) \<noteq> {}" using ne empty [OF q(1)] by simp
  have s: "?s \<in> waiting retain st" using head [OF q(1) ne'] q(2) by simp
  then have cur: "current retain st ?s" by (simp add: waiting_def)
  have deq: "sd_dequeue W Q st = (?s, ?u)" using sz cur by (rule sd_dequeue_current)
  have szu: "sizes ?u" and curu: "current retain ?u ?s" using sz cur by simp_all
  let ?v = "snd (take_radder W ?s ?u)"
  note V = take_radder_view [OF szu curu, where W = W, simplified view_queue]
  note I = base_inv_sel [OF base]
  have arc': "arc_inv T (dist W retain st) P ?s [] p" using arc by (simp add: arc_inv_def)
  have "base_inv T src (dist W retain st) ((rdist W retain st)(?s := Zero W)) (waiting retain st - {?s}) (P(?s := dist W retain st ?s))"
    using base arc' as by (rule inv_take(1))
  moreover have "arc_inv T (dist W retain st) (P(?s := dist W retain st ?s)) ?s as (P ?s)" using base arc' as by (rule inv_take(2))
  moreover have "ok (sd_queue ?v)" "queued (sd_queue ?v) = waiting retain st - {?s}"
    using dequeue [OF q(1) ne'] q(2) by simp_all
  ultimately have "st_inv T src n retain (P(?s := dist W retain st ?s)) ?s as (P ?s) ?v"
    using V len by (simp add: st_inv_def)
  moreover have "?s < n" using current_view(1) [OF sz cur] len by simp
  moreover have "take_radder W ?s ?u = (rdist W retain st ?s, ?v)" using V(1) by (metis prod.collapse)
  ultimately show ?thesis using s deq V(3,5) I(3,4,7) [of ?s] by (intro exI [of _ ?s] exI [of _ ?u] exI [of _ ?v] exI [of _ "rdist W retain st ?s"]) simp
qed

lemma queue_loop_ok:
  fixes f
  defines "T \<equiv> kept_arcs (o_arc_filter opts) f" and "n \<equiv> NumStates f"
  assumes wf: "wf_fst f" and n: "\<And>s. s < n \<Longrightarrow> valid s" and fin: "\<And>s. finite (path_weights W T src s)"
    and inv: "st_inv T src n retain P s0 [] p st"
  shows "\<exists>st' P' s0' p'. sd_loop W Q f opts retain st = Some (Inr st') \<and> st_inv T src n retain P' s0' [] p' st' \<and>
    waiting retain st' = {} \<and> sd_source_id st' = sd_source_id st \<and> sd_error st' = sd_error st"
  using inv
proof (induction "(room T src n (dist W retain st), card (waiting retain st))" arbitrary: st P s0 p rule: wf_induct_rule [OF wf_lex_prod [OF wf_less_than wf_less_than]])
  case (1 st P s0 p)
  have q: "ok (sd_queue st)" "queued (sd_queue st) = waiting retain st" using 1(2) by (auto simp: st_inv_def)
  have fw: "finite (waiting retain st)" using finite_queued [OF q(1)] q(2) by simp
  show ?case
  proof (cases "q_Empty Q (sd_queue st)")
    case True
    then have "sd_loop W Q f opts retain st = Some (Inr st)" by (subst sd_loop.simps) simp
    then show ?thesis using 1(2) True empty [OF q(1)] q(2) by blast
  next
    case False
    let ?as = "Arcs f (q_Head Q (sd_queue st))"
    have as: "a \<in> set ?as" if "(q_Head Q (sd_queue st), a) \<in> T" for a using that by (auto simp: T_def kept_arcs_def trans_iff)
    obtain s r u v where d: "s < n" "s \<in> waiting retain st" "s = q_Head Q (sd_queue st)" "sd_dequeue W Q st = (s, u)"
        "take_radder W s u = (r, v)" "r \<in> reach T src s" "M (P s)" "dist W retain st s = Plus W (P s) r"
      and v: "st_inv T src n retain (P(s := dist W retain st s)) s ?as (P s) v" "sd_source_id v = sd_source_id st" "sd_error v = sd_error st"
        "dist W retain v = dist W retain st" "waiting retain v = waiting retain st - {s}"
      using dequeue_ok [OF 1(2) False as] by blast
    have "nextstate a < n \<and> ((s, a) \<in> T \<longleftrightarrow> o_arc_filter opts a)" if "a \<in> set ?as" for a
      using that d(1,3) wf unfolding n_def wf_fst_def T_def kept_arcs_def by (auto simp: trans_iff)
    then obtain st' where st': "relax_arcs W Q opts retain r ?as v = Inr st'"
        "st_inv T src n retain (P(s := dist W retain st s)) s [] (P s) st'" "progress T src n retain v st'"
      using relax_arcs_ok [where retain = retain and P = "P(s := dist W retain st s)", OF d(7) _ d(6) n fin v(1)] d(8) by auto
    have loop: "sd_loop W Q f opts retain st = sd_loop W Q f opts retain st'"
      using False d(3,4,5) st'(1) all_paths by (subst sd_loop.simps) simp
    have "((room T src n (dist W retain st'), card (waiting retain st')), (room T src n (dist W retain st), card (waiting retain st)))
        \<in> less_than <*lex*> less_than"
      using st'(3) [unfolded progress_def v(4,5)] card_Diff1_less [OF fw d(2)] by (elim conjE disjE) simp_all
    then show ?thesis using 1(1) [OF _ st'(2)] unfolding loop using st'(3) [unfolded progress_def v(2,3)] by metis
  qed
qed

section \<open>The member function\<close>

lemma call_ok:
  fixes f
  defines "T \<equiv> kept_arcs (o_arc_filter opts) f" and "n \<equiv> NumStates f"
  assumes wf: "wf_fst f" "weights_in M f" "start f = Some i" and wprops: "has wprops kRightSemiring"
    and n: "\<And>s. s < n \<Longrightarrow> valid s" and src: "src = (case source of None \<Rightarrow> i | Some s \<Rightarrow> s)" "src < n"
    and fin: "\<And>s. finite (path_weights W T src s)" and st: "ready n ok st"
  shows "\<exists>st'. sd_ShortestDistance W wprops Q f opts retain source st = Some st' \<and> ready n ok st' \<and>
    (sd_error st' \<longleftrightarrow> sd_error st \<or> has (Properties f kError) kError) \<and>
    sd_source_id st' = sd_source_id st + 1 \<and>
    (\<forall>s. is_total W (path_weights W T src s) (distance_of W retain (sd_source_id st) st' s))"
proof -
  have T: "(s, a) \<in> T \<Longrightarrow> M (weight a)" for s a using weights_in_trans [OF wf(2)] by (auto simp: T_def kept_arcs_def)
  have sz: "sizes st" and fr: "fresh st" and q: "ok (sd_queue st)" and len: "length (sd_distance st) \<le> n"
    using st by (simp_all add: ready_def)
  let ?b = "sd_begin W Q retain src st"
  note B = sd_begin_view [OF sz fr, where W = W and Q = Q and retain = retain and src = src]
  have c: "ok (q_Clear Q (sd_queue st))" "queued (q_Clear Q (sd_queue st)) = {}" using clear [OF q] by simp_all
  obtain d where d: "sd_queue ?b = q_Enqueue Q d src (q_Clear Q (sd_queue st))" using B(5) by blast
  have "ok (sd_queue ?b)" "queued (sd_queue ?b) = {src}" using enqueue [OF c(1) n [OF src(2)], of d] c(2) by (simp_all add: d)
  then have "st_inv T src n retain (\<lambda>_. Zero W) 0 [] (Zero W) ?b"
    using B(1-4,8) inv_begin [OF T] src(2) len by (simp add: st_inv_def)
  then obtain u P s0 p where u: "sd_loop W Q f opts retain ?b = Some (Inr u)" "st_inv T src n retain P s0 [] p u" "waiting retain u = {}"
      "sd_source_id u = sd_source_id st" "sd_error u = sd_error st"
    using queue_loop_ok [where retain = retain and st = ?b and src = src, OF wf(1) n [unfolded n_def] fin [unfolded T_def]] B(6,7)
    unfolding T_def n_def by metis
  have U: "sizes u" "ok (sd_queue u)" "length (sd_distance u) \<le> n" "is_total W (path_weights W T src s) (dist W retain u s)" for s
    using u(2,3) inv_end [of T src "dist W retain u" "rdist W retain u" P s0 p s] by (simp_all add: st_inv_def)
  define st' where "st' = (let u = u\<lparr>sd_source_id := sd_source_id u + 1\<rparr> in if has (Properties f kError) kError then u\<lparr>sd_error := True\<rparr> else u)"
  have run: "sd_ShortestDistance W wprops Q f opts retain source st = Some st'"
    using wf(3) wprops all_paths u(1) src(1) by (simp add: sd_ShortestDistance_def st'_def Let_def)
  have sel: "sd_distance st' = sd_distance u" "sd_adder st' = sd_adder u" "sd_radder st' = sd_radder u" "sd_enqueued st' = sd_enqueued u"
      "sd_sources st' = sd_sources u" "sd_queue st' = sd_queue u" "sd_source_id st' = Suc (sd_source_id u)"
      "sd_error st' \<longleftrightarrow> sd_error u \<or> has (Properties f kError) kError"
    by (simp_all add: st'_def Let_def)
  have "ready n ok st'" using U(1-3) by (auto simp: ready_def sizes_def fresh_def sel less_Suc_eq_le le_SucI)
  moreover have "distance_of W retain (sd_source_id st) st' s = dist W retain u s" for s
    by (auto simp: distance_of_def dist_def current_def sel u(4))
  ultimately show ?thesis using run U(4) sel(7,8) u(4,5) by auto
qed

end

text \<open>The algorithm over set weights, which are compared with \<open>operator==\<close>.\<close>

interpretation fifo_distance: distance_algorithm "SetWeight SET_INTERSECT_UNION" st_ok FifoQueue "\<lambda>_. True" distinct set
    "\<lparr>o_arc_filter = keep, o_source = source, o_weight_equal = Weq (SetWeight SET_INTERSECT_UNION), o_first_path = False\<rparr>" for keep source
  by unfold_locales (use st_iu.Weq_eq in simp_all)

interpretation lifo_distance: distance_algorithm "SetWeight SET_UNION_INTERSECT" st_ok LifoQueue "\<lambda>_. True" distinct set
    "\<lparr>o_arc_filter = keep, o_source = source, o_weight_equal = Weq (SetWeight SET_UNION_INTERSECT), o_first_path = False\<rparr>" for keep source
  by unfold_locales (use st_ui.Weq_eq in simp_all)

interpretation shortest_first_distance: distance_algorithm "SetWeight SET_BOOLEAN" st_bool
    "ShortestFirstQueue (NaturalLess (SetWeight SET_BOOLEAN))" "\<lambda>_. True" sf_ok sf_queued
    "\<lparr>o_arc_filter = keep, o_source = source, o_weight_equal = Weq (SetWeight SET_BOOLEAN), o_first_path = False\<rparr>" for keep source
  by unfold_locales (use st_bool.Weq_eq in simp_all)

section \<open>ShortestDistance\<close>

lemma ShortestDistance_total:
  fixes f opts
  defines "T \<equiv> kept_arcs (o_arc_filter opts) f" and "n \<equiv> NumStates f"
  assumes alg: "distance_algorithm W M Q valid ok queued opts"
    and wf: "wf_fst f" "weights_in M f" "start f = Some i" "\<not> has (Properties f kError) kError" and wprops: "has wprops kRightSemiring"
    and n: "\<And>s. s < n \<Longrightarrow> valid s" and src: "src = (case o_source opts of None \<Rightarrow> i | Some s \<Rightarrow> s)" "src < n"
    and fin: "\<And>s. finite (path_weights W T src s)" and q: "ok q"
  shows "\<exists>d q'. ShortestDistance W wprops Q f opts q = Some (d, q') \<and> length d \<le> n \<and> ok q' \<and>
    (\<forall>s. is_total W (path_weights W T src s) (if s < length d then d ! s else Zero W))"
proof -
  have r: "ready n ok (ShortestDistanceState q)" using q by (rule ready_init)
  obtain st where st: "sd_ShortestDistance W wprops Q f opts False (o_source opts) (ShortestDistanceState q) = Some st" "ready n ok st"
      "\<not> sd_error st" "\<forall>s. is_total W (path_weights W T src s) (distance_of W False 0 st s)"
    using distance_algorithm.call_ok [OF alg wf(1-3) wprops _ src [unfolded n_def], of "ShortestDistanceState q" False] n fin wf(4)
      r unfolding T_def n_def by (auto simp: ShortestDistanceState_def)
  then show ?thesis by (auto simp: ShortestDistance_def distance_of_def ready_def)
qed

end
