(* ===== verification/Visit.thy ===== *)
theory Visit
  imports Queue DfsVisit
begin

text \<open>
  Visitation in the order of a queue (src/openfst/lib/visit.h) of a VectorFst. A visitor is a record of its member functions.
  The queue is a record of its operations (theory Queue), and \<open>d\<close> is the vector of distances that a
  shortest-first queue reads. The status byte of a state is its color and the flag \<open>kArcIterDone\<close>. As in theory
  DfsVisit, the number of states is known, so the search for states beyond the largest known one is left out.
\<close>

section \<open>The algorithm\<close>

record ('v, 'w) visitor_ops =
  v_InitVisit :: "'w vfst \<Rightarrow> 'v \<Rightarrow> 'v"
  v_InitState :: "nat \<Rightarrow> nat \<Rightarrow> 'v \<Rightarrow> 'v \<times> bool"
  v_WhiteArc :: "nat \<Rightarrow> 'w arc \<Rightarrow> 'v \<Rightarrow> 'v \<times> bool"
  v_GreyArc :: "nat \<Rightarrow> 'w arc \<Rightarrow> 'v \<Rightarrow> 'v \<times> bool"
  v_BlackArc :: "nat \<Rightarrow> 'w arc \<Rightarrow> 'v \<Rightarrow> 'v \<times> bool"
  v_FinishState :: "nat \<Rightarrow> 'v \<Rightarrow> 'v"
  v_FinishVisit :: "'v \<Rightarrow> 'v"

record ('v, 'q) visit_vars =
  state_status :: "(StateColor \<times> bool) list"
  arc_iterator :: "nat option list"
  vqueue :: 'q
  vvisitor :: 'v
  vvisit :: bool

definition visit_resize :: "nat \<Rightarrow> ('v, 'q) visit_vars \<Rightarrow> ('v, 'q) visit_vars" where
  "visit_resize s v =
     (if s \<ge> length (state_status v)
      then v\<lparr>state_status := state_status v @ replicate (s + 1 - length (state_status v)) (kWhite, False),
             arc_iterator := arc_iterator v @ replicate (s + 1 - length (arc_iterator v)) None\<rparr>
      else v)"

definition visit_call :: "('v \<Rightarrow> 'v \<times> bool) \<Rightarrow> ('v, 'q) visit_vars \<Rightarrow> ('v, 'q) visit_vars" where
  "visit_call call v = (let (u, b) = call (vvisitor v) in v\<lparr>vvisitor := u, vvisit := b\<rparr>)"

text \<open>The iterator of a state is destroyed, and the state marked so.\<close>

definition iter_done :: "nat \<Rightarrow> ('v, 'q) visit_vars \<Rightarrow> ('v, 'q) visit_vars" where
  "iter_done s v =
     v\<lparr>arc_iterator := (arc_iterator v)[s := None], state_status := (state_status v)[s := (fst (state_status v ! s), True)]\<rparr>"

text \<open>A state is discovered: it turns grey and is enqueued.\<close>

definition discover ::
  "('v, 'w) visitor_ops \<Rightarrow> ('q, 'w) queue_ops \<Rightarrow> 'w list \<Rightarrow> nat \<Rightarrow> nat \<Rightarrow> ('v, 'q) visit_vars \<Rightarrow> ('v, 'q) visit_vars" where
  "discover V Q d root s v =
     (let v = visit_call (v_InitState V s root) v
      in v\<lparr>state_status := (state_status v)[s := (kGrey, False)], vqueue := q_Enqueue Q d s (vqueue v)\<rparr>)"

text \<open>The iterator of a state moves on, and is destroyed as soon as it is done.\<close>

definition iter_next :: "'w vfst \<Rightarrow> nat \<Rightarrow> nat \<Rightarrow> ('v, 'q) visit_vars \<Rightarrow> ('v, 'q) visit_vars" where
  "iter_next f s i v =
     (let v = v\<lparr>arc_iterator := (arc_iterator v)[s := Some (i + 1)]\<rparr>
      in if i + 1 \<ge> NumArcs f s then iter_done s v else v)"

text \<open>The visit of the arc that the iterator of \<open>s\<close> is at.\<close>

definition visit_arc ::
  "'w vfst \<Rightarrow> ('v, 'w) visitor_ops \<Rightarrow> ('q, 'w) queue_ops \<Rightarrow> 'w list \<Rightarrow> ('w arc \<Rightarrow> bool) \<Rightarrow> nat \<Rightarrow> nat \<Rightarrow> nat \<Rightarrow>
    ('v, 'q) visit_vars \<Rightarrow> ('v, 'q) visit_vars" where
  "visit_arc f V Q d keep root s i v =
     (let arc = Arcs f s ! i;
          t = nextstate arc;
          v = visit_resize t v
      in if keep arc
         then (if state_status v ! t = (kWhite, False)
               then (let v = visit_call (v_WhiteArc V s arc) v
                     in if \<not> vvisit v then v else iter_next f s i (discover V Q d root t v))
               else if state_status v ! t = (kBlack, False) then iter_next f s i (visit_call (v_BlackArc V s arc) v)
               else iter_next f s i (visit_call (v_GreyArc V s arc) v))
         else iter_next f s i v)"

text \<open>The iterator of a state is created if needed, and deleted if it is done or the visit was aborted.\<close>

definition visit_open :: "'w vfst \<Rightarrow> nat \<Rightarrow> ('v, 'q) visit_vars \<Rightarrow> ('v, 'q) visit_vars" where
  "visit_open f s v =
     (let v = (if arc_iterator v ! s = None \<and> \<not> snd (state_status v ! s) \<and> vvisit v
               then v\<lparr>arc_iterator := (arc_iterator v)[s := Some 0]\<rparr> else v)
      in if (case arc_iterator v ! s of Some i \<Rightarrow> i \<ge> NumArcs f s | None \<Rightarrow> False) \<or> \<not> vvisit v then iter_done s v else v)"

text \<open>The body of the loop over the queue.\<close>

definition visit_step ::
  "'w vfst \<Rightarrow> ('v, 'w) visitor_ops \<Rightarrow> ('q, 'w) queue_ops \<Rightarrow> 'w list \<Rightarrow> ('w arc \<Rightarrow> bool) \<Rightarrow> nat \<Rightarrow>
    ('v, 'q) visit_vars \<Rightarrow> ('v, 'q) visit_vars" where
  "visit_step f V Q d keep root v =
     (let s = q_Head Q (vqueue v);
          v = visit_open f s (visit_resize s v)
      in if snd (state_status v ! s)
         then v\<lparr>vqueue := q_Dequeue Q d (vqueue v), vvisitor := v_FinishState V s (vvisitor v),
                state_status := (state_status v)[s := (kBlack, False)]\<rparr>
         else visit_arc f V Q d keep root s (the (arc_iterator v ! s)) v)"

partial_function (option) visit_tree ::
  "'w vfst \<Rightarrow> ('v, 'w) visitor_ops \<Rightarrow> ('q, 'w) queue_ops \<Rightarrow> 'w list \<Rightarrow> ('w arc \<Rightarrow> bool) \<Rightarrow> nat \<Rightarrow>
    ('v, 'q) visit_vars \<Rightarrow> ('v, 'q) visit_vars option" where
  "visit_tree f V Q d keep root v =
     (if q_Empty Q (vqueue v) then Some v else visit_tree f V Q d keep root (visit_step f V Q d keep root v))"

text \<open>The first white state from \<open>root\<close> on, or the number of states.\<close>

definition next_root :: "(StateColor \<times> bool) list \<Rightarrow> nat \<Rightarrow> nat" where
  "next_root status root = root + length (takeWhile (\<lambda>c. c \<noteq> (kWhite, False)) (drop root status))"

partial_function (option) visit_forest ::
  "'w vfst \<Rightarrow> ('v, 'w) visitor_ops \<Rightarrow> ('q, 'w) queue_ops \<Rightarrow> 'w list \<Rightarrow> ('w arc \<Rightarrow> bool) \<Rightarrow> bool \<Rightarrow> nat \<Rightarrow> nat \<Rightarrow>
    ('v, 'q) visit_vars \<Rightarrow> ('v, 'q) visit_vars option" where
  "visit_forest f V Q d keep access_only st root v =
     (if vvisit v \<and> root < length (state_status v)
      then (case visit_tree f V Q d keep root (discover V Q d root root v) of
              None \<Rightarrow> None
            | Some v \<Rightarrow>
                if access_only then Some v
                else visit_forest f V Q d keep access_only st
                       (next_root (state_status v) (if root = st then 0 else root + 1)) v)
      else Some v)"

definition Visit ::
  "'w vfst \<Rightarrow> ('v, 'w) visitor_ops \<Rightarrow> ('q, 'w) queue_ops \<Rightarrow> 'w list \<Rightarrow> ('w arc \<Rightarrow> bool) \<Rightarrow> bool \<Rightarrow> 'v \<Rightarrow> 'q \<Rightarrow>
    ('v \<times> 'q) option" where
  "Visit f V Q d keep access_only u q =
     (let u = v_InitVisit V f u
      in case start f of
           None \<Rightarrow> Some (v_FinishVisit V u, q)
         | Some st \<Rightarrow>
             map_option (\<lambda>v. (v_FinishVisit V (vvisitor v), vqueue v))
               (visit_forest f V Q d keep access_only st st
                  \<lparr>state_status = replicate (NumStates f) (kWhite, False), arc_iterator = replicate (NumStates f) None,
                   vqueue = q, vvisitor = u, vvisit = True\<rparr>))"

end
