(* ===== verification/VisitLaws.thy ===== *)
theory VisitLaws
  imports Visit
begin

text \<open>
  What a visit in the order of a queue guarantees to a visitor that never aborts it. The locale \<open>visit_visitor\<close> states
  what the calls must keep: an invariant of the discovered states, the arcs examined so far at each state, and the
  finished states. Then the visit ends, every state is discovered and finished once, and the arcs of every
  state that the filter keeps are examined once, in their order.
\<close>

section \<open>The view of the variables\<close>

definition color_of :: "('v, 'q) visit_vars \<Rightarrow> nat \<Rightarrow> StateColor" where
  "color_of v s = fst (state_status v ! s)"

definition discovered :: "'w vfst \<Rightarrow> ('v, 'q) visit_vars \<Rightarrow> nat set" where
  "discovered f v = {s. s < NumStates f \<and> color_of v s \<noteq> kWhite}"

definition finished :: "'w vfst \<Rightarrow> ('v, 'q) visit_vars \<Rightarrow> nat set" where
  "finished f v = {s. s < NumStates f \<and> color_of v s = kBlack}"

text \<open>The number of arcs of a state that have been examined.\<close>

definition arc_pos :: "'w vfst \<Rightarrow> ('v, 'q) visit_vars \<Rightarrow> nat \<Rightarrow> nat" where
  "arc_pos f v s =
     (if \<not> s < NumStates f \<or> color_of v s = kWhite then 0
      else if color_of v s = kBlack \<or> snd (state_status v ! s) then NumArcs f s
      else case arc_iterator v ! s of None \<Rightarrow> 0 | Some i \<Rightarrow> i)"

definition examined :: "'w vfst \<Rightarrow> ('w arc \<Rightarrow> bool) \<Rightarrow> ('v, 'q) visit_vars \<Rightarrow> nat \<Rightarrow> 'w arc list" where
  "examined f keep v s = (if s < NumStates f then filter keep (take (arc_pos f v s) (Arcs f s)) else [])"

definition vars_ok :: "'w vfst \<Rightarrow> ('v, 'q) visit_vars \<Rightarrow> bool" where
  "vars_ok f v \<longleftrightarrow> length (state_status v) = NumStates f \<and> length (arc_iterator v) = NumStates f \<and> vvisit v \<and>
     (\<forall>s < NumStates f. (snd (state_status v ! s) \<longrightarrow> color_of v s = kGrey) \<and>
        (\<forall>i. arc_iterator v ! s = Some i \<longrightarrow> state_status v ! s = (kGrey, False) \<and> i \<le> NumArcs f s))"

definition cost :: "'w vfst \<Rightarrow> ('v, 'q) visit_vars \<Rightarrow> nat \<Rightarrow> nat" where
  "cost f v s = (case color_of v s of kWhite \<Rightarrow> NumArcs f s + 2 | kGrey \<Rightarrow> NumArcs f s - arc_pos f v s + 1 | kBlack \<Rightarrow> 0)"

lemma cost_cong: "color_of v' t = color_of v t \<Longrightarrow> arc_pos f v' t = arc_pos f v t \<Longrightarrow> cost f v' t = cost f v t"
  by (simp add: cost_def split: StateColor.split)

definition visit_left :: "'w vfst \<Rightarrow> ('v, 'q) visit_vars \<Rightarrow> nat" where
  "visit_left f v = (\<Sum>s < NumStates f. cost f v s)"

lemma visit_left_less:
  assumes "s < NumStates f" "cost f v' s < cost f v s" "\<And>t. t < NumStates f \<Longrightarrow> t \<noteq> s \<Longrightarrow> cost f v' t \<le> cost f v t"
  shows "visit_left f v' < visit_left f v"
  unfolding visit_left_def
proof (rule sum_strict_mono_ex1)
  show "\<forall>t\<in>{..<NumStates f}. cost f v' t \<le> cost f v t" using assms by (metis lessThan_iff order.strict_implies_order)
qed (use assms in auto)

lemma visit_call_sel [simp]:
  "state_status (visit_call c v) = state_status v" "arc_iterator (visit_call c v) = arc_iterator v" "vqueue (visit_call c v) = vqueue v"
  "vvisitor (visit_call c v) = fst (c (vvisitor v))" "vvisit (visit_call c v) = snd (c (vvisitor v))"
  by (simp_all add: visit_call_def case_prod_beta)

lemma visit_call_view:
  assumes "vars_ok f v" "snd (c (vvisitor v))"
  shows "vars_ok f (visit_call c v) \<and> arc_pos f (visit_call c v) = arc_pos f v \<and> discovered f (visit_call c v) = discovered f v \<and>
    finished f (visit_call c v) = finished f v \<and> examined f keep (visit_call c v) = examined f keep v \<and> cost f (visit_call c v) = cost f v"
proof -
  have pos: "arc_pos f (visit_call c v) = arc_pos f v" by (simp add: arc_pos_def color_of_def fun_eq_iff)
  have "cost f (visit_call c v) = cost f v" by (intro ext cost_cong) (simp_all add: pos color_of_def)
  then show ?thesis using assms by (simp add: pos vars_ok_def discovered_def finished_def examined_def color_of_def fun_eq_iff)
qed

lemma visit_resize_id: "s < length (state_status v) \<Longrightarrow> visit_resize s v = v"
  by (simp add: visit_resize_def)

section \<open>What the parts do to the view\<close>

text \<open>Two states of the variables with the same view.\<close>

definition same_vars :: "'w vfst \<Rightarrow> ('v, 'q) visit_vars \<Rightarrow> ('v, 'q) visit_vars \<Rightarrow> bool" where
  "same_vars f v v' \<longleftrightarrow> (\<forall>s < NumStates f. color_of v' s = color_of v s) \<and> arc_pos f v' = arc_pos f v \<and>
     vqueue v' = vqueue v \<and> vvisitor v' = vvisitor v"

lemma same_vars_view:
  assumes "same_vars f v v'"
  shows "discovered f v' = discovered f v" "finished f v' = finished f v" "examined f keep v' = examined f keep v"
    "s < NumStates f \<Longrightarrow> cost f v' s = cost f v s"
  using assms by (auto simp: same_vars_def discovered_def finished_def examined_def cost_def fun_eq_iff split: StateColor.split)

lemma visit_open_view:
  assumes ok: "vars_ok f v" and s: "s < NumStates f" "color_of v s = kGrey"
  shows "vars_ok f (visit_open f s v) \<and> same_vars f v (visit_open f s v) \<and>
    (state_status (visit_open f s v) ! s = (kGrey, True) \<and> arc_iterator (visit_open f s v) ! s = None \<or>
     state_status (visit_open f s v) ! s = (kGrey, False) \<and> arc_pos f v s < NumArcs f s \<and> arc_iterator (visit_open f s v) ! s = Some (arc_pos f v s))"
proof -
  obtain b where b: "state_status v ! s = (kGrey, b)" using s(2) by (cases "state_status v ! s") (simp add: color_of_def)
  show ?thesis
  proof (cases b)
    case True
    then have "arc_iterator v ! s = None" using ok s b by (cases "arc_iterator v ! s") (auto simp: vars_ok_def)
    moreover have "visit_open f s v = v" using True b ok calculation by (simp add: visit_open_def vars_ok_def)
    ultimately show ?thesis using ok b True by (simp add: same_vars_def)
  next
    case False
    define i where "i = (case arc_iterator v ! s of None \<Rightarrow> 0 | Some i \<Rightarrow> i)"
    let ?v = "v\<lparr>arc_iterator := (arc_iterator v)[s := Some i]\<rparr>"
    have i: "i \<le> NumArcs f s" "arc_pos f v s = i"
      using ok s b False by (auto simp: i_def vars_ok_def arc_pos_def color_of_def split: option.splits)
    have len: "s < length (arc_iterator v)" "s < length (state_status v)" "vvisit v" using ok s by (simp_all add: vars_ok_def)
    have v1: "(if arc_iterator v ! s = None \<and> \<not> snd (state_status v ! s) \<and> vvisit v
       then v\<lparr>arc_iterator := (arc_iterator v)[s := Some 0]\<rparr> else v) = ?v"
      using len b False list_update_id [of "arc_iterator v" s] by (cases "arc_iterator v ! s") (auto simp: i_def)
    have o: "visit_open f s v = (if i \<ge> NumArcs f s then iter_done s ?v else ?v)"
      unfolding visit_open_def v1 using len by simp
    have ok1: "vars_ok f ?v" using ok i(1) b False s len by (auto simp: vars_ok_def color_of_def nth_list_update)
    have same1: "same_vars f v ?v" using len i(2) b False
      by (auto simp: same_vars_def color_of_def arc_pos_def fun_eq_iff nth_list_update)
    show ?thesis
    proof (cases "i \<ge> NumArcs f s")
      case True
      let ?w = "iter_done s ?v"
      have "vars_ok f ?w" using ok b s len by (auto simp: vars_ok_def iter_done_def color_of_def nth_list_update split: if_splits)
      moreover have "same_vars f v ?w" using len i b True False
        by (auto simp: same_vars_def color_of_def arc_pos_def fun_eq_iff nth_list_update iter_done_def)
      ultimately show ?thesis using o True len b by (simp add: iter_done_def)
    next
      case False
      then show ?thesis using o ok1 same1 len b i \<open>\<not> b\<close> by simp
    qed
  qed
qed

lemma iter_next_view:
  assumes ok: "vars_ok f v" and s: "s < NumStates f" "state_status v ! s = (kGrey, False)" and i: "i < NumArcs f s"
  defines "v' \<equiv> iter_next f s i v"
  shows "vars_ok f v'" "\<And>t. t < NumStates f \<Longrightarrow> color_of v' t = color_of v t" "arc_pos f v' = (arc_pos f v)(s := i + 1)"
    "vqueue v' = vqueue v" "vvisitor v' = vvisitor v"
proof -
  have len: "s < length (arc_iterator v)" "s < length (state_status v)" using ok s by (simp_all add: vars_ok_def)
  show "vars_ok f v'" using ok s i len
    by (auto simp: v'_def iter_next_def Let_def iter_done_def vars_ok_def color_of_def nth_list_update split: if_splits)
  show "color_of v' t = color_of v t" if "t < NumStates f" for t
    using s len by (auto simp: v'_def iter_next_def Let_def iter_done_def color_of_def nth_list_update)
  show "arc_pos f v' = (arc_pos f v)(s := i + 1)"
    using s len i by (auto simp: v'_def iter_next_def Let_def iter_done_def arc_pos_def color_of_def fun_eq_iff nth_list_update)
qed (simp_all add: v'_def iter_next_def Let_def iter_done_def)

text \<open>The view after the arc at position \<open>i\<close> was examined.\<close>

lemma iter_next_examined:
  assumes ok: "vars_ok f v" and s: "s < NumStates f" "state_status v ! s = (kGrey, False)" and i: "i < NumArcs f s" "arc_pos f v s = i"
  shows "discovered f (iter_next f s i v) = discovered f v" "finished f (iter_next f s i v) = finished f v"
    "examined f keep (iter_next f s i v) =
       (if keep (Arcs f s ! i) then (examined f keep v)(s := examined f keep v s @ [Arcs f s ! i]) else examined f keep v)"
    "cost f (iter_next f s i v) s < cost f v s" "t < NumStates f \<Longrightarrow> t \<noteq> s \<Longrightarrow> cost f (iter_next f s i v) t = cost f v t"
proof -
  note N = iter_next_view [OF ok s i(1)]
  have g: "color_of v s = kGrey" using s(2) by (simp add: color_of_def)
  have take: "take (Suc i) (Arcs f s) = take i (Arcs f s) @ [Arcs f s ! i]" using i(1) by (simp add: take_Suc_conv_app_nth NumArcs_def Arcs_def)
  show "discovered f (iter_next f s i v) = discovered f v" "finished f (iter_next f s i v) = finished f v"
    using N(2) by (auto simp: discovered_def finished_def)
  show "examined f keep (iter_next f s i v) =
      (if keep (Arcs f s ! i) then (examined f keep v)(s := examined f keep v s @ [Arcs f s ! i]) else examined f keep v)"
    using s(1) i(2) by (auto simp: examined_def N(3) fun_eq_iff take)
  show "cost f (iter_next f s i v) s < cost f v s" using N(2) [OF s(1)] N(3) i g by (simp add: cost_def)
  show "t < NumStates f \<Longrightarrow> t \<noteq> s \<Longrightarrow> cost f (iter_next f s i v) t = cost f v t" using N(2) [of t] N(3) by (intro cost_cong) simp_all
qed

lemma discover_view:
  fixes Q :: "('q, 'w) queue_ops" and d :: "'w list"
  assumes ok: "vars_ok f v" and s: "s < NumStates f" "color_of v s = kWhite" and go: "snd (v_InitState V s root (vvisitor v))"
  defines "v' \<equiv> discover V Q d root s v"
  shows "vars_ok f v'" "discovered f v' = insert s (discovered f v)" "finished f v' = finished f v"
    "examined f keep v' = examined f keep v" "arc_pos f v' = arc_pos f v" "vqueue v' = q_Enqueue Q d s (vqueue v)"
    "vvisitor v' = fst (v_InitState V s root (vvisitor v))" "cost f v' s < cost f v s"
    "t \<noteq> s \<Longrightarrow> state_status v' ! t = state_status v ! t" "t \<noteq> s \<Longrightarrow> cost f v' t = cost f v t"
proof -
  have len: "s < length (state_status v)" using ok s by (simp add: vars_ok_def)
  have it: "arc_iterator v ! s = None" using ok s by (cases "arc_iterator v ! s") (auto simp: vars_ok_def color_of_def)
  show "vars_ok f v'" using ok s len go it
    by (auto simp: v'_def discover_def Let_def vars_ok_def color_of_def nth_list_update split: if_splits)
  show pos: "arc_pos f v' = arc_pos f v"
    using s len it by (auto simp: v'_def discover_def Let_def arc_pos_def color_of_def fun_eq_iff nth_list_update)
  show "discovered f v' = insert s (discovered f v)" "finished f v' = finished f v"
    using s len by (auto simp: v'_def discover_def Let_def discovered_def finished_def color_of_def nth_list_update)
  show "examined f keep v' = examined f keep v" by (simp add: examined_def fun_eq_iff pos)
  have c: "color_of v' s = kGrey" using len by (simp add: v'_def discover_def Let_def color_of_def)
  show "cost f v' s < cost f v s" using s c by (simp add: cost_def)
  show st: "t \<noteq> s \<Longrightarrow> state_status v' ! t = state_status v ! t" by (simp add: v'_def discover_def Let_def)
  then show "t \<noteq> s \<Longrightarrow> cost f v' t = cost f v t" by (intro cost_cong) (simp_all add: pos color_of_def)
qed (simp_all add: v'_def discover_def Let_def)

lemma finish_view:
  assumes ok: "vars_ok f v" and s: "s < NumStates f" "state_status v ! s = (kGrey, True)" "arc_iterator v ! s = None"
    and v': "v' = v\<lparr>vqueue := q, vvisitor := u, state_status := (state_status v)[s := (kBlack, False)]\<rparr>"
  shows "vars_ok f v'" "discovered f v' = discovered f v" "finished f v' = insert s (finished f v)"
    "examined f keep v' = examined f keep v" "cost f v' s < cost f v s" "t \<noteq> s \<Longrightarrow> cost f v' t = cost f v t"
proof -
  have len: "s < length (state_status v)" using ok s by (simp add: vars_ok_def)
  show "vars_ok f v'" using ok s len by (auto simp: v' vars_ok_def color_of_def nth_list_update split: if_splits)
  have pos: "arc_pos f v' = arc_pos f v"
    using s len by (auto simp: v' arc_pos_def color_of_def fun_eq_iff nth_list_update)
  show "discovered f v' = discovered f v" "finished f v' = insert s (finished f v)"
    using s len by (auto simp: v' discovered_def finished_def color_of_def nth_list_update)
  show "examined f keep v' = examined f keep v" by (simp add: examined_def fun_eq_iff pos)
  show "cost f v' s < cost f v s" using s len by (simp add: cost_def v' color_of_def)
  show "t \<noteq> s \<Longrightarrow> cost f v' t = cost f v t" by (intro cost_cong) (simp_all add: pos, simp add: v' color_of_def)
qed

section \<open>The visitors\<close>

locale visit_visitor = state_queue Q valid ok queued
  for Q :: "('q, 'w) queue_ops" and valid :: "nat \<Rightarrow> bool" and ok :: "'q \<Rightarrow> bool" and queued :: "'q \<Rightarrow> nat set" +
  fixes V :: "('v, 'w) visitor_ops"
    and I :: "'w vfst \<Rightarrow> nat set \<Rightarrow> (nat \<Rightarrow> 'w arc list) \<Rightarrow> nat set \<Rightarrow> 'v \<Rightarrow> bool"
  assumes init_state: "wf_fst f \<Longrightarrow> I f X E F u \<Longrightarrow> s < NumStates f \<Longrightarrow> s \<notin> X \<Longrightarrow>
      snd (v_InitState V s root u) \<and> I f (insert s X) E F (fst (v_InitState V s root u))"
    and white_arc: "wf_fst f \<Longrightarrow> I f X E F u \<Longrightarrow> s \<in> X - F \<Longrightarrow> (s, a) \<in> trans f \<Longrightarrow> nextstate a \<notin> X \<Longrightarrow>
      snd (v_WhiteArc V s a u) \<and> snd (v_InitState V (nextstate a) root (fst (v_WhiteArc V s a u))) \<and>
      I f (insert (nextstate a) X) (E(s := E s @ [a])) F (fst (v_InitState V (nextstate a) root (fst (v_WhiteArc V s a u))))"
    and grey_arc: "wf_fst f \<Longrightarrow> I f X E F u \<Longrightarrow> s \<in> X - F \<Longrightarrow> (s, a) \<in> trans f \<Longrightarrow> nextstate a \<in> X - F \<Longrightarrow>
      snd (v_GreyArc V s a u) \<and> I f X (E(s := E s @ [a])) F (fst (v_GreyArc V s a u))"
    and black_arc: "wf_fst f \<Longrightarrow> I f X E F u \<Longrightarrow> s \<in> X - F \<Longrightarrow> (s, a) \<in> trans f \<Longrightarrow> nextstate a \<in> F \<Longrightarrow>
      snd (v_BlackArc V s a u) \<and> I f X (E(s := E s @ [a])) F (fst (v_BlackArc V s a u))"
    and finish_state: "wf_fst f \<Longrightarrow> I f X E F u \<Longrightarrow> s \<in> X - F \<Longrightarrow> I f X E (insert s F) (v_FinishState V s u)"
begin

definition vis_inv :: "'w vfst \<Rightarrow> ('w arc \<Rightarrow> bool) \<Rightarrow> ('v, 'q) visit_vars \<Rightarrow> bool" where
  "vis_inv f keep v \<longleftrightarrow> wf_fst f \<and> (\<forall>s < NumStates f. valid s) \<and> vars_ok f v \<and> ok (vqueue v) \<and>
     queued (vqueue v) = discovered f v - finished f v \<and>
     I f (discovered f v) (examined f keep v) (finished f v) (vvisitor v)"

text \<open>The head of the queue is a grey state.\<close>

lemma head_grey:
  assumes inv: "vis_inv f keep v" and ne: "\<not> q_Empty Q (vqueue v)"
  shows "q_Head Q (vqueue v) < NumStates f" "color_of v (q_Head Q (vqueue v)) = kGrey"
    "queued (q_Dequeue Q d (vqueue v)) = discovered f v - insert (q_Head Q (vqueue v)) (finished f v)" "ok (q_Dequeue Q d (vqueue v))"
proof -
  have q: "ok (vqueue v)" "queued (vqueue v) = discovered f v - finished f v" using inv by (simp_all add: vis_inv_def)
  have ne': "queued (vqueue v) \<noteq> {}" using ne empty [OF q(1)] by simp
  have "q_Head Q (vqueue v) \<in> discovered f v - finished f v" using head [OF q(1) ne'] q(2) by simp
  then show "q_Head Q (vqueue v) < NumStates f" "color_of v (q_Head Q (vqueue v)) = kGrey"
    by (auto simp: discovered_def finished_def intro: StateColor.exhaust [of "color_of v (q_Head Q (vqueue v))"])
  show "queued (q_Dequeue Q d (vqueue v)) = discovered f v - insert (q_Head Q (vqueue v)) (finished f v)" "ok (q_Dequeue Q d (vqueue v))"
    using dequeue [OF q(1) ne', of d] q(2) by auto
qed

lemma visit_arc_ok:
  assumes inv: "vis_inv f keep v" and s: "s < NumStates f" "state_status v ! s = (kGrey, False)"
    and i: "i < NumArcs f s" "arc_pos f v s = i"
  shows "vis_inv f keep (visit_arc f V Q d keep root s i v) \<and> visit_left f (visit_arc f V Q d keep root s i v) < visit_left f v \<and>
    discovered f v \<subseteq> discovered f (visit_arc f V Q d keep root s i v)"
proof -
  let ?a = "Arcs f s ! i" and ?v = "visit_arc f V Q d keep root s i v"
  let ?t = "nextstate ?a"
  have wf: "wf_fst f" and vo: "vars_ok f v" and q: "ok (vqueue v)" "queued (vqueue v) = discovered f v - finished f v"
    and I: "I f (discovered f v) (examined f keep v) (finished f v) (vvisitor v)" and va: "\<And>s. s < NumStates f \<Longrightarrow> valid s"
    using inv by (simp_all add: vis_inv_def)
  have sX: "s \<in> discovered f v - finished f v" using s by (simp add: discovered_def finished_def color_of_def)
  have a: "(s, ?a) \<in> trans f" using s(1) i(1) by (simp add: trans_iff NumArcs_def Arcs_def)
  then have t: "?t < NumStates f" using wf by (auto simp: wf_fst_def)
  then have r: "visit_resize ?t v = v" using vo by (simp add: visit_resize_id vars_ok_def)
  have advance: "vis_inv f keep (iter_next f s i w) \<and> visit_left f (iter_next f s i w) < visit_left f v \<and> discovered f v \<subseteq> discovered f (iter_next f s i w)"
    if w: "vars_ok f w" "state_status w ! s = (kGrey, False)" "arc_pos f w s = i" "ok (vqueue w)" "queued (vqueue w) = discovered f w - finished f w"
      "examined f keep w = examined f keep v" "discovered f v \<subseteq> discovered f w" "\<And>t. t < NumStates f \<Longrightarrow> cost f w t \<le> cost f v t"
      "I f (discovered f w) (if keep ?a then (examined f keep v)(s := examined f keep v s @ [?a]) else examined f keep v) (finished f w) (vvisitor w)"
    for w
  proof -
    note N = iter_next_view [OF w(1) s(1) w(2) i(1)]
    note E = iter_next_examined [OF w(1) s(1) w(2) i(1) w(3)]
    have "vis_inv f keep (iter_next f s i w)"
      using wf va N(1,4,5) w(4,5,9) E(3) [of keep] w(6) by (cases "keep ?a") (simp_all add: vis_inv_def E(1,2))
    moreover have "visit_left f (iter_next f s i w) < visit_left f v"
    proof (rule visit_left_less [OF s(1)])
      show "cost f (iter_next f s i w) s < cost f v s" using E(4) w(8) [OF s(1)] by simp
      show "cost f (iter_next f s i w) t \<le> cost f v t" if "t < NumStates f" "t \<noteq> s" for t using E(5) [OF that] w(8) [OF that(1)] by simp
    qed
    ultimately show ?thesis using E(1) w(7) by simp
  qed
  note call = visit_call_view [OF vo]
  have white: "state_status v ! ?t = (kWhite, False) \<longleftrightarrow> ?t \<notin> discovered f v" and black: "state_status v ! ?t = (kBlack, False) \<longleftrightarrow> ?t \<in> finished f v"
    using vo t by (cases "state_status v ! ?t"; auto simp: vars_ok_def discovered_def finished_def color_of_def)+
  consider "\<not> keep ?a" | "keep ?a" "?t \<notin> discovered f v" | "keep ?a" "?t \<in> finished f v" | "keep ?a" "?t \<in> discovered f v - finished f v" by blast
  then show ?thesis
  proof cases
    case 1
    then have "?v = iter_next f s i v" by (simp add: visit_arc_def r Let_def)
    then show ?thesis using advance [of v] vo s(2) i(2) q I 1 by simp
  next
    case 2
    let ?u = "vvisitor v"
    note W = white_arc [OF wf I sX a 2(2), of root]
    let ?w = "visit_call (v_WhiteArc V s ?a) v"
    have cw: "vars_ok f ?w" "arc_pos f ?w = arc_pos f v" "discovered f ?w = discovered f v" "finished f ?w = finished f v"
        "examined f keep ?w = examined f keep v" "cost f ?w = cost f v"
      using call W by blast+
    have tw: "color_of ?w ?t = kWhite" using 2(2) t by (simp add: discovered_def color_of_def)
    note D = discover_view [OF cw(1) t tw, where V = V and root = root and Q = Q and d = d]
    let ?x = "discover V Q d root ?t ?w"
    have ts: "s \<noteq> ?t" using 2(2) sX by auto
    have v: "?v = iter_next f s i ?x" using 2 white W by (simp add: visit_arc_def r Let_def)
    have fin: "?t \<notin> finished f v" using 2(2) by (auto simp: discovered_def finished_def)
    show ?thesis unfolding v
    proof (rule advance)
      show "vars_ok f ?x" "examined f keep ?x = examined f keep v" "arc_pos f ?x s = i" "discovered f v \<subseteq> discovered f ?x"
        using D W cw i(2) by auto
      show "state_status ?x ! s = (kGrey, False)" using D(9) [of s] W ts s(2) by simp
      show "ok (vqueue ?x)" "queued (vqueue ?x) = discovered f ?x - finished f ?x"
        using enqueue [OF q(1) va [OF t]] 2(2) q(2) D(2,3,6) W cw fin by auto
      show "cost f ?x t' \<le> cost f v t'" for t' using D(8,10) W cw(6) by (cases "t' = ?t") (auto simp: less_imp_le)
      show "I f (discovered f ?x) (if keep ?a then (examined f keep v)(s := examined f keep v s @ [?a]) else examined f keep v) (finished f ?x) (vvisitor ?x)"
        using W 2(1) D(2,3,7) cw by simp
    qed
  next
    case 3
    note B = black_arc [OF wf I sX a 3(2)]
    have "?t \<in> discovered f v" using 3(2) by (auto simp: discovered_def finished_def)
    then have v: "?v = iter_next f s i (visit_call (v_BlackArc V s ?a) v)" using 3 white black by (simp add: visit_arc_def r Let_def)
    show ?thesis unfolding v by (rule advance) (use call [where c = "v_BlackArc V s ?a"] B s(2) i(2) q 3(1) in simp_all)
  next
    case 4
    note G = grey_arc [OF wf I sX a 4(2)]
    have v: "?v = iter_next f s i (visit_call (v_GreyArc V s ?a) v)" using 4 white black by (simp add: visit_arc_def r Let_def)
    show ?thesis unfolding v by (rule advance) (use call [where c = "v_GreyArc V s ?a"] G s(2) i(2) q 4(1) in simp_all)
  qed
qed

lemma visit_step_ok:
  assumes inv: "vis_inv f keep v" and ne: "\<not> q_Empty Q (vqueue v)"
  shows "vis_inv f keep (visit_step f V Q d keep root v) \<and> visit_left f (visit_step f V Q d keep root v) < visit_left f v \<and>
    discovered f v \<subseteq> discovered f (visit_step f V Q d keep root v)"
proof -
  let ?s = "q_Head Q (vqueue v)"
  have vo: "vars_ok f v" using inv by (simp add: vis_inv_def)
  note H = head_grey [OF inv ne]
  define w where "w = visit_open f ?s v"
  have w: "vars_ok f w" "same_vars f v w" and cs: "state_status w ! ?s = (kGrey, True) \<and> arc_iterator w ! ?s = None \<or>
      state_status w ! ?s = (kGrey, False) \<and> arc_pos f v ?s < NumArcs f ?s \<and> arc_iterator w ! ?s = Some (arc_pos f v ?s)"
    using visit_open_view [OF vo H(1,2)] by (simp_all add: w_def)
  note S = same_vars_view [OF w(2)]
  have wq: "vqueue w = vqueue v" "vvisitor w = vvisitor v" "arc_pos f w = arc_pos f v" using w(2) by (simp_all add: same_vars_def)
  have winv: "vis_inv f keep w" using inv w(1) S(1-3) wq by (simp add: vis_inv_def)
  have left: "visit_left f w = visit_left f v" using S(4) by (simp add: visit_left_def)
  have r: "visit_resize ?s v = v" using H(1) vo by (simp add: visit_resize_id vars_ok_def)
  show ?thesis
  proof (cases "snd (state_status w ! ?s)")
    case False
    then have c: "state_status w ! ?s = (kGrey, False)" "arc_pos f v ?s < NumArcs f ?s" "arc_iterator w ! ?s = Some (arc_pos f v ?s)"
      using cs by auto
    then have "visit_step f V Q d keep root v = visit_arc f V Q d keep root ?s (arc_pos f v ?s) w"
      by (simp add: visit_step_def r w_def [symmetric] Let_def)
    then show ?thesis using visit_arc_ok [OF winv H(1) c(1,2), of d root] wq(3) left S(1) by simp
  next
    case True
    then have c: "state_status w ! ?s = (kGrey, True)" "arc_iterator w ! ?s = None" using cs by auto
    let ?v = "w\<lparr>vqueue := q_Dequeue Q d (vqueue w), vvisitor := v_FinishState V ?s (vvisitor w),
        state_status := (state_status w)[?s := (kBlack, False)]\<rparr>"
    have v: "visit_step f V Q d keep root v = ?v" using c(1) by (simp add: visit_step_def r w_def [symmetric] Let_def)
    note F = finish_view [OF w(1) H(1) c refl]
    have wf: "wf_fst f" and I: "I f (discovered f v) (examined f keep v) (finished f v) (vvisitor v)" using inv by (simp_all add: vis_inv_def)
    have s: "?s \<in> discovered f v - finished f v" using H(1,2) by (simp add: discovered_def finished_def)
    have "vis_inv f keep ?v"
      using inv F(1-4) finish_state [OF wf I s] H(3,4) [of d] wq S(1-3) by (simp add: vis_inv_def)
    moreover have "visit_left f ?v < visit_left f w"
      by (rule visit_left_less [OF H(1)]) (use F(5,6) in simp_all)
    ultimately show ?thesis using v left F(2) S(1) by simp
  qed
qed

lemma visit_tree_ok:
  assumes "vis_inv f keep v"
  shows "\<exists>v'. visit_tree f V Q d keep root v = Some v' \<and> vis_inv f keep v' \<and> discovered f v' = finished f v' \<and>
    discovered f v \<subseteq> discovered f v' \<and> visit_left f v' \<le> visit_left f v"
  using assms
proof (induction "visit_left f v" arbitrary: v rule: less_induct)
  case less
  show ?case
  proof (cases "q_Empty Q (vqueue v)")
    case True
    then have "visit_tree f V Q d keep root v = Some v" by (subst visit_tree.simps) simp
    moreover have "discovered f v - finished f v = {}" using less.prems True empty [of "vqueue v"] by (simp add: vis_inv_def)
    moreover have "finished f v \<subseteq> discovered f v" by (auto simp: discovered_def finished_def)
    ultimately show ?thesis using less.prems by auto
  next
    case False
    let ?v = "visit_step f V Q d keep root v"
    have "visit_tree f V Q d keep root v = visit_tree f V Q d keep root ?v" using False by (subst visit_tree.simps) simp
    moreover note step = visit_step_ok [OF less.prems False, of d root]
    moreover obtain v' where "visit_tree f V Q d keep root ?v = Some v'" "vis_inv f keep v'" "discovered f v' = finished f v'"
        "discovered f ?v \<subseteq> discovered f v'" "visit_left f v' \<le> visit_left f ?v"
      using less.hyps [of ?v] step by blast
    ultimately show ?thesis by (intro exI [of _ v']) auto
  qed
qed

section \<open>The forest\<close>

lemma next_root_spec:
  "(\<forall>s. root \<le> s \<and> s < next_root status root \<longrightarrow> status ! s \<noteq> (kWhite, False)) \<and>
   (next_root status root < length status \<longrightarrow> status ! next_root status root = (kWhite, False)) \<and> root \<le> next_root status root"
proof -
  let ?k = "length (takeWhile (\<lambda>c. c \<noteq> (kWhite, False)) (drop root status))"
  have "status ! s \<noteq> (kWhite, False)" if "root \<le> s" "s < root + ?k" for s
  proof -
    have k: "s - root < ?k" using that by simp
    then have "takeWhile (\<lambda>c. c \<noteq> (kWhite, False)) (drop root status) ! (s - root) = status ! s"
      using that(1) length_takeWhile_le [of "\<lambda>c. c \<noteq> (kWhite, False)" "drop root status"] by (simp add: takeWhile_nth)
    then show ?thesis using nth_mem [OF k] by (metis (mono_tags, lifting) set_takeWhileD)
  qed
  moreover have "status ! (root + ?k) = (kWhite, False)" if "root + ?k < length status"
    using nth_length_takeWhile [of "\<lambda>c. c \<noteq> (kWhite, False)" "drop root status"] that by simp
  ultimately show ?thesis by (simp add: next_root_def)
qed

lemma visit_forest_ok:
  assumes "vis_inv f keep v" "discovered f v = finished f v" "st < NumStates f"
    and "root = st \<and> root \<notin> discovered f v \<or>
      root \<noteq> st \<and> st \<in> discovered f v \<and> {..<root} \<inter> {..<NumStates f} \<subseteq> discovered f v \<and> (root < NumStates f \<longrightarrow> root \<notin> discovered f v)"
  shows "\<exists>v'. visit_forest f V Q d keep access_only st root v = Some v' \<and> vis_inv f keep v' \<and> discovered f v' = finished f v' \<and>
    st \<in> discovered f v' \<and> (\<not> access_only \<longrightarrow> discovered f v' = {..<NumStates f})"
  using assms
proof (induction "visit_left f v" arbitrary: v root rule: less_induct)
  case less
  have vo: "vars_ok f v" and wf: "wf_fst f" and va: "\<And>s. s < NumStates f \<Longrightarrow> valid s"
    and q: "ok (vqueue v)" "queued (vqueue v) = {}"
    and I: "I f (discovered f v) (examined f keep v) (finished f v) (vvisitor v)"
    using less.prems(1,2) by (simp_all add: vis_inv_def)
  have len: "length (state_status v) = NumStates f" "vvisit v" using vo by (simp_all add: vars_ok_def)
  have sub: "discovered f v \<subseteq> {..<NumStates f}" by (auto simp: discovered_def)
  show ?case
  proof (cases "root < NumStates f")
    case False
    then have "visit_forest f V Q d keep access_only st root v = Some v" using len by (subst visit_forest.simps) simp
    then show ?thesis using less.prems False sub by fastforce
  next
    case True
    then have root: "root \<notin> discovered f v" using less.prems(4) by auto
    let ?w = "discover V Q d root root v"
    have go: "snd (v_InitState V root root (vvisitor v))"
        "I f (insert root (discovered f v)) (examined f keep v) (finished f v) (fst (v_InitState V root root (vvisitor v)))"
      using init_state [OF wf I True root] by simp_all
    have white: "color_of v root = kWhite" using root True by (simp add: discovered_def)
    note D = discover_view [OF vo True white go(1), where Q = Q and d = d]
    have rf: "root \<notin> finished f v" using root less.prems(2) by simp
    have "vis_inv f keep ?w"
      using wf va D(1-4,6,7) go(2) enqueue [OF q(1) va [OF True], of d] q(2) root rf less.prems(2) by (auto simp: vis_inv_def)
    moreover have lw: "visit_left f ?w < visit_left f v" by (rule visit_left_less [OF True]) (use D(8,10) in simp_all)
    ultimately obtain u where u: "visit_tree f V Q d keep root ?w = Some u" "vis_inv f keep u" "discovered f u = finished f u"
        "insert root (discovered f v) \<subseteq> discovered f u" "visit_left f u < visit_left f v"
      using visit_tree_ok [of f keep ?w d root] D(2) by fastforce
    have st: "st \<in> discovered f u" using less.prems(4) u(4) by auto
    show ?thesis
    proof (cases access_only)
      case True
      have "visit_forest f V Q d keep access_only st root v = Some u" using \<open>root < NumStates f\<close> len u(1) True by (subst visit_forest.simps) simp
      then show ?thesis using u(2,3) st True by simp
    next
      case False
      let ?b = "if root = st then 0 else root + 1"
      let ?r = "next_root (state_status u) ?b"
      have uo: "vars_ok f u" using u(2) by (simp add: vis_inv_def)
      have status: "state_status u ! s \<noteq> (kWhite, False) \<longleftrightarrow> s \<in> discovered f u" if "s < NumStates f" for s
        using uo that by (cases "state_status u ! s") (auto simp: discovered_def vars_ok_def color_of_def)
      have before: "s \<in> discovered f u" if "s < ?r" "s < NumStates f" for s
      proof (cases "s < ?b")
        case True
        then have "s = root \<or> s \<in> {..<root} \<inter> {..<NumStates f} \<and> root \<noteq> st" using that(2) by (auto split: if_splits)
        then show ?thesis using less.prems(4) u(4) by blast
      next
        case False
        then show ?thesis using next_root_spec [of ?b "state_status u"] that status [of s] by auto
      qed
      have at: "?r \<notin> discovered f u" if "?r < NumStates f"
        using next_root_spec [of ?b "state_status u"] that status [OF that] uo by (simp add: vars_ok_def)
      have rst: "?r \<noteq> st" using at st less.prems(3) by auto
      have "visit_forest f V Q d keep access_only st root v = visit_forest f V Q d keep access_only st ?r u"
        using \<open>root < NumStates f\<close> len u(1) False by (subst visit_forest.simps) simp
      moreover have "{..<?r} \<inter> {..<NumStates f} \<subseteq> discovered f u" using before by blast
      ultimately show ?thesis using less.hyps [OF u(5,2,3) less.prems(3), of ?r] rst st at by simp
    qed
  qed
qed

lemma Visit_ok:
  assumes wf: "wf_fst f" "start f = Some st" and q: "ok q" "queued q = {}" and va: "\<And>s. s < NumStates f \<Longrightarrow> valid s"
    and I: "I f {} (\<lambda>_. []) {} (v_InitVisit V f u)"
  shows "\<exists>u' q' X. Visit f V Q d keep access_only u q = Some (v_FinishVisit V u', q') \<and> ok q' \<and> queued q' = {} \<and>
    I f X (\<lambda>s. if s \<in> X then filter keep (Arcs f s) else []) X u' \<and> X \<subseteq> {..<NumStates f} \<and> st \<in> X \<and> (\<not> access_only \<longrightarrow> X = {..<NumStates f})"
proof -
  have st: "st < NumStates f" using wf by (simp add: wf_fst_def)
  define v where "v = \<lparr>state_status = replicate (NumStates f) (kWhite, False), arc_iterator = replicate (NumStates f) (None :: nat option),
      vqueue = q, vvisitor = v_InitVisit V f u, vvisit = True\<rparr>"
  have view: "discovered f v = {}" "finished f v = {}" "examined f keep v = (\<lambda>_. [])" "vars_ok f v"
    by (auto simp: v_def discovered_def finished_def examined_def arc_pos_def vars_ok_def color_of_def fun_eq_iff)
  then have "vis_inv f keep v" using wf(1) q va I by (simp add: vis_inv_def) (simp add: v_def)
  then obtain v' where v': "visit_forest f V Q d keep access_only st st v = Some v'" "vis_inv f keep v'" "discovered f v' = finished f v'"
      "st \<in> discovered f v'" "\<not> access_only \<longrightarrow> discovered f v' = {..<NumStates f}"
    using visit_forest_ok [of f keep v st st d access_only] view st by auto
  have "examined f keep v' = (\<lambda>s. if s \<in> discovered f v' then filter keep (Arcs f s) else [])"
  proof
    fix s
    show "examined f keep v' s = (if s \<in> discovered f v' then filter keep (Arcs f s) else [])"
    proof (cases "s \<in> discovered f v'")
      case True
      then have "s < NumStates f" "color_of v' s = kBlack" using v'(3) by (auto simp: finished_def)
      then have "arc_pos f v' s = length (Arcs f s)" by (simp add: arc_pos_def NumArcs_def Arcs_def)
      then show ?thesis using True \<open>s < NumStates f\<close> by (simp add: examined_def)
    next
      case False
      then show ?thesis by (auto simp: examined_def arc_pos_def discovered_def)
    qed
  qed
  moreover have "Visit f V Q d keep access_only u q = Some (v_FinishVisit V (vvisitor v'), vqueue v')"
    using wf(2) v'(1) by (simp add: Visit_def v_def)
  moreover have "discovered f v' \<subseteq> {..<NumStates f}" by (auto simp: discovered_def)
  ultimately show ?thesis using v'(2-5) by (auto simp: vis_inv_def)
qed

end

end
