(* ===== verification/UnionFind.thy ===== *)
theory UnionFind
  imports Prelude
begin

text \<open>
  The disjoint-set forest of src/openfst/lib/union-find.h. The fail value is \<open>None\<close>. The loops that follow the parents
  would not end on a cycle, so they are partial functions; the invariant \<open>uf_ok\<close> says that the rank grows along
  the parents, and under it they end. The set of an element is named by its root (\<open>rep\<close>).
\<close>

section \<open>The operations\<close>

record union_find =
  uf_parent :: "nat option list"
  uf_rank :: "nat list"

definition new_UnionFind :: "nat \<Rightarrow> union_find" where
  "new_UnionFind mx = \<lparr>uf_parent = replicate mx None, uf_rank = replicate mx 0\<rparr>"

partial_function (option) find_root :: "nat option list \<Rightarrow> nat \<Rightarrow> nat option" where
  "find_root parent root = (if parent ! root = Some root then Some root else find_root parent (the (parent ! root)))"

partial_function (option) compress :: "nat \<Rightarrow> nat option list \<Rightarrow> nat \<Rightarrow> nat option list option" where
  "compress root parent item =
     (if parent ! item = Some item then Some parent
      else compress root (parent[item := Some root]) (the (parent ! item)))"

text \<open>The outer option says whether the loops end, the inner one whether the element is in a set.\<close>

definition FindSet :: "nat \<Rightarrow> union_find \<Rightarrow> (nat option \<times> union_find) option" where
  "FindSet item u =
     (if item \<ge> length (uf_parent u) \<or> uf_parent u ! item = None then Some (None, u)
      else (case find_root (uf_parent u) item of
              None \<Rightarrow> None
            | Some root \<Rightarrow>
                (case compress root (uf_parent u) item of
                   None \<Rightarrow> None
                 | Some parent \<Rightarrow> Some (Some root, u\<lparr>uf_parent := parent\<rparr>))))"

definition Link :: "nat \<Rightarrow> nat \<Rightarrow> union_find \<Rightarrow> union_find" where
  "Link x y u =
     (if x = y then u
      else if uf_rank u ! x > uf_rank u ! y then u\<lparr>uf_parent := (uf_parent u)[y := Some x]\<rparr>
      else (let u' = u\<lparr>uf_parent := (uf_parent u)[x := Some y]\<rparr>
            in if uf_rank u ! x = uf_rank u ! y then u'\<lparr>uf_rank := (uf_rank u)[y := uf_rank u ! y + 1]\<rparr> else u'))"

text \<open>C++ leaves the order in which the arguments of \<open>Link\<close> are evaluated open; here it is from left to right. Both elements
  must be in a set.\<close>

definition UnionSets :: "nat \<Rightarrow> nat \<Rightarrow> union_find \<Rightarrow> union_find option" where
  "UnionSets x y u =
     (case FindSet x u of
        None \<Rightarrow> None
      | Some (rx, u) \<Rightarrow>
          (case FindSet y u of
             None \<Rightarrow> None
           | Some (ry, u) \<Rightarrow> Some (Link (the rx) (the ry) u)))"

definition MakeSet :: "nat \<Rightarrow> union_find \<Rightarrow> union_find" where
  "MakeSet item u =
     (let u = (if item \<ge> length (uf_parent u)
               then (let nitem = (if item > 0 then 2 * item else 2)
                     in u\<lparr>uf_parent := uf_parent u @ replicate (nitem - length (uf_parent u)) None,
                          uf_rank := uf_rank u @ replicate (nitem - length (uf_rank u)) 0\<rparr>)
               else u)
      in u\<lparr>uf_parent := (uf_parent u)[item := Some item]\<rparr>)"

definition MakeAllSet :: "nat \<Rightarrow> union_find \<Rightarrow> union_find" where
  "MakeAllSet mx u = u\<lparr>uf_parent := map Some [0..<mx], uf_rank := replicate mx 0\<rparr>"

section \<open>The forest\<close>

definition members :: "union_find \<Rightarrow> nat set" where
  "members u = {i. i < length (uf_parent u) \<and> uf_parent u ! i \<noteq> None}"

definition uf_ok :: "union_find \<Rightarrow> bool" where
  "uf_ok u \<longleftrightarrow> length (uf_rank u) = length (uf_parent u) \<and>
     (\<forall>i < length (uf_parent u). \<forall>p. uf_parent u ! i = Some p \<longrightarrow>
        p \<in> members u \<and> (p \<noteq> i \<longrightarrow> uf_rank u ! i < uf_rank u ! p))"

inductive rep :: "nat option list \<Rightarrow> nat \<Rightarrow> nat \<Rightarrow> bool" for parent where
  rep_root: "parent ! i = Some i \<Longrightarrow> rep parent i i"
| rep_step: "parent ! i = Some p \<Longrightarrow> p \<noteq> i \<Longrightarrow> rep parent p r \<Longrightarrow> rep parent i r"

inductive_cases rep_cases: "rep parent i r"

lemma rep_simps: "rep parent i r \<longleftrightarrow> (\<exists>p. parent ! i = Some p \<and> (if p = i then r = i else rep parent p r))"
  by (auto elim: rep_cases intro: rep.intros)

lemma rep_unique: "rep parent i r \<Longrightarrow> rep parent i r' \<Longrightarrow> r = r'"
  by (induction rule: rep.induct) (auto elim: rep_cases)

lemma rep_is_root: "rep parent i r \<Longrightarrow> parent ! r = Some r"
  by (induction rule: rep.induct) auto

lemma find_root_rep: "rep parent i r \<Longrightarrow> find_root parent i = Some r"
  by (induction rule: rep.induct) (subst find_root.simps, simp)+

text \<open>Every element has a root: the rank grows on the way.\<close>

lemma rep_exists:
  assumes ok: "uf_ok u" and i: "i \<in> members u"
  shows "\<exists>r \<in> members u. rep (uf_parent u) i r"
  using i
proof (induction "Max (set (uf_rank u)) - uf_rank u ! i" arbitrary: i rule: less_induct)
  case less
  obtain p where p: "i < length (uf_parent u)" "uf_parent u ! i = Some p" using less.prems by (auto simp: members_def)
  then have pm: "p \<in> members u" and rank: "p \<noteq> i \<Longrightarrow> uf_rank u ! i < uf_rank u ! p" using ok by (auto simp: uf_ok_def)
  show ?case
  proof (cases "p = i")
    case True
    then show ?thesis using p less.prems by (auto intro: rep_root)
  next
    case False
    have "p < length (uf_rank u)" using pm ok by (simp add: members_def uf_ok_def)
    then have "uf_rank u ! p \<le> Max (set (uf_rank u))" by simp
    then have "Max (set (uf_rank u)) - uf_rank u ! p < Max (set (uf_rank u)) - uf_rank u ! i" using rank False by simp
    then obtain r where "r \<in> members u" "rep (uf_parent u) p r" using less.hyps pm by blast
    then show ?thesis using p False by (auto intro: rep_step)
  qed
qed

section \<open>Path compression\<close>

text \<open>Pointing an element to its root changes no root, and neither the rank order.\<close>

lemma rep_compress:
  assumes i: "i < length parent" and r: "rep parent i r"
  shows "rep (parent[i := Some r]) j s \<longleftrightarrow> rep parent j s"
proof
  have root: "parent ! r = Some r" using r by (rule rep_is_root)
  assume "rep (parent[i := Some r]) j s"
  then show "rep parent j s"
  proof induction
    case (rep_root j)
    then show ?case using r root i by (cases "j = i") (auto intro: rep.rep_root)
  next
    case (rep_step j p s)
    show ?case
    proof (cases "j = i")
      case True
      then have "p = r" using rep_step.hyps i by simp
      then have "s = r" using rep_unique [OF rep_step.IH] root by (auto intro: rep.rep_root)
      then show ?thesis using r True by simp
    next
      case False
      then show ?thesis using rep_step by (auto intro: rep.rep_step)
    qed
  qed
next
  have root: "parent ! r = Some r" using r by (rule rep_is_root)
  then have root': "rep (parent[i := Some r]) r r" by (cases "r = i") (auto simp: i intro: rep.rep_root)
  assume "rep parent j s"
  then show "rep (parent[i := Some r]) j s"
  proof induction
    case (rep_root j)
    have "r = j" if "j = i" using rep_unique [OF r] rep_root that by (auto intro: rep.rep_root)
    then show ?case using rep_root i by (cases "j = i") (auto intro: rep.rep_root)
  next
    case (rep_step j p s)
    show ?case
    proof (cases "j = i")
      case True
      have "s = r" using rep_unique [OF r] True rep_step.hyps by (auto intro: rep.rep_step)
      then show ?thesis using root' True i by (cases "r = i") (auto intro: rep.rep_step)
    next
      case False
      then show ?thesis using rep_step by (auto intro: rep.rep_step)
    qed
  qed
qed

lemma uf_ok_parent:
  assumes "uf_ok u" "i \<in> members u"
  shows "\<exists>p. uf_parent u ! i = Some p \<and> p \<in> members u \<and> (p \<noteq> i \<longrightarrow> uf_rank u ! i < uf_rank u ! p)"
  using assms by (auto simp: uf_ok_def members_def)

lemma rep_rank:
  assumes ok: "uf_ok u"
  shows "rep (uf_parent u) i r \<Longrightarrow> i \<in> members u \<Longrightarrow> r \<in> members u \<and> (r \<noteq> i \<longrightarrow> uf_rank u ! i < uf_rank u ! r)"
proof (induction rule: rep.induct)
  case (rep_step i p r)
  have "p \<in> members u" "uf_rank u ! i < uf_rank u ! p" using uf_ok_parent [OF ok rep_step.prems] rep_step.hyps by auto
  then show ?case using rep_step.IH by (cases "r = p") auto
qed simp

lemma compress_step:
  assumes ok: "uf_ok u" and i: "i \<in> members u" and r: "rep (uf_parent u) i r"
  defines "u' \<equiv> u\<lparr>uf_parent := (uf_parent u)[i := Some r]\<rparr>"
  shows "uf_ok u'" "members u' = members u" "\<And>j s. rep (uf_parent u') j s \<longleftrightarrow> rep (uf_parent u) j s"
proof -
  have len: "i < length (uf_parent u)" using i by (simp add: members_def)
  show m: "members u' = members u" using i by (auto simp: members_def u'_def nth_list_update)
  show "rep (uf_parent u') j s \<longleftrightarrow> rep (uf_parent u) j s" for j s using rep_compress [OF len r] by (simp add: u'_def)
  show "uf_ok u'"
    using ok rep_rank [OF ok r i] len unfolding uf_ok_def m by (auto simp: u'_def nth_list_update)
qed

lemma compress_ok:
  assumes "uf_ok u" "i \<in> members u" "rep (uf_parent u) i r"
  shows "\<exists>par. compress r (uf_parent u) i = Some par \<and> uf_ok (u\<lparr>uf_parent := par\<rparr>) \<and>
    members (u\<lparr>uf_parent := par\<rparr>) = members u \<and> (\<forall>j s. rep par j s \<longleftrightarrow> rep (uf_parent u) j s)"
  using assms
proof (induction "Max (set (uf_rank u)) - uf_rank u ! i" arbitrary: u i rule: less_induct)
  case less
  obtain p where p: "uf_parent u ! i = Some p" "p \<in> members u" "p \<noteq> i \<Longrightarrow> uf_rank u ! i < uf_rank u ! p"
    using uf_ok_parent [OF less.prems(1,2)] by blast
  show ?case
  proof (cases "p = i")
    case True
    then have "compress r (uf_parent u) i = Some (uf_parent u)" using p(1) by (subst compress.simps) simp
    then show ?thesis using less.prems by simp
  next
    case False
    let ?u = "u\<lparr>uf_parent := (uf_parent u)[i := Some r]\<rparr>"
    note C = compress_step [OF less.prems]
    have step: "compress r (uf_parent u) i = compress r (uf_parent ?u) p" using p(1) False by (subst compress.simps) simp
    have "p < length (uf_rank u)" using p(2) less.prems(1) by (simp add: members_def uf_ok_def)
    then have "uf_rank u ! p \<le> Max (set (uf_rank u))" by simp
    then have m: "Max (set (uf_rank ?u)) - uf_rank ?u ! p < Max (set (uf_rank u)) - uf_rank u ! i" using p(3) False by simp
    have "rep (uf_parent u) p r" using less.prems(3) p(1) False by (auto simp: rep_simps [of _ i])
    then show ?thesis using less.hyps [OF m C(1)] C(2,3) p(2) unfolding step by simp
  qed
qed

section \<open>What the operations do\<close>

text \<open>The sets are the classes of this relation.\<close>

definition same_set :: "union_find \<Rightarrow> (nat \<times> nat) set" where
  "same_set u = {(i, j). i \<in> members u \<and> j \<in> members u \<and> (\<exists>r. rep (uf_parent u) i r \<and> rep (uf_parent u) j r)}"

lemma FindSet_none: "i \<notin> members u \<Longrightarrow> FindSet i u = Some (None, u)"
  by (auto simp: FindSet_def members_def)

lemma FindSet_ok:
  assumes ok: "uf_ok u" and i: "i \<in> members u"
  shows "\<exists>r u'. FindSet i u = Some (Some r, u') \<and> rep (uf_parent u) i r \<and> r \<in> members u \<and> uf_ok u' \<and> members u' = members u \<and>
    (\<forall>j s. rep (uf_parent u') j s \<longleftrightarrow> rep (uf_parent u) j s)"
proof -
  obtain r where r: "r \<in> members u" "rep (uf_parent u) i r" using rep_exists [OF ok i] by blast
  obtain par where "compress r (uf_parent u) i = Some par" "uf_ok (u\<lparr>uf_parent := par\<rparr>)"
      "members (u\<lparr>uf_parent := par\<rparr>) = members u" "\<forall>j s. rep par j s \<longleftrightarrow> rep (uf_parent u) j s"
    using compress_ok [OF ok i r(2)] by blast
  then show ?thesis using i r find_root_rep [OF r(2)] by (auto simp: FindSet_def members_def)
qed

lemma rep_cong:
  assumes S: "\<And>j. j \<in> S \<Longrightarrow> par' ! j = par ! j" "\<And>j p. j \<in> S \<Longrightarrow> par ! j = Some p \<Longrightarrow> p \<in> S" and i: "i \<in> S"
  shows "rep par' i r \<longleftrightarrow> rep par i r"
proof
  show "rep par i r" if "rep par' i r" using that i by induction (auto simp: S intro: rep.intros dest: S(2))
  show "rep par' i r" if "rep par i r" using that i by induction (auto simp: S intro: rep.intros dest: S(2))
qed

lemma MakeSet_sel:
  assumes "length (uf_rank u) = length (uf_parent u)"
  shows "i < length (uf_parent (MakeSet i u))" "length (uf_parent u) \<le> length (uf_parent (MakeSet i u))"
    "length (uf_rank (MakeSet i u)) = length (uf_parent (MakeSet i u))"
    "j < length (uf_parent (MakeSet i u)) \<Longrightarrow>
      uf_parent (MakeSet i u) ! j = (if j = i then Some i else if j < length (uf_parent u) then uf_parent u ! j else None)"
    "j < length (uf_parent u) \<Longrightarrow> uf_rank (MakeSet i u) ! j = uf_rank u ! j"
  using assms by (auto simp: MakeSet_def Let_def nth_list_update nth_append)

lemma MakeSet_ok:
  assumes ok: "uf_ok u" and i: "i \<notin> members u"
  shows "uf_ok (MakeSet i u)" "members (MakeSet i u) = insert i (members u)" "same_set (MakeSet i u) = insert (i, i) (same_set u)"
proof -
  let ?u = "MakeSet i u"
  have len: "length (uf_rank u) = length (uf_parent u)" using ok by (simp add: uf_ok_def)
  note S = MakeSet_sel [OF len, where i = i]
  show m: "members ?u = insert i (members u)" using S(1,2) S(4) by (fastforce simp: members_def split: if_splits)
  have par: "uf_parent ?u ! j = uf_parent u ! j" "uf_rank ?u ! j = uf_rank u ! j" if "j \<in> members u" for j
    using that i S(2) S(4) [of j] S(5) [of j] by (auto simp: members_def)
  have self: "uf_parent ?u ! i = Some i" using S(1) S(4) [of i] by simp
  have "\<exists>p. uf_parent ?u ! j = Some p \<and> p \<in> members ?u \<and> (p \<noteq> j \<longrightarrow> uf_rank ?u ! j < uf_rank ?u ! p)" if "j \<in> members ?u" for j
    using that uf_ok_parent [OF ok, of j] par self unfolding m by (cases "j = i") auto
  then show "uf_ok ?u" using S(3) by (fastforce simp: uf_ok_def members_def)
  have rep: "rep (uf_parent ?u) j r \<longleftrightarrow> rep (uf_parent u) j r" if "j \<in> members u" for j r
    using that by (intro rep_cong [where S = "members u"]) (use par uf_ok_parent [OF ok] in fastforce)+
  have rep_i: "rep (uf_parent ?u) i r \<longleftrightarrow> r = i" for r using self by (simp add: rep_simps [of _ i])
  have old: "r \<in> members u" if "rep (uf_parent u) j r" "j \<in> members u" for j r using rep_rank [OF ok that] by blast
  have "(j, k) \<in> same_set ?u \<longleftrightarrow> (j, k) = (i, i) \<or> (j, k) \<in> same_set u" for j k
    using i rep [of j] rep [of k] rep_i old [of j i] old [of k i] unfolding same_set_def m by (cases "j = i"; cases "k = i") auto
  then show "same_set ?u = insert (i, i) (same_set u)" by auto
qed

text \<open>Linking two roots: the elements below \<open>x\<close> come below \<open>y\<close>.\<close>

lemma rep_link:
  assumes x: "x < length par" "par ! x = Some x" and y: "par ! y = Some y" "x \<noteq> y"
  shows "rep (par[x := Some y]) i r \<longleftrightarrow> (\<exists>q. rep par i q \<and> r = (if q = x then y else q))"
proof
  have y': "rep (par[x := Some y]) y y" using y by (auto intro: rep_root)
  show "rep (par[x := Some y]) i r" if q: "\<exists>q. rep par i q \<and> r = (if q = x then y else q)"
  proof -
    obtain q where "rep par i q" "r = (if q = x then y else q)" using q by blast
    then show ?thesis
    proof (induction arbitrary: r)
      case (rep_root i)
      then show ?case using x y' y(2) by (cases "i = x") (auto intro: rep.rep_step rep.rep_root)
    next
      case (rep_step i p q)
      then have "i \<noteq> x" using x(2) by auto
      then show ?case using rep_step by (auto intro: rep.rep_step)
    qed
  qed
  show "\<exists>q. rep par i q \<and> r = (if q = x then y else q)" if "rep (par[x := Some y]) i r"
    using that
  proof induction
    case (rep_root i)
    then have "i \<noteq> x" using x y(2) by auto
    then show ?case using rep_root by (auto intro: rep.rep_root)
  next
    case (rep_step i p r)
    show ?case
    proof (cases "i = x")
      case True
      then have "p = y" using rep_step.hyps(1) x(1) by simp
      then obtain q where q: "rep par y q" "r = (if q = x then y else q)" using rep_step.IH by blast
      have "q = y" using rep_unique [OF q(1) rep.rep_root [OF y(1)]] .
      then show ?thesis using q(2) True x(2) by (auto intro: rep.rep_root)
    next
      case False
      then show ?thesis using rep_step by (auto intro: rep.rep_step)
    qed
  qed
qed

definition linked :: "nat \<Rightarrow> nat \<Rightarrow> union_find \<Rightarrow> union_find \<Rightarrow> bool" where
  "linked x y u u' \<longleftrightarrow> uf_ok u' \<and> members u' = members u \<and>
     (\<forall>i r. rep (uf_parent u') i r \<longleftrightarrow> (\<exists>q. rep (uf_parent u) i q \<and> r = (if q = x then y else q)))"

lemma link_one:
  assumes ok: "uf_ok u" and x: "x \<in> members u" "uf_parent u ! x = Some x" and y: "y \<in> members u" "uf_parent u ! y = Some y" "x \<noteq> y"
    and rank: "length rank = length (uf_rank u)" "\<And>i. i \<noteq> y \<Longrightarrow> rank ! i = uf_rank u ! i" "uf_rank u ! y \<le> rank ! y" "uf_rank u ! x < rank ! y"
  defines "u' \<equiv> u\<lparr>uf_parent := (uf_parent u)[x := Some y], uf_rank := rank\<rparr>"
  shows "linked x y u u'"
proof -
  have len: "x < length (uf_parent u)" using x(1) by (simp add: members_def)
  have rep: "rep (uf_parent u') i r \<longleftrightarrow> (\<exists>q. rep (uf_parent u) i q \<and> r = (if q = x then y else q))" for i r
    unfolding u'_def using rep_link [OF len x(2) y(2,3)] by simp
  have m: "members u' = members u" using len x(2) by (auto simp: members_def u'_def nth_list_update)
  have "p \<in> members u \<and> (p \<noteq> j \<longrightarrow> rank ! j < rank ! p)"
    if j: "j < length (uf_parent u)" "(uf_parent u)[x := Some y] ! j = Some p" for j p
  proof (cases "j = x")
    case True
    then show ?thesis using j len y rank by auto
  next
    case False
    then have p: "uf_parent u ! j = Some p" using j(2) by simp
    then have q: "p \<in> members u" "p \<noteq> j \<Longrightarrow> uf_rank u ! j < uf_rank u ! p" using ok j(1) by (auto simp: uf_ok_def)
    moreover have "j \<noteq> y" if "p \<noteq> j" using that p y(2) by auto
    ultimately show ?thesis using rank(2) [of j] rank(2) [of p] rank(3) by (cases "p = y") auto
  qed
  then have "uf_ok u'" using ok rank(1) unfolding uf_ok_def m by (auto simp: u'_def)
  then show ?thesis using m rep by (simp add: linked_def)
qed

lemma Link_ok:
  assumes ok: "uf_ok u" and x: "x \<in> members u" "uf_parent u ! x = Some x" and y: "y \<in> members u" "uf_parent u ! y = Some y"
  shows "linked x y u (Link x y u) \<or> linked y x u (Link x y u)"
proof -
  consider "x = y" | "x \<noteq> y" "uf_rank u ! y < uf_rank u ! x" | "x \<noteq> y" "uf_rank u ! x < uf_rank u ! y" | "x \<noteq> y" "uf_rank u ! x = uf_rank u ! y"
    by linarith
  then show ?thesis
  proof cases
    case 1
    then show ?thesis using ok by (simp add: Link_def linked_def)
  next
    case 2
    have "Link x y u = u\<lparr>uf_parent := (uf_parent u)[y := Some x], uf_rank := uf_rank u\<rparr>" using 2 by (simp add: Link_def)
    then show ?thesis using link_one [OF ok y x 2(1) [symmetric] refl refl order.refl 2(2)] by simp
  next
    case 3
    have "Link x y u = u\<lparr>uf_parent := (uf_parent u)[x := Some y], uf_rank := uf_rank u\<rparr>" using 3 by (simp add: Link_def)
    then show ?thesis using link_one [OF ok x y 3(1) refl refl order.refl 3(2)] by simp
  next
    case 4
    let ?rank = "(uf_rank u)[y := uf_rank u ! y + 1]"
    have len: "y < length (uf_rank u)" using ok y(1) by (simp add: uf_ok_def members_def)
    have "Link x y u = u\<lparr>uf_parent := (uf_parent u)[x := Some y], uf_rank := ?rank\<rparr>" using 4 by (simp add: Link_def Let_def)
    then show ?thesis using link_one [OF ok x y 4(1), of ?rank] len 4(2) by simp
  qed
qed

lemma UnionSets_ok:
  assumes ok: "uf_ok u" and x: "x \<in> members u" and y: "y \<in> members u"
  shows "\<exists>u'. UnionSets x y u = Some u' \<and> uf_ok u' \<and> members u' = members u \<and>
    (\<forall>i j. (i, j) \<in> same_set u' \<longleftrightarrow>
       (i, j) \<in> same_set u \<or> (i, x) \<in> same_set u \<and> (y, j) \<in> same_set u \<or> (i, y) \<in> same_set u \<and> (x, j) \<in> same_set u)"
proof -
  obtain rx u1 where 1: "FindSet x u = Some (Some rx, u1)" "rep (uf_parent u) x rx" "rx \<in> members u" "uf_ok u1" "members u1 = members u"
      "\<forall>j s. rep (uf_parent u1) j s \<longleftrightarrow> rep (uf_parent u) j s"
    using FindSet_ok [OF ok x] by blast
  obtain ry u2 where 2: "FindSet y u1 = Some (Some ry, u2)" "rep (uf_parent u) y ry" "ry \<in> members u" "uf_ok u2" "members u2 = members u"
      "\<forall>j s. rep (uf_parent u2) j s \<longleftrightarrow> rep (uf_parent u) j s"
    using FindSet_ok [OF 1(4), of y] y 1(5,6) by auto
  have roots: "uf_parent u2 ! rx = Some rx" "uf_parent u2 ! ry = Some ry"
    using 1(2) 2(2,6) rep_is_root [of "uf_parent u2" x rx] rep_is_root [of "uf_parent u2" y ry] by simp_all
  have "linked rx ry u2 (Link rx ry u2) \<or> linked ry rx u2 (Link rx ry u2)"
    using 1(3) 2(3,5) by (intro Link_ok [OF 2(4) _ roots(1) _ roots(2)]) simp_all
  then obtain a b where l: "linked a b u2 (Link rx ry u2)" and ab1: "{a, b} = {rx, ry}" by (elim disjE) (fast, blast)
  have ab: "{a, b} = {rx, ry}" "uf_ok (Link rx ry u2)" "members (Link rx ry u2) = members u"
      "rep (uf_parent (Link rx ry u2)) i r \<longleftrightarrow> (\<exists>q. rep (uf_parent u) i q \<and> r = (if q = a then b else q))" for i r
    using l ab1 2(5,6) by (simp_all add: linked_def)
  have "(i, j) \<in> same_set (Link rx ry u2) \<longleftrightarrow>
    (i, j) \<in> same_set u \<or> (i, x) \<in> same_set u \<and> (y, j) \<in> same_set u \<or> (i, y) \<in> same_set u \<and> (x, j) \<in> same_set u" for i j
  proof (cases "i \<in> members u \<and> j \<in> members u")
    case True
    then obtain ri rj where r: "rep (uf_parent u) i ri" "rep (uf_parent u) j rj" using rep_exists [OF ok] by blast
    have eq: "rep (uf_parent u) k r \<longleftrightarrow> r = rk" if "rep (uf_parent u) k rk" for k r rk using rep_unique [OF that] that by blast
    show ?thesis
      using ab(1) True x y
      by (simp add: same_set_def ab(3,4) eq [OF r(1)] eq [OF r(2)] eq [OF 1(2)] eq [OF 2(2)]) (auto simp: doubleton_eq_iff)
  next
    case False
    then show ?thesis using ab(3) by (auto simp: same_set_def)
  qed
  then show ?thesis using ab(2,3) 1(1) 2(1) by (simp add: UnionSets_def)
qed

lemma MakeAllSet_ok:
  "uf_ok (MakeAllSet n u)" "members (MakeAllSet n u) = {..<n}" "same_set (MakeAllSet n u) = Id_on {..<n}"
proof -
  show m: "members (MakeAllSet n u) = {..<n}" by (auto simp: members_def MakeAllSet_def)
  show "uf_ok (MakeAllSet n u)" unfolding uf_ok_def m by (auto simp: MakeAllSet_def)
  have "rep (uf_parent (MakeAllSet n u)) i r \<longleftrightarrow> r = i" if "i < n" for i r
    using that by (subst rep_simps) (simp add: MakeAllSet_def)
  then show "same_set (MakeAllSet n u) = Id_on {..<n}" unfolding same_set_def m by auto
qed

end
