(* ===== verification/CcVisitor.thy ===== *)
theory CcVisitor
  imports VisitLaws UnionFind
begin

text \<open>
  \<open>CcVisitor\<close> of src/openfst/lib/cc-visitors.h: the connected components of an FST seen as an undirected graph, by
  union-find. It is a visitor of the visitation in queue order (theory Visit). A member function in which a loop of the
  union-find does not end leaves the state \<open>None\<close>.
\<close>

section \<open>The visitor\<close>

record cc_visitor =
  cc_comps :: union_find
  cc_nstates :: nat
  cc_vector :: "nat option list option"  \<comment> \<open>\<open>None\<close> if the visitor was given no vector\<close>

definition new_CcVisitor :: cc_visitor where
  "new_CcVisitor = \<lparr>cc_comps = new_UnionFind 0, cc_nstates = 0, cc_vector = Some []\<rparr>"

definition new_CcVisitor_comps :: "union_find \<Rightarrow> cc_visitor" where
  "new_CcVisitor_comps comps = \<lparr>cc_comps = comps, cc_nstates = 0, cc_vector = None\<rparr>"

definition cc_InitState :: "nat \<Rightarrow> cc_visitor \<Rightarrow> cc_visitor option" where
  "cc_InitState s u =
     (let u = u\<lparr>cc_nstates := cc_nstates u + 1\<rparr>
      in case FindSet s (cc_comps u) of
           None \<Rightarrow> None
         | Some (r, c) \<Rightarrow> Some (u\<lparr>cc_comps := (if r = None then MakeSet s c else c)\<rparr>))"

definition cc_Union :: "nat \<Rightarrow> nat \<Rightarrow> cc_visitor \<Rightarrow> cc_visitor option" where
  "cc_Union s t u = map_option (\<lambda>c. u\<lparr>cc_comps := c\<rparr>) (UnionSets s t (cc_comps u))"

definition cc_WhiteArc :: "nat \<Rightarrow> 'w arc \<Rightarrow> cc_visitor \<Rightarrow> cc_visitor option" where
  "cc_WhiteArc s arc u = cc_Union s (nextstate arc) (u\<lparr>cc_comps := MakeSet (nextstate arc) (cc_comps u)\<rparr>)"

text \<open>One round of the loop of \<open>GetCcVector\<close>, and the loop.\<close>

definition cc_number :: "nat \<Rightarrow> nat option list \<Rightarrow> nat \<Rightarrow> union_find \<Rightarrow> (nat option list \<times> nat \<times> union_find) option" where
  "cc_number s cc ncomp comps =
     (case FindSet s comps of
        None \<Rightarrow> None
      | Some (r, comps) \<Rightarrow>
          (let r = the r;
               (cc, ncomp) = (if cc ! r = None then (cc[r := Some ncomp], ncomp + 1) else (cc, ncomp))
           in Some (cc[s := cc ! r], ncomp, comps)))"

primrec cc_numbers :: "nat list \<Rightarrow> nat option list \<Rightarrow> nat \<Rightarrow> union_find \<Rightarrow> (nat option list \<times> nat \<times> union_find) option" where
  "cc_numbers [] cc ncomp comps = Some (cc, ncomp, comps)"
| "cc_numbers (s # ss) cc ncomp comps =
     (case cc_number s cc ncomp comps of
        None \<Rightarrow> None
      | Some (cc, ncomp, comps) \<Rightarrow> cc_numbers ss cc ncomp comps)"

definition GetCcVector :: "cc_visitor \<Rightarrow> (nat option list \<times> nat \<times> cc_visitor) option" where
  "GetCcVector u =
     (case cc_numbers [0..<cc_nstates u] (replicate (cc_nstates u) None) 0 (cc_comps u) of
        None \<Rightarrow> None
      | Some (cc, ncomp, comps) \<Rightarrow> Some (cc, ncomp, u\<lparr>cc_comps := comps\<rparr>))"

definition cc_FinishVisit :: "cc_visitor \<Rightarrow> cc_visitor option" where
  "cc_FinishVisit u =
     (if cc_vector u = None then Some u
      else (case GetCcVector u of
              None \<Rightarrow> None
            | Some (cc, _, u) \<Rightarrow> Some (u\<lparr>cc_vector := Some cc\<rparr>)))"

definition CcVisitor :: "(cc_visitor option, 'w) visitor_ops" where
  "CcVisitor =
     \<lparr>v_InitVisit = (\<lambda>_ u. u),
      v_InitState = (\<lambda>s _ u. (Option.bind u (cc_InitState s), True)),
      v_WhiteArc = (\<lambda>s arc u. (Option.bind u (cc_WhiteArc s arc), True)),
      v_GreyArc = (\<lambda>s arc u. (Option.bind u (cc_Union s (nextstate arc)), True)),
      v_BlackArc = (\<lambda>s arc u. (Option.bind u (cc_Union s (nextstate arc)), True)),
      v_FinishState = (\<lambda>_ u. u),
      v_FinishVisit = (\<lambda>u. Option.bind u cc_FinishVisit)\<rparr>"

section \<open>Connection\<close>

text \<open>The states in \<open>X\<close> that are connected by edges in \<open>C\<close>, in either direction.\<close>

definition connected :: "(nat \<times> nat) set \<Rightarrow> nat set \<Rightarrow> (nat \<times> nat) set" where
  "connected C X = {(i, j). i \<in> X \<and> j \<in> X \<and> (i, j) \<in> (C \<union> C\<inverse>)\<^sup>*}"

lemma connected_new:
  assumes C: "C \<subseteq> X \<times> X" and t: "t \<notin> X"
  shows "connected C (insert t X) = insert (t, t) (connected C X)"
proof -
  have "j = t" if "(t, j) \<in> (C \<union> C\<inverse>)\<^sup>*" for j using that C t by (auto elim: converse_rtranclE)
  moreover have "i = t" if "(i, t) \<in> (C \<union> C\<inverse>)\<^sup>*" for i using that C t by (auto elim: rtranclE)
  ultimately show ?thesis by (auto simp: connected_def)
qed

lemma connected_edge:
  assumes "x \<in> X" "y \<in> X"
  shows "(i, j) \<in> connected (insert (x, y) C) X \<longleftrightarrow>
    (i, j) \<in> connected C X \<or> (i, x) \<in> connected C X \<and> (y, j) \<in> connected C X \<or> (i, y) \<in> connected C X \<and> (x, j) \<in> connected C X"
proof -
  have "insert (x, y) C \<union> (insert (x, y) C)\<inverse> = insert (x, y) (insert (y, x) (C \<union> C\<inverse>))" by auto
  then have "(insert (x, y) C \<union> (insert (x, y) C)\<inverse>)\<^sup>* = (insert (x, y) (insert (y, x) (C \<union> C\<inverse>)))\<^sup>*" by simp
  also have "(i, j) \<in> \<dots> \<longleftrightarrow> (i, j) \<in> (C \<union> C\<inverse>)\<^sup>* \<or> (i, x) \<in> (C \<union> C\<inverse>)\<^sup>* \<and> (y, j) \<in> (C \<union> C\<inverse>)\<^sup>* \<or>
      (i, y) \<in> (C \<union> C\<inverse>)\<^sup>* \<and> (x, j) \<in> (C \<union> C\<inverse>)\<^sup>*"
    unfolding rtrancl_insert by (auto intro: rtrancl_trans)
  finally show ?thesis using assms by (auto simp: connected_def)
qed

definition edge_set :: "(nat \<Rightarrow> 'w arc list) \<Rightarrow> (nat \<times> nat) set" where
  "edge_set E = {(s, nextstate a) | s a. a \<in> set (E s)}"

lemma edge_set_snoc: "edge_set (E(s := E s @ [a])) = insert (s, nextstate a) (edge_set E)"
  by (auto simp: edge_set_def split: if_splits)

section \<open>The invariant\<close>

definition cc_inv :: "'w vfst \<Rightarrow> nat set \<Rightarrow> (nat \<Rightarrow> 'w arc list) \<Rightarrow> nat set \<Rightarrow> cc_visitor option \<Rightarrow> bool" where
  "cc_inv f X E F u \<longleftrightarrow> finite X \<and> F \<subseteq> X \<and> edge_set E \<subseteq> X \<times> X \<and>
     (\<exists>v. u = Some v \<and> uf_ok (cc_comps v) \<and> members (cc_comps v) = X \<and> same_set (cc_comps v) = connected (edge_set E) X \<and>
        cc_nstates v = card X \<and> cc_vector v \<noteq> None)"

text \<open>Joining two states along an arc.\<close>

lemma cc_Union_ok:
  assumes ok: "uf_ok (cc_comps v)" "members (cc_comps v) = X" "same_set (cc_comps v) = connected C X" and x: "x \<in> X" "y \<in> X"
  shows "\<exists>c. cc_Union x y v = Some (v\<lparr>cc_comps := c\<rparr>) \<and> uf_ok c \<and> members c = X \<and> same_set c = connected (insert (x, y) C) X"
proof -
  obtain c where "UnionSets x y (cc_comps v) = Some c" "uf_ok c" "members c = X"
      "\<And>i j. (i, j) \<in> same_set c \<longleftrightarrow> (i, j) \<in> connected (insert (x, y) C) X"
    using UnionSets_ok [OF ok(1), of x y] ok(2,3) x connected_edge [OF x, of _ _ C] by auto
  then show ?thesis by (auto simp: cc_Union_def)
qed

lemma cc_InitState_new:
  assumes "uf_ok (cc_comps v)" "s \<notin> members (cc_comps v)"
  shows "cc_InitState s v = Some (v\<lparr>cc_nstates := cc_nstates v + 1, cc_comps := MakeSet s (cc_comps v)\<rparr>)"
  using FindSet_none [OF assms(2)] by (simp add: cc_InitState_def)

lemma same_set_cong:
  "members u' = members u \<Longrightarrow> \<forall>j s. rep (uf_parent u') j s \<longleftrightarrow> rep (uf_parent u) j s \<Longrightarrow> same_set u' = same_set u"
  by (simp add: same_set_def)

lemma cc_InitState_old:
  assumes "uf_ok (cc_comps v)" "s \<in> members (cc_comps v)"
  shows "\<exists>c. cc_InitState s v = Some (v\<lparr>cc_nstates := cc_nstates v + 1, cc_comps := c\<rparr>) \<and> uf_ok c \<and>
    members c = members (cc_comps v) \<and> same_set c = same_set (cc_comps v)"
proof -
  obtain r c where "FindSet s (cc_comps v) = Some (Some r, c)" "uf_ok c" "members c = members (cc_comps v)"
      "\<forall>j s. rep (uf_parent c) j s \<longleftrightarrow> rep (uf_parent (cc_comps v)) j s"
    using FindSet_ok [OF assms] by blast
  then show ?thesis using same_set_cong [of c "cc_comps v"] by (intro exI [of _ c]) (simp add: cc_InitState_def)
qed

lemma cc_arc_ok:
  assumes inv: "cc_inv f X E F u" and s: "s \<in> X" "nextstate a \<in> X"
  shows "cc_inv f X (E(s := E s @ [a])) F (Option.bind u (cc_Union s (nextstate a)))"
proof -
  obtain v where v: "u = Some v" "uf_ok (cc_comps v)" "members (cc_comps v) = X" "same_set (cc_comps v) = connected (edge_set E) X"
      "cc_nstates v = card X" "cc_vector v \<noteq> None"
    using inv by (auto simp: cc_inv_def)
  then obtain c where "cc_Union s (nextstate a) v = Some (v\<lparr>cc_comps := c\<rparr>)" "uf_ok c" "members c = X"
      "same_set c = connected (edge_set (E(s := E s @ [a]))) X"
    using cc_Union_ok [OF v(2-4) s] by (auto simp: edge_set_snoc)
  then show ?thesis using inv v s by (auto simp: cc_inv_def edge_set_snoc)
qed

lemma cc_axioms: "visit_visitor_axioms (CcVisitor :: (cc_visitor option, 'w) visitor_ops) cc_inv"
proof (unfold_locales, goal_cases)
  case (1 f X E F u s root)
  then obtain v where v: "u = Some v" "uf_ok (cc_comps v)" "members (cc_comps v) = X" "same_set (cc_comps v) = connected (edge_set E) X"
      "cc_nstates v = card X" "cc_vector v \<noteq> None"
    by (auto simp: cc_inv_def)
  have "cc_InitState s v = Some (v\<lparr>cc_nstates := cc_nstates v + 1, cc_comps := MakeSet s (cc_comps v)\<rparr>)"
    using cc_InitState_new [OF v(2)] v(3) 1(4) by simp
  moreover have "same_set (MakeSet s (cc_comps v)) = connected (edge_set E) (insert s X)"
    using MakeSet_ok(3) [OF v(2)] v(3,4) 1(2,4) connected_new [of "edge_set E" X s] by (simp add: cc_inv_def)
  ultimately show ?case
    using 1(2,4) v MakeSet_ok(1,2) [OF v(2), of s] by (auto simp: CcVisitor_def cc_inv_def)
next
  case (2 f X E F u s a root)
  let ?t = "nextstate a"
  obtain v where v: "u = Some v" "uf_ok (cc_comps v)" "members (cc_comps v) = X" "same_set (cc_comps v) = connected (edge_set E) X"
      "cc_nstates v = card X" "cc_vector v \<noteq> None"
    using 2(2) by (auto simp: cc_inv_def)
  let ?v = "v\<lparr>cc_comps := MakeSet ?t (cc_comps v)\<rparr>" and ?X = "insert ?t X"
  have m: "uf_ok (cc_comps ?v)" "members (cc_comps ?v) = ?X" "same_set (cc_comps ?v) = connected (edge_set E) ?X"
    using MakeSet_ok [OF v(2), of ?t] v(3,4) 2(2,5) connected_new [of "edge_set E" X ?t] by (simp_all add: cc_inv_def)
  obtain c where c: "cc_Union s ?t ?v = Some (?v\<lparr>cc_comps := c\<rparr>)" "uf_ok c" "members c = ?X"
      "same_set c = connected (edge_set (E(s := E s @ [a]))) ?X"
    using cc_Union_ok [OF m, of s ?t] 2(3) by (auto simp: edge_set_snoc)
  let ?w = "?v\<lparr>cc_comps := c\<rparr>"
  obtain c' where "cc_InitState ?t ?w = Some (?w\<lparr>cc_nstates := cc_nstates ?w + 1, cc_comps := c'\<rparr>)" "uf_ok c'" "members c' = ?X"
      "same_set c' = connected (edge_set (E(s := E s @ [a]))) ?X"
    using cc_InitState_old [of ?w ?t] c(2-4) by auto
  then show ?case
    using 2(2,3,5) v c(1) by (auto simp: CcVisitor_def cc_WhiteArc_def cc_inv_def edge_set_snoc)
next
  case (3 f X E F u s a)
  then show ?case using cc_arc_ok [of f X E F u s a] by (simp add: CcVisitor_def)
next
  case (4 f X E F u s a)
  then have "nextstate a \<in> X" by (auto simp: cc_inv_def)
  then show ?case using 4 cc_arc_ok [of f X E F u s a] by (simp add: CcVisitor_def)
next
  case (5 f X E F u s)
  then show ?case by (auto simp: CcVisitor_def cc_inv_def)
qed

section \<open>The numbers of the components\<close>

text \<open>
  The vector after the states below \<open>k\<close> were numbered, where \<open>rt\<close> gives the root of each state: the numbered states are
  those and their roots, a state has the number of its root, different roots have different numbers, and the numbers
  are those below \<open>ncomp\<close>.
\<close>

definition numbered :: "(nat \<Rightarrow> nat) \<Rightarrow> nat \<Rightarrow> nat \<Rightarrow> nat option list \<Rightarrow> nat \<Rightarrow> bool" where
  "numbered rt n k cc ncomp \<longleftrightarrow> length cc = n \<and>
     (\<forall>i < n. cc ! i \<noteq> None \<longleftrightarrow> i < k \<or> i \<in> rt ` {..<k}) \<and>
     (\<forall>i < n. \<forall>c. cc ! i = Some c \<longrightarrow> c < ncomp \<and> cc ! rt i = Some c) \<and>
     (\<forall>i < n. \<forall>j < n. cc ! i \<noteq> None \<longrightarrow> cc ! i = cc ! j \<longrightarrow> rt i = rt j) \<and>
     (\<forall>c < ncomp. \<exists>i < n. cc ! i = Some c)"

lemma numberedI:
  assumes "length cc = n" "\<And>i. i < n \<Longrightarrow> cc ! i \<noteq> None \<longleftrightarrow> i < k \<or> i \<in> rt ` {..<k}"
    "\<And>i c. i < n \<Longrightarrow> cc ! i = Some c \<Longrightarrow> c < ncomp \<and> cc ! rt i = Some c"
    "\<And>i j. i < n \<Longrightarrow> j < n \<Longrightarrow> cc ! i \<noteq> None \<Longrightarrow> cc ! i = cc ! j \<Longrightarrow> rt i = rt j" "\<And>c. c < ncomp \<Longrightarrow> \<exists>i < n. cc ! i = Some c"
  shows "numbered rt n k cc ncomp"
  unfolding numbered_def using assms by blast

lemma numbered_old:
  assumes num: "numbered rt n k cc ncomp" and k: "k < n" and rt: "\<And>i. i < n \<Longrightarrow> rt i < n \<and> rt (rt i) = rt i" and c: "cc ! rt k = Some c"
  shows "numbered rt n (Suc k) (cc[k := Some c]) ncomp"
proof -
  let ?cc = "cc[k := Some c]"
  have len: "length cc = n" and dom: "\<And>i. i < n \<Longrightarrow> cc ! i \<noteq> None \<longleftrightarrow> i < k \<or> i \<in> rt ` {..<k}"
    and root: "\<And>i c. i < n \<Longrightarrow> cc ! i = Some c \<Longrightarrow> c < ncomp \<and> cc ! rt i = Some c"
    and inj: "\<And>i j. i < n \<Longrightarrow> j < n \<Longrightarrow> cc ! i \<noteq> None \<Longrightarrow> cc ! i = cc ! j \<Longrightarrow> rt i = rt j"
    and onto: "\<And>c. c < ncomp \<Longrightarrow> \<exists>i < n. cc ! i = Some c"
    using num unfolding numbered_def by blast+
  have rk: "rt k < n" "rt (rt k) = rt k" using rt [OF k] by auto
  have nth: "?cc ! i = (if i = k then Some c else cc ! i)" if "i < n" for i using that len by (auto simp: nth_list_update)
  have same: "cc ! k = Some c" if "cc ! k \<noteq> None"
    using that root [OF k] c by (cases "cc ! k") auto
  have len': "length ?cc = n" using len by simp
  moreover have "?cc ! i \<noteq> None \<longleftrightarrow> i < Suc k \<or> i \<in> rt ` {..<Suc k}" if "i < n" for i
    using dom [OF that] nth [OF that] c by (auto simp: less_Suc_eq lessThan_Suc)
  moreover have "d < ncomp \<and> ?cc ! rt i = Some d" if "i < n" "?cc ! i = Some d" for i d
    using that nth [of i] nth [of "rt i"] root [of i d] root [OF rk(1) c] rt [of i] rk c by (auto split: if_splits)
  moreover have "rt i = rt j" if ij: "i < n" "j < n" "?cc ! i \<noteq> None" "?cc ! i = ?cc ! j" for i j
  proof -
    have old: "\<exists>i' < n. cc ! i' = ?cc ! i \<and> rt i' = rt i" if "i < n" for i
      using nth [OF that] rk c that by (cases "i = k") auto
    obtain i' j' where "i' < n" "cc ! i' = ?cc ! i" "rt i' = rt i" "j' < n" "cc ! j' = ?cc ! j" "rt j' = rt j"
      using old [OF ij(1)] old [OF ij(2)] by blast
    then show ?thesis using inj [of i' j'] ij(3,4) by simp
  qed
  moreover have "\<exists>i < n. ?cc ! i = Some d" if d: "d < ncomp" for d
  proof -
    obtain i where i: "i < n" "cc ! i = Some d" using onto [OF d] by blast
    have "i = k \<Longrightarrow> d = c" using same i(2) by simp
    then show ?thesis using nth [OF i(1)] i by (auto intro!: exI [of _ i])
  qed
  ultimately show ?thesis by (rule numberedI)
qed

lemma numbered_new:
  assumes num: "numbered rt n k cc ncomp" and k: "k < n" and rt: "\<And>i. i < n \<Longrightarrow> rt i < n \<and> rt (rt i) = rt i" and c: "cc ! rt k = None"
  shows "numbered rt n (Suc k) (cc[rt k := Some ncomp, k := Some ncomp]) (Suc ncomp)"
proof -
  let ?cc = "cc[rt k := Some ncomp, k := Some ncomp]"
  have len: "length cc = n" and dom: "\<And>i. i < n \<Longrightarrow> cc ! i \<noteq> None \<longleftrightarrow> i < k \<or> i \<in> rt ` {..<k}"
    and root: "\<And>i c. i < n \<Longrightarrow> cc ! i = Some c \<Longrightarrow> c < ncomp \<and> cc ! rt i = Some c"
    and inj: "\<And>i j. i < n \<Longrightarrow> j < n \<Longrightarrow> cc ! i \<noteq> None \<Longrightarrow> cc ! i = cc ! j \<Longrightarrow> rt i = rt j"
    and onto: "\<And>c. c < ncomp \<Longrightarrow> \<exists>i < n. cc ! i = Some c"
    using num unfolding numbered_def by blast+
  have rk: "rt k < n" "rt (rt k) = rt k" using rt [OF k] by auto
  have nth: "?cc ! i = (if i = k \<or> i = rt k then Some ncomp else cc ! i)" if "i < n" for i
    using that len k rk(1) by (simp add: nth_list_update)
  have free: "cc ! k = None" using root [OF k] c by (cases "cc ! k") auto
  have len': "length ?cc = n" using len by simp
  moreover have "?cc ! i \<noteq> None \<longleftrightarrow> i < Suc k \<or> i \<in> rt ` {..<Suc k}" if "i < n" for i
    using dom [OF that] nth [OF that] by (auto simp: less_Suc_eq lessThan_Suc)
  moreover have "d < Suc ncomp \<and> ?cc ! rt i = Some d" if "i < n" "?cc ! i = Some d" for i d
    using that nth [of i] nth [of "rt i"] root [of i d] rt [of i] rk c free by (auto split: if_splits)
  moreover have "rt i = rt j" if ij: "i < n" "j < n" "?cc ! i \<noteq> None" "?cc ! i = ?cc ! j" for i j
  proof -
    have new: "?cc ! i = Some ncomp \<longleftrightarrow> i = k \<or> i = rt k" if "i < n" for i using nth [OF that] root [OF that] by auto
    show ?thesis
    proof (cases "?cc ! i = Some ncomp")
      case True
      then show ?thesis using new [OF ij(1)] new [OF ij(2)] ij(4) rk(2) by auto
    next
      case False
      then have "i \<noteq> k \<and> i \<noteq> rt k" "j \<noteq> k \<and> j \<noteq> rt k" using new [OF ij(1)] new [OF ij(2)] ij(4) by auto
      then have "?cc ! i = cc ! i" "?cc ! j = cc ! j" using nth [OF ij(1)] nth [OF ij(2)] by simp_all
      then show ?thesis using inj [OF ij(1,2)] ij(3,4) by metis
    qed
  qed
  moreover have "\<exists>i < n. ?cc ! i = Some d" if d: "d < Suc ncomp" for d
  proof (cases "d = ncomp")
    case True
    then show ?thesis using nth [OF k] k by (auto intro!: exI [of _ k])
  next
    case False
    then obtain i where i: "i < n" "cc ! i = Some d" using onto [of d] d by auto
    then have "i \<noteq> k" "i \<noteq> rt k" using free c by auto
    then show ?thesis using nth [OF i(1)] i by (auto intro!: exI [of _ i])
  qed
  ultimately show ?thesis by (rule numberedI)
qed

text \<open>The loop, from state \<open>k\<close> on.\<close>

lemma cc_numbers_ok:
  assumes rt: "\<And>i. i < n \<Longrightarrow> rt i < n \<and> rt (rt i) = rt i"
  shows "k + m = n \<Longrightarrow> numbered rt n k cc ncomp \<Longrightarrow> uf_ok comps \<Longrightarrow> members comps = {..<n} \<Longrightarrow>
    (\<And>i. i < n \<Longrightarrow> rep (uf_parent comps) i (rt i)) \<Longrightarrow>
    \<exists>cc' ncomp' comps'. cc_numbers [k..<n] cc ncomp comps = Some (cc', ncomp', comps') \<and> numbered rt n n cc' ncomp'"
proof (induction m arbitrary: k cc ncomp comps)
  case 0
  then show ?case by simp
next
  case (Suc m)
  have k: "k < n" "[k..<n] = k # [Suc k..<n]" using Suc.prems(1) by (simp_all add: upt_rec)
  obtain r comps' where F: "FindSet k comps = Some (Some r, comps')" "rep (uf_parent comps) k r" "uf_ok comps'" "members comps' = members comps"
      "\<forall>j s. rep (uf_parent comps') j s \<longleftrightarrow> rep (uf_parent comps) j s"
    using FindSet_ok [OF Suc.prems(3), of k] Suc.prems(4) k(1) by blast
  have r: "r = rt k" using rep_unique [OF F(2)] Suc.prems(5) [OF k(1)] .
  have len: "length cc = n" using Suc.prems(2) by (simp add: numbered_def)
  have "\<exists>cc' ncomp'. cc_number k cc ncomp comps = Some (cc', ncomp', comps') \<and> numbered rt n (Suc k) cc' ncomp'"
  proof (cases "cc ! rt k")
    case None
    then show ?thesis using numbered_new [OF Suc.prems(2) k(1) rt None] F(1) r len rt [OF k(1)] by (simp add: cc_number_def)
  next
    case (Some c)
    then show ?thesis using numbered_old [OF Suc.prems(2) k(1) rt Some] F(1) r by (simp add: cc_number_def)
  qed
  then obtain cc' ncomp' where "cc_number k cc ncomp comps = Some (cc', ncomp', comps')" "numbered rt n (Suc k) cc' ncomp'" by blast
  then show ?case using Suc.IH [of "Suc k" cc' ncomp' comps'] Suc.prems(1,4,5) F(3-5) k(2) by simp
qed

lemma GetCcVector_ok:
  assumes ok: "uf_ok (cc_comps v)" "members (cc_comps v) = {..<n}" "cc_nstates v = n"
  shows "\<exists>cc ncomp v'. GetCcVector v = Some (cc, ncomp, v') \<and> length cc = n \<and> set cc = Some ` {..<ncomp} \<and>
    (\<forall>s < n. \<forall>t < n. cc ! s = cc ! t \<longleftrightarrow> (s, t) \<in> same_set (cc_comps v))"
proof -
  have "\<forall>i. \<exists>r. i < n \<longrightarrow> r < n \<and> rep (uf_parent (cc_comps v)) i r" using rep_exists [OF ok(1)] ok(2) by blast
  then obtain rt where rt: "\<And>i. i < n \<Longrightarrow> rt i < n \<and> rep (uf_parent (cc_comps v)) i (rt i)" by metis
  have idem: "rt i < n \<and> rt (rt i) = rt i" if "i < n" for i
    using rt [OF that] rt [of "rt i"] rep_is_root rep_unique rep_root by metis
  have same: "(s, t) \<in> same_set (cc_comps v) \<longleftrightarrow> rt s = rt t" if "s < n" "t < n" for s t
  proof -
    have eq: "rep (uf_parent (cc_comps v)) i r \<longleftrightarrow> r = rt i" if "i < n" for i r using rt [OF that] rep_unique by blast
    show ?thesis using that by (auto simp: same_set_def ok(2) eq)
  qed
  have "numbered rt n 0 (replicate n None) 0" by (simp add: numbered_def)
  then obtain cc ncomp comps where cc: "cc_numbers [0..<n] (replicate n None) 0 (cc_comps v) = Some (cc, ncomp, comps)" "numbered rt n n cc ncomp"
    using cc_numbers_ok [OF idem add_0 _ ok(1,2)] rt by blast
  have len: "length cc = n" and some: "\<And>i. i < n \<Longrightarrow> \<exists>c. cc ! i = Some c"
    and root: "\<And>i c. i < n \<Longrightarrow> cc ! i = Some c \<Longrightarrow> c < ncomp \<and> cc ! rt i = Some c"
    and inj: "\<And>i j. i < n \<Longrightarrow> j < n \<Longrightarrow> cc ! i = cc ! j \<Longrightarrow> rt i = rt j" and onto: "\<And>c. c < ncomp \<Longrightarrow> \<exists>i < n. cc ! i = Some c"
    using cc(2) unfolding numbered_def by (blast, blast, blast, metis, blast)
  have "set cc = Some ` {..<ncomp}"
  proof
    show "set cc \<subseteq> Some ` {..<ncomp}" using some root len by (fastforce simp: in_set_conv_nth)
    show "Some ` {..<ncomp} \<subseteq> set cc" using onto len by (auto simp: in_set_conv_nth)
  qed
  moreover have "cc ! s = cc ! t \<longleftrightarrow> rt s = rt t" if "s < n" "t < n" for s t
    using that inj [OF that] some [OF that(1)] some [OF that(2)] root by metis
  ultimately show ?thesis using cc(1) len same ok(3) by (auto simp: GetCcVector_def)
qed

section \<open>The components\<close>

interpretation cc_fifo: visit_visitor FifoQueue "\<lambda>_. True" distinct set "CcVisitor :: (cc_visitor option, 'w) visitor_ops" cc_inv
  by (rule visit_visitor.intro [OF fifo.state_queue_axioms cc_axioms])

interpretation cc_lifo: visit_visitor LifoQueue "\<lambda>_. True" distinct set "CcVisitor :: (cc_visitor option, 'w) visitor_ops" cc_inv
  by (rule visit_visitor.intro [OF lifo.state_queue_axioms cc_axioms])

text \<open>The edges that the filter keeps.\<close>

definition kept_edges :: "('w arc \<Rightarrow> bool) \<Rightarrow> 'w vfst \<Rightarrow> (nat \<times> nat) set" where
  "kept_edges keep f = {(s, nextstate a) | s a. (s, a) \<in> trans f \<and> keep a}"

lemma cc_inv_init: "cc_inv f {} (\<lambda>_. []) {} (Some new_CcVisitor)"
  by (simp add: cc_inv_def new_CcVisitor_def new_UnionFind_def uf_ok_def members_def same_set_def connected_def edge_set_def)

lemma cc_components:
  fixes f :: "'w vfst"
  assumes queue: "state_queue Q valid ok queued" "ok q" "queued q = {}" "\<And>s. s < NumStates f \<Longrightarrow> valid s"
    and wf: "wf_fst f" "start f = Some st"
  shows "\<exists>u q' cc ncomp. Visit f CcVisitor Q d keep False (Some new_CcVisitor) q = Some (Some u, q') \<and>
    cc_vector u = Some cc \<and> length cc = NumStates f \<and> set cc = Some ` {..<ncomp} \<and>
    (\<forall>s < NumStates f. \<forall>t < NumStates f. cc ! s = cc ! t \<longleftrightarrow> (s, t) \<in> (kept_edges keep f \<union> (kept_edges keep f)\<inverse>)\<^sup>*)"
proof -
  let ?n = "NumStates f" and ?E = "\<lambda>s. if s < NumStates f then filter keep (Arcs f s) else []"
  have init: "cc_inv f {} (\<lambda>_. []) {} (v_InitVisit CcVisitor f (Some new_CcVisitor))" using cc_inv_init by (simp add: CcVisitor_def)
  let ?V = "CcVisitor :: (cc_visitor option, 'w) visitor_ops"
  have "\<exists>u' q' X. Visit f ?V Q d keep False (Some new_CcVisitor) q = Some (v_FinishVisit ?V u', q') \<and> ok q' \<and> queued q' = {} \<and>
      cc_inv f X (\<lambda>s. if s \<in> X then filter keep (Arcs f s) else []) X u' \<and> X \<subseteq> {..<?n} \<and> st \<in> X \<and> (\<not> False \<longrightarrow> X = {..<?n})"
    by (rule visit_visitor.Visit_ok [OF visit_visitor.intro [OF queue(1) cc_axioms] wf queue(2,3) _ init]) (rule queue(4))
  then obtain u' q' X where X: "Visit f ?V Q d keep False (Some new_CcVisitor) q = Some (v_FinishVisit ?V u', q')"
      "cc_inv f X (\<lambda>s. if s \<in> X then filter keep (Arcs f s) else []) X u'" "X = {..<?n}"
    by blast
  then have V: "Visit f ?V Q d keep False (Some new_CcVisitor) q = Some (v_FinishVisit ?V u', q')" "cc_inv f {..<?n} ?E {..<?n} u'"
    by simp_all
  have E: "edge_set ?E = kept_edges keep f" by (auto simp: edge_set_def kept_edges_def trans_iff)
  obtain v where v: "u' = Some v" "uf_ok (cc_comps v)" "members (cc_comps v) = {..<?n}" "cc_nstates v = ?n" "cc_vector v \<noteq> None"
      "same_set (cc_comps v) = connected (kept_edges keep f) {..<?n}"
    using V(2) unfolding cc_inv_def E by auto
  obtain cc ncomp w where cc: "GetCcVector v = Some (cc, ncomp, w)" "length cc = ?n" "set cc = Some ` {..<ncomp}"
      "\<forall>s < ?n. \<forall>t < ?n. cc ! s = cc ! t \<longleftrightarrow> (s, t) \<in> same_set (cc_comps v)"
    using GetCcVector_ok [OF v(2-4)] by blast
  have "v_FinishVisit ?V u' = Some (w\<lparr>cc_vector := Some cc\<rparr>)" using v(1,5) cc(1) by (auto simp: CcVisitor_def cc_FinishVisit_def)
  then show ?thesis using V(1) cc(2-4) v(6) by (auto simp: connected_def)
qed

end
