(* ===== verification/Spec2Isabelle.thy ===== *)
theory Spec2Isabelle
  imports Samples ArcSum Relabel TestProperties ShortestDistanceLaws CcVisitor
begin

text \<open>
  A verification of the core of OpenFst, a C++ library for weighted finite-state transducers (FSTs).
  All source paths below are relative to src/openfst/lib.

  \<^bold>\<open>The program.\<close> An FST has states with final weights and lists of arcs; an arc has an input label, an
  output label, a weight and a next state; label 0 is epsilon. Weights are elements of a semiring
  class (weight.h and the weight headers). Beside its states an FST stores a 64-bit word of
  properties (properties.h): a pair of bits for each of sixteen questions (is it an acceptor, is it
  cyclic, are arcs sorted, ...), one for "yes" and one for "no". Every mutation and every algorithm
  computes new properties from old ones without looking at the whole machine, and other algorithms
  trust them. Symbol tables (symbol-table.h) give names to labels.

  \<^bold>\<open>Theories and sources.\<close>
  \<^item> Prelude: the collections \<open>prop_bits\<close> and \<open>fst_ops\<close>, and facts on words, lists and relations.
  \<^item> Weight: the operations of a weight class as a record, \<open>Power\<close>, the natural order and the default
    adder; arcs; the laws of weight.h as the locales \<open>weight_monoid\<close>, \<open>left_semiring\<close>,
    \<open>weight_semiring\<close>, \<open>idempotent_weight\<close>, \<open>path_property_weight\<close> and others.
  \<^item> StringWeight, SetWeight, PairWeight: string-weight.h, set-weight.h, pair-weight.h,
    product-weight.h, lexicographic-weight.h, tuple-weight.h, power-weight.h and the gallic weights
    of string-weight.h. Each operation is modelled on the representation (a first label and a list),
    and the locales are interpreted on them.
  \<^item> FstProperties: the constants of properties.h and every function of properties.cc and
    properties.h that maps properties.
  \<^item> VectorFst: vector-fst.h with the parts of fst.h and mutable-fst.h that it uses. The record \<open>vfst\<close> has
    the states, the start state (\<open>kNoStateId\<close> is \<open>None\<close>), the property word and the symbol tables.
    State numbers are \<open>nat\<close>, labels \<open>int\<close>, the counters of epsilons 64-bit words.
  \<^item> FstSemantics, FstPaths: what properties and operations are about: transitions, edges, the meaning of
    every property (\<open>holds\<close>, \<open>props_sound\<close>), well-formedness (\<open>wf_fst\<close>), paths and the relation
    \<open>transduces W f x y w\<close>.
  \<^item> VectorFstProps, VectorFstDelete: the invariant \<open>fst_ok\<close> (well formed, stored properties true)
    under every mutator but \<open>SetProperties(props, mask)\<close>, which stores what its caller asserts, as the step
    relation \<open>mutation\<close>, and what \<open>DeleteStates\<close> and copying do.
  \<^item> Rational, RationalLeft, RationalProps, RationalSound, ConcatSound, ClosureSound: \<open>Union\<close>, \<open>Concat\<close>
    and \<open>Closure\<close> (union.h, concat.h, closure.h, rational.h): the relations they compute and the
    soundness of \<open>UnionProperties\<close>, \<open>ConcatProperties\<close> and \<open>ClosureProperties\<close>.
  \<^item> ArcMap, ArcMapLaws, ArcMapSound: arc-map.h, invert.h, project.h. A mapper is a record of functions;
    the locale \<open>arc_wise\<close> has what holds for every mapper that keeps next states.
  \<^item> StateMap, StateMapLaws, ArcSum: state-map.h and arcsort.h. The locales \<open>rearrangement\<close> and
    \<open>key_rearrangement\<close> have what holds for mappers that rearrange or merge the arcs of a state, and
    \<open>sorting\<close> what \<open>std::sort\<close> promises. \<open>StateMap\<close>, and with it \<open>ArcSort\<close>, leaves an FST without a start state
    as it is.
  \<^item> Relabel: relabel.h.
  \<^item> SymbolTable, SymbolMapLaws, SymbolTableLaws: symbol-table.h, symbol-table.cc and
    compat/checksummer.h. The string hash is an arbitrary function. The probing loops are partial functions, and
    that they end is proved. \<open>AddTable\<close> appends the new symbols of another table with consecutive keys.
  \<^item> DfsVisit, DfsLaws: dfs-visit.h. A visitor is a record of its member functions on a state of its own; the loops
    are partial functions. The locale \<open>dfs_invariant\<close> has the laws that an invariant of a visitor needs, and
    shows that a visit returns and keeps it.
  \<^item> TopSort, StateSortLaws: topsort.h and statesort.h, with the invariants of the visitor and of the
    in-place permutation of states along the cycles of the order.
  \<^item> Tarjan, Connect, SccLaws, ConnectLaws: the strongly connected components of cc-visitors.h, and
    connect.h. Tarjan is an abstract step relation for the algorithm with its invariant; SccLaws shows
    that the visitor on its vectors simulates it.
  \<^item> SccProps, TestProperties: the property bits of that visitor, test-properties.h, and the member function
    \<open>Properties(mask, true)\<close> of impl-to-fst.h.
  \<^item> Heap, HeapLaws: heap.h. The locale \<open>heap_compare\<close> has what the operations need of the comparison.
  \<^item> Queue: the first-in first-out, last-in first-out, shortest-first, topological-order and state-order queues of queue.h. The
    locale \<open>state_queue\<close> is the contract of a queue, and each of them is an interpretation of it.
  \<^item> ShortestDistance, DistanceLaws, DistanceView, ShortestDistanceLaws: \<open>ShortestDistanceState\<close> and \<open>ShortestDistance\<close> with
    options (shortest-distance.h). The loop over the queue is a partial function. DistanceLaws has sums of path weights,
    DistanceView what the vectors of the class stand for, and the locale \<open>distance_algorithm\<close> the invariant and the measure of
    the loop, for every weight and queue with the laws.
  \<^item> UnionFind: union-find.h, with the partition that the forest stands for.
  \<^item> Visit, VisitLaws: \<open>Visit\<close> of visit.h. The locale \<open>visit_visitor\<close> has the laws that an invariant of a visitor needs, and
    shows that a visit with any queue of the contract returns and keeps it.
  \<^item> CcVisitor: the connected components of cc-visitors.h, by \<open>Visit\<close> and union-find.
  \<^item> Samples: small machines on which the properties are instantiated.

  \<^bold>\<open>What is shown.\<close> Every sequence of mutations of a VectorFst, the rational operations and the
  operations on arcs keep the invariant that stored properties are true (C1, C5, C8, C10, C21). The
  operations compute the relations that their comments say (C4, C6, C7, C9, C20, C23, C25). \<open>ArcSort\<close> sorts and the
  mapping with \<open>ArcSumMapper\<close> sums the arcs of every FST with a start state, and both leave the arcs of one without
  (C23, C24).
  The weight classes are semirings of the kinds that they claim, but for the restricted string and set weights, whose
  sum is partial, and their representations refine strings and sets (C11 to C19). Symbol tables refine lists of pairs
  (C27 to C29). Two theorems
  are about defects: the properties that two mappers claim for an FST with a start state and no arcs (C22) and stale check-sums (C30).
  Depth-first visits end (C31); \<open>TopSort\<close>, the visitor for components, \<open>Connect\<close> and \<open>Condense\<close> compute
  what they promise on every FST with a start state (C32 to C35), and C36 is about FSTs without one.
  Computed properties are exactly the true ones (C37).
  The heap refines a priority queue with keys (C38). Shortest distances are the sums of path weights for idempotent
  weights with finitely many path weights, and then the algorithm ends (C39). The connected components
  of an FST with a start state are those of its underlying undirected graph (C40).

  \<^bold>\<open>Conventions.\<close> Loops over iterators are folds over the positions at the start of the loop. Machine
  integers are unbounded except for the property words and the epsilon counters. Calls that the
  source leaves undefined (a state number out of range) are excluded by hypotheses. Memory
  reservation, reference counts and copy-on-write are left out, except where they change a result
  (\<open>DeleteAllStates\<close> of a shared implementation).

  \<^bold>\<open>Not modelled.\<close> Weights over floating-point numbers; input and output of files and text; delayed FSTs and the
  cache; composition, determinization, minimization, epsilon removal, shortest paths; the queues that
  are chosen by the structure of an FST (\<open>SccQueue\<close>, \<open>AutoQueue\<close>) and the interfaces of shortest distance that use them;
  the extensions, the scripting layer and the command-line programs.
\<close>

unbundle bit_operations_syntax

section \<open>The mutable FST\<close>

text \<open>
  C1. Whatever sequence of calls of mutating member functions leads from an empty VectorFst to
  \<open>f\<close> (with state numbers in range, and without \<open>SetProperties(props, mask)\<close>, which stores what its caller
  asserts), \<open>f\<close> is well formed, its epsilon counters are right, and every property bit that is stored in it is true of it.
\<close>

theorem vector_fst_invariant:
  assumes "(mutation W)\<^sup>*\<^sup>* VectorFstImpl f" and "Weq W (Zero W) (Zero W)"
  shows "wf_fst f \<and> props_sound W f (properties f) \<and> bit (properties f) 0 \<and> bit (properties f) 1"
  using fst_ok_reachable [OF assms] by (simp add: fst_ok_def)

theorem vector_fst_invariant_witness: "wf_fst (sample 5) \<and> props_sound SW (sample 5) (properties (sample 5))"
  using vector_fst_invariant [OF sample_mutations sw.Weq_Zero_Zero] by blast

text \<open>
  C2. \<open>DeleteStates\<close> removes exactly the listed states: the states that stay keep their order and
  their final weights, and keep exactly their arcs to states that stay, renumbered; the start
  state is renumbered or becomes \<open>kNoStateId\<close>.
\<close>

theorem delete_states_exact:
  assumes "wf_fst f" and "ds \<noteq> []"
  shows "NumStates (DeleteStates ds f) = length (kept ds (NumStates f)) \<and>
    (\<forall>k < length (kept ds (NumStates f)).
       Final (DeleteStates ds f) k = Final f (kept ds (NumStates f) ! k) \<and>
       Arcs (DeleteStates ds f) k = map (retarget (rank ds))
         (filter (\<lambda>a. nextstate a \<notin> set ds) (Arcs f (kept ds (NumStates f) ! k)))) \<and>
    start (DeleteStates ds f) =
      (case start f of None \<Rightarrow> None | Some s \<Rightarrow> if s \<in> set ds then None else Some (rank ds s))"
  using DeleteStates_obs [OF assms] BaseDeleteStates_spec [OF assms] assms(2)
  by (simp add: DeleteStates_def ImplDeleteStates_def Let_def SetProperties_def NumStates_def Final_def Arcs_def)

theorem delete_states_exact_witness: "NumStates (DeleteStates [0] (sample 5)) = 1 \<and> start (DeleteStates [0] (sample 5)) = None"
  using delete_states_exact [OF sample_wf(1), of "[0]" 5]
  by (simp add: kept_def NumStates_def sample_states upt_rec)

text \<open>C3. The copying constructor reproduces a well-formed FST, with the properties that a copy keeps.\<close>

theorem copy_exact:
  assumes "wf_fst g"
  shows "CopyFst W g = g\<lparr>properties := properties g AND kCopyProperties OR kStaticProperties\<rparr>"
  using assms by (rule CopyFst_eq)

theorem copy_exact_witness: "states (CopyFst SW (sample 5)) = states (sample 5)"
  using copy_exact [OF sample_wf(1), of SW 5] by simp

section \<open>Rational operations\<close>

text \<open>
  C4. \<open>Union\<close>: the result transduces \<open>x\<close> to \<open>y\<close> with weight \<open>w\<close> iff one of the arguments does. The
  stored properties of the first argument are assumed true, since the operation reads
  \<open>kInitialAcyclic\<close> from them.
\<close>

theorem union_relation:
  assumes "weight_monoid W M" and "wf_fst f1" "wf_fst f2" and "weights_in M f1" "weights_in M f2"
    and "props_sound W f1 (properties f1)" and "symbols_match flag f1 f2"
  shows "transduces W (Union flag W f1 f2) x y w \<longleftrightarrow> transduces W f1 x y w \<or> transduces W f2 x y w"
  using weight_monoid.union_transduces [OF assms] .

theorem union_relation_witness:
  "transduces SW (Union True SW (sample 1) (sample 2)) [2] [2] (sw_of_label 2)"
  using union_relation [OF sw.weight_monoid_axioms sample_wf(1) sample_wf(1) sample_weights sample_weights
      sample_wf(2) sample_symbols] sample_transduces [of 2] by simp

text \<open>C5. \<open>Union\<close> keeps the invariant: its result is well formed and its stored properties are true.\<close>

theorem union_invariant:
  assumes "weight_monoid W M" and "fst_ok W f1" and "fst_ok W f2"
  shows "fst_ok W (Union flag W f1 f2)"
  using weight_monoid.union_ok [OF assms] .

theorem union_invariant_witness: "fst_ok SW (Union True SW (sample 1) (sample 2))"
  using union_invariant [OF sw.weight_monoid_axioms sample_ok sample_ok] .

text \<open>
  C6. \<open>Concat(MutableFst *fst1, const Fst &fst2)\<close>, the form that mutates its first argument: the result
  transduces the concatenations of what the arguments transduce, with the products of the weights, if the symbol
  tables are compatible.
\<close>

theorem concat_relation:
  assumes "weight_monoid W M" and "wf_fst f1" "wf_fst f2" and "weights_in M f1" "weights_in M f2"
    and "symbols_match flag f1 f2"
  shows "transduces W (Concat flag W f1 f2) x y w \<longleftrightarrow>
      (\<exists>x1 y1 w1 x2 y2 w2. transduces W f1 x1 y1 w1 \<and> transduces W f2 x2 y2 w2 \<and>
        x = x1 @ x2 \<and> y = y1 @ y2 \<and> w = Times W w1 w2)"
  using weight_monoid.concat_transduces [OF assms] .

theorem concat_relation_witness:
  "transduces SW (Concat True SW (sample 1) (sample 2)) [1, 2] [1, 2] (sw_Times (sw_of_label 1) (sw_of_label 2))"
  using concat_relation [OF sw.weight_monoid_axioms sample_wf(1) sample_wf(1) sample_weights sample_weights
      sample_symbols] sample_transduces [of 1] sample_transduces [of 2] by fastforce

text \<open>C7. The form of \<open>Concat\<close> that mutates its second argument, when the first one has no error.\<close>

theorem concat_left_relation:
  assumes "weight_monoid W M" and "wf_fst f1" "wf_fst f2" and "weights_in M f1" "weights_in M f2"
    and "symbols_match flag f1 f2" and "\<not> has (Properties f1 kFstProperties) kError"
  shows "transduces W (ConcatLeft flag W f1 f2) x y w \<longleftrightarrow>
      (\<exists>x1 y1 w1 x2 y2 w2. transduces W f1 x1 y1 w1 \<and> transduces W f2 x2 y2 w2 \<and>
        x = x1 @ x2 \<and> y = y1 @ y2 \<and> w = Times W w1 w2)"
  using weight_monoid.concat_left_transduces [OF assms] .

theorem concat_left_relation_witness:
  "transduces SW (ConcatLeft True SW (sample 1) (sample 2)) [1, 2] [1, 2] (sw_Times (sw_of_label 1) (sw_of_label 2))"
  using concat_left_relation [OF sw.weight_monoid_axioms sample_wf(1) sample_wf(1) sample_weights sample_weights
      sample_symbols sample_no_error] sample_transduces [of 1] sample_transduces [of 2] by fastforce

text \<open>C8. Both forms of \<open>Concat\<close> keep the invariant.\<close>

theorem concat_invariant:
  assumes "fst_ok W f1" and "fst_ok W f2" and "Weq W (Zero W) (Zero W)"
  shows "fst_ok W (Concat flag W f1 f2) \<and> fst_ok W (ConcatLeft flag W f1 f2)"
  using concat_ok [OF assms] concat_left_ok [OF assms] by blast

theorem concat_invariant_witness: "fst_ok SW (Concat True SW (sample 1) (sample 2))"
  using concat_invariant [OF sample_ok sample_ok sw.Weq_Zero_Zero] by blast

text \<open>
  C9. \<open>Closure\<close> transduces the concatenations of one or more of the pairs that its argument
  transduces, and with \<open>CLOSURE_STAR\<close> the empty pair of strings with weight \<open>One()\<close> too.
\<close>

theorem closure_relation:
  assumes "weight_monoid W M" and "wf_fst f" and "weights_in M f"
  shows "transduces W (Closure W t f) x y w \<longleftrightarrow>
    iterated W f x y w \<or> t = CLOSURE_STAR \<and> x = [] \<and> y = [] \<and> w = One W"
  using weight_monoid.closure_transduces [OF assms] .

theorem closure_relation_witness: "transduces SW (Closure SW CLOSURE_STAR (sample 1)) [] [] sw_One"
  using closure_relation [OF sw.weight_monoid_axioms sample_wf(1) sample_weights] by simp

text \<open>C10. \<open>Closure\<close> keeps the invariant.\<close>

theorem closure_invariant:
  assumes "weight_monoid W M" and "fst_ok W f"
  shows "fst_ok W (Closure W t f)"
  using weight_monoid.closure_ok [OF assms] .

theorem closure_invariant_witness: "fst_ok SW (Closure SW CLOSURE_PLUS (sample 1))"
  using closure_invariant [OF sw.weight_monoid_axioms sample_ok] .

section \<open>Weights\<close>

text \<open>
  C11. String weights: on well-formed weights, \<open>Times\<close> is concatenation, and the \<open>Plus\<close> of the left
  (right) string weight is the longest common prefix (suffix), with an infinite string that is
  neutral for \<open>Plus\<close> and absorbing for \<open>Times\<close>.
\<close>

theorem string_weight_refines:
  assumes "sw_ok v" and "sw_ok w"
  shows "sw_ok (sw_Times v w) \<and> sw_abs (sw_Times v w) = str_Times (sw_abs v) (sw_abs w) \<and>
    sw_ok (sw_Plus STRING_LEFT v w) \<and>
    sw_abs (sw_Plus STRING_LEFT v w) = str_join common_prefix (sw_abs v) (sw_abs w) \<and>
    sw_ok (sw_Plus STRING_RIGHT v w) \<and>
    sw_abs (sw_Plus STRING_RIGHT v w) = str_join common_suffix (sw_abs v) (sw_abs w)"
  using sw_ok_ops [OF assms] by (simp add: sw_Plus_def)

theorem string_weight_refines_witness:
  "sw_abs (sw_Plus STRING_LEFT (sw_of_label 1) sw_Zero) = sw_abs (sw_of_label 1)"
  using string_weight_refines [OF sw_of_label_ok [of 1] sw_ok_special(1)]
  by (simp add: sw_ok_special str_join_def split: option.split)

text \<open>
  C12. The left string weight is a left semiring and the right string weight a right semiring, both
  idempotent, as \<open>Properties()\<close> of the class says.
\<close>

theorem string_weight_semirings:
  "left_semiring (StringWeight STRING_LEFT) sw_ok \<and> idempotent_weight (StringWeight STRING_LEFT) sw_ok \<and>
    right_semiring (StringWeight STRING_RIGHT) sw_ok \<and> idempotent_weight (StringWeight STRING_RIGHT) sw_ok"
  using sw_left.left_semiring_axioms sw_left.idempotent_weight_axioms sw_right.right_semiring_axioms
    sw_right.idempotent_weight_axioms by blast

text \<open>C13. Division undoes multiplication, on the left and on the right.\<close>

theorem string_weight_divide:
  assumes "sw_ok v" and "v \<noteq> sw_Zero" and "sw_ok w"
  shows "sw_Divide STRING_LEFT (sw_Times v w) v DIVIDE_LEFT = w \<and>
    sw_Divide STRING_RIGHT (sw_Times w v) v DIVIDE_RIGHT = w"
  using sw_DivideLeft_Times [OF assms] sw_DivideRight_Times [OF assms]
  by (simp add: sw_Divide_def sw_DivideInLeft_def sw_DivideInRight_def)

theorem string_weight_divide_witness:
  "sw_Divide STRING_LEFT (sw_Times (sw_of_label 1) (sw_of_label 2)) (sw_of_label 1) DIVIDE_LEFT = sw_of_label 2"
  using string_weight_divide [OF sw_of_label_ok [of 1] _ sw_of_label_ok [of 2]] sw_of_label_ok [of 1]
  by (simp add: sw_of_label_def sw_Zero_def sw_PushBack_def sw_empty_def kStringInfinity_def)

text \<open>
  C14. \<open>Reverse\<close> reverses products and exchanges the two \<open>Plus\<close> operations, and reversing twice is
  the identity.
\<close>

theorem string_weight_reverse:
  assumes "sw_ok v" and "sw_ok w"
  shows "sw_Reverse (sw_Times v w) = sw_Times (sw_Reverse w) (sw_Reverse v) \<and>
    sw_Reverse (sw_Plus STRING_LEFT v w) = sw_Plus STRING_RIGHT (sw_Reverse v) (sw_Reverse w) \<and>
    sw_Reverse (sw_Reverse v) = v"
  using assms sw_Reverse_Times sw_Reverse_PlusLeft sw_Reverse_Reverse sw_ok_valid by (simp add: sw_Plus_def)

theorem string_weight_reverse_witness: "sw_Reverse (sw_Reverse (sw_of_label 3)) = sw_of_label 3"
  using string_weight_reverse [OF sw_of_label_ok [of 3] sw_of_label_ok [of 4]] by simp

text \<open>
  C15. \<open>Plus\<close>, \<open>Times\<close> and \<open>Divide\<close> of string and of set weights return \<open>NoWeight()\<close> when an argument is not
  a member, and \<open>Reverse\<close> returns \<open>NoWeight()\<close> for \<open>NoWeight()\<close>.
\<close>

theorem no_weight_absorbs:
  assumes "\<not> sw_Member v \<or> \<not> sw_Member w" and "\<not> st_Member c \<or> \<not> st_Member d"
  shows "sw_Plus S v w = sw_NoWeight \<and> sw_Times v w = sw_NoWeight \<and> sw_Divide S v w t = sw_NoWeight \<and>
    st_Plus T c d = st_NoWeight \<and> st_Times T c d = st_NoWeight \<and> st_Divide T c d = st_NoWeight \<and>
    sw_Reverse sw_NoWeight = sw_NoWeight \<and> st_Reverse st_NoWeight = st_NoWeight"
proof -
  have "sw_Reverse sw_NoWeight = sw_NoWeight" "st_Reverse st_NoWeight = st_NoWeight" by code_simp+
  then show ?thesis using sw_NoWeight_absorbs [OF assms(1), of S t] st_NoWeight_absorbs [OF assms(2), of T] by blast
qed

theorem no_weight_absorbs_witness:
  "sw_Times sw_NoWeight sw_One = sw_NoWeight \<and> st_Times SET_BOOLEAN st_NoWeight EmptySet = st_NoWeight"
proof -
  have "\<not> sw_Member sw_NoWeight" by code_simp
  moreover have "\<not> st_Member st_NoWeight" by code_simp
  ultimately show ?thesis using no_weight_absorbs [of sw_NoWeight sw_One st_NoWeight EmptySet] by blast
qed

text \<open>
  C16. Set weights: \<open>Union\<close>, \<open>Intersect\<close> and \<open>Difference\<close> compute union, intersection and difference of the sets
  (difference for a finite first argument). For the types other than \<open>SET_BOOLEAN\<close> this holds on all
  well-formed weights; for \<open>SET_BOOLEAN\<close>, whose equality identifies all sets but the universal one, it holds on the
  empty and the universal set.
\<close>

theorem set_weight_refines:
  assumes "if S = SET_BOOLEAN then st_bool v \<and> st_bool w else st_ok v \<and> st_ok w"
  shows "st_ok (st_Union S v w) \<and> st_abs (st_Union S v w) = st_abs v \<union> st_abs w \<and>
    st_ok (st_Intersect S v w) \<and> st_abs (st_Intersect S v w) = st_abs v \<inter> st_abs w \<and>
    (v \<noteq> UnivSet \<longrightarrow> st_ok (st_Difference S v w) \<and> st_abs (st_Difference S v w) = st_abs v - st_abs w)"
proof (cases "S = SET_BOOLEAN")
  case True
  then show ?thesis
    using assms st_bool_sets [of v w] st_bool_values by (auto simp: st_bool_def st_ok_special st_Univ_neq_Empty)
next
  case False
  then have "st_ok v" "st_ok w" using assms by simp_all
  then show ?thesis using False st_Union_abs [of S v w] st_Intersect_abs [of S v w] st_Difference_abs [of S v w] by blast
qed

theorem set_weight_refines_witness:
  "st_abs (st_Union SET_UNION_INTERSECT (st_of_range [1, 3]) (st_of_range [2, 3])) = {1, 2, 3} \<and>
    st_abs (st_Union SET_BOOLEAN EmptySet UnivSet) = UNIV"
proof -
  have "st_ok (st_of_range [1, 3])" "st_ok (st_of_range [2, 3])" "st_abs (st_of_range [1, 3]) = {1, 3}"
    "st_abs (st_of_range [2, 3]) = {2, 3}"
    using st_built [of "[1, 3]"] st_built [of "[2, 3]"] by (simp_all add: st_of_range_def)
  then have "st_abs (st_Union SET_UNION_INTERSECT (st_of_range [1, 3]) (st_of_range [2, 3])) = {1, 2, 3}"
    using set_weight_refines [of SET_UNION_INTERSECT "st_of_range [1, 3]" "st_of_range [2, 3]"] by auto
  then show ?thesis
    using set_weight_refines [of SET_BOOLEAN EmptySet UnivSet] st_bool_values(1,2) by (simp add: st_ok_special)
qed

text \<open>
  C17. The (intersection, union) and the (union, intersection) weights are idempotent semirings with a commutative
  product on well-formed sets, and so is the boolean weight on the two values that it computes with, where it has the
  path property. The restricted weight is not a semiring: its product is that of the (intersection, union)
  weight, and so is its sum if an argument is \<open>Zero()\<close> or the arguments are equal; otherwise its sum is \<open>NoWeight()\<close>.
\<close>

theorem set_weight_semirings:
  "weight_semiring (SetWeight SET_INTERSECT_UNION) st_ok \<and> idempotent_weight (SetWeight SET_INTERSECT_UNION) st_ok \<and>
    weight_semiring (SetWeight SET_UNION_INTERSECT) st_ok \<and> idempotent_weight (SetWeight SET_UNION_INTERSECT) st_ok \<and>
    weight_semiring (SetWeight SET_BOOLEAN) st_bool \<and> path_property_weight (SetWeight SET_BOOLEAN) st_bool \<and>
    (\<forall>v w. st_ok v \<and> st_ok w \<longrightarrow>
      st_Times SET_INTERSECT_UNION v w = st_Times SET_INTERSECT_UNION w v \<and>
      st_Times SET_UNION_INTERSECT v w = st_Times SET_UNION_INTERSECT w v \<and>
      st_Times SET_INTERSECT_UNION_RESTRICT v w = st_Times SET_INTERSECT_UNION v w \<and>
      st_Plus SET_INTERSECT_UNION_RESTRICT v w =
        (if v = UnivSet \<or> w = UnivSet \<or> v = w then st_Plus SET_INTERSECT_UNION v w else st_NoWeight)) \<and>
    (\<forall>v w. st_bool v \<and> st_bool w \<longrightarrow> st_Times SET_BOOLEAN v w = st_Times SET_BOOLEAN w v)"
proof -
  have "st_Times SET_INTERSECT_UNION v w = st_Times SET_INTERSECT_UNION w v"
    "st_Times SET_UNION_INTERSECT v w = st_Times SET_UNION_INTERSECT w v" if "st_ok v" "st_ok w" for v w
    using that by (simp_all add: st_Times_commute)
  then show ?thesis
    using st_restrict st_bool_commute st_iu.weight_semiring_axioms st_iu.idempotent_weight_axioms st_ui.weight_semiring_axioms
      st_ui.idempotent_weight_axioms st_bool.weight_semiring_axioms st_bool.path_property_weight_axioms by blast
qed

theorem set_weight_semirings_witness:
  "st_Plus SET_INTERSECT_UNION_RESTRICT EmptySet UnivSet = st_Plus SET_INTERSECT_UNION EmptySet UnivSet \<and>
    st_Times SET_UNION_INTERSECT EmptySet UnivSet = st_Times SET_UNION_INTERSECT UnivSet EmptySet \<and>
    st_Times SET_BOOLEAN EmptySet UnivSet = st_Times SET_BOOLEAN UnivSet EmptySet"
  using set_weight_semirings st_ok_special(1,2) st_bool_values(1,2) by simp

text \<open>
  C18. A lexicographic weight over two weights with the path property and without zero divisors has
  the path property: \<open>Plus\<close> returns the smaller of its arguments in a total order.
\<close>

theorem lexicographic_path:
  assumes "lex_pair W1 M1 W2 M2"
  shows "path_property_weight (LexicographicWeight W1 W2) (lex_ok W1 M1 W2 M2)"
  using assms by (rule lex_pair.lexicographic)

theorem lexicographic_path_witness:
  "path_property_weight (LexicographicWeight (SetWeight SET_BOOLEAN) (SetWeight SET_BOOLEAN))
    (lex_ok (SetWeight SET_BOOLEAN) st_bool (SetWeight SET_BOOLEAN) st_bool)"
  using lexicographic_path [OF lex_bool.lex_pair_axioms] .

text \<open>
  C19. Composite weights: the product of two semirings and the \<open>n\<close>-th power of a semiring, for positive \<open>n\<close>, are
  semirings, and the left gallic weight over a left semiring is a left semiring.
\<close>

theorem composite_semirings:
  assumes "weight_semiring W M" and "weight_semiring V N" and "left_semiring L P" and "0 < n"
  shows "weight_semiring (ProductWeight W V) (both M N) \<and>
    weight_semiring (PowerWeight W n) (\<lambda>w. length w = n \<and> (\<forall>i < n. M (w ! i))) \<and>
    left_semiring (GallicWeight GALLIC_LEFT L) (both sw_ok P)"
  using semiring_pair.product [OF semiring_pair.intro [OF assms(1,2)]] weight_power.power [of W M n]
    GallicWeight_left_semiring [OF assms(3)] assms
  by (simp add: weight_power_def weight_power_axioms_def)

theorem composite_semirings_witness:
  "weight_semiring (ProductWeight (SetWeight SET_INTERSECT_UNION) (SetWeight SET_UNION_INTERSECT)) (both st_ok st_ok) \<and>
    weight_semiring (PowerWeight (SetWeight SET_INTERSECT_UNION) 2) (\<lambda>w. length w = 2 \<and> (\<forall>i < 2. st_ok (w ! i))) \<and>
    left_semiring (GallicWeight GALLIC_LEFT (StringWeight STRING_LEFT)) (both sw_ok sw_ok)"
  using composite_semirings [OF st_iu.weight_semiring_axioms st_ui.weight_semiring_axioms sw_left.left_semiring_axioms, of 2] by simp

section \<open>Operations on arcs\<close>

text \<open>
  C20. \<open>Invert\<close> computes the inverse relation, and \<open>Project\<close> the projection of the relation on its
  input or output side, as an identity relation.
\<close>

theorem invert_project_relation:
  assumes "wf_fst f"
  shows "(transduces W (Invert W f) x y w \<longleftrightarrow> transduces W f y x w) \<and>
    (transduces W (Project W PROJECT_INPUT f) x y w \<longleftrightarrow> x = y \<and> (\<exists>z. transduces W f x z w)) \<and>
    (transduces W (Project W PROJECT_OUTPUT f) x y w \<longleftrightarrow> x = y \<and> (\<exists>z. transduces W f z x w))"
  using invert_transduces [OF assms] by (simp add: project_transduces [OF assms])

theorem invert_project_relation_witness:
  "transduces SW (Project SW PROJECT_INPUT (sample 3)) [3] [3] (sw_of_label 3)"
  using invert_project_relation [OF sample_wf(1), of SW 3 "[3]" "[3]" "sw_of_label 3"] sample_transduces [of 3] by auto

text \<open>
  C21. \<open>Invert\<close>, \<open>Project\<close>, \<open>Relabel\<close>, \<open>ArcSort\<close> and the mappings with \<open>ArcSumMapper\<close> and
  \<open>ArcUniqueMapper\<close> keep the invariant of FSTs: the properties that they compute and store are true
  of their results. The order in which \<open>std::sort\<close> leaves equal elements does not matter.
\<close>

theorem arc_operations_invariant:
  assumes "fst_ok W f" and "Weq W (Zero W) (Zero W)" and "sorting sorter"
  shows "fst_ok W (Invert W f) \<and> fst_ok W (Project W pt f) \<and> fst_ok W (Relabel W ipairs opairs f) \<and>
    fst_ok W (ArcSort W ILabelCompare f) \<and> fst_ok W (ArcSort W OLabelCompare f) \<and>
    fst_ok W (StateMap W (ArcSumMapper W sorter) f) \<and> fst_ok W (StateMap W (ArcUniqueMapper W sorter) f)"
proof -
  have "label_compare ILabelCompare ILabelSorted OLabelSorted" "label_compare OLabelCompare OLabelSorted ILabelSorted"
    by (simp_all add: label_compare_def)
  then show ?thesis
    using invert_ok [OF assms(1)] project_ok [OF assms(1)] relabel_ok [OF assms(1,2)] arcsort_ok [OF assms(1)]
      sorting.sum_unique_ok [OF assms(3,1)] by blast
qed

theorem arc_operations_invariant_witness: "fst_ok SW (ArcSort SW ILabelCompare (sample 3))"
  using arc_operations_invariant [OF sample_ok sw.Weq_Zero_Zero stable.sorting_axioms] by blast

text \<open>
  C22. The properties that \<open>InputEpsilonMapper\<close> and \<open>OutputEpsilonMapper\<close> claim are wrong for FSTs
  with a start state and without arcs: \<open>kIEpsilons\<close> and \<open>kOEpsilons\<close> are stored although there is no epsilon.
\<close>

theorem epsilon_mappers_claim_epsilons:
  assumes "wf_fst f" and "start f = Some i" and "trans f = {}"
  shows "bit (properties (fst (ArcMap W InputEpsilonMapper () f))) (pos_bit IEpsilons) \<and>
    \<not> holds W (fst (ArcMap W InputEpsilonMapper () f)) IEpsilons \<and>
    bit (properties (fst (ArcMap W OutputEpsilonMapper () f))) (pos_bit OEpsilons) \<and>
    \<not> holds W (fst (ArcMap W OutputEpsilonMapper () f)) OEpsilons"
  using epsilon_mappers_unsound [OF assms, of W] unfolding Let_def by blast

theorem epsilon_mappers_claim_epsilons_witness:
  "bit (properties (fst (ArcMap SW InputEpsilonMapper () one_state))) (pos_bit IEpsilons)"
  using epsilon_mappers_claim_epsilons [OF one_state_wf(1) one_state_states(2) one_state_wf(2)] by blast

text \<open>
  C23. \<open>ArcSort\<close> keeps the relation and every state's arcs, and leaves arcs with equal labels in their order. If
  the FST has a start state, the arcs of every state are sorted by the pair of labels afterwards; if it has none,
  \<open>StateMap\<close> returns early and the arcs stay as they are.
\<close>

theorem arcsort_sorts:
  assumes "wf_fst f"
  shows "(transduces W (ArcSort W cmp f) x y w \<longleftrightarrow> transduces W f x y w) \<and>
    (\<forall>s < NumStates f. mset (Arcs (ArcSort W cmp f) s) = mset (Arcs f s) \<and>
       filter (\<lambda>a. cmp_key cmp a = k) (Arcs (ArcSort W cmp f) s) = filter (\<lambda>a. cmp_key cmp a = k) (Arcs f s) \<and>
       (if start f = None then Arcs (ArcSort W cmp f) s = Arcs f s
        else sorted (map (cmp_key cmp) (Arcs (ArcSort W cmp f) s))))"
proof -
  have t: "transduces W (ArcSort W cmp f) x y w \<longleftrightarrow> transduces W f x y w"
    by (rule permuted_transduces [OF ArcSort_permuted [OF assms]])
  have "Arcs (ArcSort W cmp f) s = sort_key (cmp_key cmp) (Arcs f s)" if "s < NumStates f" "start f = Some i" for s i
    using ArcSort_rearranged [OF assms that(2), of cmp W] that(1) by (simp add: rearranged_def)
  then show ?thesis
    using t by (cases "start f") (simp_all add: ArcSort_no_start sort_key_stable)
qed

theorem arcsort_sorts_witness: "transduces SW (ArcSort SW ILabelCompare (sample 3)) [3] [3] (sw_of_label 3)"
  using arcsort_sorts [OF sample_wf(1), of SW ILabelCompare 3 "[3]" "[3]" "sw_of_label 3"]
    sample_transduces [of 3] by simp

text \<open>
  C24. After a mapping with \<open>ArcSumMapper\<close> of an FST with a start state, the arcs of a state have distinct keys (input
  label, output label, next state), in increasing order, the same keys as before, and the weight of an arc is the
  sum of the weights of all arcs with its key before. If there is no start state, \<open>StateMap\<close> returns early and
  the arcs stay as they are.
\<close>

theorem arc_sum_sums:
  assumes "sorting sorter" and "wf_fst f" and "s < NumStates f"
  shows "if start f = None then Arcs (StateMap W (ArcSumMapper W sorter) f) s = Arcs f s
    else (\<exists>p. mset p = mset (Arcs f s) \<and>
      sorted_wrt (<) (map arc_key (Arcs (StateMap W (ArcSumMapper W sorter) f) s)) \<and>
      arc_key ` set (Arcs (StateMap W (ArcSumMapper W sorter) f) s) = arc_key ` set (Arcs f s) \<and>
      (\<forall>a \<in> set (Arcs (StateMap W (ArcSumMapper W sorter) f) s). weight a = sum_weights W (weights_of (arc_key a) p)))"
proof (cases "start f")
  case None
  then show ?thesis by (simp add: StateMap_def ArcSumMapper_def)
next
  case (Some i)
  obtain p where "mset p = mset (Arcs f s)" "summed W p (Arcs (StateMap W (ArcSumMapper W sorter) f) s)"
    using sorting.arc_sum_spec [OF assms(1,2) Some assms(3)] by blast
  then show ?thesis using Some by (simp add: summed_def) (metis mset_eq_setD)
qed

theorem arc_sum_sums_witness:
  "arc_key ` set (Arcs (StateMap SW (ArcSumMapper SW sort_key) (sample 3)) 0) = {(3, 3, 1)}"
  using arc_sum_sums [OF stable.sorting_axioms sample_wf(1), of 0 3 SW]
  by (simp add: NumStates_def Arcs_def sample_states)

text \<open>
  C25. \<open>Relabel\<close> by pairs replaces the labels of the strings that the FST transduces, when every label
  in use has a target and epsilon is mapped to epsilon only.
\<close>

theorem relabel_relation:
  assumes "wf_fst f" and "\<forall>(s, a) \<in> trans f. has_targets ipairs opairs a" and "keeps_epsilon ipairs" "keeps_epsilon opairs"
  shows "transduces W (Relabel W ipairs opairs f) x y w \<longleftrightarrow>
    (\<exists>x' y'. transduces W f x' y' w \<and> x = map (new_label ipairs) x' \<and> y = map (new_label opairs) y')"
  using relabel_transduces [OF assms] .

theorem relabel_relation_witness:
  "transduces SW (Relabel SW [(3, 7)] [] (sample 3)) [7] [3] (sw_of_label 3)"
proof -
  have k: "keeps_epsilon [(3, 7)]" "keeps_epsilon []"
    by (auto simp: keeps_epsilon_def relabel_label_def kNoLabel_def split: if_splits)
  have "\<forall>(s, a) \<in> trans (sample 3). has_targets [(3, 7)] [] a"
    by (auto simp: trans_iff NumStates_def Arcs_def sample_states has_targets_def relabel_label_def kNoLabel_def less_2_cases_iff)
  from relabel_relation [OF sample_wf(1) this k, of SW "[7]" "[3]" "sw_of_label 3"] sample_transduces [of 3] show ?thesis
    by (force simp: new_label_def relabel_label_def kNoLabel_def)
qed

text \<open>C26. If a label in use has no target, \<open>Relabel\<close> returns with the error property set.\<close>

theorem relabel_missing_target:
  assumes "wf_fst f" and "\<exists>(s, a) \<in> trans f. \<not> has_targets ipairs opairs a"
  shows "has (properties (Relabel W ipairs opairs f)) kError"
  using relabel_error [OF assms] .

theorem relabel_missing_target_witness: "has (properties (Relabel SW [(3, kNoLabel)] [] (sample 3))) kError"
proof (rule relabel_missing_target [OF sample_wf(1)])
  show "\<exists>(s, a) \<in> trans (sample 3). \<not> has_targets [(3, kNoLabel)] [] a"
    by (intro bexI [of _ "(0, Arc 3 3 (sw_of_label 3) 1)"])
      (auto simp: trans_iff NumStates_def Arcs_def sample_states has_targets_def relabel_label_def)
qed

section \<open>Symbol tables\<close>

text \<open>
  C27. The probing loops of the symbol map always end, whatever the hash function: \<open>Find\<close> returns the
  position of a string, or -1, and \<open>InsertOrFind\<close> appends a string that is not there and keeps the
  invariant of the map.
\<close>

theorem symbol_map_total:
  assumes "dsm_ok h m"
  shows "FindIdx h m key = Some (position key (dsm_symbols m)) \<and>
    (\<exists>m'. dsm_ok h m' \<and>
      (if key \<in> set (dsm_symbols m)
       then InsertOrFind h m key = Some (m', position key (dsm_symbols m), False) \<and> dsm_symbols m' = dsm_symbols m
       else InsertOrFind h m key = Some (m', int (Size m), True) \<and> dsm_symbols m' = dsm_symbols m @ [key]))"
  using FindIdx_position [OF assms] InsertOrFind_spec [OF assms] by blast

theorem symbol_map_total_witness: "\<exists>m'. InsertOrFind (\<lambda>_. 7) DenseSymbolMap ''a'' = Some (m', 0, True) \<and> dsm_symbols m' = [''a'']"
  using symbol_map_total [OF dsm_ok_new, of "\<lambda>_. 7" "''a''"] by (auto simp: DenseSymbolMap_def Size_def)

text \<open>
  C28. A symbol table refines a list of pairs of a key and a symbol: \<open>AddSymbol\<close> with a free key
  appends a pair, or returns the key that the symbol has, and \<open>RemoveSymbol\<close> removes the pair with the
  given key; both always return and keep the invariant.
\<close>

theorem symbol_table_refines:
  assumes "table_ok h t"
  shows "(key \<noteq> kNoSymbol \<and> key \<notin> fst ` set (entries t) \<longrightarrow>
      (\<exists>u. table_ok h u \<and>
        (if str \<in> snd ` set (entries t)
         then entries u = entries t \<and> AddSymbol h t str key = Some (u, the (FindKey h t str))
         else entries u = entries t @ [(key, str)] \<and> AddSymbol h t str key = Some (u, key)))) \<and>
    (\<exists>u. RemoveSymbol h t key = Some u \<and> table_ok h u \<and> entries u = filter (\<lambda>e. fst e \<noteq> key) (entries t))"
proof -
  have "fst ` set (entries t) = set (keys t)" using entries_keys(1) [OF assms] by (metis list.set_map)
  then show ?thesis using AddSymbol_spec [OF assms, of key str] RemoveSymbol_spec [OF assms, of key] by blast
qed

theorem symbol_table_refines_witness:
  "\<exists>u. AddSymbol (\<lambda>_. 0) (SymbolTableImpl ''t'') ''a'' 5 = Some (u, 5) \<and> entries u = [(5, ''a'')]"
  using symbol_table_refines [OF table_ok_new(1) [where name = "''t''"], where key = 5 and str = "''a''" and h = "\<lambda>_. 0"]
  by (auto simp: table_ok_new(2) kNoSymbol_def)





section \<open>Traversals\<close>

text \<open>
  C31. A depth-first visit of a well-formed FST ends, for every visitor and arc filter, also when
  the visitor aborts the search.
\<close>

theorem dfs_visit_returns:
  assumes "wf_fst f"
  shows "\<exists>u'. DfsVisit f V P ao u = Some u'"
  using DfsVisit_returns [OF assms] .

theorem dfs_visit_returns_witness: "\<exists>u. DfsVisit (sample 5) (SccVisitor SW) AnyArcFilter True (new_SccVisitor True True 0 (sample 5)) = Some u"
  by (rule dfs_visit_returns [OF sample_wf(1)])

text \<open>
  C32. \<open>TopSort\<close> returns true if and only if the FST has no cycle. Then every transition of the result
  goes from a lower to a higher state; otherwise the states are unchanged. In both cases the
  transduction is the same, and stored properties that were true stay true.
\<close>

theorem topsort_sorts:
  assumes "wf_fst f" and "start f = Some st"
  shows "\<exists>acyclic g. TopSort W f = Some (acyclic, g) \<and> acyclic = (\<not> (\<exists>s. (s, s) \<in> (edges f)\<^sup>+)) \<and>
    (if acyclic then \<forall>(s, a) \<in> trans g. s < nextstate a else states g = states f \<and> start g = start f) \<and>
    (\<forall>x y w. transduces W g x y w \<longleftrightarrow> transduces W f x y w) \<and> (fst_ok W f \<longrightarrow> fst_ok W g)"
proof -
  have ok: "fst_ok W f \<longrightarrow> fst_ok W g" if "TopSort W f = Some (b, g)" for b g
    using TopSort_ok [OF _ assms(2), of W] that by (metis option.inject prod.inject)
  from assms show ?thesis
  proof (cases rule: TopSort_spec [where W = W])
    case (sorted p h)
    let ?g = "SetPropertiesMask top_sorted_bits top_sorted_bits (SetPropertiesMask (Properties f kStateSortProperties) kFstProperties h)"
    have "\<forall>x y w. transduces W ?g x y w \<longleftrightarrow> transduces W f x y w"
      using iso_transduces_iff [OF sorted(2) assms(1)] same_states_transduces [of ?g h] by auto
    moreover have "trans ?g = trans h" by (simp add: trans_def NumStates_def Arcs_def)
    ultimately show ?thesis using sorted ok [OF sorted(5)] by (intro exI [of _ True] exI [of _ ?g]) simp
  next
    case cyclic
    let ?g = "SetPropertiesMask cyclic_bits cyclic_bits f"
    have "\<forall>x y w. transduces W ?g x y w \<longleftrightarrow> transduces W f x y w" using same_states_transduces [of ?g f] by auto
    then show ?thesis using cyclic ok [OF cyclic(2)] by (intro exI [of _ False] exI [of _ ?g]) simp
  qed
qed

theorem topsort_sorts_witness: "\<exists>acyclic g. TopSort SW (sample 5) = Some (acyclic, g) \<and> fst_ok SW g"
  using topsort_sorts [OF sample_wf(1) sample_states(2), of SW 5] sample_ok by blast

text \<open>
  C33. The vectors that a visit by \<open>SccVisitor\<close> fills: \<open>access\<close> marks the states reachable from the
  start state, \<open>coaccess\<close> the states that reach a final state, and \<open>scc\<close> gives two states the same number
  if and only if each reaches the other; the numbers are in topological order.
\<close>

theorem scc_visitor_results:
  assumes "wf_fst f" and "start f = Some st"
  shows "\<exists>u. DfsVisit f (SccVisitor W) AnyArcFilter False (new_SccVisitor True True p f) = Some u \<and>
    (\<forall>s < NumStates f. the (access u) ! s = ((st, s) \<in> (edges f)\<^sup>*) \<and>
       coaccess u ! s = (\<exists>t. final_state W f t \<and> (s, t) \<in> (edges f)\<^sup>*) \<and>
       (\<forall>t < NumStates f. (the (scc u) ! s = the (scc u) ! t) = ((s, t) \<in> (edges f)\<^sup>* \<and> (t, s) \<in> (edges f)\<^sup>*))) \<and>
    (\<forall>(s, t) \<in> edges f. the (scc u) ! s \<le> the (scc u) ! t)"
proof -
  let ?u0 = "new_SccVisitor True True p f"
  have "access ?u0 \<noteq> None" "scc ?u0 \<noteq> None" by (simp_all add: new_SccVisitor_def)
  then show ?thesis
    using assms(2)
    by (rule_tac scc_visit [OF assms, of W ?u0]) (auto simp: reachable_def coaccs_def finals_def same_component_def)
qed

theorem scc_visitor_results_witness:
  "\<exists>u. DfsVisit (sample 5) (SccVisitor SW) AnyArcFilter False (new_SccVisitor True True 0 (sample 5)) = Some u \<and>
    the (access u) ! 1 = ((0, 1) \<in> (edges (sample 5))\<^sup>*)"
proof -
  have "(1 :: nat) < NumStates (sample 5)" by (simp add: NumStates_def sample_states)
  then show ?thesis using scc_visitor_results [OF sample_wf(1) sample_states(2), where W = SW and p = 0] by blast
qed

text \<open>
  C34. \<open>Connect\<close> keeps exactly the states on a path from the start state to a final state: the result is
  accessible and coaccessible, its number of states is the number of such states, it transduces
  the same, and stored properties that were true stay true.
\<close>

theorem connect_trims:
  assumes "wf_fst f" and "start f = Some st"
  shows "\<exists>g. Connect W f = Some g \<and> accessible g \<and> coaccessible W g \<and>
    NumStates g = card {s. (st, s) \<in> (edges f)\<^sup>* \<and> (\<exists>t. final_state W f t \<and> (s, t) \<in> (edges f)\<^sup>*)} \<and>
    (\<forall>x y w. transduces W g x y w \<longleftrightarrow> transduces W f x y w) \<and>
    (fst_ok W f \<and> Weq W (Zero W) (Zero W) \<longrightarrow> fst_ok W g)"
proof -
  obtain ds where ds: "Connect W f = Some (SetPropertiesMask connected_bits connected_bits (DeleteStates ds f))"
    "ds = filter (\<lambda>s. \<not> useful W f s) [0 ..< NumStates f]" using Connect_spec [OF assms] by blast
  let ?d = "DeleteStates ds f" let ?g = "SetPropertiesMask connected_bits connected_bits ?d"
  have in_range: "s < NumStates f" if us: "useful W f s" for s
  proof -
    obtain t where "(s, t) \<in> (edges f)\<^sup>*" "t < NumStates f"
      using us by (auto simp: useful_def coaccs_def finals_def final_state_def)
    then show ?thesis by (auto simp: edges_iff trans_iff elim: converse_rtranclE)
  qed
  have "{s. (st, s) \<in> (edges f)\<^sup>* \<and> (\<exists>t. final_state W f t \<and> (s, t) \<in> (edges f)\<^sup>*)} = set (kept ds (NumStates f))"
    using in_range assms(2) by (auto simp: ds(2) useful_def reachable_def coaccs_def finals_def)
  moreover have "distinct (kept ds (NumStates f))" by (simp add: kept_def)
  ultimately have "NumStates ?g = card {s. (st, s) \<in> (edges f)\<^sup>* \<and> (\<exists>t. final_state W f t \<and> (s, t) \<in> (edges f)\<^sup>*)}"
    using DeleteStates_view(1) [OF assms(1), of ds] distinct_card [of "kept ds (NumStates f)"]
    by (simp add: NumStates_def del: set_kept)
  moreover have "accessible ?g" "coaccessible W ?g"
    using trim_connected [OF assms(1), of ds W] ds(2) holds_cong [of ?g ?d W Accessible] holds_cong [of ?g ?d W CoAccessible] by auto
  moreover have "transduces W ?g x y w \<longleftrightarrow> transduces W f x y w" for x y w
    using DeleteStates_transduces [OF assms(1), of W ds] same_states_transduces [of ?g ?d] ds(2) by auto
  moreover have "fst_ok W f \<and> Weq W (Zero W) (Zero W) \<longrightarrow> fst_ok W ?g" using Connect_ok [OF _ assms(2), of W] ds(1) by (metis option.inject)
  ultimately show ?thesis using ds(1) by blast
qed

theorem connect_trims_witness: "\<exists>g. Connect SW (sample 5) = Some g \<and> accessible g \<and> coaccessible SW g"
  using connect_trims [OF sample_wf(1) sample_states(2), of SW 5] by blast

text \<open>
  C35. \<open>Condense\<close> gives an FST with one state for each strongly connected component, whose
  transitions are exactly those between different components and go from lower to higher states.
\<close>

theorem condense_components:
  assumes "wf_fst f" and "start f = Some st"
  shows "\<exists>h comps. Condense W unique f g = Some (h, comps) \<and> (\<lambda>s. nat (comps ! s)) ` {..<NumStates f} = {..<NumStates h} \<and>
    start h = Some (nat (comps ! st)) \<and>
    (\<forall>s < NumStates f. \<forall>t < NumStates f. (nat (comps ! s) = nat (comps ! t)) = ((s, t) \<in> (edges f)\<^sup>* \<and> (t, s) \<in> (edges f)\<^sup>*)) \<and>
    trans h = {(nat (comps ! s), a\<lparr>nextstate := nat (comps ! nextstate a)\<rparr>) | s a. (s, a) \<in> trans f \<and> comps ! nextstate a \<noteq> comps ! s} \<and>
    (\<forall>(s, a) \<in> trans h. s < nextstate a)"
proof (rule Condense_spec [OF assms, of W unique g])
  fix comps and h :: "'a vfst"
  let ?\<rho> = "\<lambda>s. nat (comps ! s)" let ?n = "NumStates f"
  let ?h = "SetPropertiesMask (kAcyclic OR kInitialAcyclic) (kAcyclic OR kInitialAcyclic) h"
  assume c: "Condense W unique f g = Some (?h, comps)" and rng: "\<And>s. s < ?n \<Longrightarrow> 0 \<le> comps ! s \<and> comps ! s < int (NumStates h)"
    and eq: "\<And>s t. s < ?n \<Longrightarrow> t < ?n \<Longrightarrow> comps ! s = comps ! t \<longleftrightarrow> same_component f s t"
    and top: "\<And>s t. (s, t) \<in> edges f \<Longrightarrow> comps ! s \<le> comps ! t"
    and sur: "\<And>c. c < NumStates h \<Longrightarrow> \<exists>s < ?n. comps ! s = int c"
    and cd: "condensing W ?\<rho> (NumStates h) f ?n h"
  have ts: "\<forall>(s, a) \<in> trans h. s < nextstate a" using condensing_topsorted [OF assms(1) cd _ top] rng by simp
  have same: "?\<rho> s = ?\<rho> t \<longleftrightarrow> comps ! s = comps ! t" if "s < ?n" "t < ?n" for s t
    using rng [OF that(1)] rng [OF that(2)] by (simp add: nat_eq_iff)
  have less: "?\<rho> s < NumStates h" if "s < ?n" for s using rng [OF that] by linarith
  have "(k, b) \<in> trans h \<longleftrightarrow> (\<exists>s a. (s, a) \<in> trans f \<and> k = ?\<rho> s \<and> b = retarget ?\<rho> a \<and> comps ! nextstate a \<noteq> comps ! s)" for k b
  proof -
    have "(k, b) \<in> trans h \<longleftrightarrow> k < NumStates h \<and> b \<in> set (condensed_arcs ?\<rho> f k ?n)" using cd by (auto simp: trans_iff condensing_def)
    also have "\<dots> \<longleftrightarrow> (\<exists>s a. (s, a) \<in> trans f \<and> k = ?\<rho> s \<and> b = retarget ?\<rho> a \<and> ?\<rho> (nextstate a) \<noteq> ?\<rho> s)"
      using less by (fastforce simp: condensed_arcs_def trans_iff)
    also have "\<dots> \<longleftrightarrow> (\<exists>s a. (s, a) \<in> trans f \<and> k = ?\<rho> s \<and> b = retarget ?\<rho> a \<and> comps ! nextstate a \<noteq> comps ! s)"
      using same wf_trans [OF assms(1)] by (metis trans_iff)
    finally show ?thesis .
  qed
  then have tr: "trans h = {(?\<rho> s, a\<lparr>nextstate := ?\<rho> (nextstate a)\<rparr>) | s a. (s, a) \<in> trans f \<and> comps ! nextstate a \<noteq> comps ! s}"
    unfolding set_eq_iff split_paired_All mem_Collect_eq retarget_def prod.inject by blast
  have im: "?\<rho> ` {..<?n} = {..<NumStates h}" using less sur by force
  have st: "start h = Some (?\<rho> st)" using cd assms(2) wf_start [OF assms] by (simp add: condensing_def)
  have "trans ?h = trans h" "NumStates ?h = NumStates h" "start ?h = start h" by (simp_all add: trans_def NumStates_def Arcs_def)
  then show ?thesis using c tr im st ts eq same by (intro exI [of _ ?h] exI [of _ comps]) (simp add: same_component_def)
qed

theorem condense_components_witness: "\<exists>h comps. Condense SW True (sample 5) VectorFstImpl = Some (h, comps) \<and> start h = Some (nat (comps ! 0))"
  using condense_components [OF sample_wf(1) [of 5] sample_states(2) [of 5], where W = SW and unique = True and g = VectorFstImpl]
  by (elim exE conjE) (intro exI conjI)

text \<open>
  C36. An FST without a start state, but with states, is not visited at all. \<open>Connect\<close> keeps every state of it and
  still records that all of them are accessible, which is false, and coaccessible, whether they are or not;
  \<open>TopSort\<close> returns true, sets \<open>kError\<close> and records that the FST is acyclic, initially acyclic and sorted, whether it
  is or not.
\<close>

theorem no_start_unsound:
  assumes "start f = None" and "0 < NumStates f"
  shows "(\<exists>g. Connect W f = Some g \<and> states g = states f \<and> bit (properties g) (pos_bit Accessible) \<and>
      \<not> holds W g Accessible \<and> \<not> props_sound W g (properties g) \<and> bit (properties g) (pos_bit CoAccessible)) \<and>
    (\<exists>g. TopSort W f = Some (True, g) \<and> states g = states f \<and> bit (properties g) 2 \<and>
      bit (properties g) (Suc (pos_bit Cyclic)) \<and> bit (properties g) (Suc (pos_bit InitialCyclic)) \<and>
      bit (properties g) (pos_bit TopSorted))"
proof
  let ?g = "SetPropertiesMask connected_bits connected_bits f"
  have b: "bit (properties ?g) (pos_bit Accessible)" "bit (properties ?g) (pos_bit CoAccessible)"
    by (simp_all add: SetPropertiesMask_def prop_bits)
  have h: "\<not> holds W ?g Accessible" using assms by (auto simp: accessible_def NumStates_def)
  then have "\<not> props_sound W ?g (properties ?g)" using b(1) unfolding props_sound_def by blast
  then show "\<exists>g. Connect W f = Some g \<and> states g = states f \<and> bit (properties g) (pos_bit Accessible) \<and>
      \<not> holds W g Accessible \<and> \<not> props_sound W g (properties g) \<and> bit (properties g) (pos_bit CoAccessible)"
    using b h Connect_no_start [OF assms(1), of W] by (intro exI [of _ ?g] conjI) simp_all
  let ?t = "SetPropertiesMask top_sorted_bits top_sorted_bits (SetPropertiesMask kError kError f)"
  have "bit (properties ?t) 2" "bit (properties ?t) (Suc (pos_bit Cyclic))"
    "bit (properties ?t) (Suc (pos_bit InitialCyclic))" "bit (properties ?t) (pos_bit TopSorted)"
    by (simp_all add: SetPropertiesMask_def prop_bits)
  then show "\<exists>g. TopSort W f = Some (True, g) \<and> states g = states f \<and> bit (properties g) 2 \<and>
      bit (properties g) (Suc (pos_bit Cyclic)) \<and> bit (properties g) (Suc (pos_bit InitialCyclic)) \<and>
      bit (properties g) (pos_bit TopSorted)"
    using TopSort_no_start [OF assms(1), of W] assms(2) by (intro exI [of _ ?t] conjI) simp_all
qed

theorem no_start_unsound_witness: "\<exists>g. Connect SW (AddState SW VectorFstImpl) = Some g \<and> \<not> props_sound SW g (properties g)"
proof -
  have "start (AddState SW VectorFstImpl) = None" "0 < NumStates (AddState SW VectorFstImpl)"
    by (simp_all add: AddState_def BaseAddState_def VectorFstImpl_def SetProperties_def Let_def NumStates_def)
  then show ?thesis using no_start_unsound by blast
qed

section \<open>Testing properties\<close>

text \<open>
  C37. \<open>Properties(mask, true)\<close> of an FST that is empty or has a start state returns exactly the truth about
  every property in the mask, with the flag that verifies stored properties and without it. Only the stored properties
  of the FST change: they stay true, and afterwards they contain what was asked for.
\<close>

theorem test_properties_exact:
  assumes "fst_ok W f" and "start f \<noteq> None \<or> NumStates f = 0"
  shows "\<exists>p g. PropertiesTest verify W f pmask = Some (p, g) \<and> states g = states f \<and> start g = start f \<and> fst_ok W g \<and>
    (\<forall>t. (bit pmask (pos_bit t) \<longrightarrow> bit p (pos_bit t) = holds W f t) \<and>
         (bit pmask (Suc (pos_bit t)) \<longrightarrow> bit p (Suc (pos_bit t)) = (\<not> holds W f t)) \<and>
         (bit pmask (pos_bit t) \<or> bit pmask (Suc (pos_bit t)) \<longrightarrow>
            bit (properties g) (pos_bit t) = holds W f t \<and> bit (properties g) (Suc (pos_bit t)) = (\<not> holds W f t)))"
proof -
  have st: "start f = None \<Longrightarrow> NumStates f = 0" using assms(2) by blast
  show ?thesis
    by (rule PropertiesTest_spec [OF assms(1) st, of verify pmask]) (auto simp: asked_def recorded_def)
qed

theorem test_properties_exact_witness:
  "\<exists>p g. PropertiesTest True SW (sample 5) kCyclic = Some (p, g) \<and> \<not> bit p 34 \<and> bit (properties g) 35"
proof -
  have "(s, s) \<notin> (edges (sample 5))\<^sup>+" for s
    by (rule topsorted_acyclic [of SW]) (auto simp: trans_def sample_states NumStates_def Arcs_def less_Suc_eq)
  then have "\<not> holds SW (sample 5) Cyclic" by simp
  moreover have "start (sample 5) \<noteq> None \<or> NumStates (sample 5) = 0" by (simp add: sample_states)
  moreover have "bit kCyclic (pos_bit Cyclic)" by (simp add: bit_kCyclic)
  ultimately have "\<exists>p g. PropertiesTest True SW (sample 5) kCyclic = Some (p, g) \<and> \<not> bit p (pos_bit Cyclic) \<and>
      bit (properties g) (Suc (pos_bit Cyclic))"
    using test_properties_exact [OF sample_ok, of 5 True kCyclic] by blast
  then show ?thesis by simp
qed

section \<open>Heaps and queues\<close>

text \<open>
  C38. The heap refines a map from keys to values, for every comparison that is a strict weak order on the
  values in use. \<open>Insert\<close> binds a key that was not in use, \<open>Update\<close> changes the value of a key, \<open>Get\<close> looks it
  up, and \<open>Pop\<close> returns the value \<open>Top\<close>, than which no value in the heap is less, and removes a key
  that is bound to it. All of them keep the order of the heap and the correspondence of keys and positions.
\<close>

theorem heap_refines:
  assumes "heap_compare cmp M" and "heap_ok cmp M h"
  shows "(\<forall>x k h'. M x \<and> Insert cmp x h = (k, h') \<longrightarrow>
        heap_ok cmp M h' \<and> heap_map h k = None \<and> heap_map h' = (heap_map h)(k \<mapsto> x)) \<and>
    (\<forall>x k. M x \<and> heap_map h k \<noteq> None \<longrightarrow>
        heap_ok cmp M (HeapUpdate cmp k x h) \<and> heap_map (HeapUpdate cmp k x h) = (heap_map h)(k \<mapsto> x)) \<and>
    (\<forall>x h'. \<not> Empty h \<and> Pop cmp h = (x, h') \<longrightarrow> x = Top h \<and> heap_ok cmp M h' \<and>
        (\<exists>k. heap_map h k = Some x \<and> heap_map h' = (heap_map h)(k := None)) \<and>
        (\<forall>k y. heap_map h k = Some y \<longrightarrow> \<not> cmp y x)) \<and>
    (\<forall>k x. heap_map h k = Some x \<longrightarrow> Get k h = x)"
proof -
  have ok: "keys_ok h" using assms(2) by (simp add: heap_ok_def)
  have least: "\<not> cmp y (Top h)" if "heap_map h k = Some y" for k y
    using heap_compare.top_least [OF assms] heap_map_range [OF ok that] by metis
  have get: "Get k h = x" if "heap_map h k = Some x" for k x
    using that by (auto simp: Get_def heap_map_def split: if_splits)
  show ?thesis
    using heap_compare.Insert_spec [OF assms] heap_compare.Update_spec [OF assms] heap_compare.Pop_spec [OF assms] least get by blast
qed

theorem heap_refines_witness:
  "\<exists>k h. Insert (<) (3 :: nat) new_Heap = (k, h) \<and> heap_map h = [k \<mapsto> 3] \<and> Get k h = 3"
proof -
  obtain k h where kh: "Insert (<) (3 :: nat) new_Heap = (k, h)" by (cases "Insert (<) (3 :: nat) new_Heap")
  note ref = heap_refines [OF less_heap.heap_compare_axioms]
  from ref [OF less_heap.new_Heap_ok(1)] kh
  have h: "heap_ok (<) (\<lambda>_. True) h" "heap_map h = [k \<mapsto> 3]" by (auto simp: less_heap.new_Heap_ok(2))
  then have "Get k h = 3" using ref [OF h(1)] by auto
  then show ?thesis using kh h by blast
qed

section \<open>Shortest distance\<close>

text \<open>
  C39. \<open>ShortestDistance\<close> with options, without the option \<open>first_path\<close>, for an idempotent weight that distributes
  from the right, declares so, and is compared exactly, with any queue that keeps the contract \<open>state_queue\<close>, on a
  well-formed FST with a start state, member weights and no error property, from a source state that exists (the start
  state by default): if the paths from the source to each state have finitely many
  different weights, the algorithm ends, leaves the queue in order, and returns a vector no longer than the number of
  states in which the entry of a state, or \<open>Zero()\<close> if there is none, is the sum of the weights of all the paths from
  the source to that state, along the arcs that the filter keeps.
\<close>

theorem shortest_distance_total:
  assumes "right_semiring W M" "idempotent_weight W M" and "has wprops kRightSemiring"
    and "\<And>a b. M a \<Longrightarrow> M b \<Longrightarrow> o_weight_equal opts a b \<longleftrightarrow> a = b" and "\<not> o_first_path opts"
    and "state_queue Q valid ok queued" "ok q" "\<And>s. s < NumStates f \<Longrightarrow> valid s"
    and "wf_fst f" "weights_in M f" "start f = Some i" "\<not> has (Properties f kError) kError"
    and "src = (case o_source opts of None \<Rightarrow> i | Some s \<Rightarrow> s)" "src < NumStates f"
    and "\<And>s. finite (path_weights W (kept_arcs (o_arc_filter opts) f) src s)"
  shows "\<exists>d q'. ShortestDistance W wprops Q f opts q = Some (d, q') \<and> length d \<le> NumStates f \<and> ok q' \<and>
    (\<forall>s. is_total W (path_weights W (kept_arcs (o_arc_filter opts) f) src s) (if s < length d then d ! s else Zero W))"
proof -
  have "distance_algorithm W M Q valid ok queued opts"
    using assms(1,2,4-6) by (simp add: distance_algorithm_def distance_weight_def distance_algorithm_axioms_def)
  then show ?thesis by (rule ShortestDistance_total) (use assms in blast)+
qed

theorem shortest_distance_total_witness:
  "\<exists>d q'. ShortestDistance (SetWeight SET_BOOLEAN) st_Properties (ShortestFirstQueue (NaturalLess (SetWeight SET_BOOLEAN))) bool_cycle
      \<lparr>o_arc_filter = \<lambda>_. True, o_source = None, o_weight_equal = Weq (SetWeight SET_BOOLEAN), o_first_path = False\<rparr> new_ShortestFirstQueue
      = Some (d, q') \<and> length d \<le> 2 \<and> sf_ok q' \<and>
    (\<forall>s. is_total (SetWeight SET_BOOLEAN) (path_weights (SetWeight SET_BOOLEAN) (kept_arcs (\<lambda>_. True) bool_cycle) 0 s)
      (if s < length d then d ! s else Zero (SetWeight SET_BOOLEAN)))"
proof -
  have "path_weights (SetWeight SET_BOOLEAN) (kept_arcs (\<lambda>_. True) bool_cycle) 0 s \<subseteq> Collect st_bool" for s
    by (rule st_bool.path_weights_M) (use weights_in_trans [OF bool_cycle_ok(2)] in \<open>auto simp: kept_arcs_def\<close>)
  then have fin: "finite (path_weights (SetWeight SET_BOOLEAN) (kept_arcs (\<lambda>_. True) bool_cycle) 0 s)" for s
    by (rule finite_subset) (rule st_bool_finite)
  have "has st_Properties kRightSemiring" by (simp add: has_def st_Properties_def kIdempotent_def kLeftSemiring_def kRightSemiring_def kCommutative_def)
  from shortest_distance_total [OF st_bool.right_semiring_axioms st_bool.idempotent_weight_axioms this _ _
      shortest_first.state_queue_axioms [of "NaturalLess (SetWeight SET_BOOLEAN)"] sf_new _ bool_cycle_ok(1,2,3,5), where src = 0
        and opts = "\<lparr>o_arc_filter = \<lambda>_. True, o_source = None, o_weight_equal = Weq (SetWeight SET_BOOLEAN), o_first_path = False\<rparr>"]
  show ?thesis using st_bool.Weq_eq fin bool_cycle_ok(4) by simp
qed

section \<open>Connected components\<close>

text \<open>
  C40. \<open>Visit\<close> with \<open>CcVisitor\<close>, which joins the states of every arc in a union-find structure, computes the
  connected components of a well-formed FST with a start state, for any arc filter and any empty queue that keeps the contract
  \<open>state_queue\<close>: the visit ends, the result vector has an entry for every state, the entries are numbered without gaps
  from 0, and two states have the same entry exactly if they are connected, in either direction, by arcs that the filter keeps.
\<close>

theorem connected_components_exact:
  assumes "state_queue Q valid ok queued" "ok q" "queued q = {}" "\<And>s. s < NumStates f \<Longrightarrow> valid s"
    and "wf_fst f" "start f = Some i"
  shows "\<exists>u q' cc ncomp. Visit f CcVisitor Q d keep False (Some new_CcVisitor) q = Some (Some u, q') \<and>
    cc_vector u = Some cc \<and> length cc = NumStates f \<and> set cc = Some ` {..<ncomp} \<and>
    (\<forall>s < NumStates f. \<forall>t < NumStates f. cc ! s = cc ! t \<longleftrightarrow> (s, t) \<in> (kept_edges keep f \<union> (kept_edges keep f)\<inverse>)\<^sup>*)"
  using assms by (rule cc_components)

theorem connected_components_exact_witness:
  "\<exists>u q' cc ncomp. Visit (sample 3) CcVisitor FifoQueue [] (\<lambda>_. True) False (Some new_CcVisitor) [] = Some (Some u, q') \<and>
    cc_vector u = Some cc \<and> length cc = NumStates (sample 3) \<and> set cc = Some ` {..<ncomp} \<and> cc ! 0 = cc ! 1"
proof -
  let ?f = "sample 3"
  have "(0, Arc 3 3 (sw_of_label 3) 1) \<in> trans ?f" by (simp add: trans_iff NumStates_def Arcs_def sample_states)
  then have "(0, 1) \<in> kept_edges (\<lambda>_. True) ?f" by (force simp: kept_edges_def)
  then have e: "(0, 1) \<in> (kept_edges (\<lambda>_. True) ?f \<union> (kept_edges (\<lambda>_. True) ?f)\<inverse>)\<^sup>*" by blast
  have n: "0 < NumStates ?f" "1 < NumStates ?f" by (simp_all add: NumStates_def sample_states)
  show ?thesis
    using connected_components_exact [OF fifo.state_queue_axioms _ _ _ sample_wf(1) [of 3] sample_states(2) [of 3],
        where q = "[]" and d = "[]" and keep = "\<lambda>_. True"] e n by fastforce
qed

end
